(* ===== verification/Prelude.thy ===== *)
theory Prelude
  imports Main "HOL-Library.Word" "HOL-Library.AList"
begin

text \<open>
  Shared vocabulary of the development: JavaScript strings and the few string operations the
  modelled code calls, decimal printing, byte and list lemmas, and the two interfaces every
  incremental decoder of the program implements (\<open>framer\<close> and \<open>step_framer\<close>).

  A JavaScript string is modelled as a \<^typ>\<open>string\<close>, one \<^typ>\<open>char\<close> per UTF-16 code unit.
  Code units above 255 are therefore outside the model; the protocols modelled here (GDB/MI,
  log lines, session names) are ASCII.
\<close>

named_theorems framing \<open>rules that push a decoder through an appended chunk\<close>

type_synonym byte = "8 word"
type_synonym bytes = "8 word list"
type_synonym jstr = string

subsection \<open>JavaScript string operations\<close>

text \<open>The code units below 256 that \<open>\s\<close> and \<open>String.prototype.trim\<close> treat as white space.\<close>

definition js_ws :: "char \<Rightarrow> bool" where
  "js_ws c = (c \<in> set [CHR 0x09, CHR 0x0A, CHR 0x0B, CHR 0x0C, CHR 0x0D, CHR 0x20, CHR 0xA0])"

abbreviation NL :: char where "NL \<equiv> CHR 0x0A"
abbreviation CR :: char where "CR \<equiv> CHR 0x0D"
abbreviation BSL :: char where "BSL \<equiv> CHR 0x5C"
abbreviation DQ :: char where "DQ \<equiv> CHR 0x22"

definition js_trim_start :: "jstr \<Rightarrow> jstr" where
  "js_trim_start s = dropWhile js_ws s"

definition js_trim_end :: "jstr \<Rightarrow> jstr" where
  "js_trim_end s = rev (dropWhile js_ws (rev s))"

definition js_trim :: "jstr \<Rightarrow> jstr" where
  "js_trim s = js_trim_end (js_trim_start s)"

definition starts_with :: "'a list \<Rightarrow> 'a list \<Rightarrow> bool" where
  "starts_with p s = (take (length p) s = p)"

definition ends_with :: "'a list \<Rightarrow> 'a list \<Rightarrow> bool" where
  "ends_with p s = (length p \<le> length s \<and> drop (length s - length p) s = p)"

text \<open>\<open>toLowerCase\<close>, on the code units below 256.\<close>

definition lower_char :: "char \<Rightarrow> char" where
  "lower_char c = (let n = of_char c :: nat in
     if 65 \<le> n \<and> n \<le> 90 \<or> 192 \<le> n \<and> n \<le> 222 \<and> n \<noteq> 215 then char_of (n + 32) else c)"

definition js_lower :: "jstr \<Rightarrow> jstr" where
  "js_lower s = map lower_char s"

text \<open>\<open>s.indexOf(c)\<close> for a single code unit: \<open>None\<close> stands for \<open>-1\<close>.\<close>

fun index_of :: "'a \<Rightarrow> 'a list \<Rightarrow> nat option" where
  "index_of c [] = None"
| "index_of c (x # xs) = (if x = c then Some 0 else map_option Suc (index_of c xs))"

text \<open>\<open>s.split(c)\<close> for a single code unit.\<close>

fun split_on :: "'a \<Rightarrow> 'a list \<Rightarrow> 'a list list" where
  "split_on c [] = [[]]"
| "split_on c (x # xs) =
     (if x = c then [] # split_on c xs
      else (case split_on c xs of [] \<Rightarrow> [[x]] | y # ys \<Rightarrow> (x # y) # ys))"

text \<open>\<open>xs.join(sep)\<close>.\<close>

fun join_with :: "'a list \<Rightarrow> 'a list list \<Rightarrow> 'a list" where
  "join_with sep [] = []"
| "join_with sep [x] = x"
| "join_with sep (x # y # ys) = x @ sep @ join_with sep (y # ys)"

text \<open>Decimal printing of a non-negative integer, as in a template literal.\<close>

definition digit_char :: "nat \<Rightarrow> char" where
  "digit_char d = char_of (48 + d)"

fun show_nat :: "nat \<Rightarrow> jstr" where
  "show_nat n = (if n < 10 then [digit_char n] else show_nat (n div 10) @ [digit_char (n mod 10)])"

declare show_nat.simps [simp del]

text \<open>A digit of \<open>toString(16)\<close>.\<close>

definition hex_digit :: "nat \<Rightarrow> char" where
  "hex_digit d = (if d < 10 then char_of (48 + d) else char_of (87 + d))"

definition is_digit :: "char \<Rightarrow> bool" where
  "is_digit c = (of_char c \<ge> (48::nat) \<and> of_char c \<le> (57::nat))"

definition digit_val :: "char \<Rightarrow> nat" where
  "digit_val c = of_char c - 48"

text \<open>\<open>parseInt(s)\<close> on a string of decimal digits; \<open>None\<close> stands for \<open>NaN\<close>.\<close>

definition dec_val :: "jstr \<Rightarrow> nat" where
  "dec_val s = foldl (\<lambda>n c. 10 * n + digit_val c) 0 s"

definition parse_int :: "jstr \<Rightarrow> nat option" where
  "parse_int s = (let ds = takeWhile is_digit (js_trim_start s) in
     if ds = [] then None else Some (dec_val ds))"

subsection \<open>String lemmas\<close>

lemma js_ws_simps [simp]:
  "js_ws NL" "js_ws CR" "\<not> js_ws BSL" "\<not> js_ws DQ"
  by (simp_all add: js_ws_def)

lemma index_of_None_iff: "index_of c s = None \<longleftrightarrow> c \<notin> set s"
  by (induction s) auto

lemma index_of_notin [simp]: "c \<notin> set s \<Longrightarrow> index_of c s = None"
  by (simp add: index_of_None_iff)

lemma index_of_Some_split:
  "index_of c s = Some i \<Longrightarrow>
     i < length s \<and> s ! i = c \<and> c \<notin> set (take i s) \<and> s = take i s @ c # drop (Suc i) s"
proof (induction s arbitrary: i)
  case (Cons x xs)
  then show ?case by (cases i) (auto split: if_splits)
qed simp

lemma index_of_append_in: "c \<in> set s \<Longrightarrow> index_of c (s @ t) = index_of c s"
  by (induction s) auto

lemma index_of_append_notin:
  "c \<notin> set s \<Longrightarrow> index_of c (s @ t) = map_option ((+) (length s)) (index_of c t)"
proof (induction s)
  case Nil
  then show ?case by (cases "index_of c t") (simp_all only: append_Nil list.size option.map add_0)
next
  case (Cons a s)
  then have "a \<noteq> c" "c \<notin> set s" by auto
  with Cons.IH show ?case by (cases "index_of c t") simp_all
qed

lemma starts_with_append [simp]: "starts_with p (p @ s)"
  by (simp add: starts_with_def)

lemma split_on_ne [simp]: "split_on c s \<noteq> []"
  by (induction s) (auto split: list.splits)

lemma join_split [simp]: "join_with [c] (split_on c s) = s"
proof (induction s)
  case (Cons x xs)
  then show ?case
    by (cases "split_on c xs"; cases "tl (split_on c xs)") auto
qed simp

lemma split_on_no_sep: "c \<notin> set s \<Longrightarrow> split_on c s = [s]"
  by (induction s) auto

lemma split_on_last: "c \<notin> set (last (split_on c s))"
  by (induction s) (auto split: list.splits)

lemma split_on_parts: "p \<in> set (split_on c s) \<Longrightarrow> c \<notin> set p"
proof (induction s arbitrary: p)
  case (Cons x xs)
  then show ?case by (cases "split_on c xs") (auto split: if_splits)
qed simp

lemma length_trim_start: "length (js_trim_start s) \<le> length s"
  by (simp add: js_trim_start_def length_dropWhile_le)

lemma js_trim_start_id: "s = [] \<or> \<not> js_ws (hd s) \<Longrightarrow> js_trim_start s = s"
  by (cases s) (auto simp: js_trim_start_def)

lemma js_trim_end_id: "s = [] \<or> \<not> js_ws (last s) \<Longrightarrow> js_trim_end s = s"
  by (cases s rule: rev_cases) (auto simp: js_trim_end_def)

lemma js_trim_id:
  "s = [] \<or> \<not> js_ws (hd s) \<and> \<not> js_ws (last s) \<Longrightarrow> js_trim s = s"
  by (auto simp: js_trim_def js_trim_start_id js_trim_end_id)

lemma is_digit_digit_char: "d < 10 \<Longrightarrow> is_digit (digit_char d)"
  by (simp add: is_digit_def digit_char_def)

lemma digit_val_digit_char: "d < 10 \<Longrightarrow> digit_val (digit_char d) = d"
  by (simp add: digit_val_def digit_char_def)

lemma show_nat_ne [simp]: "show_nat n \<noteq> []"
  by (subst show_nat.simps) simp

lemma show_nat_digits: "\<forall>c \<in> set (show_nat n). is_digit c"
proof (induction n rule: show_nat.induct)
  case (1 n)
  show ?case
  proof (cases "n < 10")
    case True
    then show ?thesis by (subst show_nat.simps) (simp add: is_digit_digit_char)
  next
    case False
    with 1 show ?thesis by (subst show_nat.simps) (auto intro: is_digit_digit_char)
  qed
qed

lemma dec_val_snoc [simp]: "dec_val (s @ [c]) = 10 * dec_val s + digit_val c"
  by (simp add: dec_val_def)

lemma dec_val_show_nat [simp]: "dec_val (show_nat n) = n"
proof (induction n rule: show_nat.induct)
  case (1 n)
  show ?case
  proof (cases "n < 10")
    case True
    then show ?thesis by (subst show_nat.simps) (simp add: dec_val_def digit_val_digit_char)
  next
    case False
    with 1 show ?thesis by (subst show_nat.simps) (simp add: digit_val_digit_char)
  qed
qed

lemma show_nat_inj [simp]: "show_nat m = show_nat n \<longleftrightarrow> m = n"
  using dec_val_show_nat by metis

lemma is_digit_not_ws: "is_digit c \<Longrightarrow> \<not> js_ws c"
  by (auto simp: is_digit_def js_ws_def)

lemma takeWhile_digits_append:
  "\<forall>c \<in> set s. is_digit c \<Longrightarrow> t = [] \<or> \<not> is_digit (hd t) \<Longrightarrow> takeWhile is_digit (s @ t) = s"
  by (induction s) (auto simp: takeWhile_eq_Nil_iff)

lemma dropWhile_digits_append:
  "\<forall>c \<in> set s. is_digit c \<Longrightarrow> t = [] \<or> \<not> is_digit (hd t) \<Longrightarrow> dropWhile is_digit (s @ t) = t"
  by (induction s) (auto simp: dropWhile_eq_self_iff)

lemma parse_int_show_nat [simp]: "parse_int (show_nat n) = Some n"
proof -
  have "js_trim_start (show_nat n) = show_nat n"
    using show_nat_digits[of n] by (intro js_trim_start_id) (metis is_digit_not_ws list.set_sel(1))
  moreover have "takeWhile is_digit (show_nat n) = show_nat n"
    using show_nat_digits[of n] takeWhile_digits_append[of "show_nat n" "[]"] by simp
  ultimately show ?thesis by (simp only: parse_int_def Let_def dec_val_show_nat show_nat_ne if_False)
qed

subsection \<open>Keeping the most recent elements\<close>

definition last_n :: "nat \<Rightarrow> 'a list \<Rightarrow> 'a list" where
  "last_n n xs = drop (length xs - n) xs"

lemma length_last_n [simp]: "length (last_n n xs) = min n (length xs)"
  by (auto simp: last_n_def)

lemma last_n_short: "length xs \<le> n \<Longrightarrow> last_n n xs = xs"
  by (simp add: last_n_def)

lemma last_n_last_n_append: "last_n n (last_n n xs @ ys) = last_n n (xs @ ys)"
  by (cases "length xs \<le> n") (auto simp: last_n_def drop_append add.commute)

lemma split_on_append_sep: "c \<notin> set s \<Longrightarrow> split_on c (s @ c # t) = s # split_on c t"
  by (induction s) auto

lemma split_join: "xs \<noteq> [] \<Longrightarrow> \<forall>x \<in> set xs. c \<notin> set x \<Longrightarrow> split_on c (join_with [c] xs) = xs"
  by (induction "[c]" xs rule: join_with.induct) (auto simp: split_on_no_sep split_on_append_sep)

lemma update_fresh: "k \<notin> fst ` set al \<Longrightarrow> AList.update k v al = al @ [(k, v)]"
  by (induction al) auto

subsection \<open>Little-endian words\<close>

text \<open>\<open>writeUInt32LE\<close> and \<open>readUInt32LE\<close>.\<close>

definition write_u32_le :: "nat \<Rightarrow> bytes" where
  "write_u32_le n = [of_nat n, of_nat (n div 256), of_nat (n div 65536), of_nat (n div 16777216)]"

fun read_u32_le :: "bytes \<Rightarrow> nat" where
  "read_u32_le (a # b # c # d # _) = unat a + 256 * unat b + 65536 * unat c + 16777216 * unat d"
| "read_u32_le _ = 0"

lemma unat_of_nat_byte: "unat (of_nat n :: byte) = n mod 256"
  by (simp add: unat_of_nat)

lemma u32_digits: "n mod 256 + 256 * (n div 256 mod 256) + 65536 * (n div 65536 mod 256)
    + 16777216 * (n div 16777216 mod 256) = n" if "n < 2 ^ 32" for n :: nat
proof -
  have d: "n div 65536 = n div 256 div 256" "n div 16777216 = n div 256 div 256 div 256"
    by (simp_all add: div_mult2_eq)
  have "n div 256 div 256 div 256 < 256" using that by (simp add: div_mult2_eq[symmetric] less_mult_imp_div_less)
  then have "n div 256 div 256 div 256 mod 256 = n div 256 div 256 div 256" by simp
  moreover have "m = m mod 256 + 256 * (m div 256)" for m :: nat by simp
  note this[of n] this[of "n div 256"] this[of "n div 256 div 256"]
  ultimately show ?thesis unfolding d by linarith
qed

lemma read_write_u32: "n < 2 ^ 32 \<Longrightarrow> read_u32_le (write_u32_le n @ rest) = n"
  using u32_digits[of n] by (simp add: write_u32_le_def unat_of_nat_byte)

subsection \<open>Incremental decoders\<close>

text \<open>
  Every byte or text source of the program (sockets, pipes, probes) delivers its data in chunks
  whose boundaries mean nothing. A decoder is right only if its output does not depend on them.
\<close>

fun run_chunks :: "('s \<Rightarrow> 'a list \<Rightarrow> 's \<times> 'm list) \<Rightarrow> 's \<Rightarrow> 'a list list \<Rightarrow> 's \<times> 'm list" where
  "run_chunks feed s [] = (s, [])"
| "run_chunks feed s (c # cs) =
     (let (s1, out1) = feed s c; (s2, out2) = run_chunks feed s1 cs in (s2, out1 @ out2))"

fun run_steps :: "('s \<Rightarrow> 'a \<Rightarrow> 's \<times> 'm list) \<Rightarrow> 's \<Rightarrow> 'a list \<Rightarrow> 's \<times> 'm list" where
  "run_steps step s [] = (s, [])"
| "run_steps step s (x # xs) =
     (let (s1, out1) = step s x; (s2, out2) = run_steps step s1 xs in (s2, out1 @ out2))"

lemma run_steps_append [framing]:
  "run_steps step s (xs @ ys) =
     (let (s1, out1) = run_steps step s xs; (s2, out2) = run_steps step s1 ys in (s2, out1 @ out2))"
  by (induction xs arbitrary: s) (auto split: prod.splits simp: Let_def)

locale framer =
  fixes invar :: "'s \<Rightarrow> bool"
    and feed :: "'s \<Rightarrow> 'a list \<Rightarrow> 's \<times> 'm list"
  assumes invar_feed: "invar s \<Longrightarrow> invar (fst (feed s xs))"
    and feed_nil: "invar s \<Longrightarrow> feed s [] = (s, [])"
    and feed_append: "invar s \<Longrightarrow> feed s (xs @ ys) =
          (let (s1, out1) = feed s xs; (s2, out2) = feed s1 ys in (s2, out1 @ out2))"
begin

lemma run_chunks_concat: "invar s \<Longrightarrow> run_chunks feed s cs = feed s (concat cs)"
proof (induction cs arbitrary: s)
  case Nil
  then show ?case by (simp add: feed_nil)
next
  case (Cons c cs)
  obtain s1 out1 where f: "feed s c = (s1, out1)" by force
  with invar_feed[OF Cons.prems, of c] have "invar s1" by simp
  then show ?case using Cons f by (simp add: feed_append)
qed

lemma chunking_irrelevant:
  "invar s \<Longrightarrow> concat cs = concat ds \<Longrightarrow> run_chunks feed s cs = run_chunks feed s ds"
  by (simp add: run_chunks_concat)

lemma invar_run: "invar s \<Longrightarrow> invar (fst (run_chunks feed s cs))"
  by (simp add: run_chunks_concat invar_feed)

end

locale step_framer =
  fixes invar :: "'s \<Rightarrow> bool"
    and step :: "'s \<Rightarrow> 'a \<Rightarrow> 's \<times> 'm list"
  assumes invar_step: "invar s \<Longrightarrow> invar (fst (step s x))"
begin

lemma invar_run_steps: "invar s \<Longrightarrow> invar (fst (run_steps step s xs))"
proof (induction xs arbitrary: s)
  case (Cons x xs)
  obtain s1 out1 where f: "step s x = (s1, out1)" by force
  with invar_step[OF Cons.prems, of x] have "invar s1" by simp
  with Cons.IH[of s1] f show ?case by (cases "run_steps step s1 xs") simp
qed simp

end

sublocale step_framer \<subseteq> framer invar "run_steps step"
  by unfold_locales (auto simp: invar_run_steps run_steps_append)

end
