(* ===== verification/RingBuffer.thy ===== *)
theory RingBuffer
  imports Prelude
begin

text \<open>
  \<open>BinaryRingBuffer\<close> of \<open>packages/mcu-debug/src/common/ring-buffer.ts\<close>: a fixed block of
  bytes with a read and a write position, refined to "the last \<open>capacity\<close> bytes written".
  The capacity is positive (the only instance, in \<open>logger.ts\<close>, has 10240 bytes); with
  capacity 0 the source computes \<open>% 0\<close>, which the model does not follow.
\<close>

record rbuf =
  rb_buffer :: bytes
  rb_head :: nat
  rb_tail :: nat
  rb_full :: bool
  rb_cap :: nat
  rb_over :: bool

definition rb_new :: "nat \<Rightarrow> rbuf" where
  "rb_new capacity = \<lparr>rb_buffer = replicate capacity 0, rb_head = 0, rb_tail = 0,
     rb_full = False, rb_cap = capacity, rb_over = False\<rparr>"

definition rb_is_empty :: "rbuf \<Rightarrow> bool" where
  "rb_is_empty s = (rb_head s = rb_tail s \<and> \<not> rb_full s)"

definition rb_write :: "rbuf \<Rightarrow> byte \<Rightarrow> rbuf" where
  "rb_write s b =
     (let s1 = s\<lparr>rb_buffer := (rb_buffer s)[rb_tail s := b]\<rparr>;
          s2 = (if rb_full s1
                then s1\<lparr>rb_head := (rb_head s1 + 1) mod rb_cap s1, rb_over := True\<rparr> else s1);
          s3 = s2\<lparr>rb_tail := (rb_tail s2 + 1) mod rb_cap s2\<rparr>
      in s3\<lparr>rb_full := (rb_tail s3 = rb_head s3)\<rparr>)"

definition rb_write_buffer :: "rbuf \<Rightarrow> bytes \<Rightarrow> rbuf" where
  "rb_write_buffer s data = foldl rb_write s data"

definition rb_read :: "rbuf \<Rightarrow> byte option \<times> rbuf" where
  "rb_read s =
     (if rb_tail s = rb_head s \<and> \<not> rb_full s then (None, s)
      else (Some (rb_buffer s ! rb_head s),
            s\<lparr>rb_full := False, rb_head := (rb_head s + 1) mod rb_cap s\<rparr>))"

text \<open>
  \<open>Buffer.subarray\<close> shares memory with the ring; \<open>Buffer.concat\<close> allocates. A snapshot is
  therefore either a window (from, to) on the live buffer or bytes of its own, and reading a
  window depends on the state in which it is read.
\<close>

datatype snap = Window nat nat | Fresh bytes

fun snap_bytes :: "rbuf \<Rightarrow> snap \<Rightarrow> bytes" where
  "snap_bytes s (Window a b) = take (b - a) (drop a (rb_buffer s))"
| "snap_bytes s (Fresh bs) = bs"

fun snap_from :: "nat \<Rightarrow> snap \<Rightarrow> snap" where
  "snap_from i (Window a b) = Window (min b (a + i)) b"
| "snap_from i (Fresh bs) = Fresh (drop i bs)"

definition rb_snapshot :: "rbuf \<Rightarrow> snap" where
  "rb_snapshot s =
     (if rb_full s then Fresh (drop (rb_head s) (rb_buffer s) @ take (rb_head s) (rb_buffer s))
      else if rb_tail s \<ge> rb_head s then Window (rb_head s) (rb_tail s)
      else Fresh (drop (rb_head s) (rb_buffer s) @ take (rb_tail s) (rb_buffer s)))"

definition rb_snapshot_from_record_start :: "rbuf \<Rightarrow> byte \<Rightarrow> snap" where
  "rb_snapshot_from_record_start s delimiter =
     (let snap = rb_snapshot s in
      if \<not> rb_over s then snap
      else (case index_of delimiter (snap_bytes s snap) of
              None \<Rightarrow> Fresh []
            | Some idx \<Rightarrow> snap_from (idx + 1) snap))"

definition rb_clear :: "rbuf \<Rightarrow> rbuf" where
  "rb_clear s = s\<lparr>rb_head := 0, rb_tail := 0, rb_full := False, rb_over := False\<rparr>"

subsection \<open>Invariant and abstraction\<close>

definition rb_inv :: "rbuf \<Rightarrow> bool" where
  "rb_inv s \<longleftrightarrow> 0 < rb_cap s \<and> length (rb_buffer s) = rb_cap s \<and> rb_head s < rb_cap s \<and>
     rb_tail s < rb_cap s \<and> (rb_full s \<longrightarrow> rb_head s = rb_tail s)"

definition rb_count :: "rbuf \<Rightarrow> nat" where
  "rb_count s = (if rb_full s then rb_cap s else (rb_tail s + rb_cap s - rb_head s) mod rb_cap s)"

definition rb_contents :: "rbuf \<Rightarrow> bytes" where
  "rb_contents s = map (\<lambda>i. rb_buffer s ! ((rb_head s + i) mod rb_cap s)) [0..<rb_count s]"

lemmas rb_defs = rb_write_def rb_read_def rb_clear_def rb_new_def Let_def

lemma rb_inv_new [simp]: "0 < n \<Longrightarrow> rb_inv (rb_new n)"
  by (simp add: rb_inv_def rb_new_def)

lemma rb_write_sel:
  "rb_buffer (rb_write s b) = (rb_buffer s)[rb_tail s := b]"
  "rb_head (rb_write s b) = (if rb_full s then (rb_head s + 1) mod rb_cap s else rb_head s)"
  "rb_tail (rb_write s b) = (rb_tail s + 1) mod rb_cap s"
  "rb_full (rb_write s b) = (rb_tail (rb_write s b) = rb_head (rb_write s b))"
  by (simp_all add: rb_write_def Let_def)

lemma rb_inv_write [simp]:
  assumes "rb_inv s"
  shows "rb_inv (rb_write s b)"
proof -
  have cap: "rb_cap (rb_write s b) = rb_cap s" by (simp add: rb_write_def Let_def)
  have pos: "0 < rb_cap s" and len: "length (rb_buffer s) = rb_cap s"
    and h: "rb_head s < rb_cap s" using assms by (simp_all add: rb_inv_def)
  have "rb_head (rb_write s b) < rb_cap s" using pos h by (simp add: rb_write_sel)
  moreover have "rb_tail (rb_write s b) < rb_cap s" using pos by (simp add: rb_write_sel)
  moreover have "length (rb_buffer (rb_write s b)) = rb_cap s" using len by (simp add: rb_write_sel)
  moreover have "rb_full (rb_write s b) \<longrightarrow> rb_head (rb_write s b) = rb_tail (rb_write s b)"
    using rb_write_sel(4)[of s b] by metis
  ultimately show ?thesis unfolding rb_inv_def cap using pos by blast
qed

lemma rb_read_nonempty:
  "\<not> (rb_tail s = rb_head s \<and> \<not> rb_full s) \<Longrightarrow>
     rb_read s = (Some (rb_buffer s ! rb_head s),
                  s\<lparr>rb_full := False, rb_head := (rb_head s + 1) mod rb_cap s\<rparr>)"
  by (simp only: rb_read_def if_False)

lemma rb_inv_read: "rb_inv s \<Longrightarrow> rb_inv (snd (rb_read s))"
proof (cases "rb_tail s = rb_head s \<and> \<not> rb_full s")
  case False
  assume "rb_inv s"
  then have "0 < rb_cap s" "length (rb_buffer s) = rb_cap s" "rb_tail s < rb_cap s"
    by (simp_all add: rb_inv_def)
  then show ?thesis unfolding rb_read_nonempty[OF False] by (simp add: rb_inv_def)
qed (simp add: rb_read_def)

lemma rb_inv_clear: "rb_inv s \<Longrightarrow> rb_inv (rb_clear s)"
  by (auto simp: rb_inv_def rb_clear_def)

lemma rb_cap_write [simp]: "rb_cap (rb_write s b) = rb_cap s"
  by (simp add: rb_write_def Let_def)

lemma rb_over_write: "rb_over (rb_write s b) = (rb_over s \<or> rb_full s)"
  by (simp add: rb_write_def Let_def)

lemma rb_count_le: "rb_inv s \<Longrightarrow> rb_count s \<le> rb_cap s"
  by (auto simp: rb_count_def rb_inv_def intro: less_imp_le)

lemma rb_full_iff_count: "rb_inv s \<Longrightarrow> rb_full s \<longleftrightarrow> rb_count s = rb_cap s"
  by (metis less_irrefl mod_less_divisor rb_count_def rb_inv_def)

lemma length_rb_contents [simp]: "length (rb_contents s) = rb_count s"
  by (simp add: rb_contents_def)

lemma ring_distance:
  fixes h t c :: nat
  assumes "h < c" "t < c"
  shows "(h + (t + c - h) mod c) mod c = t"
proof -
  have "(h + (t + c - h) mod c) mod c = (h + (t + c - h)) mod c" by (simp add: mod_simps)
  also have "\<dots> = t" using assms by simp
  finally show ?thesis .
qed

lemma rb_tail_at_count: "rb_inv s \<Longrightarrow> rb_tail s = (rb_head s + rb_count s) mod rb_cap s"
  by (auto simp: rb_count_def rb_inv_def ring_distance)

lemma ring_slot_neq:
  fixes h i n c :: nat
  assumes "i < n" "n < c"
  shows "(h + i) mod c \<noteq> (h + n) mod c"
proof
  assume "(h + i) mod c = (h + n) mod c"
  then have "c dvd (h + n) - (h + i)" using assms(1)
    by (metis mod_eq_dvd_iff_nat nat_add_left_cancel_le less_imp_le)
  then have "c \<le> n - i" using assms by (auto dest: dvd_imp_le)
  with assms show False by linarith
qed

lemma rb_contents_write_room:
  assumes "rb_inv s" "\<not> rb_full s"
  shows "rb_contents (rb_write s b) = rb_contents s @ [b]"
proof -
  let ?c = "rb_cap s" and ?h = "rb_head s" and ?n = "rb_count s"
  have c: "0 < ?c" and len: "length (rb_buffer s) = ?c" using assms(1) by (simp_all add: rb_inv_def)
  have n: "?n < ?c"
    using assms rb_count_le[OF assms(1)] rb_full_iff_count[OF assms(1)] by linarith
  have t: "rb_tail s = (?h + ?n) mod ?c" by (rule rb_tail_at_count[OF assms(1)])
  have tail': "rb_tail (rb_write s b) = (?h + Suc ?n) mod ?c"
    and head': "rb_head (rb_write s b) = ?h"
    and buf': "rb_buffer (rb_write s b) = (rb_buffer s)[(?h + ?n) mod ?c := b]"
    using assms(2) t by (simp_all add: rb_write_sel mod_Suc_eq)
  have n': "rb_count (rb_write s b) = Suc ?n"
  proof (cases "Suc ?n = ?c")
    case True
    then have "rb_tail (rb_write s b) = ?h" using assms(1) tail' by (simp add: rb_inv_def)
    then have "rb_full (rb_write s b)" using head' by (simp add: rb_write_sel(4))
    then show ?thesis using True by (simp add: rb_count_def)
  next
    case False
    then have "Suc ?n < ?c" using n by simp
    then have ne: "rb_tail (rb_write s b) \<noteq> ?h"
      using tail' ring_slot_neq[of 0 "Suc ?n" ?c ?h] assms(1) by (auto simp: rb_inv_def)
    then have "\<not> rb_full (rb_write s b)" using head' by (simp add: rb_write_sel(4))
    moreover have "((?h + Suc ?n) mod ?c + ?c - ?h) mod ?c = Suc ?n"
    proof -
      have "?h < ?c" using assms(1) by (simp add: rb_inv_def)
      then show ?thesis using \<open>Suc ?n < ?c\<close>
        by (cases "?h + Suc ?n < ?c") (simp_all add: le_mod_geq)
    qed
    ultimately show ?thesis using tail' head' by (simp add: rb_count_def)
  qed
  have idx: "(rb_buffer s)[(?h + ?n) mod ?c := b] ! ((?h + i) mod ?c) = rb_buffer s ! ((?h + i) mod ?c)"
    if "i < ?n" for i
    using ring_slot_neq[OF that n, of ?h] by simp
  show ?thesis
    using n' head' buf' idx c len by (simp add: rb_contents_def)
qed

lemma rb_contents_write_full:
  assumes "rb_inv s" "rb_full s"
  shows "rb_contents (rb_write s b) = tl (rb_contents s) @ [b]"
proof -
  let ?c = "rb_cap s" and ?h = "rb_head s"
  have c: "0 < ?c" and ht: "rb_tail s = ?h" "?h < ?c" and len: "length (rb_buffer s) = ?c"
    using assms by (auto simp: rb_inv_def)
  have f: "rb_full (rb_write s b)" "rb_head (rb_write s b) = (?h + 1) mod ?c"
    "rb_buffer (rb_write s b) = (rb_buffer s)[?h := b]"
    using assms ht by (simp_all add: rb_write_sel)
  obtain m where m: "?c = Suc m" using c by (cases ?c) auto
  have last: "((?h + 1) mod ?c + m) mod ?c = ?h"
  proof -
    have "((?h + 1) mod ?c + m) mod ?c = (?h + ?c) mod ?c" unfolding m by (simp add: mod_simps)
    with ht show ?thesis by simp
  qed
  have idx: "(rb_buffer s)[?h := b] ! (((?h + 1) mod ?c + i) mod ?c) = rb_buffer s ! ((?h + Suc i) mod ?c)"
    if "i < m" for i
  proof -
    have "((?h + 1) mod ?c + i) mod ?c = (?h + Suc i) mod ?c" by (simp add: mod_simps)
    moreover have "(?h + Suc i) mod ?c \<noteq> ?h"
      using ring_slot_neq[of 0 "Suc i" ?c ?h] that m ht by auto
    ultimately show ?thesis by simp
  qed
  have "rb_contents (rb_write s b) = map (\<lambda>i. rb_buffer s ! ((?h + Suc i) mod ?c)) [0..<m] @ [b]"
    using f idx last len ht m by (simp add: rb_contents_def rb_count_def)
  moreover have "tl (rb_contents s) = map (\<lambda>i. rb_buffer s ! ((?h + Suc i) mod ?c)) [0..<m]"
    using assms(2) m
    by (simp add: rb_contents_def rb_count_def map_tl[symmetric] del: upt_Suc)
       (simp add: upt_conv_Cons map_Suc_upt[symmetric] comp_def del: upt_Suc map_Suc_upt)
  ultimately show ?thesis by simp
qed

subsection \<open>The replay log interface\<close>

text \<open>
  What \<open>CustomTransport\<close> (\<open>common/logger.ts\<close>) relies on: a bounded log holds exactly the most
  recent bytes written to it.
\<close>

locale replay_log =
  fixes log_inv :: "'s \<Rightarrow> bool"
    and log_write :: "'s \<Rightarrow> 'b \<Rightarrow> 's"
    and log_contents :: "'s \<Rightarrow> 'b list"
    and log_cap :: "'s \<Rightarrow> nat"
  assumes log_inv_write: "log_inv s \<Longrightarrow> log_inv (log_write s b)"
    and log_cap_write: "log_cap (log_write s b) = log_cap s"
    and log_contents_write:
      "log_inv s \<Longrightarrow> log_contents (log_write s b) = last_n (log_cap s) (log_contents s @ [b])"
    and log_contents_bound: "log_inv s \<Longrightarrow> length (log_contents s) \<le> log_cap s"
begin

lemma log_inv_writes: "log_inv s \<Longrightarrow> log_inv (foldl log_write s bs)"
  by (induction bs arbitrary: s) (simp_all add: log_inv_write)

lemma log_cap_writes [simp]: "log_cap (foldl log_write s bs) = log_cap s"
  by (induction bs arbitrary: s) (simp_all add: log_cap_write)

lemma log_contents_writes:
  "log_inv s \<Longrightarrow> log_contents (foldl log_write s bs) = last_n (log_cap s) (log_contents s @ bs)"
proof (induction bs arbitrary: s)
  case Nil
  then show ?case by (simp add: last_n_short log_contents_bound)
next
  case (Cons b bs)
  then show ?case
    by (simp add: log_inv_write log_cap_write log_contents_write last_n_last_n_append)
qed

end

lemma rb_contents_write:
  assumes "rb_inv s"
  shows "rb_contents (rb_write s b) = last_n (rb_cap s) (rb_contents s @ [b])"
proof (cases "rb_full s")
  case True
  then have "rb_count s = rb_cap s" using assms rb_full_iff_count by blast
  then have "length (rb_contents s @ [b]) - rb_cap s = 1" and "rb_contents s \<noteq> []"
    using assms by (auto simp: rb_inv_def simp flip: length_0_conv)
  then have "last_n (rb_cap s) (rb_contents s @ [b]) = tl (rb_contents s) @ [b]"
    unfolding last_n_def by (cases "rb_contents s") simp_all
  with True assms show ?thesis by (simp add: rb_contents_write_full)
next
  case False
  then have "rb_count s < rb_cap s" using assms rb_full_iff_count rb_count_le le_neq_implies_less by blast
  with False assms show ?thesis by (simp add: rb_contents_write_room last_n_short)
qed

interpretation ring: replay_log rb_inv rb_write rb_contents rb_cap
  by unfold_locales (simp_all add: rb_contents_write rb_count_le)

subsection \<open>Snapshots\<close>

lemma map_nth_window: "b \<le> length xs \<Longrightarrow> map ((!) xs) [a..<b] = take (b - a) (drop a xs)"
  by (rule nth_equalityI) auto

lemma map_ring_wrap:
  assumes "h < c" "t \<le> h" "length xs = c"
  shows "map (\<lambda>i. xs ! ((h + i) mod c)) [0..<c - h + t] = drop h xs @ take t xs"
proof (rule nth_equalityI)
  fix i assume "i < length (map (\<lambda>i. xs ! ((h + i) mod c)) [0..<c - h + t])"
  then have i: "i < c - h + t" by simp
  then have "map (\<lambda>i. xs ! ((h + i) mod c)) [0..<c - h + t] ! i = xs ! ((h + i) mod c)" by simp
  moreover have "(h + i) mod c = (if i < c - h then h + i else i - (c - h))"
    using i assms by (auto simp: le_mod_geq)
  ultimately show "map (\<lambda>i. xs ! ((h + i) mod c)) [0..<c - h + t] ! i = (drop h xs @ take t xs) ! i"
    using i assms by (auto simp: nth_append)
qed (use assms in simp)

lemma rb_snapshot_contents:
  assumes "rb_inv s"
  shows "snap_bytes s (rb_snapshot s) = rb_contents s"
proof -
  let ?c = "rb_cap s" and ?h = "rb_head s" and ?t = "rb_tail s" and ?xs = "rb_buffer s"
  have c: "?h < ?c" "?t < ?c" "length ?xs = ?c" using assms by (simp_all add: rb_inv_def)
  consider (full) "rb_full s" | (lin) "\<not> rb_full s" "?h \<le> ?t" | (wrap) "\<not> rb_full s" "?t < ?h"
    by linarith
  then show ?thesis
  proof cases
    case full
    then show ?thesis using map_ring_wrap[of ?h ?c ?h ?xs] c
      by (simp add: rb_snapshot_def rb_contents_def rb_count_def)
  next
    case lin
    then have "?t + ?c - ?h = (?t - ?h) + ?c" by simp
    then have n: "rb_count s = ?t - ?h" using lin(1) c(2)
      by (simp only: rb_count_def if_False mod_add_self2) (simp add: less_imp_diff_less)
    have "map (\<lambda>i. ?xs ! ((?h + i) mod ?c)) [0..<?t - ?h] = take (?t - ?h) (drop ?h ?xs)"
      using c lin by (intro nth_equalityI) auto
    with lin n show ?thesis by (simp add: rb_snapshot_def rb_contents_def)
  next
    case wrap
    then have n: "rb_count s = ?c - ?h + ?t" using c by (simp add: rb_count_def)
    with wrap show ?thesis using map_ring_wrap[of ?h ?c ?t ?xs] c
      by (simp add: rb_snapshot_def rb_contents_def)
  qed
qed

lemma snap_bytes_from: "snap_bytes s (snap_from i sn) = drop i (snap_bytes s sn)"
  by (cases sn) (auto simp: min_def drop_take add.commute)

lemma rb_contents_new [simp]: "0 < n \<Longrightarrow> rb_contents (rb_new n) = []"
  by (simp add: rb_contents_def rb_count_def rb_new_def)

lemma rb_contents_read:
  assumes "rb_inv s"
  shows "rb_read s = (case rb_contents s of [] \<Rightarrow> (None, s) | x # xs \<Rightarrow> (Some x, snd (rb_read s)))"
    and "rb_contents (snd (rb_read s)) = tl (rb_contents s)"
proof -
  let ?c = "rb_cap s" and ?h = "rb_head s"
  have c: "0 < ?c" "?h < ?c" "rb_tail s < ?c" using assms by (simp_all add: rb_inv_def)
  have e: "rb_tail s = ?h \<and> \<not> rb_full s \<longleftrightarrow> rb_count s = 0"
    using c ring_distance[of ?h ?c "rb_tail s"] by (auto simp: rb_count_def)
  have ne: "rb_contents s = rb_buffer s ! ?h # map (\<lambda>i. rb_buffer s ! ((?h + Suc i) mod ?c)) [0..<rb_count s - 1]"
    if "rb_count s \<noteq> 0"
  proof -
    from that obtain m where m: "rb_count s = Suc m" using not0_implies_Suc by blast
    have "[0..<Suc m] = 0 # map Suc [0..<m]" by (simp add: map_Suc_upt upt_conv_Cons del: upt_Suc)
    with m c show ?thesis by (simp add: rb_contents_def comp_def del: upt_Suc)
  qed
  have cnt: "rb_count (snd (rb_read s)) = rb_count s - 1" if "rb_count s \<noteq> 0"
  proof -
    have r: "snd (rb_read s) = s\<lparr>rb_full := False, rb_head := (?h + 1) mod ?c\<rparr>"
      using rb_read_nonempty e that by (metis snd_conv)
    have t: "rb_tail s = (?h + rb_count s) mod ?c" by (rule rb_tail_at_count[OF assms])
    have n: "rb_count s \<le> ?c" by (rule rb_count_le[OF assms])
    have "(rb_tail s + ?c - (?h + 1) mod ?c) mod ?c = rb_count s - 1"
    proof (cases "?h + 1 = ?c")
      case True
      then show ?thesis using t n that c by (cases "rb_count s = ?c") (auto simp: mod_if)
    next
      case False
      then have "(?h + 1) mod ?c = ?h + 1" using c by simp
      then show ?thesis using t n that c False
        by (cases "?h + rb_count s < ?c"; cases "rb_count s = ?c") (auto simp: le_mod_geq)
    qed
    with r show ?thesis by (simp add: rb_count_def)
  qed
  show "rb_read s = (case rb_contents s of [] \<Rightarrow> (None, s) | x # xs \<Rightarrow> (Some x, snd (rb_read s)))"
  proof (cases "rb_count s = 0")
    case True
    with e show ?thesis by (simp add: rb_read_def rb_contents_def)
  next
    case False
    with e have "\<not> (rb_tail s = ?h \<and> \<not> rb_full s)" by metis
    from rb_read_nonempty[OF this] show ?thesis unfolding ne[OF False] by simp
  qed
  show "rb_contents (snd (rb_read s)) = tl (rb_contents s)"
  proof (cases "rb_count s = 0")
    case True
    with e show ?thesis by (simp add: rb_read_def rb_contents_def)
  next
    case False
    then have r: "snd (rb_read s) = s\<lparr>rb_full := False, rb_head := (?h + 1) mod ?c\<rparr>"
      using rb_read_nonempty e by (metis snd_conv)
    have "rb_contents (snd (rb_read s)) =
        map (\<lambda>i. rb_buffer s ! (((?h + 1) mod ?c + i) mod ?c)) [0..<rb_count s - 1]"
      using cnt[OF False] r by (simp add: rb_contents_def)
    also have "\<dots> = map (\<lambda>i. rb_buffer s ! ((?h + Suc i) mod ?c)) [0..<rb_count s - 1]"
      by (simp add: mod_simps)
    finally show ?thesis using ne[OF False] by simp
  qed
qed

subsection \<open>Record-aligned replay\<close>

text \<open>The framing of the log: every record is followed by the delimiter.\<close>

definition flatten_records :: "'a \<Rightarrow> 'a list list \<Rightarrow> 'a list" where
  "flatten_records d rs = concat (map (\<lambda>r. r @ [d]) rs)"

definition after_first :: "'a \<Rightarrow> 'a list \<Rightarrow> 'a list" where
  "after_first d ys = (case index_of d ys of None \<Rightarrow> [] | Some i \<Rightarrow> drop (Suc i) ys)"

lemma after_first_split: "d \<notin> set xs \<Longrightarrow> after_first d (xs @ d # ys) = ys"
  by (simp add: after_first_def index_of_append_notin)

lemma after_first_records:
  assumes "\<forall>r \<in> set rs. d \<notin> set r" "m \<le> length (flatten_records d rs)"
  shows "\<exists>k. after_first d (drop m (flatten_records d rs)) = flatten_records d (drop k rs) \<and>
    (\<forall>j. length (flatten_records d (drop j rs)) < length (flatten_records d rs) - m \<longrightarrow> k \<le> j)"
  using assms
proof (induction rs arbitrary: m)
  case Nil
  then show ?case by (simp add: flatten_records_def after_first_def)
next
  case (Cons r rs)
  let ?F = "flatten_records d"
  have F: "?F (r # rs) = r @ d # ?F rs" by (simp add: flatten_records_def)
  show ?case
  proof (cases "m \<le> length r")
    case True
    have "d \<notin> set (drop m r)" using Cons.prems(1) by (auto dest: in_set_dropD)
    then have "after_first d (drop m (?F (r # rs))) = ?F (drop 1 (r # rs))"
      using True by (simp add: F after_first_split)
    moreover have "1 \<le> j" if "length (?F (drop j (r # rs))) < length (?F (r # rs)) - m" for j
      using that by (cases j) auto
    ultimately show ?thesis by blast
  next
    case False
    then have m: "m - Suc (length r) \<le> length (?F rs)" using Cons.prems(2) by (simp add: F)
    have tail: "drop m (?F (r # rs)) = drop (m - Suc (length r)) (?F rs)"
      using False by (simp add: F drop_Cons' Suc_diff_Suc)
    obtain k where k: "after_first d (drop (m - Suc (length r)) (?F rs)) = ?F (drop k rs)"
      and kmin: "\<forall>j. length (?F (drop j rs)) < length (?F rs) - (m - Suc (length r)) \<longrightarrow> k \<le> j"
      using Cons.IH[OF _ m] Cons.prems(1) by auto
    have "Suc k \<le> j" if "length (?F (drop j (r # rs))) < length (?F (r # rs)) - m" for j
    proof (cases j)
      case 0
      with that show ?thesis by simp
    next
      case (Suc j')
      with that False kmin show ?thesis by (simp add: F)
    qed
    with k tail show ?thesis by (intro exI[of _ "Suc k"]) simp
  qed
qed

lemma rb_write_buffer_contents:
  "rb_inv s \<Longrightarrow> rb_contents (rb_write_buffer s data) = last_n (rb_cap s) (rb_contents s @ data)"
  unfolding rb_write_buffer_def by (rule ring.log_contents_writes)

lemma rb_inv_write_buffer: "rb_inv s \<Longrightarrow> rb_inv (rb_write_buffer s data)"
  unfolding rb_write_buffer_def by (rule ring.log_inv_writes)

lemma rb_cap_write_buffer [simp]: "rb_cap (rb_write_buffer s data) = rb_cap s"
  unfolding rb_write_buffer_def by (rule ring.log_cap_writes)

lemma rb_over_write_buffer:
  "rb_inv s \<Longrightarrow> rb_over (rb_write_buffer s data) =
     (rb_over s \<or> rb_cap s < length (rb_contents s) + length data)"
proof (induction data arbitrary: s)
  case Nil
  then have "\<not> rb_cap s < rb_count s" by (simp add: rb_count_le not_less)
  then show ?case by (simp add: rb_write_buffer_def)
next
  case (Cons b bs)
  have step: "rb_write_buffer s (b # bs) = rb_write_buffer (rb_write s b) bs"
    by (simp add: rb_write_buffer_def)
  have n: "rb_count (rb_write s b) = min (rb_cap s) (Suc (rb_count s))"
    using arg_cong[OF rb_contents_write[OF Cons.prems, of b], of length] by simp
  have f: "rb_full s \<longleftrightarrow> rb_count s = rb_cap s" and le: "rb_count s \<le> rb_cap s"
    using Cons.prems by (simp_all add: rb_full_iff_count rb_count_le)
  have "rb_over (rb_write_buffer s (b # bs)) =
      (rb_over s \<or> rb_full s \<or> rb_cap s < min (rb_cap s) (Suc (rb_count s)) + length bs)"
    using Cons.IH[OF rb_inv_write[OF Cons.prems], of b] unfolding step by (simp add: rb_over_write n)
  also have "\<dots> = (rb_over s \<or> rb_cap s < rb_count s + length (b # bs))"
    unfolding f using le by (cases bs; cases "rb_count s = rb_cap s") (auto simp: min_def)
  finally show ?case by simp
qed

lemma rb_over_new [simp]: "\<not> rb_over (rb_new n)" and rb_cap_new [simp]: "rb_cap (rb_new n) = n"
  by (simp_all add: rb_new_def)

lemma record_start_after_first:
  "rb_inv s \<Longrightarrow> snap_bytes s (rb_snapshot_from_record_start s d) =
     (if rb_over s then after_first d (rb_contents s) else rb_contents s)"
  by (cases "index_of d (rb_contents s)")
     (simp_all add: rb_snapshot_from_record_start_def Let_def rb_snapshot_contents after_first_def
      snap_bytes_from)

subsection \<open>Properties\<close>

text \<open>
  C1: Whatever is written to a new ring of positive capacity, \<open>snapshot()\<close> returns exactly the
  last \<open>capacity\<close> bytes written, in order (all of them while nothing has been overwritten).
\<close>

theorem snapshot_is_last_capacity_bytes:
  assumes "0 < capacity"
  shows "let s = rb_write_buffer (rb_new capacity) data in
    snap_bytes s (rb_snapshot s) = last_n capacity data"
  using assms rb_write_buffer_contents[of "rb_new capacity" data]
  by (simp add: Let_def rb_snapshot_contents rb_inv_write_buffer)

theorem snapshot_is_last_capacity_bytes_witness:
  "0 < (3::nat) \<and> (let s = rb_write_buffer (rb_new 3) [1, 2, 3, 4, 5] in
     snap_bytes s (rb_snapshot s) = [3, 4, 5])"
  using snapshot_is_last_capacity_bytes[of 3 "[1, 2, 3, 4, 5]"] by (simp add: last_n_def Let_def)

text \<open>
  The replay a newly connected client gets is made of whole records only. If every record is
  written with its delimiter and contains no delimiter itself, \<open>snapshotFromRecordStart\<close> returns
  a run of the most recent records, and it keeps every run of recent records that is strictly
  shorter than the capacity; nothing is dropped while everything still fits.
\<close>

theorem replay_starts_at_record:
  assumes "0 < capacity" and "\<forall>r \<in> set rs. d \<notin> set r"
  shows "let s = rb_write_buffer (rb_new capacity) (flatten_records d rs) in
    \<exists>k. snap_bytes s (rb_snapshot_from_record_start s d) = flatten_records d (drop k rs) \<and>
      (\<forall>j. length (flatten_records d (drop j rs)) < capacity \<longrightarrow> k \<le> j) \<and>
      (length (flatten_records d rs) \<le> capacity \<longrightarrow> k = 0)"
proof -
  let ?F = "flatten_records d rs" and ?s = "rb_write_buffer (rb_new capacity) (flatten_records d rs)"
  have inv: "rb_inv ?s" and con: "rb_contents ?s = last_n capacity ?F"
    using assms(1) rb_write_buffer_contents[of "rb_new capacity" ?F] by (simp_all add: rb_inv_write_buffer)
  have ov: "rb_over ?s \<longleftrightarrow> capacity < length ?F"
    using assms(1) by (simp add: rb_over_write_buffer)
  show ?thesis
  proof (cases "capacity < length ?F")
    case True
    obtain k where "after_first d (drop (length ?F - capacity) ?F) = flatten_records d (drop k rs)"
      and "\<forall>j. length (flatten_records d (drop j rs)) < length ?F - (length ?F - capacity) \<longrightarrow> k \<le> j"
      using after_first_records[OF assms(2), of "length ?F - capacity"] by auto
    with True ov con inv show ?thesis
      by (auto simp: Let_def record_start_after_first last_n_def)
  next
    case False
    with ov con inv show ?thesis
      by (auto simp: Let_def record_start_after_first last_n_def intro!: exI[of _ 0])
  qed
qed

theorem replay_starts_at_record_witness:
  "(0::nat) < 6 \<and> list_all (\<lambda>r. 10 \<notin> set r) [[1, 2], [3], [4, 5 :: byte]] \<and>
   (let s = rb_write_buffer (rb_new 6) (flatten_records 10 [[1, 2], [3], [4, 5]]) in
    \<exists>k. snap_bytes s (rb_snapshot_from_record_start s 10) = flatten_records 10 (drop k [[1, 2], [3], [4, 5]]))"
proof -
  have h: "\<forall>r \<in> set [[1, 2], [3], [4, 5 :: byte]]. 10 \<notin> set r" by simp
  show ?thesis using replay_starts_at_record[OF _ h, of 6] unfolding Let_def by (auto simp del: snap_bytes.simps)
qed

text \<open>
  \<open>snapshot()\<close> says it returns a copy, but while the ring has not wrapped it returns a window
  on the live buffer: bytes written later show through a snapshot that was taken before.
\<close>

theorem snapshot_window_is_not_a_copy:
  "let t = rb_write_buffer (rb_new 3) [1]; sn = rb_snapshot t; u = rb_write_buffer t [2, 3, 4]
   in sn = Window 0 1 \<and> snap_bytes t sn = [1] \<and> snap_bytes u sn = [4]"
proof -
  let ?r = "\<lambda>bs h t f ov. \<lparr>rb_buffer = bs, rb_head = h, rb_tail = t, rb_full = f, rb_cap = 3, rb_over = ov\<rparr>"
  have r3: "replicate 3 (0 :: byte) = [0, 0, 0]" by (simp add: numeral_3_eq_3)
  have u2: "[1, 2, 0 :: byte][2 := 3] = [1, 2, 3]" by (simp add: numeral_2_eq_2)
  have w1: "rb_write (rb_new 3) 1 = ?r [1, 0, 0] 0 1 False False"
    using r3 by (simp add: rb_new_def rb_write_def)
  have w2: "rb_write (?r [1, 0, 0] 0 1 False False) 2 = ?r [1, 2, 0] 0 2 False False"
    by (simp add: rb_write_def)
  have w3: "rb_write (?r [1, 2, 0] 0 2 False False) 3 = ?r [1, 2, 3] 0 0 True False"
    using u2 by (simp add: rb_write_def)
  have w4: "rb_write (?r [1, 2, 3] 0 0 True False) 4 = ?r [4, 2, 3] 1 1 True True"
    by (simp add: rb_write_def)
  show ?thesis
    by (simp add: rb_write_buffer_def w1 w2[unfolded One_nat_def] w3 w4[unfolded One_nat_def] rb_snapshot_def)
qed

end
