(* ===== verification/Lines.thy ===== *)
theory Lines
  imports Prelude
begin

text \<open>
  Line assembly from chunked text: the read loop of \<open>GdbInstance.handleStdoutData\<close> and
  \<open>handleStderrData\<close> (\<open>adapter/gdb-mi/gdb-instance.ts\<close>), \<open>LineBuffer\<close>
  (\<open>common/utils.ts\<close>, the RTT and UART terminals of the CLI) and \<open>LineSplitter\<close>
  (\<open>packages/shared/src/line-splitter.ts\<close>, the GDB-server console).
  Calls of the consumer (\<open>emit\<close>, \<open>callback\<close>, \<open>handleOutputLine\<close>) are returned as a list.
\<close>

subsection \<open>The loop that takes complete lines off a buffer\<close>

function take_lines :: "jstr \<Rightarrow> jstr list \<times> jstr" where
  "take_lines buf =
     (case index_of NL buf of
        None \<Rightarrow> ([], buf)
      | Some index \<Rightarrow>
          (let (ls, rest) = take_lines (drop (index + 1) buf) in (take index buf # ls, rest)))"
  by pat_completeness auto
termination
  by (relation "measure length") (auto dest: index_of_Some_split)

declare take_lines.simps [simp del]

lemma split_on_append:
  "split_on c (xs @ ys) = butlast (split_on c xs) @ split_on c (last (split_on c xs) @ ys)"
proof (induction xs)
  case (Cons x xs)
  then show ?case
    by (cases "split_on c xs"; cases "tl (split_on c xs)")
       (auto split: list.splits simp: butlast_append)
qed simp

lemma split_on_index:
  "index_of c s = Some i \<Longrightarrow> split_on c s = take i s # split_on c (drop (Suc i) s)"
proof (induction s arbitrary: i)
  case (Cons x xs)
  then show ?case by (cases i) (auto split: if_splits)
qed simp

lemma take_lines_split_on: "take_lines s = (butlast (split_on NL s), last (split_on NL s))"
proof (induction s rule: take_lines.induct)
  case (1 s)
  show ?case
  proof (cases "index_of NL s")
    case None
    then have "split_on NL s = [s]" by (simp add: split_on_no_sep index_of_None_iff)
    with None show ?thesis by (subst take_lines.simps) simp
  next
    case (Some i)
    with 1 show ?thesis by (subst take_lines.simps) (simp add: split_on_index)
  qed
qed

lemma take_lines_no_NL: "NL \<notin> set s \<Longrightarrow> take_lines s = ([], s)"
  by (simp add: take_lines_split_on split_on_no_sep)

lemma take_lines_append [framing]:
  "take_lines (xs @ ys) =
     (let (l1, r1) = take_lines xs; (l2, r2) = take_lines (r1 @ ys) in (l1 @ l2, r2))"
  by (simp add: take_lines_split_on Let_def butlast_append
      split_on_append[of NL xs ys])

lemma take_lines_rest: "NL \<notin> set (snd (take_lines s))"
  by (simp add: take_lines_split_on split_on_last)

lemma take_lines_lines: "l \<in> set (fst (take_lines s)) \<Longrightarrow> NL \<notin> set l"
  by (auto simp: take_lines_split_on dest: in_set_butlastD split_on_parts)

subsection \<open>GDB standard output\<close>

text \<open>
  \<open>handleStdoutData\<close> and \<open>handleStderrData\<close> are the same loop over their own buffer: append the
  chunk, hand every complete line, trimmed, to the handler.
\<close>

definition handle_stdout_data :: "jstr \<Rightarrow> jstr \<Rightarrow> jstr \<times> jstr list" where
  "handle_stdout_data stdoutBuf data =
     (let (ls, rest) = take_lines (stdoutBuf @ data) in (rest, map js_trim ls))"

lemma handle_stdout_nil: "NL \<notin> set b \<Longrightarrow> handle_stdout_data b [] = (b, [])"
  by (simp add: handle_stdout_data_def take_lines_no_NL)

interpretation gdb_stdout: framer "\<lambda>b. NL \<notin> set b" handle_stdout_data
proof
  fix s xs ys :: jstr
  assume "NL \<notin> set s"
  show "NL \<notin> set (fst (handle_stdout_data s xs))"
    using take_lines_rest[of "s @ xs"]
    by (cases "take_lines (s @ xs)") (simp add: handle_stdout_data_def)
  show "handle_stdout_data s [] = (s, [])"
    by (rule handle_stdout_nil) fact
  show "handle_stdout_data s (xs @ ys) =
      (let (s1, out1) = handle_stdout_data s xs; (s2, out2) = handle_stdout_data s1 ys in (s2, out1 @ out2))"
    unfolding handle_stdout_data_def append_assoc[symmetric] take_lines_append[of "s @ xs" ys]
    by (simp add: Let_def split: prod.splits)
qed

subsection \<open>LineBuffer\<close>

record lbuf =
  lb_buf :: jstr
  lb_timer :: bool
  lb_hold :: bool

text \<open>\<open>replace(/\r$/, '')\<close> on a line without newlines.\<close>

definition strip_cr :: "jstr \<Rightarrow> jstr" where
  "strip_cr l = (if l \<noteq> [] \<and> last l = CR then butlast l else l)"

definition ident_start :: "char \<Rightarrow> bool" where
  "ident_start c = (let n = of_char c :: nat in
     65 \<le> n \<and> n \<le> 90 \<or> 97 \<le> n \<and> n \<le> 122 \<or> c = CHR ''_'')"

definition ident_char :: "char \<Rightarrow> bool" where
  "ident_char c = (ident_start c \<or> is_digit c \<or> c \<in> set ''.:/-'')"

text \<open>
  The anchored pattern of \<open>push\<close>: an opening bracket, or a name of at most 128 characters, an
  equals sign and an opening bracket. Neither white space nor the equals sign can occur in a
  name, so the greedy match is the only one.
\<close>

definition json_open :: "jstr \<Rightarrow> bool" where
  "json_open s = (case s of [] \<Rightarrow> False | c # _ \<Rightarrow> c = CHR ''['' \<or> c = CHR ''{'')"

definition json_prefix :: "jstr \<Rightarrow> bool" where
  "json_prefix s =
     (json_open s \<or>
      (case s of [] \<Rightarrow> False
       | c # cs \<Rightarrow> ident_start c \<and> length (takeWhile ident_char cs) \<le> 127 \<and>
           (case js_trim_start (dropWhile ident_char cs) of
              [] \<Rightarrow> False
            | e # r \<Rightarrow> e = CHR ''='' \<and> json_open (js_trim_start r))))"

definition lb_partial_json :: "bool \<Rightarrow> jstr \<Rightarrow> bool" where
  "lb_partial_json hold buf =
     (hold \<and> length buf \<le> 65536 \<and> json_prefix (js_trim_start buf))"

definition lb_new :: "bool \<Rightarrow> lbuf" where
  "lb_new holdJsonLines = \<lparr>lb_buf = [], lb_timer = False, lb_hold = holdJsonLines\<rparr>"

definition lb_push :: "lbuf \<Rightarrow> jstr \<Rightarrow> lbuf \<times> jstr list" where
  "lb_push s chunk =
     (let (ls, rest) = take_lines (lb_buf s @ chunk);
          partialJson = lb_partial_json (lb_hold s) rest
      in (s\<lparr>lb_buf := rest, lb_timer := (rest \<noteq> [] \<and> \<not> partialJson)\<rparr>, map strip_cr ls))"

text \<open>The timer callback; it only runs while the timer is armed.\<close>

definition lb_timeout :: "lbuf \<Rightarrow> lbuf \<times> jstr list" where
  "lb_timeout s =
     (let s1 = s\<lparr>lb_timer := False\<rparr>
      in if lb_buf s1 \<noteq> [] then (s1\<lparr>lb_buf := []\<rparr>, [lb_buf s1]) else (s1, []))"

definition lb_clear :: "lbuf \<Rightarrow> lbuf" where
  "lb_clear s = s\<lparr>lb_timer := False, lb_buf := []\<rparr>"

definition lb_flush :: "lbuf \<Rightarrow> lbuf \<times> jstr list" where
  "lb_flush s =
     (let s1 = s\<lparr>lb_timer := False\<rparr>
      in if lb_buf s1 \<noteq> [] then (s1\<lparr>lb_buf := []\<rparr>, [lb_buf s1]) else (s1, []))"

definition lb_inv :: "lbuf \<Rightarrow> bool" where
  "lb_inv s \<longleftrightarrow> NL \<notin> set (lb_buf s) \<and>
     (lb_timer s \<longleftrightarrow> lb_buf s \<noteq> [] \<and> \<not> lb_partial_json (lb_hold s) (lb_buf s))"

lemma lb_inv_new [simp]: "lb_inv (lb_new h)"
  by (simp add: lb_inv_def lb_new_def)

lemma lb_inv_timeout: "lb_inv (fst (lb_timeout s))" if "lb_inv s"
  using that by (auto simp: lb_inv_def lb_timeout_def Let_def)

lemma lb_push_spec:
  "lb_push s chunk =
     (let ps = split_on NL (lb_buf s @ chunk) in
      (s\<lparr>lb_buf := last ps, lb_timer := (last ps \<noteq> [] \<and> \<not> lb_partial_json (lb_hold s) (last ps))\<rparr>,
       map strip_cr (butlast ps)))"
  by (simp add: lb_push_def take_lines_split_on Let_def)

interpretation line_buffer: framer lb_inv lb_push
proof
  fix s :: lbuf and xs ys :: jstr
  assume inv: "lb_inv s"
  show "lb_inv (fst (lb_push s xs))"
    by (simp add: lb_push_spec lb_inv_def Let_def split_on_last)
  show "lb_push s [] = (s, [])"
    using inv by (simp add: lb_push_def take_lines_no_NL lb_inv_def)
  show "lb_push s (xs @ ys) =
      (let (s1, out1) = lb_push s xs; (s2, out2) = lb_push s1 ys in (s2, out1 @ out2))"
    unfolding lb_push_def append_assoc[symmetric] take_lines_append[of "lb_buf s @ xs" ys]
    by (simp add: Let_def split: prod.splits)
qed

subsection \<open>LineSplitter\<close>

text \<open>\<open>replace(/\r\n/g, '\n')\<close>.\<close>

fun crlf_to_lf :: "jstr \<Rightarrow> jstr" where
  "crlf_to_lf [] = []"
| "crlf_to_lf [c] = [c]"
| "crlf_to_lf (c # d # cs) =
     (if c = CR \<and> d = NL then NL # crlf_to_lf cs else c # crlf_to_lf (d # cs))"

text \<open>The first line end, a line feed or a carriage return, whichever comes first.\<close>

definition line_end :: "jstr \<Rightarrow> nat option" where
  "line_end buf =
     (case (index_of NL buf, index_of CR buf) of
        (None, None) \<Rightarrow> None
      | (Some indexLF, Some indexCR) \<Rightarrow> Some (min indexLF indexCR)
      | (Some indexLF, None) \<Rightarrow> Some indexLF
      | (None, Some indexCR) \<Rightarrow> Some indexCR)"

lemma line_end_less: "line_end buf = Some i \<Longrightarrow> i < length buf"
  by (auto simp: line_end_def split: option.splits dest!: index_of_Some_split)

function splitter_lines :: "jstr \<Rightarrow> jstr list \<times> jstr" where
  "splitter_lines buf =
     (case line_end buf of
        None \<Rightarrow> ([], buf)
      | Some index \<Rightarrow>
          (let (ls, rest) = splitter_lines (drop (index + 1) buf) in (take index buf # ls, rest)))"
  by pat_completeness auto
termination
  by (relation "measure length") (auto dest: line_end_less)

declare splitter_lines.simps [simp del]

record splitter =
  sp_buffer :: jstr
  sp_timer :: bool
  sp_flushing :: bool

text \<open>A callback is a line and whether it is partial. \<open>sp_flushing\<close> is \<open>flushTimerMs > 0\<close>.\<close>

definition sp_write :: "splitter \<Rightarrow> jstr \<Rightarrow> splitter \<times> (jstr \<times> bool) list" where
  "sp_write s data =
     (let (ls, rest) = splitter_lines (sp_buffer s @ crlf_to_lf data)
      in (s\<lparr>sp_buffer := rest, sp_timer := (rest \<noteq> [] \<and> sp_flushing s)\<rparr>, map (\<lambda>l. (l, False)) ls))"

definition sp_timeout :: "splitter \<Rightarrow> splitter \<times> (jstr \<times> bool) list" where
  "sp_timeout s =
     (s\<lparr>sp_timer := False\<rparr>, if sp_buffer s \<noteq> [] then [(sp_buffer s, True)] else [])"

definition sp_end :: "splitter \<Rightarrow> splitter \<times> (jstr \<times> bool) list" where
  "sp_end s =
     (if sp_buffer s \<noteq> [] then (s\<lparr>sp_timer := False, sp_buffer := []\<rparr>, [(sp_buffer s, False)])
      else (s\<lparr>sp_timer := False\<rparr>, []))"

definition sp_new :: "nat \<Rightarrow> splitter" where
  "sp_new flushTimerMs = \<lparr>sp_buffer = [], sp_timer = False, sp_flushing = (0 < flushTimerMs)\<rparr>"

subsection \<open>Properties\<close>

text \<open>
  The lines GDB is seen to print do not depend on how the pipe cuts its output: reading any
  sequence of chunks hands over exactly the trimmed newline-terminated lines of their
  concatenation, and keeps the unterminated rest.
\<close>

theorem gdb_stdout_chunking:
  "run_chunks handle_stdout_data [] chunks =
     (last (split_on NL (concat chunks)), map js_trim (butlast (split_on NL (concat chunks))))"
  using gdb_stdout.run_chunks_concat[of "[]" chunks]
  by (simp add: handle_stdout_data_def take_lines_split_on)

text \<open>
  RTT and UART text survives chunking: after any sequence of pushes a new \<open>LineBuffer\<close> has
  emitted every complete line (empty ones included, a trailing CR removed) and holds the rest;
  its idle timer is armed exactly when that rest is neither empty nor a held JSON fragment.
\<close>

lemma line_buffer_chunking:
  "run_chunks lb_push (lb_new hold) chunks =
     (let ps = split_on NL (concat chunks); rest = last ps in
      (\<lparr>lb_buf = rest, lb_timer = (rest \<noteq> [] \<and> \<not> lb_partial_json hold rest), lb_hold = hold\<rparr>,
       map strip_cr (butlast ps)))"
  using line_buffer.run_chunks_concat[OF lb_inv_new, of hold chunks]
  by (simp add: lb_push_spec lb_new_def Let_def)

text \<open>
  A line of structured telemetry that arrives in pieces is not cut by the idle timer while it
  is at most 64 KiB long, and a longer one is released: after any pushes, a buffer that holds JSON
  fragments keeps the timer off for a JSON-looking rest within the bound and on beyond it.
\<close>

theorem held_json_bounded:
  assumes "lb_inv s" "lb_hold s" "json_prefix (js_trim_start (lb_buf (fst (lb_push s chunk))))"
  shows "lb_timer (fst (lb_push s chunk)) \<longleftrightarrow> 65536 < length (lb_buf (fst (lb_push s chunk)))"
proof -
  have "lb_inv (fst (lb_push s chunk))" by (rule line_buffer.invar_feed) fact
  moreover have "lb_hold (fst (lb_push s chunk))"
    using assms(2) by (simp add: lb_push_spec Let_def)
  moreover have "lb_buf (fst (lb_push s chunk)) \<noteq> []"
    using assms(3) by (auto simp: json_prefix_def json_open_def js_trim_start_def)
  ultimately show ?thesis using assms(3) by (auto simp: lb_inv_def lb_partial_json_def)
qed

theorem held_json_bounded_witness:
  "lb_inv (lb_new True) \<and> lb_hold (lb_new True) \<and>
   json_prefix (js_trim_start (lb_buf (fst (lb_push (lb_new True) ''t={''))))
   \<and> \<not> lb_timer (fst (lb_push (lb_new True) ''t={''))"
proof -
  have b: "lb_buf (fst (lb_push (lb_new True) ''t={'')) = ''t={''"
    by (simp add: lb_push_spec lb_new_def)
  have p: "json_prefix (js_trim_start ''t={'')" by code_simp
  have h: "lb_hold (lb_new True)" by (simp add: lb_new_def)
  show ?thesis using held_json_bounded[of "lb_new True" "''t={''"] b p h by simp
qed

text \<open>
  \<open>LineSplitter\<close> depends on chunk boundaries. It rewrites CR LF inside each chunk only, so a
  CR LF pair cut between two chunks yields an empty line that the same text in one chunk does not.
\<close>

theorem line_splitter_splits_crlf:
  "snd (run_chunks sp_write (sp_new 500) [''a'' @ [CR], [NL] @ ''b'' @ [NL]])
     = [(''a'', False), ('''', False), (''b'', False)] \<and>
   snd (run_chunks sp_write (sp_new 500) [''a'' @ [CR, NL] @ ''b'' @ [NL]])
     = [(''a'', False), (''b'', False)]"
  by code_simp

end
