(* ===== verification/MiParser.thy ===== *)
theory MiParser
  imports Prelude
begin

text \<open>
  The GDB/MI output parser, \<open>packages/mcu-debug/src/adapter/gdb-mi/mi-parser.ts\<close>, with the
  record types of \<open>mi-types.ts\<close>.

  The source passes a line and a position; here a parser takes the remaining input (\<open>drop i line\<close>)
  and returns what is left after it. \<open>line[i]\<close> past the end is the empty remainder, and adding to a
  position past the end leaves it empty, as it does for the source's comparisons and substrings.
  A JavaScript object is an association list in insertion order.
\<close>

subsection \<open>Types\<close>

datatype record_type = RResult | RStream | RAsync

datatype output_type = OResult | OConsole | OLog | OTarget | OExec | OStatus | ONotify

datatype mi_value =
    MConst jstr
  | MTuple "(jstr \<times> mi_value) list"
  | MList "mi_value list"

record mi_record =
  rec_token :: jstr
  rec_type :: record_type
  rec_output :: output_type
  rec_class :: jstr
  rec_result :: mi_value
  rec_prefix :: char

record mi_output =
  has_terminator :: bool
  oob_records :: "mi_record list"
  result_record :: "mi_record option"

subsection \<open>Prefix mappings\<close>

definition record_type_mapping :: "char \<Rightarrow> record_type option" where
  "record_type_mapping c =
     (if c = CHR ''^'' then Some RResult
      else if c = CHR ''~'' \<or> c = CHR ''&'' \<or> c = CHR ''@'' then Some RStream
      else if c = CHR ''*'' \<or> c = CHR ''+'' \<or> c = CHR ''='' then Some RAsync
      else None)"

definition output_type_mapping :: "char \<Rightarrow> output_type option" where
  "output_type_mapping c =
     (if c = CHR ''^'' then Some OResult
      else if c = CHR ''~'' then Some OConsole
      else if c = CHR ''&'' then Some OLog
      else if c = CHR ''@'' then Some OTarget
      else if c = CHR ''*'' then Some OExec
      else if c = CHR ''+'' then Some OStatus
      else if c = CHR ''='' then Some ONotify
      else None)"

text \<open>\<open>klass = outputType\<close> of a stream record.\<close>

fun output_type_name :: "output_type \<Rightarrow> jstr" where
  "output_type_name OResult = ''result''"
| "output_type_name OConsole = ''console''"
| "output_type_name OLog = ''log''"
| "output_type_name OTarget = ''target''"
| "output_type_name OExec = ''exec''"
| "output_type_name OStatus = ''status''"
| "output_type_name ONotify = ''notify''"

subsection \<open>Lexical helpers\<close>

definition eat_whitespace :: "jstr \<Rightarrow> jstr" where
  "eat_whitespace s = dropWhile js_ws s"

definition eat_variable_name :: "jstr \<Rightarrow> jstr" where
  "eat_variable_name s = tl (dropWhile (\<lambda>c. c \<noteq> CHR ''='') s)"

definition next_variable_name :: "jstr \<Rightarrow> jstr \<times> jstr" where
  "next_variable_name s =
     (dropWhile (\<lambda>c. c \<noteq> CHR ''='') s, js_trim (takeWhile (\<lambda>c. c \<noteq> CHR ''='') s))"

definition escaped_char :: "char \<Rightarrow> char option" where
  "escaped_char c =
     (if c = BSL then Some BSL
      else if c = CHR ''n'' then Some NL
      else if c = CHR ''r'' then Some CR
      else if c = CHR ''t'' then Some (CHR 0x09)
      else if c = CHR 0x27 then Some (CHR 0x27)
      else if c = DQ then Some DQ
      else None)"

fun simple_unescape :: "jstr \<Rightarrow> jstr" where
  "simple_unescape [] = []"
| "simple_unescape [c] = [c]"
| "simple_unescape (c # d # cs) =
     (if c = BSL
      then (case escaped_char d of
              Some repl \<Rightarrow> repl # simple_unescape cs
            | None \<Rightarrow> c # simple_unescape (d # cs))
      else c # simple_unescape (d # cs))"

text \<open>
  The loop of \<open>nextConst\<close> from the position after the opening quote: the characters before the
  closing quote and the input after it. Reaching the end of the line ends the string, too.
\<close>

fun const_body :: "jstr \<Rightarrow> jstr \<times> jstr" where
  "const_body [] = ([], [])"
| "const_body [c] = (if c = DQ then ([], []) else ([c], []))"
| "const_body (c # d # cs) =
     (if c = BSL then (let (body, rest) = const_body cs in (c # d # body, rest))
      else if c = DQ then ([], d # cs)
      else (let (body, rest) = const_body (d # cs) in (c # body, rest)))"

definition next_const :: "jstr \<Rightarrow> jstr \<times> jstr" where
  "next_const s = (let (body, rest) = const_body (tl s) in (rest, simple_unescape (js_trim body)))"

text \<open>
  Names that \<open>key in ret\<close> finds on the prototype of an object literal.
\<close>

definition object_prototype_keys :: "jstr list" where
  "object_prototype_keys =
     [''constructor'', ''__defineGetter__'', ''__defineSetter__'', ''hasOwnProperty'',
      ''__lookupGetter__'', ''__lookupSetter__'', ''isPrototypeOf'', ''propertyIsEnumerable'',
      ''toString'', ''valueOf'', ''__proto__'', ''toLocaleString'']"

definition key_in :: "jstr \<Rightarrow> (jstr \<times> mi_value) list \<Rightarrow> bool" where
  "key_in k ret = (k \<in> fst ` set ret \<or> k \<in> set object_prototype_keys)"

text \<open>\<open>while (key in ret) key = `${key}#${count++}`\<close>: every round makes the key longer.\<close>

function fresh_key :: "(jstr \<times> mi_value) list \<Rightarrow> jstr \<Rightarrow> nat \<Rightarrow> jstr" where
  "fresh_key ret key count =
     (if key_in key ret then fresh_key ret (key @ ''#'' @ show_nat count) (count + 1) else key)"
  by pat_completeness auto

lemma finite_key_in: "finite {k. key_in k ret}"
proof -
  have "{k. key_in k ret} = fst ` set ret \<union> set object_prototype_keys" by (auto simp: key_in_def)
  then show ?thesis by simp
qed

termination fresh_key
proof (relation "measure (\<lambda>(ret, key, count). card {k. key_in k ret \<and> length key \<le> length k})")
  fix ret key count
  assume "key_in key ret"
  let ?A = "\<lambda>ret key. {k. key_in k ret \<and> length key \<le> length k}"
  have "?A ret (key @ ''#'' @ show_nat count) \<subset> ?A ret key"
  proof
    show "?A ret (key @ ''#'' @ show_nat count) \<subseteq> ?A ret key" by auto
    have "key \<in> ?A ret key" "key \<notin> ?A ret (key @ ''#'' @ show_nat count)"
      using \<open>key_in key ret\<close> by auto
    then show "?A ret (key @ ''#'' @ show_nat count) \<noteq> ?A ret key" by blast
  qed
  moreover have "finite (?A ret key)" by (rule finite_subset[OF _ finite_key_in[of ret]]) auto
  ultimately show "((ret, key @ ''#'' @ show_nat count, count + 1), ret, key, count)
      \<in> measure (\<lambda>(ret, key, count). card (?A ret key))"
    by (simp add: psubset_card_mono)
qed simp

declare fresh_key.simps [simp del]

text \<open>A list item that starts no value is a result; its variable name is dropped.\<close>

definition skip_item_name :: "jstr \<Rightarrow> jstr" where
  "skip_item_name s =
     (if s = [] \<or> (hd s \<noteq> DQ \<and> hd s \<noteq> CHR ''{'' \<and> hd s \<noteq> CHR ''['')
      then eat_whitespace (eat_variable_name s) else s)"

subsection \<open>Values\<close>

text \<open>
  \<open>next_tuple\<close> and \<open>next_list\<close> carry the object or array built so far; their first call is on the
  input at the opening bracket with an empty one.
\<close>

function (sequential) next_value :: "jstr \<Rightarrow> (jstr \<times> mi_value) option"
  and next_result :: "jstr \<Rightarrow> (jstr \<times> jstr \<times> mi_value) option"
  and next_tuple :: "jstr \<Rightarrow> (jstr \<times> mi_value) list \<Rightarrow> jstr \<times> (jstr \<times> mi_value) list"
  and next_list :: "jstr \<Rightarrow> mi_value list \<Rightarrow> jstr \<times> mi_value list"
where
  "next_value s =
     (case s of
        [] \<Rightarrow> None
      | c # _ \<Rightarrow>
          if c = DQ then (let (r, v) = next_const s in Some (r, MConst v))
          else if c = CHR ''{'' then (let (r, ret) = next_tuple s [] in Some (r, MTuple ret))
          else if c = CHR ''['' then (let (r, ret) = next_list s [] in Some (r, MList ret))
          else None)"
| "next_result s =
     (let (r, varName) = next_variable_name s in
      case next_value (eat_whitespace (tl r)) of
        None \<Rightarrow> None
      | Some (r', varValue) \<Rightarrow> Some (r', varName, varValue))"
| "next_tuple s ret =
     (if s = [] \<or> hd s = CHR ''}'' then (tl s, ret)
      else case next_result (tl s) of
             None \<Rightarrow> (tl s, ret)
           | Some (r, name, v) \<Rightarrow> next_tuple (eat_whitespace r) (ret @ [(fresh_key ret name 1, v)]))"
| "next_list s ret =
     (if s = [] \<or> hd s = CHR '']'' then (tl s, ret)
      else
        let s1 = eat_whitespace (tl s) in
        if s1 \<noteq> [] \<and> hd s1 = CHR '']'' then next_list s1 ret
        else
          let s2 = skip_item_name s1
          in case next_value s2 of
               None \<Rightarrow> next_list s2 ret
             | Some (r, v) \<Rightarrow> next_list (eat_whitespace r) (ret @ [v]))"
  by pat_completeness auto

lemma length_eat_ws [simp]: "length (eat_whitespace s) \<le> length s"
  by (simp add: eat_whitespace_def length_dropWhile_le)

lemma length_eat_var [simp]: "length (eat_variable_name s) \<le> length s"
  using length_dropWhile_le[of "\<lambda>c. c \<noteq> CHR ''=''" s] by (simp add: eat_variable_name_def)

lemma length_skip_item [simp]: "length (skip_item_name s) \<le> length s"
  using order_trans[OF length_eat_ws length_eat_var, of s]
  unfolding skip_item_name_def by presburger

lemma length_ws_tl: "length (eat_whitespace (tl s)) \<le> length s - 1"
  using length_eat_ws[of "tl s"] by simp

lemma length_const_body: "length (snd (const_body s)) \<le> length s"
  by (induction s rule: const_body.induct) (auto split: prod.splits)

lemma length_next_const: "next_const s = (r, v) \<Longrightarrow> length r \<le> length s"
  using length_const_body[of "tl s"] by (auto simp: next_const_def split: prod.splits)

lemma length_variable_name: "next_variable_name s = (r, n) \<Longrightarrow> length r \<le> length s"
  using length_dropWhile_le[of "\<lambda>c. c \<noteq> CHR ''=''" s] by (auto simp: next_variable_name_def)

text \<open>Every parser returns a remainder no longer than its input, wherever it is defined.\<close>

lemma parser_lengths:
  "next_value_next_result_next_tuple_next_list_dom (Inl (Inl s)) \<Longrightarrow>
     \<forall>r v. next_value s = Some (r, v) \<longrightarrow> length r \<le> length s"
  "next_value_next_result_next_tuple_next_list_dom (Inl (Inr s)) \<Longrightarrow>
     \<forall>r n v. next_result s = Some (r, n, v) \<longrightarrow> length r \<le> length s"
  "next_value_next_result_next_tuple_next_list_dom (Inr (Inl (s, ret))) \<Longrightarrow>
     length (fst (next_tuple s ret)) \<le> length s"
  "next_value_next_result_next_tuple_next_list_dom (Inr (Inr (s, ret'))) \<Longrightarrow>
     length (fst (next_list s ret')) \<le> length s"
proof (induction s and s and s ret and s ret' rule: next_value_next_result_next_tuple_next_list.pinduct)
  case (1 s)
  show ?case
  proof (cases s)
    case Nil
    with "1.hyps" show ?thesis by (simp add: next_value.psimps)
  next
    case (Cons c cs)
    obtain r v where nc: "next_const s = (r, v)" by force
    obtain rt t where nt: "next_tuple s [] = (rt, t)" by force
    obtain rl l where nl: "next_list s [] = (rl, l)" by force
    have "length r \<le> length s" by (rule length_next_const[OF nc])
    moreover have "length rt \<le> length s" if "c \<noteq> DQ" "c = CHR ''{''"
      using "1.IH"(1)[OF Cons that] nt by simp
    moreover have "length rl \<le> length s" if "c \<noteq> DQ" "c \<noteq> CHR ''{''" "c = CHR ''[''"
      using "1.IH"(2)[OF Cons that] nl by simp
    ultimately show ?thesis
      using "1.hyps" nc nt nl Cons
      by (auto simp: next_value.psimps split: if_splits prod.splits)
  qed
next
  case (2 s)
  obtain r n where nv: "next_variable_name s = (r, n)" by force
  have "length (eat_whitespace (tl r)) \<le> length s"
    using length_ws_tl[of r] length_variable_name[OF nv] by linarith
  with "2.IH"[OF refl nv[symmetric]] "2.hyps" show ?case
    by (auto simp: next_result.psimps nv split: option.splits)
next
  case (3 s ret)
  show ?case
  proof (cases "s = [] \<or> hd s = CHR ''}'' \<or> next_result (tl s) = None")
    case True
    with "3.hyps" show ?thesis by (auto simp: next_tuple.psimps)
  next
    case False
    then obtain r n v where nr: "next_result (tl s) = Some (r, n, v)" by auto
    have "length r \<le> length (tl s)" using "3.IH"(1) False nr by auto
    then have "length (eat_whitespace r) \<le> length s"
      using length_eat_ws[of r] length_tl[of s] by linarith
    moreover have "length (fst (next_tuple (eat_whitespace r) (ret @ [(fresh_key ret n 1, v)])))
        \<le> length (eat_whitespace r)"
      using "3.IH"(2)[OF _ nr refl refl] False by blast
    ultimately show ?thesis using "3.hyps" False nr by (simp add: next_tuple.psimps)
  qed
next
  case (4 s ret)
  let ?s1 = "eat_whitespace (tl s)"
  have s1: "length ?s1 \<le> length s" and s2: "length (skip_item_name ?s1) \<le> length s"
    using length_ws_tl[of s] length_skip_item[of ?s1] by linarith+
  consider (stop) "s = [] \<or> hd s = CHR '']''"
    | (close) "\<not> (s = [] \<or> hd s = CHR '']'')" "?s1 \<noteq> [] \<and> hd ?s1 = CHR '']''"
    | (junk) "\<not> (s = [] \<or> hd s = CHR '']'')" "\<not> (?s1 \<noteq> [] \<and> hd ?s1 = CHR '']'')"
        "next_value (skip_item_name ?s1) = None"
    | (item) r v where "\<not> (s = [] \<or> hd s = CHR '']'')" "\<not> (?s1 \<noteq> [] \<and> hd ?s1 = CHR '']'')"
        "next_value (skip_item_name ?s1) = Some (r, v)"
    by (cases "next_value (skip_item_name ?s1)") auto
  then show ?case
  proof cases
    case stop
    with "4.hyps" show ?thesis by (auto simp: next_list.psimps)
  next
    case close
    with "4.hyps" "4.IH"(1)[OF _ refl] s1 show ?thesis
      by (simp add: next_list.psimps Let_def)
  next
    case junk
    have "length (fst (next_list (skip_item_name ?s1) ret)) \<le> length s"
      using "4.IH"(3)[OF junk(1) refl junk(2) refl junk(3)] s2 by linarith
    with "4.hyps" junk show ?thesis by (auto simp: next_list.psimps Let_def)
  next
    case item
    have "length r \<le> length (skip_item_name ?s1)"
      using "4.IH"(2)[OF item(1) refl item(2) refl] item(3) by blast
    moreover have "length (eat_whitespace r) \<le> length r" by simp
    moreover have "length (fst (next_list (eat_whitespace r) (ret @ [v]))) \<le> length (eat_whitespace r)"
      by (rule "4.IH"(4)[OF item(1) refl item(2) refl item(3) refl])
    ultimately have "length (fst (next_list (eat_whitespace r) (ret @ [v]))) \<le> length s"
      using s2 by linarith
    with "4.hyps" item show ?thesis by (auto simp: next_list.psimps Let_def)
  qed
qed

lemma list_item_length: "s \<noteq> [] \<Longrightarrow> length (skip_item_name (eat_whitespace (tl s))) < length s"
proof -
  assume "s \<noteq> []"
  then have "length s - 1 < length s" by simp
  then show ?thesis using length_ws_tl[of s] length_skip_item[of "eat_whitespace (tl s)"] by linarith
qed

lemma parser_dom: "All next_value_next_result_next_tuple_next_list_dom"
proof (relation "measure (\<lambda>x. case x of Inl (Inl s) \<Rightarrow> 4 * length s + 1 | Inl (Inr s) \<Rightarrow> 4 * length s + 2
     | Inr (Inl (s, _)) \<Rightarrow> 4 * length s | Inr (Inr (s, _)) \<Rightarrow> 4 * length s)", goal_cases)
  case (4 s x xa y)
  then have "length xa \<le> length s" using length_variable_name[of s xa y] by simp
  moreover have "length (eat_whitespace (tl xa)) \<le> length xa"
    using length_eat_ws[of "tl xa"] by simp
  ultimately show ?case by simp
next
  case (5 s ret)
  then show ?case by (cases s) auto
next
  case (6 s ret x2 x y xa ya)
  then have "length x \<le> length (tl s)" using parser_lengths(2)[of "tl s"] by auto
  then have "length (eat_whitespace x) \<le> length (tl s)"
    using length_eat_ws[of x] by linarith
  then show ?case using 6(1) by (cases s) auto
next
  case (7 s ret x)
  then have "length x < length s" using length_ws_tl[of s] by (cases s) (simp_all add: le_imp_less_Suc)
  then show ?case by simp
next
  case (8 s ret x xa)
  then have "length xa < length s"
    using list_item_length[of s] by simp
  then show ?case by simp
next
  case (9 s ret x xa)
  then have "length xa < length s"
    using list_item_length[of s] by simp
  then show ?case by simp
next
  case (10 s ret x xa x2 xb y)
  then have "length xa < length s" using list_item_length[of s] by simp
  moreover have "length xb \<le> length xa" using 10 parser_lengths(1)[of xa] by auto
  moreover have "length (eat_whitespace xb) \<le> length xb" by simp
  ultimately have "length (eat_whitespace xb) < length s" by linarith
  then show ?case by simp
qed auto

termination next_value by (rule parser_dom)

declare next_value.simps [simp del] next_result.simps [simp del]
  next_tuple.simps [simp del] next_list.simps [simp del]

subsection \<open>Records and output\<close>

definition next_token :: "jstr \<Rightarrow> jstr \<times> jstr" where
  "next_token s = (dropWhile is_digit s, takeWhile is_digit s)"

definition next_class :: "jstr \<Rightarrow> jstr \<times> jstr" where
  "next_class s =
     (dropWhile (\<lambda>c. c \<noteq> CHR '','') (tl s), js_trim (takeWhile (\<lambda>c. c \<noteq> CHR '','') (tl s)))"

definition parse_gdb_mi_line :: "jstr \<Rightarrow> mi_record option" where
  "parse_gdb_mi_line line0 =
     (let line = (if ends_with [BSL, CHR ''n''] line0 then take (length line0 - 2) line0 else line0);
          (r, token) = next_token (eat_whitespace line);
          s = eat_whitespace r
      in case s of
           [] \<Rightarrow> None
         | prefix # _ \<Rightarrow>
             (case (record_type_mapping prefix, output_type_mapping prefix) of
                (Some recordType, Some outputType) \<Rightarrow>
                  if recordType = RStream
                  then Some \<lparr>rec_token = token, rec_type = recordType, rec_output = outputType,
                              rec_class = output_type_name outputType,
                              rec_result = MConst (snd (next_const (tl s))), rec_prefix = prefix\<rparr>
                  else (let (r2, klass) = next_class s in
                        Some \<lparr>rec_token = token, rec_type = recordType, rec_output = outputType,
                              rec_class = klass,
                              rec_result = MTuple (snd (next_tuple r2 [])), rec_prefix = prefix\<rparr>)
              | _ \<Rightarrow> None))"

definition parse_out_line :: "mi_output \<Rightarrow> jstr \<Rightarrow> mi_output" where
  "parse_out_line out l =
     (let line = js_trim l in
      if line = [] then out
      else if line = ''(gdb)'' then out\<lparr>has_terminator := True\<rparr>
      else (case parse_gdb_mi_line line of
              None \<Rightarrow> out
            | Some record \<Rightarrow>
                if rec_type record = RResult then out\<lparr>result_record := Some record\<rparr>
                else out\<lparr>oob_records := oob_records out @ [record]\<rparr>))"

definition parse_gdb_mi_out :: "jstr \<Rightarrow> mi_output" where
  "parse_gdb_mi_out data =
     foldl parse_out_line \<lparr>has_terminator = False, oob_records = [], result_record = None\<rparr>
       (split_on NL data)"

subsection \<open>The printer GDB implements\<close>

text \<open>
  The MI syntax of the comment at the top of \<open>mi-parser.ts\<close>, as a printer. GDB's octal escapes
  are not produced: the parser keeps them as text.
\<close>

fun escape_c :: "jstr \<Rightarrow> jstr" where
  "escape_c [] = []"
| "escape_c (c # cs) =
     (if c = BSL then [BSL, BSL]
      else if c = NL then [BSL, CHR ''n'']
      else if c = CR then [BSL, CHR ''r'']
      else if c = CHR 0x09 then [BSL, CHR ''t'']
      else if c = DQ then [BSL, DQ]
      else [c]) @ escape_c cs"

fun mi_print :: "mi_value \<Rightarrow> jstr" where
  "mi_print (MConst s) = DQ # escape_c s @ [DQ]"
| "mi_print (MTuple kvs) =
     CHR ''{'' # join_with '','' (map (\<lambda>(k, v). k @ CHR ''='' # mi_print v) kvs) @ ''}''"
| "mi_print (MList vs) = CHR ''['' # join_with '','' (map mi_print vs) @ '']''"

definition good_key :: "jstr \<Rightarrow> bool" where
  "good_key k \<longleftrightarrow> CHR ''='' \<notin> set k \<and> js_trim k = k \<and> k \<notin> set object_prototype_keys"

fun mi_wf :: "mi_value \<Rightarrow> bool" where
  "mi_wf (MConst s) = (js_trim (escape_c s) = escape_c s)"
| "mi_wf (MTuple kvs) =
     (kvs \<noteq> [] \<and> distinct (map fst kvs) \<and> (\<forall>(k, v) \<in> set kvs. good_key k \<and> mi_wf v))"
| "mi_wf (MList vs) = (\<forall>v \<in> set vs. mi_wf v)"

lemma const_body_escape: "const_body (escape_c s @ DQ # rest) = (escape_c s, rest)"
proof (induction s)
  case Nil
  then show ?case by (cases rest) auto
next
  case (Cons c cs)
  obtain d ds where "escape_c cs @ DQ # rest = d # ds" by (cases "escape_c cs @ DQ # rest") auto
  with Cons show ?case by auto
qed

lemma unescape_escape [simp]: "simple_unescape (escape_c s) = s"
proof (induction s)
  case (Cons c cs)
  then show ?case by (cases "escape_c cs") (auto simp: escaped_char_def)
qed simp

lemma next_const_print:
  "js_trim (escape_c s) = escape_c s \<Longrightarrow> next_const (DQ # escape_c s @ DQ # rest) = (rest, s)"
  by (simp add: next_const_def const_body_escape)

lemma fresh_key_free: "\<not> key_in k ret \<Longrightarrow> fresh_key ret k n = k"
  by (subst fresh_key.simps) simp

lemma mi_print_not_ws: "eat_whitespace (mi_print v @ rest) = mi_print v @ rest"
  by (cases v) (simp_all add: eat_whitespace_def js_ws_def)

lemma next_variable_name_key:
  "CHR ''='' \<notin> set k \<Longrightarrow> next_variable_name (k @ CHR ''='' # s) = (CHR ''='' # s, js_trim k)"
proof -
  assume "CHR ''='' \<notin> set k"
  then have "\<forall>c \<in> set k. c \<noteq> CHR ''=''" by auto
  then show ?thesis by (simp add: next_variable_name_def takeWhile_append2 dropWhile_append2)
qed

lemma next_result_print:
  assumes "next_value (mi_print v @ rest) = Some (rest, v)" "CHR ''='' \<notin> set k" "js_trim k = k"
  shows "next_result (k @ CHR ''='' # mi_print v @ rest) = Some (rest, k, v)"
  using assms by (simp add: next_result.simps next_variable_name_key mi_print_not_ws)

lemma next_tuple_print:
  assumes "\<And>k v rest. (k, v) \<in> set kvs \<Longrightarrow> next_value (mi_print v @ rest) = Some (rest, v)"
    and "\<forall>(k, v) \<in> set kvs. good_key k"
    and "distinct (map fst (ret @ kvs))"
    and "t = [] \<or> hd t = CHR ''}''" and "kvs \<noteq> []" and "c \<noteq> CHR ''}''"
  shows "next_tuple (c # join_with '','' (map (\<lambda>(k, v). k @ CHR ''='' # mi_print v) kvs) @ t) ret
     = (tl t, ret @ kvs)"
  using assms
proof (induction kvs arbitrary: ret c)
  case (Cons kv kvs)
  obtain k v where kv: "kv = (k, v)" by force
  let ?pr = "\<lambda>(k, v). k @ CHR ''='' # mi_print v"
  let ?after = "(if kvs = [] then t else CHR '','' # join_with '','' (map ?pr kvs) @ t)"
  have join: "join_with '','' (map ?pr (kv # kvs)) @ t = k @ CHR ''='' # mi_print v @ ?after"
    by (cases kvs) (simp_all add: kv)
  have gk: "CHR ''='' \<notin> set k" "js_trim k = k" and free: "\<not> key_in k ret"
    using Cons.prems kv by (auto simp: good_key_def key_in_def)
  have res: "next_result (k @ CHR ''='' # mi_print v @ ?after) = Some (?after, k, v)"
    by (rule next_result_print) (use gk Cons.prems(1)[of k v] kv in auto)
  have ws: "eat_whitespace ?after = ?after"
    using Cons.prems(4) by (cases t) (auto simp: eat_whitespace_def js_ws_def)
  have "next_tuple (c # join_with '','' (map ?pr (kv # kvs)) @ t) ret =
      next_tuple ?after (ret @ [(k, v)])"
    unfolding join using res ws Cons.prems(6)
    by (subst next_tuple.simps) (simp add: fresh_key_free[OF free])
  also have "\<dots> = (tl t, ret @ kv # kvs)"
  proof (cases "kvs = []")
    case True
    with Cons.prems(4) kv show ?thesis by (subst next_tuple.simps) auto
  next
    case False
    have "next_tuple (CHR '','' # join_with '','' (map ?pr kvs) @ t) (ret @ [(k, v)])
        = (tl t, (ret @ [(k, v)]) @ kvs)"
      by (rule Cons.IH) (use Cons.prems kv False in auto)
    with False kv show ?thesis by simp
  qed
  finally show ?case .
qed simp

lemma next_list_print:
  assumes "\<And>v rest. v \<in> set vs \<Longrightarrow> next_value (mi_print v @ rest) = Some (rest, v)" and "c \<noteq> CHR '']''"
  shows "next_list (c # join_with '','' (map mi_print vs) @ CHR '']'' # rest) ret = (rest, ret @ vs)"
  using assms
proof (induction vs arbitrary: ret c)
  case Nil
  then show ?case
    by (simp add: next_list.simps eat_whitespace_def js_ws_def Let_def)
next
  case (Cons v vs)
  let ?t = "CHR '']'' # rest"
  let ?after = "(if vs = [] then ?t else CHR '','' # join_with '','' (map mi_print vs) @ ?t)"
  have join: "join_with '','' (map mi_print (v # vs)) @ ?t = mi_print v @ ?after"
    by (cases vs) simp_all
  obtain h r where hr: "mi_print v @ ?after = h # r"
      "h = DQ \<or> h = CHR ''{'' \<or> h = CHR ''[''"
    by (cases v) auto
  have ws: "eat_whitespace ?after = ?after"
    by (auto simp: eat_whitespace_def js_ws_def)
  have skip: "skip_item_name (h # r) = h # r" using hr(2) by (auto simp: skip_item_name_def)
  have nv: "next_value (h # r) = Some (?after, v)"
    using Cons.prems(1)[of v ?after] unfolding hr(1) by simp
  have ews: "eat_whitespace (h # r) = h # r"
    using mi_print_not_ws[of v ?after] unfolding hr(1) by simp
  have "next_list (c # join_with '','' (map mi_print (v # vs)) @ ?t) ret =
      next_list ?after (ret @ [v])"
    unfolding join hr(1) using skip nv ws ews hr(2) Cons.prems(2)
    by (subst next_list.simps) (auto simp: Let_def)
  also have "\<dots> = (rest, ret @ v # vs)"
  proof (cases "vs = []")
    case True
    then show ?thesis by (subst next_list.simps) auto
  next
    case False
    have "next_list (CHR '','' # join_with '','' (map mi_print vs) @ ?t) (ret @ [v]) = (rest, (ret @ [v]) @ vs)"
      by (rule Cons.IH) (use Cons.prems in auto)
    with False show ?thesis by simp
  qed
  finally show ?case .
qed

lemma next_value_print: "mi_wf v \<Longrightarrow> next_value (mi_print v @ rest) = Some (rest, v)"
proof (induction v arbitrary: rest)
  case (MConst s)
  then show ?case by (simp add: next_value.simps next_const_print)
next
  case (MTuple kvs)
  have "next_tuple (CHR ''{'' # join_with '','' (map (\<lambda>(k, v). k @ CHR ''='' # mi_print v) kvs) @ ''}'' @ rest) []
      = (tl (''}'' @ rest), [] @ kvs)"
  proof (rule next_tuple_print)
    show "next_value (mi_print v @ rest) = Some (rest, v)" if "(k, v) \<in> set kvs" for k v rest
      using MTuple.IH[OF that] MTuple.prems that by fastforce
  qed (use MTuple.prems in auto)
  then show ?case by (simp add: next_value.simps)
next
  case (MList vs)
  have "next_list (CHR ''['' # join_with '','' (map mi_print vs) @ CHR '']'' # rest) [] = (rest, [] @ vs)"
    by (rule next_list_print) (use MList in auto)
  then show ?case by (simp add: next_value.simps)
qed

subsection \<open>Whole lines\<close>

definition results_text :: "(jstr \<times> mi_value) list \<Rightarrow> jstr" where
  "results_text kvs =
     (if kvs = [] then []
      else CHR '','' # join_with '','' (map (\<lambda>(k, v). k @ CHR ''='' # mi_print v) kvs))"

definition record_line :: "jstr \<Rightarrow> char \<Rightarrow> jstr \<Rightarrow> (jstr \<times> mi_value) list \<Rightarrow> jstr" where
  "record_line token prefix klass kvs = token @ prefix # klass @ results_text kvs"

definition good_record :: "jstr \<Rightarrow> char \<Rightarrow> jstr \<Rightarrow> (jstr \<times> mi_value) list \<Rightarrow> bool" where
  "good_record token prefix klass kvs \<longleftrightarrow>
     (\<forall>c \<in> set token. is_digit c) \<and> prefix \<in> set ''^*+='' \<and>
     CHR '','' \<notin> set klass \<and> js_trim klass = klass \<and> BSL \<notin> set klass \<and>
     distinct (map fst kvs) \<and> (\<forall>(k, v) \<in> set kvs. good_key k \<and> mi_wf v)"

lemma prefix_facts:
  assumes "prefix \<in> set ''^*+=''"
  shows "\<not> js_ws prefix" "\<not> is_digit prefix"
    "\<exists>t ot. record_type_mapping prefix = Some t \<and> t \<noteq> RStream \<and> output_type_mapping prefix = Some ot"
  using assms by (auto simp: js_ws_def is_digit_def record_type_mapping_def output_type_mapping_def)

lemma join_with_ne: "xs \<noteq> [] \<Longrightarrow> last xs \<noteq> [] \<Longrightarrow> join_with sep xs \<noteq> []"
  by (induction sep xs rule: join_with.induct) auto

lemma last_join_with: "xs \<noteq> [] \<Longrightarrow> last xs \<noteq> [] \<Longrightarrow> last (join_with sep xs) = last (last xs)"
  by (induction sep xs rule: join_with.induct) (auto simp: join_with_ne)

lemma last_mi_print: "last (mi_print v) \<in> {DQ, CHR ''}'', CHR '']''}" "mi_print v \<noteq> []"
  by (cases v; simp)+

lemma last_results_text:
  assumes "kvs \<noteq> []"
  shows "results_text kvs \<noteq> []" "last (results_text kvs) \<noteq> CHR ''n''"
proof -
  let ?ps = "map (\<lambda>(k, v). k @ CHR ''='' # mi_print v) kvs"
  obtain k v where kv: "last kvs = (k, v)" by force
  have "last ?ps = k @ CHR ''='' # mi_print v" using assms kv by (simp add: last_map)
  then have "join_with '','' ?ps \<noteq> []" "last (join_with '','' ?ps) = last (mi_print v)"
    using assms last_join_with[of ?ps "'',''"] join_with_ne[of ?ps "'',''"] last_mi_print(2)[of v]
    by auto
  then show "results_text kvs \<noteq> []" "last (results_text kvs) \<noteq> CHR ''n''"
    using assms last_mi_print(1)[of v] by (auto simp: results_text_def)
qed

lemma record_line_no_escape_tail:
  assumes "good_record token prefix klass kvs"
  shows "\<not> ends_with [BSL, CHR ''n''] (record_line token prefix klass kvs)"
proof
  let ?l = "record_line token prefix klass kvs"
  assume "ends_with [BSL, CHR ''n''] ?l"
  then have d: "drop (length ?l - 2) ?l = [BSL, CHR ''n'']" and len: "2 \<le> length ?l"
    by (simp_all add: ends_with_def numeral_2_eq_2)
  then have e: "?l = take (length ?l - 2) ?l @ [BSL, CHR ''n'']" by (metis append_take_drop_id)
  then have "last ?l = CHR ''n''" by (metis last_snoc append.assoc append_Cons append_Nil)
  moreover have "last ?l = last (results_text kvs)" if "kvs \<noteq> []"
    using last_results_text[OF that] by (simp add: record_line_def)
  ultimately have k: "kvs = []" using last_results_text(2) by metis
  then have l: "?l = token @ prefix # klass" by (simp add: record_line_def results_text_def)
  have "token @ prefix # klass = take (length ?l - 2) ?l @ [BSL, CHR ''n'']"
    by (rule trans[OF l[symmetric] e])
  then have "BSL \<in> set (token @ prefix # klass)" by (metis in_set_conv_decomp)
  moreover have "\<not> is_digit BSL" by (simp add: is_digit_def)
  ultimately show False using assms by (auto simp: good_record_def)
qed

lemma next_class_print:
  assumes "CHR '','' \<notin> set klass" "js_trim klass = klass"
  shows "next_class (prefix # klass @ results_text kvs) = (results_text kvs, klass)"
proof -
  have "\<forall>c \<in> set klass. c \<noteq> CHR '',''" using assms(1) by auto
  then show ?thesis using assms(2)
    by (auto simp: next_class_def results_text_def takeWhile_append2 dropWhile_append2 dropWhile_eq_Nil_conv takeWhile_eq_all_conv)
qed

lemma next_tuple_results:
  assumes "distinct (map fst kvs)" "\<forall>(k, v) \<in> set kvs. good_key k \<and> mi_wf v"
  shows "snd (next_tuple (results_text kvs) []) = kvs"
proof (cases "kvs = []")
  case True
  then show ?thesis by (simp add: results_text_def next_tuple.simps)
next
  case False
  have "next_tuple (CHR '','' # join_with '','' (map (\<lambda>(k, v). k @ CHR ''='' # mi_print v) kvs) @ []) []
      = (tl [], [] @ kvs)"
    by (rule next_tuple_print) (use assms False next_value_print in \<open>auto\<close>)
  with False show ?thesis by (simp add: results_text_def)
qed

lemma token_split:
  assumes "\<forall>c \<in> set token. is_digit c" "\<not> is_digit p" "\<not> js_ws p"
  shows "next_token (eat_whitespace (token @ p # s)) = (p # s, token)"
    "eat_whitespace (p # s) = p # s"
proof -
  have "eat_whitespace (token @ p # s) = token @ p # s"
    using assms is_digit_not_ws by (cases token) (auto simp: eat_whitespace_def)
  then show "next_token (eat_whitespace (token @ p # s)) = (p # s, token)"
    using assms by (simp add: next_token_def takeWhile_digits_append dropWhile_digits_append)
  show "eat_whitespace (p # s) = p # s" using assms(3) by (simp add: eat_whitespace_def)
qed

text \<open>No object of a parsed value has the same key twice.\<close>

fun keys_distinct :: "mi_value \<Rightarrow> bool" where
  "keys_distinct (MConst s) = True"
| "keys_distinct (MTuple kvs) = (distinct (map fst kvs) \<and> (\<forall>(k, v) \<in> set kvs. keys_distinct v))"
| "keys_distinct (MList vs) = (\<forall>v \<in> set vs. keys_distinct v)"

lemma fresh_key_not_in: "\<not> key_in (fresh_key ret key count) ret"
proof (induction ret key count rule: fresh_key.induct)
  case (1 ret key count)
  then show ?case by (subst fresh_key.simps) simp
qed

lemma parser_keys_distinct:
  "\<forall>r v. next_value s = Some (r, v) \<longrightarrow> keys_distinct v"
  "\<forall>r n v. next_result s = Some (r, n, v) \<longrightarrow> keys_distinct v"
  "keys_distinct (MTuple ret) \<Longrightarrow> keys_distinct (MTuple (snd (next_tuple s ret)))"
  "keys_distinct (MList ret') \<Longrightarrow> keys_distinct (MList (snd (next_list s ret')))"
proof (induction s and s and s ret and s ret' rule: next_value_next_result_next_tuple_next_list.induct)
  case (1 s)
  show ?case
  proof (cases s)
    case Nil
    then show ?thesis by (simp add: next_value.simps)
  next
    case (Cons c cs)
    have "keys_distinct (MTuple (snd (next_tuple s [])))" if "c \<noteq> DQ" "c = CHR ''{''"
      using "1.IH"(1)[OF Cons that] by simp
    moreover have "keys_distinct (MList (snd (next_list s [])))"
      if "c \<noteq> DQ" "c \<noteq> CHR ''{''" "c = CHR ''[''"
      using "1.IH"(2)[OF Cons that] by simp
    ultimately show ?thesis
      using Cons by (auto simp: next_value.simps split: if_splits prod.splits)
  qed
next
  case (2 s)
  obtain r n where nv: "next_variable_name s = (r, n)" by force
  from "2.IH"[OF refl nv[symmetric]] show ?case
    by (subst next_result.simps) (auto simp: nv split: option.splits)
next
  case (3 s ret)
  show ?case
  proof (cases "s = [] \<or> hd s = CHR ''}'' \<or> next_result (tl s) = None")
    case True
    with "3.prems" show ?thesis by (subst next_tuple.simps) auto
  next
    case False
    then obtain r n v where nr: "next_result (tl s) = Some (r, n, v)" by auto
    have "keys_distinct v" using "3.IH"(1) False nr by auto
    then have "keys_distinct (MTuple (ret @ [(fresh_key ret n 1, v)]))"
      using "3.prems" fresh_key_not_in[of ret n 1] by (auto simp: key_in_def)
    moreover have "next_tuple s ret = next_tuple (eat_whitespace r) (ret @ [(fresh_key ret n 1, v)])"
      using False nr by (subst next_tuple.simps) auto
    ultimately show ?thesis using "3.IH"(2)[OF _ nr refl refl] False by simp
  qed
next
  case (4 s ret)
  let ?s1 = "eat_whitespace (tl s)"
  show ?case
  proof (cases "s = [] \<or> hd s = CHR '']''")
    case True
    with "4.prems" show ?thesis by (subst next_list.simps) auto
  next
    case op: False
    show ?thesis
    proof (cases "?s1 \<noteq> [] \<and> hd ?s1 = CHR '']''")
      case True
      with op "4.IH"(1)[OF op refl True "4.prems"] show ?thesis
        by (subst next_list.simps) (simp add: Let_def)
    next
      case nc: False
      show ?thesis
      proof (cases "next_value (skip_item_name ?s1)")
        case None
        with op nc "4.IH"(3)[OF op refl nc refl None "4.prems"] show ?thesis
          by (subst next_list.simps) (auto simp: Let_def)
      next
        case (Some rv)
        then obtain r v where rv: "next_value (skip_item_name ?s1) = Some (r, v)" by (cases rv) auto
        have "keys_distinct v" using "4.IH"(2)[OF op refl nc refl] rv by blast
        then have "keys_distinct (MList (snd (next_list (eat_whitespace r) (ret @ [v]))))"
          using "4.IH"(4)[OF op refl nc refl rv refl] "4.prems" by auto
        with op nc rv show ?thesis by (subst next_list.simps) (auto simp: Let_def)
      qed
    qed
  qed
qed

lemma record_line_parsed:
  assumes "good_record token prefix klass kvs"
  shows "\<exists>t ot. record_type_mapping prefix = Some t \<and> output_type_mapping prefix = Some ot \<and>
    parse_gdb_mi_line (record_line token prefix klass kvs) =
      Some \<lparr>rec_token = token, rec_type = t, rec_output = ot, rec_class = klass,
            rec_result = MTuple kvs, rec_prefix = prefix\<rparr>"
proof -
  have p: "prefix \<in> set ''^*+=''" and cls: "CHR '','' \<notin> set klass" "js_trim klass = klass"
    and tok: "\<forall>c \<in> set token. is_digit c"
    and res: "distinct (map fst kvs)" "\<forall>(k, v) \<in> set kvs. good_key k \<and> mi_wf v"
    using assms unfolding good_record_def by blast+
  obtain t ot where t: "record_type_mapping prefix = Some t" "t \<noteq> RStream"
      "output_type_mapping prefix = Some ot"
    using prefix_facts(3)[OF p] by blast
  show ?thesis
    using token_split[OF tok prefix_facts(2,1)[OF p]] t next_class_print[OF cls, of prefix]
      next_tuple_results[OF res] record_line_no_escape_tail[OF assms]
    by (auto simp: parse_gdb_mi_line_def record_line_def Let_def)
qed

subsection \<open>Properties\<close>

text \<open>
  The value parser inverts the MI printer. Any value GDB prints (strings with every escape the
  parser knows, tuples, lists, nested to any depth) is read back exactly, whatever follows it,
  if no tuple is empty, no tuple repeats a field, and no string has blanks at its edges.
\<close>

lemma mi_value_roundtrip:
  assumes "mi_wf v"
  shows "next_value (mi_print v @ rest) = Some (rest, v)"
  using assms by (rule next_value_print)

lemma mi_value_roundtrip_witness:
  "mi_wf (MTuple [(''a'', MConst [CHR ''x'', NL, DQ]), (''b'', MList [MConst '''', MList []])]) \<and>
   next_value (mi_print (MTuple [(''a'', MConst [CHR ''x'', NL, DQ]),
       (''b'', MList [MConst '''', MList []])]) @ '',z'')
     = Some ('',z'', MTuple [(''a'', MConst [CHR ''x'', NL, DQ]), (''b'', MList [MConst '''', MList []])])"
proof -
  have h: "mi_wf (MTuple [(''a'', MConst [CHR ''x'', NL, DQ]), (''b'', MList [MConst '''', MList []])])"
    by code_simp
  show ?thesis using h mi_value_roundtrip[OF h, of "'',z''"] by simp
qed

text \<open>
  C2: A result or async record is read back with its token, class and results. This is what
  routes an answer to the command with its token and an event to its handler. (The record has no empty tuple, no
  field name twice, no text with blanks at its edges, and names and a class the parser does not alter; the lemmas on the
  parser's errors below show what becomes of the others.)
\<close>

theorem mi_record_roundtrip:
  assumes "good_record token prefix klass kvs"
  shows "\<exists>t ot. record_type_mapping prefix = Some t \<and> output_type_mapping prefix = Some ot \<and>
    parse_gdb_mi_line (record_line token prefix klass kvs) =
      Some \<lparr>rec_token = token, rec_type = t, rec_output = ot, rec_class = klass,
            rec_result = MTuple kvs, rec_prefix = prefix\<rparr>"
  using assms by (rule record_line_parsed)

theorem mi_record_roundtrip_witness:
  "good_record ''12'' CHR ''^'' ''done'' [(''value'', MConst ''7'')] \<and>
   parse_gdb_mi_line ''12^done,value=\"7\"'' =
     Some \<lparr>rec_token = ''12'', rec_type = RResult, rec_output = OResult, rec_class = ''done'',
           rec_result = MTuple [(''value'', MConst ''7'')], rec_prefix = CHR ''^''\<rparr>"
proof -
  have h: "good_record ''12'' CHR ''^'' ''done'' [(''value'', MConst ''7'')]" by code_simp
  have l: "record_line ''12'' CHR ''^'' ''done'' [(''value'', MConst ''7'')] = ''12^done,value=\"7\"''"
    by code_simp
  show ?thesis using h mi_record_roundtrip[OF h] unfolding l
    by (auto simp: record_type_mapping_def output_type_mapping_def)
qed

text \<open>
  C3: On any input at all the parser returns, the remainder is no longer than the input, and no
  object of a parsed value has a key twice: a field GDB repeats is kept under a key of its own
  instead of overwriting the first one.
\<close>

theorem parsed_keys_distinct:
  "case next_value s of None \<Rightarrow> True | Some (r, v) \<Rightarrow> keys_distinct v \<and> length r \<le> length s"
proof (cases "next_value s")
  case (Some rv)
  obtain r v where rv: "rv = (r, v)" by force
  show ?thesis using parser_keys_distinct(1)[of s] parser_lengths(1)[of s] parser_dom Some rv by simp
qed simp

text \<open>
  A line without a newline yields at most one record, so the first out-of-band record that
  \<open>handleStopped\<close> looks at is the one whose class it was called for.
\<close>

theorem line_yields_one_record:
  assumes "NL \<notin> set line"
  shows "let out = parse_gdb_mi_out line in
    length (oob_records out) + (if result_record out = None then 0 else 1) \<le> 1"
  using assms
  by (auto simp: parse_gdb_mi_out_def split_on_no_sep parse_out_line_def Let_def split: option.splits)

theorem line_yields_one_record_witness:
  "NL \<notin> set ''*running'' \<and> length (oob_records (parse_gdb_mi_out ''*running'')) \<le> 1"
proof -
  have h: "NL \<notin> set ''*running''" by simp
  show ?thesis using h line_yields_one_record[OF h] by (simp add: Let_def split: if_splits)
qed

text \<open>
  The grammar the file documents has the empty tuple, but the parser does not: after \<open>a={}\<close> it
  looks for a result name past the closing brace and takes the next field into the tuple.
\<close>

theorem empty_tuple_swallows_next_field:
  "snd (next_tuple '',a={},b=\"1\"'' []) = [(''a'', MTuple [(''},b'', MConst ''1'')])]"
  by code_simp

text \<open>
  Console output should be displayed as is, but the parser trims every string before it
  undoes the escapes: blanks at the edges of a console line are lost, escaped newlines are not.
\<close>

theorem console_text_loses_indentation:
  "map_option rec_result (parse_gdb_mi_line (''~\"  x = 1'' @ [BSL, CHR ''n''] @ ''\"''))
     = Some (MConst (''x = 1'' @ [NL]))"
  by code_simp

end
