(* ===== verification/GdbInstance.thy ===== *)
theory GdbInstance
  imports Lines MiParser "HOL-Library.Multiset"
begin

text \<open>
  \<open>GdbInstance\<close> of \<open>packages/mcu-debug/src/adapter/gdb-mi/gdb-instance.ts\<close>: the process of GDB
  seen from the adapter. Callers queue commands, a worker sends them one at a time with a
  sequence number as token, answers are matched to pending commands by token, and a command can
  also end by a timer, by a failing write or by the session stopping.

  The model is a step function on events. A promise handed to a caller is a number; settling it is
  an output. The asynchronous function \<open>processCommandQueue\<close> is a worker with an explicit program
  counter: it awaits the answer of an item (\<open>WWait\<close>), the answer is there and the continuation
  has not run yet (\<open>WReady\<close>), or it is not running (\<open>WIdle\<close>). Listeners of emitted events run
  inside the emitting call in the code; what they send is a later event here.
\<close>

subsection \<open>State\<close>

datatype gdb_status = StatusNone | StatusRunning | StatusStopped

datatype mi_error =
    EGdb jstr mi_value   \<comment> \<open>GDB answered \<open>^error\<close>: the command and the message\<close>
  | EStopping
  | ENotRunning
  | ETimer nat jstr
  | EWrite

type_synonym reply = "mi_error + mi_output"

datatype dest = Caller nat | Worker nat

record pending =
  pc_cmd :: jstr
  pc_dest :: dest
  pc_armed :: bool
  pc_timeout :: nat

record queue_item =
  qi_command :: jstr
  qi_promise :: nat
  qi_timeout :: nat

datatype worker = WIdle | WWait nat | WReady nat reply

datatype stop_phase = StopWaiting | StopKilled | StopResolved

record gdb =
  gi_ending :: bool
  gi_process :: bool
  gi_stdin :: bool
  gi_stdout :: bool
  gi_write_ok :: bool
  gi_seq :: nat
  gi_pending :: "(nat \<times> pending) list"
  gi_status :: gdb_status
  gi_suppress :: bool
  gi_queue_on :: bool
  gi_traces :: bool
  gi_no_timeouts :: bool
  gi_buf :: jstr
  gi_errbuf :: jstr
  gi_oob :: "mi_record list"
  gi_first_stop :: bool
  gi_queue :: "queue_item list"
  gi_processing :: bool
  gi_worker :: worker
  gi_next :: nat
  gi_exit_l :: "nat option"
  gi_stops :: "stop_phase list"

text \<open>
  \<open>gi_stdin\<close>, \<open>gi_stdout\<close> and \<open>gi_write_ok\<close> are the answers of the operating system: the pipes are
  there and usable, and \<open>write\<close> does not throw. \<open>gi_exit_l\<close> names the \<open>stop\<close> call whose listeners
  are attached to the process, none for the listeners of \<open>start\<close>; \<open>gi_stops\<close> holds the phase of
  each call of \<open>stop\<close>.
\<close>

definition gi_init :: gdb where
  "gi_init = \<lparr>gi_ending = False, gi_process = False, gi_stdin = False, gi_stdout = False,
     gi_write_ok = False, gi_seq = 1, gi_pending = [], gi_status = StatusNone, gi_suppress = False,
     gi_queue_on = True, gi_traces = False, gi_no_timeouts = False, gi_buf = [], gi_errbuf = [],
     gi_oob = [], gi_first_stop = True, gi_queue = [], gi_processing = False, gi_worker = WIdle,
     gi_next = 0, gi_exit_l = None, gi_stops = []\<rparr>"

datatype chan = Stderr | Stdout | Console

datatype gdb_out =
    Settle nat reply
  | Write jstr
  | Msg chan mi_value
  | Ev jstr mi_record
  | EvPlain jstr
  | EvStopped mi_record mi_value
  | Trace jstr mi_output
  | StderrLine jstr
  | Quit bool bool "int option" "jstr option"  \<comment> \<open>on stderr, unexpected, exit code, signal\<close>
  | EvError
  | KillProcess
  | StopDone nat
  | Throw

subsection \<open>Commands\<close>

text \<open>Settling the promise of a command: the caller sees it, or the worker becomes ready. Settling
  a promise that is no longer awaited does nothing.\<close>

fun settle :: "gdb \<Rightarrow> dest \<Rightarrow> reply \<Rightarrow> gdb \<times> gdb_out list" where
  "settle s (Caller i) r = (s, [Settle i r])"
| "settle s (Worker i) r =
     (if gi_worker s = WWait i then (s\<lparr>gi_worker := WReady i r\<rparr>, []) else (s, []))"

definition gi_usable :: "gdb \<Rightarrow> bool" where
  "gi_usable s = (gi_process s \<and> gi_stdin s \<and> \<not> gi_ending s \<and> gi_stdout s)"

definition dashed :: "jstr \<Rightarrow> jstr" where
  "dashed command = (if starts_with ''-'' command then command else ''-'' @ command)"

definition full_command :: "nat \<Rightarrow> jstr \<Rightarrow> jstr" where
  "full_command seq command = show_nat seq @ command @ [NL]"

definition send_command_internal ::
    "gdb \<Rightarrow> dest \<Rightarrow> jstr \<Rightarrow> nat \<Rightarrow> gdb \<times> gdb_out list" where
  "send_command_internal s d command0 timeout =
     (let command = dashed command0 in
      if \<not> gi_usable s then settle s d (Inl ENotRunning)
      else
        let seq = gi_seq s;
            fullCommand = full_command seq command;
            out1 = (if gi_traces s then [Msg Stdout (MConst fullCommand)] else []);
            p = \<lparr>pc_cmd = command, pc_dest = d,
                 pc_armed = (0 < timeout \<and> \<not> gi_no_timeouts s), pc_timeout = timeout\<rparr>;
            s1 = s\<lparr>gi_seq := seq + 1, gi_pending := gi_pending s @ [(seq, p)]\<rparr>
        in if gi_write_ok s then (s1, out1 @ [Write fullCommand])
           else
             (let (s2, out2) =
                settle (s1\<lparr>gi_pending := filter (\<lambda>(k, _). k \<noteq> seq) (gi_pending s1)\<rparr>) d (Inl EWrite)
              in (s2, out1 @ out2)))"

text \<open>The loop of the worker up to its next \<open>await\<close>.\<close>

definition worker_loop :: "gdb \<Rightarrow> gdb \<times> gdb_out list" where
  "worker_loop s =
     (case gi_queue s of
        [] \<Rightarrow> (s\<lparr>gi_processing := False, gi_worker := WIdle\<rparr>, [])
      | item # rest \<Rightarrow>
          send_command_internal (s\<lparr>gi_queue := rest, gi_worker := WWait (qi_promise item)\<rparr>)
            (Worker (qi_promise item)) (qi_command item) (qi_timeout item))"

definition process_command_queue :: "gdb \<Rightarrow> gdb \<times> gdb_out list" where
  "process_command_queue s =
     (if gi_processing s then (s, []) else worker_loop (s\<lparr>gi_processing := True\<rparr>))"

text \<open>The continuation of the \<open>await\<close>: settle the promise of the item, take the next one.\<close>

definition worker_resume :: "gdb \<Rightarrow> gdb \<times> gdb_out list" where
  "worker_resume s =
     (case gi_worker s of
        WReady i r \<Rightarrow> (let (s1, out) = worker_loop s in (s1, Settle i r # out))
      | _ \<Rightarrow> (s, []))"

definition send_command :: "gdb \<Rightarrow> jstr \<Rightarrow> nat \<Rightarrow> gdb \<times> gdb_out list" where
  "send_command s command timeout =
     (let i = gi_next s; s1 = s\<lparr>gi_next := i + 1\<rparr> in
      if \<not> gi_queue_on s then send_command_internal s1 (Caller i) command timeout
      else process_command_queue (s1\<lparr>gi_queue := gi_queue s1 @
             [\<lparr>qi_command = command, qi_promise = i, qi_timeout = timeout\<rparr>]\<rparr>))"

definition user_input_command :: "jstr \<Rightarrow> jstr" where
  "user_input_command command =
     (if starts_with ''-'' command then drop 1 command
      else ''interpreter-exec console \"'' @ command @ ''\"'')"

definition set_queue :: "gdb \<Rightarrow> bool \<Rightarrow> gdb \<times> gdb_out list" where
  "set_queue s b =
     (if b then process_command_queue (s\<lparr>gi_queue_on := True\<rparr>) else (s\<lparr>gi_queue_on := False\<rparr>, []))"

text \<open>The timer of a pending command. It finds nothing to do once the command is answered.\<close>

definition command_timeout :: "gdb \<Rightarrow> nat \<Rightarrow> gdb \<times> gdb_out list" where
  "command_timeout s seq =
     (case map_of (gi_pending s) seq of
        None \<Rightarrow> (s, [])
      | Some p \<Rightarrow>
          if pc_armed p
          then settle (s\<lparr>gi_pending := filter (\<lambda>(k, _). k \<noteq> seq) (gi_pending s)\<rparr>) (pc_dest p)
                 (Inl (ETimer (pc_timeout p) (pc_cmd p)))
          else (s, []))"

subsection \<open>Output of GDB\<close>

definition mi_field :: "mi_value \<Rightarrow> jstr \<Rightarrow> mi_value option" where
  "mi_field v k = (case v of MTuple kvs \<Rightarrow> map_of kvs k | _ \<Rightarrow> None)"

text \<open>Conversion to a string by \<open>+\<close>, and the truth value of a field.\<close>

fun js_string :: "mi_value \<Rightarrow> jstr" where
  "js_string (MConst s) = s"
| "js_string (MTuple kvs) = ''[object Object]''"
| "js_string (MList vs) = join_with '','' (map js_string vs)"

definition js_string_opt :: "mi_value option \<Rightarrow> jstr" where
  "js_string_opt v = (case v of None \<Rightarrow> ''undefined'' | Some x \<Rightarrow> js_string x)"

definition truthy :: "mi_value option \<Rightarrow> bool" where
  "truthy v = (v \<noteq> None \<and> v \<noteq> Some (MConst []))"

fun is_infix :: "'a list \<Rightarrow> 'a list \<Rightarrow> bool" where
  "is_infix p [] = (p = [])"
| "is_infix p (x # xs) = (starts_with p (x # xs) \<or> is_infix p xs)"

text \<open>\<open>reason.includes(p)\<close>: strings and arrays have the method, on a plain object the call throws.\<close>

fun mi_includes :: "mi_value \<Rightarrow> jstr \<Rightarrow> bool option" where
  "mi_includes (MConst s) p = Some (is_infix p s)"
| "mi_includes (MList vs) p = Some (MConst p \<in> set vs)"
| "mi_includes (MTuple kvs) p = None"

definition stop_includes :: "mi_value option \<Rightarrow> jstr \<Rightarrow> bool option" where
  "stop_includes reason p =
     (case reason of None \<Rightarrow> Some False
      | Some v \<Rightarrow> if v = MConst [] then Some False else mi_includes v p)"

text \<open>The branches of \<open>handleStopped\<close> on the reason: what is emitted first and the reason that is
  passed on. \<open>None\<close> is the exception of \<open>includes\<close>.\<close>

definition stop_reason_branch ::
    "bool \<Rightarrow> mi_record \<Rightarrow> mi_value option \<Rightarrow> (gdb_out list \<times> mi_value) option" where
  "stop_reason_branch firstStop rec reason =
     (let is = (\<lambda>s. reason = Some (MConst s)); keep = (\<lambda>evs. Some (evs, the reason)) in
      if is ''breakpoint-hit'' then keep [Ev ''breakpoint'' rec]
      else case stop_includes reason ''watchpoint-trigger'' of
        None \<Rightarrow> None
      | Some True \<Rightarrow> keep [Ev ''watchpoint'' rec]
      | Some False \<Rightarrow>
        (case stop_includes reason ''watchpoint-scope'' of
          None \<Rightarrow> None
        | Some True \<Rightarrow> keep [Ev ''watchpoint-scope'' rec]
        | Some False \<Rightarrow>
           if is ''end-stepping-range'' then keep [Ev ''step-end'' rec]
           else if is ''function-finished'' then keep [Ev ''step-out-end'' rec]
           else if is ''signal-received'' then keep [Ev ''signal-stop'' rec]
           else if is ''exited-normally'' then keep [Ev ''exited-normally'' rec]
           else if is ''exited'' then
             keep [Msg Stdout (MConst (''Program exited with code '' @
                     js_string_opt (mi_field (rec_result rec) ''exit-code''))),
                   Ev ''exited-normally'' rec]
           else if reason = None \<and> firstStop then
             Some ([Msg Stdout (MConst ''Program stopped, probably due to a reset and/or halt issued by debugger'')],
                   MConst ''entry'')
           else
             let r = (if truthy reason then the reason else MConst ''unknown'') in
             Some ([Msg Stdout (MConst (''Not implemented stop reason (assuming exception): '' @ js_string r))], r)))"

definition trace_status :: "gdb \<Rightarrow> jstr \<Rightarrow> gdb_out list" where
  "trace_status s name =
     (if gi_traces s then [Msg Stderr (MConst (''gdb-mi.status = '' @ name))] else [])"

definition handle_stopped :: "gdb \<Rightarrow> mi_output \<Rightarrow> gdb \<times> gdb_out list" where
  "handle_stopped s output =
     (let s1 = s\<lparr>gi_status := StatusStopped\<rparr>;
          out1 = trace_status s ''stopped'';
          rec = (case oob_records output of r # _ \<Rightarrow> r | [] \<Rightarrow> the (result_record output))
      in case stop_reason_branch (gi_first_stop s1) rec (mi_field (rec_result rec) ''reason'') of
           None \<Rightarrow> (s1, out1 @ [Throw])
         | Some (out2, reason) \<Rightarrow>
             (s1\<lparr>gi_first_stop := False\<rparr>,
              out1 @ out2 @ [EvStopped rec reason, Ev ''generic-stopped'' rec]))"

definition handle_oob_record ::
    "gdb \<Rightarrow> mi_output \<Rightarrow> mi_record \<Rightarrow> gdb \<times> gdb_out list" where
  "handle_oob_record s miOutput rec =
     (case rec_type rec of
        RAsync \<Rightarrow>
          (let s1 = s\<lparr>gi_oob := []\<rparr>; className = rec_class rec in
           if className = ''stopped'' then handle_stopped s1 miOutput
           else if className = ''running'' then
             (s1\<lparr>gi_status := StatusRunning\<rparr>, trace_status s1 ''running'' @ [EvPlain ''running''])
           else if rec_output rec = ONotify \<and>
                className \<in> set [''thread-created'', ''thread-exited'', ''thread-selected'']
             then (s1, [Ev className rec])
           else (s1, []))
      | RStream \<Rightarrow>
          (case rec_output rec of
             OConsole \<Rightarrow>
               (s\<lparr>gi_oob := gi_oob s @ [rec]\<rparr>,
                if gi_suppress s then [] else [Msg Console (rec_result rec)])
           | OTarget \<Rightarrow> (s, [Msg Console (rec_result rec)])
           | OLog \<Rightarrow> (s, [Msg Console (rec_result rec)])
           | _ \<Rightarrow> (s, []))
      | RResult \<Rightarrow> (s, []))"

text \<open>The loop over the records ends early only if a handler throws.\<close>

fun handle_oob_records ::
    "gdb \<Rightarrow> mi_output \<Rightarrow> mi_record list \<Rightarrow> gdb \<times> gdb_out list" where
  "handle_oob_records s miOutput [] = (s, [])"
| "handle_oob_records s miOutput (r # rs) =
     (let (s1, out1) = handle_oob_record s miOutput r in
      if Throw \<in> set out1 then (s1, out1)
      else (let (s2, out2) = handle_oob_records s1 miOutput rs in (s2, out1 @ out2)))"

text \<open>The result record of an output line, by the token of its command. \<open>None\<close> as a token is the
  \<open>NaN\<close> of \<open>parseInt\<close>, which is no key of the map.\<close>

definition handle_result :: "gdb \<Rightarrow> mi_output \<Rightarrow> mi_record \<Rightarrow> gdb \<times> gdb_out list" where
  "handle_result s miOutput rec =
     (let token = parse_int (rec_token rec) in
      case Option.bind token (map_of (gi_pending s)) of
        Some p \<Rightarrow>
          (let (s1, out1) =
             (if rec_class rec = ''error'' then
                settle s (pc_dest p) (Inl (EGdb (pc_cmd p)
                  (let m = mi_field (rec_result rec) ''msg'' in
                   if truthy m then the m else MConst ''Unknown error'')))
              else
                let out0 = (if rec_class rec = ''connected'' then [EvPlain ''connected''] else []);
                    answer = (if oob_records miOutput = [] \<and> gi_oob s \<noteq> []
                              then miOutput\<lparr>oob_records := gi_oob s\<rparr> else miOutput);
                    (s0, out) = settle s (pc_dest p) (Inr answer)
                in (s0, out0 @ out))
           in (s1\<lparr>gi_oob := [], gi_pending := filter (\<lambda>(k, _). k \<noteq> the token) (gi_pending s1)\<rparr>, out1))
      | None \<Rightarrow>
          (s, if gi_ending s then []
              else [Msg Stderr (MConst (''No pending command for token '' @
                      (case token of None \<Rightarrow> ''NaN'' | Some t \<Rightarrow> show_nat t)))]))"

definition line_result :: "gdb \<Rightarrow> mi_output \<Rightarrow> gdb \<times> gdb_out list" where
  "line_result s miOutput =
     (case result_record miOutput of None \<Rightarrow> (s, []) | Some rec \<Rightarrow> handle_result s miOutput rec)"

definition handle_output_line :: "gdb \<Rightarrow> jstr \<Rightarrow> gdb \<times> gdb_out list" where
  "handle_output_line s line =
     (if line = ''(gdb)'' then (s\<lparr>gi_oob := []\<rparr>, [])
      else
        let miOutput = parse_gdb_mi_out line;
            out0 = (if gi_traces s then [Trace line miOutput] else []);
            (s1, out1) = line_result s miOutput;
            (s2, out2) = handle_oob_records s1 miOutput (oob_records miOutput)
        in (s2, out0 @ out1 @ out2))"

text \<open>What a line may change. The events on records touch only the status, the first-stop flag
  and the saved console records; the rest of the state is collected in \<open>gi_core\<close>.\<close>

definition gi_core where
  "gi_core s = ((gi_pending s, gi_queue s, gi_worker s, gi_processing s, gi_next s, gi_seq s),
     (gi_queue_on s, gi_ending s, gi_process s, gi_stdin s, gi_stdout s, gi_write_ok s),
     (gi_buf s, gi_errbuf s, gi_exit_l s, gi_stops s, gi_traces s, gi_no_timeouts s))"

lemma settle_simps [simp]:
  "gi_pending (fst (settle s d r)) = gi_pending s" "gi_queue (fst (settle s d r)) = gi_queue s"
  "gi_processing (fst (settle s d r)) = gi_processing s" "gi_next (fst (settle s d r)) = gi_next s"
  "gi_seq (fst (settle s d r)) = gi_seq s" "gi_queue_on (fst (settle s d r)) = gi_queue_on s"
  "gi_ending (fst (settle s d r)) = gi_ending s" "gi_process (fst (settle s d r)) = gi_process s"
  "gi_buf (fst (settle s d r)) = gi_buf s" "gi_stops (fst (settle s d r)) = gi_stops s"
  "gi_exit_l (fst (settle s d r)) = gi_exit_l s" "gi_traces (fst (settle s d r)) = gi_traces s"
  "gi_oob (fst (settle s d r)) = gi_oob s"
  by (cases d; simp)+

lemma settle_worker:
  "gi_worker (fst (settle s d r)) =
     (case d of Worker i \<Rightarrow> if gi_worker s = WWait i then WReady i r else gi_worker s
              | Caller i \<Rightarrow> gi_worker s)"
  by (cases d) simp_all

lemma handle_stopped_core: "gi_core (fst (handle_stopped s out)) = gi_core s"
  by (simp add: handle_stopped_def gi_core_def Let_def split: option.split prod.split)

lemma handle_oob_record_core: "gi_core (fst (handle_oob_record s out rec)) = gi_core s"
  using handle_stopped_core[of "s\<lparr>gi_oob := []\<rparr>" out]
  by (simp add: handle_oob_record_def gi_core_def Let_def split: record_type.split output_type.split)

lemma handle_oob_records_core: "gi_core (fst (handle_oob_records s out recs)) = gi_core s"
proof (induction s out recs rule: handle_oob_records.induct)
  case (2 s out r rs)
  obtain s1 out1 where h: "handle_oob_record s out r = (s1, out1)" by force
  with handle_oob_record_core[of s out r] 2[OF h[symmetric] refl] show ?case
    by (cases "handle_oob_records s1 out rs") auto
qed simp

text \<open>The part of the state no output of GDB changes, but for the text buffer.\<close>

definition gi_fixed where
  "gi_fixed s = (gi_next s, gi_seq s, gi_queue s, gi_queue_on s, gi_processing s, gi_ending s,
     gi_process s, gi_stops s, gi_exit_l s, gi_traces s)"

lemma handle_result_frame:
  "gi_buf (fst (handle_result s out rec)) = gi_buf s \<and> gi_fixed (fst (handle_result s out rec)) = gi_fixed s"
proof (cases "Option.bind (parse_int (rec_token rec)) (map_of (gi_pending s))")
  case (Some p)
  show ?thesis
  proof (cases "rec_class rec = ''error''")
    case True
    with Some show ?thesis by (simp add: handle_result_def Let_def case_prod_beta gi_fixed_def)
  next
    case False
    with Some show ?thesis by (simp add: handle_result_def Let_def case_prod_beta gi_fixed_def)
  qed
qed (simp add: handle_result_def)

lemma handle_output_line_core:
  "gi_core (fst (handle_output_line s line)) =
     (if line = ''(gdb)'' then gi_core s
      else gi_core (fst (line_result s (parse_gdb_mi_out line))))"
  by (simp add: handle_output_line_def Let_def case_prod_beta handle_oob_records_core)
    (simp add: gi_core_def)

lemma handle_output_line_frame:
  "gi_buf (fst (handle_output_line s line)) = gi_buf s \<and> gi_fixed (fst (handle_output_line s line)) = gi_fixed s"
proof -
  have "gi_buf (fst (line_result s (parse_gdb_mi_out line))) = gi_buf s \<and>
      gi_fixed (fst (line_result s (parse_gdb_mi_out line))) = gi_fixed s"
    by (simp add: line_result_def handle_result_frame split: option.split)
  then show ?thesis
    using handle_output_line_core[of s line] by (simp add: gi_core_def gi_fixed_def split: if_splits)
qed

text \<open>The loop of \<open>handleStdoutData\<close>; an exception of a handler leaves it with the rest of the
  buffer unread.\<close>

function stdout_loop :: "gdb \<Rightarrow> gdb \<times> gdb_out list" where
  "stdout_loop s =
     (case index_of NL (gi_buf s) of
        None \<Rightarrow> (s, [])
      | Some index \<Rightarrow>
          (let line = js_trim (take index (gi_buf s));
               (s1, out1) = handle_output_line (s\<lparr>gi_buf := drop (index + 1) (gi_buf s)\<rparr>) line
           in if Throw \<in> set out1 then (s1, out1)
              else (let (s2, out2) = stdout_loop s1 in (s2, out1 @ out2))))"
  by pat_completeness auto
termination
proof (relation "measure (\<lambda>s. length (gi_buf s))", goal_cases)
  case (2 s i l p s1 out1)
  have "gi_buf s1 = drop (i + 1) (gi_buf s)"
    using handle_output_line_frame[of "s\<lparr>gi_buf := drop (i + 1) (gi_buf s)\<rparr>" l] 2(2-4)
    by (cases "handle_output_line (s\<lparr>gi_buf := drop (i + 1) (gi_buf s)\<rparr>) l") simp
  moreover have "i < length (gi_buf s)" using index_of_Some_split[OF 2(1)] by blast
  ultimately show ?case by simp
qed simp

declare stdout_loop.simps [simp del]

lemma stdout_loop_fixed: "gi_fixed (fst (stdout_loop s)) = gi_fixed s"
proof (induction s rule: stdout_loop.induct)
  case (1 s)
  show ?case
  proof (cases "index_of NL (gi_buf s)")
    case (Some i)
    let ?s = "s\<lparr>gi_buf := drop (i + 1) (gi_buf s)\<rparr>" and ?l = "js_trim (take i (gi_buf s))"
    obtain s1 out1 where h: "handle_output_line ?s ?l = (s1, out1)" by force
    then have f: "gi_fixed s1 = gi_fixed s"
      using handle_output_line_frame[of ?s ?l] by (simp add: gi_fixed_def)
    show ?thesis
      using 1[OF Some refl h[symmetric] refl] Some h f
      by (subst stdout_loop.simps) (cases "stdout_loop s1", simp)
  qed (subst stdout_loop.simps, simp)
qed

definition stdout_data :: "gdb \<Rightarrow> jstr \<Rightarrow> gdb \<times> gdb_out list" where
  "stdout_data s str = stdout_loop (s\<lparr>gi_buf := gi_buf s @ str\<rparr>)"

definition stdout_close :: "gdb \<Rightarrow> gdb \<times> gdb_out list" where
  "stdout_close s =
     (let (s1, out) =
        (if gi_buf s \<noteq> [] then stdout_data (s\<lparr>gi_buf := []\<rparr>) (js_trim (gi_buf s)) else (s, []))
      in (s1\<lparr>gi_pending := []\<rparr>, out))"

definition stderr_data :: "gdb \<Rightarrow> jstr \<Rightarrow> gdb \<times> gdb_out list" where
  "stderr_data s str =
     (let (buf, ls) = handle_stdout_data (gi_errbuf s) str
      in (s\<lparr>gi_errbuf := buf\<rparr>, map StderrLine ls))"

definition stderr_close :: "gdb \<Rightarrow> gdb \<times> gdb_out list" where
  "stderr_close s =
     (if gi_errbuf s \<noteq> [] then (s\<lparr>gi_errbuf := []\<rparr>, [StderrLine (js_trim (gi_errbuf s))]) else (s, []))"

subsection \<open>The process and its end\<close>

definition handle_exit :: "gdb \<Rightarrow> int option \<Rightarrow> jstr option \<Rightarrow> gdb \<times> gdb_out list" where
  "handle_exit s code signal =
     (if gi_process s then
        let unexpected = (\<not> gi_ending s \<and> ((code \<noteq> None \<and> code \<noteq> Some 0) \<or> (signal \<noteq> None \<and> signal \<noteq> Some [])))
        in (s\<lparr>gi_process := False\<rparr>, [Quit unexpected unexpected code signal])
      else (s, []))"

text \<open>\<open>doResolve\<close> of the stop call \<open>k\<close>.\<close>

definition do_resolve :: "gdb \<Rightarrow> nat \<Rightarrow> gdb \<times> gdb_out list" where
  "do_resolve s k =
     (if k < length (gi_stops s) \<and> gi_stops s ! k \<noteq> StopResolved
      then (s\<lparr>gi_stops := (gi_stops s)[k := StopResolved], gi_process := False\<rparr>, [StopDone k])
      else (s, []))"

fun settle_all :: "gdb \<Rightarrow> dest list \<Rightarrow> reply \<Rightarrow> gdb \<times> gdb_out list" where
  "settle_all s [] r = (s, [])"
| "settle_all s (d # ds) r =
     (let (s1, out1) = settle s d r; (s2, out2) = settle_all s1 ds r in (s2, out1 @ out2))"

text \<open>\<open>stop\<close>; a call with no process returns at once, and is recorded as resolved.\<close>

definition gdb_stop :: "gdb \<Rightarrow> gdb \<times> gdb_out list" where
  "gdb_stop s =
     (let k = length (gi_stops s) in
      if \<not> gi_process s then (s\<lparr>gi_stops := gi_stops s @ [StopResolved]\<rparr>, [StopDone k])
      else
        let (s1, out1) = settle_all s (map (pc_dest \<circ> snd) (gi_pending s)) (Inl EStopping);
            out2 = map (\<lambda>item. Settle (qi_promise item) (Inl EStopping)) (gi_queue s1);
            s2 = s1\<lparr>gi_pending := [], gi_queue := [], gi_ending := True, gi_exit_l := Some k,
                    gi_stops := gi_stops s1 @ [StopWaiting]\<rparr>
        in if gi_stdin s2
           then (s2\<lparr>gi_seq := gi_seq s2 + 1\<rparr>, out1 @ out2 @
                  (if gi_write_ok s2 then [Write (full_command (gi_seq s2) ''-gdb-exit'')] else []))
           else (s2, out1 @ out2))"

definition process_exit :: "gdb \<Rightarrow> int option \<Rightarrow> jstr option \<Rightarrow> gdb \<times> gdb_out list" where
  "process_exit s code signal =
     (case gi_exit_l s of None \<Rightarrow> handle_exit s code signal | Some k \<Rightarrow> do_resolve s k)"

definition process_error :: "gdb \<Rightarrow> gdb \<times> gdb_out list" where
  "process_error s = (case gi_exit_l s of None \<Rightarrow> (s, [EvError]) | Some k \<Rightarrow> do_resolve s k)"

definition kill_timer :: "gdb \<Rightarrow> nat \<Rightarrow> gdb \<times> gdb_out list" where
  "kill_timer s k =
     (if k < length (gi_stops s) \<and> gi_stops s ! k = StopWaiting
      then (s\<lparr>gi_stops := (gi_stops s)[k := StopKilled]\<rparr>, [KillProcess]) else (s, []))"

definition kill_fallback :: "gdb \<Rightarrow> nat \<Rightarrow> gdb \<times> gdb_out list" where
  "kill_fallback s k =
     (if k < length (gi_stops s) \<and> gi_stops s ! k = StopKilled then do_resolve s k else (s, []))"

subsection \<open>Runs\<close>

datatype gdb_event =
    Spawn
  | Pipes bool bool bool     \<comment> \<open>stdin usable, stdout readable, writes succeed\<close>
  | Flags bool bool bool     \<comment> \<open>traces, timeouts disabled, console suppressed\<close>
  | Send jstr nat
  | SetQueue bool
  | Resume
  | Timeout nat
  | StdoutData jstr
  | StdoutClose
  | StderrData jstr
  | StderrClose
  | Stop
  | ProcessExit "int option" "jstr option"
  | ProcessError
  | KillTimer nat
  | KillFallback nat

fun gdb_step :: "gdb \<Rightarrow> gdb_event \<Rightarrow> gdb \<times> gdb_out list" where
  "gdb_step s Spawn = (s\<lparr>gi_process := True\<rparr>, [])"
| "gdb_step s (Pipes i out w) = (s\<lparr>gi_stdin := i, gi_stdout := out, gi_write_ok := w\<rparr>, [])"
| "gdb_step s (Flags t n c) = (s\<lparr>gi_traces := t, gi_no_timeouts := n, gi_suppress := c\<rparr>, [])"
| "gdb_step s (Send command timeout) = send_command s command timeout"
| "gdb_step s (SetQueue b) = set_queue s b"
| "gdb_step s Resume = worker_resume s"
| "gdb_step s (Timeout seq) = command_timeout s seq"
| "gdb_step s (StdoutData str) = stdout_data s str"
| "gdb_step s StdoutClose = stdout_close s"
| "gdb_step s (StderrData str) = stderr_data s str"
| "gdb_step s StderrClose = stderr_close s"
| "gdb_step s Stop = gdb_stop s"
| "gdb_step s (ProcessExit code signal) = process_exit s code signal"
| "gdb_step s ProcessError = process_error s"
| "gdb_step s (KillTimer k) = kill_timer s k"
| "gdb_step s (KillFallback k) = kill_fallback s k"

abbreviation gdb_run :: "gdb_event list \<Rightarrow> gdb \<times> gdb_out list" where
  "gdb_run \<equiv> run_steps gdb_step gi_init"

subsection \<open>Invariant and accounting of promises\<close>

fun dest_ids :: "dest \<Rightarrow> nat multiset" where
  "dest_ids (Caller i) = {#i#}"
| "dest_ids (Worker i) = {#}"

definition pending_ids :: "(nat \<times> pending) list \<Rightarrow> nat multiset" where
  "pending_ids ps = sum_list (map (dest_ids \<circ> pc_dest \<circ> snd) ps)"

fun worker_ids :: "worker \<Rightarrow> nat multiset" where
  "worker_ids WIdle = {#}"
| "worker_ids (WWait i) = {#i#}"
| "worker_ids (WReady i r) = {#i#}"

text \<open>The promises handed out and not settled: pending, queued, or in the hands of the worker.\<close>

definition live :: "gdb \<Rightarrow> nat multiset" where
  "live s = pending_ids (gi_pending s) + mset (map qi_promise (gi_queue s)) + worker_ids (gi_worker s)"

fun settled_of :: "gdb_out \<Rightarrow> nat multiset" where
  "settled_of (Settle i r) = {#i#}"
| "settled_of _ = {#}"

definition settled :: "gdb_out list \<Rightarrow> nat multiset" where
  "settled out = sum_list (map settled_of out)"

text \<open>At most one pending command belongs to the worker, which then awaits it.\<close>

definition awaited :: "(nat \<times> pending) list \<Rightarrow> worker \<Rightarrow> bool" where
  "awaited ps w \<longleftrightarrow>
     (\<forall>k p i. (k, p) \<in> set ps \<and> pc_dest p = Worker i \<longrightarrow> w = WWait i) \<and>
     (\<forall>k p i k' p' j. (k, p) \<in> set ps \<and> pc_dest p = Worker i \<and>
        (k', p') \<in> set ps \<and> pc_dest p' = Worker j \<longrightarrow> k' = k)"

definition gi_inv :: "gdb \<Rightarrow> bool" where
  "gi_inv s \<longleftrightarrow>
     distinct (map fst (gi_pending s)) \<and>
     (\<forall>k \<in> fst ` set (gi_pending s). k < gi_seq s) \<and>
     (gi_processing s \<longleftrightarrow> gi_worker s \<noteq> WIdle) \<and>
     (gi_worker s = WIdle \<longrightarrow> gi_queue s = []) \<and>
     awaited (gi_pending s) (gi_worker s)"

text \<open>What every step but the closing of the pipe does: no promise is lost, none is settled
  that was not live, the new ones are live or settled.\<close>

definition conserves :: "gdb \<Rightarrow> gdb \<times> gdb_out list \<Rightarrow> bool" where
  "conserves s r \<longleftrightarrow> gi_inv (fst r) \<and> gi_next s \<le> gi_next (fst r) \<and>
     settled (snd r) + live (fst r) = live s + mset [gi_next s..<gi_next (fst r)]"

lemma settled_simps [simp]:
  "settled [] = {#}" "settled (x # xs) = settled_of x + settled xs"
  "settled (xs @ ys) = settled xs + settled ys"
  by (simp_all add: settled_def)

lemma pending_ids_simps [simp]:
  "pending_ids [] = {#}" "pending_ids (x # xs) = dest_ids (pc_dest (snd x)) + pending_ids xs"
  "pending_ids (xs @ ys) = pending_ids xs + pending_ids ys"
  by (simp_all add: pending_ids_def)

lemma gi_core_eqD:
  assumes "gi_core s' = gi_core s"
  shows "gi_inv s' = gi_inv s" "live s' = live s" "gi_next s' = gi_next s"
  using assms by (auto simp: gi_core_def gi_inv_def live_def)

lemma conserves_refl [simp]: "gi_inv s \<Longrightarrow> settled out = {#} \<Longrightarrow> conserves s (s, out)"
  by (simp add: conserves_def)

lemma conserves_core:
  "gi_inv s \<Longrightarrow> gi_core s' = gi_core s \<Longrightarrow> settled out = {#} \<Longrightarrow> conserves s (s', out)"
  using gi_core_eqD[of s' s] by (simp add: conserves_def)

lemma conserves_trans:
  assumes "conserves s (s1, out1)" "conserves s1 (s2, out2)"
  shows "conserves s (s2, out1 @ out2)"
proof -
  have "[gi_next s..<gi_next s2] = [gi_next s..<gi_next s1] @ [gi_next s1..<gi_next s2]"
    using assms upt_add_eq_append[of "gi_next s" "gi_next s1" "gi_next s2 - gi_next s1"]
    by (simp add: conserves_def)
  moreover have "settled out1 + settled out2 + live s2 =
      live s + mset [gi_next s..<gi_next s1] + mset [gi_next s1..<gi_next s2]"
    using assms unfolding conserves_def fst_conv snd_conv
    by (metis add.assoc add.commute add.left_commute)
  ultimately show ?thesis using assms by (simp add: conserves_def add.assoc)
qed

lemma settle_settled [simp]: "settled (snd (settle s d r)) = dest_ids d"
  by (cases d) simp_all

lemma live_settle [simp]: "live (fst (settle s d r)) = live s"
  by (cases d) (simp_all add: live_def)

lemma pending_ids_remove:
  "distinct (map fst ps) \<Longrightarrow> map_of ps n = Some p \<Longrightarrow>
     pending_ids ps = dest_ids (pc_dest p) + pending_ids (filter (\<lambda>(k, _). k \<noteq> n) ps)"
proof (induction ps)
  case (Cons x ps)
  show ?case
  proof (cases "fst x = n")
    case True
    with Cons.prems(1) have "filter (\<lambda>(k, _). k \<noteq> n) ps = ps"
      by (intro filter_True) (auto simp: rev_image_eqI)
    with True Cons.prems show ?thesis by (cases x) simp
  next
    case False
    with Cons show ?thesis by (cases x) (simp add: add.left_commute)
  qed
qed simp

lemma filter_drop_new:
  "\<forall>k \<in> fst ` set ps. k < (n :: nat) \<Longrightarrow> filter (\<lambda>(k, _). k \<noteq> n) (ps @ [(n, p)]) = ps"
  by (induction ps) (auto split: prod.splits)

lemma awaited_subset: "awaited ps w \<Longrightarrow> set ps' \<subseteq> set ps \<Longrightarrow> awaited ps' w"
  unfolding awaited_def by (meson subsetD)

lemma awaited_none: "\<forall>x \<in> set ps. \<forall>i. pc_dest (snd x) \<noteq> Worker i \<Longrightarrow> awaited ps w"
  unfolding awaited_def by force

lemma settle_remove_inv:
  assumes inv: "gi_inv s" and p: "map_of (gi_pending s) n = Some p"
  shows "gi_inv (s\<lparr>gi_worker := gi_worker (fst (settle s (pc_dest p) r)),
    gi_pending := filter (\<lambda>(k, _). k \<noteq> n) (gi_pending s)\<rparr>)"
proof -
  have mem: "(n, p) \<in> set (gi_pending s)" by (rule map_of_SomeD) fact
  let ?ps = "filter (\<lambda>(k, _). k \<noteq> n) (gi_pending s)"
  have sub: "set ?ps \<subseteq> set (gi_pending s)" by auto
  have d: "distinct (map fst ?ps)" using inv by (simp add: gi_inv_def distinct_map_filter)
  show ?thesis
  proof (cases "pc_dest p")
    case (Caller i)
    have "awaited ?ps (gi_worker s)"
      using inv sub awaited_subset unfolding gi_inv_def by blast
    with inv d Caller show ?thesis by (auto simp: gi_inv_def)
  next
    case (Worker i)
    have aw: "awaited (gi_pending s) (gi_worker s)" using inv by (simp add: gi_inv_def)
    with mem Worker have w: "gi_worker s = WWait i" unfolding awaited_def by blast
    have "pc_dest (snd x) \<noteq> Worker j" if x: "x \<in> set ?ps" for x j
    proof
      assume "pc_dest (snd x) = Worker j"
      moreover have "(fst x, snd x) \<in> set (gi_pending s)" "fst x \<noteq> n" using x by auto
      ultimately show False using aw mem Worker unfolding awaited_def by blast
    qed
    then have "awaited ?ps (WReady i r)" by (intro awaited_none) blast
    with inv d w Worker show ?thesis by (auto simp: gi_inv_def)
  qed
qed

lemma send_internal_conserves:
  assumes inv: "distinct (map fst (gi_pending s))" "\<forall>k \<in> fst ` set (gi_pending s). k < gi_seq s"
  shows "settled (snd (send_command_internal s d c t)) + live (fst (send_command_internal s d c t))
           = live s + dest_ids d"
    "gi_next (fst (send_command_internal s d c t)) = gi_next s"
  using filter_drop_new[OF inv(2)]
  by (auto simp: send_command_internal_def Let_def case_prod_beta live_def settle_worker
      intro: live_settle split: dest.split)

lemma awaited_other: "awaited ps w \<Longrightarrow> \<forall>i. w \<noteq> WWait i \<Longrightarrow> \<forall>x \<in> set ps. \<forall>i. pc_dest (snd x) \<noteq> Worker i"
  unfolding awaited_def by force

lemma awaited_add:
  assumes "awaited ps w" "\<And>i. pc_dest p = Worker i \<Longrightarrow> w = WWait i \<and> (\<forall>x \<in> set ps. \<forall>j. pc_dest (snd x) \<noteq> Worker j)"
  shows "awaited (ps @ [(n, p)]) w"
  using assms unfolding awaited_def by (simp add: ball_conj_distrib) (metis snd_conv)

lemma send_internal_inv:
  assumes inv: "gi_inv s"
    and d: "\<And>i. d = Worker i \<Longrightarrow> gi_worker s = WWait i \<and>
              (\<forall>x \<in> set (gi_pending s). \<forall>j. pc_dest (snd x) \<noteq> Worker j)"
  shows "gi_inv (fst (send_command_internal s d c t))"
proof -
  have settle_ok: "gi_inv (fst (settle s1 d r))"
    if "gi_inv s1" "gi_pending s1 = gi_pending s" "gi_worker s1 = gi_worker s" for s1 r
  proof (cases d)
    case (Worker i)
    with d have "awaited (gi_pending s) (WReady i r)" by (intro awaited_none) blast
    with that Worker d show ?thesis by (simp add: gi_inv_def)
  qed (use that in simp)
  have keys: "\<forall>k \<in> fst ` set (gi_pending s). k < gi_seq s" using inv by (simp add: gi_inv_def)
  then have fresh: "gi_seq s \<notin> fst ` set (gi_pending s)" by blast
  have aw: "awaited (gi_pending s @ [(gi_seq s, \<lparr>pc_cmd = c', pc_dest = d, pc_armed = a, pc_timeout = t\<rparr>)])
              (gi_worker s)" for c' a
    using inv d by (intro awaited_add) (auto simp: gi_inv_def)
  have s1: "gi_inv (s\<lparr>gi_seq := gi_seq s + 1\<rparr>)" using inv by (auto simp: gi_inv_def)
  show ?thesis
  proof (cases "gi_usable s \<and> gi_write_ok s")
    case True
    then show ?thesis using inv fresh aw keys
      by (auto simp: send_command_internal_def Let_def gi_inv_def)
  next
    case False
    show ?thesis
    proof (cases "gi_usable s")
      case True
      with False filter_drop_new[OF keys] settle_ok[OF s1, of "Inl EWrite"] show ?thesis
        by (simp add: send_command_internal_def Let_def case_prod_beta)
    qed (use inv settle_ok in \<open>simp add: send_command_internal_def Let_def\<close>)
  qed
qed

lemma worker_loop_conserves:
  assumes inv: "gi_inv s" and w: "\<forall>i. gi_worker s \<noteq> WWait i" and pr: "gi_processing s"
  shows "gi_inv (fst (worker_loop s))" "gi_next (fst (worker_loop s)) = gi_next s"
    "settled (snd (worker_loop s)) + live (fst (worker_loop s)) + worker_ids (gi_worker s) = live s"
proof -
  have none: "\<forall>x \<in> set (gi_pending s). \<forall>i. pc_dest (snd x) \<noteq> Worker i"
    using inv w awaited_other unfolding gi_inv_def by blast
  have "gi_inv (fst (worker_loop s)) \<and> gi_next (fst (worker_loop s)) = gi_next s \<and>
    settled (snd (worker_loop s)) + live (fst (worker_loop s)) + worker_ids (gi_worker s) = live s"
  proof (cases "gi_queue s")
    case Nil
    with inv pr none show ?thesis
      by (auto simp: worker_loop_def gi_inv_def live_def awaited_none)
  next
    case (Cons item rest)
    let ?i = "qi_promise item"
    let ?s = "s\<lparr>gi_queue := rest, gi_worker := WWait ?i\<rparr>"
    have i: "gi_inv ?s" using inv pr none by (simp add: gi_inv_def awaited_none)
    have "gi_inv (fst (worker_loop s))"
      using Cons none i send_internal_inv[of ?s "Worker ?i"] by (simp add: worker_loop_def)
    moreover have "settled (snd (worker_loop s)) + live (fst (worker_loop s)) = live ?s"
      "gi_next (fst (worker_loop s)) = gi_next s"
      using Cons i send_internal_conserves[of ?s "Worker ?i"]
      by (simp_all add: worker_loop_def gi_inv_def)
    ultimately show ?thesis using Cons by (simp add: live_def add.commute)
  qed
  then show "gi_inv (fst (worker_loop s))" "gi_next (fst (worker_loop s)) = gi_next s"
    "settled (snd (worker_loop s)) + live (fst (worker_loop s)) + worker_ids (gi_worker s) = live s"
    by simp_all
qed

lemma process_queue_conserves:
  assumes "gi_processing s \<Longrightarrow> gi_inv s"
    and "\<not> gi_processing s \<Longrightarrow> gi_worker s = WIdle \<and> gi_inv (s\<lparr>gi_queue := []\<rparr>)"
  shows "gi_inv (fst (process_command_queue s))" "gi_next (fst (process_command_queue s)) = gi_next s"
    "settled (snd (process_command_queue s)) + live (fst (process_command_queue s)) = live s"
proof -
  have "gi_inv (fst (process_command_queue s)) \<and> gi_next (fst (process_command_queue s)) = gi_next s \<and>
    settled (snd (process_command_queue s)) + live (fst (process_command_queue s)) = live s"
  proof (cases "gi_processing s")
    case True
    with assms show ?thesis by (simp add: process_command_queue_def)
  next
    case False
    with assms have w: "gi_worker s = WIdle" and i: "gi_inv (s\<lparr>gi_queue := []\<rparr>)" by simp_all
    then have none: "\<forall>x \<in> set (gi_pending s). \<forall>i. pc_dest (snd x) \<noteq> Worker i"
      using awaited_other[of "gi_pending s" WIdle] by (auto simp: gi_inv_def)
    show ?thesis
    proof (cases "gi_queue s")
      case Nil
      with False w i show ?thesis
        by (auto simp: process_command_queue_def worker_loop_def gi_inv_def live_def)
    next
      case (Cons item rest)
      let ?i = "qi_promise item"
      let ?s = "s\<lparr>gi_processing := True, gi_queue := rest, gi_worker := WWait ?i\<rparr>"
      have i2: "gi_inv ?s" using i none by (simp add: gi_inv_def awaited_none)
      have p: "process_command_queue s =
          send_command_internal ?s (Worker ?i) (qi_command item) (qi_timeout item)"
        using False Cons by (simp add: process_command_queue_def worker_loop_def)
      have "gi_inv (fst (process_command_queue s))"
        unfolding p using none i2 by (intro send_internal_inv) simp_all
      moreover have "settled (snd (process_command_queue s)) + live (fst (process_command_queue s)) = live ?s"
        "gi_next (fst (process_command_queue s)) = gi_next s"
        unfolding p using i2 send_internal_conserves[of ?s "Worker ?i"] by (simp_all add: gi_inv_def)
      ultimately show ?thesis using Cons w by (simp add: live_def)
    qed
  qed
  then show "gi_inv (fst (process_command_queue s))" "gi_next (fst (process_command_queue s)) = gi_next s"
    "settled (snd (process_command_queue s)) + live (fst (process_command_queue s)) = live s" by simp_all
qed

lemma worker_resume_conserves: "gi_inv s \<Longrightarrow> conserves s (worker_resume s)"
proof (cases "gi_worker s")
  case (WReady i r)
  assume inv: "gi_inv s"
  with WReady worker_loop_conserves[OF inv] show ?thesis
    by (auto simp: worker_resume_def conserves_def case_prod_beta gi_inv_def)
qed (simp_all add: worker_resume_def)

lemma send_command_conserves:
  assumes inv: "gi_inv s" shows "conserves s (send_command s c t)"
proof (cases "gi_queue_on s")
  case True
  let ?s = "s\<lparr>gi_next := gi_next s + 1, gi_queue := gi_queue s @
      [\<lparr>qi_command = c, qi_promise = gi_next s, qi_timeout = t\<rparr>]\<rparr>"
  have "gi_processing ?s \<Longrightarrow> gi_inv ?s"
    "\<not> gi_processing ?s \<Longrightarrow> gi_worker ?s = WIdle \<and> gi_inv (?s\<lparr>gi_queue := []\<rparr>)"
    using inv by (auto simp: gi_inv_def)
  note p = process_queue_conserves[of ?s, OF this]
  show ?thesis using True p by (simp add: send_command_def conserves_def Let_def) (simp add: live_def)
next
  case False
  let ?s = "s\<lparr>gi_next := gi_next s + 1\<rparr>"
  have "gi_inv ?s" using inv by (simp add: gi_inv_def)
  with False send_internal_inv[of ?s "Caller (gi_next s)" c t]
    send_internal_conserves[of ?s "Caller (gi_next s)" c t]
  show ?thesis by (simp add: send_command_def conserves_def Let_def gi_inv_def) (simp add: live_def)
qed

lemma set_queue_conserves:
  assumes inv: "gi_inv s" shows "conserves s (set_queue s b)"
proof -
  let ?s = "s\<lparr>gi_queue_on := True\<rparr>"
  have "gi_processing ?s \<Longrightarrow> gi_inv ?s"
    "\<not> gi_processing ?s \<Longrightarrow> gi_worker ?s = WIdle \<and> gi_inv (?s\<lparr>gi_queue := []\<rparr>)"
    using inv by (auto simp: gi_inv_def)
  note p = process_queue_conserves[of ?s, OF this]
  show ?thesis
  proof (cases b)
    case True
    with p show ?thesis by (simp add: set_queue_def conserves_def) (simp add: live_def)
  next
    case False
    have "gi_inv (s\<lparr>gi_queue_on := False\<rparr>)" "live (s\<lparr>gi_queue_on := False\<rparr>) = live s"
      using inv by (simp_all add: gi_inv_def live_def)
    with False show ?thesis by (simp add: set_queue_def conserves_def)
  qed
qed

lemma settle_remove_conserves:
  assumes inv: "gi_inv s" and p: "map_of (gi_pending s) n = Some p"
    and s': "gi_core s' = gi_core (s\<lparr>gi_worker := gi_worker (fst (settle s (pc_dest p) r)),
      gi_pending := filter (\<lambda>(k, _). k \<noteq> n) (gi_pending s)\<rparr>)"
    and out: "settled out = dest_ids (pc_dest p)"
  shows "conserves s (s', out)"
proof -
  let ?s = "s\<lparr>gi_worker := gi_worker (fst (settle s (pc_dest p) r)),
      gi_pending := filter (\<lambda>(k, _). k \<noteq> n) (gi_pending s)\<rparr>"
  have "distinct (map fst (gi_pending s))" using inv by (simp add: gi_inv_def)
  note rm = pending_ids_remove[OF this p]
  have "worker_ids (gi_worker ?s) = worker_ids (gi_worker s)"
    by (simp add: settle_worker split: dest.split)
  with rm have "dest_ids (pc_dest p) + live ?s = live s" by (simp add: live_def)
  then have "conserves s (?s, out)"
    using settle_remove_inv[OF inv p, of r] out by (simp add: conserves_def)
  then show ?thesis using gi_core_eqD[OF s'] by (simp add: conserves_def)
qed

lemma command_timeout_conserves:
  assumes inv: "gi_inv s" shows "conserves s (command_timeout s n)"
proof (cases "map_of (gi_pending s) n")
  case (Some p)
  show ?thesis
  proof (cases "pc_armed p")
    case True
    let ?s = "s\<lparr>gi_pending := filter (\<lambda>(k, _). k \<noteq> n) (gi_pending s)\<rparr>"
    let ?r = "Inl (ETimer (pc_timeout p) (pc_cmd p)) :: reply"
    have "gi_core (fst (settle ?s (pc_dest p) ?r)) = gi_core (?s\<lparr>gi_worker := gi_worker (fst (settle s (pc_dest p) ?r))\<rparr>)"
      by (cases "pc_dest p") (simp_all add: gi_core_def)
    then have "conserves s (fst (settle ?s (pc_dest p) ?r), snd (settle ?s (pc_dest p) ?r))"
      by (intro settle_remove_conserves[OF inv Some, where r = ?r]) (simp_all add: gi_core_def)
    with Some True show ?thesis by (simp add: command_timeout_def)
  qed (simp add: command_timeout_def Some inv)
qed (simp add: command_timeout_def inv)

lemma handle_result_conserves:
  assumes inv: "gi_inv s" shows "conserves s (handle_result s out rec)"
proof (cases "Option.bind (parse_int (rec_token rec)) (map_of (gi_pending s))")
  case None
  with inv show ?thesis by (simp add: handle_result_def)
next
  case (Some p)
  then obtain n where n: "parse_int (rec_token rec) = Some n" and p: "map_of (gi_pending s) n = Some p"
    by (auto simp: bind_eq_Some_conv)
  have *: "gi_core ((fst (settle s (pc_dest p) r))\<lparr>gi_oob := [],
        gi_pending := filter (\<lambda>(k, _). k \<noteq> n) (gi_pending s)\<rparr>) =
      gi_core (s\<lparr>gi_worker := gi_worker (fst (settle s (pc_dest p) r)),
        gi_pending := filter (\<lambda>(k, _). k \<noteq> n) (gi_pending s)\<rparr>)" for r
    by (cases "pc_dest p") (simp_all add: gi_core_def)
  show ?thesis
    using settle_remove_conserves[OF inv p *] n p
    by (cases "rec_class rec = ''error''")
      (simp_all add: handle_result_def Let_def case_prod_beta)
qed

lemma stop_reason_branch_settled:
  "stop_reason_branch fs rec reason = Some (evs, v) \<Longrightarrow> settled evs = {#}"
  by (auto simp: stop_reason_branch_def Let_def split: option.splits bool.splits if_splits)

lemma handle_stopped_settled: "settled (snd (handle_stopped s out)) = {#}"
  by (auto simp: handle_stopped_def trace_status_def Let_def dest!: stop_reason_branch_settled
      split: option.split prod.split)

lemma handle_oob_record_settled: "settled (snd (handle_oob_record s out rec)) = {#}"
  by (auto simp: handle_oob_record_def Let_def handle_stopped_settled trace_status_def
      split: record_type.split output_type.split)

lemma handle_oob_records_settled: "settled (snd (handle_oob_records s out recs)) = {#}"
proof (induction s out recs rule: handle_oob_records.induct)
  case (2 s out r rs)
  obtain s1 out1 where h: "handle_oob_record s out r = (s1, out1)" by force
  with handle_oob_record_settled[of s out r] 2[OF h[symmetric] refl] show ?case
    by (cases "handle_oob_records s1 out rs") auto
qed simp

lemma handle_output_line_conserves:
  assumes inv: "gi_inv s" shows "conserves s (handle_output_line s line)"
proof (cases "line = ''(gdb)''")
  case True
  with inv show ?thesis by (auto simp: handle_output_line_def gi_core_def intro!: conserves_core)
next
  case False
  let ?o = "parse_gdb_mi_out line"
  obtain s1 out1 where r: "line_result s ?o = (s1, out1)" by force
  have c: "conserves s (s1, out1)"
    using handle_result_conserves[OF inv] inv
    by (simp add: line_result_def flip: r split: option.split)
  obtain s2 out2 where o: "handle_oob_records s1 ?o (oob_records ?o) = (s2, out2)" by force
  have "conserves s1 (s2, out2)"
    using c handle_oob_records_core[of s1 ?o "oob_records ?o"]
      handle_oob_records_settled[of s1 ?o "oob_records ?o"] o
    by (intro conserves_core) (simp_all add: conserves_def)
  with c have "conserves s (s2, out1 @ out2)" by (rule conserves_trans)
  with False r o show ?thesis by (simp add: handle_output_line_def conserves_def Let_def)
qed

lemma gi_buf_update_core: "gi_inv (s\<lparr>gi_buf := b\<rparr>) = gi_inv s" "live (s\<lparr>gi_buf := b\<rparr>) = live s"
  by (simp_all add: gi_inv_def live_def)

lemma conserves_buf: "conserves (s\<lparr>gi_buf := b\<rparr>) r = conserves s r"
  by (simp add: conserves_def gi_buf_update_core)

lemma stdout_loop_conserves: "gi_inv s \<Longrightarrow> conserves s (stdout_loop s)"
proof (induction s rule: stdout_loop.induct)
  case (1 s)
  show ?case
  proof (cases "index_of NL (gi_buf s)")
    case None
    with 1 show ?thesis by (subst stdout_loop.simps) simp
  next
    case (Some i)
    let ?s = "s\<lparr>gi_buf := drop (i + 1) (gi_buf s)\<rparr>" and ?l = "js_trim (take i (gi_buf s))"
    obtain s1 out1 where h: "handle_output_line ?s ?l = (s1, out1)" by force
    have c: "conserves s (s1, out1)"
      using handle_output_line_conserves[of ?s ?l] 1(2) h gi_buf_update_core
      by (simp add: conserves_buf)
    show ?thesis
    proof (cases "Throw \<in> set out1")
      case True
      with Some h c show ?thesis by (subst stdout_loop.simps) simp
    next
      case False
      obtain s2 out2 where l: "stdout_loop s1 = (s2, out2)" by force
      have "conserves s1 (s2, out2)"
        using 1(1)[OF Some refl h[symmetric] refl False] c l by (simp add: conserves_def)
      with c have "conserves s (s2, out1 @ out2)" by (rule conserves_trans)
      with Some h l False show ?thesis by (subst stdout_loop.simps) simp
    qed
  qed
qed

lemma stdout_data_conserves: "gi_inv s \<Longrightarrow> conserves s (stdout_data s str)"
  using stdout_loop_conserves[of "s\<lparr>gi_buf := gi_buf s @ str\<rparr>"] gi_buf_update_core
  by (simp add: stdout_data_def conserves_buf)

lemma settle_all_live:
  "live (fst (settle_all s ds r)) = live s" "settled (snd (settle_all s ds r)) = sum_list (map dest_ids ds)"
  "gi_next (fst (settle_all s ds r)) = gi_next s" "gi_pending (fst (settle_all s ds r)) = gi_pending s"
  "gi_queue (fst (settle_all s ds r)) = gi_queue s" "gi_processing (fst (settle_all s ds r)) = gi_processing s"
  "gi_worker (fst (settle_all s ds r)) = WIdle \<longleftrightarrow> gi_worker s = WIdle"
  "gi_seq (fst (settle_all s ds r)) = gi_seq s"
  by (induction ds arbitrary: s)
    (auto simp: Let_def case_prod_beta settle_worker split: dest.split)

lemma settled_map_Settle: "settled (map (\<lambda>x. Settle (f x) r) xs) = mset (map f xs)"
  by (induction xs) simp_all

lemma gdb_stop_conserves: "gi_inv s \<Longrightarrow> conserves s (gdb_stop s)"
proof (cases "gi_process s")
  case True
  assume inv: "gi_inv s"
  define s1 where "s1 = fst (settle_all s (map (pc_dest \<circ> snd) (gi_pending s)) (Inl EStopping))"
  note sa = settle_all_live[of s "map (pc_dest \<circ> snd) (gi_pending s)" "Inl EStopping", folded s1_def]
  have ids: "sum_list (map dest_ids (map (pc_dest \<circ> snd) (gi_pending s))) = pending_ids (gi_pending s)"
    by (simp add: pending_ids_def comp_assoc)
  have l: "live s = pending_ids (gi_pending s) + mset (map qi_promise (gi_queue s)) + worker_ids (gi_worker s1)"
    using sa by (simp add: live_def)
  have g: "fst (gdb_stop s) = s1\<lparr>gi_pending := [], gi_queue := [], gi_ending := True,
      gi_exit_l := Some (length (gi_stops s)), gi_stops := gi_stops s1 @ [StopWaiting],
      gi_seq := gi_seq (fst (gdb_stop s))\<rparr>"
    using True by (simp add: gdb_stop_def Let_def case_prod_beta s1_def)
  have "gi_inv (fst (gdb_stop s))"
    using inv sa unfolding gi_inv_def by (subst (1 2 3 4 5 6 7 8) g) (simp add: awaited_def)
  moreover have "settled (snd (gdb_stop s)) = pending_ids (gi_pending s) + mset (map qi_promise (gi_queue s))"
    using True sa ids by (simp add: gdb_stop_def Let_def case_prod_beta settled_map_Settle flip: s1_def)
  moreover have "live (fst (gdb_stop s)) = worker_ids (gi_worker s1)" by (subst g) (simp add: live_def)
  moreover have "gi_next (fst (gdb_stop s)) = gi_next s" using sa by (subst g) simp
  ultimately show ?thesis using l by (simp add: conserves_def)
qed (auto simp: gdb_stop_def Let_def gi_inv_def live_def conserves_def)

lemma process_end_conserves:
  "gi_inv s \<Longrightarrow> conserves s (do_resolve s k)" "gi_inv s \<Longrightarrow> conserves s (handle_exit s code sig)"
  "gi_inv s \<Longrightarrow> conserves s (kill_timer s k)"
  by (auto simp: do_resolve_def handle_exit_def kill_timer_def conserves_def gi_inv_def live_def Let_def)

lemma gdb_step_conserves:
  assumes inv: "gi_inv s" and e: "e \<noteq> StdoutClose"
  shows "conserves s (gdb_step s e)"
proof (cases e)
  case (StderrData str)
  have "settled (map StderrLine ls) = {#}" for ls by (induction ls) simp_all
  with StderrData inv show ?thesis
    by (auto simp: stderr_data_def case_prod_beta conserves_def gi_inv_def live_def)
next
  case StderrClose
  with inv show ?thesis by (auto simp: stderr_close_def conserves_def gi_inv_def live_def)
next
  case (KillFallback k)
  with inv show ?thesis by (simp add: kill_fallback_def process_end_conserves)
next
  case (ProcessExit code sig)
  with inv show ?thesis by (simp add: process_exit_def process_end_conserves split: option.split)
next
  case ProcessError
  with inv show ?thesis by (simp add: process_error_def process_end_conserves split: option.split)
next
  case Spawn
  with inv show ?thesis by (simp add: conserves_def gi_inv_def live_def)
next
  case (Pipes i out w)
  with inv show ?thesis by (simp add: conserves_def gi_inv_def live_def)
next
  case (Flags t n c)
  with inv show ?thesis by (simp add: conserves_def gi_inv_def live_def)
qed (use inv e in \<open>simp_all add: worker_resume_conserves send_command_conserves set_queue_conserves
      command_timeout_conserves stdout_data_conserves gdb_stop_conserves process_end_conserves\<close>)

text \<open>The closing of the pipe forgets the pending commands.\<close>

lemma stdout_close_inv:
  assumes inv: "gi_inv s"
  shows "gi_inv (fst (stdout_close s))" "gi_next (fst (stdout_close s)) = gi_next s"
    "settled (snd (stdout_close s)) + live (fst (stdout_close s)) \<subseteq># live s"
proof -
  obtain s1 out where s1: "(if gi_buf s \<noteq> [] then stdout_data (s\<lparr>gi_buf := []\<rparr>) (js_trim (gi_buf s))
      else (s, [])) = (s1, out)" by force
  have "conserves s (s1, out)"
    using inv stdout_data_conserves[of "s\<lparr>gi_buf := []\<rparr>"] gi_buf_update_core
    by (simp add: conserves_buf flip: s1)
  moreover have "gi_next s1 = gi_next s"
    using stdout_loop_fixed[of "s\<lparr>gi_buf := js_trim (gi_buf s)\<rparr>"] s1
    by (cases "gi_buf s = []") (auto simp: stdout_data_def gi_fixed_def)
  ultimately have i: "gi_inv s1" and n: "gi_next s1 = gi_next s" and l: "settled out + live s1 = live s"
    by (simp_all add: conserves_def)
  have c: "stdout_close s = (s1\<lparr>gi_pending := []\<rparr>, out)" unfolding stdout_close_def s1 by simp
  show "gi_inv (fst (stdout_close s))" "gi_next (fst (stdout_close s)) = gi_next s"
    using i n by (simp_all add: c gi_inv_def awaited_def)
  show "settled (snd (stdout_close s)) + live (fst (stdout_close s)) \<subseteq># live s"
    unfolding l[symmetric] by (simp add: c live_def ac_simps)
qed

subsection \<open>The awaited command and the tokens\<close>

text \<open>What the worker awaits is pending, while the pipe is open; with the queue on, nothing else is.\<close>

definition serving :: "gdb \<Rightarrow> bool" where
  "serving s \<longleftrightarrow> (\<forall>i. gi_worker s = WWait i \<longrightarrow> (\<exists>k p. (k, p) \<in> set (gi_pending s) \<and> pc_dest p = Worker i))"

definition queued_only :: "gdb \<Rightarrow> bool" where
  "queued_only s \<longleftrightarrow> gi_queue_on s \<and> (\<forall>k p. (k, p) \<in> set (gi_pending s) \<longrightarrow> (\<exists>i. pc_dest p = Worker i))"

fun writes :: "gdb_out list \<Rightarrow> jstr list" where
  "writes [] = []"
| "writes (Write c # out) = c # writes out"
| "writes (_ # out) = writes out"

definition token_of :: "jstr \<Rightarrow> nat" where
  "token_of c = dec_val (takeWhile is_digit c)"

text \<open>The tokens written by a step are fresh and increasing.\<close>

definition fresh_tokens :: "gdb \<Rightarrow> gdb \<times> gdb_out list \<Rightarrow> bool" where
  "fresh_tokens s r \<longleftrightarrow> gi_seq s \<le> gi_seq (fst r) \<and>
     (\<forall>t \<in> set (map token_of (writes (snd r))). gi_seq s \<le> t \<and> t < gi_seq (fst r)) \<and>
     sorted_wrt (<) (map token_of (writes (snd r)))"

lemma writes_append [simp]: "writes (xs @ ys) = writes xs @ writes ys"
proof (induction xs)
  case (Cons x xs)
  then show ?case by (cases x) simp_all
qed simp

lemma token_full_command: "token_of (full_command n (dashed c)) = n"
proof -
  have "\<exists>r. dashed c @ [NL] = CHR ''-'' # r"
    by (cases c) (auto simp: dashed_def starts_with_def)
  moreover have "\<not> is_digit CHR ''-''" by (simp add: is_digit_def)
  ultimately have "takeWhile is_digit (show_nat n @ dashed c @ [NL]) = show_nat n"
    using show_nat_digits by (intro takeWhile_digits_append) auto
  then show ?thesis by (simp add: token_of_def full_command_def)
qed

lemma fresh_tokens_trans:
  "fresh_tokens s (s1, o1) \<Longrightarrow> fresh_tokens s1 (s2, o2) \<Longrightarrow> fresh_tokens s (s2, o1 @ o2)"
  unfolding fresh_tokens_def by (auto simp: sorted_wrt_append) (meson order.trans order.strict_trans2 order.strict_trans1)+

lemma fresh_tokens_none: "gi_seq s' = gi_seq s \<Longrightarrow> writes out = [] \<Longrightarrow> fresh_tokens s (s', out)"
  by (simp add: fresh_tokens_def)

lemma settle_writes [simp]: "writes (snd (settle s d r)) = []"
  by (cases d) simp_all

lemma send_internal_tokens: "fresh_tokens s (send_command_internal s d c t)"
  using token_full_command[of "gi_seq s" c]
  by (auto simp: send_command_internal_def Let_def fresh_tokens_def case_prod_beta)

lemma fresh_tokens_seq: "fresh_tokens s' r \<Longrightarrow> gi_seq s' = gi_seq s \<Longrightarrow> fresh_tokens s r"
  by (simp add: fresh_tokens_def)

lemma worker_loop_tokens: "fresh_tokens s (worker_loop s)"
proof (cases "gi_queue s")
  case (Cons item rest)
  show ?thesis
    unfolding worker_loop_def Cons list.case by (rule fresh_tokens_seq[OF send_internal_tokens]) simp
qed (simp add: worker_loop_def fresh_tokens_none)

lemma process_queue_tokens: "fresh_tokens s (process_command_queue s)"
  using worker_loop_tokens[of "s\<lparr>gi_processing := True\<rparr>"]
  by (auto simp: process_command_queue_def fresh_tokens_def)

lemma stop_reason_branch_writes: "stop_reason_branch fs rec reason = Some (evs, v) \<Longrightarrow> writes evs = []"
  by (auto simp: stop_reason_branch_def Let_def split: option.splits bool.splits if_splits)

lemma handle_stopped_writes: "writes (snd (handle_stopped s out)) = []"
  by (auto simp: handle_stopped_def trace_status_def Let_def dest!: stop_reason_branch_writes
      split: option.split prod.split)

lemma handle_oob_record_writes: "writes (snd (handle_oob_record s out rec)) = []"
  by (auto simp: handle_oob_record_def Let_def handle_stopped_writes trace_status_def
      split: record_type.split output_type.split)

lemma handle_oob_records_writes: "writes (snd (handle_oob_records s out recs)) = []"
proof (induction s out recs rule: handle_oob_records.induct)
  case (2 s out r rs)
  obtain s1 out1 where h: "handle_oob_record s out r = (s1, out1)" by force
  with handle_oob_record_writes[of s out r] 2[OF h[symmetric] refl] show ?case
    by (cases "handle_oob_records s1 out rs") auto
qed simp

lemma handle_result_writes: "writes (snd (handle_result s out rec)) = []"
  by (cases "Option.bind (parse_int (rec_token rec)) (map_of (gi_pending s))";
      cases "rec_class rec = ''error''")
    (simp_all add: handle_result_def Let_def case_prod_beta)

lemma handle_output_line_writes: "writes (snd (handle_output_line s line)) = []"
  by (auto simp: handle_output_line_def line_result_def Let_def case_prod_beta handle_oob_records_writes
      handle_result_writes split: option.split)

lemma stdout_loop_writes: "writes (snd (stdout_loop s)) = []"
proof (induction s rule: stdout_loop.induct)
  case (1 s)
  show ?case
  proof (cases "index_of NL (gi_buf s)")
    case (Some i)
    let ?s = "s\<lparr>gi_buf := drop (i + 1) (gi_buf s)\<rparr>" and ?l = "js_trim (take i (gi_buf s))"
    obtain s1 out1 where h: "handle_output_line ?s ?l = (s1, out1)" by force
    show ?thesis
      using 1[OF Some refl h[symmetric] refl] Some h handle_output_line_writes[of ?s ?l]
      by (subst stdout_loop.simps) (cases "stdout_loop s1", simp)
  qed (subst stdout_loop.simps, simp)
qed

lemma settle_all_writes: "writes (snd (settle_all s ds r)) = []"
  by (induction ds arbitrary: s) (auto simp: Let_def case_prod_beta)

lemma writes_map [simp]: "writes (map (\<lambda>x. Settle (f x) r) xs) = []" "writes (map StderrLine ls) = []"
  by (induction xs, simp_all) (induction ls, simp_all)

lemma stdout_data_tokens: "fresh_tokens s (stdout_data s str)"
  using stdout_loop_fixed[of "s\<lparr>gi_buf := gi_buf s @ str\<rparr>"] stdout_loop_writes
  by (simp add: stdout_data_def fresh_tokens_def gi_fixed_def)

lemma gdb_step_tokens: "fresh_tokens s (gdb_step s e)"
proof (cases e)
  case (Send c t)
  then show ?thesis
    using send_internal_tokens[of "s\<lparr>gi_next := gi_next s + 1\<rparr>"]
      process_queue_tokens[of "s\<lparr>gi_next := gi_next s + 1, gi_queue := gi_queue s @
        [\<lparr>qi_command = c, qi_promise = gi_next s, qi_timeout = t\<rparr>]\<rparr>"]
    by (simp add: send_command_def Let_def fresh_tokens_def)
next
  case (SetQueue b)
  then show ?thesis using process_queue_tokens[of "s\<lparr>gi_queue_on := True\<rparr>"]
    by (simp add: set_queue_def fresh_tokens_def)
next
  case Resume
  then show ?thesis using worker_loop_tokens[of s]
    by (simp add: worker_resume_def fresh_tokens_def case_prod_beta split: worker.split)
next
  case (Timeout n)
  then show ?thesis by (auto simp: command_timeout_def fresh_tokens_def split: option.split)
next
  case (StdoutData str)
  then show ?thesis by (simp add: stdout_data_tokens)
next
  case StdoutClose
  then show ?thesis using stdout_data_tokens[of "s\<lparr>gi_buf := []\<rparr>" "js_trim (gi_buf s)"]
    by (simp add: stdout_close_def fresh_tokens_def case_prod_beta)
next
  case Stop
  have "token_of (full_command n ''-gdb-exit'') = n" for n
    using token_full_command[of n "''-gdb-exit''"] by (simp add: dashed_def starts_with_def)
  with Stop settle_all_writes settle_all_live show ?thesis
    by (simp add: gdb_stop_def Let_def fresh_tokens_def case_prod_beta)
qed (auto simp: fresh_tokens_def stderr_data_def case_prod_beta stderr_close_def kill_timer_def
    kill_fallback_def process_exit_def process_error_def handle_exit_def do_resolve_def Let_def
    split: option.split)

lemma serving_core: "gi_core s' = gi_core s \<Longrightarrow> serving s' = serving s \<and> queued_only s' = queued_only s"
  by (auto simp: gi_core_def serving_def queued_only_def)

lemma send_worker_serving: "gi_worker s = WWait i \<Longrightarrow> serving (fst (send_command_internal s (Worker i) c t))"
  by (auto simp: send_command_internal_def Let_def serving_def case_prod_beta settle_worker)
    (rule exI, rule exI, rule conjI, rule disjI1, rule conjI, rule refl, rule refl, simp)

lemma send_caller_serving:
  assumes "serving s" "\<forall>k \<in> fst ` set (gi_pending s). k < gi_seq s"
  shows "serving (fst (send_command_internal s (Caller i) c t))"
  using assms(1) filter_drop_new[OF assms(2)]
  unfolding serving_def by (auto simp: send_command_internal_def Let_def case_prod_beta) blast+

lemma worker_loop_serving: "serving (fst (worker_loop s))"
  by (cases "gi_queue s") (auto simp: worker_loop_def send_worker_serving, simp add: serving_def)

lemma process_queue_serving: "(gi_processing s \<Longrightarrow> serving s) \<Longrightarrow> serving (fst (process_command_queue s))"
  by (simp add: process_command_queue_def worker_loop_serving)

lemma settle_remove_serving:
  assumes inv: "gi_inv s" and p: "map_of (gi_pending s) n = Some p" and sv: "serving s"
    and s': "gi_core s' = gi_core (s\<lparr>gi_worker := gi_worker (fst (settle s (pc_dest p) r)),
      gi_pending := filter (\<lambda>(k, _). k \<noteq> n) (gi_pending s)\<rparr>)"
  shows "serving s'"
proof -
  have mem: "(n, p) \<in> set (gi_pending s)" by (rule map_of_SomeD) fact
  have d: "distinct (map fst (gi_pending s))" using inv by (simp add: gi_inv_def)
  have "serving (s\<lparr>gi_worker := gi_worker (fst (settle s (pc_dest p) r)),
      gi_pending := filter (\<lambda>(k, _). k \<noteq> n) (gi_pending s)\<rparr>)"
    unfolding serving_def
  proof (intro allI impI)
    fix i assume "gi_worker (s\<lparr>gi_worker := gi_worker (fst (settle s (pc_dest p) r)),
      gi_pending := filter (\<lambda>(k, _). k \<noteq> n) (gi_pending s)\<rparr>) = WWait i"
    then have w: "gi_worker s = WWait i" and np: "pc_dest p \<noteq> Worker i"
      by (auto simp: settle_worker split: dest.splits if_splits)
    then obtain k q where q: "(k, q) \<in> set (gi_pending s)" "pc_dest q = Worker i"
      using sv unfolding serving_def by blast
    then have "k \<noteq> n" using d mem np by (metis eq_key_imp_eq_value)
    with q show "\<exists>k q. (k, q) \<in> set (gi_pending (s\<lparr>gi_worker := gi_worker (fst (settle s (pc_dest p) r)),
      gi_pending := filter (\<lambda>(k, _). k \<noteq> n) (gi_pending s)\<rparr>)) \<and> pc_dest q = Worker i" by auto
  qed
  then show ?thesis using serving_core[OF s'] by simp
qed

lemma handle_result_serving: "gi_inv s \<Longrightarrow> serving s \<Longrightarrow> serving (fst (handle_result s out rec))"
proof (cases "Option.bind (parse_int (rec_token rec)) (map_of (gi_pending s))")
  case (Some p)
  assume inv: "gi_inv s" and sv: "serving s"
  obtain n where n: "parse_int (rec_token rec) = Some n" and p: "map_of (gi_pending s) n = Some p"
    using Some by (auto simp: bind_eq_Some_conv)
  have *: "gi_core ((fst (settle s (pc_dest p) r))\<lparr>gi_oob := [],
        gi_pending := filter (\<lambda>(k, _). k \<noteq> n) (gi_pending s)\<rparr>) =
      gi_core (s\<lparr>gi_worker := gi_worker (fst (settle s (pc_dest p) r)),
        gi_pending := filter (\<lambda>(k, _). k \<noteq> n) (gi_pending s)\<rparr>)" for r
    by (cases "pc_dest p") (simp_all add: gi_core_def)
  show ?thesis
    using settle_remove_serving[OF inv p sv *] n p
    by (cases "rec_class rec = ''error''")
      (simp_all add: handle_result_def Let_def case_prod_beta)
qed (simp add: handle_result_def)

lemma command_timeout_serving:
  assumes inv: "gi_inv s" and sv: "serving s" shows "serving (fst (command_timeout s n))"
proof (cases "map_of (gi_pending s) n")
  case (Some p)
  let ?s = "s\<lparr>gi_pending := filter (\<lambda>(k, _). k \<noteq> n) (gi_pending s)\<rparr>"
  have "gi_core (fst (settle ?s (pc_dest p) r)) = gi_core (?s\<lparr>gi_worker := gi_worker (fst (settle s (pc_dest p) r))\<rparr>)" for r
    by (cases "pc_dest p") (simp_all add: gi_core_def)
  then have "serving (fst (settle ?s (pc_dest p) r))" for r
    by (intro settle_remove_serving[OF inv Some sv, where r = r]) (simp add: gi_core_def)
  with Some sv show ?thesis by (simp add: command_timeout_def)
qed (simp add: command_timeout_def sv)

lemma handle_output_line_serving:
  assumes "gi_inv s" "serving s" shows "serving (fst (handle_output_line s line))"
proof (cases "line = ''(gdb)''")
  case True
  with assms(2) show ?thesis by (simp add: handle_output_line_def serving_def)
next
  case False
  have "serving (fst (line_result s (parse_gdb_mi_out line)))"
    using assms handle_result_serving by (simp add: line_result_def split: option.split)
  with False handle_output_line_core[of s line] show ?thesis
    using serving_core[of "fst (handle_output_line s line)" "fst (line_result s (parse_gdb_mi_out line))"]
    by simp
qed

lemma stdout_loop_serving: "gi_inv s \<Longrightarrow> serving s \<Longrightarrow> serving (fst (stdout_loop s))"
proof (induction s rule: stdout_loop.induct)
  case (1 s)
  show ?case
  proof (cases "index_of NL (gi_buf s)")
    case None
    with 1 show ?thesis by (subst stdout_loop.simps) simp
  next
    case (Some i)
    let ?s = "s\<lparr>gi_buf := drop (i + 1) (gi_buf s)\<rparr>" and ?l = "js_trim (take i (gi_buf s))"
    obtain s1 out1 where h: "handle_output_line ?s ?l = (s1, out1)" by force
    have i: "gi_inv ?s" and v: "serving ?s" using 1 by (simp_all add: gi_inv_def serving_def)
    have "gi_inv s1" "serving s1"
      using handle_output_line_conserves[OF i, of ?l] handle_output_line_serving[OF i v, of ?l] h
      by (simp_all add: conserves_def)
    then show ?thesis
      using 1(1)[OF Some refl h[symmetric] refl] Some h
      by (subst stdout_loop.simps) (cases "stdout_loop s1", simp)
  qed
qed

lemma gdb_step_serving:
  assumes inv: "gi_inv s" and sv: "serving s" and e: "e \<noteq> StdoutClose"
  shows "serving (fst (gdb_step s e))"
proof (cases e)
  case (Send c t)
  show ?thesis
  proof (cases "gi_queue_on s")
    case True
    with Send sv show ?thesis
      by (simp add: send_command_def Let_def) (rule process_queue_serving, simp add: serving_def)
  next
    case False
    have "serving (s\<lparr>gi_next := gi_next s + 1\<rparr>)" using sv by (simp add: serving_def)
    with False Send send_caller_serving[of "s\<lparr>gi_next := gi_next s + 1\<rparr>"] inv show ?thesis
      by (simp add: send_command_def Let_def gi_inv_def)
  qed
next
  case (SetQueue b)
  have "serving (fst (process_command_queue (s\<lparr>gi_queue_on := True\<rparr>)))"
    using sv by (intro process_queue_serving) (simp add: serving_def)
  with SetQueue sv show ?thesis by (simp add: set_queue_def serving_def)
next
  case Resume
  with sv show ?thesis
    by (simp add: worker_resume_def case_prod_beta worker_loop_serving split: worker.split)
next
  case (Timeout n)
  with inv sv show ?thesis by (simp add: command_timeout_serving)
next
  case (StdoutData str)
  let ?s = "s\<lparr>gi_buf := gi_buf s @ str\<rparr>"
  have "gi_inv ?s" "serving ?s" using inv sv by (simp_all add: gi_inv_def serving_def)
  then show ?thesis using StdoutData stdout_loop_serving by (simp add: stdout_data_def)
next
  case StdoutClose
  with e show ?thesis by simp
next
  case Stop
  have "gi_worker (fst (settle_all s1 ds r)) \<noteq> WWait i"
    if "gi_worker s1 = WWait i \<longrightarrow> Worker i \<in> set ds" for ds r i s1
    using that by (induction ds arbitrary: s1) (auto simp: Let_def case_prod_beta settle_worker split: dest.splits)
  moreover have "gi_worker s = WWait i \<longrightarrow> Worker i \<in> set (map (pc_dest \<circ> snd) (gi_pending s))" for i
    using sv unfolding serving_def by force
  ultimately have "gi_worker (fst (settle_all s (map (pc_dest \<circ> snd) (gi_pending s)) r)) \<noteq> WWait i" for i r
    by blast
  with Stop sv show ?thesis by (simp add: gdb_stop_def Let_def case_prod_beta serving_def)
qed (use sv in \<open>auto simp: serving_def stderr_data_def case_prod_beta stderr_close_def kill_timer_def
    kill_fallback_def process_exit_def process_error_def handle_exit_def do_resolve_def Let_def
    split: option.split\<close>)

lemma queued_only_subset:
  "queued_only s \<Longrightarrow> set (gi_pending s') \<subseteq> set (gi_pending s) \<Longrightarrow> gi_queue_on s' = gi_queue_on s \<Longrightarrow> queued_only s'"
  unfolding queued_only_def by (metis subsetD)

lemma send_worker_queued: "queued_only s \<Longrightarrow> queued_only (fst (send_command_internal s (Worker i) c t))"
  by (auto simp: send_command_internal_def Let_def queued_only_def case_prod_beta)

lemma process_queue_queued: "queued_only s \<Longrightarrow> queued_only (fst (process_command_queue s))"
  and worker_loop_queued: "queued_only s \<Longrightarrow> queued_only (fst (worker_loop s))"
proof -
  show w: "queued_only s \<Longrightarrow> queued_only (fst (worker_loop s))" for s
  proof (cases "gi_queue s")
    case (Cons item rest)
    assume "queued_only s"
    then have "queued_only (s\<lparr>gi_queue := rest, gi_worker := WWait (qi_promise item)\<rparr>)"
      by (simp add: queued_only_def)
    then show ?thesis unfolding worker_loop_def Cons list.case by (rule send_worker_queued)
  qed (simp add: worker_loop_def queued_only_def)
  assume q: "queued_only s"
  then have "queued_only (s\<lparr>gi_processing := True\<rparr>)" by (simp add: queued_only_def)
  with q w show "queued_only (fst (process_command_queue s))"
    unfolding process_command_queue_def by simp
qed

lemma handle_output_line_pending:
  "set (gi_pending (fst (handle_output_line s line))) \<subseteq> set (gi_pending s)"
proof -
  have "set (gi_pending (fst (handle_result s out rec))) \<subseteq> set (gi_pending s)" for out rec
    by (cases "Option.bind (parse_int (rec_token rec)) (map_of (gi_pending s))";
        cases "rec_class rec = ''error''")
      (auto simp: handle_result_def Let_def case_prod_beta)
  then have "set (gi_pending (fst (line_result s (parse_gdb_mi_out line)))) \<subseteq> set (gi_pending s)"
    by (simp add: line_result_def split: option.split)
  then show ?thesis using handle_output_line_core[of s line] by (auto simp: gi_core_def split: if_splits)
qed

lemma stdout_loop_pending: "set (gi_pending (fst (stdout_loop s))) \<subseteq> set (gi_pending s)"
proof (induction s rule: stdout_loop.induct)
  case (1 s)
  show ?case
  proof (cases "index_of NL (gi_buf s)")
    case (Some i)
    let ?s = "s\<lparr>gi_buf := drop (i + 1) (gi_buf s)\<rparr>" and ?l = "js_trim (take i (gi_buf s))"
    obtain s1 out1 where h: "handle_output_line ?s ?l = (s1, out1)" by force
    then have "set (gi_pending s1) \<subseteq> set (gi_pending s)"
      using handle_output_line_pending[of ?s ?l] by simp
    then show ?thesis
      using 1[OF Some refl h[symmetric] refl] Some h
      by (subst stdout_loop.simps) (cases "stdout_loop s1", auto)
  qed (subst stdout_loop.simps, simp)
qed

lemma gdb_step_queued:
  assumes q: "queued_only s" and e: "e \<noteq> SetQueue False"
  shows "queued_only (fst (gdb_step s e))"
proof (cases e)
  case (Send c t)
  have "queued_only (s\<lparr>gi_next := gi_next s + 1, gi_queue := gi_queue s @
      [\<lparr>qi_command = c, qi_promise = gi_next s, qi_timeout = t\<rparr>]\<rparr>)"
    using q by (simp add: queued_only_def)
  note process_queue_queued[OF this]
  with Send q show ?thesis by (simp add: send_command_def Let_def queued_only_def)
next
  case (SetQueue b)
  have "queued_only (s\<lparr>gi_queue_on := True\<rparr>)" using q by (simp add: queued_only_def)
  note process_queue_queued[OF this]
  with SetQueue e show ?thesis by (cases b) (simp_all add: set_queue_def)
next
  case Resume
  with q show ?thesis
    by (simp add: worker_resume_def case_prod_beta worker_loop_queued split: worker.split)
next
  case (Timeout n)
  show ?thesis using q by (rule queued_only_subset) (auto simp: Timeout command_timeout_def split: option.splits)
next
  case (StdoutData str)
  show ?thesis using q
    by (rule queued_only_subset)
      (use stdout_loop_pending[of "s\<lparr>gi_buf := gi_buf s @ str\<rparr>"]
         stdout_loop_fixed[of "s\<lparr>gi_buf := gi_buf s @ str\<rparr>"] in
        \<open>auto simp: StdoutData stdout_data_def gi_fixed_def\<close>)
next
  case StdoutClose
  show ?thesis using q
    by (rule queued_only_subset)
      (use stdout_loop_fixed[of "s\<lparr>gi_buf := js_trim (gi_buf s)\<rparr>"] in
        \<open>auto simp: StdoutClose stdout_close_def stdout_data_def gi_fixed_def case_prod_beta\<close>)
next
  case Stop
  have "gi_queue_on (fst (settle_all s1 ds r)) = gi_queue_on s1" for s1 ds r
    by (induction ds arbitrary: s1) (auto simp: Let_def case_prod_beta)
  with q Stop show ?thesis by (simp add: gdb_stop_def Let_def case_prod_beta queued_only_def)
qed (use q in \<open>auto simp: queued_only_def stderr_data_def case_prod_beta stderr_close_def kill_timer_def
    kill_fallback_def process_exit_def process_error_def handle_exit_def do_resolve_def Let_def
    split: option.split\<close>)

lemma gi_inv_step: "gi_inv s \<Longrightarrow> gi_inv (fst (gdb_step s e))"
  using gdb_step_conserves[of s e] stdout_close_inv[of s] by (cases "e = StdoutClose") (auto simp: conserves_def)

lemma gi_inv_init [simp]: "gi_inv gi_init" and live_init [simp]: "live gi_init = {#}"
  and next_init [simp]: "gi_next gi_init = 0"
  by (simp_all add: gi_init_def gi_inv_def live_def awaited_def)

interpretation session: step_framer gi_inv gdb_step
  by unfold_locales (rule gi_inv_step)

lemma run_conserves:
  "gi_inv s \<Longrightarrow> StdoutClose \<notin> set evs \<Longrightarrow> conserves s (run_steps gdb_step s evs)"
proof (induction evs arbitrary: s)
  case (Cons e evs)
  obtain s1 o1 where f: "gdb_step s e = (s1, o1)" by force
  with gdb_step_conserves[of s e] Cons.prems have c: "conserves s (s1, o1)" by auto
  then have "conserves s1 (run_steps gdb_step s1 evs)" using Cons by (simp add: conserves_def)
  with c f show ?case by (cases "run_steps gdb_step s1 evs") (simp add: conserves_trans)
qed simp

lemma run_accounts:
  "gi_inv s \<Longrightarrow> settled (snd (run_steps gdb_step s evs)) + live (fst (run_steps gdb_step s evs)) \<subseteq>#
      live s + mset [gi_next s..<gi_next (fst (run_steps gdb_step s evs))] \<and>
    gi_next s \<le> gi_next (fst (run_steps gdb_step s evs))"
proof (induction evs arbitrary: s)
  case (Cons e evs)
  obtain s1 o1 where f: "gdb_step s e = (s1, o1)" by force
  obtain s2 o2 where r: "run_steps gdb_step s1 evs = (s2, o2)" by force
  have i: "gi_inv s1" using gi_inv_step[OF Cons.prems, of e] f by simp
  have 1: "settled o1 + live s1 \<subseteq># live s + mset [gi_next s..<gi_next s1]" "gi_next s \<le> gi_next s1"
    using gdb_step_conserves[OF Cons.prems, of e] stdout_close_inv[OF Cons.prems] f
    by (cases "e = StdoutClose"; auto simp: conserves_def)+
  have 2: "settled o2 + live s2 \<subseteq># live s1 + mset [gi_next s1..<gi_next s2]" "gi_next s1 \<le> gi_next s2"
    using Cons.IH[OF i] r by simp_all
  have u: "[gi_next s..<gi_next s2] = [gi_next s..<gi_next s1] @ [gi_next s1..<gi_next s2]"
    using 1 2 upt_add_eq_append[of "gi_next s" "gi_next s1" "gi_next s2 - gi_next s1"] by simp
  have "settled o1 + (settled o2 + live s2) \<subseteq># settled o1 + (live s1 + mset [gi_next s1..<gi_next s2])"
    using 2(1) by (rule subset_mset.add_left_mono)
  also have "\<dots> = settled o1 + live s1 + mset [gi_next s1..<gi_next s2]" by (simp add: add.assoc)
  also have "\<dots> \<subseteq># live s + mset [gi_next s..<gi_next s1] + mset [gi_next s1..<gi_next s2]"
    using 1(1) by (rule subset_mset.add_right_mono)
  finally have "settled (o1 @ o2) + live s2 \<subseteq># live s + mset [gi_next s..<gi_next s2]"
    unfolding u by (simp add: add.assoc)
  with f r 1 2 show ?case by simp
qed simp

lemma run_tokens: "fresh_tokens s (run_steps gdb_step s evs)"
proof (induction evs arbitrary: s)
  case (Cons e evs)
  obtain s1 o1 where f: "gdb_step s e = (s1, o1)" by force
  then have "fresh_tokens s (s1, o1)" using gdb_step_tokens[of s e] by simp
  then show ?case using f Cons[of s1]
    by (cases "run_steps gdb_step s1 evs") (simp add: fresh_tokens_trans)
qed (simp add: fresh_tokens_none)

lemma run_serving:
  "gi_inv s \<Longrightarrow> serving s \<Longrightarrow> StdoutClose \<notin> set evs \<Longrightarrow> serving (fst (run_steps gdb_step s evs))"
proof (induction evs arbitrary: s)
  case (Cons e evs)
  obtain s1 o1 where f: "gdb_step s e = (s1, o1)" by force
  then have "gi_inv s1" "serving s1"
    using Cons.prems gi_inv_step[of s e] gdb_step_serving[of s e] by auto
  with Cons.IH[of s1] Cons.prems f show ?case by (cases "run_steps gdb_step s1 evs") simp
qed simp

lemma run_queued:
  "queued_only s \<Longrightarrow> SetQueue False \<notin> set evs \<Longrightarrow> queued_only (fst (run_steps gdb_step s evs))"
proof (induction evs arbitrary: s)
  case (Cons e evs)
  obtain s1 o1 where f: "gdb_step s e = (s1, o1)" by force
  then have "queued_only s1" using Cons.prems gdb_step_queued[of s e] by auto
  with Cons.IH[of s1] Cons.prems f show ?case by (cases "run_steps gdb_step s1 evs") simp
qed simp

lemma stop_phase_step:
  assumes k: "k < length (gi_stops s)"
  shows "k < length (gi_stops (fst (gdb_step s e))) \<and>
    (gi_stops (fst (gdb_step s e)) ! k = gi_stops s ! k \<or>
     gi_stops (fst (gdb_step s e)) ! k = StopResolved \<or>
     gi_stops s ! k = StopWaiting \<and> gi_stops (fst (gdb_step s e)) ! k = StopKilled)"
proof (cases e)
  case (Send c t)
  have i: "gi_stops (fst (send_command_internal s1 d c t)) = gi_stops s1" for s1 d c t
    by (simp add: send_command_internal_def Let_def case_prod_beta)
  with Send k show ?thesis
    by (simp add: send_command_def Let_def process_command_queue_def worker_loop_def split: list.split)
next
  case (SetQueue b)
  have i: "gi_stops (fst (send_command_internal s1 d c t)) = gi_stops s1" for s1 d c t
    by (simp add: send_command_internal_def Let_def case_prod_beta)
  with SetQueue k show ?thesis
    by (simp add: set_queue_def Let_def process_command_queue_def worker_loop_def split: list.split)
next
  case Resume
  have i: "gi_stops (fst (send_command_internal s1 d c t)) = gi_stops s1" for s1 d c t
    by (simp add: send_command_internal_def Let_def case_prod_beta)
  with Resume k show ?thesis
    by (simp add: worker_resume_def Let_def worker_loop_def case_prod_beta split: worker.split list.split)
next
  case (Timeout n)
  with k show ?thesis by (simp add: command_timeout_def split: option.split)
next
  case (StdoutData str)
  with k stdout_loop_fixed[of "s\<lparr>gi_buf := gi_buf s @ str\<rparr>"] show ?thesis
    by (simp add: stdout_data_def gi_fixed_def)
next
  case StdoutClose
  with k stdout_loop_fixed[of "s\<lparr>gi_buf := js_trim (gi_buf s)\<rparr>"] show ?thesis
    by (simp add: stdout_close_def stdout_data_def gi_fixed_def case_prod_beta)
next
  case Stop
  have "gi_stops (fst (settle_all s1 ds r)) = gi_stops s1" for s1 ds r
    by (induction ds arbitrary: s1) (auto simp: Let_def case_prod_beta)
  with k Stop show ?thesis by (simp add: gdb_stop_def Let_def case_prod_beta nth_append)
qed (use k in \<open>auto simp: stderr_data_def case_prod_beta stderr_close_def kill_timer_def
    kill_fallback_def process_exit_def process_error_def handle_exit_def do_resolve_def Let_def
    nth_list_update split: option.split\<close>)

lemma stop_resolved_run:
  "k < length (gi_stops s) \<Longrightarrow> gi_stops s ! k = StopResolved \<Longrightarrow>
     k < length (gi_stops (fst (run_steps gdb_step s evs))) \<and>
     gi_stops (fst (run_steps gdb_step s evs)) ! k = StopResolved"
proof (induction evs arbitrary: s)
  case (Cons e evs)
  obtain s1 o1 where f: "gdb_step s e = (s1, o1)" by force
  with stop_phase_step[OF Cons.prems(1), of e] Cons.prems(2)
  have "k < length (gi_stops s1)" "gi_stops s1 ! k = StopResolved" by auto
  with Cons.IH[of s1] f show ?case by (cases "run_steps gdb_step s1 evs") simp
qed simp

lemma stop_known_run:
  "k < length (gi_stops s) \<Longrightarrow>
     k < length (gi_stops (fst (run_steps gdb_step s evs))) \<and>
     (gi_stops s ! k \<noteq> StopWaiting \<longrightarrow> gi_stops (fst (run_steps gdb_step s evs)) ! k \<noteq> StopWaiting)"
proof (induction evs arbitrary: s)
  case (Cons e evs)
  obtain s1 o1 where f: "gdb_step s e = (s1, o1)" by force
  with stop_phase_step[OF Cons.prems(1), of e]
  have "k < length (gi_stops s1)" "gi_stops s ! k \<noteq> StopWaiting \<longrightarrow> gi_stops s1 ! k \<noteq> StopWaiting" by auto
  with Cons.IH[of s1] f show ?case by (cases "run_steps gdb_step s1 evs") simp
qed simp

text \<open>A promise the worker awaits although nothing pending can answer it.\<close>

definition stranded :: "nat \<Rightarrow> gdb \<Rightarrow> bool" where
  "stranded i s \<longleftrightarrow> gi_worker s = WWait i \<and> (\<forall>k p. (k, p) \<in> set (gi_pending s) \<longrightarrow> pc_dest p \<noteq> Worker i)"

lemma settle_stranded:
  "stranded i s \<Longrightarrow> (k, p) \<in> set (gi_pending s) \<Longrightarrow> gi_worker (fst (settle s (pc_dest p) r)) = WWait i"
  unfolding stranded_def by (auto simp: settle_worker split: dest.split)

lemma handle_output_line_stranded:
  assumes "stranded i s" shows "stranded i (fst (handle_output_line s line))"
proof -
  have w: "gi_worker (fst (handle_result s out rec)) = WWait i" for out rec
  proof (cases "Option.bind (parse_int (rec_token rec)) (map_of (gi_pending s))")
    case (Some p)
    then have "\<exists>k. (k, p) \<in> set (gi_pending s)" by (auto simp: bind_eq_Some_conv dest: map_of_SomeD)
    then show ?thesis
      using Some settle_stranded[OF assms]
      by (cases "rec_class rec = ''error''") (auto simp: handle_result_def Let_def case_prod_beta)
  qed (use assms in \<open>simp add: handle_result_def stranded_def\<close>)
  have "gi_worker (fst (line_result s out)) = WWait i" for out
    using w assms by (simp add: line_result_def stranded_def split: option.split)
  then have "gi_worker (fst (handle_output_line s line)) = WWait i"
    using handle_output_line_core[of s line] assms by (auto simp: gi_core_def stranded_def split: if_splits)
  then show ?thesis using assms handle_output_line_pending[of s line] unfolding stranded_def by blast
qed

lemma stdout_loop_stranded: "stranded i s \<Longrightarrow> stranded i (fst (stdout_loop s))"
proof (induction s rule: stdout_loop.induct)
  case (1 s)
  show ?case
  proof (cases "index_of NL (gi_buf s)")
    case None
    with 1 show ?thesis by (subst stdout_loop.simps) simp
  next
    case (Some j)
    let ?s = "s\<lparr>gi_buf := drop (j + 1) (gi_buf s)\<rparr>" and ?l = "js_trim (take j (gi_buf s))"
    obtain s1 out1 where h: "handle_output_line ?s ?l = (s1, out1)" by force
    have "stranded i ?s" using 1(2) by (simp add: stranded_def)
    then have "stranded i s1" using handle_output_line_stranded[of i ?s ?l] h by simp
    then show ?thesis
      using 1(1)[OF Some refl h[symmetric] refl] Some h
      by (subst stdout_loop.simps) (cases "stdout_loop s1", simp)
  qed
qed

lemma gdb_step_stranded:
  assumes inv: "gi_inv s" and st: "stranded i s" and old: "i < gi_next s"
  shows "stranded i (fst (gdb_step s e))"
proof -
  have pr: "gi_processing s" using inv st by (simp add: gi_inv_def stranded_def)
  have caller: "stranded i (fst (send_command_internal s1 (Caller j) c t))" if "stranded i s1" for s1 j c t
    using that by (auto simp: send_command_internal_def Let_def case_prod_beta stranded_def)
  show ?thesis
  proof (cases e)
    case (Send c t)
    have "stranded i (s\<lparr>gi_next := gi_next s + 1\<rparr>)" using st by (simp add: stranded_def)
    note caller[OF this]
    with Send pr st show ?thesis
      by (simp add: send_command_def Let_def process_command_queue_def) (simp add: stranded_def)
  next
    case (SetQueue b)
    with pr st show ?thesis by (simp add: set_queue_def process_command_queue_def stranded_def)
  next
    case Resume
    with st show ?thesis by (simp add: worker_resume_def stranded_def)
  next
    case (Timeout n)
    have "stranded i (fst (settle (s\<lparr>gi_pending := filter (\<lambda>(k, _). k \<noteq> n) (gi_pending s)\<rparr>) (pc_dest p) r))"
      if "map_of (gi_pending s) n = Some p" for p r
      using st map_of_SomeD[OF that] by (cases "pc_dest p") (auto simp: stranded_def)
    with Timeout st show ?thesis by (simp add: command_timeout_def split: option.split)
  next
    case (StdoutData str)
    have "stranded i (s\<lparr>gi_buf := gi_buf s @ str\<rparr>)" using st by (simp add: stranded_def)
    with StdoutData stdout_loop_stranded show ?thesis by (simp add: stdout_data_def)
  next
    case StdoutClose
    have "stranded i (s\<lparr>gi_buf := js_trim (gi_buf s)\<rparr>)" using st by (simp add: stranded_def)
    note stdout_loop_stranded[OF this]
    with StdoutClose st show ?thesis by (simp add: stdout_close_def stdout_data_def case_prod_beta stranded_def)
  next
    case Stop
    have "gi_worker (fst (settle_all s1 ds r)) = WWait i"
      if "gi_worker s1 = WWait i" "Worker i \<notin> set ds" for ds r s1
      using that by (induction ds arbitrary: s1) (auto simp: Let_def case_prod_beta settle_worker split: dest.splits)
    moreover have "Worker i \<notin> set (map (pc_dest \<circ> snd) (gi_pending s))"
      using st unfolding stranded_def by force
    ultimately have "gi_worker (fst (settle_all s (map (pc_dest \<circ> snd) (gi_pending s)) r)) = WWait i" for r
      using st unfolding stranded_def by blast
    with Stop st show ?thesis by (simp add: gdb_stop_def Let_def case_prod_beta stranded_def)
  qed (use st in \<open>auto simp: stranded_def stderr_data_def case_prod_beta stderr_close_def kill_timer_def
      kill_fallback_def process_exit_def process_error_def handle_exit_def do_resolve_def Let_def
      split: option.split\<close>)
qed

lemma stranded_run:
  "gi_inv s \<Longrightarrow> stranded i s \<Longrightarrow> i < gi_next s \<Longrightarrow> stranded i (fst (run_steps gdb_step s evs))"
proof (induction evs arbitrary: s)
  case (Cons e evs)
  obtain s1 o1 where f: "gdb_step s e = (s1, o1)" by force
  have "gi_next s \<le> gi_next s1"
    using gdb_step_conserves[OF Cons.prems(1), of e] stdout_close_inv[OF Cons.prems(1)] f
    by (cases "e = StdoutClose") (auto simp: conserves_def)
  then have "gi_inv s1" "stranded i s1" "i < gi_next s1"
    using gi_inv_step[OF Cons.prems(1), of e] gdb_step_stranded[OF Cons.prems, of e] f Cons.prems(3) by auto
  with Cons.IH[of s1] f show ?case by (cases "run_steps gdb_step s1 evs") simp
qed simp

text \<open>A result line as the parser sees it.\<close>

definition result_of_line :: "jstr \<Rightarrow> jstr \<Rightarrow> (jstr \<times> mi_value) list \<Rightarrow> mi_record" where
  "result_of_line token klass kvs =
     \<lparr>rec_token = token, rec_type = RResult, rec_output = OResult, rec_class = klass,
      rec_result = MTuple kvs, rec_prefix = CHR ''^''\<rparr>"

lemma parse_result_line:
  assumes g: "good_record token CHR ''^'' klass kvs"
    and l: "NL \<notin> set (record_line token CHR ''^'' klass kvs)"
      "js_trim (record_line token CHR ''^'' klass kvs) = record_line token CHR ''^'' klass kvs"
  shows "parse_gdb_mi_out (record_line token CHR ''^'' klass kvs) =
      \<lparr>has_terminator = False, oob_records = [], result_record = Some (result_of_line token klass kvs)\<rparr>"
    "record_line token CHR ''^'' klass kvs \<noteq> ''(gdb)''"
proof -
  have m: "record_type_mapping CHR ''^'' = Some RResult" "output_type_mapping CHR ''^'' = Some OResult"
    by (simp_all add: record_type_mapping_def output_type_mapping_def)
  let ?l = "record_line token CHR ''^'' klass kvs"
  have "CHR ''^'' \<in> set ?l" by (simp add: record_line_def)
  moreover have "CHR ''^'' \<notin> set ''(gdb)''" by simp
  ultimately show ne: "?l \<noteq> ''(gdb)''" by metis
  have p: "parse_gdb_mi_line ?l = Some (result_of_line token klass kvs)"
    using record_line_parsed[OF g] m by (auto simp: result_of_line_def)
  have "?l \<noteq> []" by (simp add: record_line_def)
  then show "parse_gdb_mi_out ?l =
      \<lparr>has_terminator = False, oob_records = [], result_record = Some (result_of_line token klass kvs)\<rparr>"
    using p l ne by (simp add: parse_gdb_mi_out_def split_on_no_sep parse_out_line_def result_of_line_def)
qed

text \<open>What the promise of a pending command is settled with when a result arrives for it.\<close>

definition expected_reply :: "gdb \<Rightarrow> pending \<Rightarrow> jstr \<Rightarrow> jstr \<Rightarrow> (jstr \<times> mi_value) list \<Rightarrow> reply" where
  "expected_reply s p token klass kvs =
     (if klass = ''error''
      then Inl (EGdb (pc_cmd p) (case map_of kvs ''msg'' of
             None \<Rightarrow> MConst ''Unknown error''
           | Some m \<Rightarrow> if m = MConst [] then MConst ''Unknown error'' else m))
      else Inr \<lparr>has_terminator = False, oob_records = gi_oob s,
                 result_record = Some (result_of_line token klass kvs)\<rparr>)"

subsection \<open>Properties\<close>

text \<open>
  No command is settled twice, on any run of the session: callers and the worker, answers,
  timers, write failures, \<open>stop\<close> and the closing of the pipe in any order. The promises settled
  so far and those still live are, with multiplicity, promises that were handed out.
\<close>

lemma command_settled_at_most_once:
  "let (s, out) = gdb_run evs in settled out + live s \<subseteq># mset [0..<gi_next s]"
  using run_accounts[OF gi_inv_init, of evs] by (simp add: case_prod_beta)

text \<open>
  C5: No command is lost while the pipe from GDB is open: every promise handed out is settled
  exactly once or still pending, queued or in the hands of the worker.
\<close>

theorem no_command_lost:
  assumes "StdoutClose \<notin> set evs"
  shows "let (s, out) = gdb_run evs in settled out + live s = mset [0..<gi_next s]"
  using run_conserves[OF gi_inv_init assms] by (simp add: case_prod_beta conserves_def)

theorem no_command_lost_witness:
  "StdoutClose \<notin> set [Spawn, Send ''gdb-version'' 0] \<and>
   (let (s, out) = gdb_run [Spawn, Send ''gdb-version'' 0] in
      settled out + live s = mset [0..<gi_next s])"
proof -
  have h: "StdoutClose \<notin> set [Spawn, Send ''gdb-version'' 0]" by simp
  show ?thesis using h no_command_lost[OF h] by blast
qed

text \<open>
  C6: \<open>stop\<close> leaves no caller waiting: while the pipe is open, stopping a running process and
  letting the worker run once settles every promise handed out, each exactly once.
\<close>

theorem stop_settles_everything:
  assumes "StdoutClose \<notin> set evs" and "gi_process (fst (gdb_run evs))"
  shows "let (s, out) = gdb_run (evs @ [Stop, Resume]) in settled out = mset [0..<gi_next s]"
proof -
  obtain s o0 where r: "gdb_run evs = (s, o0)" by force
  have inv: "gi_inv s" and sv: "serving s"
    using run_conserves[OF gi_inv_init assms(1)] run_serving[OF gi_inv_init _ assms(1)] r
    by (simp_all add: conserves_def serving_def gi_init_def)
  obtain s1 o1 where st: "gdb_stop s = (s1, o1)" by force
  have c1: "conserves s (s1, o1)" using gdb_stop_conserves[OF inv] st by simp
  have "serving s1" using gdb_step_serving[OF inv sv, of Stop] st by simp
  moreover have p: "gi_pending s1 = []" "gi_queue s1 = []"
    using st assms(2) r by (auto simp: gdb_stop_def Let_def case_prod_beta split: if_splits)
  ultimately have w: "\<forall>i. gi_worker s1 \<noteq> WWait i" by (simp add: serving_def)
  obtain s2 o2 where re: "worker_resume s1 = (s2, o2)" by force
  have c2: "conserves s1 (s2, o2)" using worker_resume_conserves[of s1] c1 re by (simp add: conserves_def)
  have "live s2 = {#}"
    using re p w by (cases "gi_worker s1") (auto simp: worker_resume_def worker_loop_def live_def)
  moreover have "settled (o0 @ o1 @ o2) + live s2 = mset [0..<gi_next s2]"
    using conserves_trans[OF conserves_trans[OF _ c1] c2, of gi_init o0] run_conserves[OF gi_inv_init assms(1)] r
    by (simp add: conserves_def)
  ultimately show ?thesis using r st re by (simp add: run_steps_append)
qed

theorem stop_settles_everything_witness:
  "let evs = [Spawn, Pipes True True True, Send ''a'' 0, Send ''b'' 0] in
   StdoutClose \<notin> set evs \<and> gi_process (fst (gdb_run evs)) \<and>
   (let (s, out) = gdb_run (evs @ [Stop, Resume]) in settled out = mset [0..<gi_next s])"
proof -
  let ?e = "[Spawn, Pipes True True True, Send ''a'' 0, Send ''b'' 0]"
  have h: "StdoutClose \<notin> set ?e" "gi_process (fst (gdb_run ?e))" by code_simp+
  show ?thesis using h stop_settles_everything[OF h] unfolding Let_def by blast
qed

text \<open>
  With the queue on, as it is from the start, at most one command is in flight: nothing is
  written to GDB while an earlier command is pending.
\<close>

lemma one_command_in_flight:
  assumes "SetQueue False \<notin> set evs"
  shows "length (gi_pending (fst (gdb_run evs))) \<le> 1"
proof -
  let ?s = "fst (gdb_run evs)"
  have inv: "gi_inv ?s" using session.invar_run_steps[OF gi_inv_init] .
  have q: "queued_only ?s" using run_queued[OF _ assms, of gi_init] by (simp add: queued_only_def gi_init_def)
  have "k' = k" if "(k, p) \<in> set (gi_pending ?s)" "(k', p') \<in> set (gi_pending ?s)" for k p k' p'
    using inv q that unfolding gi_inv_def awaited_def queued_only_def by metis
  then have "set (map fst (gi_pending ?s)) \<subseteq> {fst (hd (gi_pending ?s))}"
    by (cases "gi_pending ?s") fastforce+
  then have "card (set (map fst (gi_pending ?s))) \<le> 1" by (metis card.empty card_insert_le_m1 card_mono finite.emptyI finite_insert is_singletonI is_singleton_altdef)
  moreover have "distinct (map fst (gi_pending ?s))" using inv by (simp add: gi_inv_def)
  ultimately show ?thesis by (metis distinct_card length_map)
qed

lemma one_command_in_flight_witness:
  "SetQueue False \<notin> set [Spawn, Pipes True True True, Send ''a'' 0, Send ''b'' 0] \<and>
   length (gi_pending (fst (gdb_run [Spawn, Pipes True True True, Send ''a'' 0, Send ''b'' 0]))) \<le> 1"
proof -
  have h: "SetQueue False \<notin> set [Spawn, Pipes True True True, Send ''a'' 0, Send ''b'' 0]" by simp
  show ?thesis using h one_command_in_flight[OF h] by blast
qed

text \<open>
  Tokens are never reused: the tokens of all commands ever written to GDB, the final
  \<open>-gdb-exit\<close> included, are strictly increasing, so an answer names one command.
\<close>

theorem tokens_increase:
  "sorted_wrt (<) (map token_of (writes (snd (gdb_run evs))))"
  using run_tokens[of gi_init evs] by (simp add: fresh_tokens_def)

text \<open>
  C4: An answer goes to the command with its token and to no other. When GDB prints a result line
  with the token of a pending command, exactly that command is removed and its promise settled:
  rejected with the command and GDB's message if the class is \<open>error\<close>, and otherwise resolved with
  the record and the console records collected since the last prompt.
\<close>

theorem answer_routed_by_token:
  assumes "good_record (show_nat n) CHR ''^'' klass kvs"
    and "NL \<notin> set (record_line (show_nat n) CHR ''^'' klass kvs)"
    and "js_trim (record_line (show_nat n) CHR ''^'' klass kvs) = record_line (show_nat n) CHR ''^'' klass kvs"
    and "map_of (gi_pending s) n = Some p"
  shows "let (s', out) = handle_output_line s (record_line (show_nat n) CHR ''^'' klass kvs);
             r = expected_reply s p (show_nat n) klass kvs
         in gi_pending s' = filter (\<lambda>(k, _). k \<noteq> n) (gi_pending s) \<and>
            (case pc_dest p of
               Caller i \<Rightarrow> filter (\<lambda>x. settled_of x \<noteq> {#}) out = [Settle i r] \<and> gi_worker s' = gi_worker s
             | Worker i \<Rightarrow> settled out = {#} \<and> (gi_worker s = WWait i \<longrightarrow> gi_worker s' = WReady i r))"
proof -
  let ?r = "expected_reply s p (show_nat n) klass kvs"
  note parsed = parse_result_line[OF assms(1-3)]
  have "mi_field (MTuple kvs) ''msg'' = map_of kvs ''msg''" by (simp add: mi_field_def)
  then have r: "(if klass = ''error''
      then Inl (EGdb (pc_cmd p) (let m = mi_field (MTuple kvs) ''msg'' in
        if truthy m then the m else MConst ''Unknown error''))
      else Inr \<lparr>has_terminator = False, oob_records = gi_oob s,
                 result_record = Some (result_of_line (show_nat n) klass kvs)\<rparr>) = ?r"
    by (auto simp: expected_reply_def truthy_def Let_def split: option.split)
  have line: "handle_output_line s (record_line (show_nat n) CHR ''^'' klass kvs) =
      ((fst (settle s (pc_dest p) ?r))\<lparr>gi_oob := [], gi_pending := filter (\<lambda>(k, _). k \<noteq> n) (gi_pending s)\<rparr>,
       (if gi_traces s then [Trace (record_line (show_nat n) CHR ''^'' klass kvs)
          (parse_gdb_mi_out (record_line (show_nat n) CHR ''^'' klass kvs))] else []) @
       (if klass = ''connected'' then [EvPlain ''connected''] else []) @ snd (settle s (pc_dest p) ?r))"
    using parsed assms(4) unfolding r[symmetric]
    by (cases "gi_oob s = []")
      (auto simp: handle_output_line_def line_result_def handle_result_def result_of_line_def Let_def case_prod_beta)
  show ?thesis unfolding line by (cases "pc_dest p") auto
qed

theorem answer_routed_by_token_witness:
  "let s = fst (gdb_run [Spawn, Pipes True True True, SetQueue False, Send ''x'' 0]) in
     filter (\<lambda>x. settled_of x \<noteq> {#}) (snd (handle_output_line s ''1^done'')) =
       [Settle 0 (Inr \<lparr>has_terminator = False, oob_records = [],
                      result_record = Some (result_of_line ''1'' ''done'' [])\<rparr>)]"
proof -
  let ?s = "fst (gdb_run [Spawn, Pipes True True True, SetQueue False, Send ''x'' 0])"
  let ?p = "\<lparr>pc_cmd = ''-x'', pc_dest = Caller 0, pc_armed = False, pc_timeout = 0\<rparr>"
  define s where "s = ?s"
  have one: "show_nat 1 = ''1''" by code_simp
  have l: "record_line ''1'' CHR ''^'' ''done'' [] = ''1^done''" by code_simp
  have g: "good_record (show_nat 1) CHR ''^'' ''done'' []" unfolding one by code_simp
  have n: "NL \<notin> set (record_line (show_nat 1) CHR ''^'' ''done'' [])" unfolding one l by simp
  have t: "js_trim (record_line (show_nat 1) CHR ''^'' ''done'' []) = record_line (show_nat 1) CHR ''^'' ''done'' []"
    unfolding one l by code_simp
  have p: "map_of (gi_pending s) 1 = Some ?p" and o: "gi_oob s = []" unfolding s_def by code_simp+
  show ?thesis
    using answer_routed_by_token[OF g n t p] o unfolding one l s_def[symmetric] Let_def
    by (simp only: case_prod_beta pending.select_convs dest.case expected_reply_def) simp
qed

text \<open>
  \<open>stop\<close> always ends: whatever happens before and between its two timers, once they have fired
  the promise of the call is resolved, whether or not GDB ever exits.
\<close>

theorem stop_always_ends:
  assumes "k = length (gi_stops (fst (gdb_run evs)))"
  shows "let (s, out) = gdb_run (evs @ [Stop] @ evs1 @ [KillTimer k] @ evs2 @ [KillFallback k])
         in k < length (gi_stops s) \<and> gi_stops s ! k = StopResolved"
proof -
  let ?run = "run_steps gdb_step"
  have app: "fst (?run s (xs @ ys)) = fst (?run (fst (?run s xs)) ys)" for s xs ys
    by (simp add: run_steps_append case_prod_beta)
  define s0 where "s0 = fst (gdb_run evs)"
  have "gi_stops (fst (settle_all s ds r)) = gi_stops s" for s ds r
    by (induction ds arbitrary: s) (auto simp: Let_def case_prod_beta)
  with assms have s1: "k < length (gi_stops (fst (gdb_stop s0)))"
    by (auto simp: gdb_stop_def Let_def case_prod_beta s0_def)
  define s2 where "s2 = fst (?run (fst (gdb_stop s0)) evs1)"
  have 2: "k < length (gi_stops s2)" using stop_known_run[OF s1, of evs1] by (simp add: s2_def)
  define s3 where "s3 = fst (kill_timer s2 k)"
  have 3: "k < length (gi_stops s3)" "gi_stops s3 ! k \<noteq> StopWaiting"
    using 2 by (auto simp: s3_def kill_timer_def)
  define s4 where "s4 = fst (?run s3 evs2)"
  have 4: "k < length (gi_stops s4)" "gi_stops s4 ! k \<noteq> StopWaiting"
    using stop_known_run[OF 3(1), of evs2] 3(2) by (simp_all add: s4_def)
  have "k < length (gi_stops (fst (kill_fallback s4 k))) \<and> gi_stops (fst (kill_fallback s4 k)) ! k = StopResolved"
    using 4 by (cases "gi_stops s4 ! k") (auto simp: kill_fallback_def do_resolve_def)
  moreover have "fst (gdb_run (evs @ [Stop] @ evs1 @ [KillTimer k] @ evs2 @ [KillFallback k])) =
      fst (kill_fallback s4 k)"
    unfolding app by (simp add: s0_def s2_def s3_def s4_def case_prod_beta)
  ultimately show ?thesis by (simp add: case_prod_beta)
qed

theorem stop_always_ends_witness:
  "0 = length (gi_stops (fst (gdb_run [Spawn]))) \<and>
   (let (s, out) = gdb_run ([Spawn] @ [Stop] @ [] @ [KillTimer 0] @ [] @ [KillFallback 0])
    in 0 < length (gi_stops s) \<and> gi_stops s ! 0 = StopResolved)"
proof -
  have h: "0 = length (gi_stops (fst (gdb_run [Spawn])))" by code_simp
  show ?thesis using h stop_always_ends[OF h, of "[]" "[]"] by blast
qed

text \<open>
  The closing of GDB's output strands the command in flight. \<open>handleStdoutClose\<close> clears the
  pending commands without settling them: the caller's promise is then never settled, neither by
  the command's timer nor by \<open>stop\<close> nor by anything else, and the queue behind it stays blocked.
\<close>

theorem closed_pipe_strands_command:
  "let (s, out) = gdb_run ([Spawn, Pipes True True True, Send ''a'' 5000, StdoutClose] @ evs)
   in 0 \<notin># settled out \<and> gi_worker s = WWait 0"
proof -
  let ?pre = "[Spawn, Pipes True True True, Send ''a'' 5000, StdoutClose]"
  obtain s0 o0 where r0: "gdb_run ?pre = (s0, o0)" by force
  have "gi_worker (fst (gdb_run ?pre)) = WWait 0" "gi_pending (fst (gdb_run ?pre)) = []"
    "gi_next (fst (gdb_run ?pre)) = 1" "settled (snd (gdb_run ?pre)) = {#}" by code_simp+
  with r0 have w: "gi_worker s0 = WWait 0" "gi_pending s0 = []" "gi_next s0 = 1" and o: "settled o0 = {#}"
    by simp_all
  have inv: "gi_inv s0" using session.invar_run_steps[OF gi_inv_init, of ?pre] r0 by simp
  obtain s1 o1 where r1: "run_steps gdb_step s0 evs = (s1, o1)" by force
  have st: "stranded 0 s1" using stranded_run[OF inv, of 0 evs] w r1 by (simp add: stranded_def)
  have "settled o1 + live s1 \<subseteq># live s0 + mset [1..<gi_next s1]"
    using run_accounts[OF inv, of evs] r1 w by simp
  then have "count (settled o1) 0 + count (live s1) 0 \<le> count (live s0) 0 + count (mset [1..<gi_next s1]) 0"
    by (metis count_union mset_subset_eq_count)
  moreover have "count (mset [1..<gi_next s1]) 0 = 0" by (simp add: count_eq_zero_iff)
  moreover have "count (live s1) 0 \<ge> 1" using st by (simp add: stranded_def live_def)
  moreover have "count (live s0) 0 \<le> 1"
  proof -
    have "gi_queue (fst (gdb_run ?pre)) = []" by code_simp
    with r0 w show ?thesis by (simp add: live_def)
  qed
  ultimately have "count (settled o1) 0 = 0" by linarith
  moreover have "gdb_run (?pre @ evs) = (s1, o0 @ o1)" unfolding run_steps_append r0 by (simp add: r1)
  ultimately show ?thesis using st o by (simp add: stranded_def not_in_iff)
qed

end
