(* ===== verification/ProxyFrames.thy ===== *)
theory ProxyFrames
  imports Prelude "HOL-Library.Sublist"
begin

text \<open>
  The byte protocol between the adapter and the probe proxy
  (\<open>packages/mcu-debug/src/adapter/proxy-client.ts\<close>): frames of a stream number, a little-endian
  32-bit length and a payload. \<open>sendCommandBytes\<close> writes them; \<open>handleProxyData\<close> reassembles them
  and awaits the previous message between two frames, so more data can arrive in the middle of its
  loop. The model keeps that: the loop stops at its \<open>await\<close> and \<open>rx_resume\<close> is the continuation.
\<close>

subsection \<open>Frames\<close>

text \<open>\<open>sendCommandBytes\<close>; \<open>None\<close> is the \<open>RangeError\<close> of a number that does not fit its field.\<close>

definition frame_bytes :: "nat \<Rightarrow> bytes \<Rightarrow> bytes option" where
  "frame_bytes stream_id data =
     (if 256 \<le> stream_id \<or> 2 ^ 32 \<le> length data then None
      else Some (of_nat stream_id # write_u32_le (length data) @ data))"

text \<open>The frame at the head of the buffer, if it has arrived completely.\<close>

definition next_frame :: "bytes \<Rightarrow> (nat \<times> bytes) option" where
  "next_frame buf =
     (if length buf < 5 then None
      else
        let stream_id = unat (hd buf); len = read_u32_le (tl buf) in
        if length buf < 5 + len then None else Some (stream_id, take len (drop 5 buf)))"

lemma next_frame_length: "next_frame buf = Some (i, p) \<Longrightarrow> 5 + length p \<le> length buf"
  by (auto simp: next_frame_def Let_def split: if_splits)

text \<open>All complete frames of a buffer and the rest, the specification of the reassembly.\<close>

function decode_frames :: "bytes \<Rightarrow> (nat \<times> bytes) list \<times> bytes" where
  "decode_frames buf =
     (case next_frame buf of
        None \<Rightarrow> ([], buf)
      | Some (i, p) \<Rightarrow> (let (fs, rest) = decode_frames (drop (5 + length p) buf) in ((i, p) # fs, rest)))"
  by pat_completeness auto
termination
  by (relation "measure length") (auto dest: next_frame_length)

declare decode_frames.simps [simp del]

lemma read_u32_append: "4 \<le> length xs \<Longrightarrow> read_u32_le (xs @ ys) = read_u32_le xs"
  by (cases xs; cases "tl xs"; cases "tl (tl xs)"; cases "tl (tl (tl xs))") auto

lemma next_frame_append: "next_frame xs = Some (i, p) \<Longrightarrow> next_frame (xs @ ys) = Some (i, p)"
proof -
  assume a: "next_frame xs = Some (i, p)"
  then have l: "5 \<le> length xs" and ne: "xs \<noteq> []" by (auto simp: next_frame_def split: if_splits)
  then have "read_u32_le (tl xs @ ys) = read_u32_le (tl xs)" by (intro read_u32_append) simp
  with a l ne show ?thesis by (auto simp: next_frame_def Let_def split: if_splits)
qed

lemma decode_frames_append [framing]:
  "decode_frames (xs @ ys) =
     (let (fs, rest) = decode_frames xs; (gs, rest') = decode_frames (rest @ ys) in (fs @ gs, rest'))"
proof (induction xs rule: decode_frames.induct)
  case (1 xs)
  show ?case
  proof (cases "next_frame xs")
    case None
    then have "decode_frames xs = ([], xs)" by (subst decode_frames.simps) simp
    then show ?thesis by (simp add: Let_def split: prod.split)
  next
    case (Some f)
    obtain i p where f: "f = (i, p)" by force
    let ?d = "drop (5 + length p) xs"
    obtain fs rest where d: "decode_frames ?d = (fs, rest)" by force
    obtain gs rest' where g: "decode_frames (rest @ ys) = (gs, rest')" by force
    have "decode_frames xs = ((i, p) # fs, rest)"
      using Some f d by (subst decode_frames.simps) simp
    moreover have "drop (5 + length p) (xs @ ys) = ?d @ ys"
      using next_frame_length[of xs i p] Some f by simp
    then have "decode_frames (xs @ ys) = ((i, p) # fs @ gs, rest')"
      using next_frame_append[of xs i p ys] Some f 1[OF Some f[symmetric]] d g
      by (subst decode_frames.simps) simp
    ultimately show ?thesis using g by simp
  qed
qed

lemma decode_rest_none: "next_frame (snd (decode_frames xs)) = None"
proof (induction xs rule: decode_frames.induct)
  case (1 xs)
  then show ?case
    by (subst decode_frames.simps) (auto split: option.split prod.split simp: Let_def)
qed

lemma decode_none: "next_frame xs = None \<Longrightarrow> decode_frames xs = ([], xs)"
  by (subst decode_frames.simps) simp

text \<open>The reassembly as a decoder of chunks.\<close>

definition feed_frames :: "bytes \<Rightarrow> bytes \<Rightarrow> bytes \<times> (nat \<times> bytes) list" where
  "feed_frames buf data = (let (fs, rest) = decode_frames (buf @ data) in (rest, fs))"

interpretation frames: framer "\<lambda>buf. next_frame buf = None" feed_frames
proof
  fix buf xs ys :: bytes
  show "next_frame (fst (feed_frames buf xs)) = None"
    using decode_rest_none[of "buf @ xs"] by (simp add: feed_frames_def case_prod_beta)
  assume none: "next_frame buf = None"
  then show "feed_frames buf [] = (buf, [])" by (simp add: feed_frames_def decode_none)
  show "feed_frames buf (xs @ ys) =
      (let (s1, out1) = feed_frames buf xs; (s2, out2) = feed_frames s1 ys in (s2, out1 @ out2))"
    unfolding feed_frames_def append_assoc[symmetric] decode_frames_append[of "buf @ xs" ys]
    by (simp add: Let_def split: prod.splits)
qed

lemma next_frame_bytes:
  assumes "frame_bytes i p = Some b"
  shows "next_frame (b @ rest) = Some (i, p)" "length b = 5 + length p"
proof -
  have b: "b = of_nat i # write_u32_le (length p) @ p" and i: "i < 256" and p: "length p < 2 ^ 32"
    using assms by (auto simp: frame_bytes_def not_le split: if_splits)
  have l: "length (write_u32_le (length p)) = 4" by (simp add: write_u32_le_def)
  then show "length b = 5 + length p" by (simp add: b)
  have r: "read_u32_le (write_u32_le (length p) @ p @ rest) = length p"
    by (rule read_write_u32[OF p])
  have "drop 5 (x # xs) = drop 4 xs" for x :: byte and xs by (simp add: numeral_eq_Suc)
  then have d: "drop 5 (b @ rest) = p @ rest" using l by (simp add: b)
  have h: "unat (hd (b @ rest)) = i" "read_u32_le (tl (b @ rest)) = length p"
    using i r by (simp_all add: b unat_of_nat_byte)
  have "length (b @ rest) = 5 + length p + length rest" using l by (simp add: b)
  then show "next_frame (b @ rest) = Some (i, p)"
    unfolding next_frame_def Let_def h d by simp
qed

lemma decode_encoded:
  "list_all2 (\<lambda>(i, p) b. frame_bytes i p = Some b) fs bs \<Longrightarrow> decode_frames (concat bs) = (fs, [])"
proof (induction fs bs rule: list_all2_induct)
  case Nil
  then show ?case by (simp add: decode_none next_frame_def)
next
  case (Cons f fs b bs)
  obtain i p where f: "f = (i, p)" by force
  then have "frame_bytes i p = Some b" using Cons by simp
  note nf = next_frame_bytes[OF this]
  have "drop (5 + length p) (b @ concat bs) = concat bs" using nf(2) by simp
  then show ?case using nf(1)[of "concat bs"] Cons f by (subst decode_frames.simps) simp
qed

subsection \<open>The asynchronous loop\<close>

record rx =
  rx_buf :: bytes
  rx_busy :: bool
  rx_await :: "(nat \<times> bytes) option"

definition rx_init :: rx where
  "rx_init = \<lparr>rx_buf = [], rx_busy = False, rx_await = None\<rparr>"

text \<open>The head of the \<open>while\<close> loop, up to its \<open>await\<close> or its end.\<close>

definition rx_loop :: "rx \<Rightarrow> rx" where
  "rx_loop s =
     (case next_frame (rx_buf s) of
        None \<Rightarrow> s\<lparr>rx_busy := False, rx_await := None\<rparr>
      | Some f \<Rightarrow> s\<lparr>rx_await := Some f\<rparr>)"

definition rx_data :: "rx \<Rightarrow> bytes \<Rightarrow> rx" where
  "rx_data s data =
     (let s1 = s\<lparr>rx_buf := rx_buf s @ data\<rparr> in
      if rx_busy s1 then s1 else rx_loop (s1\<lparr>rx_busy := True\<rparr>))"

definition rx_resume :: "rx \<Rightarrow> rx \<times> (nat \<times> bytes) list" where
  "rx_resume s =
     (case rx_await s of
        None \<Rightarrow> (s, [])
      | Some (i, p) \<Rightarrow> (rx_loop (s\<lparr>rx_buf := drop (5 + length p) (rx_buf s)\<rparr>), [(i, p)]))"

datatype rx_event = RxData bytes | RxResume

fun rx_step :: "rx \<Rightarrow> rx_event \<Rightarrow> rx \<times> (nat \<times> bytes) list" where
  "rx_step s (RxData data) = (rx_data s data, [])"
| "rx_step s RxResume = rx_resume s"

fun rx_received :: "rx_event list \<Rightarrow> bytes" where
  "rx_received [] = []"
| "rx_received (RxData data # es) = data @ rx_received es"
| "rx_received (RxResume # es) = rx_received es"

definition rx_inv :: "rx \<Rightarrow> bool" where
  "rx_inv s \<longleftrightarrow> (rx_busy s \<longleftrightarrow> rx_await s \<noteq> None) \<and>
     (case rx_await s of None \<Rightarrow> next_frame (rx_buf s) = None
      | Some f \<Rightarrow> next_frame (rx_buf s) = Some f)"

lemma rx_inv_loop: "rx_busy s \<Longrightarrow> rx_inv (rx_loop s)"
  by (auto simp: rx_loop_def rx_inv_def split: option.split)

lemma rx_buf_loop [simp]: "rx_buf (rx_loop s) = rx_buf s"
  by (simp add: rx_loop_def split: option.split)

lemma rx_inv_step: "rx_inv s \<Longrightarrow> rx_inv (fst (rx_step s e))"
proof (cases e)
  case (RxData data)
  assume inv: "rx_inv s"
  show ?thesis
  proof (cases "rx_busy s")
    case True
    with inv RxData show ?thesis
      by (auto simp: rx_data_def rx_inv_def Let_def intro: next_frame_append)
  qed (simp add: RxData rx_data_def Let_def rx_inv_loop)
next
  case RxResume
  assume "rx_inv s"
  then show ?thesis
    by (auto simp: RxResume rx_resume_def rx_inv_def[of s] intro: rx_inv_loop split: option.splits)
qed

interpretation rx: step_framer rx_inv rx_step
  by unfold_locales (rule rx_inv_step)

text \<open>Frames handed over and frames still in the buffer are those of all data received.\<close>

lemma rx_step_decode:
  assumes inv: "rx_inv s"
  shows "decode_frames (rx_buf s @ (case e of RxData d \<Rightarrow> d | RxResume \<Rightarrow> []) @ tail) =
    (let (fs, rest) = decode_frames (rx_buf (fst (rx_step s e)) @ tail) in (snd (rx_step s e) @ fs, rest))"
proof (cases e)
  case (RxData d)
  then show ?thesis by (simp add: rx_data_def Let_def)
next
  case RxResume
  show ?thesis
  proof (cases "rx_await s")
    case None
    with RxResume show ?thesis by (simp add: rx_resume_def)
  next
    case (Some f)
    obtain i p where f: "f = (i, p)" by force
    then have nf: "next_frame (rx_buf s) = Some (i, p)" using inv Some by (simp add: rx_inv_def)
    then have "decode_frames (rx_buf s @ tail) =
        (let (fs, rest) = decode_frames (drop (5 + length p) (rx_buf s) @ tail) in ((i, p) # fs, rest))"
      using next_frame_append[OF nf, of tail] next_frame_length[OF nf]
      by (subst decode_frames.simps) simp
    then show ?thesis using RxResume Some f by (simp add: rx_resume_def)
  qed
qed

lemma rx_run_decode:
  "rx_inv s \<Longrightarrow>
     decode_frames (rx_buf s @ rx_received es) =
       (let (s', out) = run_steps rx_step s es; (fs, rest) = decode_frames (rx_buf s') in (out @ fs, rest))"
proof (induction es arbitrary: s)
  case (Cons e es)
  obtain s1 o1 where f: "rx_step s e = (s1, o1)" by force
  obtain s2 o2 where r: "run_steps rx_step s1 es = (s2, o2)" by force
  have "rx_inv s1" using rx_inv_step[OF Cons.prems, of e] f by simp
  from Cons.IH[OF this] r have "decode_frames (rx_buf s1 @ rx_received es) =
      (let (fs, rest) = decode_frames (rx_buf s2) in (o2 @ fs, rest))" by simp
  moreover have "rx_received (e # es) = (case e of RxData d \<Rightarrow> d | RxResume \<Rightarrow> []) @ rx_received es"
    by (cases e) simp_all
  ultimately show ?case
    using rx_step_decode[OF Cons.prems, of e "rx_received es"] f r
    by (simp add: Let_def split: prod.splits)
qed (simp split: prod.split)

text \<open>Continuations run after the last chunk until the loop has ended.\<close>

lemma rx_resumes_end:
  "rx_inv s \<Longrightarrow> length (fst (decode_frames (rx_buf s))) \<le> n \<Longrightarrow>
     \<not> rx_busy (fst (run_steps rx_step s (replicate n RxResume)))"
proof (induction n arbitrary: s)
  case 0
  then have "next_frame (rx_buf s) = None"
    by (cases "next_frame (rx_buf s)") (auto simp: decode_frames.simps[of "rx_buf s"] split: prod.splits)
  with 0 show ?case by (auto simp: rx_inv_def split: option.splits)
next
  case (Suc n)
  obtain s1 o1 where f: "rx_step s RxResume = (s1, o1)" by force
  have inv: "rx_inv s1" using rx_inv_step[OF Suc.prems(1), of RxResume] f by simp
  have "length (fst (decode_frames (rx_buf s1))) \<le> n"
  proof (cases "rx_await s")
    case None
    with f Suc.prems have "s1 = s" "next_frame (rx_buf s) = None"
      by (simp_all add: rx_resume_def rx_inv_def)
    then show ?thesis by (simp add: decode_none)
  next
    case (Some p)
    then have "length o1 = 1" using f by (auto simp: rx_resume_def split: prod.splits)
    with rx_step_decode[OF Suc.prems(1), of RxResume "[]"] f Suc.prems(2) show ?thesis
      by (cases "decode_frames (rx_buf s1)") simp
  qed
  from Suc.IH[OF inv this] f show ?case
    by (cases "run_steps rx_step s1 (replicate n RxResume)") simp
qed

lemma rx_inv_init [simp]: "rx_inv rx_init"
  by (simp add: rx_init_def rx_inv_def next_frame_def)

subsection \<open>Properties\<close>

text \<open>
  C7: What the proxy sends is what the adapter handles. If the peer writes any sequence of frames,
  then however the socket cuts the bytes and however chunks and continuations of the loop
  interleave, the messages handled so far are a prefix of those sent, in order and unchanged; once
  the loop is idle, all of them have been handled and no byte is left.
\<close>

theorem proxy_frames_delivered:
  assumes "list_all2 (\<lambda>(i, p) b. frame_bytes i p = Some b) sent bs"
    and "rx_received es = concat bs"
  shows "let (s, handled) = run_steps rx_step rx_init es in
    prefix handled sent \<and> (\<not> rx_busy s \<longrightarrow> handled = sent \<and> rx_buf s = [])"
proof -
  obtain s out where r: "run_steps rx_step rx_init es = (s, out)" by force
  obtain fs rest where d: "decode_frames (rx_buf s) = (fs, rest)" by force
  have inv: "rx_inv s" using rx.invar_run_steps[OF rx_inv_init, of es] r by simp
  have "decode_frames (rx_received es) = (out @ fs, rest)"
    using rx_run_decode[OF rx_inv_init, of es] r d by (simp add: rx_init_def)
  with decode_encoded[OF assms(1)] assms(2) have sent: "sent = out @ fs" "rest = []" by simp_all
  have "fs = [] \<and> rx_buf s = []" if "\<not> rx_busy s"
  proof -
    have "next_frame (rx_buf s) = None" using inv that by (cases "rx_await s") (auto simp: rx_inv_def)
    with d sent show ?thesis by (simp add: decode_none)
  qed
  with r sent show ?thesis by (auto simp: prefix_def)
qed

theorem proxy_frames_delivered_witness:
  "list_all2 (\<lambda>(i, p) b. frame_bytes i p = Some b) [(3, [7]), (0, [])] [[3, 1, 0, 0, 0, 7], [0, 0, 0, 0, 0]] \<and>
   (let (s, handled) = run_steps rx_step rx_init
      [RxData [3, 1, 0], RxData [0, 0, 7, 0, 0], RxResume, RxData [0, 0, 0], RxResume] in
    prefix handled [(3, [7]), (0, [])])"
proof -
  have h: "list_all2 (\<lambda>(i, p) b. frame_bytes i p = Some b) [(3, [7]), (0, [])] [[3, 1, 0, 0, 0, 7], [0, 0, 0, 0, 0]]"
    by (simp add: frame_bytes_def write_u32_le_def)
  have e: "rx_received [RxData [3, 1, 0], RxData [0, 0, 7, 0, 0], RxResume, RxData [0, 0, 0], RxResume]
      = concat [[3, 1, 0, 0, 0, 7], [0, 0, 0, 0, 0]]" by simp
  show ?thesis using h proxy_frames_delivered[OF h e] by (auto simp: Let_def)
qed

text \<open>
  The reassembly never stalls: after any events, running the continuation once per complete
  frame left in the buffer ends the loop.
\<close>

theorem proxy_loop_ends:
  "let s = fst (run_steps rx_step rx_init es); n = length (fst (decode_frames (rx_buf s)))
   in \<not> rx_busy (fst (run_steps rx_step s (replicate n RxResume)))"
  using rx_resumes_end rx.invar_run_steps[OF rx_inv_init] unfolding Let_def by blast

end
