(* ===== verification/ProxyClient.thy ===== *)
theory ProxyClient
  imports ProxyFrames "HOL-Library.AList" "HOL-Library.Multiset"
begin

text \<open>
  \<open>ProxyClient\<close>, \<open>RemoteServer\<close> and \<open>RemoteStream\<close> of
  \<open>packages/mcu-debug/src/adapter/proxy-client.ts\<close>: control commands with sequence numbers over
  stream 0 and the forwarding of local TCP clients to numbered streams of the proxy.

  Objects that several others hold (\<open>PortReservedInfo\<close>, \<open>RemoteServer\<close>, \<open>RemoteStream\<close>) live in
  stores and are referred to by their position. JavaScript \<open>Map\<close>s are association lists. The
  continuation of an awaited command is a value (\<open>cont\<close>); settling a command queues its
  continuation, and \<open>PxMicro\<close> runs the next one. JSON texts are modelled by what they say: a
  decoded message on the way in, a method with its stream or ports on the way out.
\<close>

subsection \<open>State\<close>

datatype stream_status = Starting | Connected | Ready | TimedOut | Closed

record port_info =
  pi_port :: nat
  pi_stream_id :: int
  pi_name :: jstr
  pi_status :: stream_status

record port_def =
  pd_local :: nat
  pd_remote :: "nat option"

record remote_server =
  rs_ending :: bool
  rs_open :: bool
  rs_sockets :: "nat list"
  rs_by_id :: "(int \<times> nat) list"
  rs_name :: jstr
  rs_info :: nat

record remote_stream =
  st_id :: int
  st_server :: nat
  st_from :: bytes
  st_to :: bytes

datatype px_error = NoSocket | ProxyTimeout nat | ProxyClosed | ProxyError jstr

datatype px_data =
    DPorts "(nat \<times> int \<times> jstr) list"   \<comment> \<open>\<open>allocatePorts.ports\<close>: port, stream number, name\<close>
  | DStatus bool int                     \<comment> \<open>\<open>streamStatus\<close>: whether \<open>Connected\<close>, stream number\<close>
  | DOther

type_synonym px_reply = "px_error + px_data"

datatype cont =
    KCaller nat
  | KAlloc nat
  | KStart bool nat int nat nat nat   \<comment> \<open>duplicate, seq, stream number, info, stream, server\<close>
  | KStop nat
  | KReady int nat                    \<comment> \<open>the end of \<open>handleStreamReady\<close>: stream number, server\<close>
  | KReject nat                       \<comment> \<open>a start that failed before anything was sent\<close>
  | KFinish nat                       \<comment> \<open>the end of \<open>stop\<close>\<close>

record proxy =
  px_ending :: bool
  px_seq :: nat
  px_pending :: "(nat \<times> cont) list"
  px_micro :: "(cont \<times> px_reply) list"
  px_next :: nat
  px_socket :: bool
  px_stopping :: "nat list"
  px_ports :: "(jstr \<times> port_def) list"
  px_infos :: "port_info list"
  px_str_info :: "(jstr \<times> nat) list"
  px_id_info :: "(int \<times> nat) list"
  px_starts :: "(nat \<times> nat) list"
  px_clients :: "(int \<times> nat) list"
  px_servers :: "remote_server list"
  px_streams :: "remote_stream list"

definition px_init :: proxy where
  "px_init = \<lparr>px_ending = False, px_seq = 1, px_pending = [], px_micro = [], px_next = 0,
     px_socket = False, px_stopping = [], px_ports = [], px_infos = [], px_str_info = [],
     px_id_info = [], px_starts = [], px_clients = [], px_servers = [], px_streams = []\<rparr>"

datatype px_method = Initialize | AllocatePorts "jstr list" | StartGdbServer | EndSession
  | StartStream int | DuplicateStream int | Heartbeat

datatype px_out =
    SendControl nat px_method
  | SendData int bytes
  | ToClient nat bytes
  | EndClient nat
  | RejectClient nat   \<comment> \<open>a connection that is ended before it has a stream\<close>
  | DestroyClient nat
  | ServerConsole bytes
  | PxSettle nat px_reply
  | PxEvent jstr
  | PxDelayed nat jstr
  | PxError jstr
  | SocketEnd
  | SocketDestroy
  | Uncaught

subsection \<open>Control commands\<close>

definition px_wake :: "proxy \<Rightarrow> cont \<Rightarrow> px_reply \<Rightarrow> proxy" where
  "px_wake s k r = s\<lparr>px_micro := px_micro s @ [(k, r)]\<rparr>"

text \<open>Sending a command takes its number first; the caller counts \<open>nextSeq\<close>.\<close>

definition send_control_command :: "proxy \<Rightarrow> nat \<Rightarrow> px_method \<Rightarrow> cont \<Rightarrow> proxy \<times> px_out list" where
  "send_control_command s seq m k =
     (if \<not> px_socket s then (px_wake s k (Inl NoSocket), [PxError ''Proxy socket is not connected''])
      else (s\<lparr>px_pending := px_pending s @ [(seq, k)]\<rparr>, [SendControl seq m]))"

definition px_command :: "proxy \<Rightarrow> px_method \<Rightarrow> cont \<Rightarrow> proxy \<times> px_out list" where
  "px_command s m k = send_control_command (s\<lparr>px_seq := px_seq s + 1\<rparr>) (px_seq s) m k"

text \<open>A promise of the caller is numbered when the call is made.\<close>

definition px_call :: "proxy \<Rightarrow> px_method \<Rightarrow> (nat \<Rightarrow> cont) \<Rightarrow> proxy \<times> px_out list" where
  "px_call s m k = px_command (s\<lparr>px_next := px_next s + 1\<rparr>) m (k (px_next s))"

definition px_timeout :: "proxy \<Rightarrow> nat \<Rightarrow> proxy \<times> px_out list" where
  "px_timeout s seq =
     (case map_of (px_pending s) seq of
        None \<Rightarrow> (s, [])
      | Some k \<Rightarrow> (px_wake (s\<lparr>px_pending := AList.delete seq (px_pending s)\<rparr>) k (Inl (ProxyTimeout seq)),
                   [PxError ''timed out'']))"

fun wake_all :: "proxy \<Rightarrow> cont list \<Rightarrow> px_reply \<Rightarrow> proxy" where
  "wake_all s [] r = s"
| "wake_all s (k # ks) r = wake_all (px_wake s k r) ks r"

definition fail_pending_commands :: "proxy \<Rightarrow> px_error \<Rightarrow> proxy" where
  "fail_pending_commands s err =
     wake_all (s\<lparr>px_pending := []\<rparr>) (map snd (px_pending s)) (Inl err)"

definition px_socket_close :: "proxy \<Rightarrow> proxy \<times> px_out list" where
  "px_socket_close s =
     (let s1 = fail_pending_commands (s\<lparr>px_socket := False\<rparr>) ProxyClosed in
      (wake_all (s1\<lparr>px_stopping := []\<rparr>) (map KFinish (px_stopping s1)) (Inr DOther), []))"

definition px_response :: "proxy \<Rightarrow> nat \<Rightarrow> px_reply \<Rightarrow> proxy \<times> px_out list" where
  "px_response s seq r =
     (case (if seq = 0 then None else map_of (px_pending s) seq) of
        Some k \<Rightarrow> (px_wake (s\<lparr>px_pending := AList.delete seq (px_pending s)\<rparr>) k r, [])
      | None \<Rightarrow> (s, [PxError ''Received response with unknown seq'']))"

subsection \<open>Streams\<close>

text \<open>Updates of the objects in the stores.\<close>

definition upd_server :: "nat \<Rightarrow> (remote_server \<Rightarrow> remote_server) \<Rightarrow> proxy \<Rightarrow> proxy" where
  "upd_server v f s = s\<lparr>px_servers := (px_servers s)[v := f (px_servers s ! v)]\<rparr>"

definition upd_stream :: "nat \<Rightarrow> (remote_stream \<Rightarrow> remote_stream) \<Rightarrow> proxy \<Rightarrow> proxy" where
  "upd_stream t f s = s\<lparr>px_streams := (px_streams s)[t := f (px_streams s ! t)]\<rparr>"

definition upd_info :: "nat \<Rightarrow> (port_info \<Rightarrow> port_info) \<Rightarrow> proxy \<Rightarrow> proxy" where
  "upd_info p f s = s\<lparr>px_infos := (px_infos s)[p := f (px_infos s ! p)]\<rparr>"

text \<open>\<open>RemoteStream.dataFromClent\<close> and \<open>dataFromServer\<close>.\<close>

definition data_from_client :: "proxy \<Rightarrow> nat \<Rightarrow> bytes \<Rightarrow> proxy \<times> px_out list" where
  "data_from_client s t data =
     (let st = px_streams s ! t in
      if st_id st < 0 then (upd_stream t (\<lambda>st. st\<lparr>st_to := st_to st @ data\<rparr>) s, [])
      else if \<not> px_socket s then (s, [PxError ''Proxy socket is not connected''])
      else (s, [SendData (st_id st) data]))"

definition stream_data_from_server :: "proxy \<Rightarrow> nat \<Rightarrow> bytes \<Rightarrow> proxy \<times> px_out list" where
  "stream_data_from_server s t data =
     (let st = px_streams s ! t in
      if st_id st < 0 then (upd_stream t (\<lambda>st. st\<lparr>st_from := st_from st @ data\<rparr>) s, [])
      else (upd_stream t (\<lambda>st. st\<lparr>st_from := []\<rparr>) s, [ToClient t data]))"

definition init_stream_id :: "proxy \<Rightarrow> nat \<Rightarrow> int \<Rightarrow> proxy \<times> px_out list" where
  "init_stream_id s t stream_id =
     (let s1 = upd_stream t (\<lambda>st. st\<lparr>st_id := stream_id\<rparr>) s;
          (s2, out2) = (if st_to (px_streams s1 ! t) \<noteq> []
                        then data_from_client s1 t (st_to (px_streams s1 ! t)) else (s1, []));
          (s3, out3) = (if st_from (px_streams s2 ! t) \<noteq> []
                        then stream_data_from_server s2 t (st_from (px_streams s2 ! t)) else (s2, []))
      in (s3, out2 @ out3))"

definition reset_stream_id :: "proxy \<Rightarrow> nat \<Rightarrow> int \<Rightarrow> nat \<Rightarrow> proxy \<times> px_out list" where
  "reset_stream_id s v new_id t =
     (let old = st_id (px_streams s ! t); m = rs_by_id (px_servers s ! v) in
      if new_id = old then (s, [])
      else if map_of m new_id \<noteq> None then (s, [PxError ''Attempting to set stream_id''])
      else (upd_stream t (\<lambda>st. st\<lparr>st_id := new_id\<rparr>)
              (upd_server v (\<lambda>rs. rs\<lparr>rs_by_id := AList.update new_id t (AList.delete old m)\<rparr>) s), []))"

definition set_stream_id :: "proxy \<Rightarrow> nat \<Rightarrow> int \<Rightarrow> proxy \<times> px_out list" where
  "set_stream_id s t stream_id =
     (let cur = st_id (px_streams s ! t) in
      if cur = stream_id then (s, [])
      else
        let out1 = (if 0 \<le> cur then [PxError ''Attempting to set stream_id''] else []);
            (s2, out2) = (if cur < 0 then reset_stream_id s (st_server (px_streams s ! t)) stream_id t
                          else (s, []));
            (s3, out3) = init_stream_id s2 t stream_id
        in (s3, out1 @ out2 @ out3))"

text \<open>\<open>ProxyClient.startStream\<close> up to its \<open>await\<close>; an unknown stream is the exception it throws.\<close>

definition start_stream :: "proxy \<Rightarrow> int \<Rightarrow> bool \<Rightarrow> nat \<Rightarrow> proxy \<times> px_out list" where
  "start_stream s stream_id isDuplicate t =
     (case (map_of (px_id_info s) stream_id, map_of (px_clients s) stream_id) of
        (Some p, Some v) \<Rightarrow>
          (let curSeq = px_seq s;
               s1 = s\<lparr>px_seq := curSeq + 1\<rparr>;
               q = length (px_infos s1);
               s2 = (if isDuplicate
                     then s1\<lparr>px_infos := px_infos s1 @
                               [\<lparr>pi_port = pi_port (px_infos s1 ! p), pi_stream_id = -1,
                                 pi_name = pi_name (px_infos s1 ! p), pi_status = Starting\<rparr>],
                             px_starts := AList.update curSeq q (px_starts s1)\<rparr>
                     else s1)
           in send_control_command s2 curSeq
                (if isDuplicate then DuplicateStream stream_id else StartStream stream_id)
                (KStart isDuplicate curSeq stream_id (if isDuplicate then q else p) t v))
      | _ \<Rightarrow> (px_wake s (KReject t) (Inr DOther), [PxError ''Attempted to open/duplicate unknown stream_id'']))"

text \<open>Its continuation, with the one of \<open>RemoteServer.startStream\<close> and of the connection handler.\<close>

definition start_stream_done ::
    "proxy \<Rightarrow> bool \<Rightarrow> nat \<Rightarrow> nat \<Rightarrow> nat \<Rightarrow> nat \<Rightarrow> px_reply \<Rightarrow> proxy \<times> px_out list" where
  "start_stream_done s isDuplicate seq p t v r =
     (case r of
        Inr (DStatus True new_id) \<Rightarrow>
          (let s1 = (if isDuplicate
                     then (upd_info p (\<lambda>i. i\<lparr>pi_stream_id := new_id\<rparr>) s)
                            \<lparr>px_starts := AList.delete seq (px_starts s),
                             px_id_info := AList.update new_id p (px_id_info s),
                             px_clients := AList.update new_id v (px_clients s)\<rparr>
                     else s);
               (s2, out2) = set_stream_id s1 t (pi_stream_id (px_infos s1 ! p));
               s3 = upd_info p (\<lambda>i. i\<lparr>pi_status := Connected\<rparr>) s2;
               own = rs_info (px_servers s3 ! st_server (px_streams s3 ! t))
           in if pi_status (px_infos s3 ! own) = Connected then (s3, out2)
              else (s3, out2 @ [PxError ''not connected'', EndClient t]))
      | _ \<Rightarrow>
          (if isDuplicate then s\<lparr>px_starts := AList.delete seq (px_starts s)\<rparr> else s,
           [PxError ''Failed to start stream'', EndClient t]))"

text \<open>The connection handler of a \<open>RemoteServer\<close>.\<close>

definition client_connected :: "proxy \<Rightarrow> nat \<Rightarrow> proxy \<times> px_out list" where
  "client_connected s v =
     (let t = length (px_streams s);
          new = \<lparr>st_id = -1, st_server = v, st_from = [], st_to = []\<rparr>
      in if map_of (rs_by_id (px_servers s ! v)) (-1) \<noteq> None
         then (s, [PxError ''received new connection, but stream_id -1 is already in use'', RejectClient v])
         else
           let s1 = s\<lparr>px_streams := px_streams s @ [new]\<rparr>;
               s2 = upd_server v (\<lambda>rs. rs\<lparr>rs_sockets := rs_sockets rs @ [t],
                                          rs_by_id := AList.update (-1) t (rs_by_id rs)\<rparr>) s1;
               n = length (rs_sockets (px_servers s2 ! v));
               pinfo = px_infos s2 ! rs_info (px_servers s2 ! v)
           in if n = 1 \<and> pi_status pinfo = Connected then set_stream_id s2 t (pi_stream_id pinfo)
              else if 1 < n then start_stream s2 (pi_stream_id pinfo) True t
              else start_stream s2 (pi_stream_id pinfo) False t)"

definition cleanup_socket :: "proxy \<Rightarrow> nat \<Rightarrow> proxy" where
  "cleanup_socket s t =
     upd_server (st_server (px_streams s ! t))
       (\<lambda>rs. rs\<lparr>rs_sockets := filter (\<lambda>u. u \<noteq> t) (rs_sockets rs),
                rs_by_id := filter (\<lambda>(_, u). u \<noteq> t) (rs_by_id rs)\<rparr>) s"

definition client_error :: "proxy \<Rightarrow> nat \<Rightarrow> proxy \<times> px_out list" where
  "client_error s t =
     (let s1 = cleanup_socket s t in
      if rs_ending (px_servers s1 ! st_server (px_streams s1 ! t)) then (s1, [])
      else (s1, [PxError ''Error on client socket'', Uncaught]))"

text \<open>\<open>RemoteServer.dataFromServer\<close>: an unknown number goes to the client still waiting for one.\<close>

definition server_data_from_server :: "proxy \<Rightarrow> nat \<Rightarrow> bytes \<Rightarrow> int \<Rightarrow> proxy \<times> px_out list" where
  "server_data_from_server s v data stream_id =
     (let m = rs_by_id (px_servers s ! v) in
      case (case map_of m stream_id of Some t \<Rightarrow> Some t | None \<Rightarrow> map_of m (-1)) of
        Some t \<Rightarrow> stream_data_from_server s t data
      | None \<Rightarrow> (s, [PxError ''Received data from server for unknown stream_id'']))"

definition server_close :: "proxy \<Rightarrow> nat \<Rightarrow> proxy \<times> px_out list" where
  "server_close s v =
     (let rs = px_servers s ! v in
      if rs_open rs
      then (upd_server v (\<lambda>rs. rs\<lparr>rs_ending := True, rs_sockets := [], rs_by_id := [], rs_open := False\<rparr>) s,
            map DestroyClient (rs_sockets rs))
      else (upd_server v (\<lambda>rs. rs\<lparr>rs_ending := True\<rparr>) s, []))"

definition server_listening :: "proxy \<Rightarrow> nat \<Rightarrow> proxy \<times> px_out list" where
  "server_listening s v =
     (let rs = px_servers s ! v; port = pi_port (px_infos s ! rs_info rs) in
      (s\<lparr>px_ports := map (\<lambda>(n, d). if n = rs_name rs then (n, d\<lparr>pd_remote := Some port\<rparr>) else (n, d))
                       (px_ports s)\<rparr>,
       [PxEvent ''streamStarted'']))"

subsection \<open>Messages of the proxy\<close>

definition handle_stream_ready :: "proxy \<Rightarrow> int \<Rightarrow> bool \<Rightarrow> proxy \<times> px_out list" where
  "handle_stream_ready s stream_id isStarted =
     (case map_of (px_id_info s) stream_id of
        None \<Rightarrow> (s, [PxError ''Received streamReady event for unknown stream_id''])
      | Some p \<Rightarrow>
          (let name = pi_name (px_infos s ! p) in
           case map_of (px_ports s) name of
             None \<Rightarrow> (s, [PxError ''No local port mapping found for stream''])
           | Some portDef \<Rightarrow>
               (let s1 = upd_info p (\<lambda>i. i\<lparr>pi_status := (if isStarted then Connected else Ready)\<rparr>) s;
                    v = length (px_servers s1);
                    s2 = s1\<lparr>px_servers := px_servers s1 @
                          [\<lparr>rs_ending = False, rs_open = True, rs_sockets = [], rs_by_id = [],
                            rs_name = name, rs_info = p\<rparr>]\<rparr>
                in (px_wake s2 (KReady stream_id v) (Inr DOther), []))))"

definition handle_stream_closed :: "proxy \<Rightarrow> int \<Rightarrow> proxy \<times> px_out list" where
  "handle_stream_closed s stream_id =
     (case map_of (px_clients s) stream_id of
        None \<Rightarrow> (s, [])
      | Some v \<Rightarrow>
          (let (s1, out) = server_close s v in
           (s1\<lparr>px_clients := AList.delete stream_id (px_clients s1)\<rparr>, out)))"

datatype px_msg =
    MLaunched
  | MExited
  | MStreamReady int
  | MStreamStarted int
  | MStreamClosed int
  | MUnknownEvent
  | MResponse nat bool jstr px_data    \<comment> \<open>seq, success, message, data\<close>
  | MUnparsable

fun handle_control_message :: "proxy \<Rightarrow> px_msg \<Rightarrow> proxy \<times> px_out list" where
  "handle_control_message s MLaunched = (s, [PxEvent ''gdbServerLaunched''])"
| "handle_control_message s MExited = (s, [PxDelayed 100 ''serverExited''])"
| "handle_control_message s (MStreamReady i) = handle_stream_ready s i False"
| "handle_control_message s (MStreamStarted i) = handle_stream_ready s i True"
| "handle_control_message s (MStreamClosed i) = handle_stream_closed s i"
| "handle_control_message s MUnknownEvent = (s, [PxError ''Received unknown proxy event''])"
| "handle_control_message s (MResponse seq success m d) =
     px_response s seq (if success then Inr d
       else Inl (ProxyError (if m = [] then ''Unknown error from proxy'' else m)))"
| "handle_control_message s MUnparsable = (s, [PxError ''Failed to parse proxy message''])"

text \<open>One message of the reassembly; \<open>decode\<close> stands for UTF-8 decoding and \<open>JSON.parse\<close>.\<close>

definition handle_proxy_message ::
    "(bytes \<Rightarrow> px_msg) \<Rightarrow> proxy \<Rightarrow> nat \<Rightarrow> bytes \<Rightarrow> proxy \<times> px_out list" where
  "handle_proxy_message decode s stream_id payload =
     (if stream_id \<noteq> 0 then
        if stream_id \<le> 2 then (s, [ServerConsole payload])
        else (case map_of (px_clients s) (int stream_id) of
                Some v \<Rightarrow> server_data_from_server s v payload (int stream_id)
              | None \<Rightarrow> (s, [PxError ''Received data for unknown stream_id'']))
      else handle_control_message s (decode payload))"

subsection \<open>Calls, continuations and runs\<close>

fun close_servers :: "proxy \<Rightarrow> nat list \<Rightarrow> proxy \<times> px_out list" where
  "close_servers s [] = (s, [])"
| "close_servers s (v # vs) =
     (let (s1, out1) = server_close s v; (s2, out2) = close_servers s1 vs in (s2, out1 @ out2))"

definition stop_finish :: "proxy \<Rightarrow> nat \<Rightarrow> proxy \<times> px_out list" where
  "stop_finish s i =
     (let (s1, out) = close_servers (s\<lparr>px_socket := False\<rparr>) (map snd (px_clients s))
      in (s1\<lparr>px_clients := []\<rparr>, out @ [PxSettle i (Inr DOther)]))"

definition px_stop :: "proxy \<Rightarrow> proxy \<times> px_out list" where
  "px_stop s =
     (let s1 = s\<lparr>px_ending := True\<rparr> in
      if px_socket s1 then px_call s1 EndSession KStop
      else stop_finish (s1\<lparr>px_next := px_next s1 + 1\<rparr>) (px_next s1))"

text \<open>After the answer to \<open>endSession\<close>, whatever it was: half-close and wait for the peer.\<close>

definition stop_half_close :: "proxy \<Rightarrow> nat \<Rightarrow> proxy \<times> px_out list" where
  "stop_half_close s i =
     (if px_socket s then (s\<lparr>px_stopping := px_stopping s @ [i]\<rparr>, [SocketEnd]) else stop_finish s i)"

definition stop_timer :: "proxy \<Rightarrow> nat \<Rightarrow> proxy \<times> px_out list" where
  "stop_timer s i =
     (if i \<in> set (px_stopping s)
      then (px_wake (s\<lparr>px_stopping := remove1 i (px_stopping s)\<rparr>) (KFinish i) (Inr DOther), [SocketDestroy])
      else (s, []))"

definition allocate_ports :: "proxy \<Rightarrow> (jstr \<times> port_def) list \<Rightarrow> proxy \<times> px_out list" where
  "allocate_ports s ports =
     px_call (s\<lparr>px_ports := ports\<rparr>) (AllocatePorts (map fst ports)) KAlloc"

fun allocate_ports_done :: "proxy \<Rightarrow> (nat \<times> int \<times> jstr) list \<Rightarrow> proxy" where
  "allocate_ports_done s [] = s"
| "allocate_ports_done s ((port, stream_id, name) # ps) =
     (let p = length (px_infos s);
          s1 = s\<lparr>px_ports := map (\<lambda>(n, d). if n = name then (n, d\<lparr>pd_remote := Some port\<rparr>) else (n, d)) (px_ports s),
                 px_infos := px_infos s @ [\<lparr>pi_port = port, pi_stream_id = stream_id, pi_name = name, pi_status = Starting\<rparr>],
                 px_str_info := AList.update name p (px_str_info s),
                 px_id_info := AList.update stream_id p (px_id_info s)\<rparr>
      in allocate_ports_done s1 ps)"

fun run_cont :: "proxy \<Rightarrow> cont \<Rightarrow> px_reply \<Rightarrow> proxy \<times> px_out list" where
  "run_cont s (KCaller i) r = (s, [PxSettle i r])"
| "run_cont s (KAlloc i) r =
     (case r of
        Inl e \<Rightarrow> (s, [PxError ''Failed to allocate ports'', PxSettle i (Inl e)])
      | Inr d \<Rightarrow> (allocate_ports_done s (case d of DPorts ps \<Rightarrow> ps | _ \<Rightarrow> []), [PxSettle i (Inr DOther)]))"
| "run_cont s (KStart isDuplicate seq stream_id p t v) r = start_stream_done s isDuplicate seq p t v r"
| "run_cont s (KStop i) r = stop_half_close s i"
| "run_cont s (KReady stream_id v) r = (s\<lparr>px_clients := AList.update stream_id v (px_clients s)\<rparr>, [])"
| "run_cont s (KReject t) r = (s, [PxError ''Failed to start stream'', EndClient t])"
| "run_cont s (KFinish i) r = stop_finish s i"

definition px_micro_step :: "proxy \<Rightarrow> proxy \<times> px_out list" where
  "px_micro_step s =
     (case px_micro s of
        [] \<Rightarrow> (s, [])
      | (k, r) # rest \<Rightarrow> run_cont (s\<lparr>px_micro := rest\<rparr>) k r)"

datatype px_event =
    PxConnected
  | PxSocketClosed
  | PxCall px_method
  | PxAllocate "(jstr \<times> port_def) list"
  | PxStop
  | PxStopTimer nat
  | PxTimeout nat
  | PxMicro
  | PxFrame nat bytes
  | PxListening nat
  | PxClient nat
  | PxClientData nat bytes
  | PxClientClosed nat
  | PxClientError nat

fun px_step :: "(bytes \<Rightarrow> px_msg) \<Rightarrow> proxy \<Rightarrow> px_event \<Rightarrow> proxy \<times> px_out list" where
  "px_step decode s PxConnected = (s\<lparr>px_socket := True\<rparr>, [])"
| "px_step decode s PxSocketClosed = px_socket_close s"
| "px_step decode s (PxCall m) = px_call s m KCaller"
| "px_step decode s (PxAllocate ports) = allocate_ports s ports"
| "px_step decode s PxStop = px_stop s"
| "px_step decode s (PxStopTimer i) = stop_timer s i"
| "px_step decode s (PxTimeout seq) = px_timeout s seq"
| "px_step decode s PxMicro = px_micro_step s"
| "px_step decode s (PxFrame i p) = handle_proxy_message decode s i p"
| "px_step decode s (PxListening v) = server_listening s v"
| "px_step decode s (PxClient v) = client_connected s v"
| "px_step decode s (PxClientData t data) = data_from_client s t data"
| "px_step decode s (PxClientClosed t) = (cleanup_socket s t, [])"
| "px_step decode s (PxClientError t) = client_error s t"

text \<open>The socket, the reassembly and the client together.\<close>

datatype link_event = SocketData bytes | LoopResume | Other px_event

fun feed_messages :: "(bytes \<Rightarrow> px_msg) \<Rightarrow> proxy \<Rightarrow> (nat \<times> bytes) list \<Rightarrow> proxy \<times> px_out list" where
  "feed_messages decode s [] = (s, [])"
| "feed_messages decode s ((i, p) # fs) =
     (let (s1, out1) = handle_proxy_message decode s i p; (s2, out2) = feed_messages decode s1 fs
      in (s2, out1 @ out2))"

fun link_step :: "(bytes \<Rightarrow> px_msg) \<Rightarrow> rx \<times> proxy \<Rightarrow> link_event \<Rightarrow> (rx \<times> proxy) \<times> px_out list" where
  "link_step decode (r, s) (SocketData data) = ((rx_data r data, s), [])"
| "link_step decode (r, s) LoopResume =
     (let (r1, fs) = rx_resume r; (s1, out) = feed_messages decode s fs in ((r1, s1), out))"
| "link_step decode (r, s) (Other e) = (let (s1, out) = px_step decode s e in ((r, s1), out))"

subsection \<open>Accounting of promises\<close>

fun cont_ids :: "cont \<Rightarrow> nat multiset" where
  "cont_ids (KCaller i) = {#i#}"
| "cont_ids (KAlloc i) = {#i#}"
| "cont_ids (KStop i) = {#i#}"
| "cont_ids (KFinish i) = {#i#}"
| "cont_ids (KStart d q i p t v) = {#}"
| "cont_ids (KReady i v) = {#}"
| "cont_ids (KReject t) = {#}"

definition conts_ids :: "cont list \<Rightarrow> nat multiset" where
  "conts_ids ks = sum_list (map cont_ids ks)"

definition px_live :: "proxy \<Rightarrow> nat multiset" where
  "px_live s = conts_ids (map snd (px_pending s)) + conts_ids (map fst (px_micro s)) + mset (px_stopping s)"

fun px_settled_of :: "px_out \<Rightarrow> nat multiset" where
  "px_settled_of (PxSettle i r) = {#i#}"
| "px_settled_of _ = {#}"

definition px_settled :: "px_out list \<Rightarrow> nat multiset" where
  "px_settled out = sum_list (map px_settled_of out)"

definition px_inv :: "proxy \<Rightarrow> bool" where
  "px_inv s \<longleftrightarrow> distinct (map fst (px_pending s)) \<and> (\<forall>k \<in> fst ` set (px_pending s). k < px_seq s)"

definition px_conserves :: "proxy \<Rightarrow> proxy \<times> px_out list \<Rightarrow> bool" where
  "px_conserves s r \<longleftrightarrow> px_inv (fst r) \<and> px_next s \<le> px_next (fst r) \<and>
     px_settled (snd r) + px_live (fst r) = px_live s + mset [px_next s..<px_next (fst r)]"

text \<open>What the operations on streams leave alone.\<close>

definition px_ctl where
  "px_ctl s = (px_pending s, px_micro s, px_stopping s, px_next s, px_seq s)"

lemma px_settled_simps [simp]:
  "px_settled [] = {#}" "px_settled (x # xs) = px_settled_of x + px_settled xs"
  "px_settled (xs @ ys) = px_settled xs + px_settled ys"
  by (simp_all add: px_settled_def)

lemma conts_ids_simps [simp]:
  "conts_ids [] = {#}" "conts_ids (k # ks) = cont_ids k + conts_ids ks"
  "conts_ids (xs @ ys) = conts_ids xs + conts_ids ys"
  by (simp_all add: conts_ids_def)

lemma px_conserves_ctl:
  assumes "px_inv s" "px_ctl s' = px_ctl s" "px_settled out = {#}"
  shows "px_conserves s (s', out)"
  using assms unfolding px_conserves_def px_ctl_def px_inv_def px_live_def by auto

lemma px_conserves_trans:
  assumes "px_conserves s (s1, out1)" "px_conserves s1 (s2, out2)"
  shows "px_conserves s (s2, out1 @ out2)"
proof -
  have "[px_next s..<px_next s2] = [px_next s..<px_next s1] @ [px_next s1..<px_next s2]"
    using assms upt_add_eq_append[of "px_next s" "px_next s1" "px_next s2 - px_next s1"]
    by (simp add: px_conserves_def)
  moreover have "px_settled out1 + px_settled out2 + px_live s2 =
      px_live s + mset [px_next s..<px_next s1] + mset [px_next s1..<px_next s2]"
    using assms unfolding px_conserves_def fst_conv snd_conv
    by (metis add.assoc add.commute add.left_commute)
  ultimately show ?thesis using assms by (simp add: px_conserves_def add.assoc)
qed

lemmas px_upd_defs = upd_server_def upd_stream_def upd_info_def

lemma px_upd_ctl [simp]:
  "px_ctl (upd_server v f s) = px_ctl s" "px_ctl (upd_stream t g s) = px_ctl s" "px_ctl (upd_info p h s) = px_ctl s"
  by (simp_all add: px_ctl_def px_upd_defs)

lemma data_from_client_ctl [simp]:
  "px_ctl (fst (data_from_client s t d)) = px_ctl s" "px_settled (snd (data_from_client s t d)) = {#}"
  by (simp_all add: data_from_client_def Let_def)

lemma stream_data_ctl [simp]:
  "px_ctl (fst (stream_data_from_server s t d)) = px_ctl s"
  "px_settled (snd (stream_data_from_server s t d)) = {#}"
  by (simp_all add: stream_data_from_server_def Let_def)

lemma init_stream_id_ctl [simp]:
  "px_ctl (fst (init_stream_id s t i)) = px_ctl s" "px_settled (snd (init_stream_id s t i)) = {#}"
  by (simp_all add: init_stream_id_def Let_def case_prod_beta)

lemma reset_stream_id_ctl [simp]:
  "px_ctl (fst (reset_stream_id s v i t)) = px_ctl s" "px_settled (snd (reset_stream_id s v i t)) = {#}"
  by (simp_all add: reset_stream_id_def Let_def)

lemma set_stream_id_ctl [simp]:
  "px_ctl (fst (set_stream_id s t i)) = px_ctl s" "px_settled (snd (set_stream_id s t i)) = {#}"
  by (simp_all add: set_stream_id_def Let_def case_prod_beta)

lemma server_close_ctl [simp]:
  "px_ctl (fst (server_close s v)) = px_ctl s" "px_settled (snd (server_close s v)) = {#}"
proof -
  have "px_settled (map DestroyClient xs) = {#}" for xs by (induction xs) simp_all
  then show "px_ctl (fst (server_close s v)) = px_ctl s" "px_settled (snd (server_close s v)) = {#}"
    by (simp_all add: server_close_def Let_def)
qed

lemma close_servers_ctl [simp]:
  "px_ctl (fst (close_servers s vs)) = px_ctl s" "px_settled (snd (close_servers s vs)) = {#}"
  by (induction vs arbitrary: s) (simp_all add: Let_def case_prod_beta)

lemma server_data_ctl [simp]:
  "px_ctl (fst (server_data_from_server s v d i)) = px_ctl s"
  "px_settled (snd (server_data_from_server s v d i)) = {#}"
  by (simp_all add: server_data_from_server_def Let_def split: option.split)

lemma handle_stream_closed_ctl [simp]:
  "px_ctl (fst (handle_stream_closed s i)) = px_ctl s" "px_settled (snd (handle_stream_closed s i)) = {#}"
proof -
  have c: "px_ctl (s\<lparr>px_clients := c\<rparr>) = px_ctl s" for s :: proxy and c by (simp add: px_ctl_def)
  show "px_ctl (fst (handle_stream_closed s i)) = px_ctl s"
    "px_settled (snd (handle_stream_closed s i)) = {#}"
    by (simp_all add: handle_stream_closed_def case_prod_beta c split: option.split)
qed

lemma allocate_ports_done_ctl [simp]: "px_ctl (allocate_ports_done s ps) = px_ctl s"
  by (induction s ps rule: allocate_ports_done.induct) (simp_all add: Let_def px_ctl_def)

lemma px_wake_live:
  "px_live (px_wake s k r) = px_live s + cont_ids k" "px_inv (px_wake s k r) = px_inv s"
  "px_next (px_wake s k r) = px_next s"
  by (simp_all add: px_wake_def px_live_def px_inv_def)

lemma wake_all_live:
  "px_live (wake_all s ks r) = px_live s + conts_ids ks" "px_inv (wake_all s ks r) = px_inv s"
  "px_next (wake_all s ks r) = px_next s" "px_stopping (wake_all s ks r) = px_stopping s"
  "px_pending (wake_all s ks r) = px_pending s" "px_seq (wake_all s ks r) = px_seq s"
  "px_micro (wake_all s ks r) = px_micro s @ map (\<lambda>k. (k, r)) ks" "px_socket (wake_all s ks r) = px_socket s"
  by (induction ks arbitrary: s) (simp_all add: px_wake_live px_wake_def, simp_all add: px_live_def px_inv_def)

lemma send_control_conserves:
  assumes "distinct (map fst (px_pending s))" "\<forall>k \<in> fst ` set (px_pending s). k < q" "q < px_seq s"
  shows "px_inv (fst (send_control_command s q m k))"
    "px_next (fst (send_control_command s q m k)) = px_next s"
    "px_settled (snd (send_control_command s q m k)) = {#}"
    "px_live (fst (send_control_command s q m k)) = px_live s + cont_ids k"
proof -
  have "\<forall>k \<in> fst ` set (px_pending s). k < px_seq s" using assms(2,3) by (meson less_trans)
  moreover have "q \<notin> fst ` set (px_pending s)" using assms(2) by blast
  ultimately show "px_inv (fst (send_control_command s q m k))"
    using assms by (auto simp: send_control_command_def px_wake_def px_inv_def)
  show "px_next (fst (send_control_command s q m k)) = px_next s"
    "px_settled (snd (send_control_command s q m k)) = {#}"
    "px_live (fst (send_control_command s q m k)) = px_live s + cont_ids k"
    by (simp_all add: send_control_command_def px_wake_live) (simp add: px_live_def)
qed

lemma px_call_conserves:
  assumes "px_inv s" "\<And>i. cont_ids (k i) = {#i#}"
  shows "px_conserves s (px_call s m k)"
proof -
  let ?s = "s\<lparr>px_next := px_next s + 1, px_seq := px_seq s + 1\<rparr>"
  have "distinct (map fst (px_pending ?s))" "\<forall>k \<in> fst ` set (px_pending ?s). k < px_seq s" "px_seq s < px_seq ?s"
    using assms(1) by (simp_all add: px_inv_def)
  note c = send_control_conserves[OF this, of m "k (px_next s)"]
  have "px_live ?s = px_live s" by (simp add: px_live_def)
  with c assms(2) show ?thesis by (simp add: px_conserves_def px_call_def px_command_def)
qed

lemma conts_delete:
  "distinct (map fst ps) \<Longrightarrow> map_of ps n = Some k \<Longrightarrow>
     conts_ids (map snd ps) = cont_ids k + conts_ids (map snd (AList.delete n ps))"
proof (induction ps)
  case (Cons x ps)
  show ?case
  proof (cases "fst x = n")
    case True
    with Cons.prems(1) have "AList.delete n ps = ps" by (intro AList.delete_id) auto
    with True Cons.prems(2) show ?thesis by (cases x) simp
  next
    case False
    then have "map_of ps n = Some k" "AList.delete n (x # ps) = x # AList.delete n ps"
      using Cons.prems(2) by (auto simp: AList.delete_eq split: prod.splits)
    with Cons.IH Cons.prems(1) show ?thesis by (simp add: add.left_commute)
  qed
qed simp

lemma delete_wake_conserves:
  assumes "px_inv s" "map_of (px_pending s) n = Some k" "px_settled out = {#}"
  shows "px_conserves s (px_wake (s\<lparr>px_pending := AList.delete n (px_pending s)\<rparr>) k r, out)"
proof -
  have d: "distinct (map fst (px_pending s))" using assms(1) by (simp add: px_inv_def)
  have "px_inv (s\<lparr>px_pending := AList.delete n (px_pending s)\<rparr>)"
    using assms(1) AList.dom_delete_subset[of n "px_pending s"]
    by (fastforce simp: px_inv_def AList.distinct_delete)
  then show ?thesis
    using conts_delete[OF d assms(2)] assms(3)
    by (simp add: px_conserves_def px_wake_live) (simp add: px_live_def ac_simps)
qed

lemma px_conserves_wake:
  assumes "px_inv s" "px_ctl s1 = px_ctl s" "cont_ids k = {#}" "px_settled out = {#}"
  shows "px_conserves s (px_wake s1 k r, out)"
  using px_conserves_ctl[OF assms(1,2,4)] assms(3) by (simp add: px_conserves_def px_wake_live)

lemma start_stream_conserves:
  assumes inv: "px_inv s" and c: "px_ctl s1 = px_ctl s"
  shows "px_conserves s (start_stream s1 i d t)"
proof -
  have inv1: "px_inv s1" and l1: "px_live s1 = px_live s" and n1: "px_next s1 = px_next s"
    using c inv by (auto simp: px_ctl_def px_inv_def px_live_def)
  show ?thesis
  proof (cases "\<exists>p v. map_of (px_id_info s1) i = Some p \<and> map_of (px_clients s1) i = Some v")
    case True
    then obtain p v where pv: "map_of (px_id_info s1) i = Some p" "map_of (px_clients s1) i = Some v" by blast
    define s2 where "s2 = (let s3 = s1\<lparr>px_seq := px_seq s1 + 1\<rparr>; q = length (px_infos s3) in
      if d then s3\<lparr>px_infos := px_infos s3 @
             [\<lparr>pi_port = pi_port (px_infos s3 ! p), pi_stream_id = -1,
               pi_name = pi_name (px_infos s3 ! p), pi_status = Starting\<rparr>],
             px_starts := AList.update (px_seq s1) q (px_starts s3)\<rparr> else s3)"
    have f: "px_pending s2 = px_pending s1" "px_seq s2 = px_seq s1 + 1" "px_next s2 = px_next s1"
      "px_live s2 = px_live s1"
      by (simp_all add: s2_def Let_def px_live_def)
    have "distinct (map fst (px_pending s2))" "\<forall>k \<in> fst ` set (px_pending s2). k < px_seq s1" "px_seq s1 < px_seq s2"
      using inv1 f by (simp_all add: px_inv_def)
    note sc = send_control_conserves[OF this]
    have "\<exists>m k. start_stream s1 i d t = send_control_command s2 (px_seq s1) m k \<and> cont_ids k = {#}"
      using pv by (intro exI[of _ "if d then DuplicateStream i else StartStream i"]
          exI[of _ "KStart d (px_seq s1) i (if d then length (px_infos s1) else p) t v"])
        (simp add: start_stream_def s2_def Let_def)
    then obtain m k where "start_stream s1 i d t = send_control_command s2 (px_seq s1) m k" "cont_ids k = {#}"
      by blast
    with sc[of m k] f l1 n1 show ?thesis by (simp add: px_conserves_def)
  next
    case False
    then have "start_stream s1 i d t = (px_wake s1 (KReject t) (Inr DOther),
        [PxError ''Attempted to open/duplicate unknown stream_id''])"
      by (auto simp: start_stream_def split: option.split)
    with px_conserves_wake[OF inv c] show ?thesis by simp
  qed
qed

lemma client_connected_conserves:
  assumes inv: "px_inv s" shows "px_conserves s (client_connected s v)"
proof (cases "map_of (rs_by_id (px_servers s ! v)) (-1) \<noteq> None")
  case True
  with inv show ?thesis by (auto simp: client_connected_def Let_def intro!: px_conserves_ctl)
next
  case False
  let ?t = "length (px_streams s)"
  define s2 where "s2 = upd_server v (\<lambda>rs. rs\<lparr>rs_sockets := rs_sockets rs @ [?t],
      rs_by_id := AList.update (-1) ?t (rs_by_id rs)\<rparr>)
      (s\<lparr>px_streams := px_streams s @ [\<lparr>st_id = -1, st_server = v, st_from = [], st_to = []\<rparr>]\<rparr>)"
  have c: "px_ctl s2 = px_ctl s" by (simp add: s2_def px_ctl_def px_upd_defs)
  let ?p = "px_infos s2 ! rs_info (px_servers s2 ! v)"
  have "client_connected s v =
      (if length (rs_sockets (px_servers s2 ! v)) = 1 \<and> pi_status ?p = Connected
       then set_stream_id s2 ?t (pi_stream_id ?p)
       else if 1 < length (rs_sockets (px_servers s2 ! v)) then start_stream s2 (pi_stream_id ?p) True ?t
       else start_stream s2 (pi_stream_id ?p) False ?t)"
    using False by (simp add: client_connected_def s2_def Let_def)
  moreover have "px_conserves s (set_stream_id s2 ?t i)" for i
    using px_conserves_ctl[OF inv, of "fst (set_stream_id s2 ?t i)" "snd (set_stream_id s2 ?t i)"] c by simp
  ultimately show ?thesis using start_stream_conserves[OF inv c] by simp
qed

lemma start_stream_done_ctl:
  "px_ctl (fst (start_stream_done s d q p t v r)) = px_ctl s \<and>
   px_settled (snd (start_stream_done s d q p t v r)) = {#}"
proof -
  have c: "px_ctl (s1\<lparr>px_starts := a, px_id_info := b, px_clients := c\<rparr>) = px_ctl s1"
    "px_ctl (s1\<lparr>px_starts := a\<rparr>) = px_ctl s1" for s1 :: proxy and a b c by (simp_all add: px_ctl_def)
  show ?thesis
    by (auto simp: start_stream_done_def Let_def case_prod_beta c split: sum.split px_data.split bool.split)
qed

lemma stop_finish_conserves:
  assumes "px_inv s"
  shows "px_inv (fst (stop_finish s i))" "px_next (fst (stop_finish s i)) = px_next s"
    "px_live (fst (stop_finish s i)) = px_live s" "px_settled (snd (stop_finish s i)) = {#i#}"
proof -
  have "px_ctl (s1\<lparr>px_clients := c\<rparr>) = px_ctl s1" "px_ctl (s1\<lparr>px_socket := b\<rparr>) = px_ctl s1"
    for s1 :: proxy and b c by (simp_all add: px_ctl_def)
  note * = this
  have "px_ctl (fst (stop_finish s i)) = px_ctl s" "px_settled (snd (stop_finish s i)) = {#i#}"
    by (simp_all add: stop_finish_def case_prod_beta *)
  with assms show "px_inv (fst (stop_finish s i))" "px_next (fst (stop_finish s i)) = px_next s"
    "px_live (fst (stop_finish s i)) = px_live s" "px_settled (snd (stop_finish s i)) = {#i#}"
    by (auto simp: px_ctl_def px_inv_def px_live_def)
qed

lemma run_cont_conserves:
  assumes "px_inv s"
  shows "px_inv (fst (run_cont s k r))" "px_next (fst (run_cont s k r)) = px_next s"
    "px_settled (snd (run_cont s k r)) + px_live (fst (run_cont s k r)) = px_live s + cont_ids k"
proof -
  have "px_inv (fst (run_cont s k r)) \<and> px_next (fst (run_cont s k r)) = px_next s \<and>
    px_settled (snd (run_cont s k r)) + px_live (fst (run_cont s k r)) = px_live s + cont_ids k"
  proof (cases k)
    case (KAlloc i)
    have "px_ctl (allocate_ports_done s ps) = px_ctl s" for ps by simp
    then have "px_inv (allocate_ports_done s ps) \<and> px_next (allocate_ports_done s ps) = px_next s \<and>
        px_live (allocate_ports_done s ps) = px_live s" for ps
      using assms unfolding px_ctl_def px_inv_def px_live_def by simp
    with KAlloc assms show ?thesis by (auto split: sum.split)
  next
    case (KStart d q i p t v)
    with assms start_stream_done_ctl[of s d q p t v r] show ?thesis
      by (auto simp: px_ctl_def px_inv_def px_live_def)
  next
    case (KStop i)
    with assms stop_finish_conserves[OF assms] show ?thesis
      by (auto simp: stop_half_close_def) (auto simp: px_inv_def px_live_def)
  next
    case (KFinish i)
    with assms stop_finish_conserves[OF assms] show ?thesis by simp
  qed (use assms in \<open>auto simp: px_inv_def px_live_def\<close>)
  then show "px_inv (fst (run_cont s k r))" "px_next (fst (run_cont s k r)) = px_next s"
    "px_settled (snd (run_cont s k r)) + px_live (fst (run_cont s k r)) = px_live s + cont_ids k" by auto
qed

lemma px_micro_conserves:
  assumes inv: "px_inv s" shows "px_conserves s (px_micro_step s)"
proof (cases "px_micro s")
  case (Cons kr rest)
  obtain k r where kr: "kr = (k, r)" by force
  have "px_inv (s\<lparr>px_micro := rest\<rparr>)" using inv by (simp add: px_inv_def)
  moreover have "px_live s = px_live (s\<lparr>px_micro := rest\<rparr>) + cont_ids k"
    using Cons kr by (simp add: px_live_def)
  ultimately show ?thesis
    using run_cont_conserves[of "s\<lparr>px_micro := rest\<rparr>" k r] Cons kr
    by (simp add: px_micro_step_def px_conserves_def)
qed (simp add: px_micro_step_def px_conserves_def inv)

lemma px_socket_close_conserves:
  assumes inv: "px_inv s" shows "px_conserves s (px_socket_close s)"
proof -
  have ids: "conts_ids (map KFinish xs) = mset xs" for xs by (induction xs) simp_all
  have "px_live (s\<lparr>px_socket := b, px_pending := []\<rparr>) + conts_ids (map snd (px_pending s)) = px_live s" for b
    by (simp add: px_live_def)
  with inv show ?thesis
    by (simp add: px_socket_close_def fail_pending_commands_def Let_def px_conserves_def wake_all_live)
      (simp add: px_inv_def px_live_def wake_all_live ids comp_def ac_simps)
qed

lemma handle_proxy_message_conserves:
  assumes inv: "px_inv s" shows "px_conserves s (handle_proxy_message decode s i p)"
proof -
  have ready: "px_conserves s (handle_stream_ready s j b)" for j b
  proof -
    have *: "px_ctl (s1\<lparr>px_servers := a\<rparr>) = px_ctl s1" for s1 :: proxy and a by (simp add: px_ctl_def)
    show ?thesis
    proof (cases "\<exists>q d. map_of (px_id_info s) j = Some q \<and> map_of (px_ports s) (pi_name (px_infos s ! q)) = Some d")
      case True
      then show ?thesis
        using inv by (auto simp: handle_stream_ready_def Let_def * intro!: px_conserves_wake)
    next
      case False
      with inv show ?thesis
        by (auto simp: handle_stream_ready_def Let_def intro!: px_conserves_ctl split: option.split)
    qed
  qed
  have resp: "px_conserves s (px_response s n r)" for n r
  proof (cases "if n = 0 then None else map_of (px_pending s) n")
    case None
    with inv show ?thesis by (auto simp: px_response_def intro!: px_conserves_ctl)
  next
    case (Some k)
    with inv show ?thesis by (auto simp: px_response_def intro!: delete_wake_conserves split: if_splits)
  qed
  have ctl: "px_conserves s (f s)" if "px_ctl (fst (f s)) = px_ctl s" "px_settled (snd (f s)) = {#}" for f
    using px_conserves_ctl[OF inv that] by simp
  have "px_conserves s (handle_control_message s m)" for m
    using ready resp inv ctl[of "\<lambda>s. handle_stream_closed s i" for i]
    by (cases m) (auto intro!: px_conserves_ctl)
  moreover have "px_conserves s (server_data_from_server s v p j)" for v j
    by (rule ctl) simp_all
  ultimately show ?thesis
    using inv by (auto simp: handle_proxy_message_def intro!: px_conserves_ctl split: option.split)
qed

lemma px_step_conserves:
  assumes inv: "px_inv s" shows "px_conserves s (px_step decode s e)"
proof (cases e)
  case PxConnected
  with inv show ?thesis by (auto simp: px_ctl_def intro!: px_conserves_ctl)
next
  case (PxAllocate ports)
  have "px_inv (s\<lparr>px_ports := ports\<rparr>)" "px_live (s\<lparr>px_ports := ports\<rparr>) = px_live s"
    using inv by (simp_all add: px_inv_def px_live_def)
  with PxAllocate px_call_conserves[of "s\<lparr>px_ports := ports\<rparr>" KAlloc] show ?thesis
    by (simp add: allocate_ports_def px_conserves_def)
next
  case PxStop
  have i: "px_inv (s\<lparr>px_ending := True\<rparr>)" and l: "px_live (s\<lparr>px_ending := True\<rparr>) = px_live s"
    and i2: "px_inv (s\<lparr>px_ending := True, px_next := n\<rparr>)" and l2: "px_live (s\<lparr>px_ending := True, px_next := n\<rparr>) = px_live s" for n
    using inv by (simp_all add: px_inv_def px_live_def)
  show ?thesis
    using PxStop px_call_conserves[OF i, of KStop] stop_finish_conserves[OF i2] l l2
    by (simp add: px_stop_def Let_def px_conserves_def)
next
  case (PxStopTimer i)
  with inv show ?thesis
    by (auto simp: stop_timer_def px_conserves_def px_wake_live) (auto simp: px_inv_def px_live_def)
next
  case (PxTimeout q)
  show ?thesis
  proof (cases "map_of (px_pending s) q")
    case None
    with PxTimeout inv show ?thesis by (auto simp: px_timeout_def intro!: px_conserves_ctl)
  next
    case (Some k)
    with PxTimeout inv show ?thesis by (auto simp: px_timeout_def intro!: delete_wake_conserves)
  qed
next
  case (PxListening v)
  with inv show ?thesis by (auto simp: server_listening_def Let_def px_ctl_def intro!: px_conserves_ctl)
next
  case (PxClientData t d)
  with px_conserves_ctl[OF inv, of "fst (data_from_client s t d)" "snd (data_from_client s t d)"]
  show ?thesis by simp
next
  case (PxClientClosed t)
  with inv show ?thesis by (auto simp: cleanup_socket_def intro!: px_conserves_ctl)
next
  case (PxClientError t)
  with inv show ?thesis by (auto simp: client_error_def cleanup_socket_def Let_def intro!: px_conserves_ctl)
qed (use inv in \<open>simp_all add: px_socket_close_conserves px_call_conserves px_micro_conserves
      handle_proxy_message_conserves client_connected_conserves\<close>)

lemma px_inv_init [simp]: "px_inv px_init" "px_live px_init = {#}" "px_next px_init = 0"
  by (simp_all add: px_init_def px_inv_def px_live_def)

lemma px_inv_step: "px_inv s \<Longrightarrow> px_inv (fst (px_step decode s e))"
  using px_step_conserves[of s decode e] by (simp add: px_conserves_def)

interpretation px_session: step_framer px_inv "px_step decode" for decode
  by unfold_locales (rule px_inv_step)

lemma px_run_conserves: "px_inv s \<Longrightarrow> px_conserves s (run_steps (px_step decode) s es)"
proof (induction es arbitrary: s)
  case Nil
  then show ?case by (simp add: px_conserves_def)
next
  case (Cons e es)
  obtain s1 o1 where f: "px_step decode s e = (s1, o1)" by force
  with px_step_conserves[OF Cons.prems, of decode e] have c: "px_conserves s (s1, o1)" by simp
  then have "px_conserves s1 (run_steps (px_step decode) s1 es)" using Cons.IH by (simp add: px_conserves_def)
  with c f show ?case by (cases "run_steps (px_step decode) s1 es") (simp add: px_conserves_trans)
qed

lemma feed_messages_conserves: "px_inv s \<Longrightarrow> px_conserves s (feed_messages decode s fs)"
proof (induction decode s fs rule: feed_messages.induct)
  case (1 decode s)
  then show ?case by (simp add: px_conserves_def)
next
  case (2 decode s i p fs)
  obtain s1 o1 where f: "handle_proxy_message decode s i p = (s1, o1)" by force
  with handle_proxy_message_conserves[OF 2(2), of decode i p] have c: "px_conserves s (s1, o1)" by simp
  then have "px_conserves s1 (feed_messages decode s1 fs)" using 2(1) f by (simp add: px_conserves_def)
  with c f show ?case by (cases "feed_messages decode s1 fs") (simp add: px_conserves_trans)
qed

lemma link_step_conserves:
  "px_inv s \<Longrightarrow> px_conserves s (let ((r1, s1), out) = link_step decode (r, s) e in (s1, out))"
  using feed_messages_conserves px_step_conserves
  by (cases e) (auto simp: Let_def case_prod_beta px_conserves_def)

lemma link_run_conserves:
  "px_inv s \<Longrightarrow> px_conserves s (let ((r1, s1), out) = run_steps (link_step decode) (r, s) es in (s1, out))"
proof (induction es arbitrary: r s)
  case Nil
  then show ?case by (simp add: px_conserves_def)
next
  case (Cons e es)
  obtain r1 s1 o1 where f: "link_step decode (r, s) e = ((r1, s1), o1)" by (metis surj_pair)
  with link_step_conserves[OF Cons.prems, of decode r e] have c: "px_conserves s (s1, o1)" by simp
  obtain r2 s2 o2 where g: "run_steps (link_step decode) (r1, s1) es = ((r2, s2), o2)" by (metis surj_pair)
  have "px_inv s1" using c by (simp add: px_conserves_def)
  from Cons.IH[OF this, of r1] g have "px_conserves s1 (s2, o2)" by simp
  with c f g show ?case by (simp add: px_conserves_trans)
qed

subsection \<open>A lost connection\<close>

text \<open>Nothing sends or waits again once the socket is gone.\<close>

lemma px_socket_simps [simp]:
  "px_socket (upd_server v f s) = px_socket s" "px_socket (upd_stream t g s) = px_socket s"
  "px_socket (upd_info p h s) = px_socket s" "px_socket (px_wake s k r) = px_socket s"
  "px_socket (fst (data_from_client s t d)) = px_socket s"
  "px_socket (fst (stream_data_from_server s t d)) = px_socket s"
  by (simp_all add: px_upd_defs px_wake_def data_from_client_def stream_data_from_server_def Let_def)

lemma set_stream_id_socket [simp]: "px_socket (fst (set_stream_id s t i)) = px_socket s"
proof -
  have "px_socket (fst (init_stream_id s t i)) = px_socket s" for s
    by (simp add: init_stream_id_def Let_def case_prod_beta)
  moreover have "px_socket (fst (reset_stream_id s v i t)) = px_socket s" for v
    by (simp add: reset_stream_id_def Let_def)
  ultimately show ?thesis by (simp add: set_stream_id_def Let_def case_prod_beta)
qed

lemma allocate_ports_done_socket [simp]: "px_socket (allocate_ports_done s ps) = px_socket s"
  by (induction s ps rule: allocate_ports_done.induct) (simp_all add: Let_def)

lemma stop_finish_socket: "\<not> px_socket (fst (stop_finish s i))" "px_ctl (fst (stop_finish s i)) = px_ctl s"
proof -
  have "px_socket (fst (close_servers s vs)) = px_socket s" for s vs
    by (induction vs arbitrary: s) (simp_all add: server_close_def Let_def case_prod_beta)
  then show "\<not> px_socket (fst (stop_finish s i))" by (simp add: stop_finish_def case_prod_beta)
  have "px_ctl (s1\<lparr>px_clients := c\<rparr>) = px_ctl s1" "px_ctl (s1\<lparr>px_socket := b\<rparr>) = px_ctl s1"
    for s1 :: proxy and b c by (simp_all add: px_ctl_def)
  then show "px_ctl (fst (stop_finish s i)) = px_ctl s"
    by (simp add: stop_finish_def case_prod_beta del: close_servers_ctl)
      (metis close_servers_ctl(1))
qed

lemma run_cont_quiet:
  assumes "\<not> px_socket s"
  shows "\<not> px_socket (fst (run_cont s k r)) \<and> px_ctl (fst (run_cont s k r)) = px_ctl s"
proof (cases k)
  case (KAlloc i)
  with assms show ?thesis by (simp split: sum.split)
next
  case (KStart d q i p t v)
  have "px_socket (fst (start_stream_done s d q p t v r)) = px_socket s"
    by (auto simp: start_stream_done_def Let_def case_prod_beta split: sum.split px_data.split bool.split)
  with KStart assms start_stream_done_ctl[of s d q p t v r] show ?thesis by simp
next
  case (KStop i)
  with assms stop_finish_socket show ?thesis by (simp add: stop_half_close_def)
next
  case (KFinish i)
  with assms stop_finish_socket show ?thesis by simp
qed (use assms in \<open>auto simp: px_ctl_def\<close>)

lemma px_micros_quiet:
  "\<not> px_socket s \<Longrightarrow> length (px_micro s) = n \<Longrightarrow>
     (let s' = fst (run_steps (px_step decode) s (replicate n PxMicro)) in
      px_micro s' = [] \<and> px_pending s' = px_pending s \<and> px_stopping s' = px_stopping s)"
proof (induction n arbitrary: s)
  case (Suc n)
  then obtain k r rest where m: "px_micro s = (k, r) # rest" by (cases "px_micro s") auto
  let ?s = "s\<lparr>px_micro := rest\<rparr>"
  define s1 where "s1 = fst (run_cont ?s k r)"
  have q: "\<not> px_socket s1" "px_ctl s1 = px_ctl ?s"
    using run_cont_quiet[of ?s k r] Suc.prems by (simp_all add: s1_def)
  then have f: "px_micro s1 = rest" "px_pending s1 = px_pending s" "px_stopping s1 = px_stopping s"
    by (simp_all add: px_ctl_def)
  have st: "px_step decode s PxMicro = (s1, snd (run_cont ?s k r))"
    by (simp add: px_micro_step_def m s1_def)
  have "length (px_micro s1) = n" using f m Suc.prems by simp
  from Suc.IH[OF q(1) this] f st show ?case by (simp add: Let_def case_prod_beta)
qed simp

subsection \<open>The bytes of one stream\<close>

datatype stream_op = FromClient bytes | FromServer bytes

fun stream_step :: "nat \<Rightarrow> proxy \<Rightarrow> stream_op \<Rightarrow> proxy \<times> px_out list" where
  "stream_step t s (FromClient d) = data_from_client s t d"
| "stream_step t s (FromServer d) = stream_data_from_server s t d"

fun client_bytes :: "stream_op list \<Rightarrow> bytes" where
  "client_bytes [] = []"
| "client_bytes (FromClient d # es) = d @ client_bytes es"
| "client_bytes (FromServer d # es) = client_bytes es"

fun server_bytes :: "stream_op list \<Rightarrow> bytes" where
  "server_bytes [] = []"
| "server_bytes (FromClient d # es) = server_bytes es"
| "server_bytes (FromServer d # es) = d @ server_bytes es"

text \<open>What reaches the proxy under number \<open>i\<close>, and what reaches the local client \<open>t\<close>.\<close>

fun sent_bytes :: "int \<Rightarrow> px_out list \<Rightarrow> bytes" where
  "sent_bytes i [] = []"
| "sent_bytes i (x # out) = (case x of SendData j d \<Rightarrow> if j = i then d else [] | _ \<Rightarrow> []) @ sent_bytes i out"

fun got_bytes :: "nat \<Rightarrow> px_out list \<Rightarrow> bytes" where
  "got_bytes t [] = []"
| "got_bytes t (x # out) = (case x of ToClient u d \<Rightarrow> if u = t then d else [] | _ \<Rightarrow> []) @ got_bytes t out"

lemma sent_got_append [simp]:
  "sent_bytes i (xs @ ys) = sent_bytes i xs @ sent_bytes i ys"
  "got_bytes t (xs @ ys) = got_bytes t xs @ got_bytes t ys"
  by (induction xs) simp_all

lemma stream_waiting:
  assumes "t < length (px_streams s)" "px_streams s ! t = st" "st_id st < 0"
  shows "\<exists>s'. run_steps (stream_step t) s es = (s', []) \<and> px_socket s' = px_socket s \<and>
    px_servers s' = px_servers s \<and> length (px_streams s') = length (px_streams s) \<and>
    px_streams s' ! t = st\<lparr>st_to := st_to st @ client_bytes es, st_from := st_from st @ server_bytes es\<rparr>"
  using assms
proof (induction es arbitrary: s st)
  case (Cons e es)
  obtain s1 st1 where s1: "stream_step t s e = (s1, [])" "px_socket s1 = px_socket s"
      "px_servers s1 = px_servers s" "length (px_streams s1) = length (px_streams s)" "px_streams s1 ! t = st1"
    and st1: "st1 = st\<lparr>st_to := st_to st @ client_bytes [e], st_from := st_from st @ server_bytes [e]\<rparr>"
    using Cons.prems
    by (cases e) (simp_all add: data_from_client_def stream_data_from_server_def Let_def px_upd_defs)
  have "t < length (px_streams s1)" "st_id st1 < 0" using s1 st1 Cons.prems by simp_all
  from Cons.IH[OF this(1) s1(5) this(2)] obtain s' where "run_steps (stream_step t) s1 es = (s', [])"
    "px_socket s' = px_socket s1" "px_servers s' = px_servers s1" "length (px_streams s') = length (px_streams s1)"
    "px_streams s' ! t = st1\<lparr>st_to := st_to st1 @ client_bytes es, st_from := st_from st1 @ server_bytes es\<rparr>" by blast
  with s1 st1 show ?case by (cases e) auto
qed simp

lemma stream_open:
  assumes "t < length (px_streams s)" "st_id (px_streams s ! t) = i" "0 \<le> i" "px_socket s"
  shows "\<exists>s' out. run_steps (stream_step t) s es = (s', out) \<and>
    sent_bytes i out = client_bytes es \<and> got_bytes t out = server_bytes es"
  using assms
proof (induction es arbitrary: s)
  case (Cons e es)
  obtain s1 o1 where s1: "stream_step t s e = (s1, o1)" "px_socket s1" "t < length (px_streams s1)"
      "st_id (px_streams s1 ! t) = i" "sent_bytes i o1 = client_bytes [e]" "got_bytes t o1 = server_bytes [e]"
    using Cons.prems
    by (cases e) (simp_all add: data_from_client_def stream_data_from_server_def Let_def px_upd_defs)
  from Cons.IH[OF s1(3,4) Cons.prems(3) s1(2)] obtain s' o2 where
    "run_steps (stream_step t) s1 es = (s', o2)" "sent_bytes i o2 = client_bytes es" "got_bytes t o2 = server_bytes es"
    by blast
  with s1 show ?case by (cases e) simp_all
qed simp

lemma set_stream_id_flushes:
  assumes t: "t < length (px_streams s)" and st: "px_streams s ! t = st" "st_id st < 0" and i: "0 \<le> i"
    and free: "map_of (rs_by_id (px_servers s ! st_server st)) i = None" and sock: "px_socket s"
  shows "\<exists>s' out. set_stream_id s t i = (s', out) \<and> sent_bytes i out = st_to st \<and> got_bytes t out = st_from st \<and>
    t < length (px_streams s') \<and> st_id (px_streams s' ! t) = i \<and> px_socket s'"
proof -
  have ne: "st_id st \<noteq> i" using st(2) i by auto
  define s2 where "s2 = fst (reset_stream_id s (st_server st) i t)"
  have r: "reset_stream_id s (st_server st) i t = (s2, [])"
    using free ne st by (simp add: reset_stream_id_def s2_def Let_def)
  have s2: "px_socket s2" "length (px_streams s2) = length (px_streams s)" "px_streams s2 ! t = st\<lparr>st_id := i\<rparr>"
    using free ne st sock t by (simp_all add: s2_def reset_stream_id_def Let_def px_upd_defs)
  have "\<exists>s' out. init_stream_id s2 t i = (s', out) \<and> sent_bytes i out = st_to st \<and> got_bytes t out = st_from st \<and>
    t < length (px_streams s') \<and> st_id (px_streams s' ! t) = i \<and> px_socket s'"
    using s2 t i
    by (auto simp: init_stream_id_def Let_def data_from_client_def stream_data_from_server_def px_upd_defs)
  with r st ne i show ?thesis by (auto simp: set_stream_id_def Let_def)
qed

subsection \<open>Properties\<close>

text \<open>
  C8: Every promise of a control command is settled exactly once or still waiting, on any run:
  answers, errors, timeouts, a dropped socket, \<open>stop\<close> and port allocation in any order, and
  whatever the proxy sends.
\<close>

theorem proxy_promises_accounted:
  "let ((r, s), out) = run_steps (link_step decode) (rx_init, px_init) es
   in px_settled out + px_live s = mset [0..<px_next s]"
  using link_run_conserves[of px_init decode rx_init es] by (simp add: px_conserves_def case_prod_beta)

text \<open>
  C9: A dropped connection leaves no caller waiting: once the socket has closed and the queued
  continuations have run, every promise handed out before has been settled, each exactly once.
\<close>

theorem dropped_socket_settles_all:
  "let s = fst (run_steps (px_step decode) px_init (es @ [PxSocketClosed]));
       micros = replicate (length (px_micro s)) PxMicro;
       (s', out) = run_steps (px_step decode) px_init (es @ [PxSocketClosed] @ micros)
   in px_settled out = mset [0..<px_next s']"
proof -
  define s where "s = fst (run_steps (px_step decode) px_init (es @ [PxSocketClosed]))"
  define s0 where "s0 = fst (run_steps (px_step decode) px_init es)"
  have s: "s = fst (px_socket_close s0)" by (simp add: s_def s0_def run_steps_append case_prod_beta)
  have q: "\<not> px_socket s" "px_pending s = []" "px_stopping s = []"
    by (simp_all add: s px_socket_close_def fail_pending_commands_def Let_def wake_all_live)
  let ?m = "replicate (length (px_micro s)) PxMicro"
  obtain s' out where r: "run_steps (px_step decode) px_init (es @ [PxSocketClosed] @ ?m) = (s', out)" by force
  have "fst (run_steps (px_step decode) px_init (xs @ ys)) =
      fst (run_steps (px_step decode) (fst (run_steps (px_step decode) px_init xs)) ys)" for xs ys
    by (simp add: run_steps_append case_prod_beta)
  from this[of "es @ [PxSocketClosed]" ?m] r have "s' = fst (run_steps (px_step decode) s ?m)"
    by (simp add: s_def)
  with px_micros_quiet[OF q(1) refl, of decode] q have "px_live s' = {#}"
    by (simp add: Let_def px_live_def)
  with px_run_conserves[of px_init decode "es @ [PxSocketClosed] @ ?m"] r show ?thesis
    by (simp add: px_conserves_def s_def[symmetric] Let_def)
qed

text \<open>
  C10: Forwarding keeps every byte in order in both directions. A connection that waits for its
  stream number buffers what the client and the proxy send; when the number arrives the buffers
  are flushed first, so the proxy gets exactly the client's bytes under that number and the client
  exactly the proxy's bytes, each in the order sent.
\<close>

theorem stream_bytes_in_order:
  assumes "t < length (px_streams s)" "px_streams s ! t = \<lparr>st_id = -1, st_server = v, st_from = [], st_to = []\<rparr>"
    and "map_of (rs_by_id (px_servers s ! v)) i = None" "0 \<le> i" "px_socket s"
  shows "let (s1, out1) = run_steps (stream_step t) s before; (s2, out2) = set_stream_id s1 t i;
             (s3, out3) = run_steps (stream_step t) s2 after
         in sent_bytes i (out1 @ out2 @ out3) = client_bytes (before @ after) \<and>
            got_bytes t (out1 @ out2 @ out3) = server_bytes (before @ after)"
proof -
  have app: "client_bytes (xs @ ys) = client_bytes xs @ client_bytes ys"
    "server_bytes (xs @ ys) = server_bytes xs @ server_bytes ys" for xs ys
  proof -
    show "client_bytes (xs @ ys) = client_bytes xs @ client_bytes ys"
      by (induction xs rule: client_bytes.induct) simp_all
    show "server_bytes (xs @ ys) = server_bytes xs @ server_bytes ys"
      by (induction xs rule: server_bytes.induct) simp_all
  qed
  from stream_waiting[OF assms(1,2), of before] obtain s1 where 1: "run_steps (stream_step t) s before = (s1, [])"
      "px_socket s1" "px_servers s1 = px_servers s" "t < length (px_streams s1)"
      "px_streams s1 ! t = \<lparr>st_id = -1, st_server = v, st_from = server_bytes before, st_to = client_bytes before\<rparr>"
    using assms by auto
  from set_stream_id_flushes[OF 1(4,5) _ assms(4)] 1 assms(3) obtain s2 out2 where 2:
      "set_stream_id s1 t i = (s2, out2)" "sent_bytes i out2 = client_bytes before"
      "got_bytes t out2 = server_bytes before" "t < length (px_streams s2)" "st_id (px_streams s2 ! t) = i" "px_socket s2"
    by auto
  from stream_open[OF 2(4,5) assms(4) 2(6), of after] obtain s3 out3 where
      "run_steps (stream_step t) s2 after = (s3, out3)" "sent_bytes i out3 = client_bytes after"
      "got_bytes t out3 = server_bytes after" by blast
  with 1 2 show ?thesis by (simp add: app)
qed

definition demo_decode :: "bytes \<Rightarrow> px_msg" where
  "demo_decode p =
     (if p = [1] then MResponse 1 True [] (DPorts [(9, 7, ''gdb'')])
      else if p = [2] then MStreamReady 7
      else if p = [3] then MResponse 2 True [] (DStatus True 7)
      else if p = [4] then MResponse 3 True [] (DStatus True 7)
      else MUnparsable)"

definition demo_setup :: "px_event list" where
  "demo_setup = [PxConnected, PxAllocate [(''gdb'', \<lparr>pd_local = 8, pd_remote = None\<rparr>)], PxFrame 0 [1],
     PxMicro, PxFrame 0 [2], PxMicro]"

theorem stream_bytes_in_order_witness:
  "let s = fst (run_steps (px_step demo_decode) px_init (demo_setup @ [PxClient 0]));
       (s1, out1) = run_steps (stream_step 0) s [FromClient [65], FromServer [1], FromClient [66]];
       (s2, out2) = set_stream_id s1 0 7; (s3, out3) = run_steps (stream_step 0) s2 [FromClient [67]]
   in sent_bytes 7 (out1 @ out2 @ out3) = [65, 66, 67]"
proof -
  define s where "s = fst (run_steps (px_step demo_decode) px_init (demo_setup @ [PxClient 0]))"
  have h: "0 < length (px_streams s)" "px_streams s ! 0 = \<lparr>st_id = -1, st_server = 0, st_from = [], st_to = []\<rparr>"
    "map_of (rs_by_id (px_servers s ! 0)) 7 = None" "px_socket s"
    unfolding s_def by code_simp+
  have z: "(0::int) \<le> 7" by simp
  show ?thesis
    using stream_bytes_in_order[OF h(1-3) z h(4), of "[FromClient [65], FromServer [1], FromClient [66]]" "[FromClient [67]]"]
    unfolding s_def[symmetric] Let_def by (simp add: case_prod_beta)
qed

text \<open>
  A client that disconnects while its stream is being started poisons the stream numbers of
  its server. The late answer removes the entry of the client that is waiting by then and enters
  the dead one, so the bytes of the stream go to a closed socket and the live client gets nothing.
\<close>

theorem late_start_steals_stream:
  "let (s, out) = run_steps (px_step demo_decode) px_init (demo_setup @
        [PxClient 0, PxClientClosed 0, PxClient 0, PxFrame 0 [3], PxMicro, PxFrame 0 [4], PxMicro,
         PxClientData 1 [65], PxFrame 7 [66]])
   in rs_sockets (px_servers s ! 0) = [1] \<and> sent_bytes 7 out = [65] \<and>
      got_bytes 0 out = [66] \<and> got_bytes 1 out = []"
  unfolding demo_setup_def by code_simp

end
