(* ===== verification/ItmDecoder.thy ===== *)
theory ItmDecoder
  imports RingBuffer
begin

unbundle bit_operations_syntax

text \<open>
  The decoder of the ARM ITM byte stream (\<open>ITMDecoder\<close> of
  \<open>packages/mcu-debug/src/common/swo/swo-core.ts\<close>) and the fixed-size packets of \<open>RTTDecoder\<close>.

  The six-byte synchronisation window is a \<open>RingBuffer\<close> of the package \<open>ring-buffer-ts\<close>, whose code
  is not in the repository: its \<open>add\<close> and \<open>toArray\<close> are arguments of the definitions, and the
  lemmas assume of them what that package documents, the laws of \<open>replay_log\<close>: a bounded log that
  holds the most recent elements added.
\<close>

subsection \<open>ITM\<close>

datatype itm_status = IDLE | UNSYNCED | TIMESTAMP | HARDWARE_EVENT | SOFTWARE_EVENT | RESERVED

datatype packet_type = PHardware | PSoftware | PTimestamp

record packet =
  pk_type :: packet_type
  pk_port :: int
  pk_size :: nat
  pk_data :: bytes

datatype itm_event = Synchronized | Overflow | LostSynchronization
  | TimestampEvent packet | SoftwareEvent packet | HardwareEvent packet

record 'r itm =
  itm_sync :: 'r
  itm_status :: itm_status
  itm_count :: nat
  itm_buffer :: bytes
  itm_port :: int
  itm_target :: nat
  itm_type :: packet_type

definition itm_new :: "('r \<Rightarrow> byte \<Rightarrow> 'r) \<Rightarrow> 'r \<Rightarrow> 'r itm" where
  "itm_new add ring6 =
     \<lparr>itm_sync = foldl add ring6 [0xff, 0xff, 0xff, 0xff, 0xff, 0xff], itm_status = IDLE,
      itm_count = 0, itm_buffer = replicate 100 0, itm_port = -1, itm_target = 0,
      itm_type = PSoftware\<rparr>"

definition reset_rx_packet :: "'r itm \<Rightarrow> int \<Rightarrow> nat \<Rightarrow> packet_type \<Rightarrow> 'r itm" where
  "reset_rx_packet s port len type =
     s\<lparr>itm_buffer := replicate len 0, itm_target := len, itm_type := type, itm_port := port,
       itm_count := 0\<rparr>"

definition rx_write_byte :: "'r itm \<Rightarrow> byte \<Rightarrow> 'r itm \<times> bool" where
  "rx_write_byte s b =
     (let s1 = (if itm_count s < length (itm_buffer s)
                then s\<lparr>itm_buffer := (itm_buffer s)[itm_count s := b], itm_count := itm_count s + 1\<rparr>
                else s)
      in (s1, itm_count s1 = itm_target s1))"

definition get_rx_packet :: "'r itm \<Rightarrow> packet" where
  "get_rx_packet s =
     \<lparr>pk_type = itm_type s, pk_port = itm_port s, pk_size = itm_count s, pk_data = itm_buffer s\<rparr>"

definition sync_pattern :: "bytes \<Rightarrow> bool" where
  "sync_pattern bs = (6 \<le> length bs \<and> bs ! 5 = 0x80 \<and> bs ! 4 = 0 \<and> bs ! 3 = 0 \<and> bs ! 2 = 0 \<and>
     bs ! 1 = 0 \<and> bs ! 0 = 0)"

definition check_sync ::
    "('r \<Rightarrow> byte \<Rightarrow> 'r) \<Rightarrow> ('r \<Rightarrow> bytes) \<Rightarrow> 'r itm \<Rightarrow> byte \<Rightarrow> 'r itm \<times> bool" where
  "check_sync add to_array s b =
     (let s1 = s\<lparr>itm_sync := add (itm_sync s) b\<rparr> in (s1, sync_pattern (to_array (itm_sync s1))))"

text \<open>The \<open>switch\<close> on the status: new status, state and events.\<close>

definition idle_byte :: "'r itm \<Rightarrow> byte \<Rightarrow> 'r itm \<times> itm_status \<times> itm_event list" where
  "idle_byte s b =
     (if b = 0 then (s, IDLE, [])
      else if b = 0x70 then (s, IDLE, [Overflow])
      else if b AND 0x0f = 0 then
        let (s1, _) = rx_write_byte (reset_rx_packet s (-1) 5 PTimestamp) b in
        if b AND 0x80 \<noteq> 0 then (s1, TIMESTAMP, []) else (s1, IDLE, [TimestampEvent (get_rx_packet s1)])
      else if b AND 3 \<noteq> 0 then
        let count = (if b AND 3 = 3 then 4 else unat (b AND 3));
            port = int (unat (drop_bit 3 (b AND 0xf8)))
        in if b AND 4 \<noteq> 0 then (reset_rx_packet s port count PHardware, HARDWARE_EVENT, [])
           else (reset_rx_packet s port count PSoftware, SOFTWARE_EVENT, [])
      else (s, RESERVED, [LostSynchronization]))"

definition status_byte :: "'r itm \<Rightarrow> byte \<Rightarrow> 'r itm \<times> itm_status \<times> itm_event list" where
  "status_byte s b =
     (case itm_status s of
        IDLE \<Rightarrow> idle_byte s b
      | TIMESTAMP \<Rightarrow>
          (let (s1, receivedMax) = rx_write_byte s b in
           if b AND 0x80 = 0 then (s1, IDLE, [TimestampEvent (get_rx_packet s1)])
           else if receivedMax then (s1, IDLE, []) else (s1, TIMESTAMP, []))
      | UNSYNCED \<Rightarrow> (s, UNSYNCED, [])
      | SOFTWARE_EVENT \<Rightarrow>
          (let (s1, full) = rx_write_byte s b in
           if full then (s1, IDLE, [SoftwareEvent (get_rx_packet s1)]) else (s1, SOFTWARE_EVENT, []))
      | HARDWARE_EVENT \<Rightarrow>
          (let (s1, full) = rx_write_byte s b in
           if full then (s1, IDLE, [HardwareEvent (get_rx_packet s1)]) else (s1, HARDWARE_EVENT, []))
      | RESERVED \<Rightarrow> (s, if b AND 0x80 = 0 then IDLE else RESERVED, []))"

definition process_byte ::
    "('r \<Rightarrow> byte \<Rightarrow> 'r) \<Rightarrow> ('r \<Rightarrow> bytes) \<Rightarrow> 'r itm \<Rightarrow> byte \<Rightarrow> 'r itm \<times> itm_event list" where
  "process_byte add to_array s b =
     (let (s1, synced) = check_sync add to_array s b in
      if synced then (s1\<lparr>itm_status := IDLE\<rparr>, [Synchronized])
      else (let (s2, newStatus, out) = status_byte s1 b in (s2\<lparr>itm_status := newStatus\<rparr>, out)))"

text \<open>\<open>SWOCore.handleData\<close>.\<close>

definition handle_swo_data ::
    "('r \<Rightarrow> byte \<Rightarrow> 'r) \<Rightarrow> ('r \<Rightarrow> bytes) \<Rightarrow> 'r itm \<Rightarrow> bytes \<Rightarrow> 'r itm \<times> itm_event list" where
  "handle_swo_data add to_array = run_steps (process_byte add to_array)"

subsection \<open>What the hardware sends\<close>

text \<open>Source packets of the ITM protocol: one header byte, and one, two or four bytes of payload.\<close>

definition itm_packet :: "bool \<Rightarrow> nat \<Rightarrow> bytes \<Rightarrow> bytes" where
  "itm_packet hw port data =
     of_nat (8 * port + (if hw then 4 else 0) + (if length data = 4 then 3 else length data)) # data"

definition packet_ok :: "bool \<times> nat \<times> bytes \<Rightarrow> bool" where
  "packet_ok p = (case p of (hw, port, data) \<Rightarrow> port < 32 \<and> length data \<in> {1, 2, 4})"

definition packet_event :: "bool \<times> nat \<times> bytes \<Rightarrow> itm_event" where
  "packet_event p = (case p of (hw, port, data) \<Rightarrow>
     (let pk = \<lparr>pk_type = (if hw then PHardware else PSoftware), pk_port = int port,
                pk_size = length data, pk_data = data\<rparr>
      in if hw then HardwareEvent pk else SoftwareEvent pk))"

abbreviation sync_packet :: bytes where
  "sync_packet \<equiv> [0, 0, 0, 0, 0, 0x80]"

lemma header_bits:
  fixes hw :: bool
  assumes "port < 32" "c \<in> {1, 2, 3 :: nat}"
  defines "h \<equiv> (of_nat (8 * port + (if hw then 4 else 0) + c) :: byte)"
  shows "h AND 3 = of_nat c" "h AND 4 \<noteq> 0 \<longleftrightarrow> hw" "unat (drop_bit 3 (h AND 0xf8)) = port"
    "h AND 0x0f \<noteq> 0" "h \<noteq> 0" "h \<noteq> 0x70"
proof -
  have "list_all (\<lambda>port. list_all (\<lambda>c. list_all (\<lambda>hw.
      let h = (of_nat (8 * port + (if hw then 4 else 0) + c) :: byte) in
      h AND 3 = of_nat c \<and> (h AND 4 \<noteq> 0 \<longleftrightarrow> hw) \<and> unat (drop_bit 3 (h AND 0xf8)) = port \<and>
      h AND 0x0f \<noteq> 0 \<and> h \<noteq> 0 \<and> h \<noteq> 0x70) [True, False]) [1, 2, 3]) [0..<32]"
    by code_simp
  moreover have "port \<in> set [0..<32]" "c \<in> set [1, 2, 3]" "hw \<in> set [True, False]" using assms by auto
  ultimately show "h AND 3 = of_nat c" "h AND 4 \<noteq> 0 \<longleftrightarrow> hw" "unat (drop_bit 3 (h AND 0xf8)) = port"
    "h AND 0x0f \<noteq> 0" "h \<noteq> 0" "h \<noteq> 0x70"
    unfolding h_def list_all_iff Let_def by blast+
qed

subsection \<open>Bytes inside a packet\<close>

lemma rx_write_fits:
  "itm_buffer s = pre @ x # post \<Longrightarrow> itm_count s = length pre \<Longrightarrow>
     rx_write_byte s b = (s\<lparr>itm_buffer := pre @ b # post, itm_count := length pre + 1\<rparr>,
       length pre + 1 = itm_target s)"
  by (simp add: rx_write_byte_def Let_def)

text \<open>The decoder is a client of the bounded log: its window is a log of bytes.\<close>

locale sync_window = replay_log log_inv log_write log_contents log_cap
  for log_inv :: "'s \<Rightarrow> bool" and log_write :: "'s \<Rightarrow> byte \<Rightarrow> 's"
    and log_contents :: "'s \<Rightarrow> bytes" and log_cap :: "'s \<Rightarrow> nat"
begin

text \<open>A window of capacity six that has seen \<open>recent\<close> last.\<close>

definition window :: "'s \<Rightarrow> bytes \<Rightarrow> bool" where
  "window r recent \<longleftrightarrow> log_inv r \<and> log_cap r = 6 \<and> (\<exists>old. log_contents r = last_n 6 (old @ recent))"

lemma window_write: "window r recent \<Longrightarrow> window (log_write r b) (recent @ [b])"
  unfolding window_def
  by (metis append.assoc last_n_last_n_append log_cap_write log_contents_write log_inv_write)

lemma window_any: "log_inv r \<Longrightarrow> log_cap r = 6 \<Longrightarrow> window r []"
  unfolding window_def using log_contents_bound by (metis append_Nil2 last_n_short)

lemma window_shorter: "window r (xs @ ys) \<Longrightarrow> window r ys"
  unfolding window_def by (metis append.assoc)

lemma sync_pattern_last: "sync_pattern (last_n 6 (xs @ bs)) \<longleftrightarrow> bs = sync_packet" if "length bs = 6"
proof -
  have "\<exists>a b c d e f. bs = [a, b, c, d, e, f]"
    using that by (simp add: numeral_eq_Suc length_Suc_conv) blast
  then obtain a b c d e f where bs: "bs = [a, b, c, d, e, f]" by blast
  have "last_n 6 (xs @ bs) = bs" using that by (simp add: last_n_def)
  then show ?thesis by (auto simp: bs sync_pattern_def numeral_eq_Suc)
qed

text \<open>A nonzero byte among the last five excludes a synchronisation packet.\<close>

lemma no_sync:
  assumes w: "window r (pre @ x # post)" and x: "x \<noteq> 0" and l: "length post \<le> 4"
  shows "\<not> sync_pattern (log_contents (log_write r b))"
proof
  assume s: "sync_pattern (log_contents (log_write r b))"
  obtain old where c: "log_contents (log_write r b) = last_n 6 (old @ pre @ x # post @ [b])"
    using window_write[OF w, of b] by (auto simp: window_def)
  define p where "p = old @ pre"
  let ?xs = "p @ x # post @ [b]"
  have c': "log_contents (log_write r b) = last_n 6 ?xs" using c by (simp add: p_def)
  then have six: "length (last_n 6 ?xs) = 6" using s by (simp add: sync_pattern_def)
  then have "last_n 6 ?xs = sync_packet"
    using sync_pattern_last[OF six, of "[]"] s c' by (simp add: last_n_short)
  moreover define j where "j = length p + 6 - length ?xs"
  have n: "6 \<le> length ?xs" using six by simp
  then have "j \<le> 4" "length ?xs - 6 + j = length p" using l by (simp_all add: j_def)
  then have "last_n 6 ?xs ! j = ?xs ! length p" using n by (simp only: last_n_def nth_drop)
  then have "last_n 6 ?xs ! j = x" by simp
  ultimately have "sync_packet ! j = x" by simp
  moreover have "j = 0 \<or> j = 1 \<or> j = 2 \<or> j = 3 \<or> j = 4" using \<open>j \<le> 4\<close> by linarith
  ultimately show False using x by (auto simp: numeral_eq_Suc)
qed

lemma sync_completes: "window r [0, 0, 0, 0, 0] \<Longrightarrow> sync_pattern (log_contents (log_write r 0x80))"
  using window_write[of r "[0, 0, 0, 0, 0]" "0x80"] sync_pattern_last[of sync_packet]
  by (auto simp: window_def)

text \<open>A window in which no synchronisation packet can end with the next byte.\<close>

definition clean :: "'s \<Rightarrow> bool" where
  "clean r \<longleftrightarrow> (\<exists>pre x post. window r (pre @ x # post) \<and> x \<noteq> 0 \<and> length post \<le> 4)"

abbreviation pbyte where
  "pbyte \<equiv> process_byte log_write log_contents"

lemma pbyte_clean:
  "clean (itm_sync s) \<Longrightarrow>
     pbyte s b = (let (s2, newStatus, out) = status_byte (s\<lparr>itm_sync := log_write (itm_sync s) b\<rparr>) b
                  in (s2\<lparr>itm_status := newStatus\<rparr>, out))"
  using no_sync unfolding clean_def
  by (auto simp: process_byte_def check_sync_def Let_def split: prod.split)

lemma header_step:
  fixes hw :: bool
  assumes c: "clean (itm_sync s)" and st: "itm_status s = IDLE"
    and p: "port < 32" "length data \<in> {1, 2, 4}"
  defines "h \<equiv> (of_nat (8 * port + (if hw then 4 else 0) + (if length data = 4 then 3 else length data)) :: byte)"
  shows "pbyte s h =
    (s\<lparr>itm_sync := log_write (itm_sync s) h, itm_status := (if hw then HARDWARE_EVENT else SOFTWARE_EVENT),
       itm_count := 0, itm_buffer := replicate (length data) 0, itm_port := int port,
       itm_target := length data, itm_type := (if hw then PHardware else PSoftware)\<rparr>, [])"
    "h \<noteq> 0" "window (log_write (itm_sync s) h) [h]"
proof -
  let ?c = "if length data = 4 then 3 else length data"
  have cc: "?c \<in> {1, 2, 3}" using p(2) by auto
  note hb = header_bits[OF p(1) cc, of hw, folded h_def]
  show "h \<noteq> 0" by (rule hb)
  obtain pre where "window (itm_sync s) (pre @ [])" using c by (auto simp: clean_def)
  then show "window (log_write (itm_sync s) h) [h]" using window_write window_shorter by (metis append_Nil)
  have cnt: "(if h AND 3 = 3 then 4 else unat (h AND 3)) = length data"
    unfolding hb(1) using p(2) by auto
  have nz: "h AND 3 \<noteq> 0" unfolding hb(1) using cc by auto
  show "pbyte s h =
    (s\<lparr>itm_sync := log_write (itm_sync s) h, itm_status := (if hw then HARDWARE_EVENT else SOFTWARE_EVENT),
       itm_count := 0, itm_buffer := replicate (length data) 0, itm_port := int port,
       itm_target := length data, itm_type := (if hw then PHardware else PSoftware)\<rparr>, [])"
    using hb(2-6) nz st
    by (cases hw) (simp_all add: pbyte_clean[OF c] status_byte_def idle_byte_def cnt reset_rx_packet_def Let_def)
qed

lemma payload_steps:
  assumes "itm_status s = (if hw then HARDWARE_EVENT else SOFTWARE_EVENT)"
    and "itm_buffer s = pre @ replicate (length rest) 0" "itm_count s = length pre"
    and "itm_target s = length pre + length rest" "window (itm_sync s) (h # pre)" "h \<noteq> 0"
    and "length pre + length rest \<le> 4" "rest \<noteq> []" "itm_type s = (if hw then PHardware else PSoftware)"
    and "0 \<le> itm_port s"
  shows "\<exists>s'. run_steps pbyte s rest = (s', [packet_event (hw, nat (itm_port s), pre @ rest)]) \<and>
    itm_status s' = IDLE \<and> clean (itm_sync s')"
  using assms
proof (induction rest arbitrary: s pre)
  case (Cons b rest)
  have c: "clean (itm_sync s)"
    using Cons.prems(5,6,7) unfolding clean_def by (intro exI[of _ "[]"] exI[of _ h] exI[of _ pre]) simp
  let ?s = "s\<lparr>itm_sync := log_write (itm_sync s) b\<rparr>"
  let ?s1 = "?s\<lparr>itm_buffer := pre @ b # replicate (length rest) 0, itm_count := length pre + 1\<rparr>"
  have w: "rx_write_byte ?s b = (?s1, rest = [])"
    using Cons.prems(2,3,4) rx_write_fits[of ?s pre 0 "replicate (length rest) 0" b] by simp
  have win: "window (log_write (itm_sync s) b) (h # pre @ [b])"
    using window_write[OF Cons.prems(5), of b] by simp
  have step: "pbyte s b = (?s1\<lparr>itm_status := (if rest = [] then IDLE else itm_status s)\<rparr>,
      if rest = [] then [if hw then HardwareEvent (get_rx_packet ?s1) else SoftwareEvent (get_rx_packet ?s1)] else [])"
    using Cons.prems(1) w by (cases hw) (simp_all add: pbyte_clean[OF c] status_byte_def)
  show ?case
  proof (cases "rest = []")
    case True
    have "clean (log_write (itm_sync s) b)"
      using win Cons.prems(6,7) unfolding clean_def
      by (intro exI[of _ "[]"] exI[of _ h] exI[of _ "pre @ [b]"]) simp
    with step True Cons.prems show ?thesis
      by (simp add: packet_event_def get_rx_packet_def Let_def)
  next
    case False
    let ?t = "?s1\<lparr>itm_status := itm_status s\<rparr>"
    have "\<exists>s'. run_steps pbyte ?t rest = (s', [packet_event (hw, nat (itm_port ?t), (pre @ [b]) @ rest)]) \<and>
      itm_status s' = IDLE \<and> clean (itm_sync s')"
      using Cons.prems win False by (intro Cons.IH) simp_all
    with step False show ?thesis by auto
  qed
qed simp

lemma packet_steps:
  assumes "clean (itm_sync s)" "itm_status s = IDLE" "packet_ok (hw, port, data)"
  shows "\<exists>s'. run_steps pbyte s (itm_packet hw port data) = (s', [packet_event (hw, port, data)]) \<and>
    itm_status s' = IDLE \<and> clean (itm_sync s')"
proof -
  have p: "port < 32" "length data \<in> {1, 2, 4}" using assms(3) by (auto simp: packet_ok_def)
  note h = header_step[OF assms(1,2) p, of hw]
  let ?h = "of_nat (8 * port + (if hw then 4 else 0) + (if length data = 4 then 3 else length data)) :: byte"
  define s1 where "s1 = fst (pbyte s ?h)"
  have s1: "pbyte s ?h = (s1, [])" "itm_status s1 = (if hw then HARDWARE_EVENT else SOFTWARE_EVENT)"
    "itm_buffer s1 = [] @ replicate (length data) 0" "itm_count s1 = length ([] :: bytes)"
    "itm_target s1 = length ([] :: bytes) + length data" "window (itm_sync s1) (?h # [])" "itm_port s1 = int port"
    "itm_type s1 = (if hw then PHardware else PSoftware)"
    using h by (simp_all add: s1_def)
  have "length ([] :: bytes) + length data \<le> 4" "data \<noteq> []" using p(2) by auto
  from payload_steps[OF s1(2-6) h(2) this s1(8)] s1(1,7) show ?thesis
    by (auto simp: itm_packet_def)
qed

lemma packets_steps:
  assumes "clean (itm_sync s)" "itm_status s = IDLE" "list_all packet_ok ps"
  shows "\<exists>s'. run_steps pbyte s (concat (map (\<lambda>(hw, port, data). itm_packet hw port data) ps)) =
      (s', map packet_event ps) \<and> itm_status s' = IDLE \<and> clean (itm_sync s')"
  using assms
proof (induction ps arbitrary: s)
  case (Cons p ps)
  obtain hw port data where p: "p = (hw, port, data)" by (metis surj_pair)
  with Cons.prems have ok: "packet_ok (hw, port, data)" "list_all packet_ok ps" by simp_all
  obtain s1 where 1: "run_steps pbyte s (itm_packet hw port data) = (s1, [packet_event (hw, port, data)])"
    "itm_status s1 = IDLE" "clean (itm_sync s1)"
    using packet_steps[OF Cons.prems(1,2) ok(1)] by blast
  obtain s2 where "run_steps pbyte s1 (concat (map (\<lambda>(hw, port, data). itm_packet hw port data) ps)) =
      (s2, map packet_event ps)" "itm_status s2 = IDLE" "clean (itm_sync s2)"
    using Cons.IH[OF 1(3,2) ok(2)] by blast
  with 1 p show ?case by (simp add: run_steps_append)
qed simp

lemma clean_write: "window r recent \<Longrightarrow> b \<noteq> 0 \<Longrightarrow> clean (log_write r b)"
  unfolding clean_def using window_write[of r recent b] by (intro exI[of _ recent] exI[of _ b] exI[of _ "[]"]) simp

lemma window_run: "window (itm_sync s) recent \<Longrightarrow> window (itm_sync (fst (run_steps pbyte s bs))) (recent @ bs)"
proof (induction bs arbitrary: s recent)
  case (Cons b bs)
  have "itm_sync (fst (status_byte t b)) = itm_sync t" for t :: "'s itm"
    by (auto simp: status_byte_def idle_byte_def rx_write_byte_def reset_rx_packet_def Let_def
        split: itm_status.split prod.split)
  then have "itm_sync (fst (pbyte s b)) = log_write (itm_sync s) b"
    by (simp add: process_byte_def check_sync_def Let_def case_prod_beta)
  then have "window (itm_sync (fst (pbyte s b))) (recent @ [b])" using window_write[OF Cons.prems] by simp
  from Cons.IH[OF this] show ?case by (simp add: case_prod_beta)
qed simp

lemma resync:
  assumes "log_inv (itm_sync s)" "log_cap (itm_sync s) = 6"
  shows "\<exists>s' pre. run_steps pbyte s sync_packet = (s', pre @ [Synchronized]) \<and>
    itm_status s' = IDLE \<and> clean (itm_sync s')"
proof -
  have w: "window (itm_sync s) []" using assms by (rule window_any)
  obtain s1 o1 where 1: "run_steps pbyte s [0, 0, 0, 0, 0] = (s1, o1)" by force
  with window_run[OF w, of "[0, 0, 0, 0, 0]"] have w1: "window (itm_sync s1) [0, 0, 0, 0, 0]" by simp
  have two: "pbyte s1 0x80 = (s1\<lparr>itm_sync := log_write (itm_sync s1) 0x80, itm_status := IDLE\<rparr>, [Synchronized])"
    using sync_completes[OF w1] by (simp add: process_byte_def check_sync_def Let_def)
  have "clean (log_write (itm_sync s1) 0x80)" by (rule clean_write[OF w1]) simp
  moreover have "run_steps pbyte s ([0, 0, 0, 0, 0] @ [0x80]) =
      (s1\<lparr>itm_sync := log_write (itm_sync s1) 0x80, itm_status := IDLE\<rparr>, o1 @ [Synchronized])"
    unfolding run_steps_append 1 using two by simp
  ultimately show ?thesis by (intro exI[of _ "s1\<lparr>itm_sync := log_write (itm_sync s1) 0x80, itm_status := IDLE\<rparr>"]) simp
qed

lemma new_clean:
  assumes "log_inv r" "log_cap r = 6"
  shows "clean (itm_sync (itm_new log_write r))" "itm_status (itm_new log_write r) = IDLE"
proof -
  have "window (foldl log_write r bs) bs" for bs
    using window_any[OF assms] window_write by (induction bs rule: rev_induct) auto
  then have "window (foldl log_write r [0xff, 0xff, 0xff, 0xff, 0xff]) [0xff, 0xff, 0xff, 0xff, 0xff]" .
  from clean_write[OF this, of "0xff"] show "clean (itm_sync (itm_new log_write r))"
    by (simp add: itm_new_def)
qed (simp add: itm_new_def)

end

interpretation ring_window: sync_window rb_inv rb_write rb_contents rb_cap
  by unfold_locales

interpretation swo: step_framer "\<lambda>_. True" "process_byte add to_array" for add to_array
  by unfold_locales simp

subsection \<open>RTT packets\<close>

text \<open>\<open>RTTDecoder\<close>: fixed-size packets of one channel, whatever the chunks.\<close>

record rtt =
  rd_buffer :: bytes
  rd_read :: nat
  rd_needed :: nat
  rd_port :: int

definition rtt_new :: "int \<Rightarrow> nat \<Rightarrow> rtt" where
  "rtt_new port bytesNeeded =
     \<lparr>rd_buffer = replicate bytesNeeded 0, rd_read = 0, rd_needed = bytesNeeded, rd_port = port\<rparr>"

definition rtt_byte :: "rtt \<Rightarrow> byte \<Rightarrow> rtt \<times> packet list" where
  "rtt_byte s elt =
     (let s1 = s\<lparr>rd_buffer := (rd_buffer s)[rd_read s := elt], rd_read := rd_read s + 1\<rparr> in
      if rd_read s1 = rd_needed s1
      then (s1\<lparr>rd_read := 0\<rparr>,
            [\<lparr>pk_type = PSoftware, pk_port = rd_port s1, pk_size = rd_read s1, pk_data = rd_buffer s1\<rparr>])
      else (s1, []))"

definition rtt_on_data :: "rtt \<Rightarrow> bytes \<Rightarrow> rtt \<times> packet list" where
  "rtt_on_data = run_steps rtt_byte"

definition rtt_inv :: "rtt \<Rightarrow> bool" where
  "rtt_inv s \<longleftrightarrow> rd_read s < rd_needed s \<and> length (rd_buffer s) = rd_needed s"

interpretation rtt: step_framer rtt_inv rtt_byte
  by unfold_locales (auto simp: rtt_inv_def rtt_byte_def Let_def)

text \<open>The specification: the data in blocks.\<close>

function blocks :: "nat \<Rightarrow> 'a list \<Rightarrow> 'a list list" where
  "blocks n xs = (if n = 0 \<or> length xs < n then [] else take n xs # blocks n (drop n xs))"
  by pat_completeness auto
termination
  by (relation "measure (\<lambda>(n, xs). length xs)") auto

declare blocks.simps [simp del]

lemma blocks_short: "length xs < n \<Longrightarrow> blocks n xs = []"
  by (subst blocks.simps) simp

lemma rtt_run:
  assumes "rtt_inv s"
  shows "snd (run_steps rtt_byte s data) =
    map (\<lambda>d. \<lparr>pk_type = PSoftware, pk_port = rd_port s, pk_size = rd_needed s, pk_data = d\<rparr>)
      (blocks (rd_needed s) (take (rd_read s) (rd_buffer s) @ data))"
  using assms
proof (induction data arbitrary: s)
  case Nil
  then show ?case by (simp add: blocks_short rtt_inv_def)
next
  case (Cons b data)
  let ?n = "rd_needed s" and ?c = "rd_read s"
  obtain s1 o1 where f: "rtt_byte s b = (s1, o1)" by force
  have inv: "rtt_inv s1" using rtt.invar_step[OF Cons.prems, of b] f by simp
  have c: "?c < ?n" "length (rd_buffer s) = ?n" using Cons.prems by (simp_all add: rtt_inv_def)
  then have t: "take (Suc ?c) ((rd_buffer s)[?c := b]) = take ?c (rd_buffer s) @ [b]"
    by (simp add: take_Suc_conv_app_nth)
  have sel: "rd_needed s1 = ?n" "rd_port s1 = rd_port s"
    using f by (auto simp: rtt_byte_def Let_def split: if_splits)
  show ?case
  proof (cases "Suc ?c = ?n")
    case True
    then have full: "(rd_buffer s)[?c := b] = take ?c (rd_buffer s) @ [b]" using t c by simp
    have s1: "rd_read s1 = 0" "o1 = [\<lparr>pk_type = PSoftware, pk_port = rd_port s, pk_size = ?n,
        pk_data = take ?c (rd_buffer s) @ [b]\<rparr>]"
      using f True full by (auto simp: rtt_byte_def Let_def)
    have l: "length (take ?c (rd_buffer s) @ [b]) = ?n" using True c by simp
    have "blocks (length y) (y @ ys) = y # blocks (length y) ys" if "y \<noteq> []" for y ys :: bytes
      using that by (subst blocks.simps) simp
    from this[of "take ?c (rd_buffer s) @ [b]" data]
    have "blocks ?n (take ?c (rd_buffer s) @ b # data) = (take ?c (rd_buffer s) @ [b]) # blocks ?n data"
      unfolding l by simp
    with Cons.IH[OF inv] f s1 sel show ?thesis by (simp add: case_prod_beta)
  next
    case False
    then have "rd_read s1 = Suc ?c" "rd_buffer s1 = (rd_buffer s)[?c := b]" "o1 = []"
      using f by (auto simp: rtt_byte_def Let_def)
    with Cons.IH[OF inv] f sel t show ?thesis by (simp add: case_prod_beta)
  qed
qed

subsection \<open>Properties\<close>

text \<open>
  C11: The ITM decoder reads back what the hardware sends. However the source cuts the stream of a
  freshly attached probe, every software and hardware source packet yields exactly its event, with
  channel, size and payload, and nothing else is reported: no payload is taken for a
  synchronisation packet.
\<close>

theorem itm_packets_decoded:
  assumes "sync_window valid add to_array cap" "valid ring6" "cap ring6 = 6" "list_all packet_ok ps"
    and "concat chunks = concat (map (\<lambda>(hw, port, data). itm_packet hw port data) ps)"
  shows "snd (run_chunks (handle_swo_data add to_array) (itm_new add ring6) chunks) = map packet_event ps"
proof -
  from sync_window.packets_steps[OF assms(1) sync_window.new_clean[OF assms(1-3)] assms(4)]
  show ?thesis
    using swo.run_chunks_concat[OF TrueI, of add to_array "itm_new add ring6" chunks] assms(5)
    by (auto simp: handle_swo_data_def)
qed

theorem itm_packets_decoded_witness:
  "snd (run_chunks (handle_swo_data rb_write rb_contents) (itm_new rb_write (rb_new 6))
      [[9, 65, 0x17, 0], [0, 0, 0x80]])
   = [SoftwareEvent \<lparr>pk_type = PSoftware, pk_port = 1, pk_size = 1, pk_data = [65]\<rparr>,
      HardwareEvent \<lparr>pk_type = PHardware, pk_port = 2, pk_size = 4, pk_data = [0, 0, 0, 0x80]\<rparr>]"
proof -
  let ?ps = "[(False, 1, [65]), (True, 2, [0, 0, 0, 0x80])]"
  have h: "sync_window rb_inv rb_write rb_contents rb_cap" by unfold_locales
  have i: "rb_inv (rb_new 6)" "rb_cap (rb_new 6) = 6" by simp_all
  have ok: "list_all packet_ok ?ps" by (simp add: packet_ok_def)
  have c: "concat [[9, 65, 0x17, 0], [0, 0, 0x80]] = concat (map (\<lambda>(hw, port, data). itm_packet hw port data) ?ps)"
    by (simp add: itm_packet_def)
  show ?thesis using itm_packets_decoded[OF h i ok c] by (simp add: packet_event_def Let_def)
qed

text \<open>
  The decoder recovers from anything. In any state at all, also in the middle of a packet, a
  synchronisation packet brings it back to the packet boundary, and what follows is decoded exactly.
\<close>

lemma itm_resynchronizes:
  assumes "sync_window valid add to_array cap" "valid (itm_sync s)" "cap (itm_sync s) = 6" "list_all packet_ok ps"
  shows "\<exists>before. snd (handle_swo_data add to_array s
      (sync_packet @ concat (map (\<lambda>(hw, port, data). itm_packet hw port data) ps)))
    = before @ Synchronized # map packet_event ps"
proof -
  obtain s1 before where 1: "run_steps (process_byte add to_array) s sync_packet = (s1, before @ [Synchronized])"
      "itm_status s1 = IDLE" "sync_window.clean valid to_array cap (itm_sync s1)"
    using sync_window.resync[OF assms(1-3)] by blast
  from sync_window.packets_steps[OF assms(1) 1(3,2) assms(4)] show ?thesis unfolding handle_swo_data_def run_steps_append 1(1) by auto
qed

lemma itm_resynchronizes_witness:
  "\<exists>before. snd (handle_swo_data rb_write rb_contents ((itm_new rb_write (rb_new 6))\<lparr>itm_status := UNSYNCED\<rparr>)
      (sync_packet @ [9, 65])) = before @ [Synchronized,
        SoftwareEvent \<lparr>pk_type = PSoftware, pk_port = 1, pk_size = 1, pk_data = [65]\<rparr>]"
proof -
  let ?s = "(itm_new rb_write (rb_new 6))\<lparr>itm_status := UNSYNCED\<rparr>"
  have h: "sync_window rb_inv rb_write rb_contents rb_cap" by unfold_locales
  have i: "rb_inv (itm_sync ?s)" "rb_cap (itm_sync ?s) = 6" by (simp_all add: itm_new_def)
  have ok: "list_all packet_ok [(False, 1, [65])]" by (simp add: packet_ok_def)
  have c: "concat (map (\<lambda>(hw, port, data). itm_packet hw port data) [(False, 1, [65])]) = [9, 65]"
    by (simp add: itm_packet_def)
  show ?thesis using itm_resynchronizes[OF h i ok] unfolding c by (simp add: packet_event_def Let_def)
qed

text \<open>
  A single-byte extension packet, which the decoder does not know, costs the packet after it.
  The decoder leaves \<open>RESERVED\<close> at the first later byte whose continuation bit is clear without
  having looked at that bit of the header itself, so it swallows the next header and reads the
  payload as headers.
\<close>

theorem extension_packet_swallows_next:
  "snd (handle_swo_data rb_write rb_contents (itm_new rb_write (rb_new 6)) (0x08 # itm_packet False 1 [0x70])) =
     [LostSynchronization, Overflow] \<and>
   snd (handle_swo_data rb_write rb_contents (itm_new rb_write (rb_new 6)) (itm_packet False 1 [0x70])) =
     [SoftwareEvent \<lparr>pk_type = PSoftware, pk_port = 1, pk_size = 1, pk_data = [0x70]\<rparr>]"
  unfolding handle_swo_data_def by code_simp

text \<open>
  RTT data of a channel is cut into packets of exactly the configured size, in order, however
  it arrives; only an incomplete last packet is held back.
\<close>

theorem rtt_packets_are_blocks:
  assumes "0 < bytesNeeded"
  shows "snd (run_chunks rtt_on_data (rtt_new port bytesNeeded) chunks) =
    map (\<lambda>d. \<lparr>pk_type = PSoftware, pk_port = port, pk_size = bytesNeeded, pk_data = d\<rparr>)
      (blocks bytesNeeded (concat chunks))"
proof -
  have inv: "rtt_inv (rtt_new port bytesNeeded)" using assms by (simp add: rtt_inv_def rtt_new_def)
  show ?thesis
    using rtt.run_chunks_concat[OF inv, of chunks] rtt_run[OF inv, of "concat chunks"]
    by (simp add: rtt_on_data_def rtt_new_def)
qed

theorem rtt_packets_are_blocks_witness:
  "0 < (2::nat) \<and> snd (run_chunks rtt_on_data (rtt_new 3 2) [[1], [2, 3], [4, 5]]) =
    [\<lparr>pk_type = PSoftware, pk_port = 3, pk_size = 2, pk_data = [1, 2]\<rparr>,
     \<lparr>pk_type = PSoftware, pk_port = 3, pk_size = 2, pk_data = [3, 4]\<rparr>]"
  using rtt_packets_are_blocks[of 2 3 "[[1], [2, 3], [4, 5]]"] by (simp add: blocks.simps)

end
