(* ===== verification/VarScopes.thy ===== *)
theory VarScopes
  imports Prelude
begin

unbundle bit_operations_syntax

text \<open>
  Variable references of the debug adapter (\<open>packages/mcu-debug/src/adapter/var-scopes.ts\<close>): a
  thread, a frame and a scope packed into one number. JavaScript's bit operators work on 32-bit
  words: an operand is its value modulo \<open>2 ^ 32\<close>, a result is the signed value of the word, and
  only \<open>>>>\<close> yields the unsigned one. A number is an \<^typ>\<open>int\<close> here and the conversions are written out.
\<close>

abbreviation to_w32 :: "int \<Rightarrow> 32 word" where
  "to_w32 n \<equiv> word_of_int n"

definition VariableTypeMask :: int where "VariableTypeMask = 8"
definition ActualScopeMask :: int where "ActualScopeMask = 7"
definition FrameIDMask :: int where "FrameIDMask = 0xffffff"
definition ThreadIDMask :: int where "ThreadIDMask = 0x1ffffff"
definition ScopeMask :: int where "ScopeMask = 0xf"

lemmas mask_defs = VariableTypeMask_def ActualScopeMask_def FrameIDMask_def ThreadIDMask_def ScopeMask_def

definition is_variable_reference :: "int \<Rightarrow> bool" where
  "is_variable_reference r = (sint (to_w32 r AND to_w32 VariableTypeMask) \<noteq> 0)"

definition is_var_ref_global_or_static :: "int \<Rightarrow> bool" where
  "is_var_ref_global_or_static r =
     (let scope = sint (to_w32 r AND to_w32 ActualScopeMask) in scope = 0 \<or> scope = 1 \<or> scope = 4)"

definition decode_reference :: "int \<Rightarrow> int \<times> int \<times> int" where
  "decode_reference varRef =
     (uint (drop_bit 28 (to_w32 varRef)),
      sint (drop_bit 4 (to_w32 varRef) AND to_w32 FrameIDMask),
      sint (to_w32 varRef AND to_w32 ScopeMask))"

definition encode_reference :: "int \<Rightarrow> int \<Rightarrow> int \<Rightarrow> int" where
  "encode_reference threadId frameId scope =
     sint (push_bit 28 (to_w32 threadId AND to_w32 ThreadIDMask) OR
           push_bit 4 (to_w32 frameId AND to_w32 FrameIDMask) OR (to_w32 scope AND to_w32 ScopeMask))"

definition get_scope_from_reference :: "int \<Rightarrow> int" where
  "get_scope_from_reference varRef = sint (to_w32 varRef AND to_w32 ScopeMask)"

definition get_variable_class :: "int \<Rightarrow> int" where
  "get_variable_class scope = sint (to_w32 scope AND to_w32 ActualScopeMask)"

definition encode_var_reference :: "int \<Rightarrow> int \<Rightarrow> int \<Rightarrow> int" where
  "encode_var_reference threadId frameId scope =
     encode_reference threadId frameId (sint (to_w32 scope OR to_w32 VariableTypeMask))"

definition encode_scope_reference :: "int \<Rightarrow> int \<Rightarrow> int \<Rightarrow> int" where
  "encode_scope_reference threadId frameId scope =
     encode_reference threadId frameId (sint (to_w32 scope AND to_w32 ActualScopeMask))"

subsection \<open>Packing\<close>

lemma w32_sint [simp]: "to_w32 (sint (w :: 32 word)) = w"
  by simp

lemma pack_fields:
  fixes t f s :: "32 word"
  defines "r \<equiv> push_bit 28 (t AND 0x1ffffff) OR push_bit 4 (f AND 0xffffff) OR (s AND 0xf)"
  shows "drop_bit 28 r = t AND 0xf" "drop_bit 4 r AND 0xffffff = f AND 0xffffff" "r AND 0xf = s AND 0xf"
proof -
  have m: "(0x1ffffff :: 32 word) = mask 25" "(0xffffff :: 32 word) = mask 24" "(0xf :: 32 word) = mask 4"
    by (simp_all add: mask_eq_exp_minus_1)
  show "drop_bit 28 r = t AND 0xf" "drop_bit 4 r AND 0xffffff = f AND 0xffffff" "r AND 0xf = s AND 0xf"
    unfolding r_def m by (rule bit_eqI; auto simp: bit_simps)+
qed

lemma uint_low: "n \<le> 32 \<Longrightarrow> uint (to_w32 x AND mask n) = x mod 2 ^ n"
  unfolding take_bit_eq_mask[symmetric] take_bit_eq_mod[of n x, symmetric]
  by (simp add: unsigned_take_bit_eq unsigned_of_int min_def)

lemma sint_low: "n < 32 \<Longrightarrow> sint (to_w32 x AND mask n) = x mod 2 ^ n"
proof -
  assume n: "n < 32"
  have "uint (to_w32 x AND mask n) < 2 ^ 31"
  proof -
    have "x mod 2 ^ n < (2 :: int) ^ n" by simp
    also have "\<dots> \<le> 2 ^ 31" using n by (intro power_increasing) simp_all
    finally show ?thesis using n by (simp add: uint_low)
  qed
  then have "sint (to_w32 x AND mask n) = uint (to_w32 x AND mask n)"
    by (simp add: sint_uint signed_take_bit_int_eq_self_iff order_trans[OF _ uint_ge_0])
  with n show ?thesis by (simp add: uint_low)
qed

lemma mask_words:
  "to_w32 ThreadIDMask = 0x1ffffff" "to_w32 FrameIDMask = mask 24" "to_w32 ScopeMask = mask 4"
  "to_w32 ActualScopeMask = mask 3" "(0xffffff :: 32 word) = mask 24" "(0xf :: 32 word) = mask 4"
  by (simp_all add: mask_defs mask_eq_exp_minus_1)

lemma decode_encode: "decode_reference (encode_reference t f s) = (t mod 16, f mod 2 ^ 24, s mod 16)"
  using pack_fields[of "to_w32 t" "to_w32 f" "to_w32 s"] uint_low[of 4 t] sint_low[of 24 f] sint_low[of 4 s]
  by (simp add: decode_reference_def encode_reference_def mask_words)

lemma low_thread_bits: "push_bit 28 ((t :: 32 word) AND 0x1ffffff) = push_bit 28 (t AND mask 4)"
proof -
  have m: "(0x1ffffff :: 32 word) = mask 25" by (simp add: mask_eq_exp_minus_1)
  show ?thesis unfolding m by (rule bit_eqI) (auto simp: bit_simps)
qed

lemma encode_thread_mod: "encode_reference (t + 16) f s = encode_reference t f s"
proof -
  have "uint (to_w32 (t + 16) AND mask 4) = uint (to_w32 t AND mask 4)"
    using uint_low[of 4 "t + 16"] uint_low[of 4 t] by simp
  then have "to_w32 (t + 16) AND mask 4 = to_w32 t AND mask 4" unfolding word_uint_eq_iff .
  then show ?thesis by (simp only: encode_reference_def mask_words low_thread_bits)
qed

subsection \<open>Properties\<close>

text \<open>
  A variable reference gives back its thread, frame and scope, and says that it is a variable,
  for thread numbers below 16 and frame numbers below \<open>2 ^ 24\<close>; a scope reference likewise.
\<close>

theorem var_reference_roundtrip:
  assumes "0 \<le> t" "t < 16" "0 \<le> f" "f < 2 ^ 24" "0 \<le> s" "s < 8"
  shows "let r = encode_var_reference t f s in
    decode_reference r = (t, f, s + 8) \<and> is_variable_reference r \<and>
    get_variable_class (get_scope_from_reference r) = s \<and>
    decode_reference (encode_scope_reference t f s) = (t, f, s) \<and>
    \<not> is_variable_reference (encode_scope_reference t f s)"
proof -
  have s: "s = 0 \<or> s = 1 \<or> s = 2 \<or> s = 3 \<or> s = 4 \<or> s = 5 \<or> s = 6 \<or> s = 7" using assms(5,6) by presburger
  then have e: "sint (to_w32 s OR to_w32 VariableTypeMask) = s + 8" "sint (to_w32 s AND to_w32 ActualScopeMask) = s"
    "sint (to_w32 (s + 8) AND to_w32 ActualScopeMask) = s"
    "to_w32 (s + 8) AND to_w32 VariableTypeMask \<noteq> 0" "to_w32 s AND to_w32 VariableTypeMask = 0"
    by (auto simp: mask_defs)
  have var: "is_variable_reference r \<longleftrightarrow> to_w32 (get_scope_from_reference r) AND to_w32 VariableTypeMask \<noteq> 0" for r
  proof -
    have "(0xf :: 32 word) AND 8 = 8" by simp
    then have "(to_w32 r AND 0xf) AND 8 = to_w32 r AND 8" by (simp only: and.assoc)
    then show ?thesis
      by (simp add: is_variable_reference_def get_scope_from_reference_def mask_defs signed_eq_0_iff)
  qed
  have scope: "get_scope_from_reference r = snd (snd (decode_reference r))" for r
    by (simp add: decode_reference_def get_scope_from_reference_def)
  have d: "decode_reference (encode_var_reference t f s) = (t, f, s + 8)"
    "decode_reference (encode_scope_reference t f s) = (t, f, s)"
    using assms by (simp_all add: encode_var_reference_def encode_scope_reference_def e decode_encode)
  then show ?thesis
    by (simp only: Let_def var scope get_variable_class_def e fst_conv snd_conv) simp
qed

theorem var_reference_roundtrip_witness:
  "(0::int) \<le> 3 \<and> decode_reference (encode_var_reference 3 5 2) = (3, 5, 10)"
  using var_reference_roundtrip[of 3 5 2] by (simp add: Let_def)

text \<open>
  Only four of the 25 thread bits survive. The comment reserves 25 bits for the thread within
  the 53 bits of a JavaScript number, but the shift is a 32-bit one: threads 16 apart get the same
  references, and the references of thread 8 are negative.
\<close>

theorem thread_numbers_alias:
  "encode_var_reference (t + 16) f s = encode_var_reference t f s \<and>
   encode_scope_reference (t + 16) f s = encode_scope_reference t f s \<and> encode_var_reference 8 0 2 < 0"
proof -
  have "encode_var_reference 8 0 2 < 0"
    by (simp add: encode_var_reference_def encode_reference_def mask_defs)
  then show ?thesis by (simp add: encode_var_reference_def encode_scope_reference_def encode_thread_mod)
qed

end
