(* ===== verification/SeqSession.thy ===== *)
theory SeqSession
  imports Prelude "HOL-Library.Multiset"
begin

text \<open>
  \<open>SeqDebugSession\<close> of \<open>packages/mcu-debug/src/adapter/seq-debug-session.ts\<close>: requests of the
  editor are handled one at a time, a \<open>continue\<close>-like request cancels those still queued, and an
  exit-like request overtakes everything.

  The handlers of the requests (\<open>super.dispatchRequest\<close>) belong to the class above and below; the
  model has the dispatch as an output, and the response of a handler, sent during the dispatch or
  at any time later, or its exception, as events.
\<close>

record request =
  rq_seq :: nat
  rq_command :: jstr

text \<open>The promise the loop awaits: which request it is for and whether it has been resolved.\<close>

record await =
  aw_seq :: nat
  aw_resolved :: bool

record session =
  ss_queue :: "request list"
  ss_processing :: bool
  ss_current :: "await option"
  ss_exiting :: bool

definition ss_init :: session where
  "ss_init = \<lparr>ss_queue = [], ss_processing = False, ss_current = None, ss_exiting = False\<rparr>"

text \<open>\<open>Failed\<close> marks a dispatch that threw.\<close>

datatype ss_out = Dispatch request | DispatchExit request | Cancelled request | Response nat | Failed nat

definition exit_like :: "jstr \<Rightarrow> bool" where
  "exit_like c = (c \<in> set [''disconnect'', ''terminate'', ''exit''])"

definition continue_like :: "jstr \<Rightarrow> bool" where
  "continue_like c = (c \<in> set [''continue'', ''next'', ''stepIn'', ''stepOut'', ''goto''])"

text \<open>\<open>currentRequestResolve\<close> of the loop, as far as a response can call it.\<close>

definition current_resolve :: "session \<Rightarrow> nat \<Rightarrow> session" where
  "current_resolve s request_seq =
     (case ss_current s of
        None \<Rightarrow> s
      | Some a \<Rightarrow> if request_seq = aw_seq a then s\<lparr>ss_current := Some (a\<lparr>aw_resolved := True\<rparr>)\<rparr> else s)"

definition send_response :: "session \<Rightarrow> nat \<Rightarrow> session \<times> ss_out list" where
  "send_response s request_seq = (current_resolve s request_seq, [Response request_seq])"

fun cancel_all :: "session \<Rightarrow> request list \<Rightarrow> session \<times> ss_out list" where
  "cancel_all s [] = (s, [])"
| "cancel_all s (r # rs) =
     (let s1 = current_resolve s (rq_seq r); (s2, out) = cancel_all s1 rs in (s2, Cancelled r # out))"

text \<open>The loop of \<open>processQueue\<close> up to its \<open>await\<close>.\<close>

definition queue_loop :: "session \<Rightarrow> session \<times> ss_out list" where
  "queue_loop s =
     (case ss_queue s of
        r # rest \<Rightarrow>
          if ss_exiting s then (s\<lparr>ss_processing := False\<rparr>, [])
          else (s\<lparr>ss_queue := rest, ss_current := Some \<lparr>aw_seq = rq_seq r, aw_resolved = False\<rparr>\<rparr>, [Dispatch r])
      | [] \<Rightarrow> (s\<lparr>ss_processing := False\<rparr>, []))"

definition process_queue :: "session \<Rightarrow> session \<times> ss_out list" where
  "process_queue s = (if ss_processing s then (s, []) else queue_loop (s\<lparr>ss_processing := True\<rparr>))"

definition dispatch_request :: "session \<Rightarrow> request \<Rightarrow> session \<times> ss_out list" where
  "dispatch_request s request =
     (if exit_like (rq_command request) then (s\<lparr>ss_exiting := True\<rparr>, [DispatchExit request])
      else
        let (s1, out1) = (if continue_like (rq_command request)
                          then (let (t, out) = cancel_all s (ss_queue s) in (t\<lparr>ss_queue := []\<rparr>, out))
                          else (s, []));
            (s2, out2) = process_queue (s1\<lparr>ss_queue := ss_queue s1 @ [request]\<rparr>)
        in (s2, out1 @ out2))"

text \<open>The continuation of the \<open>await\<close>, once the promise is resolved.\<close>

definition queue_resume :: "session \<Rightarrow> session \<times> ss_out list" where
  "queue_resume s =
     (case ss_current s of
        Some a \<Rightarrow> if aw_resolved a then queue_loop (s\<lparr>ss_current := None\<rparr>) else (s, [])
      | None \<Rightarrow> (s, []))"

text \<open>The \<open>catch\<close> around the dispatch; it can only run before anything else happens.\<close>

definition dispatch_failed :: "session \<Rightarrow> session \<times> ss_out list" where
  "dispatch_failed s =
     (case ss_current s of
        Some a \<Rightarrow> (s\<lparr>ss_current := Some (a\<lparr>aw_resolved := True\<rparr>)\<rparr>, [Failed (aw_seq a)])
      | None \<Rightarrow> (s, []))"

datatype ss_event = Request request | Respond nat | DispatchThrows | SeqResume

fun ss_step :: "session \<Rightarrow> ss_event \<Rightarrow> session \<times> ss_out list" where
  "ss_step s (Request r) = dispatch_request s r"
| "ss_step s (Respond i) = send_response s i"
| "ss_step s DispatchThrows = dispatch_failed s"
| "ss_step s SeqResume = queue_resume s"

subsection \<open>Invariant\<close>

fun requests :: "ss_event list \<Rightarrow> request list" where
  "requests [] = []"
| "requests (Request r # es) = r # requests es"
| "requests (_ # es) = requests es"

fun dispatched :: "ss_out list \<Rightarrow> request list" where
  "dispatched [] = []"
| "dispatched (Dispatch r # out) = r # dispatched out"
| "dispatched (_ # out) = dispatched out"

fun cancelled :: "ss_out list \<Rightarrow> request list" where
  "cancelled [] = []"
| "cancelled (Cancelled r # out) = r # cancelled out"
| "cancelled (_ # out) = cancelled out"

fun exits :: "ss_out list \<Rightarrow> request list" where
  "exits [] = []"
| "exits (DispatchExit r # out) = r # exits out"
| "exits (_ # out) = exits out"

lemma trace_append [simp]:
  "dispatched (xs @ ys) = dispatched xs @ dispatched ys" "cancelled (xs @ ys) = cancelled xs @ cancelled ys"
  "exits (xs @ ys) = exits xs @ exits ys"
proof -
  show "dispatched (xs @ ys) = dispatched xs @ dispatched ys" by (induction xs rule: dispatched.induct) simp_all
  show "cancelled (xs @ ys) = cancelled xs @ cancelled ys" by (induction xs rule: cancelled.induct) simp_all
  show "exits (xs @ ys) = exits xs @ exits ys" by (induction xs rule: exits.induct) simp_all
qed

definition ss_inv :: "session \<Rightarrow> bool" where
  "ss_inv s \<longleftrightarrow> (ss_processing s \<longleftrightarrow> ss_current s \<noteq> None) \<and>
     (\<not> ss_processing s \<longrightarrow> ss_queue s = [] \<or> ss_exiting s)"

lemma current_resolve_simps [simp]:
  "ss_queue (current_resolve s i) = ss_queue s" "ss_processing (current_resolve s i) = ss_processing s"
  "ss_exiting (current_resolve s i) = ss_exiting s"
  "ss_current (current_resolve s i) = None \<longleftrightarrow> ss_current s = None"
  by (auto simp: current_resolve_def split: option.split)

lemma cancel_all_simps [simp]:
  "ss_queue (fst (cancel_all s rs)) = ss_queue s" "ss_processing (fst (cancel_all s rs)) = ss_processing s"
  "ss_exiting (fst (cancel_all s rs)) = ss_exiting s"
  "ss_current (fst (cancel_all s rs)) = None \<longleftrightarrow> ss_current s = None"
  "dispatched (snd (cancel_all s rs)) = []" "exits (snd (cancel_all s rs)) = []"
  "cancelled (snd (cancel_all s rs)) = rs"
  by (induction rs arbitrary: s) (simp_all add: Let_def case_prod_beta)

text \<open>One step: what comes in is queued, dispatched, cancelled or let through.\<close>

lemma queue_loop_account:
  assumes "ss_processing s" "ss_current s = None"
  shows "ss_inv (fst (queue_loop s))" "cancelled (snd (queue_loop s)) = []" "exits (snd (queue_loop s)) = []"
    "dispatched (snd (queue_loop s)) @ ss_queue (fst (queue_loop s)) = ss_queue s"
  using assms by (auto simp: queue_loop_def ss_inv_def split: list.split)

lemma process_queue_account:
  assumes "ss_processing s \<longleftrightarrow> ss_current s \<noteq> None"
  shows "ss_inv (fst (process_queue s))" "cancelled (snd (process_queue s)) = []"
    "exits (snd (process_queue s)) = []"
    "dispatched (snd (process_queue s)) @ ss_queue (fst (process_queue s)) = ss_queue s"
  using assms queue_loop_account[of "s\<lparr>ss_processing := True\<rparr>"]
  by (cases "ss_processing s"; simp add: process_queue_def ss_inv_def)+

lemma ss_step_account:
  assumes inv: "ss_inv s"
  shows "ss_inv (fst (ss_step s e)) \<and>
    mset (dispatched (snd (ss_step s e))) + mset (cancelled (snd (ss_step s e))) +
      mset (exits (snd (ss_step s e))) + mset (ss_queue (fst (ss_step s e))) =
    mset (ss_queue s) + mset (requests [e])"
proof (cases e)
  case (Request r)
  show ?thesis
  proof (cases "exit_like (rq_command r)")
    case True
    with inv Request show ?thesis by (auto simp: dispatch_request_def ss_inv_def)
  next
    case False
    define s1 where "s1 = (if continue_like (rq_command r)
      then (fst (cancel_all s (ss_queue s)))\<lparr>ss_queue := []\<rparr> else s)"
    define q where "q = (if continue_like (rq_command r) then [] else ss_queue s)"
    define c where "c = (if continue_like (rq_command r) then ss_queue s else [])"
    define t where "t = s1\<lparr>ss_queue := ss_queue s1 @ [r]\<rparr>"
    have t: "ss_queue t = q @ [r]" "ss_processing t \<longleftrightarrow> ss_current t \<noteq> None"
      using inv by (simp_all add: t_def s1_def q_def ss_inv_def del: not_None_eq)
    note p = process_queue_account[OF t(2)]
    have d: "fst (ss_step s e) = fst (process_queue t)" "dispatched (snd (ss_step s e)) = dispatched (snd (process_queue t))"
      "cancelled (snd (ss_step s e)) = c" "exits (snd (ss_step s e)) = []"
      using Request False p(2,3)
      by (auto simp: dispatch_request_def t_def s1_def c_def Let_def case_prod_beta)
    have "mset (dispatched (snd (process_queue t))) + mset (ss_queue (fst (process_queue t))) = mset (q @ [r])"
      using p(4) t(1) by (metis mset_append)
    moreover have "requests [e] = [r]" by (simp add: Request)
    ultimately show ?thesis unfolding d using p(1) by (simp add: q_def c_def)
  qed
next
  case SeqResume
  show ?thesis
  proof (cases "ss_current s")
    case (Some a)
    then have "ss_processing (s\<lparr>ss_current := None\<rparr>)" using inv by (simp add: ss_inv_def)
    from queue_loop_account[OF this] have
      "mset (dispatched (snd (queue_loop (s\<lparr>ss_current := None\<rparr>)))) +
         mset (ss_queue (fst (queue_loop (s\<lparr>ss_current := None\<rparr>)))) = mset (ss_queue s)"
      by (simp flip: mset_append)
    with Some SeqResume inv queue_loop_account[of "s\<lparr>ss_current := None\<rparr>"] show ?thesis
      by (auto simp: queue_resume_def ss_inv_def)
  qed (simp add: SeqResume queue_resume_def inv)
qed (use inv in \<open>auto simp: send_response_def dispatch_failed_def ss_inv_def split: option.split\<close>)

interpretation seq: step_framer ss_inv ss_step
  by unfold_locales (use ss_step_account in blast)

lemma ss_run_account:
  "ss_inv s \<Longrightarrow>
    mset (dispatched (snd (run_steps ss_step s es))) + mset (cancelled (snd (run_steps ss_step s es))) +
      mset (exits (snd (run_steps ss_step s es))) + mset (ss_queue (fst (run_steps ss_step s es))) =
    mset (ss_queue s) + mset (requests es)"
proof (induction es arbitrary: s)
  case (Cons e es)
  obtain s1 o1 where f: "ss_step s e = (s1, o1)" by force
  obtain s2 o2 where r: "run_steps ss_step s1 es = (s2, o2)" by force
  have a: "ss_inv s1" "mset (dispatched o1) + mset (cancelled o1) + mset (exits o1) + mset (ss_queue s1) =
      mset (ss_queue s) + mset (requests [e])"
    using ss_step_account[OF Cons.prems, of e] f by simp_all
  have "mset (dispatched o2) + mset (cancelled o2) + mset (exits o2) + mset (ss_queue s2) =
      mset (ss_queue s1) + mset (requests es)"
    using Cons.IH[OF a(1)] r by simp
  moreover have "requests (e # es) = requests [e] @ requests es" by (cases e) simp_all
  ultimately have "(mset (dispatched o1) + mset (cancelled o1) + mset (exits o1)) +
      (mset (dispatched o2) + mset (cancelled o2) + mset (exits o2) + mset (ss_queue s2)) =
      mset (ss_queue s) + mset (requests (e # es))"
    using a(2) by (simp add: add.assoc)
  with f r show ?case by (simp add: ac_simps)
qed simp

text \<open>
  Which request is being handled: a dispatch needs an idle loop, and only a response to the
  current request (a cancellation is one too) or its failure makes the loop idle again.
  \<open>busy\<close> is the sequence number that the loop waits for.
\<close>

fun free_of :: "nat option \<Rightarrow> nat \<Rightarrow> nat option" where
  "free_of busy i = (if busy = Some i then None else busy)"

fun serial :: "nat option \<Rightarrow> ss_out list \<Rightarrow> bool" where
  "serial busy [] = True"
| "serial busy (Dispatch r # out) = (busy = None \<and> serial (Some (rq_seq r)) out)"
| "serial busy (Response i # out) = serial (free_of busy i) out"
| "serial busy (Cancelled r # out) = serial (free_of busy (rq_seq r)) out"
| "serial busy (Failed i # out) = serial (free_of busy i) out"
| "serial busy (DispatchExit r # out) = serial busy out"

fun busy_after :: "nat option \<Rightarrow> ss_out list \<Rightarrow> nat option" where
  "busy_after busy [] = busy"
| "busy_after busy (Dispatch r # out) = busy_after (Some (rq_seq r)) out"
| "busy_after busy (Response i # out) = busy_after (free_of busy i) out"
| "busy_after busy (Cancelled r # out) = busy_after (free_of busy (rq_seq r)) out"
| "busy_after busy (Failed i # out) = busy_after (free_of busy i) out"
| "busy_after busy (DispatchExit r # out) = busy_after busy out"

definition ss_busy :: "session \<Rightarrow> nat option" where
  "ss_busy s = (case ss_current s of Some a \<Rightarrow> if aw_resolved a then None else Some (aw_seq a) | None \<Rightarrow> None)"

lemma serial_append: "serial b (xs @ ys) \<longleftrightarrow> serial b xs \<and> serial (busy_after b xs) ys"
  by (induction b xs rule: serial.induct) simp_all

lemma busy_resolve: "ss_busy (current_resolve s i) = free_of (ss_busy s) i"
  by (auto simp: current_resolve_def ss_busy_def split: option.split)

lemma cancel_all_serial:
  "serial (ss_busy s) (snd (cancel_all s rs)) \<and>
   ss_busy (fst (cancel_all s rs)) = busy_after (ss_busy s) (snd (cancel_all s rs))"
proof (induction rs arbitrary: s)
  case (Cons r rs)
  with Cons.IH[of "current_resolve s (rq_seq r)"] show ?case
    by (simp add: Let_def case_prod_beta busy_resolve del: free_of.simps)
qed simp

lemma process_queue_serial:
  assumes "ss_processing s \<longleftrightarrow> ss_current s \<noteq> None"
  shows "serial (ss_busy s) (snd (process_queue s)) \<and>
    ss_busy (fst (process_queue s)) = busy_after (ss_busy s) (snd (process_queue s))"
  using assms by (auto simp: process_queue_def queue_loop_def ss_busy_def split: list.split)

lemma ss_step_serial:
  assumes inv: "ss_inv s"
  shows "serial (ss_busy s) (snd (ss_step s e)) \<and>
    ss_busy (fst (ss_step s e)) = busy_after (ss_busy s) (snd (ss_step s e))"
proof (cases e)
  case (Request r)
  show ?thesis
  proof (cases "exit_like (rq_command r)")
    case True
    with Request show ?thesis by (simp add: dispatch_request_def ss_busy_def)
  next
    case False
    define c where "c = (if continue_like (rq_command r)
      then (let (t, out) = cancel_all s (ss_queue s) in (t\<lparr>ss_queue := []\<rparr>, out)) else (s, []))"
    define t where "t = (fst c)\<lparr>ss_queue := ss_queue (fst c) @ [r]\<rparr>"
    have pr: "ss_processing t \<longleftrightarrow> ss_current t \<noteq> None"
      using inv by (simp add: t_def c_def ss_inv_def Let_def case_prod_beta del: not_None_eq)
    have 1: "serial (ss_busy s) (snd c) \<and> ss_busy t = busy_after (ss_busy s) (snd c)"
      using cancel_all_serial[of s "ss_queue s"]
      by (simp add: t_def c_def Let_def case_prod_beta) (simp add: ss_busy_def)
    have "ss_step s e = (fst (process_queue t), snd c @ snd (process_queue t))"
      using Request False by (simp add: dispatch_request_def t_def c_def Let_def case_prod_beta)
    moreover have "busy_after b (xs @ ys) = busy_after (busy_after b xs) ys" for b xs ys
      by (induction b xs rule: busy_after.induct) simp_all
    ultimately show ?thesis using 1 process_queue_serial[OF pr] by (simp add: serial_append)
  qed
next
  case SeqResume
  with inv show ?thesis
    by (auto simp: queue_resume_def queue_loop_def ss_busy_def split: option.split list.split)
next
  case (Respond i)
  then show ?thesis by (simp add: send_response_def busy_resolve del: free_of.simps)
next
  case DispatchThrows
  then show ?thesis by (auto simp: dispatch_failed_def ss_busy_def split: option.split)
qed

lemma ss_run_serial:
  "ss_inv s \<Longrightarrow> serial (ss_busy s) (snd (run_steps ss_step s es))"
proof (induction es arbitrary: s)
  case (Cons e es)
  obtain s1 o1 where f: "ss_step s e = (s1, o1)" by force
  have "ss_inv s1" using ss_step_account[OF Cons.prems, of e] f by simp
  with Cons.IH[of s1] ss_step_serial[OF Cons.prems, of e] f show ?case
    by (simp add: case_prod_beta serial_append)
qed simp

lemma ss_exit_silent:
  "ss_exiting s \<Longrightarrow> ss_exiting (fst (run_steps ss_step s es)) \<and> dispatched (snd (run_steps ss_step s es)) = []"
proof (induction es arbitrary: s)
  case (Cons e es)
  obtain s1 o1 where f: "ss_step s e = (s1, o1)" by force
  have "ss_exiting s1 \<and> dispatched o1 = []"
  proof (cases e)
    case (Request r)
    with Cons.prems f show ?thesis
      by (auto simp: dispatch_request_def process_queue_def queue_loop_def Let_def case_prod_beta
          split: if_splits list.splits)
  next
    case SeqResume
    with Cons.prems f show ?thesis
      by (auto simp: queue_resume_def queue_loop_def split: option.splits if_splits list.splits)
  qed (use Cons.prems f in \<open>auto simp: send_response_def dispatch_failed_def split: option.splits\<close>)
  with Cons.IH[of s1] f show ?case by (simp add: case_prod_beta)
qed simp

lemma ss_inv_init [simp]: "ss_inv ss_init"
  by (simp add: ss_init_def ss_inv_def)

subsection \<open>Properties\<close>

text \<open>
  C12: Requests are handled strictly one at a time: between the dispatch of a request and a response
  to it (or its failure) no other queued request is dispatched, whatever the editor sends and
  whenever the handlers answer.
\<close>

theorem requests_are_serial:
  "serial None (snd (run_steps ss_step ss_init es))"
  using ss_run_serial[OF ss_inv_init, of es] by (simp add: ss_busy_def ss_init_def)

text \<open>
  No request is lost or handled twice: every request received is, exactly once, dispatched,
  answered as cancelled by a later \<open>continue\<close>-like request, let through as an exit request, or
  still queued.
\<close>

lemma requests_accounted:
  "let (s, out) = run_steps ss_step ss_init es in
    mset (dispatched out) + mset (cancelled out) + mset (exits out) + mset (ss_queue s) = mset (requests es)"
  using ss_run_account[OF ss_inv_init, of es] by (simp add: case_prod_beta ss_init_def)

text \<open>
  A \<open>disconnect\<close>, \<open>terminate\<close> or \<open>exit\<close> request is passed on at once, and after it no queued
  request is ever dispatched.
\<close>

theorem exit_stops_the_queue:
  assumes "exit_like (rq_command r)"
  shows "let (s, out) = run_steps ss_step ss_init (es @ [Request r]);
             (s', out') = run_steps ss_step s es'
         in last out = DispatchExit r \<and> dispatched out' = []"
proof -
  have "run_steps ss_step ss_init (es @ [Request r]) =
      ((fst (run_steps ss_step ss_init es))\<lparr>ss_exiting := True\<rparr>, snd (run_steps ss_step ss_init es) @ [DispatchExit r])"
    using assms by (simp add: run_steps_append case_prod_beta dispatch_request_def)
  then show ?thesis
    using ss_exit_silent[of "(fst (run_steps ss_step ss_init es))\<lparr>ss_exiting := True\<rparr>" es']
    by (simp add: case_prod_beta)
qed

theorem exit_stops_the_queue_witness:
  "exit_like (rq_command \<lparr>rq_seq = 1, rq_command = ''disconnect''\<rparr>) \<and>
   dispatched (snd (run_steps ss_step (ss_init\<lparr>ss_exiting := True\<rparr>)
     [Request \<lparr>rq_seq = 2, rq_command = ''threads''\<rparr>])) = []"
proof -
  have h: "exit_like (rq_command \<lparr>rq_seq = 1, rq_command = ''disconnect''\<rparr>)" by (simp add: exit_like_def)
  have r: "run_steps ss_step ss_init ([] @ [Request \<lparr>rq_seq = 1, rq_command = ''disconnect''\<rparr>]) =
      (ss_init\<lparr>ss_exiting := True\<rparr>, [DispatchExit \<lparr>rq_seq = 1, rq_command = ''disconnect''\<rparr>])"
    using h by (simp add: dispatch_request_def)
  show ?thesis
    using h exit_stops_the_queue[OF h, of "[]" "[Request \<lparr>rq_seq = 2, rq_command = ''threads''\<rparr>]"]
    unfolding r by (simp add: case_prod_beta)
qed

end
