(* ===== verification/Handles.thy ===== *)
theory Handles
  imports Prelude "HOL-Library.List_Lexorder" "HOL-Library.Char_ord"
begin

text \<open>
  \<open>packages/shared/src/handles.ts\<close>: the registries that give values integer handles, and the
  stable text form by which \<open>ValueHandleRegistry\<close> compares values.

  Both registries promise the same to their users; the locale \<open>handle_registry\<close> states it over an
  abstract state and is interpreted on both.
\<close>

subsection \<open>The text form of a value\<close>

text \<open>
  The values that get handles. Numbers are restricted to integers; \<open>JDate\<close> and \<open>JRegExp\<close> carry the text
  of \<open>toISOString\<close> and \<open>toString\<close>; \<open>JIdentifiable\<close> is an object with a \<open>toValueKey\<close> method, of
  which only the key is ever looked at. The fields of an object have distinct names.
\<close>

datatype jval = JUndefined | JNull | JBool bool | JInt int | JStr jstr | JDate jstr | JRegExp jstr
  | JIdentifiable jstr | JArr "jval list" | JObj "(jstr \<times> jval) list"

text \<open>\<open>JSON.stringify\<close> of a string.\<close>

definition json_char :: "char \<Rightarrow> jstr" where
  "json_char c =
     (if c = DQ \<or> c = BSL then [BSL, c]
      else if c = CHR 0x08 then [BSL, CHR ''b''] else if c = CHR 0x09 then [BSL, CHR ''t'']
      else if c = CHR 0x0A then [BSL, CHR ''n''] else if c = CHR 0x0C then [BSL, CHR ''f'']
      else if c = CHR 0x0D then [BSL, CHR ''r'']
      else if of_char c < (32 :: nat)
      then BSL # ''u00'' @ [hex_digit (of_char c div 16), hex_digit (of_char c mod 16)]
      else [c])"

definition json_string :: "jstr \<Rightarrow> jstr" where
  "json_string s = DQ # concat (map json_char s) @ [DQ]"

definition show_int :: "int \<Rightarrow> jstr" where
  "show_int i = (if i < 0 then CHR ''-'' # show_nat (nat (- i)) else show_nat (nat i))"

text \<open>\<open>None\<close> is the value \<open>undefined\<close>, which \<open>JSON.stringify\<close> returns for \<open>undefined\<close>.\<close>

fun stable_stringify :: "jval \<Rightarrow> jstr option" where
  "stable_stringify (JIdentifiable key) = Some key"
| "stable_stringify JUndefined = None"
| "stable_stringify JNull = Some ''null''"
| "stable_stringify (JBool b) = Some (if b then ''true'' else ''false'')"
| "stable_stringify (JInt i) = Some (show_int i)"
| "stable_stringify (JStr s) = Some (json_string s)"
| "stable_stringify (JDate d) = Some (json_string d)"
| "stable_stringify (JRegExp re) = Some (json_string re)"
| "stable_stringify (JArr vs) = Some (''['' @ join_with '','' (map (\<lambda>v. case stable_stringify v of
       Some t \<Rightarrow> t | None \<Rightarrow> '''') vs) @ '']'')"
| "stable_stringify (JObj fs) = Some (''{'' @ join_with '','' (map (\<lambda>(k, v). json_string k @ '':'' @
       (case stable_stringify v of Some t \<Rightarrow> t | None \<Rightarrow> ''undefined'')) (sort_key fst fs)) @ ''}'')"

text \<open>\<open>getKey\<close>; the interface is looked for before the structure, which comes to the same.\<close>

definition get_key :: "jval \<Rightarrow> jstr option" where
  "get_key obj = (case obj of JIdentifiable key \<Rightarrow> Some key | _ \<Rightarrow> stable_stringify obj)"

subsection \<open>The registries\<close>

text \<open>A registry of objects \<open>'a\<close> with keys \<open>'k\<close>.\<close>

record ('k, 'a) registry =
  hr_key_to_handle :: "'k \<rightharpoonup> nat"
  hr_handle_to_obj :: "nat \<rightharpoonup> 'a"
  hr_counter :: nat

definition hr_new :: "('k, 'a) registry" where
  "hr_new = \<lparr>hr_key_to_handle = Map.empty, hr_handle_to_obj = Map.empty, hr_counter = 0\<rparr>"


text \<open>
  \<open>addObject\<close> and \<open>release\<close>, over the key of an object and over whether \<open>!obj\<close> holds of it. Objects
  with a \<open>toValueKey\<close> method are truthy.
\<close>

definition reg_add :: "('a \<Rightarrow> 'k) \<Rightarrow> ('k, 'a) registry \<Rightarrow> 'a \<Rightarrow> ('k, 'a) registry \<times> nat" where
  "reg_add key_of r obj =
     (let key = key_of obj in
      case hr_key_to_handle r key of
        Some handle \<Rightarrow> (r, handle)
      | None \<Rightarrow>
          let handle = hr_counter r + 1 in
          (r\<lparr>hr_counter := handle, hr_key_to_handle := (hr_key_to_handle r)(key \<mapsto> handle),
             hr_handle_to_obj := (hr_handle_to_obj r)(handle \<mapsto> obj)\<rparr>, handle))"

definition reg_release :: "('a \<Rightarrow> 'k) \<Rightarrow> ('a \<Rightarrow> bool) \<Rightarrow> ('k, 'a) registry \<Rightarrow> nat \<Rightarrow> ('k, 'a) registry \<times> bool" where
  "reg_release key_of is_falsy r handle =
     (case hr_handle_to_obj r handle of
        None \<Rightarrow> (r, False)
      | Some obj \<Rightarrow>
          if is_falsy obj then (r, False)
          else (r\<lparr>hr_key_to_handle := (hr_key_to_handle r)(key_of obj := None),
                  hr_handle_to_obj := (hr_handle_to_obj r)(handle := None)\<rparr>, True))"

definition reg_clear :: "('k, 'a) registry \<Rightarrow> ('k, 'a) registry" where
  "reg_clear r = r\<lparr>hr_key_to_handle := Map.empty, hr_handle_to_obj := Map.empty, hr_counter := 0\<rparr>"

text \<open>\<open>ValueHandleRegistry\<close> on values; an object is falsy when \<open>!obj\<close> holds.\<close>

fun falsy :: "jval \<Rightarrow> bool" where
  "falsy JUndefined = True"
| "falsy JNull = True"
| "falsy (JBool b) = (\<not> b)"
| "falsy (JInt i) = (i = 0)"
| "falsy (JStr s) = (s = [])"
| "falsy _ = False"

type_synonym value_registry = "(jstr option, jval) registry"

definition add_object :: "value_registry \<Rightarrow> jval \<Rightarrow> value_registry \<times> nat" where
  "add_object r obj = reg_add get_key r obj"

definition get_handle :: "value_registry \<Rightarrow> jval \<Rightarrow> nat option" where
  "get_handle r obj = hr_key_to_handle r (get_key obj)"

definition get_object :: "value_registry \<Rightarrow> nat \<Rightarrow> jval option" where
  "get_object r handle = hr_handle_to_obj r handle"

definition get_object_by_key :: "value_registry \<Rightarrow> jval \<Rightarrow> jval option" where
  "get_object_by_key r key =
     (case hr_key_to_handle r (get_key key) of Some handle \<Rightarrow> hr_handle_to_obj r handle | None \<Rightarrow> None)"

definition release_object :: "value_registry \<Rightarrow> nat \<Rightarrow> value_registry \<times> bool" where
  "release_object r handle = reg_release get_key falsy r handle"

definition clear_objects :: "value_registry \<Rightarrow> value_registry" where
  "clear_objects r = reg_clear r"

text \<open>\<open>ValueHandleRegistryPrimitive\<close>: strings, numbers and booleans are their own keys.\<close>

type_synonym item_registry = "(jval, jval) registry"

definition add_item :: "item_registry \<Rightarrow> jval \<Rightarrow> item_registry \<times> nat" where
  "add_item r item =
     (case hr_key_to_handle r item of
        Some existing \<Rightarrow> (r, existing)
      | None \<Rightarrow>
          let counter = hr_counter r + 1 in
          (r\<lparr>hr_counter := counter, hr_key_to_handle := (hr_key_to_handle r)(item \<mapsto> counter),
             hr_handle_to_obj := (hr_handle_to_obj r)(counter \<mapsto> item)\<rparr>, counter))"

definition get_item :: "item_registry \<Rightarrow> nat \<Rightarrow> jval option" where
  "get_item r handle = hr_handle_to_obj r handle"

definition release_item :: "item_registry \<Rightarrow> nat \<Rightarrow> item_registry \<times> bool" where
  "release_item r handle =
     (case hr_handle_to_obj r handle of
        None \<Rightarrow> (r, False)
      | Some obj \<Rightarrow>
          if falsy obj then (r, False)
          else (r\<lparr>hr_key_to_handle := (hr_key_to_handle r)(obj := None),
                  hr_handle_to_obj := (hr_handle_to_obj r)(handle := None)\<rparr>, True))"

definition clear_items :: "item_registry \<Rightarrow> item_registry" where
  "clear_items r =
     r\<lparr>hr_key_to_handle := Map.empty, hr_handle_to_obj := Map.empty, hr_counter := 0\<rparr>"

subsection \<open>The contract\<close>

text \<open>
  \<open>lookup\<close> is what a handle stands for, \<open>issued\<close> how many handles have been given out. \<open>add\<close>
  finds a value with the same key or gives out the next handle; \<open>release\<close> forgets at most the one
  handle.
\<close>

locale handle_registry =
  fixes invar :: "'s \<Rightarrow> bool"
    and key :: "'a \<Rightarrow> 'k"
    and lookup :: "'s \<Rightarrow> nat \<Rightarrow> 'a option"
    and issued :: "'s \<Rightarrow> nat"
    and add :: "'s \<Rightarrow> 'a \<Rightarrow> 's \<times> nat"
    and release :: "'s \<Rightarrow> nat \<Rightarrow> 's \<times> bool"
  assumes lookup_issued: "invar s \<Longrightarrow> lookup s h = Some x \<Longrightarrow> 0 < h \<and> h \<le> issued s"
    and keys_differ: "invar s \<Longrightarrow> lookup s h = Some x \<Longrightarrow> lookup s h' = Some x' \<Longrightarrow> key x = key x' \<Longrightarrow> h = h'"
    and add_known: "invar s \<Longrightarrow> lookup s h = Some x' \<Longrightarrow> key x' = key x \<Longrightarrow> add s x = (s, h)"
    and add_fresh: "invar s \<Longrightarrow> \<nexists>h x'. lookup s h = Some x' \<and> key x' = key x \<Longrightarrow>
        let (s', h) = add s x in invar s' \<and> h = issued s + 1 \<and> issued s' = h \<and> lookup s' = (lookup s)(h \<mapsto> x)"
    and release_one: "invar s \<Longrightarrow> let (s', b) = release s h in
        invar s' \<and> issued s' = issued s \<and> lookup s' = (if b then (lookup s)(h := None) else lookup s)"
begin

text \<open>A use of the registry: additions and releases.\<close>

fun use :: "'s \<Rightarrow> ('a + nat) list \<Rightarrow> 's" where
  "use s [] = s"
| "use s (Inl x # ops) = use (fst (add s x)) ops"
| "use s (Inr h # ops) = use (fst (release s h)) ops"

lemma add_cases:
  assumes "invar s"
  obtains (known) h x' where "lookup s h = Some x'" "key x' = key x" "add s x = (s, h)"
  | (fresh) s' where "add s x = (s', issued s + 1)" "invar s'" "issued s' = issued s + 1"
      "lookup s' = (lookup s)(issued s + 1 \<mapsto> x)"
proof (cases "\<exists>h x'. lookup s h = Some x' \<and> key x' = key x")
  case True
  with add_known[OF assms] known show ?thesis by blast
next
  case False
  with add_fresh[OF assms, of x] fresh show ?thesis by (cases "add s x") auto
qed

lemma add_invar: "invar s \<Longrightarrow> invar (fst (add s x)) \<and> issued s \<le> issued (fst (add s x))"
  by (cases rule: add_cases[of s x]) simp_all

lemma add_lookup: "invar s \<Longrightarrow> \<exists>x'. lookup (fst (add s x)) (snd (add s x)) = Some x' \<and> key x' = key x"
  by (cases rule: add_cases[of s x]) simp_all

lemma add_keeps:
  assumes "invar s" "lookup s h = Some x"
  shows "lookup (fst (add s y)) h = Some x"
  using lookup_issued[OF assms] assms by (cases rule: add_cases[OF assms(1), of y]) simp_all

lemma use_keeps:
  "invar s \<Longrightarrow> lookup s h = Some x \<Longrightarrow> Inr h \<notin> set ops \<Longrightarrow> invar (use s ops) \<and> lookup (use s ops) h = Some x"
proof (induction s ops rule: use.induct)
  case (2 s y ops)
  then show ?case using add_invar add_keeps by simp
next
  case (3 s h' ops)
  then show ?case using release_one[of s h'] by (auto simp: case_prod_beta split: if_splits)
qed simp

text \<open>The same handle exactly for the same key, as long as the handle is not released.\<close>

lemma handle_identifies_key:
  assumes "invar s" "add s x = (s1, h)" "Inr h \<notin> set ops" "add (use s1 ops) y = (s2, h')"
  shows "h' = h \<longleftrightarrow> key y = key x"
proof -
  obtain x' where x: "lookup s1 h = Some x'" "key x' = key x" using add_lookup[OF assms(1), of x] assms(2) by auto
  have "invar s1" using add_invar[OF assms(1), of x] assms(2) by simp
  from use_keeps[OF this x(1) assms(3)] have u: "invar (use s1 ops)" "lookup (use s1 ops) h = Some x'" by simp_all
  obtain y' where y: "lookup s2 h' = Some y'" "key y' = key y" using add_lookup[OF u(1), of y] assms(4) by auto
  have "lookup s2 h = Some x'" "invar s2" using add_keeps[OF u, of y] add_invar[OF u(1), of y] assms(4) by simp_all
  with x y keys_differ[of s2 h x' h' y'] show ?thesis by auto
qed

text \<open>A handle that was released is not given out again.\<close>

lemma use_issued: "invar s \<Longrightarrow> invar (use s ops) \<and> issued s \<le> issued (use s ops)"
proof (induction s ops rule: use.induct)
  case (2 s y ops)
  then show ?case using add_invar[of s y] by simp
next
  case (3 s h ops)
  then show ?case using release_one[of s h] by (auto simp: case_prod_beta)
qed simp

lemma use_forgotten:
  "invar s \<Longrightarrow> h \<le> issued s \<Longrightarrow> lookup s h = None \<Longrightarrow> lookup (use s ops) h = None"
proof (induction s ops rule: use.induct)
  case (2 s y ops)
  have "lookup (fst (add s y)) h = None"
    using 2(3,4) by (cases rule: add_cases[OF 2(2), of y]) simp_all
  with 2 add_invar[of s y] show ?case by simp
next
  case (3 s h' ops)
  then show ?case using release_one[of s h'] by (auto simp: case_prod_beta split: if_splits)
qed simp

lemma released_not_reused:
  assumes "invar s" "lookup s h = Some x" "release s h = (s1, True)" "add (use s1 ops) y = (s2, h')"
  shows "h' \<noteq> h"
proof -
  have s1: "invar s1" "issued s1 = issued s" "lookup s1 h = None"
    using release_one[OF assms(1), of h] assms(3) by auto
  have i: "h \<le> issued s1" using lookup_issued[OF assms(1,2)] s1(2) by simp
  from use_issued[OF s1(1), of ops] have u: "invar (use s1 ops)" and ui: "h \<le> issued (use s1 ops)"
    using i by auto
  have none: "lookup (use s1 ops) h = None" by (rule use_forgotten[OF s1(1) i s1(3)])
  have "lookup s2 h = None"
    using use_forgotten[OF u ui none, of "[Inl y]"] assms(4) by simp
  moreover have "\<exists>x'. lookup s2 h' = Some x'" using add_lookup[OF u, of y] assms(4) by auto
  ultimately show ?thesis by auto
qed

end

text \<open>The invariant of both: the two maps are inverse to each other, handles are at most \<open>counter\<close>.\<close>

definition hr_inv :: "('a \<Rightarrow> 'k) \<Rightarrow> ('k, 'a) registry \<Rightarrow> bool" where
  "hr_inv key r \<longleftrightarrow>
     (\<forall>k h. hr_key_to_handle r k = Some h \<longleftrightarrow> (\<exists>x. hr_handle_to_obj r h = Some x \<and> key x = k)) \<and>
     (\<forall>h x. hr_handle_to_obj r h = Some x \<longrightarrow> 0 < h \<and> h \<le> hr_counter r)"

lemma hr_inv_lookup: "hr_inv key r \<Longrightarrow> hr_handle_to_obj r h = Some x \<Longrightarrow> hr_key_to_handle r (key x) = Some h"
  unfolding hr_inv_def by blast

lemma hr_inv_new [simp]: "hr_inv key hr_new"
  by (simp add: hr_inv_def hr_new_def)

lemma hr_inv_insert:
  assumes inv: "hr_inv key r" and k: "hr_key_to_handle r (key x) = None"
  shows "hr_inv key (r\<lparr>hr_counter := Suc (hr_counter r),
      hr_key_to_handle := (hr_key_to_handle r)(key x \<mapsto> Suc (hr_counter r)),
      hr_handle_to_obj := (hr_handle_to_obj r)(Suc (hr_counter r) \<mapsto> x)\<rparr>)"
proof -
  have "hr_handle_to_obj r h \<noteq> None \<Longrightarrow> h \<le> hr_counter r" for h using inv by (auto simp: hr_inv_def)
  then have n: "hr_handle_to_obj r (Suc (hr_counter r)) = None" by (metis Suc_n_not_le_n)
  show ?thesis using inv k n unfolding hr_inv_def
    by (auto simp: le_Suc_eq) (metis option.distinct(1))+
qed

lemma hr_inv_delete:
  assumes inv: "hr_inv key r" and x: "hr_handle_to_obj r h = Some x"
  shows "hr_inv key (r\<lparr>hr_key_to_handle := (hr_key_to_handle r)(key x := None),
      hr_handle_to_obj := (hr_handle_to_obj r)(h := None)\<rparr>)"
  using inv hr_inv_lookup[OF inv x] x unfolding hr_inv_def by (auto, metis option.inject)

lemma hr_keys_differ:
  "hr_inv key r \<Longrightarrow> hr_handle_to_obj r h = Some x \<Longrightarrow> hr_handle_to_obj r h' = Some x' \<Longrightarrow> key x = key x' \<Longrightarrow> h = h'"
  using hr_inv_lookup by (metis option.inject)

lemma hr_no_key:
  "hr_inv key r \<Longrightarrow> \<nexists>h x'. hr_handle_to_obj r h = Some x' \<and> key x' = key x \<Longrightarrow> hr_key_to_handle r (key x) = None"
  unfolding hr_inv_def by (metis not_None_eq)

lemmas hr_ops = reg_add_def reg_release_def add_object_def release_object_def get_object_def add_item_def release_item_def get_item_def

interpretation objects: handle_registry "hr_inv get_key" get_key get_object hr_counter add_object release_object
proof unfold_locales
  fix s :: value_registry and h h' x x'
  assume inv: "hr_inv get_key s"
  show "get_object s h = Some x \<Longrightarrow> 0 < h \<and> h \<le> hr_counter s"
    using inv by (auto simp: hr_inv_def get_object_def)
  show "get_object s h = Some x \<Longrightarrow> get_object s h' = Some x' \<Longrightarrow> get_key x = get_key x' \<Longrightarrow> h = h'"
    using hr_keys_differ[OF inv] by (simp add: get_object_def)
  show "get_object s h = Some x' \<Longrightarrow> get_key x' = get_key x \<Longrightarrow> add_object s x = (s, h)"
    using hr_inv_lookup[OF inv, of h x'] by (simp add: hr_ops)
  show "\<nexists>h x'. get_object s h = Some x' \<and> get_key x' = get_key x \<Longrightarrow>
      let (s', h) = add_object s x in hr_inv get_key s' \<and> h = hr_counter s + 1 \<and> hr_counter s' = h \<and>
        get_object s' = (get_object s)(h \<mapsto> x)"
    using hr_no_key[OF inv, of x] hr_inv_insert[OF inv, of x] by (auto simp: hr_ops Let_def fun_upd_def)
  show "let (s', b) = release_object s h in hr_inv get_key s' \<and> hr_counter s' = hr_counter s \<and>
      get_object s' = (if b then (get_object s)(h := None) else get_object s)"
    using inv hr_inv_delete[OF inv, of h] by (auto simp: hr_ops fun_upd_def split: option.split)
qed

interpretation items: handle_registry "hr_inv id" id get_item hr_counter add_item release_item
proof unfold_locales
  fix s :: item_registry and h h' x x'
  assume inv: "hr_inv id s"
  show "get_item s h = Some x \<Longrightarrow> 0 < h \<and> h \<le> hr_counter s"
    using inv by (auto simp: hr_inv_def get_item_def)
  show "get_item s h = Some x \<Longrightarrow> get_item s h' = Some x' \<Longrightarrow> id x = id x' \<Longrightarrow> h = h'"
    using hr_keys_differ[OF inv] by (simp add: get_item_def)
  show "get_item s h = Some x' \<Longrightarrow> id x' = id x \<Longrightarrow> add_item s x = (s, h)"
    using hr_inv_lookup[OF inv, of h x'] by (simp add: hr_ops)
  show "\<nexists>h x'. get_item s h = Some x' \<and> id x' = id x \<Longrightarrow>
      let (s', h) = add_item s x in hr_inv id s' \<and> h = hr_counter s + 1 \<and> hr_counter s' = h \<and>
        get_item s' = (get_item s)(h \<mapsto> x)"
    using hr_no_key[OF inv, of x] hr_inv_insert[OF inv, of x] by (auto simp: hr_ops Let_def fun_upd_def)
  show "let (s', b) = release_item s h in hr_inv id s' \<and> hr_counter s' = hr_counter s \<and>
      get_item s' = (if b then (get_item s)(h := None) else get_item s)"
    using inv hr_inv_delete[OF inv, of h] by (auto simp: hr_ops fun_upd_def split: option.split)
qed

subsection \<open>The text form determines the value\<close>

text \<open>
  Plain JSON data: no \<open>undefined\<close>, dates, regular expressions or objects with keys of their own, whose
  texts can coincide with those of other values. \<open>canon\<close> sorts the fields of every object.
\<close>

fun plain :: "jval \<Rightarrow> bool" where
  "plain JUndefined = False"
| "plain (JDate _) = False"
| "plain (JRegExp _) = False"
| "plain (JIdentifiable _) = False"
| "plain (JArr vs) = list_all plain vs"
| "plain (JObj fs) = list_all (\<lambda>(_, v). plain v) fs"
| "plain _ = True"

fun canon :: "jval \<Rightarrow> jval" where
  "canon (JArr vs) = JArr (map canon vs)"
| "canon (JObj fs) = JObj (sort_key fst (map (\<lambda>(k, v). (k, canon v)) fs))"
| "canon v = v"

lemma insort_key_map: "insort_key f (g x) (map g xs) = map g (insort_key (\<lambda>y. f (g y)) x xs)"
  by (induction xs) auto

lemma sort_key_map: "sort_key f (map g xs) = map g (sort_key (\<lambda>y. f (g y)) xs)"
  by (induction xs) (auto simp: insort_key_map)

lemma sort_fields: "sort_key fst (map (\<lambda>p. (fst p, h (snd p))) fs) = map (\<lambda>p. (fst p, h (snd p))) (sort_key fst fs)"
  by (simp add: sort_key_map)

text \<open>Only the order of the fields is forgotten.\<close>

lemma canon_field_order:
  assumes "distinct (map fst fs)" "distinct (map fst gs)" "set fs = set gs"
  shows "canon (JObj fs) = canon (JObj gs)"
proof -
  have "inj_on fst (set fs \<union> set gs)" using assms by (simp add: distinct_map)
  then have "sort_key fst fs = sort_key fst gs"
    using assms by (intro map_sorted_distinct_set_unique[where f = fst]) (simp_all add: distinct_map distinct_sort)
  then show ?thesis by (simp add: case_prod_unfold sort_fields)
qed

lemma stable_canon: "stable_stringify (canon v) = stable_stringify v"
proof (induction v)
  case (JArr vs)
  then have "map (\<lambda>v. case stable_stringify (canon v) of None \<Rightarrow> [] | Some t \<Rightarrow> t) vs =
      map (\<lambda>v. case stable_stringify v of None \<Rightarrow> [] | Some t \<Rightarrow> t) vs"
    by (intro map_cong) simp_all
  then show ?case by (simp add: comp_def del: map_eq_conv)
next
  case (JObj fs)
  have "stable_stringify (canon v) = stable_stringify v" if "(k, v) \<in> set fs" for k v
    using JObj[of "(k, v)" v] that by simp
  then have "map (\<lambda>(k, v). json_string k @ '':'' @ (case stable_stringify (canon v) of
        Some t \<Rightarrow> t | None \<Rightarrow> ''undefined'')) (sort_key fst fs) =
      map (\<lambda>(k, v). json_string k @ '':'' @ (case stable_stringify v of
        Some t \<Rightarrow> t | None \<Rightarrow> ''undefined'')) (sort_key fst fs)"
    by (intro map_cong) (auto simp: case_prod_beta)
  moreover have "sort_key fst (sort_key fst (map (\<lambda>(k, v). (k, canon v)) fs)) =
      sort_key fst (map (\<lambda>(k, v). (k, canon v)) fs)"
    by (rule sort_key_id_if_sorted) simp
  ultimately show ?case by (simp add: sort_fields comp_def case_prod_unfold del: map_eq_conv)
qed simp_all

text \<open>Reading the texts back, each with what follows it.\<close>

lemma json_char_head: "json_char c \<noteq> [] \<and> hd (json_char c) \<noteq> DQ"
  by (simp add: json_char_def)

lemma json_char_not_quote: "json_char c @ x \<noteq> DQ # y"
  using json_char_head[of c] by (cases "json_char c") auto

definition hex_val :: "char \<Rightarrow> nat" where
  "hex_val c = (if is_digit c then of_char c - 48 else of_char c - 87)"

definition read_char :: "jstr \<Rightarrow> char \<times> jstr" where
  "read_char s =
     (if hd s \<noteq> BSL then (hd s, tl s)
      else let e = s ! 1 in
        if e = CHR ''u'' then (char_of (16 * hex_val (s ! 4) + hex_val (s ! 5)), drop 6 s)
        else (if e = CHR ''b'' then CHR 0x08 else if e = CHR ''t'' then CHR 0x09
              else if e = CHR ''n'' then CHR 0x0A else if e = CHR ''f'' then CHR 0x0C
              else if e = CHR ''r'' then CHR 0x0D else e, drop 2 s))"

lemma hex_val_hex_digit: "i < 16 \<Longrightarrow> hex_val (hex_digit i) = i"
  by (auto simp: hex_val_def hex_digit_def is_digit_def take_bit_eq_mod)

lemma read_json_char: "read_char (json_char c @ x) = (c, x)"
proof (cases "c = DQ \<or> c = BSL \<or> c = CHR 0x08 \<or> c = CHR 0x09 \<or> c = CHR 0x0A \<or> c = CHR 0x0C \<or> c = CHR 0x0D")
  case True
  then show ?thesis by (elim disjE) (simp_all add: json_char_def read_char_def)
next
  case False
  show ?thesis
  proof (cases "of_char c < (32 :: nat)")
    case True
    then have "hex_val (hex_digit (of_char c div 16)) = of_char c div 16"
      "hex_val (hex_digit (of_char c mod 16)) = of_char c mod 16"
      by (simp_all add: hex_val_hex_digit)
    moreover have "json_char c = [BSL, CHR ''u'', CHR ''0'', CHR ''0'', hex_digit (of_char c div 16), hex_digit (of_char c mod 16)]"
      using False True by (simp add: json_char_def)
    moreover have "read_char ([BSL, CHR ''u'', CHR ''0'', CHR ''0'', a, b] @ x) = (char_of (16 * hex_val a + hex_val b), x)"
      for a b by (simp add: read_char_def)
    ultimately show ?thesis by simp
  next
    case False2: False
    with False show ?thesis by (simp add: json_char_def read_char_def)
  qed
qed

lemma json_char_inj: "json_char c @ x = json_char d @ y \<Longrightarrow> c = d \<and> x = y"
  using read_json_char by (metis prod.inject)

lemma json_string_inj: "json_string s @ r = json_string t @ r' \<Longrightarrow> s = t \<and> r = r'"
proof (induction s arbitrary: t)
  case Nil
  then show ?case using json_char_not_quote by (cases t) (auto simp: json_string_def dest!: sym[of "DQ # _"])
next
  case (Cons c s)
  from Cons.prems show ?case
  proof (cases t)
    case Nil
    with Cons.prems json_char_not_quote[of c] show ?thesis by (simp add: json_string_def)
  next
    case (Cons d t')
    with Cons.prems have "json_char c @ concat (map json_char s) @ DQ # r = json_char d @ concat (map json_char t') @ DQ # r'"
      by (simp add: json_string_def)
    from json_char_inj[OF this] Cons.IH[of t'] Cons show ?thesis by (simp add: json_string_def)
  qed
qed

text \<open>A value is followed by the end of the text or by one of these.\<close>

definition delim :: "jstr \<Rightarrow> bool" where
  "delim r \<longleftrightarrow> r = [] \<or> hd r \<in> set '',]}''"

lemma delim_not_digit: "delim r \<Longrightarrow> r = [] \<or> \<not> is_digit (hd r)"
  by (auto simp: delim_def is_digit_def)

lemma show_nat_read:
  assumes "show_nat m @ r = show_nat n @ r'" "delim r" "delim r'"
  shows "m = n \<and> r = r'"
proof -
  note d = show_nat_digits[of m] show_nat_digits[of n] delim_not_digit[OF assms(2)] delim_not_digit[OF assms(3)]
  have "show_nat m = show_nat n" "r = r'"
    using takeWhile_digits_append[OF d(1,3)] takeWhile_digits_append[OF d(2,4)]
      dropWhile_digits_append[OF d(1,3)] dropWhile_digits_append[OF d(2,4)] assms(1) by simp_all
  then show ?thesis by simp
qed

lemma show_nat_head: "is_digit (hd (show_nat n))"
  using show_nat_digits[of n] by simp

lemma show_int_read:
  assumes "show_int i @ r = show_int j @ r'" "delim r" "delim r'"
  shows "i = j \<and> r = r'"
proof -
  have m: "\<not> is_digit (CHR ''-'')" by (simp add: is_digit_def)
  have ne: "CHR ''-'' # x \<noteq> show_nat n @ y" for x n y
    using show_nat_head[of n] m by (metis hd_append list.sel(1) show_nat_ne)
  show ?thesis
  proof (cases "i < 0"; cases "j < 0")
    assume "i < 0" "j < 0"
    with assms show ?thesis using show_nat_read[of "nat (- i)" r "nat (- j)" r']
      by (simp add: show_int_def eq_nat_nat_iff)
  next
    assume "\<not> i < 0" "\<not> j < 0"
    with assms show ?thesis using show_nat_read[of "nat i" r "nat j" r']
      by (simp add: show_int_def) arith
  qed (use assms(1) ne[of _ "nat i" r, symmetric] ne[of _ "nat j" r'] in \<open>simp_all add: show_int_def\<close>)
qed

text \<open>Lists of texts: \<open>f\<close> writes an element so that it can be read back up to \<open>c\<close>.\<close>

definition reads_back :: "('a \<Rightarrow> jstr) \<Rightarrow> ('a \<Rightarrow> 'b) \<Rightarrow> 'a \<Rightarrow> 'a \<Rightarrow> bool" where
  "reads_back f c x y \<longleftrightarrow> (\<forall>r r'. delim r \<longrightarrow> delim r' \<longrightarrow> f x @ r = f y @ r' \<longrightarrow> c x = c y \<and> r = r')"

lemma reads_backD: "reads_back f c x y \<Longrightarrow> delim r \<Longrightarrow> delim r' \<Longrightarrow> f x @ r = f y @ r' \<Longrightarrow> c x = c y \<and> r = r'"
  by (simp add: reads_back_def)

lemma join_with_Cons: "join_with '','' (x # xs) = x @ concat (map ((#) CHR '','') xs)"
  by (induction xs arbitrary: x) simp_all

lemma tail_inj:
  assumes "\<forall>x \<in> set xs. \<forall>y \<in> set ys. reads_back f c x y" "e \<in> set '']}''"
    and "concat (map ((#) CHR '','') (map f xs)) @ e # r = concat (map ((#) CHR '','') (map f ys)) @ e # r'"
  shows "map c xs = map c ys \<and> r = r'"
  using assms
proof (induction xs arbitrary: ys)
  case Nil
  then show ?case by (cases ys) auto
next
  case (Cons x xs)
  then obtain y ys' where ys: "ys = y # ys'" by (cases ys) auto
  have d: "delim (concat (map ((#) CHR '','') (map f zs)) @ e # q)" for zs q
    using Cons.prems(2) by (cases zs) (auto simp: delim_def)
  from Cons.prems(1) ys have "reads_back f c x y" by simp
  from reads_backD[OF this d d, of xs r ys' r'] Cons.prems(3) ys
  have 1: "c x = c y" "concat (map ((#) CHR '','') (map f xs)) @ e # r = concat (map ((#) CHR '','') (map f ys')) @ e # r'"
    by simp_all
  from Cons.IH[OF _ Cons.prems(2) 1(2)] Cons.prems(1) ys 1(1) show ?case by simp
qed

lemma join_inj:
  assumes r: "\<forall>x \<in> set xs. \<forall>y \<in> set ys. reads_back f c x y" and e: "e \<in> set '']}''"
    and h: "\<forall>x \<in> set xs \<union> set ys. f x \<noteq> [] \<and> hd (f x) \<notin> set '']}''"
    and eq: "join_with '','' (map f xs) @ e # r = join_with '','' (map f ys) @ e # r'"
  shows "map c xs = map c ys \<and> r = r'"
proof (cases xs)
  case Nil
  show ?thesis
  proof (cases ys)
    case (Cons y ys')
    with Nil eq have "e # r = f y @ concat (map ((#) CHR '','') (map f ys')) @ e # r'" by (simp add: join_with_Cons)
    then have "hd (f y) = e" using h Cons by (cases "f y") auto
    with h e Cons show ?thesis by auto
  qed (use Nil eq in simp)
next
  case (Cons x xs')
  note xs = this
  show ?thesis
  proof (cases ys)
    case Nil
    with xs eq have "e # r' = f x @ concat (map ((#) CHR '','') (map f xs')) @ e # r" by (simp add: join_with_Cons)
    then have "hd (f x) = e" using h xs by (cases "f x") auto
    with h e xs show ?thesis by auto
  next
    case (Cons y ys')
    have "concat (map ((#) CHR '','') (map f xs)) @ e # r = concat (map ((#) CHR '','') (map f ys)) @ e # r'"
      using eq xs Cons by (simp add: join_with_Cons)
    from tail_inj[OF r e this] show ?thesis .
  qed
qed

text \<open>The text of plain data, without the option.\<close>

definition text_of :: "jval \<Rightarrow> jstr" where
  "text_of v = (case stable_stringify v of Some t \<Rightarrow> t | None \<Rightarrow> ''undefined'')"

lemma text_of_plain: "plain v \<Longrightarrow> stable_stringify v = Some (text_of v)"
  by (cases v) (simp_all add: text_of_def)

definition field_text :: "jstr \<times> jval \<Rightarrow> jstr" where
  "field_text p = json_string (fst p) @ '':'' @ text_of (snd p)"

lemma text_of_simps:
  "text_of JNull = ''null''" "text_of (JBool b) = (if b then ''true'' else ''false'')"
  "text_of (JInt i) = show_int i" "text_of (JStr s) = json_string s"
  "list_all plain vs \<Longrightarrow> text_of (JArr vs) = CHR ''['' # join_with '','' (map text_of vs) @ '']''"
  "text_of (JObj fs) = CHR ''{'' # join_with '','' (map field_text (sort_key fst fs)) @ ''}''"
proof -
  assume p: "list_all plain vs"
  then have "map (\<lambda>v. case stable_stringify v of Some t \<Rightarrow> t | None \<Rightarrow> []) vs = map text_of vs"
    by (intro map_cong) (auto simp: text_of_plain list_all_iff)
  then show "text_of (JArr vs) = CHR ''['' # join_with '','' (map text_of vs) @ '']''"
    by (simp add: text_of_def del: map_eq_conv)
qed (simp_all add: text_of_def field_text_def case_prod_unfold cong: map_cong)

lemma show_int_head: "show_int i \<noteq> [] \<and> hd (show_int i) \<notin> set [CHR ''n'', CHR ''t'', CHR ''f'', DQ, CHR ''['', CHR ''{'', CHR '']'', CHR ''}'']"
proof -
  have "is_digit c \<Longrightarrow> c \<notin> set [CHR ''n'', CHR ''t'', CHR ''f'', DQ, CHR ''['', CHR ''{'', CHR '']'', CHR ''}'']" for c
    by (auto simp: is_digit_def)
  then show ?thesis using show_nat_head by (simp add: show_int_def)
qed

lemma text_of_head: "plain v \<Longrightarrow> text_of v \<noteq> [] \<and> hd (text_of v) \<notin> set '']}''"
  using show_int_head by (cases v) (auto simp: text_of_simps json_string_def)

text \<open>The first character tells the kind of a value.\<close>

fun kind :: "jval \<Rightarrow> nat" where
  "kind JNull = 0" | "kind (JBool _) = 1" | "kind (JInt _) = 2" | "kind (JStr _) = 3"
| "kind (JArr _) = 4" | "kind (JObj _) = 5" | "kind _ = 6"

definition kind_char :: "char \<Rightarrow> nat" where
  "kind_char c = (if c = CHR ''n'' then 0 else if c = CHR ''t'' \<or> c = CHR ''f'' then 1
     else if c = DQ then 3 else if c = CHR ''['' then 4 else if c = CHR ''{'' then 5 else 2)"

lemma kind_text: "plain v \<Longrightarrow> kind_char (hd (text_of v)) = kind v"
proof (cases v)
  case (JInt i)
  have "kind_char (hd (show_int i)) = 2"
    using show_int_head[of i] by (simp add: kind_char_def)
  with JInt show ?thesis by (simp add: text_of_simps)
qed (simp_all add: text_of_simps json_string_def kind_char_def)

lemma same_kind:
  assumes "plain v" "plain w" "text_of v @ r = text_of w @ r'"
  shows "kind v = kind w"
proof -
  have "hd (text_of v) = hd (text_of w)"
    using text_of_head[OF assms(1)] text_of_head[OF assms(2)] assms(3) by (metis hd_append)
  then show ?thesis using kind_text assms(1,2) by metis
qed

lemma reads_backI:
  assumes "plain v" "plain w"
    and "\<And>r r'. kind v = kind w \<Longrightarrow> delim r \<Longrightarrow> delim r' \<Longrightarrow> text_of v @ r = text_of w @ r' \<Longrightarrow>
      canon v = canon w \<and> r = r'"
  shows "reads_back text_of canon v w"
  unfolding reads_back_def using assms same_kind by blast

text \<open>The text of plain data, with what follows it, determines the data up to the order of fields.\<close>

lemma array_reads_back:
  assumes "\<forall>x \<in> set vs. \<forall>y \<in> set ws. reads_back text_of canon x y"
    and p: "list_all plain vs" "list_all plain ws"
    and "text_of (JArr vs) @ r = text_of (JArr ws) @ r'"
  shows "canon (JArr vs) = canon (JArr ws) \<and> r = r'"
proof -
  have "\<forall>x \<in> set vs \<union> set ws. text_of x \<noteq> [] \<and> hd (text_of x) \<notin> set '']}''"
    using p text_of_head by (auto simp: list_all_iff)
  from join_inj[OF assms(1) _ this, of "CHR '']''" r r'] assms(4) p show ?thesis by (simp add: text_of_simps)
qed

lemma object_reads_back:
  assumes rb: "\<forall>x \<in> set fs. \<forall>y \<in> set gs. reads_back text_of canon (snd x) (snd y)"
    and "text_of (JObj fs) @ r = text_of (JObj gs) @ r'"
  shows "canon (JObj fs) = canon (JObj gs) \<and> r = r'"
proof -
  let ?c = "\<lambda>p. (fst p, canon (snd p))"
  have "reads_back field_text ?c x y" if "x \<in> set fs" "y \<in> set gs" for x y
    unfolding reads_back_def
  proof (intro allI impI)
    fix r r' assume d: "delim r" "delim r'" and e: "field_text x @ r = field_text y @ r'"
    from e have "json_string (fst x) @ CHR '':'' # text_of (snd x) @ r = json_string (fst y) @ CHR '':'' # text_of (snd y) @ r'"
      by (simp add: field_text_def)
    from json_string_inj[OF this] have "fst x = fst y" "text_of (snd x) @ r = text_of (snd y) @ r'" by simp_all
    with reads_backD[OF _ d, of text_of canon "snd x" "snd y"] rb that show "?c x = ?c y \<and> r = r'" by simp
  qed
  then have 1: "\<forall>x \<in> set (sort_key fst fs). \<forall>y \<in> set (sort_key fst gs). reads_back field_text ?c x y" by simp
  have 2: "\<forall>x \<in> set (sort_key fst fs) \<union> set (sort_key fst gs). field_text x \<noteq> [] \<and> hd (field_text x) \<notin> set '']}''"
    by (auto simp: field_text_def json_string_def)
  from join_inj[OF 1 _ 2, of "CHR ''}''" r r'] assms(2)
  have "map ?c (sort_key fst fs) = map ?c (sort_key fst gs) \<and> r = r'" by (simp add: text_of_simps)
  then show ?thesis by (simp add: case_prod_unfold sort_fields del: map_eq_conv)
qed

lemma plain_reads_back:
  "plain v \<Longrightarrow> plain w \<Longrightarrow> reads_back text_of canon v w"
proof (induction v arbitrary: w)
  case JNull
  show ?case by (rule reads_backI) (use JNull in \<open>cases w; simp_all add: text_of_simps\<close>)+
next
  case (JBool b)
  show ?case by (rule reads_backI) (use JBool in \<open>cases w; simp_all add: text_of_simps split: if_splits\<close>)+
next
  case (JInt i)
  show ?case
  proof (rule reads_backI)
    fix r r' assume k: "kind (JInt i) = kind w" and h: "delim r" "delim r'" "text_of (JInt i) @ r = text_of w @ r'"
    from k JInt.prems obtain j where w: "w = JInt j" by (cases w) auto
    with h show_int_read[of i r j r'] show "canon (JInt i) = canon w \<and> r = r'" by (simp add: text_of_simps)
  qed (use JInt.prems in auto)
next
  case (JStr s)
  show ?case
  proof (rule reads_backI)
    fix r r' assume k: "kind (JStr s) = kind w" and h: "text_of (JStr s) @ r = text_of w @ r'"
    from k JStr.prems obtain t where w: "w = JStr t" by (cases w) auto
    with h json_string_inj[of s r t r'] show "canon (JStr s) = canon w \<and> r = r'" by (simp add: text_of_simps)
  qed (use JStr.prems in auto)
next
  case (JArr vs)
  show ?case
  proof (rule reads_backI)
    fix r r' assume k: "kind (JArr vs) = kind w" and h: "text_of (JArr vs) @ r = text_of w @ r'"
    from k JArr.prems obtain ws where w: "w = JArr ws" by (cases w) auto
    from JArr.IH JArr.prems w have "\<forall>x \<in> set vs. \<forall>y \<in> set ws. reads_back text_of canon x y"
      by (auto simp: list_all_iff)
    from array_reads_back[OF this, of r r'] h w JArr.prems show "canon (JArr vs) = canon w \<and> r = r'" by simp
  qed (use JArr.prems in auto)
next
  case (JObj fs)
  show ?case
  proof (rule reads_backI)
    fix r r' assume k: "kind (JObj fs) = kind w" and h: "text_of (JObj fs) @ r = text_of w @ r'"
    from k JObj.prems obtain gs where w: "w = JObj gs" by (cases w) auto
    have "reads_back text_of canon (snd x) (snd y)" if "x \<in> set fs" "y \<in> set gs" for x y
      using JObj.IH[of x "snd x" "snd y"] that JObj.prems w by (cases x; cases y) (fastforce simp: list_all_iff)
    with object_reads_back[of fs gs r r'] h w show "canon (JObj fs) = canon w \<and> r = r'" by simp
  qed (use JObj.prems in auto)
qed simp_all

lemma stable_eq_iff:
  assumes "plain v" "plain w"
  shows "stable_stringify v = stable_stringify w \<longleftrightarrow> canon v = canon w"
proof
  assume "stable_stringify v = stable_stringify w"
  then have "text_of v @ [] = text_of w @ []" using assms by (simp add: text_of_plain)
  with reads_backD[OF plain_reads_back[OF assms], of "[]" "[]"] show "canon v = canon w" by (simp add: delim_def)
qed (metis stable_canon)

lemma get_key_stable: "get_key v = stable_stringify v"
  by (cases v) (simp_all add: get_key_def)

subsection \<open>Properties\<close>

text \<open>
  C13: Handles stand for values. Whatever is added and released afterwards, as long as the handle
  of \<open>v\<close> is not released and the registry not cleared, adding \<open>w\<close> returns the handle of \<open>v\<close> exactly when both have the
  same key: values with a \<open>toValueKey\<close> method when it returns the same text, plain data when \<open>w\<close> is the same
  data up to the order of the fields of its objects. And the handle still leads to that value.
\<close>

theorem handles_identify_values:
  assumes "Inr h \<notin> set ops"
    and "add_object (objects.use hr_new ops0) v = (r, h)" "add_object (objects.use r ops) w = (r', h')"
  shows "(h' = h \<longleftrightarrow> get_key w = get_key v) \<and> (\<exists>u. get_object (objects.use r ops) h = Some u \<and> get_key u = get_key v) \<and>
    (v = JIdentifiable k1 \<and> w = JIdentifiable k2 \<longrightarrow> (h' = h \<longleftrightarrow> k2 = k1)) \<and>
    (plain v \<and> plain w \<longrightarrow> (h' = h \<longleftrightarrow> canon w = canon v))"
proof -
  have inv: "hr_inv get_key (objects.use hr_new ops0)" using objects.use_issued[OF hr_inv_new] by blast
  obtain u where u: "get_object r h = Some u" "get_key u = get_key v"
    using objects.add_lookup[OF inv, of v] assms(2) by auto
  have "hr_inv get_key r" using objects.add_invar[OF inv, of v] assms(2) by simp
  from objects.use_keeps[OF this u(1) assms(1)] u(2)
  have "\<exists>u. get_object (objects.use r ops) h = Some u \<and> get_key u = get_key v" by blast
  moreover have "h' = h \<longleftrightarrow> get_key w = get_key v"
    using objects.handle_identifies_key[OF inv assms(2,1,3)] .
  ultimately show ?thesis using stable_eq_iff[of w v] by (auto simp: get_key_stable)
qed

theorem handles_identify_values_witness:
  "snd (add_object (fst (add_object hr_new (JObj [(''b'', JInt 1), (''a'', JNull)])))
     (JObj [(''a'', JNull), (''b'', JInt 1)])) =
   snd (add_object hr_new (JObj [(''b'', JInt 1), (''a'', JNull)]))"
proof -
  have c: "canon (JObj [(''a'', JNull), (''b'', JInt 1)]) = canon (JObj [(''b'', JInt 1), (''a'', JNull)])"
    by (rule canon_field_order) auto
  let ?v = "JObj [(''b'', JInt 1), (''a'', JNull)]" and ?w = "JObj [(''a'', JNull), (''b'', JInt 1)]"
  let ?r = "add_object hr_new ?v"
  let ?s = "add_object (fst ?r) ?w"
  have p: "plain ?v" "plain ?w" and n: "Inr (snd ?r) \<notin> set ([] :: (jval + nat) list)"
    and a: "add_object (objects.use hr_new []) ?v = (fst ?r, snd ?r)"
    and b: "add_object (objects.use (fst ?r) []) ?w = (fst ?s, snd ?s)" by simp_all
  from handles_identify_values[OF n a b] p c show ?thesis by blast
qed

text \<open>
  A handle that was released never comes back: no later addition returns it, whatever happens
  in between, as long as the registry is not cleared.
\<close>

theorem released_handle_not_reused:
  assumes "get_object (objects.use hr_new ops0) h = Some x"
    and "release_object (objects.use hr_new ops0) h = (r, True)" "add_object (objects.use r ops) y = (r', h')"
  shows "h' \<noteq> h"
proof -
  have "hr_inv get_key (objects.use hr_new ops0)" using objects.use_issued[OF hr_inv_new] by blast
  from objects.released_not_reused[OF this assms] show ?thesis .
qed

theorem released_handle_not_reused_witness:
  "let r = fst (add_object hr_new (JStr ''x'')); r1 = fst (release_object r 1) in
    snd (add_object r1 (JStr ''x'')) \<noteq> 1 \<and> snd (release_object r 1)"
proof -
  let ?r = "fst (add_object hr_new (JStr ''x''))"
  have s: "snd (release_object ?r 1)" by (simp add: hr_ops hr_new_def)
  have "get_object (objects.use hr_new [Inl (JStr ''x'')]) 1 = Some (JStr ''x'')"
    by (simp add: hr_ops hr_new_def)
  moreover have "release_object (objects.use hr_new [Inl (JStr ''x'')]) 1 = (fst (release_object ?r 1), True)"
    using s by (simp add: prod_eq_iff)
  moreover have "add_object (objects.use (fst (release_object ?r 1)) []) (JStr ''x'') =
      (fst (add_object (fst (release_object ?r 1)) (JStr ''x'')), snd (add_object (fst (release_object ?r 1)) (JStr ''x'')))"
    by simp
  ultimately have "snd (add_object (fst (release_object ?r 1)) (JStr ''x'')) \<noteq> 1"
    by (rule released_handle_not_reused)
  with s show ?thesis by (simp only: Let_def simp_thms)
qed

text \<open>
  Falsy values cannot be released: \<open>release\<close> takes them for absent and keeps them.
\<close>

lemma falsy_item_not_released:
  assumes "falsy x"
  shows "let (r, h) = add_item hr_new x in get_item r h = Some x \<and> release_item r h = (r, False)"
  using assms by (simp add: hr_ops hr_new_def)

end
