(* ===== verification/SerialConn.thy ===== *)
theory SerialConn
  imports ProxyFrames "HOL-Library.AList"
begin

text \<open>
  One connection of the serial port manager to a proxy: \<open>ProxyConnection\<close> and
  \<open>ProxySerialTcpServer\<close> of \<open>packages/mcu-debug/src/common/serial-manager.ts\<close>.

  The frames are those of \<open>ProxyFrames\<close>, reassembled by the same loop. Modelled here are the
  request table, the lists of ports, the funnel: bytes of a stream that arrive before its listener
  exists, the listeners and what they hold while no terminal is connected. JSON texts are modelled
  by their decoded content; \<open>'c\<close> is what a caller of \<open>openSerialPort\<close> goes on to do.
\<close>

subsection \<open>Listeners\<close>

definition max_pending_bytes :: nat where "max_pending_bytes = 100 * 1024"
definition keep_pending_bytes :: nat where "keep_pending_bytes = 50 * 1024"

text \<open>
  \<open>ss_client\<close> is the accepted socket, \<open>Some False\<close> once it has been destroyed; \<open>sv_port\<close> the
  value of the \<open>ready\<close> promise, 0 when binding failed.
\<close>

record serial_server =
  sv_stream :: nat
  sv_path :: jstr
  sv_port :: "nat option"
  sv_client :: "bool option"
  sv_pending :: "bytes list"
  sv_pending_bytes :: nat

definition sv_new :: "nat \<Rightarrow> jstr \<Rightarrow> serial_server" where
  "sv_new stream_id path =
     \<lparr>sv_stream = stream_id, sv_path = path, sv_port = None, sv_client = None, sv_pending = [], sv_pending_bytes = 0\<rparr>"

definition get_port :: "serial_server \<Rightarrow> nat" where
  "get_port sv = (case sv_port sv of Some p \<Rightarrow> p | None \<Rightarrow> 0)"

text \<open>The loop that drops the oldest chunks.\<close>

fun drop_oldest :: "nat \<Rightarrow> bytes list \<Rightarrow> nat \<times> bytes list" where
  "drop_oldest n (c # d # cs) =
     (if keep_pending_bytes < n then drop_oldest (n - length c) (d # cs) else (n, c # d # cs))"
| "drop_oldest n cs = (n, cs)"

definition sv_data_from_server :: "serial_server \<Rightarrow> bytes \<Rightarrow> serial_server \<times> bytes list" where
  "sv_data_from_server sv data =
     (if sv_client sv = Some True then (sv, [data])
      else if 0 < length data then
        let pending = sv_pending sv @ [data]; n = sv_pending_bytes sv + length data in
        if max_pending_bytes < n
        then (let (n', pending') = drop_oldest n pending
              in (sv\<lparr>sv_pending := pending', sv_pending_bytes := n'\<rparr>, []))
        else (sv\<lparr>sv_pending := pending, sv_pending_bytes := n\<rparr>, [])
      else (sv, []))"

text \<open>A terminal connects; a previous one is destroyed.\<close>

definition sv_accept :: "serial_server \<Rightarrow> serial_server \<times> bytes list" where
  "sv_accept sv =
     (let sv1 = sv\<lparr>sv_client := Some True\<rparr> in
      if 0 < sv_pending_bytes sv1
      then (sv1\<lparr>sv_pending := [], sv_pending_bytes := 0\<rparr>, [concat (sv_pending sv1)])
      else (sv1, []))"

definition sv_client_gone :: "serial_server \<Rightarrow> serial_server" where
  "sv_client_gone sv = (if sv_client sv = Some True then sv\<lparr>sv_client := Some False\<rparr> else sv)"

text \<open>\<open>listen\<close> calls back with the bound port, or fails with an error; only the first counts.\<close>

definition sv_listening :: "serial_server \<Rightarrow> nat \<Rightarrow> serial_server" where
  "sv_listening sv port = (if sv_port sv = None then sv\<lparr>sv_port := Some port\<rparr> else sv)"

subsection \<open>The connection\<close>

text \<open>The selectors of \<open>SerialParams\<close>; an empty string is an absent one.\<close>

record serial_params =
  sp_path :: jstr
  sp_serial :: jstr
  sp_match :: jstr
  sp_vid :: jstr
  sp_pid :: jstr

definition port_sel :: "serial_params \<Rightarrow> jstr" where
  "port_sel p =
     (if sp_path p \<noteq> [] then sp_path p
      else if sp_serial p \<noteq> [] then ''serial='' @ sp_serial p
      else if sp_match p \<noteq> [] then ''match='' @ sp_match p
      else if sp_vid p \<noteq> [] \<or> sp_pid p \<noteq> [] then ''vid='' @ sp_vid p @ '' pid='' @ sp_pid p
      else ''<no selector>'')"

text \<open>\<open>OpenPortEntry\<close>: the path stands at the top or under \<open>params\<close>; numbers that are absent or
  \<open>null\<close> are \<open>None\<close>.\<close>

record open_entry =
  oe_path :: jstr
  oe_params_path :: jstr
  oe_tcp_port :: "nat option"
  oe_channel_id :: "nat option"

definition resolved_path :: "open_entry \<Rightarrow> jstr option" where
  "resolved_path info =
     (if oe_path info \<noteq> [] then Some (oe_path info)
      else if oe_params_path info \<noteq> [] then Some (oe_params_path info) else None)"

text \<open>What a request is for: the code that awaits it.\<close>

datatype 'c purpose = POpen serial_params 'c | PListOpen | PListAvailable | PClose jstr

datatype reply = ROpen open_entry | RListOpen "open_entry list" | RListAvailable "jstr list" | REmpty

datatype serial_msg = MPortError jstr bool | MAvailableChanged "jstr list" | MUnknownEvent
  | MResponse nat bool reply | MInvalid

record 'c conn =
  sc_socket :: bool
  sc_funnel :: bool
  sc_rx :: rx
  sc_next_seq :: nat
  sc_pending :: "(nat \<times> 'c purpose) list"
  sc_available :: "jstr list"
  sc_open_ports :: "open_entry list"
  sc_streams :: "(nat \<times> nat) list"
  sc_servers :: "serial_server list"
  sc_early :: "(nat \<times> bytes list \<times> nat) list"

definition sc_new :: "bool \<Rightarrow> 'c conn" where
  "sc_new funnel = \<lparr>sc_socket = True, sc_funnel = funnel, sc_rx = rx_init, sc_next_seq = 1, sc_pending = [],
     sc_available = [], sc_open_ports = [], sc_streams = [], sc_servers = [], sc_early = []\<rparr>"

text \<open>
  \<open>Settled\<close> hands the outcome of a request to the code that awaits it, \<open>None\<close> for a rejection;
  \<open>PortError\<close> calls the delegate, the flag says that the kind is \<open>disconnected\<close>.
\<close>

datatype 'c sc_out = Command nat "'c purpose" | StreamBytes nat bytes | ToTerminal nat bytes
  | Settled "'c purpose" "reply option" | PortError jstr bool

definition sc_control_command :: "'c conn \<Rightarrow> 'c purpose \<Rightarrow> 'c conn \<times> 'c sc_out list" where
  "sc_control_command s what =
     (let seq = sc_next_seq s; s1 = s\<lparr>sc_next_seq := seq + 1\<rparr> in
      if \<not> sc_socket s1 then (s1, [Settled what None])
      else (s1\<lparr>sc_pending := AList.update seq what (sc_pending s1)\<rparr>, [Command seq what]))"

text \<open>\<open>settle\<close>, for a response, a rejection or the timer.\<close>

definition sc_settle :: "'c conn \<Rightarrow> nat \<Rightarrow> reply option \<Rightarrow> 'c conn \<times> 'c sc_out list" where
  "sc_settle s seq r =
     (case map_of (sc_pending s) seq of
        Some what \<Rightarrow> (s\<lparr>sc_pending := AList.delete seq (sc_pending s)\<rparr>, [Settled what r])
      | None \<Rightarrow> (s, []))"

definition sc_server_update ::
    "'c conn \<Rightarrow> nat \<Rightarrow> (serial_server \<Rightarrow> serial_server \<times> bytes list) \<Rightarrow> 'c conn \<times> 'c sc_out list" where
  "sc_server_update s i f =
     (if i < length (sc_servers s)
      then (let (sv, out) = f (sc_servers s ! i)
            in (s\<lparr>sc_servers := (sc_servers s)[i := sv]\<rparr>, map (ToTerminal (sv_stream sv)) out))
      else (s, []))"

definition max_early_stream_bytes :: nat where "max_early_stream_bytes = 1024 * 1024"

definition buffer_early_stream_data :: "'c conn \<Rightarrow> nat \<Rightarrow> bytes \<Rightarrow> 'c conn" where
  "buffer_early_stream_data s stream_id payload =
     (let (chunks, n) = (case map_of (sc_early s) stream_id of Some held \<Rightarrow> held | None \<Rightarrow> ([], 0));
          held = (if max_early_stream_bytes < n + length payload then (chunks, max_early_stream_bytes + 1)
                  else (chunks @ [payload], n + length payload))
      in s\<lparr>sc_early := AList.update stream_id held (sc_early s)\<rparr>)"

text \<open>\<open>handleProxyMessageInternal\<close>; \<open>decode\<close> is \<open>JSON.parse\<close> and the shape tests on its result.\<close>

definition sc_handle_message ::
    "(bytes \<Rightarrow> serial_msg) \<Rightarrow> 'c conn \<Rightarrow> nat \<Rightarrow> bytes \<Rightarrow> 'c conn \<times> 'c sc_out list" where
  "sc_handle_message decode s stream_id payload =
     (if stream_id \<noteq> 0 then
        (case map_of (sc_streams s) stream_id of
           Some i \<Rightarrow> sc_server_update s i (\<lambda>sv. sv_data_from_server sv payload)
         | None \<Rightarrow> (buffer_early_stream_data s stream_id payload, []))
      else
        (case decode payload of
           MPortError path disconnected \<Rightarrow> (s, [PortError path disconnected])
         | MAvailableChanged ports \<Rightarrow> (s\<lparr>sc_available := ports\<rparr>, [])
         | MUnknownEvent \<Rightarrow> (s, [])
         | MResponse seq success data \<Rightarrow> sc_settle s seq (if success then Some data else None)
         | MInvalid \<Rightarrow> (s, [])))"

definition get_serial_port_info :: "'c conn \<Rightarrow> jstr \<Rightarrow> open_entry option" where
  "get_serial_port_info s path = find (\<lambda>port. resolved_path port = Some path) (sc_open_ports s)"

definition open_serial_port :: "'c conn \<Rightarrow> serial_params \<Rightarrow> 'c \<Rightarrow> 'c conn \<times> 'c sc_out list" where
  "open_serial_port s params caller = sc_control_command s (POpen params caller)"

text \<open>Replaces the first entry with the path, or appends.\<close>

fun put_entry :: "jstr \<Rightarrow> open_entry \<Rightarrow> open_entry list \<Rightarrow> open_entry list" where
  "put_entry path info [] = [info]"
| "put_entry path info (e # es) =
     (if resolved_path e = Some path then info # es else e # put_entry path info es)"

definition open_serial_port_done :: "'c conn \<Rightarrow> reply option \<Rightarrow> 'c conn \<times> open_entry option" where
  "open_serial_port_done s r =
     (case r of
        Some (ROpen info) \<Rightarrow>
          (case resolved_path info of
             Some path \<Rightarrow> (s\<lparr>sc_open_ports := put_entry path info (sc_open_ports s)\<rparr>, Some info)
           | None \<Rightarrow> (s, Some info))
      | _ \<Rightarrow> (s, None))"

definition list_open_done :: "'c conn \<Rightarrow> reply option \<Rightarrow> 'c conn \<times> open_entry list" where
  "list_open_done s r =
     (let ports = (case r of Some (RListOpen ports) \<Rightarrow> ports | _ \<Rightarrow> [])
      in (s\<lparr>sc_open_ports := ports\<rparr>, ports))"

text \<open>A failure also forgets the open ports.\<close>

definition list_available_done :: "'c conn \<Rightarrow> reply option \<Rightarrow> 'c conn \<times> jstr list" where
  "list_available_done s r =
     (case r of
        Some (RListAvailable ports) \<Rightarrow> (s\<lparr>sc_available := ports\<rparr>, ports)
      | Some _ \<Rightarrow> (s\<lparr>sc_available := []\<rparr>, [])
      | None \<Rightarrow> (s\<lparr>sc_available := [], sc_open_ports := []\<rparr>, []))"

definition is_port_available :: "'c conn \<Rightarrow> jstr \<Rightarrow> bool" where
  "is_port_available s path = (\<exists>p \<in> set (sc_available s). js_lower p = js_lower path)"

text \<open>Writes chunks to a listener one after the other.\<close>

fun sc_deliver :: "'c conn \<Rightarrow> nat \<Rightarrow> bytes list \<Rightarrow> 'c conn \<times> 'c sc_out list" where
  "sc_deliver s i [] = (s, [])"
| "sc_deliver s i (c # cs) =
     (let (s1, out1) = sc_server_update s i (\<lambda>sv. sv_data_from_server sv c);
          (s2, out2) = sc_deliver s1 i cs in (s2, out1 @ out2))"

text \<open>Returns also the position of the listener.\<close>

definition ensure_stream_server :: "'c conn \<Rightarrow> jstr \<Rightarrow> nat \<Rightarrow> 'c conn \<times> 'c sc_out list \<times> nat" where
  "ensure_stream_server s path channel_id =
     (let (s1, i) = (case map_of (sc_streams s) channel_id of
             Some i \<Rightarrow> (fst (sc_server_update s i (\<lambda>sv. (sv\<lparr>sv_stream := channel_id\<rparr>, []))), i)
           | None \<Rightarrow> let i = length (sc_servers s) in
               (s\<lparr>sc_servers := sc_servers s @ [sv_new channel_id path],
                  sc_streams := AList.update channel_id i (sc_streams s)\<rparr>, i))
      in case map_of (sc_early s1) channel_id of
           Some (chunks, n) \<Rightarrow>
             (let (s2, out) = sc_deliver (s1\<lparr>sc_early := AList.delete channel_id (sc_early s1)\<rparr>) i chunks
              in (s2, out, i))
         | None \<Rightarrow> (s1, [], i))"

definition close_port :: "'c conn \<Rightarrow> jstr \<Rightarrow> bool \<Rightarrow> 'c conn \<times> 'c sc_out list" where
  "close_port s path skip_serial_close =
     (case get_serial_port_info s path of
        None \<Rightarrow> (s, [])
      | Some info \<Rightarrow>
          let (s1, out1) = (if skip_serial_close then (s, []) else sc_control_command s (PClose path));
              s2 = s1\<lparr>sc_open_ports := filter (\<lambda>p. resolved_path p \<noteq> Some path) (sc_open_ports s1)\<rparr>
          in case find (\<lambda>(_, i). Some (get_port (sc_servers s2 ! i)) = oe_tcp_port info) (sc_streams s2) of
               Some (stream_id, i) \<Rightarrow>
                 (let (s3, out3) = sc_server_update s2 i (\<lambda>sv. sv_data_from_server sv [])
                  in (s3\<lparr>sc_streams := AList.delete stream_id (sc_streams s3)\<rparr>, out1 @ out3))
             | None \<Rightarrow> (s2, out1))"

text \<open>The socket closes: the requests in flight are left to their timers.\<close>

definition sc_socket_closed :: "'c conn \<Rightarrow> 'c conn" where
  "sc_socket_closed s = s\<lparr>sc_socket := False\<rparr>"

text \<open>Everything is torn down and every request rejected.\<close>

definition sc_dispose :: "'c conn \<Rightarrow> 'c conn \<times> 'c sc_out list" where
  "sc_dispose s =
     (s\<lparr>sc_streams := [], sc_early := [], sc_socket := False, sc_pending := []\<rparr>,
      map (\<lambda>(_, what). Settled what None) (sc_pending s))"

text \<open>
  What happens to a connection from outside. \<open>Data\<close> and \<open>Resume\<close> run the frame loop and handle the
  frames it yields; the other events stand for the timer of a request, the socket, and the
  listeners.
\<close>

datatype conn_event = Data bytes | Resume | TimedOut nat | SocketClosed
  | Listening nat nat | Accept nat | ClientGone nat | FromTerminal nat bytes

fun sc_handle_all :: "(bytes \<Rightarrow> serial_msg) \<Rightarrow> 'c conn \<Rightarrow> (nat \<times> bytes) list \<Rightarrow> 'c conn \<times> 'c sc_out list" where
  "sc_handle_all decode s [] = (s, [])"
| "sc_handle_all decode s ((i, p) # ms) =
     (let (s1, out1) = sc_handle_message decode s i p; (s2, out2) = sc_handle_all decode s1 ms
      in (s2, out1 @ out2))"

fun sc_event :: "(bytes \<Rightarrow> serial_msg) \<Rightarrow> 'c conn \<Rightarrow> conn_event \<Rightarrow> 'c conn \<times> 'c sc_out list" where
  "sc_event decode s (Data data) = (s\<lparr>sc_rx := rx_data (sc_rx s) data\<rparr>, [])"
| "sc_event decode s Resume =
     (let (rx', ms) = rx_resume (sc_rx s) in sc_handle_all decode (s\<lparr>sc_rx := rx'\<rparr>) ms)"
| "sc_event decode s (TimedOut seq) = sc_settle s seq None"
| "sc_event decode s SocketClosed = (sc_socket_closed s, [])"
| "sc_event decode s (Listening i port) = sc_server_update s i (\<lambda>sv. (sv_listening sv port, []))"
| "sc_event decode s (Accept i) = sc_server_update s i sv_accept"
| "sc_event decode s (ClientGone i) = sc_server_update s i (\<lambda>sv. (sv_client_gone sv, []))"
| "sc_event decode s (FromTerminal i data) =
     (if i < length (sc_servers s) then (s, [StreamBytes (sv_stream (sc_servers s ! i)) data]) else (s, []))"

subsection \<open>No byte is lost and none is held for ever\<close>

text \<open>
  A use of the connection: events from outside, \<open>ensureStreamServer\<close> for a port that was opened,
  and requests. Closing a port discards what its listener holds and is left out of this account.
\<close>

datatype 'c conn_op = Wire conn_event | Ensure jstr nat | Ask "'c purpose"

fun conn_step :: "(bytes \<Rightarrow> serial_msg) \<Rightarrow> 'c conn \<Rightarrow> 'c conn_op \<Rightarrow> 'c conn \<times> 'c sc_out list" where
  "conn_step decode s (Wire e) = sc_event decode s e"
| "conn_step decode s (Ensure path channel_id) =
     (let (s', out, _) = ensure_stream_server s path channel_id in (s', out))"
| "conn_step decode s (Ask what) = sc_control_command s what"

fun rx_events :: "'c conn_op list \<Rightarrow> rx_event list" where
  "rx_events [] = []"
| "rx_events (Wire (Data data) # ops) = RxData data # rx_events ops"
| "rx_events (Wire Resume # ops) = RxResume # rx_events ops"
| "rx_events (_ # ops) = rx_events ops"

definition stream_payload :: "nat \<Rightarrow> (nat \<times> bytes) list \<Rightarrow> bytes" where
  "stream_payload sid ms = concat (map snd (filter (\<lambda>m. fst m = sid) ms))"

fun delivered :: "nat \<Rightarrow> 'c sc_out list \<Rightarrow> bytes" where
  "delivered sid [] = []"
| "delivered sid (ToTerminal k data # out) = (if k = sid then data else []) @ delivered sid out"
| "delivered sid (_ # out) = delivered sid out"

text \<open>What is kept for a stream: by its listener, or until it has one.\<close>

definition held :: "'c conn \<Rightarrow> nat \<Rightarrow> bytes" where
  "held s sid = (case map_of (sc_streams s) sid of
      Some i \<Rightarrow> concat (sv_pending (sc_servers s ! i))
    | None \<Rightarrow> (case map_of (sc_early s) sid of Some (chunks, _) \<Rightarrow> concat chunks | None \<Rightarrow> []))"

definition sv_inv :: "serial_server \<Rightarrow> bool" where
  "sv_inv sv \<longleftrightarrow> sv_pending_bytes sv = length (concat (sv_pending sv)) \<and>
     (sv_client sv = Some True \<longrightarrow> concat (sv_pending sv) = []) \<and>
     (sv_pending_bytes sv \<le> max_pending_bytes \<or> length (sv_pending sv) \<le> 1)"

definition early_ok :: "bytes list \<times> nat \<Rightarrow> bool" where
  "early_ok h \<longleftrightarrow> length (concat (fst h)) \<le> max_early_stream_bytes \<and>
     (snd h = length (concat (fst h)) \<or> snd h = max_early_stream_bytes + 1)"

definition sc_inv :: "'c conn \<Rightarrow> bool" where
  "sc_inv s \<longleftrightarrow>
     (\<forall>i < length (sc_servers s). map_of (sc_streams s) (sv_stream (sc_servers s ! i)) = Some i \<and>
        sv_inv (sc_servers s ! i)) \<and>
     (\<forall>k i. map_of (sc_streams s) k = Some i \<longrightarrow> i < length (sc_servers s) \<and> sv_stream (sc_servers s ! i) = k) \<and>
     (\<forall>k h. map_of (sc_early s) k = Some h \<longrightarrow> early_ok h \<and> map_of (sc_streams s) k = None)"

lemma delivered_append [simp]: "delivered sid (xs @ ys) = delivered sid xs @ delivered sid ys"
  by (induction sid xs rule: delivered.induct) simp_all

lemma delivered_terminal [simp]: "delivered sid (map (ToTerminal k) out) = (if k = sid then concat out else [])"
  by (induction out) simp_all

lemma stream_payload_append [simp]: "stream_payload sid (xs @ ys) = stream_payload sid xs @ stream_payload sid ys"
  by (simp add: stream_payload_def)

lemma stream_payload_Cons [simp]:
  "stream_payload sid [] = []"
  "stream_payload sid ((k, p) # ms) = (if k = sid then p else []) @ stream_payload sid ms"
  by (simp_all add: stream_payload_def)

text \<open>Listeners.\<close>

lemma drop_oldest_inv:
  "n = length (concat cs) \<Longrightarrow> (n', cs') = drop_oldest n cs \<Longrightarrow>
     n' = length (concat cs') \<and> (n' \<le> keep_pending_bytes \<or> length cs' \<le> 1)"
  by (induction n cs arbitrary: n' cs' rule: drop_oldest.induct) (auto split: if_splits)

lemma keep_less_max: "keep_pending_bytes \<le> max_pending_bytes"
  by (simp add: keep_pending_bytes_def max_pending_bytes_def)

lemma sv_data_inv: "sv_inv sv \<Longrightarrow> sv_inv (fst (sv_data_from_server sv data))"
proof -
  assume inv: "sv_inv sv"
  obtain n cs where d: "(n, cs) = drop_oldest (sv_pending_bytes sv + length data) (sv_pending sv @ [data])"
    by (metis surj_pair)
  have "sv_pending_bytes sv + length data = length (concat (sv_pending sv @ [data]))"
    using inv by (simp add: sv_inv_def)
  from drop_oldest_inv[OF this d] keep_less_max have "n = length (concat cs)" "n \<le> max_pending_bytes \<or> length cs \<le> 1"
    by (auto intro: le_trans)
  with inv d[symmetric] show ?thesis by (auto simp: sv_data_from_server_def sv_inv_def Let_def)
qed

lemma sv_data_stream [simp]: "sv_stream (fst (sv_data_from_server sv data)) = sv_stream sv"
  by (simp add: sv_data_from_server_def Let_def split: prod.split)

lemma sv_data_account:
  assumes "sv_inv sv" "length (concat (sv_pending sv)) + length data \<le> max_pending_bytes"
  shows "concat (snd (sv_data_from_server sv data)) @ concat (sv_pending (fst (sv_data_from_server sv data)))
    = concat (sv_pending sv) @ data"
proof (cases "sv_client sv = Some True")
  case True
  with assms(1) have "concat (sv_pending sv) = []" by (simp add: sv_inv_def)
  with True show ?thesis by (simp add: sv_data_from_server_def del: concat_eq_Nil_conv)
next
  case False
  with assms show ?thesis by (simp add: sv_data_from_server_def sv_inv_def Let_def)
qed

lemma sv_accept_inv: "sv_inv sv \<Longrightarrow> sv_inv (fst (sv_accept sv))"
  by (auto simp: sv_accept_def sv_inv_def Let_def)

lemma sv_accept_stream [simp]: "sv_stream (fst (sv_accept sv)) = sv_stream sv"
  by (simp add: sv_accept_def Let_def)

lemma sv_accept_account: "sv_inv sv \<Longrightarrow>
    concat (snd (sv_accept sv)) @ concat (sv_pending (fst (sv_accept sv))) = concat (sv_pending sv)"
  by (auto simp: sv_accept_def sv_inv_def Let_def)

lemma sv_quiet:
  "sv_inv sv \<Longrightarrow> sv_inv (sv_listening sv port)" "sv_stream (sv_listening sv port) = sv_stream sv"
  "sv_pending (sv_listening sv port) = sv_pending sv"
  "sv_inv sv \<Longrightarrow> sv_inv (sv_client_gone sv)" "sv_stream (sv_client_gone sv) = sv_stream sv"
  "sv_pending (sv_client_gone sv) = sv_pending sv"
  by (auto simp: sv_listening_def sv_client_gone_def sv_inv_def)

text \<open>Connections.\<close>

lemma sc_inv_server: "sc_inv s \<Longrightarrow> i < length (sc_servers s) \<Longrightarrow>
    map_of (sc_streams s) (sv_stream (sc_servers s ! i)) = Some i \<and> sv_inv (sc_servers s ! i)"
  unfolding sc_inv_def by blast

lemma sc_inv_stream: "sc_inv s \<Longrightarrow> map_of (sc_streams s) k = Some i \<Longrightarrow>
    i < length (sc_servers s) \<and> sv_stream (sc_servers s ! i) = k"
  unfolding sc_inv_def by blast

lemma sc_inv_early: "sc_inv s \<Longrightarrow> map_of (sc_early s) k = Some h \<Longrightarrow> early_ok h \<and> map_of (sc_streams s) k = None"
  unfolding sc_inv_def by blast

lemma held_cong: "sc_streams s' = sc_streams s \<Longrightarrow> sc_servers s' = sc_servers s \<Longrightarrow> sc_early s' = sc_early s \<Longrightarrow>
    held s' sid = held s sid"
  by (simp add: held_def cong: option.case_cong)

lemma sc_inv_cong: "sc_streams s' = sc_streams s \<Longrightarrow> sc_servers s' = sc_servers s \<Longrightarrow> sc_early s' = sc_early s \<Longrightarrow>
    sc_inv s' = sc_inv s"
  by (simp add: sc_inv_def)

lemma server_update_inv:
  assumes "sc_inv s" "\<And>sv. sv_inv sv \<Longrightarrow> sv_inv (fst (f sv)) \<and> sv_stream (fst (f sv)) = sv_stream sv"
  shows "sc_inv (fst (sc_server_update s i f))"
  using assms by (auto simp: sc_server_update_def sc_inv_def nth_list_update case_prod_beta)

lemma server_update_other:
  assumes inv: "sc_inv s" and i: "i < length (sc_servers s)"
    and f: "sv_stream (fst (f (sc_servers s ! i))) = sv_stream (sc_servers s ! i)"
    and sid: "sid \<noteq> sv_stream (sc_servers s ! i)"
  shows "delivered sid (snd (sc_server_update s i f)) = [] \<and> held (fst (sc_server_update s i f)) sid = held s sid"
proof -
  have "j \<noteq> i" if "map_of (sc_streams s) sid = Some j" for j
    using sc_inv_stream[OF inv that] sid by auto
  with sid f i show ?thesis
    by (auto simp: sc_server_update_def held_def case_prod_beta split: option.split)
qed

lemma server_update_account:
  assumes inv: "sc_inv s" and i: "i < length (sc_servers s)"
    and f: "sv_stream (fst (f (sc_servers s ! i))) = sv_stream (sc_servers s ! i)"
    and a: "sid = sv_stream (sc_servers s ! i) \<Longrightarrow>
      concat (snd (f (sc_servers s ! i))) @ concat (sv_pending (fst (f (sc_servers s ! i)))) =
      concat (sv_pending (sc_servers s ! i)) @ d"
  shows "delivered sid (snd (sc_server_update s i f)) @ held (fst (sc_server_update s i f)) sid =
    held s sid @ (if sid = sv_stream (sc_servers s ! i) then d else [])"
proof (cases "sid = sv_stream (sc_servers s ! i)")
  case True
  with sc_inv_server[OF inv i] have "map_of (sc_streams s) sid = Some i" by simp
  with True f a i show ?thesis by (simp add: sc_server_update_def held_def case_prod_beta)
qed (use server_update_other[of s i f sid] inv i f in simp)

lemmas alist_simps = update_conv' delete_conv'

definition early_of :: "'c conn \<Rightarrow> nat \<Rightarrow> bytes list \<times> nat" where
  "early_of s k = (case map_of (sc_early s) k of Some h \<Rightarrow> h | None \<Rightarrow> ([], 0))"

text \<open>No byte of the stream was discarded for want of room.\<close>

definition exact :: "'c conn \<Rightarrow> nat \<Rightarrow> bool" where
  "exact s k \<longleftrightarrow> snd (early_of s k) = length (concat (fst (early_of s k)))"

lemma early_of_ok: "sc_inv s \<Longrightarrow> early_ok (early_of s k)"
  by (auto simp: early_of_def sc_inv_def early_ok_def split: option.split)

lemma buffer_early_eq:
  "buffer_early_stream_data s k payload = s\<lparr>sc_early := AList.update k
     (if max_early_stream_bytes < snd (early_of s k) + length payload
      then (fst (early_of s k), max_early_stream_bytes + 1)
      else (fst (early_of s k) @ [payload], snd (early_of s k) + length payload)) (sc_early s)\<rparr>"
  by (simp add: buffer_early_stream_data_def early_of_def Let_def case_prod_beta)

lemma buffer_early_inv:
  assumes "sc_inv s" "map_of (sc_streams s) k = None"
  shows "sc_inv (buffer_early_stream_data s k payload)"
  using assms early_of_ok[OF assms(1), of k]
  unfolding buffer_early_eq sc_inv_def by (auto simp: alist_simps early_ok_def)

lemma buffer_early_account:
  assumes "map_of (sc_streams s) k = None"
    and "sid = k \<Longrightarrow> exact s k \<and> length (held s k) + length payload \<le> max_pending_bytes"
  shows "held (buffer_early_stream_data s k payload) sid = held s sid @ (if sid = k then payload else [])"
    and "exact s sid \<Longrightarrow> exact (buffer_early_stream_data s k payload) sid"
proof -
  have le: "max_pending_bytes \<le> max_early_stream_bytes"
    by (simp add: max_pending_bytes_def max_early_stream_bytes_def)
  have h: "held s k = concat (fst (early_of s k))"
    using assms(1) by (auto simp: held_def early_of_def split: option.split)
  have room: "sid = k \<Longrightarrow> \<not> max_early_stream_bytes < snd (early_of s k) + length payload"
    using assms(2) le h by (auto simp: exact_def)
  show "held (buffer_early_stream_data s k payload) sid = held s sid @ (if sid = k then payload else [])"
    using room assms(1) h by (cases "sid = k") (simp_all add: buffer_early_eq held_def alist_simps cong: option.case_cong)
  show "exact (buffer_early_stream_data s k payload) sid" if "exact s sid"
    using room that by (cases "sid = k") (simp_all add: buffer_early_eq exact_def early_of_def alist_simps)
qed

text \<open>Handing the early bytes over.\<close>

lemma deliver_account:
  assumes "sc_inv s" "i < length (sc_servers s)" "sv_stream (sc_servers s ! i) = k"
  shows "sc_inv (fst (sc_deliver s i cs)) \<and> sc_early (fst (sc_deliver s i cs)) = sc_early s \<and>
    ((sid = k \<longrightarrow> length (held s k) + length (concat cs) \<le> max_pending_bytes) \<longrightarrow>
     delivered sid (snd (sc_deliver s i cs)) @ held (fst (sc_deliver s i cs)) sid =
       held s sid @ (if sid = k then concat cs else []))"
  using assms
proof (induction cs arbitrary: s)
  case (Cons c cs)
  let ?f = "\<lambda>sv. sv_data_from_server sv c"
  obtain s1 o1 where 1: "sc_server_update s i ?f = (s1, o1)" by force
  have sv: "sv_inv (sc_servers s ! i)" "map_of (sc_streams s) k = Some i"
    using Cons.prems by (auto simp: sc_inv_def)
  have s1: "sc_inv s1" "i < length (sc_servers s1)" "sv_stream (sc_servers s1 ! i) = k" "sc_early s1 = sc_early s"
    using server_update_inv[OF Cons.prems(1), of ?f i] sv_data_inv 1 Cons.prems
    by (auto simp: sc_server_update_def case_prod_beta)
  have hk: "held s k = concat (sv_pending (sc_servers s ! i))" using sv(2) by (simp add: held_def)
  have a: "delivered sid o1 @ held s1 sid = held s sid @ (if sid = k then c else [])"
    if "sid = k \<longrightarrow> length (held s k) + length c \<le> max_pending_bytes"
    using server_update_account[OF Cons.prems(1,2), of ?f sid c] sv_data_account[OF sv(1), of c] that hk 1 Cons.prems(3)
    by simp
  have b: "sid = k \<longrightarrow> length (held s1 k) + length (concat cs) \<le> max_pending_bytes"
    if "sid = k \<longrightarrow> length (held s k) + length (concat (c # cs)) \<le> max_pending_bytes"
  proof
    assume k: "sid = k"
    then have "length (delivered k o1 @ held s1 k) = length (held s k @ c)" using a that by simp
    with that k show "length (held s1 k) + length (concat cs) \<le> max_pending_bytes" by simp
  qed
  show ?case using Cons.IH[OF s1(1-3)] 1 s1(4) a b by (auto simp: case_prod_beta)
qed simp

lemma ensure_inv_aux:
  assumes inv: "sc_inv s" and n: "map_of (sc_streams s) k = None"
  shows "sc_inv (s\<lparr>sc_servers := sc_servers s @ [sv_new k path], sc_streams := AList.update k (length (sc_servers s)) (sc_streams s),
      sc_early := AList.delete k (sc_early s)\<rparr>)"
proof -
  have "sv_stream (sc_servers s ! i) \<noteq> k" if "i < length (sc_servers s)" for i
    using inv n that by (auto simp: sc_inv_def)
  note ne = this
  let ?sv = "sc_servers s @ [sv_new k path]" and ?m = "(map_of (sc_streams s))(k \<mapsto> length (sc_servers s))"
  have "?m (sv_stream (?sv ! i)) = Some i \<and> sv_inv (?sv ! i)" if "i < length ?sv" for i
  proof (cases "i < length (sc_servers s)")
    case True
    with ne[OF True] inv show ?thesis by (simp add: nth_append sc_inv_def)
  next
    case False
    with that have "i = length (sc_servers s)" by simp
    then show ?thesis by (simp add: sv_new_def sv_inv_def)
  qed
  moreover have "i < length ?sv \<and> sv_stream (?sv ! i) = k'" if "?m k' = Some i" for k' i
    using that sc_inv_stream[OF inv, of k' i] by (cases "k' = k") (auto simp: sv_new_def nth_append)
  moreover have "early_ok h \<and> ?m k' = None" if "((map_of (sc_early s))(k := None)) k' = Some h" for k' h
    using that sc_inv_early[OF inv, of k' h] by (cases "k' = k") auto
  ultimately show ?thesis by (simp add: sc_inv_def alist_simps)
qed

lemma ensure_stream_server_account:
  assumes inv: "sc_inv s" and e: "ensure_stream_server s path k = (s', out, i)"
  shows "sc_inv s' \<and> (exact s sid \<longrightarrow> exact s' sid) \<and>
    ((sid = k \<longrightarrow> length (held s k) \<le> max_pending_bytes) \<longrightarrow> delivered sid out @ held s' sid = held s sid)"
proof (cases "map_of (sc_streams s) k")
  case (Some j)
  have j: "j < length (sc_servers s)" "sv_stream (sc_servers s ! j) = k" "map_of (sc_early s) k = None"
    using sc_inv_stream[OF inv Some] sc_inv_early[OF inv, of k] Some by (auto intro: ccontr)
  then have "(sc_servers s)[j := (sc_servers s ! j)\<lparr>sv_stream := k\<rparr>] = sc_servers s"
    by (metis list_update_id serial_server.surjective serial_server.update_convs(1))
  then have "s' = s \<and> out = []" using e Some j by (simp add: ensure_stream_server_def sc_server_update_def Let_def)
  with inv show ?thesis by simp
next
  case None
  let ?s = "s\<lparr>sc_servers := sc_servers s @ [sv_new k path], sc_streams := AList.update k (length (sc_servers s)) (sc_streams s),
      sc_early := AList.delete k (sc_early s)\<rparr>"
  let ?cs = "fst (early_of s k)"
  have inv1: "sc_inv ?s" using ensure_inv_aux[OF inv None] .
  have e1: "s' = fst (sc_deliver ?s (length (sc_servers s)) ?cs) \<and> out = snd (sc_deliver ?s (length (sc_servers s)) ?cs)"
  proof (cases "map_of (sc_early s) k")
    case N: None
    then have "AList.delete k (sc_early s) = sc_early s"
      by (metis delete_id map_of_eq_None_iff)
    with N None e show ?thesis by (auto simp: ensure_stream_server_def early_of_def Let_def)
  next
    case (Some h)
    with None e show ?thesis by (cases h) (auto simp: ensure_stream_server_def early_of_def Let_def case_prod_beta)
  qed
  have h0: "held ?s k = []" "held s k = concat ?cs" "x \<noteq> k \<Longrightarrow> held ?s x = held s x" for x
    using None inv by (auto simp: held_def alist_simps nth_append sv_new_def early_of_def sc_inv_def split: option.split)
  note d = deliver_account[OF inv1, of "length (sc_servers s)" k ?cs sid]
  have "exact s' sid" if "exact s sid"
    using that d e1 by (auto simp: exact_def early_of_def sv_new_def alist_simps)
  with d e1 h0 show ?thesis by (auto simp: sv_new_def)
qed

lemma message_account:
  assumes inv: "sc_inv s" and "sid \<noteq> 0" and m: "sc_handle_message decode s k p = (s', out)"
  shows "sc_inv s' \<and> sc_rx s' = sc_rx s \<and>
    (exact s sid \<and> length (held s sid @ stream_payload sid [(k, p)]) \<le> max_pending_bytes \<longrightarrow>
     exact s' sid \<and> delivered sid out @ held s' sid = held s sid @ stream_payload sid [(k, p)])"
proof (cases "k = 0")
  case True
  with m assms(2) inv have "sc_streams s' = sc_streams s \<and> sc_servers s' = sc_servers s \<and> sc_early s' = sc_early s \<and>
      sc_rx s' = sc_rx s \<and> delivered sid out = []"
    by (auto simp: sc_handle_message_def sc_settle_def split: serial_msg.splits option.splits)
  with True assms(2) inv show ?thesis
    by (simp add: sc_inv_cong[of s' s] held_cong[of s' s] exact_def early_of_def)
next
  case False
  show ?thesis
  proof (cases "map_of (sc_streams s) k")
    case None
    with False m have "s' = buffer_early_stream_data s k p" "out = []" by (simp_all add: sc_handle_message_def)
    with buffer_early_inv[OF inv None] buffer_early_account[OF None, of sid p] show ?thesis
      by (auto simp: buffer_early_eq)
  next
    case (Some i)
    let ?f = "\<lambda>sv. sv_data_from_server sv p"
    from Some False m have u: "sc_server_update s i ?f = (s', out)" by (simp add: sc_handle_message_def)
    note i = sc_inv_stream[OF inv Some] and sv = sc_inv_server[OF inv, of i]
    have "sc_inv s'" using server_update_inv[OF inv, of ?f i] sv_data_inv u by simp
    moreover have "sc_rx s' = sc_rx s" "sc_early s' = sc_early s" using u
      by (auto simp: sc_server_update_def case_prod_beta split: if_splits)
    moreover have "held s k = concat (sv_pending (sc_servers s ! i))" using Some by (simp add: held_def)
    then have "delivered sid out @ held s' sid = held s sid @ stream_payload sid [(k, p)]"
      if "length (held s sid @ stream_payload sid [(k, p)]) \<le> max_pending_bytes"
      using server_update_account[OF inv, of i ?f sid p] sv_data_account[of "sc_servers s ! i" p] u i sv that
        \<open>held s k = _\<close> by (auto split: if_splits)
    ultimately show ?thesis by (simp add: exact_def early_of_def)
  qed
qed

lemma handle_all_account:
  "sc_inv s \<Longrightarrow> sid \<noteq> 0 \<Longrightarrow>
    sc_inv (fst (sc_handle_all decode s ms)) \<and> sc_rx (fst (sc_handle_all decode s ms)) = sc_rx s \<and>
    (exact s sid \<and> length (held s sid @ stream_payload sid ms) \<le> max_pending_bytes \<longrightarrow>
     exact (fst (sc_handle_all decode s ms)) sid \<and>
     delivered sid (snd (sc_handle_all decode s ms)) @ held (fst (sc_handle_all decode s ms)) sid =
       held s sid @ stream_payload sid ms)"
proof (induction ms arbitrary: s)
  case (Cons m ms)
  obtain k p where m: "m = (k, p)" by force
  obtain s1 o1 where 1: "sc_handle_message decode s k p = (s1, o1)" by force
  note a = message_account[OF Cons.prems 1]
  have "length (held s1 sid @ stream_payload sid ms) \<le> max_pending_bytes"
    if "exact s sid" "length (held s sid @ stream_payload sid (m # ms)) \<le> max_pending_bytes"
  proof -
    have "length (held s sid @ stream_payload sid [(k, p)]) \<le> max_pending_bytes" using that m by auto
    with a that have "length (delivered sid o1 @ held s1 sid) = length (held s sid @ stream_payload sid [(k, p)])"
      by metis
    with that m show ?thesis by (auto split: if_splits)
  qed
  with a Cons.IH[of s1] Cons.prems(2) 1 m show ?case by (auto simp: case_prod_beta)
qed simp

text \<open>The frame loop part of a step, the same as in \<open>ProxyFrames\<close>.\<close>

abbreviation op_frames :: "rx \<Rightarrow> 'c conn_op \<Rightarrow> (nat \<times> bytes) list" where
  "op_frames r oper \<equiv> snd (run_steps rx_step r (rx_events [oper]))"

lemma conn_step_account:
  assumes inv: "sc_inv s" and sid: "sid \<noteq> 0" and st: "conn_step decode s oper = (s', out)"
  shows "sc_inv s' \<and> sc_rx s' = fst (run_steps rx_step (sc_rx s) (rx_events [oper])) \<and>
    (exact s sid \<and> length (held s sid @ stream_payload sid (op_frames (sc_rx s) oper)) \<le> max_pending_bytes \<longrightarrow>
     exact s' sid \<and>
     delivered sid out @ held s' sid = held s sid @ stream_payload sid (op_frames (sc_rx s) oper))"
proof (cases oper)
  case (Ask what)
  with st have "sc_streams s' = sc_streams s \<and> sc_servers s' = sc_servers s \<and> sc_early s' = sc_early s \<and>
      sc_rx s' = sc_rx s \<and> delivered sid out = []"
    by (auto simp: sc_control_command_def Let_def split: if_splits)
  with Ask inv show ?thesis by (simp add: sc_inv_cong[of s' s] held_cong[of s' s] exact_def early_of_def)
next
  case (Ensure path k)
  obtain i where e: "ensure_stream_server s path k = (s', out, i)"
    using st Ensure by (cases "ensure_stream_server s path k") auto
  have "sc_rx (fst (sc_deliver t i cs)) = sc_rx t" for t :: "'a conn" and i cs
    by (induction cs arbitrary: t) (simp_all add: case_prod_beta sc_server_update_def)
  then have "sc_rx s' = sc_rx s" using e
    by (auto simp: ensure_stream_server_def Let_def case_prod_beta sc_server_update_def split: option.splits if_splits)
  with ensure_stream_server_account[OF inv e, of sid] Ensure show ?thesis by auto
next
  case (Wire e)
  have server: ?thesis
    if f: "sc_event decode s e = sc_server_update s i f" "rx_events [oper] = []"
      and p: "\<And>sv. sv_inv sv \<Longrightarrow> sv_inv (fst (f sv)) \<and> sv_stream (fst (f sv)) = sv_stream sv \<and>
        concat (snd (f sv)) @ concat (sv_pending (fst (f sv))) = concat (sv_pending sv)" for i f
  proof -
    have "sc_server_update s i f = (s', out)" using st Wire f by simp
    moreover from this have "sc_rx s' = sc_rx s" "sc_early s' = sc_early s"
      by (auto simp: sc_server_update_def case_prod_beta split: if_splits)
    moreover have "delivered sid out @ held s' sid = held s sid"
    proof (cases "i < length (sc_servers s)")
      case True
      with server_update_account[OF inv True, of f sid "[]"] sc_inv_server[OF inv True] p calculation(1) show ?thesis by simp
    next
      case False
      with calculation(1) show ?thesis by (simp add: sc_server_update_def)
    qed
    ultimately show ?thesis using server_update_inv[OF inv, of f i] p f(2) by (simp add: exact_def early_of_def)
  qed
  have quiet: ?thesis
    if "sc_streams s' = sc_streams s \<and> sc_servers s' = sc_servers s \<and> sc_early s' = sc_early s"
      "sc_rx s' = fst (run_steps rx_step (sc_rx s) (rx_events [oper]))" "op_frames (sc_rx s) oper = []"
      "delivered sid out = []"
    using that inv by (simp add: sc_inv_cong[of s' s] held_cong[of s' s] exact_def early_of_def)
  show ?thesis
  proof (cases e)
    case (Data data)
    with Wire st show ?thesis by (intro quiet) auto
  next
    case Resume
    obtain rx' ms where r: "rx_resume (sc_rx s) = (rx', ms)" by force
    let ?s = "s\<lparr>sc_rx := rx'\<rparr>"
    have "sc_inv ?s" "held ?s sid = held s sid" "exact ?s sid = exact s sid"
      using inv by (auto simp: sc_inv_cong[of ?s s] exact_def early_of_def intro: held_cong)
    with handle_all_account[of ?s sid decode ms] sid Wire Resume st r show ?thesis by (simp add: case_prod_beta)
  next
    case (Listening i port)
    with Wire show ?thesis by (intro server) (auto simp: sv_quiet)
  next
    case (Accept i)
    with Wire show ?thesis using sv_accept_inv sv_accept_account by (intro server) auto
  next
    case (ClientGone i)
    with Wire show ?thesis by (intro server) (auto simp: sv_quiet)
  next
    case (TimedOut seq)
    with Wire st show ?thesis by (intro quiet) (auto simp: sc_settle_def split: option.splits)
  next
    case SocketClosed
    with Wire st show ?thesis by (intro quiet) (auto simp: sc_socket_closed_def)
  next
    case (FromTerminal i data)
    with Wire st show ?thesis by (intro quiet) (auto split: if_splits)
  qed
qed

lemma sv_inv_bounded:
  "sv_inv sv \<Longrightarrow> length (concat (sv_pending sv)) \<le> max_pending_bytes \<or> length (sv_pending sv) \<le> 1"
  by (auto simp: sv_inv_def)

lemma rx_events_Cons: "rx_events (oper # ops) = rx_events [oper] @ rx_events ops"
proof (cases oper)
  case (Wire e)
  then show ?thesis by (cases e) simp_all
qed simp_all

lemma conn_run_account:
  "sc_inv s \<Longrightarrow> sid \<noteq> 0 \<Longrightarrow>
    sc_inv (fst (run_steps (conn_step decode) s ops)) \<and>
    (exact s sid \<and> length (held s sid @ stream_payload sid (snd (run_steps rx_step (sc_rx s) (rx_events ops)))) \<le> max_pending_bytes \<longrightarrow>
     delivered sid (snd (run_steps (conn_step decode) s ops)) @ held (fst (run_steps (conn_step decode) s ops)) sid =
     held s sid @ stream_payload sid (snd (run_steps rx_step (sc_rx s) (rx_events ops))))"
proof (induction ops arbitrary: s)
  case (Cons oper ops)
  obtain s1 o1 where 1: "conn_step decode s oper = (s1, o1)" by force
  note a = conn_step_account[OF Cons.prems 1]
  let ?m1 = "op_frames (sc_rx s) oper" and ?m2 = "snd (run_steps rx_step (sc_rx s1) (rx_events ops))"
  have ms: "snd (run_steps rx_step (sc_rx s) (rx_events (oper # ops))) = ?m1 @ ?m2"
    using a by (subst rx_events_Cons) (simp add: run_steps_append case_prod_beta)
  have "length (held s1 sid @ stream_payload sid ?m2) \<le> max_pending_bytes"
    if "exact s sid" "length (held s sid @ stream_payload sid (?m1 @ ?m2)) \<le> max_pending_bytes"
  proof -
    from that a have "delivered sid o1 @ held s1 sid = held s sid @ stream_payload sid ?m1" by simp
    then have "length (delivered sid o1 @ held s1 sid) = length (held s sid @ stream_payload sid ?m1)" by simp
    with that show ?thesis by simp
  qed
  with a Cons.IH[of s1] Cons.prems(2) show ?case unfolding ms by (auto simp: 1 case_prod_beta)
qed simp

lemma sc_inv_new [simp]: "sc_inv (sc_new funnel)" "exact (sc_new funnel) k" "held (sc_new funnel) k = []"
  "sc_rx (sc_new funnel) = rx_init"
  by (simp_all add: sc_inv_def sc_new_def exact_def early_of_def held_def)

text \<open>
  Closing a port looks for its listener by the TCP port of the entry. A funnelled port has none, so
  its listener stays registered under its channel.
\<close>

lemma closing_funnel_port_keeps_stream:
  assumes "get_serial_port_info s path = Some info" "oe_tcp_port info = None"
  shows "sc_streams (fst (close_port s path skip)) = sc_streams s"
proof -
  have "find (\<lambda>(_, i). Some (get_port (f i)) = None) xs = None" for xs :: "(nat \<times> nat) list" and f
    by (induction xs) auto
  with assms show ?thesis
    by (simp add: close_port_def sc_control_command_def Let_def case_prod_beta)
qed

subsection \<open>Properties\<close>

text \<open>
  C14: No byte of a funnelled port is lost or reordered. Whatever arrives for a stream, whether
  before the port's listener exists, before a terminal connects, while one is connected or after
  it went away, is delivered once and in order or still held for the next terminal; and nothing is
  held while a terminal is connected. The bytes must fit into what is kept, 100 KiB.
\<close>

theorem funnel_bytes_in_order:
  assumes "sid \<noteq> 0"
    and "length (stream_payload sid (snd (run_steps rx_step rx_init (rx_events ops)))) \<le> max_pending_bytes"
  shows "let (s, out) = run_steps (conn_step decode) (sc_new funnel) ops in
    delivered sid out @ held s sid = stream_payload sid (snd (run_steps rx_step rx_init (rx_events ops))) \<and>
    (case map_of (sc_streams s) sid of
       Some i \<Rightarrow> sv_client (sc_servers s ! i) = Some True \<longrightarrow> held s sid = []
     | None \<Rightarrow> True)"
proof -
  obtain s out where r: "run_steps (conn_step decode) (sc_new funnel) ops = (s, out)" by force
  have a: "sc_inv s \<and> delivered sid out @ held s sid = stream_payload sid (snd (run_steps rx_step rx_init (rx_events ops)))"
    using conn_run_account[of "sc_new funnel" sid decode ops] r assms by simp
  have "held s sid = []" if "map_of (sc_streams s) sid = Some i" "sv_client (sc_servers s ! i) = Some True" for i
    using a that sc_inv_stream[of s sid i] sc_inv_server[of s i] by (simp add: held_def sv_inv_def)
  with a r show ?thesis by (auto split: option.split)
qed

theorem funnel_bytes_in_order_witness:
  "let ops = [Wire (Data [3, 2, 0, 0, 0, 65, 66]), Wire Resume, Ensure ''tty'' 3, Wire (Accept 0),
              Wire (Data [3, 1, 0, 0, 0, 67]), Wire Resume] :: nat conn_op list;
       (s, out) = run_steps (conn_step (\<lambda>_. MInvalid)) (sc_new True) ops
   in delivered 3 out @ held s 3 = [65, 66, 67]"
proof -
  let ?ops = "[Wire (Data [3, 2, 0, 0, 0, 65, 66]), Wire Resume, Ensure ''tty'' 3, Wire (Accept 0),
              Wire (Data [3, 1, 0, 0, 0, 67]), Wire Resume] :: nat conn_op list"
  have p: "stream_payload 3 (snd (run_steps rx_step rx_init (rx_events ?ops))) = [65, 66, 67]"
    by (simp add: rx_init_def rx_data_def rx_loop_def next_frame_def rx_resume_def)
  have "length (stream_payload 3 (snd (run_steps rx_step rx_init (rx_events ?ops)))) \<le> max_pending_bytes"
    unfolding p by (simp add: max_pending_bytes_def)
  note t = funnel_bytes_in_order[OF _ this, of "\<lambda>_. MInvalid" True, unfolded p]
  obtain s out where r: "run_steps (conn_step (\<lambda>_. MInvalid)) (sc_new True) ?ops = (s, out)" by (rule prod.exhaust)
  have "(3 :: nat) \<noteq> 0" by simp
  from t[OF this, unfolded r Let_def prod.case] show ?thesis unfolding Let_def r prod.case by (rule conjunct1)
qed

text \<open>
  C15: What a connection holds is bounded, however much arrives for streams without a terminal: at
  most 100 KiB or a single frame per listener, and at most 1 MiB per stream without a listener.
\<close>

theorem funnel_memory_bounded:
  "let s = fst (run_steps (conn_step decode) (sc_new funnel) ops) in
    list_all (\<lambda>sv. length (concat (sv_pending sv)) \<le> max_pending_bytes \<or> length (sv_pending sv) \<le> 1) (sc_servers s) \<and>
    (\<forall>k. case map_of (sc_early s) k of
           Some (chunks, _) \<Rightarrow> length (concat chunks) \<le> max_early_stream_bytes
         | None \<Rightarrow> True)"
proof -
  let ?s = "fst (run_steps (conn_step decode) (sc_new funnel) ops)"
  have inv: "sc_inv ?s" using conn_run_account[of "sc_new funnel" 1 decode ops] by simp
  have "list_all (\<lambda>sv. length (concat (sv_pending sv)) \<le> max_pending_bytes \<or> length (sv_pending sv) \<le> 1) (sc_servers ?s)"
    using sc_inv_server[OF inv] sv_inv_bounded unfolding list_all_length by blast
  moreover have "case map_of (sc_early ?s) k of
      Some (chunks, _) \<Rightarrow> length (concat chunks) \<le> max_early_stream_bytes | None \<Rightarrow> True" for k
    using sc_inv_early[OF inv, of k] by (auto simp: early_ok_def split: option.split)
  ultimately show ?thesis by (simp add: Let_def)
qed

end
