(* ===== verification/SerialManager.thy ===== *)
theory SerialManager
  imports SerialConn
begin

text \<open>
  \<open>SerialPortManager\<close> of \<open>packages/mcu-debug/src/common/serial-manager.ts\<close>: the registry of proxy
  connections, the views and configurations of the open ports, and their reopening after a port
  disappeared. The connections are those of \<open>SerialConn\<close>; the continuations of the \<open>await\<close>s are
  jobs that run later, in any order. Resolving a host configuration and connecting the socket are
  the event \<open>Connect\<close>; creating and driving a view are outputs.
\<close>

text \<open>\<open>compositeKey\<close> and \<open>proxyKeyFor\<close>; an absent host is empty, an absent port 0.\<close>

definition composite_key :: "jstr \<Rightarrow> jstr \<Rightarrow> jstr" where
  "composite_key proxy_key path = proxy_key @ [CHR 0x00] @ path"

definition proxy_key_for :: "jstr \<Rightarrow> nat \<Rightarrow> jstr" where
  "proxy_key_for host port =
     (if host = [] then ''127.0.0.1'' else host) @ '':'' @ (if port = 0 then ''-2'' else show_nat port)"

text \<open>What a caller of \<open>openSerialPort\<close> does next: the remaining ports of a session, a port the user
  chose, or a reconnection with the configuration it started from.\<close>

datatype caller = CPorts "serial_params list" | CUser | CReconnect jstr serial_params

datatype after = AfterPorts "serial_params list" | AfterNone

datatype job = Reply jstr "caller purpose" "reply option" | ViewReady jstr jstr nat bool after

record manager =
  sm_conns :: "(jstr \<times> caller conn) list"
  sm_views :: "(jstr \<times> nat) list"
  sm_configs :: "(jstr \<times> serial_params) list"
  sm_timers :: "(jstr \<times> jstr \<times> jstr) list"
  sm_jobs :: "job list"

definition sm_init :: manager where
  "sm_init = \<lparr>sm_conns = [], sm_views = [], sm_configs = [], sm_timers = [], sm_jobs = []\<rparr>"

datatype sm_out = WireOut jstr "caller sc_out" | NewView jstr nat | UpdateView jstr nat
  | Connected jstr | Reconnected jstr | Disconnected jstr | NoTcpPort jstr

definition get_or_create_connection :: "manager \<Rightarrow> jstr \<Rightarrow> bool \<Rightarrow> manager" where
  "get_or_create_connection m key funnel =
     (case map_of (sm_conns m) key of
        Some _ \<Rightarrow> m
      | None \<Rightarrow> m\<lparr>sm_conns := AList.update key (sc_new funnel) (sm_conns m)\<rparr>)"

text \<open>Every port of every connection, with the key of the connection that reported it.\<close>

definition get_all_available_ports :: "manager \<Rightarrow> (jstr \<times> jstr) list" where
  "get_all_available_ports m = concat (map (\<lambda>(k, c). map (\<lambda>p. (p, k)) (sc_available c)) (sm_conns m))"

text \<open>
  \<open>cleanupSerialConfig\<close>. Its check that every port has a selector loops over a local list that is
  still empty, so it never runs; what remains drops a configuration that is disabled or has no
  ports.
\<close>

record serial_config =
  scf_enabled :: bool
  scf_ports :: "serial_params list"

definition cleanup_serial_config :: "serial_config option \<Rightarrow> serial_config option" where
  "cleanup_serial_config args =
     (case args of
        None \<Rightarrow> None
      | Some cfg \<Rightarrow> if \<not> scf_enabled cfg \<or> scf_ports cfg = [] then None else Some cfg)"

text \<open>Runs an operation of a connection; settled requests become jobs.\<close>

fun push_outs :: "manager \<Rightarrow> jstr \<Rightarrow> caller sc_out list \<Rightarrow> manager \<times> sm_out list" where
  "push_outs m k [] = (m, [])"
| "push_outs m k (Settled what r # outs) = push_outs (m\<lparr>sm_jobs := sm_jobs m @ [Reply k what r]\<rparr>) k outs"
| "push_outs m k (x # outs) = (let (m', out) = push_outs m k outs in (m', WireOut k x # out))"

definition on_conn :: "manager \<Rightarrow> jstr \<Rightarrow> (caller conn \<Rightarrow> caller conn \<times> caller sc_out list) \<Rightarrow> manager \<times> sm_out list" where
  "on_conn m k f =
     (case map_of (sm_conns m) k of
        None \<Rightarrow> (m, [])
      | Some c \<Rightarrow> let (c', outs) = f c in push_outs (m\<lparr>sm_conns := AList.update k c' (sm_conns m)\<rparr>) k outs)"

definition remove_serial_port_tab :: "manager \<Rightarrow> jstr \<Rightarrow> jstr \<Rightarrow> bool \<Rightarrow> bool \<Rightarrow> manager \<times> sm_out list" where
  "remove_serial_port_tab m k path skip_serial_close keep_config =
     (let key = composite_key k path;
          m1 = m\<lparr>sm_timers := AList.delete key (sm_timers m),
                 sm_configs := (if keep_config then sm_configs m else AList.delete key (sm_configs m)),
                 sm_views := AList.delete key (sm_views m)\<rparr>
      in on_conn m1 k (\<lambda>c. close_port c path skip_serial_close))"

definition schedule_reconnect :: "manager \<Rightarrow> jstr \<Rightarrow> jstr \<Rightarrow> manager" where
  "schedule_reconnect m k port_path =
     (let key = composite_key k port_path in
      if map_of (sm_timers m) key \<noteq> None then m
      else m\<lparr>sm_timers := AList.update key (k, port_path) (sm_timers m)\<rparr>)"

definition on_port_error :: "manager \<Rightarrow> jstr \<Rightarrow> jstr \<Rightarrow> bool \<Rightarrow> manager \<times> sm_out list" where
  "on_port_error m k port_path disconnected =
     (if disconnected \<and> map_of (sm_views m) (composite_key k port_path) \<noteq> None
      then let (m1, out) = remove_serial_port_tab m k port_path True True
           in (schedule_reconnect m1 k port_path, Disconnected (composite_key k port_path) # out)
      else remove_serial_port_tab m k port_path False False)"

definition attempt_reconnect :: "manager \<Rightarrow> jstr \<Rightarrow> jstr \<Rightarrow> manager \<times> sm_out list" where
  "attempt_reconnect m k port_path =
     (case (map_of (sm_configs m) (composite_key k port_path), map_of (sm_conns m) k) of
        (Some config, Some c) \<Rightarrow>
          if \<not> is_port_available c port_path then (schedule_reconnect m k port_path, [])
          else on_conn m k (\<lambda>c. open_serial_port c config (CReconnect port_path config))
      | _ \<Rightarrow> (m, []))"

text \<open>The timer of \<open>scheduleReconnect\<close>.\<close>

definition reconnect_timer :: "manager \<Rightarrow> jstr \<Rightarrow> manager \<times> sm_out list" where
  "reconnect_timer m key =
     (case map_of (sm_timers m) key of
        None \<Rightarrow> (m, [])
      | Some (k, port_path) \<Rightarrow> attempt_reconnect (m\<lparr>sm_timers := AList.delete key (sm_timers m)\<rparr>) k port_path)"

text \<open>The loop of \<open>createSerialPorts\<close>, one port at a time.\<close>

fun open_ports :: "manager \<Rightarrow> jstr \<Rightarrow> serial_params list \<Rightarrow> manager \<times> sm_out list" where
  "open_ports m k [] = (m, [])"
| "open_ports m k (p # ps) = on_conn m k (\<lambda>c. open_serial_port c p (CPorts ps))"

definition create_serial_ports :: "manager \<Rightarrow> jstr \<Rightarrow> serial_config option \<Rightarrow> manager \<times> sm_out list" where
  "create_serial_ports m k args =
     (case cleanup_serial_config args of
        None \<Rightarrow> (m, [])
      | Some cfg \<Rightarrow> open_ports m k (scf_ports cfg))"

fun go_on :: "manager \<Rightarrow> jstr \<Rightarrow> after \<Rightarrow> manager \<times> sm_out list" where
  "go_on m k (AfterPorts ps) = open_ports m k ps"
| "go_on m k AfterNone = (m, [])"

text \<open>\<open>createOrUpdateViewWithSerialInfo\<close> after the port number is known.\<close>

definition finish_view :: "manager \<Rightarrow> jstr \<Rightarrow> jstr \<Rightarrow> nat \<Rightarrow> bool \<Rightarrow> manager \<times> sm_out list" where
  "finish_view m k path tcp_port is_new =
     (let key = composite_key k path in
      if tcp_port = 0 then (m, [NoTcpPort key])
      else (m\<lparr>sm_views := AList.update key tcp_port (sm_views m)\<rparr>,
            [if map_of (sm_views m) key \<noteq> None then UpdateView key tcp_port else NewView key tcp_port,
             if is_new then Connected key else Reconnected key]))"

text \<open>The same up to the \<open>await\<close> of \<open>whenReady\<close>; a port without a channel is finished at once.\<close>

definition create_or_update_view ::
    "manager \<Rightarrow> jstr \<Rightarrow> open_entry \<Rightarrow> serial_params \<Rightarrow> bool \<Rightarrow> after \<Rightarrow> manager \<times> sm_out list" where
  "create_or_update_view m k info port_config is_new next_step =
     (let path = (case resolved_path info of Some p \<Rightarrow> p | None \<Rightarrow> sp_path port_config);
          m1 = m\<lparr>sm_configs := AList.update (composite_key k path) (port_config\<lparr>sp_path := path\<rparr>) (sm_configs m)\<rparr>;
          tcp = (case oe_tcp_port info of Some p \<Rightarrow> p | None \<Rightarrow> 0)
      in case (oe_channel_id info, map_of (sm_conns m1) k) of
           (Some channel, Some c) \<Rightarrow>
             if channel \<noteq> 0 \<and> tcp = 0
             then (let (c', outs, i) = ensure_stream_server c path channel;
                       (m2, out) = push_outs (m1\<lparr>sm_conns := AList.update k c' (sm_conns m1)\<rparr>) k outs
                   in (m2\<lparr>sm_jobs := sm_jobs m2 @ [ViewReady k path i is_new next_step]\<rparr>, out))
             else (let (m2, out2) = finish_view m1 k path tcp is_new; (m3, out3) = go_on m2 k next_step
                   in (m3, out2 @ out3))
         | _ \<Rightarrow> (let (m2, out2) = finish_view m1 k path tcp is_new; (m3, out3) = go_on m2 k next_step
                   in (m3, out2 @ out3)))"

text \<open>The code after the \<open>await\<close> of \<open>openSerialPort\<close>, for each of its callers.\<close>

definition port_opened :: "manager \<Rightarrow> jstr \<Rightarrow> serial_params \<Rightarrow> caller \<Rightarrow> open_entry option \<Rightarrow> manager \<times> sm_out list" where
  "port_opened m k params who info =
     (case who of
        CPorts rest \<Rightarrow>
          (case info of
             Some i \<Rightarrow> create_or_update_view m k i params True (AfterPorts rest)
           | None \<Rightarrow> open_ports m k rest)
      | CUser \<Rightarrow>
          (case info of
             Some i \<Rightarrow> create_or_update_view m k i params True AfterNone
           | None \<Rightarrow> (m, []))
      | CReconnect port_path config \<Rightarrow>
          (case info of
             Some i \<Rightarrow>
               (let path = (case resolved_path i of Some p \<Rightarrow> p | None \<Rightarrow> sp_path config);
                    m1 = (if path \<noteq> sp_path config
                          then m\<lparr>sm_configs := AList.delete (composite_key k (sp_path config)) (sm_configs m)\<rparr>
                          else m)
                in create_or_update_view m1 k i (config\<lparr>sp_path := path\<rparr>) False AfterNone)
           | None \<Rightarrow> (schedule_reconnect m k port_path, [])))"

definition run_reply :: "manager \<Rightarrow> jstr \<Rightarrow> caller purpose \<Rightarrow> reply option \<Rightarrow> manager \<times> sm_out list" where
  "run_reply m k what r =
     (case map_of (sm_conns m) k of
        None \<Rightarrow> (m, [])
      | Some c \<Rightarrow>
          (case what of
             POpen params who \<Rightarrow>
               (let (c', info) = open_serial_port_done c r
                in port_opened (m\<lparr>sm_conns := AList.update k c' (sm_conns m)\<rparr>) k params who info)
           | PListOpen \<Rightarrow> (m\<lparr>sm_conns := AList.update k (fst (list_open_done c r)) (sm_conns m)\<rparr>, [])
           | PListAvailable \<Rightarrow> (m\<lparr>sm_conns := AList.update k (fst (list_available_done c r)) (sm_conns m)\<rparr>, [])
           | PClose _ \<Rightarrow> (m, [])))"

text \<open>One continuation: a \<open>ViewReady\<close> waits until its listener is bound.\<close>

definition remove_nth :: "nat \<Rightarrow> 'a list \<Rightarrow> 'a list" where
  "remove_nth n xs = take n xs @ drop (Suc n) xs"

definition run_job :: "manager \<Rightarrow> nat \<Rightarrow> manager \<times> sm_out list" where
  "run_job m n =
     (if n < length (sm_jobs m) then
        let m1 = m\<lparr>sm_jobs := remove_nth n (sm_jobs m)\<rparr> in
        (case sm_jobs m ! n of
           Reply k what r \<Rightarrow> run_reply m1 k what r
         | ViewReady k path i is_new next_step \<Rightarrow>
             (case map_of (sm_conns m) k of
                None \<Rightarrow> (m, [])
              | Some c \<Rightarrow>
                  (case sv_port (sc_servers c ! i) of
                     None \<Rightarrow> (m, [])
                   | Some tcp \<Rightarrow>
                       (let (m2, out2) = finish_view m1 k path tcp is_new; (m3, out3) = go_on m2 k next_step
                        in (m3, out2 @ out3)))))
      else (m, []))"

text \<open>The outputs of an event of a connection; a port error calls the manager back.\<close>

fun handle_outs :: "manager \<Rightarrow> jstr \<Rightarrow> caller sc_out list \<Rightarrow> manager \<times> sm_out list" where
  "handle_outs m k [] = (m, [])"
| "handle_outs m k (PortError path disconnected # outs) =
     (let (m1, out1) = on_port_error m k path disconnected; (m2, out2) = handle_outs m1 k outs
      in (m2, out1 @ out2))"
| "handle_outs m k (x # outs) =
     (let (m1, out1) = push_outs m k [x]; (m2, out2) = handle_outs m1 k outs in (m2, out1 @ out2))"

definition conn_event_happens :: "(bytes \<Rightarrow> serial_msg) \<Rightarrow> manager \<Rightarrow> jstr \<Rightarrow> conn_event \<Rightarrow> manager \<times> sm_out list" where
  "conn_event_happens decode m k e =
     (case map_of (sm_conns m) k of
        None \<Rightarrow> (m, [])
      | Some c \<Rightarrow> let (c', outs) = sc_event decode c e
                  in handle_outs (m\<lparr>sm_conns := AList.update k c' (sm_conns m)\<rparr>) k outs)"

datatype sm_event = Connect jstr nat bool | ConnEvent jstr conn_event | RunJob nat | TimerFires jstr
  | ViewClosed jstr jstr | CreatePorts jstr "serial_config option" | UserOpens jstr serial_params
  | ListOpen jstr | ListAvailable jstr

fun sm_step :: "(bytes \<Rightarrow> serial_msg) \<Rightarrow> manager \<Rightarrow> sm_event \<Rightarrow> manager \<times> sm_out list" where
  "sm_step decode m (Connect host port funnel) = (get_or_create_connection m (proxy_key_for host port) funnel, [])"
| "sm_step decode m (ConnEvent k e) = conn_event_happens decode m k e"
| "sm_step decode m (RunJob n) = run_job m n"
| "sm_step decode m (TimerFires key) = reconnect_timer m key"
| "sm_step decode m (ViewClosed k path) = remove_serial_port_tab m k path False False"
| "sm_step decode m (CreatePorts k args) = create_serial_ports m k args"
| "sm_step decode m (UserOpens k params) = on_conn m k (\<lambda>c. open_serial_port c params CUser)"
| "sm_step decode m (ListOpen k) = on_conn m k (\<lambda>c. sc_control_command c PListOpen)"
| "sm_step decode m (ListAvailable k) = on_conn m k (\<lambda>c. sc_control_command c PListAvailable)"

subsection \<open>Keys\<close>

definition no_nul :: "jstr \<Rightarrow> bool" where
  "no_nul s \<longleftrightarrow> CHR 0x00 \<notin> set s"

text \<open>Composite keys of different connections or paths differ, as NUL does not occur in a proxy key.\<close>

lemma composite_key_inj:
  "no_nul k \<Longrightarrow> no_nul k' \<Longrightarrow> composite_key k p = composite_key k' p' \<longleftrightarrow> k = k' \<and> p = p'"
proof (induction k arbitrary: k')
  case Nil
  then show ?case by (cases k') (auto simp: composite_key_def no_nul_def)
next
  case (Cons c k)
  then show ?case by (cases k') (auto simp: composite_key_def no_nul_def)
qed

lemma proxy_key_no_nul: "no_nul host \<Longrightarrow> no_nul (proxy_key_for host port)"
  using show_nat_digits[of port] by (auto simp: no_nul_def proxy_key_for_def is_digit_def)

subsection \<open>Requests do not get lost\<close>

definition conn_ok :: "caller conn \<Rightarrow> bool" where
  "conn_ok c \<longleftrightarrow> (\<forall>seq what. map_of (sc_pending c) seq = Some what \<longrightarrow> seq < sc_next_seq c)"

definition conn_keeps :: "caller conn \<Rightarrow> caller conn \<Rightarrow> caller sc_out list \<Rightarrow> bool" where
  "conn_keeps c c' outs \<longleftrightarrow> conn_ok c' \<and>
     (\<forall>seq what. map_of (sc_pending c) seq = Some what \<longrightarrow>
        map_of (sc_pending c') seq = Some what \<or> (\<exists>r. Settled what r \<in> set outs))"

lemma conn_keeps_same: "conn_ok c \<Longrightarrow> sc_pending c' = sc_pending c \<Longrightarrow> sc_next_seq c' = sc_next_seq c \<Longrightarrow>
    conn_keeps c c' outs"
  by (simp add: conn_keeps_def conn_ok_def)

lemma conn_keeps_ext:
  assumes "conn_keeps c c1 o1" "sc_pending c' = sc_pending c1" "sc_next_seq c' = sc_next_seq c1" "set o1 \<subseteq> set outs"
  shows "conn_keeps c c' outs"
  using assms unfolding conn_keeps_def conn_ok_def by (metis subsetD)

lemma conn_keeps_command: "conn_ok c \<Longrightarrow> conn_keeps c (fst (sc_control_command c what)) (snd (sc_control_command c what))"
  by (auto simp: conn_keeps_def conn_ok_def sc_control_command_def Let_def alist_simps less_Suc_eq)

lemma conn_keeps_settle: "conn_ok c \<Longrightarrow> conn_keeps c (fst (sc_settle c seq r)) (snd (sc_settle c seq r))"
  by (auto simp: conn_keeps_def conn_ok_def sc_settle_def alist_simps split: option.split)

lemma server_update_pending [simp]:
  "sc_pending (fst (sc_server_update c i f)) = sc_pending c" "sc_next_seq (fst (sc_server_update c i f)) = sc_next_seq c"
  by (simp_all add: sc_server_update_def case_prod_beta)

lemma deliver_pending [simp]:
  "sc_pending (fst (sc_deliver c i cs)) = sc_pending c" "sc_next_seq (fst (sc_deliver c i cs)) = sc_next_seq c"
  by (induction cs arbitrary: c) (simp_all add: case_prod_beta)

lemma ensure_pending:
  "ensure_stream_server c path channel = (c', outs, i) \<Longrightarrow> sc_pending c' = sc_pending c \<and> sc_next_seq c' = sc_next_seq c"
  by (auto simp: ensure_stream_server_def Let_def case_prod_beta split: option.splits)

lemma close_port_keeps: "conn_ok c \<Longrightarrow> conn_keeps c (fst (close_port c path skip)) (snd (close_port c path skip))"
proof (cases "get_serial_port_info c path")
  case (Some info)
  assume ok: "conn_ok c"
  let ?c1 = "if skip then (c, []) else sc_control_command c (PClose path)"
  have k: "conn_keeps c (fst ?c1) (snd ?c1)" using conn_keeps_command[OF ok] conn_keeps_same[OF ok] by simp
  have "sc_pending (fst (close_port c path skip)) = sc_pending (fst ?c1)"
    "sc_next_seq (fst (close_port c path skip)) = sc_next_seq (fst ?c1)"
    "set (snd ?c1) \<subseteq> set (snd (close_port c path skip))"
    using Some by (auto simp: close_port_def Let_def case_prod_beta split: option.split)
  from conn_keeps_ext[OF k this] show ?thesis .
qed (simp add: close_port_def conn_keeps_same)

text \<open>An event of a connection settles requests or reports one port error.\<close>

definition no_port_error :: "caller sc_out list \<Rightarrow> bool" where
  "no_port_error outs \<longleftrightarrow> (\<forall>path d. PortError path d \<notin> set outs)"

lemma message_keeps:
  assumes "conn_ok c"
  shows "conn_keeps c (fst (sc_handle_message decode c i p)) (snd (sc_handle_message decode c i p)) \<and>
    (no_port_error (snd (sc_handle_message decode c i p)) \<or> (\<exists>path d. sc_handle_message decode c i p = (c, [PortError path d])))"
proof (cases "i = 0")
  case True
  show ?thesis
  proof (cases "decode p")
    case (MResponse seq success data)
    have "no_port_error (snd (sc_settle c seq r))" for r
      by (simp add: sc_settle_def no_port_error_def split: option.split)
    with True MResponse conn_keeps_settle[OF assms] show ?thesis by (simp add: sc_handle_message_def)
  qed (use True conn_keeps_same[OF assms] in \<open>auto simp: sc_handle_message_def no_port_error_def\<close>)
next
  case False
  then have "sc_pending (fst (sc_handle_message decode c i p)) = sc_pending c"
    "sc_next_seq (fst (sc_handle_message decode c i p)) = sc_next_seq c"
    by (simp_all add: sc_handle_message_def buffer_early_eq split: option.split)
  moreover have "no_port_error (snd (sc_handle_message decode c i p))"
    using False by (auto simp: sc_handle_message_def no_port_error_def sc_server_update_def case_prod_beta split: option.split)
  ultimately show ?thesis using conn_keeps_same[OF assms] by simp
qed

lemma event_keeps:
  assumes "conn_ok c"
  shows "conn_keeps c (fst (sc_event decode c e)) (snd (sc_event decode c e)) \<and>
    (no_port_error (snd (sc_event decode c e)) \<or>
     (\<exists>path d. snd (sc_event decode c e) = [PortError path d] \<and> sc_pending (fst (sc_event decode c e)) = sc_pending c))"
proof (cases e)
  case Resume
  obtain rx' ms where r: "rx_resume (sc_rx c) = (rx', ms)" by force
  let ?c = "c\<lparr>sc_rx := rx'\<rparr>"
  have ok: "conn_ok ?c" using assms by (simp add: conn_ok_def)
  have k: "conn_keeps ?c c' outs \<Longrightarrow> conn_keeps c c' outs" for c' outs by (simp add: conn_keeps_def)
  show ?thesis
  proof (cases ms)
    case Nil
    with r Resume conn_keeps_same[OF assms, of ?c] show ?thesis by (simp add: no_port_error_def)
  next
    case (Cons m ms')
    with r have "ms = [m]" by (auto simp: rx_resume_def split: option.splits)
    with r Resume message_keeps[OF ok, of decode "fst m" "snd m"] k show ?thesis
      by (cases m) (auto simp: case_prod_beta)
  qed
next
  case (TimedOut seq)
  then show ?thesis using conn_keeps_settle[OF assms] by (simp add: no_port_error_def sc_settle_def split: option.split)
qed (use conn_keeps_same[OF assms] in \<open>auto simp: no_port_error_def sc_server_update_def sc_socket_closed_def case_prod_beta\<close>)

subsection \<open>No disconnected port is forgotten\<close>

text \<open>A reconnection is on its way: its request, the reply to it, or the listener it waits for.\<close>

definition reopening :: "manager \<Rightarrow> jstr \<Rightarrow> bool" where
  "reopening m key \<longleftrightarrow>
     (\<exists>k c seq params path cfg. map_of (sm_conns m) k = Some c \<and>
        map_of (sc_pending c) seq = Some (POpen params (CReconnect path cfg)) \<and>
        key = composite_key k path \<and> sp_path cfg = path) \<or>
     (\<exists>k params path cfg r. Reply k (POpen params (CReconnect path cfg)) r \<in> set (sm_jobs m) \<and>
        map_of (sm_conns m) k \<noteq> None \<and> key = composite_key k path \<and> sp_path cfg = path) \<or>
     (\<exists>k path i n a. ViewReady k path i n a \<in> set (sm_jobs m) \<and> key = composite_key k path)"

lemma reopening_pending: "map_of (sm_conns m) k = Some c \<Longrightarrow>
    map_of (sc_pending c) seq = Some (POpen params (CReconnect path cfg)) \<Longrightarrow> sp_path cfg = path \<Longrightarrow>
    reopening m (composite_key k path)"
  unfolding reopening_def by blast

lemma reopening_reply: "Reply k (POpen params (CReconnect path cfg)) r \<in> set (sm_jobs m) \<Longrightarrow>
    map_of (sm_conns m) k \<noteq> None \<Longrightarrow> sp_path cfg = path \<Longrightarrow> reopening m (composite_key k path)"
  unfolding reopening_def by blast

lemma reopening_ready: "ViewReady k path i n a \<in> set (sm_jobs m) \<Longrightarrow> reopening m (composite_key k path)"
  unfolding reopening_def by blast

lemma reopening_cases:
  assumes "reopening m key"
  obtains (pending) k c seq params path cfg where "map_of (sm_conns m) k = Some c"
      "map_of (sc_pending c) seq = Some (POpen params (CReconnect path cfg))" "key = composite_key k path" "sp_path cfg = path"
    | (reply) k params path cfg r where "Reply k (POpen params (CReconnect path cfg)) r \<in> set (sm_jobs m)"
      "map_of (sm_conns m) k \<noteq> None" "key = composite_key k path" "sp_path cfg = path"
    | (ready) k path i n a where "ViewReady k path i n a \<in> set (sm_jobs m)" "key = composite_key k path"
  using assms unfolding reopening_def by blast

definition covered :: "manager \<Rightarrow> jstr \<Rightarrow> bool" where
  "covered m key \<longleftrightarrow> map_of (sm_views m) key \<noteq> None \<or> map_of (sm_timers m) key \<noteq> None \<or> reopening m key"

definition sm_wf :: "manager \<Rightarrow> bool" where
  "sm_wf m \<longleftrightarrow>
     (\<forall>key cfg. map_of (sm_configs m) key = Some cfg \<longrightarrow> (\<exists>k. no_nul k \<and> key = composite_key k (sp_path cfg))) \<and>
     (\<forall>k c. map_of (sm_conns m) k = Some c \<longrightarrow> no_nul k \<and> conn_ok c) \<and>
     (\<forall>key k p. map_of (sm_timers m) key = Some (k, p) \<longrightarrow>
        key = composite_key k p \<and> map_of (sm_conns m) k \<noteq> None)"

text \<open>Every configured port outside \<open>X\<close> is covered.\<close>

definition accounted :: "jstr set \<Rightarrow> manager \<Rightarrow> bool" where
  "accounted X m \<longleftrightarrow> sm_wf m \<and> (\<forall>key. map_of (sm_configs m) key \<noteq> None \<longrightarrow> covered m key \<or> key \<in> X)"

lemma accounted_mono: "accounted X m \<Longrightarrow> X \<subseteq> Y \<Longrightarrow> accounted Y m"
  by (auto simp: accounted_def)

lemma wf_conn: "sm_wf m \<Longrightarrow> map_of (sm_conns m) k = Some c \<Longrightarrow> no_nul k \<and> conn_ok c"
  unfolding sm_wf_def by blast

lemma wf_timer: "sm_wf m \<Longrightarrow> map_of (sm_timers m) key = Some (k, p) \<Longrightarrow>
    key = composite_key k p \<and> map_of (sm_conns m) k \<noteq> None"
  unfolding sm_wf_def by blast

lemma wf_config: "sm_wf m \<Longrightarrow> map_of (sm_configs m) key = Some cfg \<Longrightarrow> \<exists>k. no_nul k \<and> key = composite_key k (sp_path cfg)"
  unfolding sm_wf_def by blast

fun replies :: "jstr \<Rightarrow> caller sc_out list \<Rightarrow> job list" where
  "replies k [] = []"
| "replies k (Settled what r # outs) = Reply k what r # replies k outs"
| "replies k (_ # outs) = replies k outs"

lemma push_outs_eq: "fst (push_outs m k outs) = m\<lparr>sm_jobs := sm_jobs m @ replies k outs\<rparr>"
  by (induction m k outs rule: push_outs.induct) (simp_all add: case_prod_beta)

lemma replies_settled: "Settled what r \<in> set outs \<Longrightarrow> Reply k what r \<in> set (replies k outs)"
  by (induction k outs rule: replies.induct) auto

lemma push_outs_no_tcp: "NoTcpPort key \<notin> set (snd (push_outs m k outs))"
  by (induction m k outs rule: push_outs.induct) (auto simp: case_prod_beta)

text \<open>Exchanging the state of a connection, with its settled requests as jobs.\<close>

definition with_conn :: "manager \<Rightarrow> jstr \<Rightarrow> caller conn \<Rightarrow> caller sc_out list \<Rightarrow> manager" where
  "with_conn m k c' outs = m\<lparr>sm_conns := AList.update k c' (sm_conns m), sm_jobs := sm_jobs m @ replies k outs\<rparr>"

lemma on_conn_eq:
  "map_of (sm_conns m) k = Some c \<Longrightarrow> f c = (c', outs) \<Longrightarrow> fst (on_conn m k f) = with_conn m k c' outs"
  by (simp add: on_conn_def push_outs_eq with_conn_def)

lemma with_conn_fields [simp]:
  "sm_views (with_conn m k c' outs) = sm_views m" "sm_configs (with_conn m k c' outs) = sm_configs m"
  "sm_timers (with_conn m k c' outs) = sm_timers m"
  "map_of (sm_conns (with_conn m k c' outs)) = (map_of (sm_conns m))(k \<mapsto> c')"
  "sm_jobs (with_conn m k c' outs) = sm_jobs m @ replies k outs"
  by (simp_all add: with_conn_def alist_simps)

lemma with_conn_wf: "sm_wf m \<Longrightarrow> map_of (sm_conns m) k = Some c \<Longrightarrow> conn_ok c' \<Longrightarrow> sm_wf (with_conn m k c' outs)"
  using wf_conn[of m k c] unfolding sm_wf_def by auto

lemma with_conn_reopening:
  assumes r: "reopening m key" and c: "map_of (sm_conns m) k = Some c" and keeps: "conn_keeps c c' outs"
  shows "reopening (with_conn m k c' outs) key"
proof -
  let ?m = "with_conn m k c' outs"
  from r show ?thesis
  proof (cases rule: reopening_cases)
    case (pending k1 c1 seq params path cfg)
    show ?thesis
    proof (cases "k1 = k")
      case True
      with pending c keeps consider "map_of (sc_pending c') seq = Some (POpen params (CReconnect path cfg))"
        | r where "Settled (POpen params (CReconnect path cfg)) r \<in> set outs"
        unfolding conn_keeps_def by auto
      then show ?thesis
      proof cases
        case 1
        with True reopening_pending[of ?m k c'] pending(3,4) show ?thesis by simp
      next
        case (2 r)
        from replies_settled[OF this, of k] True reopening_reply[of k _ _ _ _ ?m] pending(3,4) show ?thesis by auto
      qed
    next
      case False
      with pending reopening_pending[of ?m k1 c1] show ?thesis by simp
    qed
  next
    case (reply k1 params path cfg r)
    with reopening_reply[of k1 params path cfg r ?m] show ?thesis by simp
  next
    case (ready k1 path i n a)
    with reopening_ready[of k1 path i n a ?m] show ?thesis by simp
  qed
qed

lemma with_conn_accounted:
  assumes "accounted X m" "map_of (sm_conns m) k = Some c" "conn_keeps c c' outs"
  shows "accounted X (with_conn m k c' outs)"
  using assms with_conn_wf[of m k c c' outs] with_conn_reopening[OF _ assms(2,3)]
  unfolding accounted_def covered_def with_conn_fields by (auto simp: conn_keeps_def)

lemma on_conn_accounted:
  assumes "accounted X m" "\<And>c. conn_ok c \<Longrightarrow> conn_keeps c (fst (f c)) (snd (f c))"
  shows "accounted X (fst (on_conn m k f))"
proof (cases "map_of (sm_conns m) k")
  case (Some c)
  moreover have "conn_ok c" using assms(1) Some wf_conn by (auto simp: accounted_def)
  ultimately show ?thesis
    using with_conn_accounted[OF assms(1) Some assms(2)] on_conn_eq[OF Some, of f] by (cases "f c") auto
qed (simp add: on_conn_def assms(1))

lemma on_conn_fields:
  "sm_views (fst (on_conn m k f)) = sm_views m" "sm_configs (fst (on_conn m k f)) = sm_configs m"
  "sm_timers (fst (on_conn m k f)) = sm_timers m"
  "map_of (sm_conns (fst (on_conn m k f))) k' \<noteq> None \<longleftrightarrow> map_of (sm_conns m) k' \<noteq> None"
  by (auto simp: on_conn_def push_outs_eq case_prod_beta alist_simps split: option.split)

lemma accounted_covered: "accounted (insert key X) m \<Longrightarrow> covered m key \<Longrightarrow> accounted X m"
  by (auto simp: accounted_def)

lemma accounted_no_config: "accounted (insert key X) m \<Longrightarrow> map_of (sm_configs m) key = None \<Longrightarrow> accounted X m"
  unfolding accounted_def by (metis insertE)

lemma reopening_cong: "sm_conns m' = sm_conns m \<Longrightarrow> sm_jobs m' = sm_jobs m \<Longrightarrow> reopening m' = reopening m"
  by (simp add: reopening_def fun_eq_iff)

lemma reopening_mono:
  "reopening m key \<Longrightarrow> sm_conns m' = sm_conns m \<Longrightarrow> set (sm_jobs m) \<subseteq> set (sm_jobs m') \<Longrightarrow> reopening m' key"
  unfolding reopening_def by (elim disjE exE; simp; blast)

lemma add_jobs_accounted: "accounted X m \<Longrightarrow> accounted X (m\<lparr>sm_jobs := sm_jobs m @ js\<rparr>)"
proof -
  let ?m = "m\<lparr>sm_jobs := sm_jobs m @ js\<rparr>"
  have "reopening m key \<Longrightarrow> reopening ?m key" for key
    by (rule reopening_mono) auto
  moreover have "sm_wf ?m = sm_wf m" by (simp add: sm_wf_def)
  ultimately show "accounted X m \<Longrightarrow> accounted X ?m" unfolding accounted_def covered_def by auto
qed

text \<open>Forgetting a port, with or without its configuration.\<close>

lemma drop_port_accounted:
  assumes "accounted X m"
  shows "accounted X (m\<lparr>sm_timers := AList.delete key (sm_timers m), sm_configs := AList.delete key (sm_configs m),
      sm_views := AList.delete key (sm_views m)\<rparr>)"
    "accounted (insert key X) (m\<lparr>sm_timers := AList.delete key (sm_timers m), sm_views := AList.delete key (sm_views m)\<rparr>)"
  using assms reopening_cong[of "m\<lparr>sm_timers := AList.delete key (sm_timers m), sm_configs := AList.delete key (sm_configs m),
      sm_views := AList.delete key (sm_views m)\<rparr>" m]
    reopening_cong[of "m\<lparr>sm_timers := AList.delete key (sm_timers m), sm_views := AList.delete key (sm_views m)\<rparr>" m]
  unfolding accounted_def sm_wf_def covered_def by (auto simp: alist_simps)

lemma remove_tab_accounted:
  assumes "accounted X m"
  shows "accounted X (fst (remove_serial_port_tab m k path skip False))"
    "accounted (insert (composite_key k path) X) (fst (remove_serial_port_tab m k path skip True))"
  using drop_port_accounted[OF assms, of "composite_key k path"] on_conn_accounted close_port_keeps
  unfolding remove_serial_port_tab_def Let_def by (simp_all add: on_conn_accounted)

lemma schedule_accounted:
  assumes a: "accounted (insert (composite_key k path) X) m" and k: "map_of (sm_conns m) k \<noteq> None"
  shows "accounted X (schedule_reconnect m k path)"
proof (cases "map_of (sm_timers m) (composite_key k path)")
  case None
  let ?m = "m\<lparr>sm_timers := AList.update (composite_key k path) (k, path) (sm_timers m)\<rparr>"
  have "accounted (insert (composite_key k path) X) ?m"
    using a k reopening_cong[of ?m m] unfolding accounted_def sm_wf_def covered_def by (auto simp: alist_simps)
  moreover have "covered ?m (composite_key k path)" by (simp add: covered_def alist_simps)
  ultimately show ?thesis using None accounted_covered by (simp add: schedule_reconnect_def)
next
  case (Some t)
  then show ?thesis using accounted_covered[OF a] by (simp add: schedule_reconnect_def covered_def)
qed

lemma on_port_error_accounted:
  assumes "accounted X m" "map_of (sm_conns m) k \<noteq> None"
  shows "accounted X (fst (on_port_error m k path disconnected))"
proof (cases "disconnected \<and> map_of (sm_views m) (composite_key k path) \<noteq> None")
  case True
  have "map_of (sm_conns (fst (remove_serial_port_tab m k path True True))) k \<noteq> None"
    using assms(2) on_conn_fields(4) by (simp add: remove_serial_port_tab_def Let_def)
  from schedule_accounted[OF remove_tab_accounted(2)[OF assms(1)] this] True show ?thesis
    by (simp add: on_port_error_def case_prod_beta)
next
  case False
  then show ?thesis using remove_tab_accounted(1)[OF assms(1)] by (auto simp: on_port_error_def)
qed

lemma attempt_accounted:
  assumes a: "accounted (insert (composite_key k path) X) m" and k: "map_of (sm_conns m) k \<noteq> None"
  shows "accounted X (fst (attempt_reconnect m k path))"
proof (cases "map_of (sm_configs m) (composite_key k path)")
  case None
  then show ?thesis using accounted_no_config[OF a] by (simp add: attempt_reconnect_def)
next
  case (Some config)
  obtain c where c: "map_of (sm_conns m) k = Some c" using k by blast
  have wf: "sm_wf m" using a by (simp add: accounted_def)
  obtain k' where k': "no_nul k'" "composite_key k path = composite_key k' (sp_path config)" using wf_config[OF wf Some] by blast
  then have p: "sp_path config = path" using composite_key_inj[of k k' path "sp_path config"] wf_conn[OF wf c] by simp
  show ?thesis
  proof (cases "is_port_available c path")
    case True
    let ?f = "\<lambda>c. open_serial_port c config (CReconnect path config)"
    have 1: "accounted (insert (composite_key k path) X) (fst (on_conn m k ?f))"
      by (rule on_conn_accounted[OF a]) (simp add: open_serial_port_def conn_keeps_command)
    obtain c' outs where f: "?f c = (c', outs)" by force
    note e = on_conn_eq[OF c, of ?f, OF f]
    have "reopening (with_conn m k c' outs) (composite_key k path)"
    proof (cases "sc_socket c")
      case True
      with f have "map_of (sc_pending c') (sc_next_seq c) = Some (POpen config (CReconnect path config))"
        by (auto simp: open_serial_port_def sc_control_command_def Let_def alist_simps)
      then show ?thesis using reopening_pending[of "with_conn m k c' outs" k c'] p by simp
    next
      case False
      with f have "outs = [Settled (POpen config (CReconnect path config)) None]"
        by (auto simp: open_serial_port_def sc_control_command_def Let_def)
      then show ?thesis using reopening_reply[of k config path config None "with_conn m k c' outs"] p by simp
    qed
    with 1 e accounted_covered[of "composite_key k path"] Some c True show ?thesis
      by (simp add: attempt_reconnect_def covered_def)
  next
    case False
    with Some c schedule_accounted[OF a k] show ?thesis by (simp add: attempt_reconnect_def)
  qed
qed

lemma timer_accounted: "accounted X m \<Longrightarrow> accounted X (fst (reconnect_timer m key))"
proof (cases "map_of (sm_timers m) key")
  case (Some kp)
  assume a: "accounted X m"
  obtain k p where kp: "kp = (k, p)" by force
  let ?m = "m\<lparr>sm_timers := AList.delete key (sm_timers m)\<rparr>"
  have t: "key = composite_key k p" "map_of (sm_conns m) k \<noteq> None" using wf_timer[of m key k p] a Some kp by (auto simp: accounted_def)
  have "accounted (insert key X) ?m"
    using a reopening_cong[of ?m m] unfolding accounted_def sm_wf_def covered_def by (auto simp: alist_simps)
  with attempt_accounted[of k p X ?m] t Some kp show ?thesis by (simp add: reconnect_timer_def)
qed (simp add: reconnect_timer_def)

lemma open_ports_accounted: "accounted X m \<Longrightarrow> accounted X (fst (open_ports m k ps))"
  by (cases ps) (auto intro!: on_conn_accounted simp: open_serial_port_def conn_keeps_command)

lemma go_on_accounted: "accounted X m \<Longrightarrow> accounted X (fst (go_on m k a))"
  by (cases a) (simp_all add: open_ports_accounted)

definition lost :: "sm_out list \<Rightarrow> jstr set" where
  "lost out = {key. NoTcpPort key \<in> set out}"

lemma lost_append [simp]: "lost (xs @ ys) = lost xs \<union> lost ys" "lost [] = {}"
  by (auto simp: lost_def)

lemma finish_view_accounted:
  assumes a: "accounted (insert (composite_key k path) X) m"
  shows "accounted (X \<union> lost (snd (finish_view m k path tcp n))) (fst (finish_view m k path tcp n))"
proof (cases "tcp = 0")
  case True
  then have "composite_key k path \<in> lost (snd (finish_view m k path tcp n))" by (simp add: finish_view_def lost_def)
  with True show ?thesis using accounted_mono[OF a, of "X \<union> lost (snd (finish_view m k path tcp n))"]
    by (simp add: finish_view_def subset_insertI2)
next
  case False
  let ?m = "m\<lparr>sm_views := AList.update (composite_key k path) tcp (sm_views m)\<rparr>"
  have "accounted (insert (composite_key k path) X) ?m"
    using a reopening_cong[of ?m m] unfolding accounted_def sm_wf_def covered_def by (auto simp: alist_simps)
  moreover have "covered ?m (composite_key k path)" by (simp add: covered_def alist_simps)
  ultimately have "accounted X ?m" by (rule accounted_covered)
  with False accounted_mono show ?thesis by (auto simp: finish_view_def Let_def)
qed

lemma finish_and_go_on:
  assumes "accounted (insert (composite_key k path) X) m"
    and "(let (m2, out2) = finish_view m k path tcp n; (m3, out3) = go_on m2 k a in (m3, out2 @ out3)) = (m', out)"
  shows "accounted (X \<union> lost out) m'"
proof -
  obtain m2 o2 where f: "finish_view m k path tcp n = (m2, o2)" by force
  obtain o3 where g: "go_on m2 k a = (m', o3)" "out = o2 @ o3" using assms(2) f by (cases "go_on m2 k a") auto
  have "accounted (X \<union> lost o2) m'"
    using go_on_accounted[OF finish_view_accounted[OF assms(1)], of tcp n k a] f g by simp
  then show ?thesis by (rule accounted_mono) (auto simp: g)
qed

lemma create_view_accounted:
  assumes path: "path = (case resolved_path info of Some p \<Rightarrow> p | None \<Rightarrow> sp_path cfg)"
    and a: "accounted (insert (composite_key k path) X) m" and k: "no_nul k"
    and r: "create_or_update_view m k info cfg n next_step = (m', out)"
  shows "accounted (X \<union> lost out) m'"
proof -
  let ?m = "m\<lparr>sm_configs := AList.update (composite_key k path) (cfg\<lparr>sp_path := path\<rparr>) (sm_configs m)\<rparr>"
  have 1: "accounted (insert (composite_key k path) X) ?m"
    using a k reopening_cong[of ?m m] unfolding accounted_def sm_wf_def covered_def by (auto simp: alist_simps)
  let ?tcp = "case oe_tcp_port info of Some p \<Rightarrow> p | None \<Rightarrow> 0"
  let ?fin = "let (m2, out2) = finish_view ?m k path ?tcp n; (m3, out3) = go_on m2 k next_step in (m3, out2 @ out3)"
  show ?thesis
  proof (cases "\<exists>channel c. oe_channel_id info = Some channel \<and> map_of (sm_conns ?m) k = Some c \<and> channel \<noteq> 0 \<and> ?tcp = 0")
    case True
    then obtain channel c where c: "oe_channel_id info = Some channel" "map_of (sm_conns ?m) k = Some c" "channel \<noteq> 0" "?tcp = 0"
      by blast
    obtain c' outs i where e: "ensure_stream_server c path channel = (c', outs, i)" by (metis surj_pair)
    have ok: "conn_ok c" using 1 wf_conn[OF _ c(2)] by (simp add: accounted_def)
    have "accounted (insert (composite_key k path) X) (with_conn ?m k c' outs)"
      using with_conn_accounted[OF 1 c(2) conn_keeps_same[OF ok]] ensure_pending[OF e] by simp
    moreover have m': "m' = (with_conn ?m k c' outs)\<lparr>sm_jobs := sm_jobs (with_conn ?m k c' outs) @ [ViewReady k path i n next_step]\<rparr>"
      using r c e path push_outs_eq[of "?m\<lparr>sm_conns := AList.update k c' (sm_conns ?m)\<rparr>" k outs]
      by (auto simp: create_or_update_view_def Let_def case_prod_beta with_conn_def)
    ultimately have "accounted (insert (composite_key k path) X) m'" using add_jobs_accounted by metis
    moreover have "covered m' (composite_key k path)" using reopening_ready[of k path i n next_step m'] m' by (simp add: covered_def)
    ultimately have "accounted X m'" by (rule accounted_covered)
    then show ?thesis by (rule accounted_mono) simp
  next
    case False
    with r path have "?fin = (m', out)"
      by (auto simp: create_or_update_view_def Let_def split: option.splits if_splits)
    from finish_and_go_on[OF 1 this] show ?thesis .
  qed
qed

text \<open>What a job provides while it waits.\<close>

fun provides :: "manager \<Rightarrow> job \<Rightarrow> jstr set" where
  "provides m (Reply k (POpen _ (CReconnect path cfg)) _) =
     (if map_of (sm_conns m) k \<noteq> None \<and> sp_path cfg = path then {composite_key k path} else {})"
| "provides m (ViewReady k path _ _ _) = {composite_key k path}"
| "provides m _ = {}"

lemma remove_job_accounted:
  assumes "accounted X m" "n < length (sm_jobs m)"
  shows "accounted (X \<union> provides m (sm_jobs m ! n)) (m\<lparr>sm_jobs := remove_nth n (sm_jobs m)\<rparr>)"
proof -
  let ?m = "m\<lparr>sm_jobs := remove_nth n (sm_jobs m)\<rparr>"
  have "set (sm_jobs m) = insert (sm_jobs m ! n) (set (sm_jobs ?m))"
    using id_take_nth_drop[OF assms(2)] by (simp add: remove_nth_def) (metis Un_insert_right list.simps(15) set_append)
  then have j: "x \<in> set (sm_jobs m) \<Longrightarrow> x = sm_jobs m ! n \<or> x \<in> set (sm_jobs ?m)" for x by blast
  have "reopening ?m key \<or> key \<in> provides m (sm_jobs m ! n)" if "reopening m key" for key
    using that
  proof (cases rule: reopening_cases)
    case (pending k c seq params path cfg)
    with reopening_pending[of ?m k c] show ?thesis by simp
  next
    case (reply k params path cfg r)
    from j[OF reply(1)] show ?thesis
    proof
      assume "Reply k (POpen params (CReconnect path cfg)) r = sm_jobs m ! n"
      then show ?thesis using reply(2-4) by (metis insertI1 provides.simps(1))
    qed (use reopening_reply[of k params path cfg r ?m] reply in auto)
  next
    case (ready k path i n' a)
    from j[OF ready(1)] show ?thesis
    proof
      assume "ViewReady k path i n' a = sm_jobs m ! n"
      then show ?thesis using ready(2) by (metis insertI1 provides.simps(2))
    qed (use reopening_ready[of k path i n' a ?m] ready in auto)
  qed
  moreover have "sm_wf ?m = sm_wf m" by (simp add: sm_wf_def)
  ultimately show ?thesis using assms(1) unfolding accounted_def covered_def by (simp, blast)
qed

lemma port_opened_accounted:
  assumes a: "accounted (X \<union> provides m (Reply k (POpen params who) r)) m" and c: "map_of (sm_conns m) k \<noteq> None"
    and r: "port_opened m k params who info = (m', out)"
  shows "accounted (X \<union> lost out) m'"
proof -
  have k: "no_nul k" using a c wf_conn by (auto simp: accounted_def)
  show ?thesis
  proof (cases who)
    case (CPorts rest)
    with a have a': "accounted X m" by simp
    show ?thesis
    proof (cases info)
      case None
      with r CPorts open_ports_accounted[OF a', of k rest] show ?thesis
        by (auto simp: port_opened_def intro: accounted_mono)
    next
      case (Some i)
      with r CPorts create_view_accounted[OF refl accounted_mono[OF a' subset_insertI] k] show ?thesis
        by (simp add: port_opened_def)
    qed
  next
    case CUser
    with a have a': "accounted X m" by simp
    show ?thesis
    proof (cases info)
      case None
      with r CUser a' show ?thesis by (auto simp: port_opened_def)
    next
      case (Some i)
      with r CUser create_view_accounted[OF refl accounted_mono[OF a' subset_insertI] k] show ?thesis
        by (simp add: port_opened_def)
    qed
  next
    case (CReconnect path cfg)
    have a': "accounted (insert (composite_key k path) X) m"
      by (rule accounted_mono[OF a]) (auto simp: CReconnect)
    show ?thesis
    proof (cases info)
      case None
      with r CReconnect schedule_accounted[OF a' c] show ?thesis by (auto simp: port_opened_def)
    next
      case (Some i)
      define p where "p = (case resolved_path i of Some p \<Rightarrow> p | None \<Rightarrow> sp_path cfg)"
      define m1 where "m1 = (if p \<noteq> sp_path cfg
        then m\<lparr>sm_configs := AList.delete (composite_key k (sp_path cfg)) (sm_configs m)\<rparr> else m)"
      have "accounted (insert (composite_key k p) X) m1"
      proof (cases "p = sp_path cfg")
        case True
        have "accounted (insert (composite_key k p) X) m"
          by (rule accounted_mono[OF a]) (auto simp: CReconnect True)
        with True show ?thesis by (simp add: m1_def)
      next
        case False
        have b: "accounted (insert (composite_key k (sp_path cfg)) X) m"
          by (rule accounted_mono[OF a]) (auto simp: CReconnect)
        have "accounted (insert (composite_key k (sp_path cfg)) X) m1"
          using b False reopening_cong[of m1 m] unfolding accounted_def sm_wf_def covered_def m1_def
          by (auto simp: alist_simps split: if_splits)
        then have "accounted X m1" by (rule accounted_no_config) (simp add: m1_def False alist_simps)
        then show ?thesis by (rule accounted_mono) auto
      qed
      moreover have "p = (case resolved_path i of Some q \<Rightarrow> q | None \<Rightarrow> sp_path (cfg\<lparr>sp_path := p\<rparr>))"
        by (simp add: p_def split: option.split)
      ultimately show ?thesis
        using r Some CReconnect k create_view_accounted[of p "cfg\<lparr>sp_path := p\<rparr>" i k X m1 False AfterNone m' out]
        by (auto simp: port_opened_def Let_def p_def[symmetric] m1_def)
    qed
  qed
qed

lemma run_reply_accounted:
  assumes a: "accounted (X \<union> provides m (Reply k what r)) m" and e: "run_reply m k what r = (m', out)"
  shows "accounted (X \<union> lost out) m'"
proof (cases "map_of (sm_conns m) k")
  case None
  then have "provides m (Reply k what r) = {}" by (cases "(m, Reply k what r)" rule: provides.cases) auto
  with None a e show ?thesis by (auto simp: run_reply_def)
next
  case (Some c)
  have ok: "conn_ok c" using a Some wf_conn by (auto simp: accounted_def)
  have w: "accounted Y (m\<lparr>sm_conns := AList.update k c' (sm_conns m)\<rparr>)"
    if "sc_pending c' = sc_pending c" "sc_next_seq c' = sc_next_seq c" "accounted Y m" for c' Y
    using with_conn_accounted[OF that(3) Some conn_keeps_same[OF ok that(1,2), of "[]"]] by (simp add: with_conn_def)
  show ?thesis
  proof (cases what)
    case (POpen params who)
    obtain c' info where o: "open_serial_port_done c r = (c', info)" by force
    let ?m = "m\<lparr>sm_conns := AList.update k c' (sm_conns m)\<rparr>"
    have "sc_pending c' = sc_pending c" "sc_next_seq c' = sc_next_seq c"
      using o by (auto simp: open_serial_port_done_def split: option.splits reply.splits)
    moreover have "provides ?m (Reply k what r) = provides m (Reply k what r)"
      using Some POpen by (cases who) (simp_all add: alist_simps)
    ultimately have "accounted (X \<union> provides ?m (Reply k what r)) ?m" using w a by simp
    from port_opened_accounted[of X ?m k params who r info m' out] this e Some POpen o show ?thesis
      by (simp add: run_reply_def alist_simps)
  next
    case PListOpen
    with e Some w[of "fst (list_open_done c r)" X] a show ?thesis
      by (auto simp: run_reply_def list_open_done_def Let_def)
  next
    case PListAvailable
    have "sc_pending (fst (list_available_done c r)) = sc_pending c" "sc_next_seq (fst (list_available_done c r)) = sc_next_seq c"
      by (simp_all add: list_available_done_def split: option.split reply.split)
    with PListAvailable e Some w[of "fst (list_available_done c r)" X] a show ?thesis
      by (auto simp: run_reply_def)
  next
    case (PClose path)
    with e Some a show ?thesis by (auto simp: run_reply_def)
  qed
qed

lemma run_job_accounted:
  assumes a: "accounted X m" and e: "run_job m n = (m', out)"
  shows "accounted (X \<union> lost out) m'"
proof (cases "n < length (sm_jobs m)")
  case True
  let ?m = "m\<lparr>sm_jobs := remove_nth n (sm_jobs m)\<rparr>"
  note r = remove_job_accounted[OF a True]
  show ?thesis
  proof (cases "sm_jobs m ! n")
    case (Reply k what r')
    have "provides ?m (Reply k what r') = provides m (Reply k what r')"
      by (cases "(m, Reply k what r')" rule: provides.cases) simp_all
    with r Reply run_reply_accounted[of X ?m k what r' m' out] e True show ?thesis by (simp add: run_job_def)
  next
    case (ViewReady k path i n' next_step)
    have same: "m' = m \<and> out = [] \<Longrightarrow> ?thesis" using a by simp
    have fin: ?thesis if "(let (m2, out2) = finish_view ?m k path tcp n'; (m3, out3) = go_on m2 k next_step
        in (m3, out2 @ out3)) = (m', out)" for tcp
      using finish_and_go_on[OF _ that, of X] r ViewReady by simp
    show ?thesis
      using e True ViewReady same fin
      by (auto simp: run_job_def split: option.splits simp del: fun_upd_apply)
  qed
qed (use a e in \<open>auto simp: run_job_def\<close>)

lemma handle_outs_push: "no_port_error outs \<Longrightarrow> handle_outs m k outs = push_outs m k outs"
proof (induction m k outs rule: handle_outs.induct)
  case (2 m k path d outs)
  then have False unfolding no_port_error_def by (metis list.set_intros(1))
  then show ?case ..
qed (simp_all add: no_port_error_def case_prod_beta)

lemma conn_event_accounted:
  assumes a: "accounted X m"
  shows "accounted X (fst (conn_event_happens decode m k e))"
proof (cases "map_of (sm_conns m) k")
  case (Some c)
  have ok: "conn_ok c" using a Some wf_conn by (auto simp: accounted_def)
  obtain c' outs where e: "sc_event decode c e = (c', outs)" by force
  let ?m = "m\<lparr>sm_conns := AList.update k c' (sm_conns m)\<rparr>"
  have f: "fst (conn_event_happens decode m k e) = fst (handle_outs ?m k outs)"
    using Some e by (simp add: conn_event_happens_def)
  consider "conn_keeps c c' outs" "no_port_error outs"
    | path d where "conn_keeps c c' outs" "outs = [PortError path d]" "sc_pending c' = sc_pending c"
    using event_keeps[OF ok, of decode e] e by auto
  then show ?thesis
  proof cases
    case 1
    then show ?thesis using f with_conn_accounted[OF a Some 1(1)]
      by (simp add: handle_outs_push push_outs_eq with_conn_def)
  next
    case (2 path d)
    then have "conn_keeps c c' []" by (simp add: conn_keeps_def)
    from with_conn_accounted[OF a Some this] have "accounted X ?m" by (simp add: with_conn_def)
    moreover have "map_of (sm_conns ?m) k \<noteq> None" by (simp add: alist_simps)
    ultimately show ?thesis using f 2(2) on_port_error_accounted[of X ?m k path d]
      by (simp add: case_prod_beta)
  qed
qed (simp add: conn_event_happens_def a)

lemma connect_accounted:
  assumes a: "accounted X m" and k: "no_nul key"
  shows "accounted X (get_or_create_connection m key funnel)"
proof (cases "map_of (sm_conns m) key")
  case None
  let ?m = "m\<lparr>sm_conns := AList.update key (sc_new funnel) (sm_conns m)\<rparr>"
  have "reopening ?m x" if "reopening m x" for x
    using that
  proof (cases rule: reopening_cases)
    case (pending k c seq params path cfg)
    then have "k \<noteq> key" using None by auto
    with pending reopening_pending[of ?m k c seq params path cfg] show ?thesis by (simp add: alist_simps)
  next
    case (reply k params path cfg r)
    with None reopening_reply[of k params path cfg r ?m] show ?thesis by (auto simp: alist_simps)
  next
    case (ready k path i n b)
    with reopening_ready[of k path i n b ?m] show ?thesis by simp
  qed
  moreover have "sm_wf ?m"
  proof -
    have w: "sm_wf m" using a by (simp add: accounted_def)
    have "conn_ok (sc_new funnel)" by (simp add: conn_ok_def sc_new_def)
    with w wf_config[OF w] wf_conn[OF w] wf_timer[OF w] k show ?thesis
      unfolding sm_wf_def[of ?m] by (auto simp: alist_simps)
  qed
  ultimately show ?thesis using a None unfolding accounted_def covered_def get_or_create_connection_def by (auto 0 3)
qed (simp add: get_or_create_connection_def a)

fun host_ok :: "sm_event \<Rightarrow> bool" where
  "host_ok (Connect host _ _) = no_nul host"
| "host_ok _ = True"

lemma sm_step_accounted:
  assumes a: "accounted X m" and h: "host_ok e" and st: "sm_step decode m e = (m', out)"
  shows "accounted (X \<union> lost out) m'"
proof -
  have mono: "accounted X m' \<Longrightarrow> ?thesis" by (rule accounted_mono) auto
  have m': "m' = fst (sm_step decode m e)" using st by simp
  show ?thesis
  proof (cases e)
    case (Connect host port funnel)
    with h m' connect_accounted[OF a proxy_key_no_nul] show ?thesis by (intro mono) simp
  next
    case (ConnEvent k e)
    with m' conn_event_accounted[OF a] show ?thesis by (intro mono) simp
  next
    case (RunJob n)
    with st run_job_accounted[OF a] show ?thesis by simp
  next
    case (TimerFires key)
    with m' timer_accounted[OF a] show ?thesis by (intro mono) simp
  next
    case (ViewClosed k path)
    with m' remove_tab_accounted(1)[OF a] show ?thesis by (intro mono) simp
  next
    case (CreatePorts k args)
    with m' open_ports_accounted[OF a] a show ?thesis
      by (intro mono) (simp add: create_serial_ports_def split: option.split)
  next
    case (UserOpens k params)
    with m' show ?thesis
      by (intro mono) (simp add: on_conn_accounted[OF a] open_serial_port_def conn_keeps_command)
  next
    case (ListOpen k)
    with m' show ?thesis by (intro mono) (simp add: on_conn_accounted[OF a] conn_keeps_command)
  next
    case (ListAvailable k)
    with m' show ?thesis by (intro mono) (simp add: on_conn_accounted[OF a] conn_keeps_command)
  qed
qed

lemma sm_run_accounted:
  "accounted X m \<Longrightarrow> list_all host_ok es \<Longrightarrow>
    accounted (X \<union> lost (snd (run_steps (sm_step decode) m es))) (fst (run_steps (sm_step decode) m es))"
proof (induction es arbitrary: X m)
  case (Cons e es)
  obtain m1 o1 where 1: "sm_step decode m e = (m1, o1)" by force
  have "accounted (X \<union> lost o1) m1" using sm_step_accounted[OF Cons.prems(1) _ 1] Cons.prems(2) by simp
  from Cons.IH[OF this] Cons.prems(2) 1 show ?case by (simp add: case_prod_beta Un_assoc)
qed simp

lemma accounted_init [simp]: "accounted {} sm_init"
  by (simp add: accounted_def sm_wf_def sm_init_def)

subsection \<open>Properties\<close>

text \<open>
  C16: No port that disappeared is forgotten. On every run, whatever the proxies send, whichever
  requests time out and in whatever order the continuations run, a port with a stored
  configuration has a view, a reconnection timer, or a reconnection on its way; the one exception
  is a port for which the proxy answered without a usable TCP port, which is reported.
\<close>

theorem no_port_forgotten:
  assumes "list_all host_ok es"
  shows "let (m, out) = run_steps (sm_step decode) sm_init es in
    \<forall>key. map_of (sm_configs m) key \<noteq> None \<longrightarrow>
      map_of (sm_views m) key \<noteq> None \<or> map_of (sm_timers m) key \<noteq> None \<or> reopening m key \<or> NoTcpPort key \<in> set out"
proof -
  obtain m out where r: "run_steps (sm_step decode) sm_init es = (m, out)" by force
  from sm_run_accounted[OF accounted_init assms, of decode] r have "accounted (lost out) m" by simp
  with r show ?thesis by (simp add: accounted_def covered_def lost_def)
qed

text \<open>
  A port without any selector passes \<open>cleanupSerialConfig\<close>, whose check never runs.
\<close>

lemma selectorless_port_kept:
  "cleanup_serial_config (Some \<lparr>scf_enabled = True, scf_ports =
     [\<lparr>sp_path = [], sp_serial = [], sp_match = [], sp_vid = [], sp_pid = []\<rparr>]\<rparr>) =
   Some \<lparr>scf_enabled = True, scf_ports =
     [\<lparr>sp_path = [], sp_serial = [], sp_match = [], sp_vid = [], sp_pid = []\<rparr>]\<rparr>"
  by (simp add: cleanup_serial_config_def)

theorem no_port_forgotten_witness:
  "let es = [Connect ''h'' 1 True, UserOpens ''h:1'' \<lparr>sp_path = ''t'', sp_serial = [], sp_match = [], sp_vid = [], sp_pid = []\<rparr>,
             ConnEvent ''h:1'' (Data [0, 0, 0, 0, 0]), ConnEvent ''h:1'' Resume, RunJob 0];
       decode = (\<lambda>_. MResponse 1 True (ROpen \<lparr>oe_path = ''t'', oe_params_path = [], oe_tcp_port = Some 5, oe_channel_id = None\<rparr>));
       (m, out) = run_steps (sm_step decode) sm_init es
   in map_of (sm_configs m) (composite_key ''h:1'' ''t'') \<noteq> None \<and> covered m (composite_key ''h:1'' ''t'')"
proof -
  let ?es = "[Connect ''h'' 1 True, UserOpens ''h:1'' \<lparr>sp_path = ''t'', sp_serial = [], sp_match = [], sp_vid = [], sp_pid = []\<rparr>,
             ConnEvent ''h:1'' (Data [0, 0, 0, 0, 0]), ConnEvent ''h:1'' Resume, RunJob 0]"
  let ?decode = "\<lambda>_. MResponse 1 True (ROpen \<lparr>oe_path = ''t'', oe_params_path = [], oe_tcp_port = Some 5, oe_channel_id = None\<rparr>)"
  obtain m out where r: "run_steps (sm_step ?decode) sm_init ?es = (m, out)" by (rule prod.exhaust)
  have k: "proxy_key_for ''h'' 1 = ''h:1''"
    by code_simp
  have c: "map_of (sm_configs m) (composite_key ''h:1'' ''t'') \<noteq> None \<and> NoTcpPort (composite_key ''h:1'' ''t'') \<notin> set out"
    using r k by (auto simp: sm_init_def get_or_create_connection_def sc_new_def on_conn_def open_serial_port_def
        sc_control_command_def conn_event_happens_def rx_init_def rx_data_def rx_loop_def next_frame_def rx_resume_def
        sc_handle_message_def sc_settle_def run_job_def remove_nth_def run_reply_def open_serial_port_done_def
        resolved_path_def port_opened_def create_or_update_view_def finish_view_def Let_def)
  have "list_all host_ok ?es" by (simp add: no_nul_def)
  note no_port_forgotten[OF this, of ?decode, unfolded r Let_def prod.case]
  with c show ?thesis unfolding Let_def r prod.case covered_def by blast
qed

end
