(* ===== verification/LiveWatch.thy ===== *)
theory LiveWatch
  imports Prelude
begin

text \<open>
  The clients of the live watch: \<open>LiveWatchMonitor\<close> of
  \<open>packages/mcu-debug/src/adapter/live-watch-monitor.ts\<close>. Clients register, GDB reports the
  variables that changed, and every client is sent its own changes, at its own pace if it asked for
  that.

  The second GDB process is outside the model: its start is an output, its connection or failure and
  the answers to \<open>-var-update\<close> are events. A handler that awaits \<open>requestLiveCapability\<close> is a waiter
  until the connection is decided and then a job.
\<close>

type_synonym update = "jstr \<times> jstr"

text \<open>\<open>ls_on_ready\<close> is the notify mode \<open>onReady\<close>.\<close>

record live_session =
  ls_client_id :: jstr
  ls_session_id :: jstr
  ls_prefix :: jstr
  ls_on_ready :: bool
  ls_updates :: "update list"
  ls_ready :: bool

datatype connection_state = Pending | Connected | ConnectFailed

text \<open>The two maps lead to positions in \<open>lm_sessions\<close>. A waiter holds the arguments of its request.\<close>

record monitor =
  lm_sessions :: "live_session list"
  lm_by_client :: "(jstr \<times> nat) list"
  lm_by_prefix :: "(jstr \<times> nat) list"
  lm_state :: connection_state
  lm_start_invoked :: bool
  lm_enabled :: bool
  lm_waiters :: "(jstr \<times> bool) list"
  lm_jobs :: "(jstr \<times> bool) list"
  lm_write_updates :: "update list"

definition lm_init :: monitor where
  "lm_init = \<lparr>lm_sessions = [], lm_by_client = [], lm_by_prefix = [], lm_state = Pending, lm_start_invoked = False,
     lm_enabled = False, lm_waiters = [], lm_jobs = [], lm_write_updates = []\<rparr>"

datatype lv_out = StartLiveGdb | ConnectedEvent bool | Registered jstr jstr | RegisterError jstr
  | LiveUpdate jstr "update list" | Done | InvalidSession jstr

text \<open>\<open>requestLiveCapability\<close>, called by a registration.\<close>

definition request_live_capability :: "monitor \<Rightarrow> jstr \<times> bool \<Rightarrow> monitor \<times> lv_out list" where
  "request_live_capability m who =
     (case lm_state m of
        Connected \<Rightarrow> (m\<lparr>lm_jobs := lm_jobs m @ [who]\<rparr>, [])
      | ConnectFailed \<Rightarrow> (m, [RegisterError (fst who)])
      | Pending \<Rightarrow>
          (m\<lparr>lm_start_invoked := True, lm_waiters := lm_waiters m @ [who]\<rparr>,
           if lm_start_invoked m then [] else [StartLiveGdb]))"

definition resolve_connection_waiters :: "monitor \<Rightarrow> bool \<Rightarrow> monitor \<times> lv_out list" where
  "resolve_connection_waiters m ok =
     (if ok then (m\<lparr>lm_waiters := [], lm_jobs := lm_jobs m @ lm_waiters m\<rparr>, [])
      else (m\<lparr>lm_waiters := []\<rparr>, map (\<lambda>w. RegisterError (fst w)) (lm_waiters m)))"

definition live_connected :: "monitor \<Rightarrow> monitor \<times> lv_out list" where
  "live_connected m =
     (let (m1, out) = resolve_connection_waiters (m\<lparr>lm_enabled := True, lm_state := Connected\<rparr>) True
      in (m1, ConnectedEvent True # out))"

definition live_failed :: "monitor \<Rightarrow> monitor \<times> lv_out list" where
  "live_failed m =
     (let (m1, out) = resolve_connection_waiters (m\<lparr>lm_state := ConnectFailed\<rparr>) False
      in (m1, ConnectedEvent False # out))"

definition session_id_for :: "nat \<Rightarrow> jstr \<Rightarrow> jstr" where
  "session_id_for n uuid = ''mcu-debug-live-'' @ show_nat n @ ''-'' @ uuid"

definition prefix_for :: "nat \<Rightarrow> jstr" where
  "prefix_for n = ''W'' @ show_nat n @ ''-''"

text \<open>\<open>registerClientRequest\<close> after its awaits; \<open>uuid\<close> is the random part.\<close>

definition register_client :: "monitor \<Rightarrow> jstr \<Rightarrow> bool \<Rightarrow> jstr \<Rightarrow> monitor \<times> lv_out list" where
  "register_client m client_id on_ready uuid =
     (let n = length (lm_by_client m);
          session_id = session_id_for n uuid;
          prefix = prefix_for n;
          i = length (lm_sessions m);
          session = \<lparr>ls_client_id = client_id, ls_session_id = session_id, ls_prefix = prefix,
                     ls_on_ready = on_ready, ls_updates = [], ls_ready = True\<rparr>
      in (m\<lparr>lm_sessions := lm_sessions m @ [session],
            lm_by_client := AList.update session_id i (lm_by_client m),
            lm_by_prefix := AList.update prefix i (lm_by_prefix m)\<rparr>,
          [Registered client_id session_id]))"

text \<open>The first entry that leads to the session.\<close>

fun delete_value :: "'b \<Rightarrow> ('a \<times> 'b) list \<Rightarrow> ('a \<times> 'b) list" where
  "delete_value i [] = []"
| "delete_value i ((p, j) # xs) = (if j = i then xs else (p, j) # delete_value i xs)"

definition unregister_client :: "monitor \<Rightarrow> jstr \<Rightarrow> monitor \<times> lv_out list" where
  "unregister_client m session_id =
     (case map_of (lm_by_client m) session_id of
        None \<Rightarrow> (m, [InvalidSession session_id])
      | Some i \<Rightarrow>
          (m\<lparr>lm_by_client := AList.delete session_id (lm_by_client m),
             lm_by_prefix := delete_value i (lm_by_prefix m)\<rparr>, [Done]))"

definition dispatch_live_update :: "monitor \<Rightarrow> nat \<Rightarrow> monitor \<times> lv_out list" where
  "dispatch_live_update m i =
     (let s = lm_sessions m ! i in
      (m\<lparr>lm_sessions := (lm_sessions m)[i := s\<lparr>ls_updates := [], ls_ready := (if ls_on_ready s then False else ls_ready s)\<rparr>]\<rparr>,
       [LiveUpdate (ls_session_id s) (ls_updates s)]))"

text \<open>\<open>update.name.substring(0, update.name.indexOf("-") + 1)\<close>.\<close>

definition name_prefix :: "jstr \<Rightarrow> jstr" where
  "name_prefix name = (case index_of (CHR ''-'') name of Some n \<Rightarrow> take (n + 1) name | None \<Rightarrow> [])"

definition file_update :: "update \<Rightarrow> monitor \<Rightarrow> monitor" where
  "file_update u m =
     (case map_of (lm_by_prefix m) (name_prefix (fst u)) of
        None \<Rightarrow> m
      | Some i \<Rightarrow>
          let s = lm_sessions m ! i in
          m\<lparr>lm_sessions := (lm_sessions m)[i := s\<lparr>ls_updates := AList.update (fst u) (snd u) (ls_updates s)\<rparr>]\<rparr>)"

fun dispatch_all :: "monitor \<Rightarrow> nat list \<Rightarrow> monitor \<times> lv_out list" where
  "dispatch_all m [] = (m, [])"
| "dispatch_all m (i # is) =
     (let s = lm_sessions m ! i;
          (m1, out1) = (if ls_updates s \<noteq> [] \<and> ls_ready s then dispatch_live_update m i else (m, []));
          (m2, out2) = dispatch_all m1 is
      in (m2, out1 @ out2))"

text \<open>
  \<open>updateVariables\<close> on the answer to \<open>-var-update\<close>: the change list, \<open>[]\<close> when the command failed,
  \<open>None\<close> when the answer has none and the loop over it throws.
\<close>

definition update_variables :: "monitor \<Rightarrow> update list option \<Rightarrow> monitor \<times> lv_out list" where
  "update_variables m changelist =
     (case changelist of
        None \<Rightarrow> (m, [])
      | Some changes \<Rightarrow>
          let m1 = fold file_update (lm_write_updates m @ changes) m
          in dispatch_all (m1\<lparr>lm_write_updates := []\<rparr>) (map snd (lm_by_client m1)))"

definition client_ready :: "monitor \<Rightarrow> jstr \<Rightarrow> monitor \<times> lv_out list" where
  "client_ready m session_id =
     (case map_of (lm_by_client m) session_id of
        None \<Rightarrow> (m, [InvalidSession session_id])
      | Some i \<Rightarrow>
          let s = lm_sessions m ! i;
              m1 = m\<lparr>lm_sessions := (lm_sessions m)[i := s\<lparr>ls_ready := True\<rparr>]\<rparr>;
              (m2, out) = (if ls_updates s \<noteq> [] then dispatch_live_update m1 i else (m1, []))
          in (m2, out @ [Done]))"

text \<open>A write through the monitor command leaves its change list for the next update.\<close>

definition write_confirmed :: "monitor \<Rightarrow> update list \<Rightarrow> monitor" where
  "write_confirmed m changes = m\<lparr>lm_write_updates := changes\<rparr>"

datatype lv_event = Register jstr bool | LiveConnected | LiveFailed | RunRegister nat jstr
  | Unregister jstr | Updated "update list option" | Ready jstr | Written "update list"

fun lv_step :: "monitor \<Rightarrow> lv_event \<Rightarrow> monitor \<times> lv_out list" where
  "lv_step m (Register client_id on_ready) = request_live_capability m (client_id, on_ready)"
| "lv_step m LiveConnected = live_connected m"
| "lv_step m LiveFailed = live_failed m"
| "lv_step m (RunRegister n uuid) =
     (if n < length (lm_jobs m)
      then register_client (m\<lparr>lm_jobs := take n (lm_jobs m) @ drop (Suc n) (lm_jobs m)\<rparr>)
             (fst (lm_jobs m ! n)) (snd (lm_jobs m ! n)) uuid
      else (m, []))"
| "lv_step m (Unregister session_id) = unregister_client m session_id"
| "lv_step m (Updated changelist) = update_variables m changelist"
| "lv_step m (Ready session_id) = client_ready m session_id"
| "lv_step m (Written changes) = (write_confirmed m changes, [])"

subsection \<open>Identifiers\<close>

lemma show_nat_dash: "show_nat m @ ''-'' @ x = show_nat n @ ''-'' @ y \<Longrightarrow> m = n \<and> x = y"
proof -
  assume e: "show_nat m @ ''-'' @ x = show_nat n @ ''-'' @ y"
  have t: "takeWhile is_digit (show_nat k @ ''-'' @ z) = show_nat k"
    "dropWhile is_digit (show_nat k @ ''-'' @ z) = ''-'' @ z" for k z
    using takeWhile_digits_append[of "show_nat k" "''-'' @ z"] show_nat_digits[of k]
      dropWhile_digits_append[of "show_nat k" "''-'' @ z"] by (simp_all add: is_digit_def)
  from t[of m x] t[of n y] e show ?thesis by simp
qed

lemma session_id_inj: "session_id_for m x = session_id_for n y \<longleftrightarrow> m = n \<and> x = y"
  using show_nat_dash[of m x n y] by (auto simp: session_id_for_def)

lemma prefix_inj [simp]: "prefix_for m = prefix_for n \<longleftrightarrow> m = n"
  using show_nat_dash[of m "[]" n "[]"] by (auto simp: prefix_for_def)

subsection \<open>Invariant\<close>

text \<open>As long as no client unregisters, sessions, identifiers and prefixes are numbered alike.\<close>

definition session_ok :: "nat \<Rightarrow> live_session \<Rightarrow> bool" where
  "session_ok i s \<longleftrightarrow> distinct (map fst (ls_updates s)) \<and> (\<exists>uuid. ls_session_id s = session_id_for i uuid) \<and>
     ls_prefix s = prefix_for i \<and> (\<not> ls_on_ready s \<longrightarrow> ls_ready s)"

definition lv_inv :: "monitor \<Rightarrow> bool" where
  "lv_inv m \<longleftrightarrow>
     lm_by_client m = map (\<lambda>i. (ls_session_id (lm_sessions m ! i), i)) [0..<length (lm_sessions m)] \<and>
     lm_by_prefix m = map (\<lambda>i. (prefix_for i, i)) [0..<length (lm_sessions m)] \<and>
     (\<forall>i < length (lm_sessions m). session_ok i (lm_sessions m ! i))"

text \<open>What stays of a session however its updates and readiness change.\<close>

abbreviation sid_of :: "monitor \<Rightarrow> nat \<Rightarrow> jstr" where
  "sid_of m i \<equiv> ls_session_id (lm_sessions m ! i)"

lemma inv_session: "lv_inv m \<Longrightarrow> i < length (lm_sessions m) \<Longrightarrow> session_ok i (lm_sessions m ! i)"
  by (simp add: lv_inv_def)

lemma inv_by_prefix: "lv_inv m \<Longrightarrow> map_of (lm_by_prefix m) p = Some i \<longleftrightarrow> i < length (lm_sessions m) \<and> p = prefix_for i"
proof -
  assume "lv_inv m"
  then have e: "lm_by_prefix m = map (\<lambda>i. (prefix_for i, i)) [0..<length (lm_sessions m)]" by (simp add: lv_inv_def)
  have "distinct (map fst (lm_by_prefix m))" by (simp add: e comp_def distinct_map inj_on_def)
  from map_of_eq_Some_iff[OF this, of p i] show ?thesis unfolding e by auto
qed

lemma sid_inj:
  assumes "lv_inv m" "i < length (lm_sessions m)" "j < length (lm_sessions m)"
  shows "sid_of m i = sid_of m j \<longleftrightarrow> i = j"
proof -
  obtain x y where "sid_of m i = session_id_for i x" "sid_of m j = session_id_for j y"
    using inv_session[OF assms(1,2)] inv_session[OF assms(1,3)] unfolding session_ok_def by blast
  then show ?thesis using session_id_inj[of i x j y] by auto
qed

lemma inv_by_client: "lv_inv m \<Longrightarrow> map_of (lm_by_client m) p = Some i \<longleftrightarrow> i < length (lm_sessions m) \<and> p = sid_of m i"
proof -
  assume inv: "lv_inv m"
  then have e: "lm_by_client m = map (\<lambda>i. (sid_of m i, i)) [0..<length (lm_sessions m)]" by (simp add: lv_inv_def)
  have "distinct (map fst (lm_by_client m))" using sid_inj[OF inv] by (simp add: e comp_def distinct_map inj_on_def)
  from map_of_eq_Some_iff[OF this, of p i] show ?thesis unfolding e by auto
qed

lemma inv_change:
  assumes inv: "lv_inv m" and s: "i < length (lm_sessions m) \<Longrightarrow> session_ok i s"
    "ls_session_id s = sid_of m i"
  shows "lv_inv (m\<lparr>lm_sessions := (lm_sessions m)[i := s]\<rparr>)"
proof -
  have "map (\<lambda>j. (ls_session_id ((lm_sessions m)[i := s] ! j), j)) [0..<length (lm_sessions m)] =
      map (\<lambda>j. (sid_of m j, j)) [0..<length (lm_sessions m)]"
    using s(2) by (cases "i < length (lm_sessions m)") (auto simp: nth_list_update)
  moreover have "session_ok j ((lm_sessions m)[i := s] ! j)" if "j < length (lm_sessions m)" for j
    using s(1) inv_session[OF inv that] that by (cases "i = j") simp_all
  ultimately show ?thesis using inv by (simp add: lv_inv_def)
qed

subsection \<open>What a client learns\<close>

definition latest :: "update list \<Rightarrow> jstr \<rightharpoonup> jstr" where
  "latest us = map_of (rev us)"

lemma latest_append: "latest (xs @ ys) = latest xs ++ latest ys"
  by (simp add: latest_def)

lemma latest_single: "latest [u] = [fst u \<mapsto> snd u]"
  by (cases u) (simp add: latest_def)

lemma latest_Nil [simp]: "latest [] = Map.empty"
  by (simp add: latest_def)

lemma latest_distinct: "distinct (map fst us) \<Longrightarrow> latest us = map_of us"
  unfolding latest_def by (subst map_of_inject_set) (simp_all add: rev_map[symmetric])

fun pushed :: "jstr \<Rightarrow> lv_out list \<Rightarrow> update list" where
  "pushed sid [] = []"
| "pushed sid (LiveUpdate s us # out) = (if s = sid then us else []) @ pushed sid out"
| "pushed sid (_ # out) = pushed sid out"

fun pushes :: "jstr \<Rightarrow> lv_out list \<Rightarrow> nat" where
  "pushes sid [] = 0"
| "pushes sid (LiveUpdate s us # out) = (if s = sid then 1 else 0) + pushes sid out"
| "pushes sid (_ # out) = pushes sid out"

lemma pushed_append [simp]: "pushed sid (xs @ ys) = pushed sid xs @ pushed sid ys" "pushes sid (xs @ ys) = pushes sid xs + pushes sid ys"
proof -
  show "pushed sid (xs @ ys) = pushed sid xs @ pushed sid ys" by (induction sid xs rule: pushed.induct) simp_all
  show "pushes sid (xs @ ys) = pushes sid xs + pushes sid ys" by (induction sid xs rule: pushes.induct) simp_all
qed

text \<open>The changes that were handled; those of a write wait for the next update.\<close>

fun handled_changes :: "update list \<Rightarrow> lv_event list \<Rightarrow> update list" where
  "handled_changes w [] = []"
| "handled_changes w (Updated (Some changes) # es) = w @ changes @ handled_changes [] es"
| "handled_changes w (Written changes # es) = handled_changes changes es"
| "handled_changes w (_ # es) = handled_changes w es"

definition for_client :: "nat \<Rightarrow> update list \<Rightarrow> update list" where
  "for_client i us = filter (\<lambda>u. name_prefix (fst u) = prefix_for i) us"

lemma for_client_append [simp]: "for_client i (xs @ ys) = for_client i xs @ for_client i ys" "for_client i [] = []"
  by (simp_all add: for_client_def)

text \<open>
  One invariant for a session over a step: what was pushed and is pending is what was pending and
  was reported; and a session that waits for an acknowledgement is pushed nothing.
\<close>

definition tracks :: "monitor \<Rightarrow> monitor \<Rightarrow> lv_out list \<Rightarrow> update list \<Rightarrow> nat \<Rightarrow> bool \<Rightarrow> bool" where
  "tracks m m' out us i ack \<longleftrightarrow> i < length (lm_sessions m') \<and> sid_of m' i = sid_of m i \<and>
     ls_on_ready (lm_sessions m' ! i) = ls_on_ready (lm_sessions m ! i) \<and>
     latest (pushed (sid_of m i) out @ ls_updates (lm_sessions m' ! i)) =
       latest (ls_updates (lm_sessions m ! i) @ for_client i us) \<and>
     (ls_on_ready (lm_sessions m ! i) \<and> \<not> ack \<longrightarrow>
        pushes (sid_of m i) out + (if ls_ready (lm_sessions m' ! i) then 1 else 0) \<le>
        (if ls_ready (lm_sessions m ! i) then 1 else 0))"

lemma tracks_trans:
  assumes "tracks m m1 o1 us1 i a1" "tracks m1 m2 o2 us2 i a2"
  shows "tracks m m2 (o1 @ o2) (us1 @ us2) i (a1 \<or> a2)"
proof -
  have "latest (pushed (sid_of m i) o1 @ pushed (sid_of m i) o2 @ ls_updates (lm_sessions m2 ! i)) =
      latest (pushed (sid_of m i) o1) ++ latest (ls_updates (lm_sessions m1 ! i)) ++ latest (for_client i us2)"
    using assms by (simp add: tracks_def latest_append)
  also have "\<dots> = latest (ls_updates (lm_sessions m ! i)) ++ latest (for_client i us1) ++ latest (for_client i us2)"
    using assms(1) by (simp add: tracks_def latest_append)
  finally show ?thesis using assms by (auto simp: tracks_def latest_append)
qed

lemma tracks_same: "i < length (lm_sessions m) \<Longrightarrow> lm_sessions m' ! i = lm_sessions m ! i \<Longrightarrow>
    length (lm_sessions m) \<le> length (lm_sessions m') \<Longrightarrow> pushed (sid_of m i) out = [] \<Longrightarrow> pushes (sid_of m i) out = 0 \<Longrightarrow>
    for_client i us = [] \<Longrightarrow> tracks m m' out us i a"
  by (simp add: tracks_def)

lemma file_update_tracks:
  assumes inv: "lv_inv m"
  shows "lv_inv (file_update u m) \<and> (i < length (lm_sessions m) \<longrightarrow> tracks m (file_update u m) [] [u] i a) \<and>
    lm_write_updates (file_update u m) = lm_write_updates m \<and>
    length (lm_sessions (file_update u m)) = length (lm_sessions m)"
proof (cases "map_of (lm_by_prefix m) (name_prefix (fst u))")
  case None
  then have "name_prefix (fst u) \<noteq> prefix_for i" if "i < length (lm_sessions m)"
    using inv_by_prefix[OF inv, of "name_prefix (fst u)" i] that by auto
  with None inv show ?thesis by (auto simp: file_update_def for_client_def intro!: tracks_same)
next
  case (Some j)
  with inv_by_prefix[OF inv] have j: "j < length (lm_sessions m)" "name_prefix (fst u) = prefix_for j" by auto
  let ?s = "lm_sessions m ! j"
  let ?t = "?s\<lparr>ls_updates := AList.update (fst u) (snd u) (ls_updates ?s)\<rparr>"
  have ok: "session_ok j ?s" using inv_session[OF inv j(1)] .
  then have "session_ok j ?t" by (auto simp: session_ok_def distinct_update)
  then have "lv_inv (file_update u m)" using inv_change[OF inv, of j ?t] Some by (simp add: file_update_def Let_def)
  moreover have "latest (ls_updates ?t) = latest (ls_updates ?s @ [u])"
    using ok by (simp add: session_ok_def latest_append latest_single latest_distinct distinct_update update_conv')
  then have "i < length (lm_sessions m) \<longrightarrow> tracks m (file_update u m) [] [u] i a"
    using Some j by (cases "i = j") (auto simp: file_update_def tracks_def for_client_def Let_def)
  ultimately show ?thesis using Some by (simp add: file_update_def Let_def)
qed

lemma tracks_refl: "i < length (lm_sessions m) \<Longrightarrow> tracks m m [] [] i a"
  by (rule tracks_same) simp_all

lemma fold_update_tracks:
  "lv_inv m \<Longrightarrow> lv_inv (fold file_update us m) \<and>
     (i < length (lm_sessions m) \<longrightarrow> tracks m (fold file_update us m) [] us i a) \<and>
     length (lm_sessions (fold file_update us m)) = length (lm_sessions m)"
proof (induction us arbitrary: m)
  case (Cons u us)
  note f = file_update_tracks[OF Cons.prems, of u i a]
  from f Cons.IH[of "file_update u m"] tracks_trans[of m "file_update u m" "[]" "[u]" i a "fold file_update us (file_update u m)" "[]" us a]
  show ?case by simp
qed (simp add: tracks_refl)

lemma dispatch_tracks:
  assumes inv: "lv_inv m" and j: "j < length (lm_sessions m)" and d: "dispatch_live_update m j = (m', out)"
  shows "lv_inv m' \<and> length (lm_sessions m') = length (lm_sessions m) \<and> lm_write_updates m' = lm_write_updates m \<and>
    (i < length (lm_sessions m) \<and> (ls_ready (lm_sessions m ! j) \<or> i \<noteq> j) \<longrightarrow> tracks m m' out [] i a)"
proof -
  let ?s = "lm_sessions m ! j"
  let ?t = "?s\<lparr>ls_updates := [], ls_ready := (if ls_on_ready ?s then False else ls_ready ?s)\<rparr>"
  have m': "m' = m\<lparr>lm_sessions := (lm_sessions m)[j := ?t]\<rparr>" "out = [LiveUpdate (sid_of m j) (ls_updates ?s)]"
    using d by (auto simp: dispatch_live_update_def Let_def)
  have "session_ok j ?t" using inv_session[OF inv j] by (auto simp: session_ok_def)
  then have "lv_inv m'" using inv_change[OF inv, of j ?t] m' by simp
  moreover have "tracks m m' out [] i a" if "i < length (lm_sessions m)" "ls_ready ?s \<or> i \<noteq> j"
    using that j m' sid_inj[OF inv that(1) j] inv_session[OF inv j]
    by (cases "i = j") (auto simp: tracks_def session_ok_def)
  ultimately show ?thesis using m' by simp
qed

lemma dispatch_all_tracks:
  "lv_inv m \<Longrightarrow> \<forall>j \<in> set js. j < length (lm_sessions m) \<Longrightarrow> dispatch_all m js = (m', out) \<Longrightarrow>
    lv_inv m' \<and> length (lm_sessions m') = length (lm_sessions m) \<and> lm_write_updates m' = lm_write_updates m \<and>
    (i < length (lm_sessions m) \<longrightarrow> tracks m m' out [] i a)"
proof (induction js arbitrary: m out)
  case (Cons j js)
  define r where "r = (if ls_updates (lm_sessions m ! j) \<noteq> [] \<and> ls_ready (lm_sessions m ! j)
    then dispatch_live_update m j else (m, []))"
  obtain m1 o1 where r1: "r = (m1, o1)" by force
  obtain o2 where d2: "dispatch_all m1 js = (m', o2)" "out = o1 @ o2"
    using Cons.prems(3) r1 by (cases "dispatch_all m1 js") (auto simp: r_def Let_def)
  have j: "j < length (lm_sessions m)" using Cons.prems(2) by simp
  have 1: "lv_inv m1 \<and> length (lm_sessions m1) = length (lm_sessions m) \<and> lm_write_updates m1 = lm_write_updates m \<and>
    (i < length (lm_sessions m) \<longrightarrow> tracks m m1 o1 [] i a)"
    using dispatch_tracks[OF Cons.prems(1) j, of m1 o1 i a] r1 Cons.prems(1)
    by (auto simp: r_def tracks_refl split: if_splits)
  from 1 Cons.IH[of m1 o2] Cons.prems(2) d2 have 2: "lv_inv m' \<and> length (lm_sessions m') = length (lm_sessions m1) \<and>
    lm_write_updates m' = lm_write_updates m1 \<and> (i < length (lm_sessions m1) \<longrightarrow> tracks m1 m' o2 [] i a)" by simp
  with 1 d2(2) tracks_trans[of m m1 o1 "[]" i a m' o2 "[]" a] show ?case by simp
qed (auto simp: tracks_refl)

lemma register_inv:
  assumes inv: "lv_inv m" and r: "register_client m c b uuid = (m', out)"
  shows "lv_inv m' \<and> (\<exists>s. lm_sessions m' = lm_sessions m @ [s]) \<and> lm_write_updates m' = lm_write_updates m \<and>
    pushed sid out = [] \<and> pushes sid out = 0"
proof -
  let ?n = "length (lm_sessions m)"
  have n: "length (lm_by_client m) = ?n" using inv by (simp add: lv_inv_def)
  let ?s = "\<lparr>ls_client_id = c, ls_session_id = session_id_for ?n uuid, ls_prefix = prefix_for ?n,
    ls_on_ready = b, ls_updates = [], ls_ready = True\<rparr>"
  have ne: "session_id_for ?n uuid \<noteq> sid_of m i" if "i < ?n" for i
    using inv_session[OF inv that] that by (auto simp: session_ok_def session_id_inj)
  have "session_id_for ?n uuid \<noteq> fst p" if "p \<in> set (map (\<lambda>i. (sid_of m i, i)) [0..<?n])" for p
  proof -
    obtain x where "p = (sid_of m x, x)" "x < ?n" using \<open>p \<in> _\<close> by auto
    with ne[of x] show ?thesis by simp
  qed
  then have "session_id_for ?n uuid \<notin> fst ` set (map (\<lambda>i. (sid_of m i, i)) [0..<?n])" by blast
  moreover have "lm_by_client m = map (\<lambda>i. (sid_of m i, i)) [0..<?n]" using inv by (simp add: lv_inv_def)
  ultimately have "session_id_for ?n uuid \<notin> fst ` set (lm_by_client m)" by metis
  moreover have "prefix_for ?n \<notin> fst ` set (lm_by_prefix m)" using inv by (auto simp: lv_inv_def)
  ultimately have m': "m' = m\<lparr>lm_sessions := lm_sessions m @ [?s], lm_by_client := lm_by_client m @ [(session_id_for ?n uuid, ?n)],
      lm_by_prefix := lm_by_prefix m @ [(prefix_for ?n, ?n)]\<rparr>" "out = [Registered c (session_id_for ?n uuid)]"
    using r n by (auto simp: register_client_def Let_def update_fresh)
  have "session_ok ?n ?s" by (auto simp: session_ok_def)
  then have "lv_inv m'" using inv unfolding m' lv_inv_def
    by (auto simp: nth_append less_Suc_eq intro!: map_cong)
  with m' show ?thesis by auto
qed

fun step_reports :: "update list \<Rightarrow> lv_event \<Rightarrow> update list" where
  "step_reports w (Updated (Some changes)) = w @ changes"
| "step_reports w _ = []"

lemma lv_step_tracks:
  assumes inv: "lv_inv m" and u: "\<forall>s. e \<noteq> Unregister s" and st: "lv_step m e = (m', out)"
  shows "lv_inv m' \<and> handled_changes (lm_write_updates m) (e # es) = step_reports (lm_write_updates m) e @ handled_changes (lm_write_updates m') es \<and>
    (i < length (lm_sessions m) \<longrightarrow> tracks m m' out (step_reports (lm_write_updates m) e) i (e = Ready (sid_of m i)))"
proof -
  have quiet: ?thesis if "lm_sessions m' = lm_sessions m" "lm_by_client m' = lm_by_client m" "lm_by_prefix m' = lm_by_prefix m"
      "\<And>sid. pushed sid out = [] \<and> pushes sid out = 0" "for_client i (step_reports (lm_write_updates m) e) = []"
      "handled_changes (lm_write_updates m) (e # es) = step_reports (lm_write_updates m) e @ handled_changes (lm_write_updates m') es"
    using that inv by (auto simp: lv_inv_def intro!: tracks_same)
  have pe: "pushed sid (map (\<lambda>w. RegisterError (fst w)) ws) = [] \<and> pushes sid (map (\<lambda>w. RegisterError (fst w)) ws) = 0"
    for sid and ws :: "(jstr \<times> bool) list" by (induction ws) simp_all
  show ?thesis
  proof (cases e)
    case (Register c b)
    with st show ?thesis by (intro quiet) (auto simp: request_live_capability_def split: connection_state.splits)
  next
    case LiveConnected
    with st show ?thesis
      by (intro quiet) (auto simp: live_connected_def resolve_connection_waiters_def Let_def)
  next
    case LiveFailed
    with st pe show ?thesis
      by (intro quiet) (auto simp: live_failed_def resolve_connection_waiters_def Let_def)
  next
    case (RunRegister n uuid)
    show ?thesis
    proof (cases "n < length (lm_jobs m)")
      case True
      let ?m = "m\<lparr>lm_jobs := take n (lm_jobs m) @ drop (Suc n) (lm_jobs m)\<rparr>"
      have "lv_inv ?m" using inv by (simp add: lv_inv_def)
      moreover have "register_client ?m (fst (lm_jobs m ! n)) (snd (lm_jobs m ! n)) uuid = (m', out)"
        using st RunRegister True by simp
      ultimately have r: "lv_inv m' \<and> (\<exists>s. lm_sessions m' = lm_sessions ?m @ [s]) \<and> lm_write_updates m' = lm_write_updates ?m \<and>
        pushed sid out = [] \<and> pushes sid out = 0" for sid by (rule register_inv)
      then obtain s where "lm_sessions m' = lm_sessions m @ [s]" by auto
      with r RunRegister show ?thesis by (auto simp: nth_append intro!: tracks_same)
    qed (use st RunRegister in \<open>intro quiet; simp\<close>)
  next
    case (Unregister s)
    with u show ?thesis by simp
  next
    case (Updated changelist)
    show ?thesis
    proof (cases changelist)
      case None
      with Updated st show ?thesis by (intro quiet) (auto simp: update_variables_def)
    next
      case (Some changes)
      let ?us = "lm_write_updates m @ changes"
      let ?m1 = "fold file_update ?us m"
      let ?m2 = "?m1\<lparr>lm_write_updates := []\<rparr>"
      note f = fold_update_tracks[OF inv, of ?us i "e = Ready (sid_of m i)"]
      have inv2: "lv_inv ?m2" using f by (simp add: lv_inv_def)
      have d: "dispatch_all ?m2 (map snd (lm_by_client ?m2)) = (m', out)"
        using st Updated Some by (simp add: update_variables_def Let_def)
      have "\<forall>j \<in> set (map snd (lm_by_client ?m2)). j < length (lm_sessions ?m2)" using inv2 by (auto simp: lv_inv_def)
      from dispatch_all_tracks[OF inv2 this d, of i "e = Ready (sid_of m i)"]
      have g: "lv_inv m'" "lm_write_updates m' = []"
        "i < length (lm_sessions m) \<Longrightarrow> tracks ?m2 m' out [] i (e = Ready (sid_of m i))" using f by auto
      have "i < length (lm_sessions m) \<Longrightarrow> tracks m ?m2 [] ?us i (e = Ready (sid_of m i))" using f by (simp add: tracks_def)
      with g tracks_trans[of m ?m2 "[]" ?us i "e = Ready (sid_of m i)" m' out "[]" "e = Ready (sid_of m i)"] Updated Some
      show ?thesis by simp
    qed
  next
    case (Ready s)
    show ?thesis
    proof (cases "map_of (lm_by_client m) s")
      case None
      with Ready st show ?thesis by (intro quiet) (auto simp: client_ready_def)
    next
      case (Some j)
      with inv_by_client[OF inv] have j: "j < length (lm_sessions m)" "s = sid_of m j" by auto
      let ?t = "(lm_sessions m ! j)\<lparr>ls_ready := True\<rparr>"
      let ?m1 = "m\<lparr>lm_sessions := (lm_sessions m)[j := ?t]\<rparr>"
      have inv1: "lv_inv ?m1" using inv_change[OF inv, of j ?t] inv_session[OF inv j(1)] by (simp add: session_ok_def)
      have t1: "i < length (lm_sessions m) \<Longrightarrow> tracks m ?m1 [] [] i (e = Ready (sid_of m i))"
        using Ready j by (cases "i = j") (auto simp: tracks_def)
      obtain o1 where o: "(if ls_updates (lm_sessions m ! j) \<noteq> [] then dispatch_live_update ?m1 j else (?m1, [])) = (m', o1)"
          "out = o1 @ [Done]"
        using st Ready Some
        by (cases "if ls_updates (lm_sessions m ! j) \<noteq> [] then dispatch_live_update ?m1 j else (?m1, [])")
          (auto simp: client_ready_def Let_def)
      have t2: "lv_inv m' \<and> lm_write_updates m' = lm_write_updates m \<and>
          (i < length (lm_sessions m) \<longrightarrow> tracks ?m1 m' o1 [] i (e = Ready (sid_of m i)))"
        using dispatch_tracks[OF inv1, of j m' o1 i] o(1) j inv1 by (auto simp: tracks_refl split: if_splits)
      have t3: "i < length (lm_sessions m) \<Longrightarrow> tracks m m' o1 [] i (e = Ready (sid_of m i))"
        using tracks_trans[of m ?m1 "[]" "[]" i _ m' o1 "[]"] t1 t2 by fastforce
      with t2 o(2) Ready show ?thesis by (auto simp: tracks_def)
    qed
  next
    case (Written changes)
    with st show ?thesis by (intro quiet) (auto simp: write_confirmed_def)
  qed
qed

fun no_unregister :: "lv_event \<Rightarrow> bool" where
  "no_unregister (Unregister _) = False"
| "no_unregister _ = True"

lemma lv_run_tracks:
  "lv_inv m \<Longrightarrow> list_all no_unregister es \<Longrightarrow> run_steps lv_step m es = (m', out) \<Longrightarrow>
    lv_inv m' \<and> (i < length (lm_sessions m) \<longrightarrow>
      tracks m m' out (handled_changes (lm_write_updates m) es) i (Ready (sid_of m i) \<in> set es))"
proof (induction es arbitrary: m out)
  case Nil
  then show ?case by (simp add: tracks_refl)
next
  case (Cons e es)
  obtain m1 o1 where 1: "lv_step m e = (m1, o1)" by force
  obtain o2 where 2: "run_steps lv_step m1 es = (m', o2)" "out = o1 @ o2"
    using Cons.prems(3) 1 by (cases "run_steps lv_step m1 es") auto
  have u: "\<forall>s. e \<noteq> Unregister s" using Cons.prems(2) by (cases e) auto
  note s = lv_step_tracks[OF Cons.prems(1) u 1, of es i]
  have r: "lv_inv m' \<and> (i < length (lm_sessions m1) \<longrightarrow>
      tracks m1 m' o2 (handled_changes (lm_write_updates m1) es) i (Ready (sid_of m1 i) \<in> set es))"
    using Cons.IH[OF _ _ 2(1)] s Cons.prems(2) by simp
  show ?case
  proof (intro conjI impI)
    assume i: "i < length (lm_sessions m)"
    with s have t: "tracks m m1 o1 (step_reports (lm_write_updates m) e) i (e = Ready (sid_of m i))" by simp
    then have i1: "i < length (lm_sessions m1)" "sid_of m1 i = sid_of m i" by (simp_all add: tracks_def)
    from tracks_trans[OF t, of m' o2 "handled_changes (lm_write_updates m1) es" "Ready (sid_of m i) \<in> set es"] r i1 s 2(2)
    have "tracks m m' out (handled_changes (lm_write_updates m) (e # es)) i (e = Ready (sid_of m i) \<or> Ready (sid_of m i) \<in> set es)"
      by simp
    moreover have "(e = Ready (sid_of m i) \<or> Ready (sid_of m i) \<in> set es) = (Ready (sid_of m i) \<in> set (e # es))" by auto
    ultimately show "tracks m m' out (handled_changes (lm_write_updates m) (e # es)) i (Ready (sid_of m i) \<in> set (e # es))"
      by (simp only:)
  qed (use r in simp)
qed

lemma lv_inv_init [simp]: "lv_inv lm_init"
  by (simp add: lv_inv_def lm_init_def)

text \<open>
  All changes GDB has reported, in its answers to updates and to the readbacks of writes. A second write before the
  next update replaces the changes of the first one (\<open>pvrWriteUpdates\<close> is assigned): \<open>writes_kept\<close> holds of the runs without.
\<close>

fun reported :: "lv_event list \<Rightarrow> update list" where
  "reported [] = []"
| "reported (Updated (Some changes) # es) = changes @ reported es"
| "reported (Written changes # es) = changes @ reported es"
| "reported (_ # es) = reported es"

fun writes_kept :: "update list \<Rightarrow> lv_event list \<Rightarrow> bool" where
  "writes_kept w [] = True"
| "writes_kept w (Updated (Some changes) # es) = writes_kept [] es"
| "writes_kept w (Written changes # es) = (w = [] \<and> writes_kept changes es)"
| "writes_kept w (_ # es) = writes_kept w es"

lemma reported_handled:
  "lv_inv m \<Longrightarrow> list_all no_unregister es \<Longrightarrow> writes_kept (lm_write_updates m) es \<Longrightarrow> run_steps lv_step m es = (m', out) \<Longrightarrow>
    lm_write_updates m @ reported es = handled_changes (lm_write_updates m) es @ lm_write_updates m'"
proof (induction es arbitrary: m out)
  case (Cons e es)
  obtain m1 o1 where 1: "lv_step m e = (m1, o1)" by force
  obtain o2 where 2: "run_steps lv_step m1 es = (m', o2)" using Cons.prems(4) 1 by (cases "run_steps lv_step m1 es") auto
  have u: "\<forall>s. e \<noteq> Unregister s" using Cons.prems(2) by (cases e) auto
  note s = lv_step_tracks[OF Cons.prems(1) u 1, of "[Updated (Some [])]"]
  have w: "writes_kept (lm_write_updates m1) es \<and>
      lm_write_updates m @ reported (e # es) = step_reports (lm_write_updates m) e @ lm_write_updates m1 @ reported es"
  proof (cases e)
    case (Updated cl)
    with s Cons.prems(3) show ?thesis by (cases cl) auto
  qed (use s Cons.prems(3) in auto)
  from Cons.IH[OF _ _ conjunct1[OF w] 2] s Cons.prems(2) have "lm_write_updates m1 @ reported es =
    handled_changes (lm_write_updates m1) es @ lm_write_updates m'" by simp
  moreover have "handled_changes (lm_write_updates m) (e # es) =
      step_reports (lm_write_updates m) e @ handled_changes (lm_write_updates m1) es"
    using lv_step_tracks[OF Cons.prems(1) u 1, of es] by simp
  ultimately show ?case using w by simp
qed simp

text \<open>
  A client that unregisters frees a number that is still in use as a prefix: the next client gets
  the prefix of a client that is there, and that client's changes.
\<close>

lemma unregister_reuses_prefix:
  "let (m, out) = run_steps lv_step lm_init [Register ''A'' False, LiveConnected, RunRegister 0 ''a'', Register ''B'' False,
      RunRegister 0 ''b'', Unregister (session_id_for 0 ''a''), Register ''C'' False, RunRegister 0 ''c'',
      Updated (Some [(''W1-x'', ''5'')])]
   in pushed (session_id_for 1 ''b'') out = [] \<and> pushed (session_id_for 1 ''c'') out = [(''W1-x'', ''5'')]"
  by code_simp

text \<open>A second write before the next update loses the changes of the first.\<close>

lemma second_write_overwrites:
  "let (m, out) = run_steps lv_step lm_init [Register ''A'' False, LiveConnected, RunRegister 0 ''a'',
      Written [(''W0-x'', ''5'')], Written [(''W0-y'', ''6'')], Updated (Some [])]
   in pushed (session_id_for 0 ''a'') out = [(''W0-y'', ''6'')] \<and> lm_write_updates m = []"
  by code_simp

subsection \<open>Properties\<close>

text \<open>
  C17: No change of a live variable is lost on its way to a client. After any events up to the
  registration of a client and any later ones, what the client was sent, what is pending for it and what waits
  from a write give, for every variable of its own, the value GDB reported last, in its answers to updates and to
  the readbacks of writes; updates that were coalesced make no difference, and it gets nothing of another client's. (No
  client unregisters, and there is an update between two writes.)
\<close>

theorem live_updates_not_lost:
  assumes "list_all no_unregister es1" "list_all no_unregister es2"
    and "run_steps lv_step lm_init es1 = (m, out1)" "i < length (lm_sessions m)"
    and "run_steps lv_step m es2 = (m', out2)" "writes_kept (lm_write_updates m) es2"
  shows "latest (pushed (sid_of m i) out2 @ ls_updates (lm_sessions m' ! i) @ for_client i (lm_write_updates m')) =
    latest (ls_updates (lm_sessions m ! i) @ for_client i (lm_write_updates m @ reported es2))"
proof -
  have inv: "lv_inv m" using lv_run_tracks[OF lv_inv_init assms(1,3)] by simp
  from lv_run_tracks[OF inv assms(2,5), of i] assms(4) reported_handled[OF inv assms(2,6,5)]
  show ?thesis by (simp add: tracks_def latest_append del: for_client_append) (simp add: latest_append)
qed

theorem live_updates_not_lost_witness:
  "let (m, out1) = run_steps lv_step lm_init [Register ''A'' True, LiveConnected, RunRegister 0 ''a''];
       (m', out2) = run_steps lv_step m [Updated (Some [(''W0-x'', ''1'')]), Updated (Some [(''W0-x'', ''2'')]), Written [(''W0-x'', ''3'')]]
   in latest (pushed (sid_of m 0) out2 @ ls_updates (lm_sessions m' ! 0) @ for_client 0 (lm_write_updates m')) ''W0-x'' = Some ''3''"
proof -
  let ?e1 = "[Register ''A'' True, LiveConnected, RunRegister 0 ''a'']"
    and ?e2 = "[Updated (Some [(''W0-x'', ''1'')]), Updated (Some [(''W0-x'', ''2'')]), Written [(''W0-x'', ''3'')]]"
  obtain m out1 where 1: "run_steps lv_step lm_init ?e1 = (m, out1)" by (rule prod.exhaust)
  obtain m' out2 where 2: "run_steps lv_step m ?e2 = (m', out2)" by (rule prod.exhaust)
  have m: "length (lm_sessions m) = 1" "ls_updates (lm_sessions m ! 0) = []" "lm_write_updates m = []"
    using 1 by (auto simp: lm_init_def request_live_capability_def live_connected_def resolve_connection_waiters_def register_client_def Let_def)
  have r: "for_client 0 ([] @ reported ?e2) = [(''W0-x'', ''1''), (''W0-x'', ''2''), (''W0-x'', ''3'')]" by code_simp
  have h: "list_all no_unregister ?e1" "list_all no_unregister ?e2" "0 < length (lm_sessions m)" "writes_kept (lm_write_updates m) ?e2" using m by simp_all
  from live_updates_not_lost[OF h(1,2) 1 h(3) 2 h(4)] show ?thesis
    unfolding m r 1 2 Let_def prod.case by (simp add: latest_def)
qed

text \<open>
  A client with notify mode \<open>onReady\<close> sets the pace: as long as it has not acknowledged, it is
  pushed at most one batch, and none if it was already waiting for its acknowledgement.
\<close>

lemma push_waits_for_ack:
  assumes "list_all no_unregister es1" "list_all no_unregister es2"
    and "run_steps lv_step lm_init es1 = (m, out1)" "i < length (lm_sessions m)"
    and "run_steps lv_step m es2 = (m', out2)"
    and "ls_on_ready (lm_sessions m ! i)" "Ready (sid_of m i) \<notin> set es2"
  shows "pushes (sid_of m i) out2 \<le> (if ls_ready (lm_sessions m ! i) then 1 else 0)"
proof -
  have "lv_inv m" using lv_run_tracks[OF lv_inv_init assms(1,3)] by simp
  from lv_run_tracks[OF this assms(2,5), of i] assms(4,6,7) show ?thesis by (auto simp: tracks_def)
qed

lemma push_waits_for_ack_witness:
  "let (m, out1) = run_steps lv_step lm_init [Register ''A'' True, LiveConnected, RunRegister 0 ''a''];
       (m', out2) = run_steps lv_step m [Updated (Some [(''W0-x'', ''1'')]), Updated (Some [(''W0-x'', ''2'')])]
   in pushes (sid_of m 0) out2 \<le> 1"
proof -
  let ?e1 = "[Register ''A'' True, LiveConnected, RunRegister 0 ''a'']"
    and ?e2 = "[Updated (Some [(''W0-x'', ''1'')]), Updated (Some [(''W0-x'', ''2'')])]"
  obtain m out1 where 1: "run_steps lv_step lm_init ?e1 = (m, out1)" by (rule prod.exhaust)
  obtain m' out2 where 2: "run_steps lv_step m ?e2 = (m', out2)" by (rule prod.exhaust)
  have m: "length (lm_sessions m) = 1" "ls_ready (lm_sessions m ! 0)" "ls_on_ready (lm_sessions m ! 0)"
    using 1 by (auto simp: lm_init_def request_live_capability_def live_connected_def resolve_connection_waiters_def register_client_def Let_def)
  have h: "list_all no_unregister ?e1" "list_all no_unregister ?e2" "0 < length (lm_sessions m)"
    "Ready (sid_of m 0) \<notin> set ?e2" using m by simp_all
  from push_waits_for_ack[OF h(1,2) 1 h(3) 2 m(3) h(4)] m(2) show ?thesis unfolding 1 2 Let_def prod.case by simp
qed

end
