(* ===== verification/GdbCommands.thy ===== *)
theory GdbCommands
  imports Prelude MiParser
begin

text \<open>
  What the parts of the adapter that talk to GDB share: the answers to commands, how the code reads
  fields, numbers and addresses from them (\<open>common/utils.ts\<close>), and hexadecimal text.
\<close>

type_synonym num = "nat option"

datatype answer = GdbDone "(jstr \<times> mi_value) list" | GdbError jstr

subsection \<open>Reading answers\<close>

text \<open>
  \<open>info[key]\<close>: an undefined \<open>info\<close> throws, everything that is not an object has no such field.
\<close>

definition js_field :: "mi_value option \<Rightarrow> jstr \<Rightarrow> jstr + mi_value option" where
  "js_field info key = (case info of
     None \<Rightarrow> Inl (''TypeError: Cannot read properties of undefined (reading '' @ [CHR 0x27] @ key @ [CHR 0x27] @ '')'')
   | Some (MTuple fs) \<Rightarrow> Inr (map_of fs key)
   | Some _ \<Rightarrow> Inr None)"

text \<open>\<open>parseInt\<close> of a parsed value: an array is read through its text, which begins with its first element.\<close>

fun parse_num_value :: "mi_value \<Rightarrow> num" where
  "parse_num_value (MConst s) = parse_int s"
| "parse_num_value (MTuple _) = None"
| "parse_num_value (MList []) = None"
| "parse_num_value (MList (v # _)) = parse_num_value v"

definition parse_num :: "mi_value option \<Rightarrow> num" where
  "parse_num v = (case v of None \<Rightarrow> None | Some v \<Rightarrow> parse_num_value v)"

text \<open>\<open>x || y\<close> and \<open>x ?? y\<close> of optional fields.\<close>

definition js_or :: "mi_value option \<Rightarrow> mi_value option \<Rightarrow> mi_value option" where
  "js_or x y = (if x = None \<or> x = Some (MConst []) then y else x)"

definition js_coalesce :: "mi_value option \<Rightarrow> mi_value option \<Rightarrow> mi_value option" where
  "js_coalesce x y = (if x = None then y else x)"

definition show_num :: "num \<Rightarrow> jstr" where
  "show_num n = (case n of None \<Rightarrow> ''NaN'' | Some k \<Rightarrow> show_nat k)"

subsection \<open>Addresses\<close>

definition hex_char_val :: "char \<Rightarrow> nat option" where
  "hex_char_val c = (let n = of_char c :: nat in
     if is_digit c then Some (n - 48)
     else if 97 \<le> n \<and> n \<le> 102 then Some (n - 87)
     else if 65 \<le> n \<and> n \<le> 70 then Some (n - 55) else None)"

text \<open>The value of a non-empty run of digits of a base; \<open>None\<close> when one is not a digit of the base.\<close>

fun base_val :: "nat \<Rightarrow> nat \<Rightarrow> jstr \<Rightarrow> nat option" where
  "base_val b acc [] = Some acc"
| "base_val b acc (c # cs) = (case hex_char_val c of
     None \<Rightarrow> None
   | Some d \<Rightarrow> if d < b then base_val b (b * acc + d) cs else None)"

definition digits_of :: "nat \<Rightarrow> jstr \<Rightarrow> int option" where
  "digits_of b s = (if s = [] then None else map_option int (base_val b 0 s))"

text \<open>\<open>BigInt(s)\<close>; \<open>None\<close> stands for its \<open>SyntaxError\<close>.\<close>

definition js_big_int :: "jstr \<Rightarrow> int option" where
  "js_big_int raw = (let s = js_trim raw in
     if s = [] then Some 0
     else if js_lower (take 2 s) = ''0x'' then digits_of 16 (drop 2 s)
     else if js_lower (take 2 s) = ''0o'' then digits_of 8 (drop 2 s)
     else if js_lower (take 2 s) = ''0b'' then digits_of 2 (drop 2 s)
     else if hd s = CHR ''-'' then map_option uminus (digits_of 10 (tl s))
     else if hd s = CHR ''+'' then digits_of 10 (tl s)
     else digits_of 10 s)"

definition parse_address :: "jstr \<Rightarrow> int option" where
  "parse_address addr = js_big_int (js_trim addr)"

definition parse_address_cleaned :: "jstr \<Rightarrow> int option" where
  "parse_address_cleaned addr =
     (let trimmed = hd (split_on (CHR '' '') (js_trim addr));
          trimmed = hd (split_on (CHR '':'') trimmed)
      in js_big_int trimmed)"

fun show_hex :: "nat \<Rightarrow> jstr" where
  "show_hex n = (if n < 16 then [hex_digit n] else show_hex (n div 16) @ [hex_digit (n mod 16)])"

declare show_hex.simps [simp del]

text \<open>\<open>toString(16)\<close> of a \<open>bigint\<close>.\<close>

definition to_hex :: "int \<Rightarrow> jstr" where
  "to_hex i = (if i < 0 then ''-'' @ show_hex (nat (- i)) else show_hex (nat i))"


definition format_address :: "int \<Rightarrow> jstr" where
  "format_address addr = ''0x'' @ to_hex addr"

text \<open>Hexadecimal text is read back.\<close>

lemma hex_char_val_digit: "d < 16 \<Longrightarrow> hex_char_val (hex_digit d) = Some d"
  by (auto simp: hex_char_val_def hex_digit_def is_digit_def Let_def take_bit_eq_mod)

lemma hex_digit_not_ws: "d < 16 \<Longrightarrow> \<not> js_ws (hex_digit d)"
  using hex_char_val_digit[of d] by (auto simp: js_ws_def hex_char_val_def is_digit_def split: if_splits)

lemma base_val_snoc: "base_val b acc (s @ [c]) = (case base_val b acc s of None \<Rightarrow> None
   | Some v \<Rightarrow> (case hex_char_val c of None \<Rightarrow> None | Some d \<Rightarrow> if d < b then Some (b * v + d) else None))"
  by (induction b acc s rule: base_val.induct) (auto split: option.splits)

lemma show_hex_ne [simp]: "show_hex n \<noteq> []"
  by (subst show_hex.simps) simp

lemma base_val_show_hex: "base_val 16 0 (show_hex n) = Some n"
proof (induction n rule: show_hex.induct)
  case (1 n)
  show ?case
  proof (cases "n < 16")
    case True
    then show ?thesis by (subst show_hex.simps) (simp add: hex_char_val_digit)
  next
    case False
    with 1 show ?thesis by (subst show_hex.simps) (simp add: base_val_snoc hex_char_val_digit)
  qed
qed

lemma last_show_hex: "\<exists>d < 16. last (show_hex n) = hex_digit d"
  by (subst show_hex.simps) (auto intro: exI[of _ "n mod 16"])

lemma js_big_int_hex [simp]: "js_big_int (CHR ''0'' # CHR ''x'' # show_hex n) = Some (int n)"
proof -
  let ?s = "CHR ''0'' # CHR ''x'' # show_hex n"
  obtain d where "d < 16" "last (show_hex n) = hex_digit d" using last_show_hex by blast
  then have "\<not> js_ws (last ?s)" by (simp add: hex_digit_not_ws)
  moreover have "\<not> js_ws (hd ?s)" by (simp add: js_ws_def)
  ultimately have t: "js_trim ?s = ?s" by (intro js_trim_id) simp
  have "js_lower ''0x'' = ''0x''" by code_simp
  then show ?thesis using base_val_show_hex[of n] by (simp add: js_big_int_def t Let_def digits_of_def)
qed


lemma trim_hex: "js_trim (CHR ''0'' # CHR ''x'' # show_hex n) = CHR ''0'' # CHR ''x'' # show_hex n"
proof (rule js_trim_id)
  obtain d where "d < 16" "last (show_hex n) = hex_digit d" using last_show_hex by blast
  then show "CHR ''0'' # CHR ''x'' # show_hex n = [] \<or> \<not> js_ws (hd (CHR ''0'' # CHR ''x'' # show_hex n)) \<and>
    \<not> js_ws (last (CHR ''0'' # CHR ''x'' # show_hex n))"
    by (simp add: hex_digit_not_ws) (simp add: js_ws_def)
qed

lemma parse_format_address [simp]: "0 \<le> a \<Longrightarrow> parse_address (format_address a) = Some a"
  by (simp add: parse_address_def format_address_def to_hex_def trim_hex)

subsection \<open>Prefixes of commands\<close>

lemma starts_with_simps [simp]: "starts_with [] s" "starts_with (c # p) (d # s) = (c = d \<and> starts_with p s)" "\<not> starts_with (c # p) []"
  by (auto simp: starts_with_def)

lemma starts_with_shorter: "starts_with (p @ q) s \<Longrightarrow> starts_with p s"
  unfolding starts_with_def by (drule arg_cong[where f = "take (length p)"]) (simp add: min_def)

lemma starts_with_Cons: "starts_with (d # p) s = (\<exists>t. s = d # t \<and> starts_with p t)"
  by (cases s) auto

end
