(* ===== verification/Breakpoints.thy ===== *)
theory Breakpoints
  imports GdbCommands
begin

text \<open>
  The breakpoint tables of the debug adapter (\<open>adapter/breakpoints.ts\<close>): the four DAP requests
  that replace the breakpoints of a file, of instructions, of functions and of data, the GDB
  commands they send and the tables of confirmed breakpoints they keep, and the interruption of a
  running target around them.

  GDB is a parameter \<open>gdb g c\<close>: what it answers to the command \<open>c\<close> in its state \<open>g\<close>, and its next
  state. Answers are the parsed values of \<open>MiParser\<close>. Numbers JavaScript reads with \<open>parseInt\<close>
  are \<^typ>\<open>nat option\<close>, \<open>None\<close> for \<open>NaN\<close>; an absent string of a request is the empty string, which
  the code treats alike. The source path of a request is the canonical one.
\<close>

record src_bp =
  sb_line :: num
  sb_condition :: jstr
  sb_hit :: jstr
  sb_log :: jstr

record instr_bp =
  ib_ref :: jstr
  ib_offset :: int
  ib_condition :: jstr
  ib_hit :: jstr

record func_bp =
  fb_name :: jstr
  fb_condition :: jstr
  fb_hit :: jstr

datatype access_type = NoAccess | ReadAccess | WriteAccess | ReadWriteAccess

record data_bp =
  db_data_id :: jstr
  db_access :: access_type

datatype bp_request =
    SetFile jstr "src_bp list"
  | SetInstrs "instr_bp list"
  | SetFuncs "func_bp list"
  | SetDatas "data_bp list"

text \<open>An entry of the response.\<close>

record dap_bp =
  dp_verified :: bool
  dp_id :: num
  dp_line :: num
  dp_ref :: "mi_value option"
  dp_source :: "(mi_value option \<times> mi_value option) option"
  dp_message :: jstr

text \<open>
  The manager. \<open>bp_gdb\<close> is the state of GDB, \<open>bp_sent\<close> the commands it got, \<open>bp_waiting\<close> the
  operations still registered for the next \<open>stopped\<close> event.
\<close>

record 'g bp_manager =
  bp_gdb :: 'g
  bp_running :: bool
  bp_hw_require :: bool
  bp_sent :: "jstr list"
  bp_msgs :: "jstr list"
  bp_waiting :: "bp_request list"
  bp_files :: "(jstr \<times> (num \<times> src_bp) list) list"
  bp_instrs :: "(num \<times> instr_bp) list"
  bp_funcs :: "(num \<times> func_bp) list"
  bp_datas :: "(num \<times> data_bp) list"

definition bp_new :: "'g \<Rightarrow> bool \<Rightarrow> bool \<Rightarrow> 'g bp_manager" where
  "bp_new g running hw = \<lparr>bp_gdb = g, bp_running = running, bp_hw_require = hw, bp_sent = [], bp_msgs = [],
     bp_waiting = [], bp_files = [], bp_instrs = [], bp_funcs = [], bp_datas = []\<rparr>"

subsection \<open>Commands\<close>

definition bp_send :: "('g \<Rightarrow> jstr \<Rightarrow> answer \<times> 'g) \<Rightarrow> 'g bp_manager \<Rightarrow> jstr \<Rightarrow> answer \<times> 'g bp_manager" where
  "bp_send gdb m c = (let (a, g) = gdb (bp_gdb m) c in (a, m\<lparr>bp_gdb := g, bp_sent := bp_sent m @ [c]\<rparr>))"

definition bp_msg :: "'g bp_manager \<Rightarrow> jstr list \<Rightarrow> 'g bp_manager" where
  "bp_msg m ws = m\<lparr>bp_msgs := bp_msgs m @ ws\<rparr>"

definition replace_char :: "char \<Rightarrow> jstr \<Rightarrow> jstr \<Rightarrow> jstr" where
  "replace_char c r s = concat (map (\<lambda>x. if x = c then r else [x]) s)"

definition escape_gdb_string :: "jstr \<Rightarrow> jstr" where
  "escape_gdb_string s = replace_char DQ [BSL, DQ] (replace_char BSL [BSL, BSL] s)"

text \<open>\<open>/\d+/.exec(s)\<close>: the first run of digits, empty when there is none.\<close>

definition first_digits :: "jstr \<Rightarrow> jstr" where
  "first_digits s = takeWhile is_digit (dropWhile (\<lambda>c. \<not> is_digit c) s)"

definition unsupported_count :: "jstr \<Rightarrow> jstr" where
  "unsupported_count h = ''Unsupported break count expression: '' @ [CHR 0x27] @ h @ [CHR 0x27]
     @ ''. Only supports '' @ [CHR 0x27] @ ''X'' @ [CHR 0x27] @ '' for breaking once after X times or '' @ [CHR 0x27]
     @ ''>X'' @ [CHR 0x27] @ '' for ignoring the first X breaks''"

text \<open>
  \<open>match.length\<close> is the number of groups of the match: always 1 here. The first component are the
  arguments, the second the messages.
\<close>

definition parse_hit_condition :: "jstr \<Rightarrow> jstr \<times> jstr list" where
  "parse_hit_condition raw = (let h = js_trim raw in
     if h = [] then ([], [])
     else if hd h = CHR ''>'' then
       (''-i '' @ (if first_digits (tl h) = [] then ''undefined'' else first_digits (tl h)), [])
     else let match = first_digits h in
       if match \<noteq> [] \<and> 1 \<noteq> length h then ([], [unsupported_count h])
       else if match \<noteq> [] \<and> dec_val match \<noteq> 0 then (''-t -i '' @ show_nat (dec_val match), [])
       else ([], []))"

definition source_command :: "bool \<Rightarrow> jstr \<Rightarrow> src_bp \<Rightarrow> jstr \<times> jstr list" where
  "source_command hw file bp =
     (let args = ''--source '' @ [DQ] @ file @ [DQ] @ '' --line '' @ show_num (sb_line bp);
          args = args @ (if sb_condition bp \<noteq> [] then '' -c '' @ [DQ] @ escape_gdb_string (sb_condition bp) @ [DQ] else []);
          (hit, hit_msgs) = (if sb_hit bp \<noteq> [] then parse_hit_condition (sb_hit bp) else ([], []));
          args = args @ (if sb_hit bp \<noteq> [] then '' '' @ hit else []);
          args = args @ (if hw then '' -h'' else []);
          cmd = (if sb_log bp \<noteq> [] then ''dprintf-insert'' else ''break-insert'');
          log_msgs = (if sb_log bp \<noteq> [] \<and> hw then
              [''Warning: GDB does not support hardware dprintf breakpoints. Ignoring hardware breakpoint request for breakpoint at ''
                @ file @ '':'' @ show_num (sb_line bp) @ [NL]] else []);
          args = args @ (if sb_log bp \<noteq> [] \<and> \<not> hw then '' '' @ sb_log bp else [])
      in (''-'' @ cmd @ '' '' @ args, hit_msgs @ log_msgs))"

definition function_command :: "bool \<Rightarrow> func_bp \<Rightarrow> jstr \<times> jstr list" where
  "function_command hw bp =
     (let args = ''--function '' @ [DQ] @ fb_name bp @ [DQ];
          args = args @ (if fb_condition bp \<noteq> [] then '' -c '' @ [DQ] @ escape_gdb_string (fb_condition bp) @ [DQ] else []);
          (hit, msgs) = (if fb_hit bp \<noteq> [] then parse_hit_condition (fb_hit bp) else ([], []));
          args = args @ (if fb_hit bp \<noteq> [] then '' '' @ hit else []);
          args = args @ (if hw then '' -h'' else [])
      in (''-break-insert '' @ args, msgs))"

definition watch_command :: "data_bp \<Rightarrow> jstr" where
  "watch_command bp =
     (let a_type = (case db_access bp of ReadAccess \<Rightarrow> ''-r'' | ReadWriteAccess \<Rightarrow> ''-a'' | _ \<Rightarrow> []);
          args = '' '' @ a_type
      in ''-break-watch '' @ args @ '' '' @ [DQ] @ db_data_id bp @ [DQ])"

definition instr_command :: "bool \<Rightarrow> instr_bp \<Rightarrow> (jstr \<times> jstr list) option" where
  "instr_command hw bp = (case parse_address_cleaned (ib_ref bp) of
     None \<Rightarrow> None
   | Some base \<Rightarrow>
      let addr = base + ib_offset bp;
          args = (if ib_condition bp \<noteq> [] then ''-c '' @ [DQ] @ escape_gdb_string (ib_condition bp) @ [DQ] @ '' '' else []);
          (hit, msgs) = (if ib_hit bp \<noteq> [] then parse_hit_condition (ib_hit bp) else ([], []));
          args = args @ (if ib_hit bp \<noteq> [] then hit @ '' '' else []);
          args = args @ (if hw then ''-h '' else []);
          args = args @ ''*0x'' @ to_hex addr
      in Some (''-break-insert '' @ args, msgs))"

subsection \<open>Deleting\<close>

definition delete_command :: "num list \<Rightarrow> jstr" where
  "delete_command ids = ''-break-delete '' @ join_with '' '' (map show_num ids)"

definition delete_error :: "jstr \<Rightarrow> jstr" where
  "delete_error err = ''Error: Error deleting old breakpoints, so new ones can be set: '' @ err"

definition delete_breakpoints ::
  "('g \<Rightarrow> jstr \<Rightarrow> answer \<times> 'g) \<Rightarrow> 'g bp_manager \<Rightarrow> num list \<Rightarrow> jstr option \<times> 'g bp_manager" where
  "delete_breakpoints gdb m ids =
     (if ids = [] then (None, m)
      else case bp_send gdb m (delete_command ids) of
        (GdbError e, m) \<Rightarrow> (Some (delete_error e), m)
      | (GdbDone _, m) \<Rightarrow> (None, m))"

definition delete_all_breakpoints ::
  "('g \<Rightarrow> jstr \<Rightarrow> answer \<times> 'g) \<Rightarrow> 'g bp_manager \<Rightarrow> jstr option \<times> 'g bp_manager" where
  "delete_all_breakpoints gdb m =
     (case bp_send gdb m ''-break-delete'' of
        (GdbError e, m) \<Rightarrow> (Some (delete_error e), m)
      | (GdbDone _, m) \<Rightarrow> (None, m))"

subsection \<open>Reading the answers\<close>

definition unverified :: "jstr \<Rightarrow> dap_bp" where
  "unverified msg = \<lparr>dp_verified = False, dp_id = None, dp_line = None, dp_ref = None, dp_source = None, dp_message = msg\<rparr>"

text \<open>
  What the code makes of the result of a command for the requested breakpoint \<open>bp\<close>: an exception,
  or the entry of the response, the id and what is stored under it.
\<close>

definition source_confirmed :: "src_bp \<Rightarrow> (jstr \<times> mi_value) list \<Rightarrow> jstr + dap_bp \<times> num \<times> src_bp" where
  "source_confirmed bp result = (let info = map_of result ''bkpt'' in
     case js_field info ''line'' of Inl e \<Rightarrow> Inl e | Inr line \<Rightarrow>
     case js_field info ''number'' of Inl e \<Rightarrow> Inl e | Inr number \<Rightarrow>
     case js_field info ''address'' of Inl e \<Rightarrow> Inl e | Inr address \<Rightarrow>
       Inr (\<lparr>dp_verified = True, dp_id = parse_num number, dp_line = parse_num line, dp_ref = address,
             dp_source = None, dp_message = []\<rparr>,
           parse_num number, bp\<lparr>sb_line := parse_num line\<rparr>))"

definition instr_confirmed :: "instr_bp \<Rightarrow> (jstr \<times> mi_value) list \<Rightarrow> jstr + dap_bp \<times> num \<times> instr_bp" where
  "instr_confirmed bp result = (let info = map_of result ''bkpt'' in
     case js_field info ''number'' of Inl e \<Rightarrow> Inl e | Inr number \<Rightarrow>
     case js_field info ''addr'' of Inl e \<Rightarrow> Inl e | Inr addr \<Rightarrow>
       Inr (\<lparr>dp_verified = True, dp_id = parse_num number, dp_line = None,
             dp_ref = js_coalesce addr (Some (MConst (ib_ref bp))), dp_source = None, dp_message = []\<rparr>,
           parse_num number, bp))"

definition func_confirmed :: "func_bp \<Rightarrow> (jstr \<times> mi_value) list \<Rightarrow> jstr + dap_bp \<times> num \<times> func_bp" where
  "func_confirmed bp result = (let info = map_of result ''bkpt'' in
     case js_field info ''line'' of Inl e \<Rightarrow> Inl e | Inr line \<Rightarrow>
     case js_field info ''number'' of Inl e \<Rightarrow> Inl e | Inr number \<Rightarrow>
     case js_field info ''file'' of Inl e \<Rightarrow> Inl e | Inr file \<Rightarrow>
     case js_field info ''fullname'' of Inl e \<Rightarrow> Inl e | Inr fullname \<Rightarrow>
     case js_field info ''addr'' of Inl e \<Rightarrow> Inl e | Inr addr \<Rightarrow>
       Inr (\<lparr>dp_verified = True, dp_id = parse_num number, dp_line = parse_num line, dp_ref = addr,
             dp_source = Some (js_or file fullname, js_or fullname file), dp_message = []\<rparr>,
           parse_num number, bp))"

text \<open>The loop over the keys stops at the first one that ends with \<open>wpt\<close>.\<close>

definition data_confirmed :: "data_bp \<Rightarrow> (jstr \<times> mi_value) list \<Rightarrow> jstr + dap_bp \<times> num \<times> data_bp" where
  "data_confirmed bp result = (case filter (\<lambda>(key, _). ends_with ''wpt'' key) result of
     [] \<Rightarrow> Inl ''Error: Could not find breakpoint information returned from GDB [object Object]''
   | (_, info) # _ \<Rightarrow> (case js_field (Some info) ''number'' of Inl e \<Rightarrow> Inl e | Inr number \<Rightarrow>
       Inr (\<lparr>dp_verified = True, dp_id = parse_num number, dp_line = None, dp_ref = None,
             dp_source = None, dp_message = []\<rparr>,
           parse_num number, bp)))"

text \<open>All commands are sent before the first answer is awaited.\<close>

fun send_all :: "('g \<Rightarrow> jstr \<Rightarrow> answer \<times> 'g) \<Rightarrow> 'g bp_manager \<Rightarrow> (jstr \<times> jstr list) list \<Rightarrow> answer list \<times> 'g bp_manager" where
  "send_all gdb m [] = ([], m)"
| "send_all gdb m ((c, ws) # cs) =
     (let (a, m) = bp_send gdb (bp_msg m ws) c; (as, m) = send_all gdb m cs in (a # as, m))"

text \<open>
  The loop over the answers: a rejected command or a result that cannot be read gives an unverified
  entry and a message, the others are entered into the table.
\<close>

fun collect :: "('b \<Rightarrow> (jstr \<times> mi_value) list \<Rightarrow> jstr + dap_bp \<times> num \<times> 'b) \<Rightarrow> ('b \<Rightarrow> jstr \<Rightarrow> jstr) \<Rightarrow>
    (num \<times> 'b) list \<Rightarrow> 'b list \<Rightarrow> answer list \<Rightarrow> dap_bp list \<times> (num \<times> 'b) list \<times> jstr list" where
  "collect conf msg tab (b # bs) (a # as) =
     (case (case a of GdbError e \<Rightarrow> Inl e | GdbDone r \<Rightarrow> conf b r) of
        Inl e \<Rightarrow> (let (ds, t, ws) = collect conf msg tab bs as in (unverified e # ds, t, msg b e # ws))
      | Inr (d, n, b') \<Rightarrow> (let (ds, t, ws) = collect conf msg (AList.update n b' tab) bs as in (d # ds, t, ws)))"
| "collect conf msg tab _ _ = ([], tab, [])"

subsection \<open>The four requests\<close>

type_synonym 'g outcome = "(jstr + dap_bp list) \<times> 'g bp_manager"

definition source_error :: "jstr \<Rightarrow> src_bp \<Rightarrow> jstr \<Rightarrow> jstr" where
  "source_error file bp err = ''Error setting breakpoint '' @ file @ '':'' @ show_num (sb_line bp) @ '' '' @ err"

definition set_breakpoints :: "('g \<Rightarrow> jstr \<Rightarrow> answer \<times> 'g) \<Rightarrow> jstr \<Rightarrow> src_bp list \<Rightarrow> 'g bp_manager \<Rightarrow> 'g outcome" where
  "set_breakpoints gdb file bps m =
     (case (case map_of (bp_files m) file of
         None \<Rightarrow> (None, m)
       | Some tab \<Rightarrow> (case delete_breakpoints gdb m (map fst tab) of
           (Some e, m) \<Rightarrow> (Some e, m)
         | (None, m) \<Rightarrow> (None, m\<lparr>bp_files := AList.update file [] (bp_files m)\<rparr>))) of
       (Some e, m) \<Rightarrow> (Inl e, m)
     | (None, m) \<Rightarrow>
         let (as, m) = send_all gdb m (map (source_command (bp_hw_require m) file) bps);
             (ds, tab, ws) = collect source_confirmed (source_error file) [] bps as;
             m = bp_msg m ws
         in (Inr ds, m\<lparr>bp_files := AList.update file tab (bp_files m)\<rparr>))"

definition instr_error :: "instr_bp \<Rightarrow> jstr \<Rightarrow> jstr" where
  "instr_error bp err = ''Error setting instruction breakpoint '' @ ib_ref bp @ '': '' @ err"

text \<open>
  An address that does not parse throws in the middle of the loop: what was sent before stays sent,
  its answers are never read.
\<close>

definition syntax_error :: jstr where
  "syntax_error = ''SyntaxError: Cannot convert to a BigInt''"

definition set_instruction_breakpoints ::
  "('g \<Rightarrow> jstr \<Rightarrow> answer \<times> 'g) \<Rightarrow> instr_bp list \<Rightarrow> 'g bp_manager \<Rightarrow> 'g outcome" where
  "set_instruction_breakpoints gdb bps m =
     (case delete_breakpoints gdb m (map fst (bp_instrs m)) of
       (Some e, m) \<Rightarrow> (Inl e, m)
     | (None, m) \<Rightarrow>
         let m = m\<lparr>bp_instrs := []\<rparr>;
             cmds = map (instr_command (bp_hw_require m)) bps;
             (as, m) = send_all gdb m (map the (takeWhile (\<lambda>c. c \<noteq> None) cmds))
         in if None \<in> set cmds then (Inl syntax_error, m)
            else let (ds, tab, ws) = collect instr_confirmed instr_error [] bps as
                 in (Inr ds, (bp_msg m ws)\<lparr>bp_instrs := tab\<rparr>))"

definition func_error :: "func_bp \<Rightarrow> jstr \<Rightarrow> jstr" where
  "func_error bp err = ''Error setting function breakpoint '' @ fb_name bp @ '': '' @ err"

definition set_function_breakpoints ::
  "('g \<Rightarrow> jstr \<Rightarrow> answer \<times> 'g) \<Rightarrow> func_bp list \<Rightarrow> 'g bp_manager \<Rightarrow> 'g outcome" where
  "set_function_breakpoints gdb bps m =
     (case delete_breakpoints gdb m (map fst (bp_funcs m)) of
       (Some e, m) \<Rightarrow> (Inl e, m)
     | (None, m) \<Rightarrow>
         let m = m\<lparr>bp_funcs := []\<rparr>;
             (as, m) = send_all gdb m (map (function_command (bp_hw_require m)) bps);
             (ds, tab, ws) = collect func_confirmed func_error [] bps as
         in (Inr ds, (bp_msg m ws)\<lparr>bp_funcs := tab\<rparr>))"

definition data_error :: "data_bp \<Rightarrow> jstr \<Rightarrow> jstr" where
  "data_error bp err = ''Error setting data breakpoint for '' @ db_data_id bp @ '': '' @ err"

definition set_data_breakpoints ::
  "('g \<Rightarrow> jstr \<Rightarrow> answer \<times> 'g) \<Rightarrow> data_bp list \<Rightarrow> 'g bp_manager \<Rightarrow> 'g outcome" where
  "set_data_breakpoints gdb bps m =
     (case delete_breakpoints gdb m (map fst (bp_datas m)) of
       (Some e, m) \<Rightarrow> (Inl e, m)
     | (None, m) \<Rightarrow>
         let m = m\<lparr>bp_datas := []\<rparr>;
             (as, m) = send_all gdb m (map (\<lambda>bp. (watch_command bp, [])) bps);
             (ds, tab, ws) = collect data_confirmed data_error [] bps as
         in (Inr ds, (bp_msg m ws)\<lparr>bp_datas := tab\<rparr>))"

fun bp_operation :: "('g \<Rightarrow> jstr \<Rightarrow> answer \<times> 'g) \<Rightarrow> bp_request \<Rightarrow> 'g bp_manager \<Rightarrow> 'g outcome" where
  "bp_operation gdb (SetFile file bps) = set_breakpoints gdb file bps"
| "bp_operation gdb (SetInstrs bps) = set_instruction_breakpoints gdb bps"
| "bp_operation gdb (SetFuncs bps) = set_function_breakpoints gdb bps"
| "bp_operation gdb (SetDatas bps) = set_data_breakpoints gdb bps"

text \<open>
  A running target is interrupted first; the operation is registered for the \<open>stopped\<close> event, which
  GDB reports after it has accepted the interruption. Whatever happened, the target is continued at
  the end, and a failure of that replaces the outcome.

  An operation whose interruption was refused stays registered and runs at the next stop as well, at the same time as
  the one that stopped the target. The model does not follow that: the outcome is then \<open>None\<close>.
\<close>

definition continue_target ::
  "('g \<Rightarrow> jstr \<Rightarrow> answer \<times> 'g) \<Rightarrow> (jstr + dap_bp list) \<Rightarrow> 'g bp_manager \<Rightarrow> 'g outcome" where
  "continue_target gdb res m = (case bp_send gdb m ''-exec-continue'' of
     (GdbError e, m) \<Rightarrow> (Inl e, m)
   | (GdbDone _, m) \<Rightarrow> (res, m\<lparr>bp_running := True\<rparr>))"

definition execute_while_stopped ::
  "('g \<Rightarrow> jstr \<Rightarrow> answer \<times> 'g) \<Rightarrow> bp_request \<Rightarrow> 'g bp_manager \<Rightarrow> 'g outcome option" where
  "execute_while_stopped gdb r m =
     (if \<not> bp_running m then Some (bp_operation gdb r m)
      else (case bp_send gdb (m\<lparr>bp_waiting := bp_waiting m @ [r]\<rparr>) ''-exec-interrupt'' of
          (GdbError e, m) \<Rightarrow> Some (continue_target gdb (Inl e) m)
        | (GdbDone _, m) \<Rightarrow>
            if bp_waiting m \<noteq> [r] then None
            else (case bp_operation gdb r (m\<lparr>bp_running := False, bp_waiting := []\<rparr>) of (res, m) \<Rightarrow> Some (continue_target gdb res m))))"

fun bp_run :: "('g \<Rightarrow> jstr \<Rightarrow> answer \<times> 'g) \<Rightarrow> 'g bp_manager \<Rightarrow> bp_request list \<Rightarrow> ('g bp_manager \<times> (jstr + dap_bp list) list) option" where
  "bp_run gdb m [] = Some (m, [])"
| "bp_run gdb m (r # rs) = (case execute_while_stopped gdb r m of
     None \<Rightarrow> None
   | Some (res, m) \<Rightarrow> map_option (\<lambda>(m, ress). (m, res # ress)) (bp_run gdb m rs))"

subsection \<open>The tables against GDB\<close>

datatype bp_key = KFile jstr | KInstrs | KFuncs | KDatas

fun ids_of :: "bp_key \<Rightarrow> 'g bp_manager \<Rightarrow> num list" where
  "ids_of (KFile f) m = (case map_of (bp_files m) f of None \<Rightarrow> [] | Some tab \<Rightarrow> map fst tab)"
| "ids_of KInstrs m = map fst (bp_instrs m)"
| "ids_of KFuncs m = map fst (bp_funcs m)"
| "ids_of KDatas m = map fst (bp_datas m)"

fun key_of :: "bp_request \<Rightarrow> bp_key" where
  "key_of (SetFile f _) = KFile f"
| "key_of (SetInstrs _) = KInstrs"
| "key_of (SetFuncs _) = KFuncs"
| "key_of (SetDatas _) = KDatas"

fun asked :: "bp_request \<Rightarrow> nat" where
  "asked (SetFile _ bps) = length bps"
| "asked (SetInstrs bps) = length bps"
| "asked (SetFuncs bps) = length bps"
| "asked (SetDatas bps) = length bps"

text \<open>Every address of the request can be read.\<close>

fun addresses_ok :: "bp_request \<Rightarrow> bool" where
  "addresses_ok (SetInstrs bps) = list_all (\<lambda>bp. parse_address_cleaned (ib_ref bp) \<noteq> None) bps"
| "addresses_ok _ = True"

definition known_ids :: "'g bp_manager \<Rightarrow> num set" where
  "known_ids m = (\<Union>k. set (ids_of k m))"

definition confirmed_ids :: "dap_bp list \<Rightarrow> num list" where
  "confirmed_ids ds = map dp_id (filter dp_verified ds)"

text \<open>
  What GDB/MI documents of the commands used: \<open>live g\<close> are the breakpoints it has, \<open>used g\<close> the numbers it has given
  out. An insertion reports a new number, as \<open>bkpt\<close> or, for a watchpoint, in the one field that ends
  with \<open>wpt\<close>; a deletion removes the listed ones; a rejected command changes none of them,
  and neither does the answer to an execution command: a temporary breakpoint goes when it is hit later, which is
  a step of its own below.
\<close>

fun reports :: "mi_value \<Rightarrow> nat \<Rightarrow> bool" where
  "reports (MTuple fs) n = (map_of fs ''number'' = Some (MConst (show_nat n)))"
| "reports _ n = False"

definition new_number :: "nat \<Rightarrow> nat set \<times> nat set \<Rightarrow> nat set \<times> nat set \<Rightarrow> bool" where
  "new_number n before after = (n \<notin> snd before \<and> after = (insert n (fst before), insert n (snd before)))"

definition insert_answer :: "answer \<Rightarrow> nat set \<times> nat set \<Rightarrow> nat set \<times> nat set \<Rightarrow> bool" where
  "insert_answer a before after = (case a of GdbError _ \<Rightarrow> after = before
     | GdbDone r \<Rightarrow> \<exists>n info. map_of r ''bkpt'' = Some info \<and> reports info n \<and> new_number n before after)"

definition watch_answer :: "answer \<Rightarrow> nat set \<times> nat set \<Rightarrow> nat set \<times> nat set \<Rightarrow> bool" where
  "watch_answer a before after = (case a of GdbError _ \<Rightarrow> after = before
     | GdbDone r \<Rightarrow> \<exists>n key info. filter (\<lambda>(key, _). ends_with ''wpt'' key) r = [(key, info)] \<and> reports info n \<and> new_number n before after)"

text \<open>\<open>nums g\<close> are the live breakpoints and the numbers given out.\<close>

definition gdb_contract :: "('g \<Rightarrow> jstr \<Rightarrow> answer \<times> 'g) \<Rightarrow> ('g \<Rightarrow> nat set \<times> nat set) \<Rightarrow> bool" where
  "gdb_contract gdb nums = ((\<forall>g c a g'. gdb g c = (a, g') \<longrightarrow>
     (starts_with ''-break-insert '' c \<or> starts_with ''-dprintf-insert '' c \<longrightarrow> insert_answer a (nums g) (nums g')) \<and>
     (starts_with ''-break-watch '' c \<longrightarrow> watch_answer a (nums g) (nums g')) \<and>
     (\<forall>ids. ids \<noteq> [] \<and> c = delete_command (map Some ids) \<longrightarrow>
        nums g' = (case a of GdbError _ \<Rightarrow> nums g | GdbDone _ \<Rightarrow> (fst (nums g) - set ids, snd (nums g)))) \<and>
     (starts_with ''-exec-'' c \<longrightarrow> nums g' = nums g)) \<and>
   (\<forall>g. fst (nums g) \<subseteq> snd (nums g)))"

lemma contractD:
  assumes "gdb_contract gdb nums" "gdb g c = (a, g')"
  shows "starts_with ''-break-insert '' c \<or> starts_with ''-dprintf-insert '' c \<Longrightarrow> insert_answer a (nums g) (nums g')"
    and "starts_with ''-break-watch '' c \<Longrightarrow> watch_answer a (nums g) (nums g')"
    and "ids \<noteq> [] \<Longrightarrow> c = delete_command (map Some ids) \<Longrightarrow>
      nums g' = (case a of GdbError _ \<Rightarrow> nums g | GdbDone _ \<Rightarrow> (fst (nums g) - set ids, snd (nums g)))"
    and "starts_with ''-exec-'' c \<Longrightarrow> nums g' = nums g"
  using assms unfolding gdb_contract_def by blast+

text \<open>Commands and messages leave the tables and the execution state alone.\<close>

definition same_tables :: "'g bp_manager \<Rightarrow> 'g bp_manager \<Rightarrow> bool" where
  "same_tables m m' = (bp_files m' = bp_files m \<and> bp_instrs m' = bp_instrs m \<and> bp_funcs m' = bp_funcs m \<and>
     bp_datas m' = bp_datas m \<and> bp_running m' = bp_running m \<and> bp_hw_require m' = bp_hw_require m \<and>
     bp_waiting m' = bp_waiting m)"

lemma same_tables_refl [simp]: "same_tables m m"
  by (simp add: same_tables_def)

lemma same_tables_trans: "same_tables m m1 \<Longrightarrow> same_tables m1 m2 \<Longrightarrow> same_tables m m2"
  by (simp add: same_tables_def)

lemma same_ids: "same_tables m m' \<Longrightarrow> ids_of k m' = ids_of k m"
  by (cases k) (auto simp: same_tables_def)

lemma bp_msg_simps [simp]: "same_tables m (bp_msg m ws)" "bp_gdb (bp_msg m ws) = bp_gdb m" "bp_sent (bp_msg m ws) = bp_sent m"
  by (simp_all add: bp_msg_def same_tables_def)

lemma bp_send_tables:
  "bp_send gdb m c = (a, m') \<Longrightarrow> same_tables m m' \<and> gdb (bp_gdb m) c = (a, bp_gdb m') \<and> bp_sent m' = bp_sent m @ [c]"
  by (cases "gdb (bp_gdb m) c") (auto simp: bp_send_def same_tables_def)

lemma send_all_tables:
  "send_all gdb m cs = (as, m') \<Longrightarrow> same_tables m m' \<and> length as = length cs \<and> bp_sent m' = bp_sent m @ map fst cs"
proof (induction cs arbitrary: m as m')
  case (Cons c cs)
  obtain m1 a where 1: "bp_send gdb (bp_msg m (snd c)) (fst c) = (a, m1)" by force
  obtain m2 as2 where 2: "send_all gdb m1 cs = (as2, m2)" by force
  from Cons.prems 1 2 have "m' = m2" "as = a # as2" by (cases c; simp)+
  with Cons.IH[OF 2] bp_send_tables[OF 1] show ?case
    by (auto intro: same_tables_trans[OF bp_msg_simps(1)] same_tables_trans)
qed simp

text \<open>\<open>inserts\<close>: the command either is rejected or creates the breakpoint that \<open>conf\<close> reads from its answer.\<close>

definition inserts where
  "inserts gdb nums conf c b = (\<forall>g a g'. gdb g c = (a, g') \<longrightarrow> (case a of GdbError _ \<Rightarrow> nums g' = nums g
     | GdbDone r \<Rightarrow> \<exists>d n b'. conf b r = Inr (d, Some n, b') \<and> dp_verified d \<and> dp_id d = Some n \<and> new_number (n::nat) (nums g) (nums g')))"

lemma insert_all:
  assumes "list_all2 (\<lambda>c b. inserts gdb nums conf (fst c) b) cs bs" "send_all gdb m cs = (as, m')"
    and "set (map fst tab) \<subseteq> Some ` snd (nums (bp_gdb m))" "collect conf msg tab bs as = (ds, tab', ws)"
  shows "\<exists>new. map fst tab' = map fst tab @ map Some new \<and> confirmed_ids ds = map Some new \<and> length ds = length bs \<and>
    distinct new \<and> set new \<inter> snd (nums (bp_gdb m)) = {} \<and>
    nums (bp_gdb m') = (fst (nums (bp_gdb m)) \<union> set new, snd (nums (bp_gdb m)) \<union> set new)"
  using assms
proof (induction arbitrary: m m' as tab tab' ds ws rule: list_all2_induct)
  case Nil
  then show ?case by (auto simp: confirmed_ids_def)
next
  case (Cons c cs b bs)
  obtain a m1 where 1: "bp_send gdb (bp_msg m (snd c)) (fst c) = (a, m1)" by force
  obtain as2 m2 where 2: "send_all gdb m1 cs = (as2, m2)" by force
  have as: "as = a # as2" "m' = m2" using Cons.prems(1) 1 2 by (cases c; simp)+
  have g: "gdb (bp_gdb m) (fst c) = (a, bp_gdb m1)" using bp_send_tables[OF 1] by simp
  have ins: "inserts gdb nums conf (fst c) b" using Cons.hyps by simp
  note IH = Cons.IH[OF 2]
  show ?case
  proof (cases a)
    case (GdbError e)
    with ins g have l: "nums (bp_gdb m1) = nums (bp_gdb m)" by (fastforce simp: inserts_def)
    obtain ds1 t1 ws1 where c: "collect conf msg tab bs as2 = (ds1, t1, ws1)" using prod_cases3 by blast
    with Cons.prems(3) as GdbError have "ds = unverified e # ds1" "tab' = t1" by auto
    with IH[OF _ c] Cons.prems(2) l as(2) show ?thesis by (auto simp: confirmed_ids_def unverified_def)
  next
    case (GdbDone r)
    with ins g have "\<exists>d n b'. conf b r = Inr (d, Some n, b') \<and> dp_verified d \<and> dp_id d = Some n \<and> new_number n (nums (bp_gdb m)) (nums (bp_gdb m1))"
      unfolding inserts_def by fastforce
    then obtain d n b' where n: "conf b r = Inr (d, Some n, b')" "dp_verified d" "dp_id d = Some n"
      "n \<notin> snd (nums (bp_gdb m))" "nums (bp_gdb m1) = (insert n (fst (nums (bp_gdb m))), insert n (snd (nums (bp_gdb m))))"
      by (auto simp: new_number_def)
    have fresh: "AList.update (Some n) b' tab = tab @ [(Some n, b')]"
      using Cons.prems(2) n(4) by (intro update_fresh) auto
    obtain ds1 t1 ws1 where c: "collect conf msg (tab @ [(Some n, b')]) bs as2 = (ds1, t1, ws1)" using prod_cases3 by blast
    with Cons.prems(3) as GdbDone n(1) fresh have d: "ds = d # ds1" "tab' = t1" by auto
    have "set (map fst (tab @ [(Some n, b')])) \<subseteq> Some ` snd (nums (bp_gdb m1))" using Cons.prems(2) n(5) by auto
    from IH[OF this c] obtain new where new: "map fst t1 = map fst tab @ Some n # map Some new" "confirmed_ids ds1 = map Some new"
      "length ds1 = length bs" "distinct new" "set new \<inter> snd (nums (bp_gdb m1)) = {}"
      "nums (bp_gdb m2) = (fst (nums (bp_gdb m1)) \<union> set new, snd (nums (bp_gdb m1)) \<union> set new)" by auto
    show ?thesis
      by (intro exI[of _ "n # new"]) (use new n d as(2) in \<open>auto simp: confirmed_ids_def\<close>)
  qed
qed

text \<open>The commands of the requests are insertions, and what the code reads from their answers is the new breakpoint.\<close>

lemma source_command_prefix:
  "starts_with ''-break-insert '' (fst (source_command hw f b)) \<or> starts_with ''-dprintf-insert '' (fst (source_command hw f b))"
  by (simp add: source_command_def Let_def split: prod.split)

lemma function_command_prefix: "starts_with ''-break-insert '' (fst (function_command hw b))"
  by (simp add: function_command_def Let_def split: prod.split)

lemma instr_command_prefix: "instr_command hw b = Some c \<Longrightarrow> starts_with ''-break-insert '' (fst c)"
  by (auto simp: instr_command_def Let_def split: prod.splits option.splits)

lemma reports_field: "reports info n \<Longrightarrow> js_field (Some info) k \<noteq> Inl e \<and> js_field (Some info) ''number'' = Inr (Some (MConst (show_nat n)))"
  by (cases info) (auto simp: js_field_def)

lemma insertsI:
  assumes "gdb_contract gdb nums" "starts_with ''-break-insert '' c \<or> starts_with ''-dprintf-insert '' c"
    and "\<And>r n info. map_of r ''bkpt'' = Some info \<Longrightarrow> reports info n \<Longrightarrow>
      \<exists>d b'. conf b r = Inr (d, Some n, b') \<and> dp_verified d \<and> dp_id d = Some n"
  shows "inserts gdb nums conf c b"
  unfolding inserts_def
proof (intro allI impI)
  fix g a g' assume g: "gdb g c = (a, g')"
  from contractD(1)[OF assms(1) g assms(2)] have "insert_answer a (nums g) (nums g')" .
  then show "case a of GdbError _ \<Rightarrow> nums g' = nums g | GdbDone r \<Rightarrow> \<exists>d n b'. conf b r = Inr (d, Some n, b') \<and> dp_verified d \<and>
      dp_id d = Some n \<and> new_number n (nums g) (nums g')"
    using assms(3) by (fastforce simp: insert_answer_def split: answer.splits)
qed

lemma inserts_source: "gdb_contract gdb nums \<Longrightarrow> inserts gdb nums source_confirmed (fst (source_command hw f b)) b"
  by (rule insertsI[OF _ source_command_prefix])
    (auto simp: source_confirmed_def Let_def parse_num_def reports_field dest: reports_field split: sum.splits)

lemma inserts_function: "gdb_contract gdb nums \<Longrightarrow> inserts gdb nums func_confirmed (fst (function_command hw b)) b"
  by (rule insertsI) (auto simp: function_command_prefix func_confirmed_def Let_def parse_num_def reports_field dest: reports_field split: sum.splits)

lemma inserts_instr: "gdb_contract gdb nums \<Longrightarrow> instr_command hw b = Some c \<Longrightarrow> inserts gdb nums instr_confirmed (fst c) b"
  by (rule insertsI) (auto simp: instr_command_prefix instr_confirmed_def Let_def parse_num_def reports_field dest: reports_field split: sum.splits)

lemma inserts_watch: assumes "gdb_contract gdb nums" shows "inserts gdb nums data_confirmed (watch_command b) b"
  unfolding inserts_def
proof (intro allI impI)
  fix g a g' assume g: "gdb g (watch_command b) = (a, g')"
  have "starts_with ''-break-watch '' (watch_command b)" by (simp add: watch_command_def Let_def)
  from contractD(2)[OF assms g this] show "case a of GdbError _ \<Rightarrow> nums g' = nums g | GdbDone r \<Rightarrow> \<exists>d n b'.
      data_confirmed b r = Inr (d, Some n, b') \<and> dp_verified d \<and> dp_id d = Some n \<and> new_number n (nums g) (nums g')"
    by (fastforce simp: watch_answer_def data_confirmed_def parse_num_def reports_field split: answer.splits)
qed

text \<open>
  The ids in the tables are the breakpoints GDB has, less the ones it removed by itself (\<open>gone\<close>) and the ones made
  by others (\<open>oth\<close>): the user at the console, or the run to the entry point.
\<close>

definition agrees :: "('g \<Rightarrow> nat set \<times> nat set) \<Rightarrow> nat set \<Rightarrow> nat set \<Rightarrow> 'g bp_manager \<Rightarrow> bool" where
  "agrees nums gone oth m = (known_ids m - Some ` gone = Some ` (fst (nums (bp_gdb m)) - oth) \<and>
     known_ids m \<inter> Some ` oth = {} \<and> fst (nums (bp_gdb m)) \<union> gone \<union> oth \<subseteq> snd (nums (bp_gdb m)) \<and> (\<forall>k. distinct (ids_of k m)) \<and>
     (\<forall>k k'. k \<noteq> k' \<longrightarrow> set (ids_of k m) \<inter> set (ids_of k' m) = {}))"

lemma subset_Some_map: "set xs \<subseteq> Some ` A \<Longrightarrow> \<exists>ys. xs = map Some ys \<and> set ys \<subseteq> A"
proof (induction xs)
  case (Cons x xs)
  then obtain ys y where "xs = map Some ys" "set ys \<subseteq> A" "x = Some y" "y \<in> A" by auto
  then show ?case by (intro exI[of _ "y # ys"]) simp
qed simp

lemma agreesD:
  assumes "agrees nums gone oth m"
  shows "known_ids m - Some ` gone = Some ` (fst (nums (bp_gdb m)) - oth)" "known_ids m \<inter> Some ` oth = {}"
    "fst (nums (bp_gdb m)) \<subseteq> snd (nums (bp_gdb m))" "gone \<subseteq> snd (nums (bp_gdb m))" "oth \<subseteq> snd (nums (bp_gdb m))"
    "distinct (ids_of k m)" "k \<noteq> k' \<Longrightarrow> set (ids_of k m) \<inter> set (ids_of k' m) = {}"
  using assms by (simp_all add: agrees_def)

lemma agrees_used: "agrees nums gone oth m \<Longrightarrow> known_ids m \<subseteq> Some ` snd (nums (bp_gdb m))"
proof -
  assume ag: "agrees nums gone oth m"
  have "known_ids m \<subseteq> Some ` (fst (nums (bp_gdb m)) - oth) \<union> Some ` gone" using agreesD(1)[OF ag] by blast
  also have "\<dots> \<subseteq> Some ` snd (nums (bp_gdb m))" using agreesD(3,4)[OF ag] by auto
  finally show ?thesis .
qed

lemma agrees_Some: "agrees nums gone oth m \<Longrightarrow> \<exists>old. ids_of k m = map Some old"
proof -
  assume "agrees nums gone oth m"
  from agrees_used[OF this] have "set (ids_of k m) \<subseteq> Some ` snd (nums (bp_gdb m))" unfolding known_ids_def by blast
  then show ?thesis using subset_Some_map by blast
qed

lemma agrees_cong:
  "agrees nums gone oth m \<Longrightarrow> (\<And>k. ids_of k m' = ids_of k m) \<Longrightarrow> nums (bp_gdb m') = nums (bp_gdb m) \<Longrightarrow> agrees nums gone oth m'"
  by (simp add: agrees_def known_ids_def)

text \<open>Replacing one table and its breakpoints keeps the agreement.\<close>

lemma replace_ids:
  fixes L X D N G :: "nat set"
  assumes "R - Some ` G = Some ` (L - X) - Some ` D" "N \<inter> G = {}" "N \<inter> X = {}"
  shows "R \<union> Some ` N - Some ` G = Some ` ((L - D) \<union> N - X)"
proof -
  have "R \<union> Some ` N - Some ` G = (R - Some ` G) \<union> Some ` N" using assms(2) by auto
  moreover have "(L - D) \<union> N - X = (L - X - D) \<union> N" using assms(3) by blast
  ultimately show ?thesis by (simp add: assms(1) image_Un image_set_diff)
qed

lemma agrees_replace:
  assumes ag: "agrees nums gone oth m" and old: "ids_of k m = map Some old"
    and new: "ids_of k m' = map Some new" "distinct new" "set new \<inter> snd (nums (bp_gdb m)) = {}"
    and nums: "nums (bp_gdb m') = ((fst (nums (bp_gdb m)) - set old) \<union> set new, snd (nums (bp_gdb m)) \<union> set new)"
    and others: "\<And>k'. k' \<noteq> k \<Longrightarrow> ids_of k' m' = ids_of k' m"
  shows "agrees nums gone oth m'"
proof -
  let ?rest = "\<Union>k' \<in> - {k}. set (ids_of k' m)"
  have split: "known_ids x = (\<Union>k' \<in> - {k}. set (ids_of k' x)) \<union> set (ids_of k x)" for x :: "'a bp_manager"
    by (auto simp: known_ids_def)
  have disj: "?rest \<inter> Some ` set old = {}" using agreesD(7)[OF ag, of _ k] old by auto
  have known: "known_ids m = ?rest \<union> Some ` set old" using split[of m] old by simp
  have known': "known_ids m' = ?rest \<union> Some ` set new" using split[of m'] others new(1) by auto
  have "?rest \<subseteq> Some ` snd (nums (bp_gdb m))" using agrees_used[OF ag] known by blast
  then have fresh: "Some ` set new \<inter> ?rest = {}" using new(3) by auto
  have fresh2: "set new \<inter> gone = {}" "set new \<inter> oth = {}" using new(3) agreesD(4,5)[OF ag] by auto
  have minus: "R \<inter> D = {} \<Longrightarrow> R - G = (R \<union> D) - G - D" for R D G :: "num set" by blast
  have r: "?rest - Some ` gone = Some ` (fst (nums (bp_gdb m)) - oth) - Some ` set old"
    by (subst minus[OF disj]) (simp only: known[symmetric] agreesD(1)[OF ag])
  have "known_ids m' - Some ` gone = Some ` (fst (nums (bp_gdb m')) - oth)"
    unfolding known' nums fst_conv by (rule replace_ids[OF r fresh2])
  moreover have "Some ` set new \<inter> Some ` oth = {}" using fresh2(2) by auto
  then have "known_ids m' \<inter> Some ` oth = {}" using agreesD(2)[OF ag] unfolding known known' Int_Un_distrib2 Un_empty by simp
  moreover have "fst (nums (bp_gdb m')) \<union> gone \<union> oth \<subseteq> snd (nums (bp_gdb m'))" using agreesD(3-5)[OF ag] unfolding nums fst_conv snd_conv by blast
  moreover have mine: "set (ids_of k m') \<inter> set (ids_of k' m) = {}" "set (ids_of k' m) \<inter> set (ids_of k m') = {}" if "k' \<noteq> k" for k'
    using that fresh new(1) by auto
  have "k1 \<noteq> k2 \<Longrightarrow> set (ids_of k1 m') \<inter> set (ids_of k2 m') = {}" for k1 k2
    using agreesD(7)[OF ag, of k1 k2] others mine by (cases "k1 = k"; cases "k2 = k") simp_all
  moreover have "distinct (ids_of k' m')" for k'
    using agreesD(6)[OF ag, of k'] others[of k'] new by (cases "k' = k") (auto simp: distinct_map)
  ultimately show ?thesis by (simp add: agrees_def)
qed

text \<open>What a successful operation does to its own table and to GDB.\<close>

definition replaced :: "('g \<Rightarrow> nat set \<times> nat set) \<Rightarrow> nat set \<Rightarrow> nat set \<Rightarrow> bp_request \<Rightarrow> 'g bp_manager \<Rightarrow> (jstr + dap_bp list) \<Rightarrow> 'g bp_manager \<Rightarrow> bool" where
  "replaced nums gone oth r m res m' = (agrees nums gone oth m' \<and> (\<forall>k. k \<noteq> key_of r \<longrightarrow> ids_of k m' = ids_of k m) \<and>
     bp_running m' = bp_running m \<and> bp_waiting m' = bp_waiting m \<and>
     (case res of Inl _ \<Rightarrow> ids_of (key_of r) m' = ids_of (key_of r) m
      | Inr ds \<Rightarrow> length ds = asked r \<and> ids_of (key_of r) m' = confirmed_ids ds))"

lemma delete_breakpoints_outcome:
  assumes "gdb_contract gdb nums" "delete_breakpoints gdb m (map Some old) = (res, m')"
  shows "same_tables m m' \<and> nums (bp_gdb m') =
    (if res = None then (fst (nums (bp_gdb m)) - set old, snd (nums (bp_gdb m))) else nums (bp_gdb m))"
proof (cases "old = []")
  case False
  obtain a m1 where 1: "bp_send gdb m (delete_command (map Some old)) = (a, m1)" by force
  from bp_send_tables[OF 1] contractD(3)[OF assms(1) _ False] have "same_tables m m1"
    "nums (bp_gdb m1) = (case a of GdbError _ \<Rightarrow> nums (bp_gdb m) | GdbDone _ \<Rightarrow> (fst (nums (bp_gdb m)) - set old, snd (nums (bp_gdb m))))"
    by blast+
  with 1 False assms(2) show ?thesis by (auto simp: delete_breakpoints_def split: answer.splits)
qed (use assms in \<open>auto simp: delete_breakpoints_def\<close>)

text \<open>
  The common course of the four operations: delete the old breakpoints, clear the table, send the
  insertions, enter the confirmed ones.
\<close>

lemma operation_outcome:
  assumes ct: "gdb_contract gdb nums" and ag: "agrees nums gone oth m"
    and del: "delete_breakpoints gdb m (ids_of (key_of r) m) = (None, m1)"
    and clear: "bp_gdb m2 = bp_gdb m1" "bp_running m2 = bp_running m1" "bp_waiting m2 = bp_waiting m1"
    and ins: "list_all2 (\<lambda>c b. inserts gdb nums conf (fst c) b) cs bs" "length bs = asked r"
    and send: "send_all gdb m2 cs = (as, m3)" and coll: "collect conf msg [] bs as = (ds, tab, ws)"
    and final: "bp_gdb m' = bp_gdb m3" "bp_running m' = bp_running m3" "bp_waiting m' = bp_waiting m3"
      "ids_of (key_of r) m' = map fst tab" "\<And>k. k \<noteq> key_of r \<Longrightarrow> ids_of k m' = ids_of k m"
  shows "replaced nums gone oth r m (Inr ds) m'"
proof -
  obtain old where old: "ids_of (key_of r) m = map Some old" using agrees_Some[OF ag] by blast
  from delete_breakpoints_outcome[OF ct del[unfolded old]] have d: "same_tables m m1"
    "nums (bp_gdb m1) = (fst (nums (bp_gdb m)) - set old, snd (nums (bp_gdb m)))" by auto
  from insert_all[OF ins(1) send, of "[]", OF _ coll] obtain new where n: "map fst tab = map Some new" "confirmed_ids ds = map Some new"
    "length ds = length bs" "distinct new" "set new \<inter> snd (nums (bp_gdb m2)) = {}"
    "nums (bp_gdb m3) = (fst (nums (bp_gdb m2)) \<union> set new, snd (nums (bp_gdb m2)) \<union> set new)" by auto
  have "agrees nums gone oth m'"
    by (rule agrees_replace[OF ag old, of _ new]) (use n d clear(1) final in auto)
  moreover have "bp_running m' = bp_running m" "bp_waiting m' = bp_waiting m"
    using d(1) clear final send_all_tables[OF send] by (auto simp: same_tables_def)
  ultimately show ?thesis using n final ins(2) by (simp add: replaced_def)
qed

lemma delete_failed:
  assumes "gdb_contract gdb nums" "agrees nums gone oth m" "delete_breakpoints gdb m (ids_of (key_of r) m) = (Some e, m1)"
  shows "replaced nums gone oth r m (Inl e) m1"
proof -
  obtain old where old: "ids_of (key_of r) m = map Some old" using agrees_Some[OF assms(2)] by blast
  from delete_breakpoints_outcome[OF assms(1) assms(3)[unfolded old]] have "same_tables m m1" "nums (bp_gdb m1) = nums (bp_gdb m)" by auto
  with agrees_cong[OF assms(2), of m1] show ?thesis using same_ids[of m m1] by (auto simp: replaced_def same_tables_def)
qed

lemma delete_same_tables:
  assumes "gdb_contract gdb nums" "agrees nums gone oth m" "delete_breakpoints gdb m (ids_of (key_of r) m) = (dr, m1)"
  shows "same_tables m m1"
  using agrees_Some[OF assms(2), of "key_of r"] delete_breakpoints_outcome[OF assms(1)] assms(3) by metis

lemma set_function_breakpoints_replaced:
  assumes ct: "gdb_contract gdb nums" and ag: "agrees nums gone oth m" and st: "set_function_breakpoints gdb bps m = (res, m')"
  shows "replaced nums gone oth (SetFuncs bps) m res m'"
proof (cases "delete_breakpoints gdb m (map fst (bp_funcs m))")
  case (Pair dr m1)
  show ?thesis
  proof (cases dr)
    case (Some e)
    with delete_failed[OF ct ag, of "SetFuncs bps"] Pair st show ?thesis by (simp add: set_function_breakpoints_def)
  next
    case None
    let ?m2 = "m1\<lparr>bp_funcs := []\<rparr>"
    let ?cs = "map (function_command (bp_hw_require ?m2)) bps"
    obtain as m3 where s: "send_all gdb ?m2 ?cs = (as, m3)" by force
    obtain ds tab ws where c: "collect func_confirmed func_error [] bps as = (ds, tab, ws)" using prod_cases3 by blast
    have m': "res = Inr ds" "m' = (bp_msg m3 ws)\<lparr>bp_funcs := tab\<rparr>"
      using st Pair None s c by (auto simp: set_function_breakpoints_def Let_def)
    have "same_tables m m1" using delete_same_tables[OF ct ag, of "SetFuncs bps"] Pair None by simp
    then have "k \<noteq> KFuncs \<Longrightarrow> ids_of k m' = ids_of k m" for k
      using send_all_tables[OF s] unfolding m' by (cases k) (auto simp: same_tables_def bp_msg_def)
    then show ?thesis unfolding m'(1)
      by (intro operation_outcome[OF ct ag _ _ _ _ _ _ s c, of _ m1])
        (use Pair None m'(2) in \<open>auto simp: list_all2_conv_all_nth inserts_function[OF ct] bp_msg_def\<close>)
  qed
qed

lemma set_data_breakpoints_replaced:
  assumes ct: "gdb_contract gdb nums" and ag: "agrees nums gone oth m" and st: "set_data_breakpoints gdb bps m = (res, m')"
  shows "replaced nums gone oth (SetDatas bps) m res m'"
proof (cases "delete_breakpoints gdb m (map fst (bp_datas m))")
  case (Pair dr m1)
  show ?thesis
  proof (cases dr)
    case (Some e)
    with delete_failed[OF ct ag, of "SetDatas bps"] Pair st show ?thesis by (simp add: set_data_breakpoints_def)
  next
    case None
    let ?m2 = "m1\<lparr>bp_datas := []\<rparr>"
    let ?cs = "map (\<lambda>bp. (watch_command bp, [])) bps"
    obtain as m3 where s: "send_all gdb ?m2 ?cs = (as, m3)" by force
    obtain ds tab ws where c: "collect data_confirmed data_error [] bps as = (ds, tab, ws)" using prod_cases3 by blast
    have m': "res = Inr ds" "m' = (bp_msg m3 ws)\<lparr>bp_datas := tab\<rparr>"
      using st Pair None s c by (auto simp: set_data_breakpoints_def Let_def)
    have "same_tables m m1" using delete_same_tables[OF ct ag, of "SetDatas bps"] Pair None by simp
    then have "k \<noteq> KDatas \<Longrightarrow> ids_of k m' = ids_of k m" for k
      using send_all_tables[OF s] unfolding m' by (cases k) (auto simp: same_tables_def bp_msg_def)
    then show ?thesis unfolding m'(1)
      by (intro operation_outcome[OF ct ag _ _ _ _ _ _ s c, of _ m1])
        (use Pair None m'(2) in \<open>auto simp: list_all2_conv_all_nth inserts_watch[OF ct] bp_msg_def\<close>)
  qed
qed

lemma set_instruction_breakpoints_replaced:
  assumes ct: "gdb_contract gdb nums" and ag: "agrees nums gone oth m" and ok: "addresses_ok (SetInstrs bps)"
    and st: "set_instruction_breakpoints gdb bps m = (res, m')"
  shows "replaced nums gone oth (SetInstrs bps) m res m'"
proof (cases "delete_breakpoints gdb m (map fst (bp_instrs m))")
  case (Pair dr m1)
  show ?thesis
  proof (cases dr)
    case (Some e)
    with delete_failed[OF ct ag, of "SetInstrs bps"] Pair st show ?thesis by (simp add: set_instruction_breakpoints_def)
  next
    case None
    let ?m2 = "m1\<lparr>bp_instrs := []\<rparr>"
    let ?hw = "bp_hw_require ?m2"
    let ?cs = "map (\<lambda>bp. the (instr_command ?hw bp)) bps"
    have cmd: "\<exists>c. instr_command ?hw bp = Some c" if "bp \<in> set bps" for bp
      using ok that by (auto simp: instr_command_def Let_def list_all_iff split: option.splits prod.splits)
    then have cs: "None \<notin> set (map (instr_command ?hw) bps)" "map the (takeWhile (\<lambda>c. c \<noteq> None) (map (instr_command ?hw) bps)) = ?cs"
      by (fastforce, subst takeWhile_eq_all_conv[THEN iffD2]) fastforce+
    obtain as m3 where s: "send_all gdb ?m2 ?cs = (as, m3)" by force
    obtain ds tab ws where c: "collect instr_confirmed instr_error [] bps as = (ds, tab, ws)" using prod_cases3 by blast
    have m': "res = Inr ds" "m' = (bp_msg m3 ws)\<lparr>bp_instrs := tab\<rparr>"
      using st Pair None s c cs by (auto simp: set_instruction_breakpoints_def Let_def)
    have "same_tables m m1" using delete_same_tables[OF ct ag, of "SetInstrs bps"] Pair None by simp
    then have "k \<noteq> KInstrs \<Longrightarrow> ids_of k m' = ids_of k m" for k
      using send_all_tables[OF s] unfolding m' by (cases k) (auto simp: same_tables_def bp_msg_def)
    moreover have "inserts gdb nums instr_confirmed (fst (the (instr_command ?hw bp))) bp" if "bp \<in> set bps" for bp
      using cmd[OF that] inserts_instr[OF ct] by auto
    then have "list_all2 (\<lambda>c b. inserts gdb nums instr_confirmed (fst c) b) ?cs bps"
      by (simp add: list_all2_conv_all_nth)
    ultimately show ?thesis unfolding m'(1)
      by (intro operation_outcome[OF ct ag _ _ _ _ _ _ s c, of _ m1])
        (use Pair None m'(2) in \<open>auto simp: bp_msg_def\<close>)
  qed
qed

lemma set_breakpoints_replaced:
  assumes ct: "gdb_contract gdb nums" and ag: "agrees nums gone oth m" and st: "set_breakpoints gdb file bps m = (res, m')"
  shows "replaced nums gone oth (SetFile file bps) m res m'"
proof -
  obtain dr m1 where d: "delete_breakpoints gdb m (ids_of (KFile file) m) = (dr, m1)" by force
  let ?m2 = "case map_of (bp_files m) file of None \<Rightarrow> m | Some _ \<Rightarrow> m1\<lparr>bp_files := AList.update file [] (bp_files m1)\<rparr>"
  have none: "map_of (bp_files m) file = None \<Longrightarrow> dr = None \<and> m1 = m" using d by (simp add: delete_breakpoints_def)
  show ?thesis
  proof (cases dr)
    case (Some e)
    with none d st have "res = Inl e" "m' = m1"
      by (auto simp: set_breakpoints_def split: option.splits prod.splits)
    with delete_failed[OF ct ag, of "SetFile file bps"] d Some show ?thesis by simp
  next
    case None
    let ?cs = "map (source_command (bp_hw_require ?m2) file) bps"
    obtain as m3 where s: "send_all gdb ?m2 ?cs = (as, m3)" by force
    obtain ds tab ws where c: "collect source_confirmed (source_error file) [] bps as = (ds, tab, ws)" using prod_cases3 by blast
    have m': "res = Inr ds" "m' = (bp_msg m3 ws)\<lparr>bp_files := AList.update file tab (bp_files m3)\<rparr>"
      using st d None s c by (cases "map_of (bp_files m) file"; auto simp: set_breakpoints_def Let_def bp_msg_def)+
    have t: "same_tables m m1" using delete_same_tables[OF ct ag, of "SetFile file bps"] d by simp
    then have "k \<noteq> KFile file \<Longrightarrow> ids_of k m' = ids_of k m" for k
      using send_all_tables[OF s] unfolding m'
      by (cases k; cases "map_of (bp_files m) file") (auto simp: same_tables_def bp_msg_def update_conv')
    moreover have "ids_of (KFile file) m' = map fst tab" by (simp add: m' update_conv')
    moreover have "bp_gdb ?m2 = bp_gdb m1" "bp_running ?m2 = bp_running m1" "bp_waiting ?m2 = bp_waiting m1"
      using none by (auto split: option.splits)
    ultimately show ?thesis unfolding m'(1)
      by (intro operation_outcome[OF ct ag _ _ _ _ _ _ s c, of _ m1])
        (use d None m'(2) in \<open>auto simp: list_all2_conv_all_nth inserts_source[OF ct] bp_msg_def\<close>)
  qed
qed

lemma bp_operation_replaced:
  assumes "gdb_contract gdb nums" "agrees nums gone oth m" "addresses_ok r" "bp_operation gdb r m = (res, m')"
  shows "replaced nums gone oth r m res m'"
  using assms set_breakpoints_replaced set_instruction_breakpoints_replaced set_function_breakpoints_replaced
    set_data_breakpoints_replaced by (cases r) (auto 4 3)

lemma ids_of_running [simp]:
  "ids_of k (x\<lparr>bp_waiting := w\<rparr>) = ids_of k x" "ids_of k (x\<lparr>bp_running := b, bp_waiting := w\<rparr>) = ids_of k x"
  "ids_of k (x\<lparr>bp_running := b\<rparr>) = ids_of k x" "ids_of k (x\<lparr>bp_gdb := g\<rparr>) = ids_of k x"
  by (cases k; simp)+

lemma continue_outcome:
  assumes ct: "gdb_contract gdb nums" and c: "continue_target gdb res m = (res', m')"
  shows "nums (bp_gdb m') = nums (bp_gdb m) \<and> ids_of k m' = ids_of k m \<and> (\<forall>ds. res' = Inr ds \<longrightarrow> res = Inr ds)"
proof -
  obtain a m1 where 1: "bp_send gdb m ''-exec-continue'' = (a, m1)" by force
  note b = bp_send_tables[OF 1]
  have "nums (bp_gdb m1) = nums (bp_gdb m)" using contractD(4)[OF ct, of "bp_gdb m" "''-exec-continue''"] b by simp
  with c 1 b same_ids[of m m1 k] show ?thesis by (auto simp: continue_target_def split: answer.splits)
qed

lemma step_replaced:
  assumes ct: "gdb_contract gdb nums" and ag: "agrees nums gone oth m" and ok: "addresses_ok r"
    and st: "execute_while_stopped gdb r m = Some (res, m')"
  shows "agrees nums gone oth m' \<and> (\<forall>k. k \<noteq> key_of r \<longrightarrow> ids_of k m' = ids_of k m) \<and>
    (\<forall>ds. res = Inr ds \<longrightarrow> length ds = asked r \<and> ids_of (key_of r) m' = confirmed_ids ds)"
proof (cases "bp_running m")
  case False
  with bp_operation_replaced[OF ct ag ok, of res m'] st show ?thesis
    by (auto simp: execute_while_stopped_def replaced_def split: sum.splits)
next
  case True
  let ?m0 = "m\<lparr>bp_waiting := bp_waiting m @ [r]\<rparr>"
  obtain a m1 where 1: "bp_send gdb ?m0 ''-exec-interrupt'' = (a, m1)" by force
  note b = bp_send_tables[OF 1]
  have n1: "nums (bp_gdb m1) = nums (bp_gdb m)" using contractD(4)[OF ct, of "bp_gdb ?m0" "''-exec-interrupt''"] b by simp
  have i1: "ids_of k m1 = ids_of k m" for k using same_ids[of ?m0 m1 k] b by simp
  show ?thesis
  proof (cases a)
    case (GdbError e)
    with st True 1 have c: "continue_target gdb (Inl e) m1 = (res, m')" by (simp add: execute_while_stopped_def)
    from continue_outcome[OF ct c] i1 n1 agrees_cong[OF ag, of m'] show ?thesis by auto
  next
    case (GdbDone rr)
    let ?m2 = "m1\<lparr>bp_running := False, bp_waiting := []\<rparr>"
    have ag2: "agrees nums gone oth ?m2" by (rule agrees_cong[OF ag]) (simp_all add: i1 n1)
    obtain res3 m3 where 3: "bp_operation gdb r ?m2 = (res3, m3)" by force
    have r3: "replaced nums gone oth r ?m2 res3 m3" by (rule bp_operation_replaced[OF ct ag2 ok 3])
    have c: "continue_target gdb res3 m3 = (res, m')"
      using st True 1 GdbDone 3 by (simp add: execute_while_stopped_def split: if_splits)
    from continue_outcome[OF ct c] have "nums (bp_gdb m') = nums (bp_gdb m3)" "\<And>k. ids_of k m' = ids_of k m3"
      "\<And>ds. res = Inr ds \<Longrightarrow> res3 = Inr ds" by auto
    with r3 i1 agrees_cong[of nums gone oth m3 m'] show ?thesis by (auto simp: replaced_def split: sum.splits)
  qed
qed

text \<open>
  The states of a session: requests are served one after the other, and between them the target runs or stops, GDB
  drops breakpoints (a temporary one when it is hit) and others make or delete some.
\<close>

inductive bp_reachable :: "('g \<Rightarrow> jstr \<Rightarrow> answer \<times> 'g) \<Rightarrow> ('g \<Rightarrow> nat set \<times> nat set) \<Rightarrow> 'g bp_manager \<Rightarrow> nat set \<Rightarrow> nat set \<Rightarrow> bool"
  for gdb nums where
  start: "bp_reachable gdb nums (bp_new g running hw) {} (fst (nums g))"
| request: "bp_reachable gdb nums m gone oth \<Longrightarrow> addresses_ok r \<Longrightarrow> execute_while_stopped gdb r m = Some (res, m') \<Longrightarrow>
    bp_reachable gdb nums m' gone oth"
| meanwhile: "bp_reachable gdb nums m gone oth \<Longrightarrow> snd (nums (bp_gdb m)) \<subseteq> snd (nums g) \<Longrightarrow>
    (fst (nums g) - fst (nums (bp_gdb m))) \<inter> snd (nums (bp_gdb m)) = {} \<Longrightarrow>
    bp_reachable gdb nums (m\<lparr>bp_gdb := g, bp_running := running\<rparr>)
      (gone \<union> (fst (nums (bp_gdb m)) - fst (nums g))) (oth \<union> (fst (nums g) - fst (nums (bp_gdb m))))"

lemma agrees_new: "gdb_contract gdb nums \<Longrightarrow> agrees nums {} (fst (nums g)) (bp_new g running hw)"
proof -
  have "ids_of k (bp_new g running hw) = []" for k by (cases k) (auto simp: bp_new_def)
  then show "gdb_contract gdb nums \<Longrightarrow> agrees nums {} (fst (nums g)) (bp_new g running hw)"
    by (simp add: agrees_def known_ids_def gdb_contract_def) (simp add: bp_new_def)
qed

lemma agrees_meanwhile:
  assumes ct: "gdb_contract gdb nums" and ag: "agrees nums gone oth m"
    and g: "snd (nums (bp_gdb m)) \<subseteq> snd (nums g)" "(fst (nums g) - fst (nums (bp_gdb m))) \<inter> snd (nums (bp_gdb m)) = {}"
  shows "agrees nums (gone \<union> (fst (nums (bp_gdb m)) - fst (nums g))) (oth \<union> (fst (nums g) - fst (nums (bp_gdb m))))
    (m\<lparr>bp_gdb := g, bp_running := running\<rparr>)"
proof -
  let ?m = "m\<lparr>bp_gdb := g, bp_running := running\<rparr>"
  have k: "known_ids ?m = known_ids m" by (simp add: known_ids_def)
  have live: "fst (nums g) \<subseteq> snd (nums g)" using ct by (simp add: gdb_contract_def)
  note u = agrees_used[OF ag]
  let ?live = "fst (nums (bp_gdb m))" and ?live' = "fst (nums g)"
  have "known_ids m - Some ` (gone \<union> (?live - ?live')) = Some ` (?live - oth) - Some ` (?live - ?live')"
    using agreesD(1)[OF ag] by blast
  also have "\<dots> = Some ` (?live' - (oth \<union> (?live' - ?live)))" by auto
  finally have 1: "known_ids m - Some ` (gone \<union> (?live - ?live')) = Some ` (?live' - (oth \<union> (?live' - ?live)))" .
  have "Some ` snd (nums (bp_gdb m)) \<inter> Some ` (?live' - ?live) = {}" using g(2) by auto
  then have "known_ids m \<inter> Some ` (?live' - ?live) = {}" using u by blast
  then have 2: "known_ids m \<inter> Some ` (oth \<union> (?live' - ?live)) = {}" using agreesD(2)[OF ag] by (simp add: image_Un Int_Un_distrib)
  have 3: "?live' \<union> (gone \<union> (?live - ?live')) \<union> (oth \<union> (?live' - ?live)) \<subseteq> snd (nums g)"
    using agreesD(3-5)[OF ag] g(1) live by blast
  show ?thesis using agreesD(6,7)[OF ag] 1 2 3 by (simp add: agrees_def k)
qed

lemma bp_reachable_agrees: "bp_reachable gdb nums m gone oth \<Longrightarrow> gdb_contract gdb nums \<Longrightarrow> agrees nums gone oth m"
proof (induction rule: bp_reachable.induct)
  case (start g running hw)
  then show ?case by (rule agrees_new)
next
  case (request m gone oth r res m')
  from step_replaced[OF request.prems request.IH[OF request.prems] request.hyps(2,3)] show ?case by simp
next
  case (meanwhile m gone oth g running)
  from agrees_meanwhile[OF meanwhile.prems meanwhile.IH[OF meanwhile.prems] meanwhile.hyps(2,3)] show ?case .
qed

lemma bp_run_reachable:
  "bp_reachable gdb nums m gone oth \<Longrightarrow> list_all addresses_ok rs \<Longrightarrow> bp_run gdb m rs = Some (m', ress) \<Longrightarrow> bp_reachable gdb nums m' gone oth"
proof (induction rs arbitrary: m ress)
  case (Cons r rs)
  then obtain res m1 ress2 where 1: "execute_while_stopped gdb r m = Some (res, m1)" "bp_run gdb m1 rs = Some (m', ress2)"
    by (auto split: option.splits)
  with Cons bp_reachable.request[OF Cons.prems(1) _ 1(1)] show ?case by auto
qed simp

subsection \<open>Interruption\<close>

definition breakpoint_command :: "jstr \<Rightarrow> bool" where
  "breakpoint_command c = (starts_with ''-break-'' c \<or> starts_with ''-dprintf-insert '' c)"





lemma breakpoint_commandI:
  "starts_with ''-break-insert '' c \<or> starts_with ''-dprintf-insert '' c \<Longrightarrow> breakpoint_command c"
  unfolding breakpoint_command_def
  by (erule disj_forward) (rule starts_with_shorter[of "''-break-''" "''insert ''"], simp_all only: append.simps)

lemma source_command_ok [simp]: "breakpoint_command (fst (source_command hw f b))"
  by (rule breakpoint_commandI, rule source_command_prefix)

lemma function_command_ok [simp]: "breakpoint_command (fst (function_command hw b))"
  by (rule breakpoint_commandI, rule disjI1, rule function_command_prefix)

lemma watch_command_ok [simp]: "breakpoint_command (watch_command b)"
  by (simp add: breakpoint_command_def watch_command_def)





lemma exec_not_breakpoint: "breakpoint_command c \<Longrightarrow> c \<noteq> ''-exec-interrupt'' \<and> c \<noteq> ''-exec-continue''"
  by (auto simp: breakpoint_command_def)



subsection \<open>A small GDB\<close>

text \<open>
  An instance of the contract, for the examples: it numbers breakpoints from 1 and refuses nothing.
\<close>

definition small_ids :: "jstr \<Rightarrow> nat list" where
  "small_ids c = concat (map (\<lambda>w. case parse_int w of None \<Rightarrow> [] | Some n \<Rightarrow> [n]) (split_on (CHR '' '') (drop 14 c)))"

definition small_gdb :: "nat \<times> nat list \<Rightarrow> jstr \<Rightarrow> answer \<times> (nat \<times> nat list)" where
  "small_gdb g c = (case g of (n, l) \<Rightarrow>
     if starts_with ''-break-delete '' c then (GdbDone [], (n, filter (\<lambda>i. i \<notin> set (small_ids c)) l))
     else if starts_with ''-break-insert '' c \<or> starts_with ''-dprintf-insert '' c
       then (GdbDone [(''bkpt'', MTuple [(''number'', MConst (show_nat n))])], (Suc n, l @ [n]))
     else if starts_with ''-break-watch '' c
       then (GdbDone [(''hw-awpt'', MTuple [(''number'', MConst (show_nat n))])], (Suc n, l @ [n]))
     else (GdbDone [], g))"

definition small_nums :: "nat \<times> nat list \<Rightarrow> nat set \<times> nat set" where
  "small_nums g = ({i \<in> set (snd g). i < fst g}, {..<fst g})"

lemma small_ids_delete: "ids \<noteq> [] \<Longrightarrow> small_ids (delete_command (map Some ids)) = ids"
proof -
  assume ne: "ids \<noteq> []"
  have "CHR '' '' \<notin> set (show_nat n)" for n using show_nat_digits[of n] by (auto simp: is_digit_def)
  then have "split_on (CHR '' '') (join_with '' '' (map show_nat ids)) = map show_nat ids"
    using ne by (intro split_join) auto
  then show ?thesis by (simp add: small_ids_def delete_command_def show_num_def comp_def)
qed

lemma small_step: "snd (small_nums (5, [3, 4])) \<subseteq> snd (small_nums (6, [4, 5]))"
    "(fst (small_nums (6, [4, 5])) - fst (small_nums (5, [3, 4]))) \<inter> snd (small_nums (5, [3, 4])) = {}"
    "fst (small_nums (5, [3, 4])) - fst (small_nums (6, [4, 5])) = {3}" "fst (small_nums (6, [4, 5])) - fst (small_nums (5, [3, 4])) = {5}"
  by (auto simp: small_nums_def)

lemma small_contract: "gdb_contract small_gdb small_nums"
  unfolding gdb_contract_def
proof (intro allI impI conjI)
  fix g c a g' assume g: "small_gdb g c = (a, g')"
  obtain n l where nl: "g = (n, l)" by force
  note d = g[unfolded nl small_gdb_def prod.case]
  show "insert_answer a (small_nums g) (small_nums g')" if "starts_with ''-break-insert '' c \<or> starts_with ''-dprintf-insert '' c"
    using d that by (auto simp: insert_answer_def new_number_def small_nums_def nl starts_with_Cons split: if_splits)
  show "watch_answer a (small_nums g) (small_nums g')" if "starts_with ''-break-watch '' c"
    using d that by (auto simp: watch_answer_def new_number_def small_nums_def nl starts_with_Cons ends_with_def split: if_splits)
  show "small_nums g' = (case a of GdbError _ \<Rightarrow> small_nums g | GdbDone _ \<Rightarrow> (fst (small_nums g) - set ids, snd (small_nums g)))"
    if "ids \<noteq> [] \<and> c = delete_command (map Some ids)" for ids
    using d that small_ids_delete[of ids] by (auto simp: small_nums_def nl delete_command_def)
  show "small_nums g' = small_nums g" if "starts_with ''-exec-'' c"
    using d that by (auto simp: nl starts_with_Cons split: if_splits)
qed (auto simp: small_nums_def)

subsection \<open>Error paths\<close>

text \<open>
  \<open>match.length\<close> counts groups, so a count is taken only when the condition is one character long.
\<close>

lemma show_nat_9: "show_nat 9 = ''9''"
  by code_simp

lemma count_of_two_digits_refused:
  "parse_hit_condition ''9'' = (''-t -i 9'', [])"
  "parse_hit_condition ''10'' = ([], [unsupported_count ''10''])"
  by (simp_all add: parse_hit_condition_def Let_def js_trim_def js_trim_start_def js_trim_end_def js_ws_def first_digits_def
      is_digit_def dec_val_def digit_val_def show_nat_9)

lemma no_number_after_greater: "parse_hit_condition ''> x'' = (''-i undefined'', [])"
  by (simp add: parse_hit_condition_def Let_def js_trim_def js_trim_start_def js_trim_end_def js_ws_def first_digits_def is_digit_def)

text \<open>An address that cannot be read ends the request after the breakpoints before it were set: GDB has them, no table does.\<close>

lemma bad_address_leaves_breakpoint:
  "let b = \<lparr>ib_ref = ''0x10'', ib_offset = 4, ib_condition = [], ib_hit = []\<rparr>;
       m = bp_run small_gdb (bp_new (1, []) False False) [SetInstrs [b, b\<lparr>ib_ref := ''main''\<rparr>]]
   in map_option (\<lambda>(m, res). (res, bp_sent m, snd (bp_gdb m), bp_instrs m)) m =
     Some ([Inl syntax_error], [''-break-insert *0x14''], [1], [])"
  by code_simp

text \<open>A refused interruption rejects the request, but its operation stays registered for the next stop.\<close>

lemma refused_interrupt_leaves_operation:
  assumes "bp_running m" "gdb (bp_gdb m) ''-exec-interrupt'' = (GdbError e, g)" "gdb g ''-exec-continue'' = (GdbDone r, g')"
    and "execute_while_stopped gdb req m = Some (res, m')"
  shows "res = Inl e \<and> bp_waiting m' = bp_waiting m @ [req] \<and> bp_sent m' = bp_sent m @ [''-exec-interrupt'', ''-exec-continue'']"
  using assms by (auto simp: execute_while_stopped_def continue_target_def bp_send_def)

subsection \<open>Properties\<close>

text \<open>
  C18: The adapter never loses track of a breakpoint. Whatever requests are served, with every insertion GDB rejects
  and every deletion that fails, and whatever happens between them, the ids in the tables, less those of
  breakpoints GDB dropped by itself, are exactly the breakpoints GDB has and others did not make, and each is in one
  table only. (The addresses of instruction requests can be read, and no operation of an earlier refused interruption
  is left over when the target is interrupted.)
\<close>

theorem breakpoint_tables_match_gdb:
  assumes "gdb_contract gdb nums" "bp_reachable gdb nums m gone oth"
  shows "known_ids m - Some ` gone = Some ` (fst (nums (bp_gdb m)) - oth) \<and> (\<forall>k. distinct (ids_of k m)) \<and>
    (\<forall>k k'. k \<noteq> k' \<longrightarrow> set (ids_of k m) \<inter> set (ids_of k' m) = {})"
  using bp_reachable_agrees[OF assms(2,1)] by (auto simp: agrees_def)

theorem breakpoint_tables_match_gdb_witness:
  "let b = \<lparr>sb_line = Some 7, sb_condition = [], sb_hit = ''3'', sb_log = []\<rparr>;
       m = fst (the (bp_run small_gdb (bp_new (1, []) True False) [SetFile ''a.c'' [b, b], SetFile ''a.c'' [b, b]]));
       m = m\<lparr>bp_gdb := (6, [4, 5]), bp_running := False\<rparr>
   in known_ids m - {Some 3} = {Some 4}"
proof -
  let ?b = "\<lparr>sb_line = Some 7, sb_condition = [], sb_hit = ''3'', sb_log = []\<rparr>"
  let ?rs = "[SetFile ''a.c'' [?b, ?b], SetFile ''a.c'' [?b, ?b]]"
  let ?run = "bp_run small_gdb (bp_new (1, []) True False) ?rs"
  have r: "map_option (\<lambda>(m, res). bp_gdb m) ?run = Some (5, [3, 4])" by code_simp
  then obtain m res where m: "?run = Some (m, res)" "bp_gdb m = (5, [3, 4])" by auto
  have "bp_reachable small_gdb small_nums m {} {}"
    using bp_run_reachable[OF bp_reachable.start, of ?rs small_gdb "(1, [])" True False m res small_nums] m(1) by (simp add: small_nums_def)
  from bp_reachable.meanwhile[OF this, of "(6, [4, 5])" False]
  have "bp_reachable small_gdb small_nums (m\<lparr>bp_gdb := (6, [4, 5]), bp_running := False\<rparr>) {3} {5}"
    using small_step by (simp add: m(2))
  from breakpoint_tables_match_gdb[OF small_contract this] m(1) show ?thesis unfolding Let_def by (auto simp: small_nums_def)
qed

text \<open>
  A request that is answered replaces exactly the breakpoints it is about: there is one entry per
  requested breakpoint, the ids of the verified entries are, in order, the new table of that file or
  kind, and no other table changes.
\<close>

lemma request_replaces_its_table:
  assumes "gdb_contract gdb nums" "bp_reachable gdb nums m gone oth" "addresses_ok r" "execute_while_stopped gdb r m = Some (Inr ds, m')"
  shows "length ds = asked r \<and> ids_of (key_of r) m' = confirmed_ids ds \<and> (\<forall>k. k \<noteq> key_of r \<longrightarrow> ids_of k m' = ids_of k m)"
  using step_replaced[OF assms(1) bp_reachable_agrees[OF assms(2,1)] assms(3,4)] by simp




end
