(* ===== verification/Notes.thy ===== *)
theory Notes
  imports Prelude
begin

text \<open>
  Session notes (\<open>cli/notes.ts\<close>): the workspace-wide notes file, the copy a session holds of it, the
  coalescing of writes and the merge before each write.

  A note is a JSON value of an abstract type \<open>'n\<close>. Parameters are \<open>apply_patch\<close> of the library
  \<open>jsonpatch\<close> (\<open>None\<close> when it throws), the empty object and the text of a note's \<open>name\<close> field
  (\<open>''undefined''\<close> when there is none). A file is modelled by its parsed content; a \<open>null\<close> entry is
  \<open>None\<close>. The maps of the code are association lists in insertion order.
\<close>

datatype 'n content = Unparsable | NotArray | Entries "'n option list"

type_synonym 'n notes_map = "(jstr \<times> 'n option) list"

text \<open>
  The manager with the file it works on: its content and modification time. \<open>nm_written\<close> is the
  content of the last archive copy.
\<close>

record 'n notes_manager =
  nm_disk :: "('n content \<times> nat) option"
  nm_archive :: "'n content option"
  nm_timer :: bool
  nm_pending :: "jstr list"
  nm_notes :: "'n notes_map"
  nm_mtime :: nat

subsection \<open>Reading\<close>

text \<open>The reduction over the entries; reading the name of \<open>null\<close> throws.\<close>

fun reduce_notes :: "('n \<Rightarrow> jstr) \<Rightarrow> 'n notes_map \<Rightarrow> 'n option list \<Rightarrow> 'n notes_map option" where
  "reduce_notes nm acc [] = Some acc"
| "reduce_notes nm acc (None # _) = None"
| "reduce_notes nm acc (Some n # ns) = reduce_notes nm (AList.update (nm n) (Some n) acc) ns"

definition read_from_disk :: "('n \<Rightarrow> jstr) \<Rightarrow> ('n content \<times> nat) option \<Rightarrow> ('n notes_map \<times> nat) option" where
  "read_from_disk nm disk = (case disk of
     None \<Rightarrow> Some ([], 0)
   | Some (Unparsable, _) \<Rightarrow> None
   | Some (NotArray, t) \<Rightarrow> Some ([], t)
   | Some (Entries ns, t) \<Rightarrow> map_option (\<lambda>mp. (mp, t)) (reduce_notes nm [] ns))"

definition load_notes :: "('n \<Rightarrow> jstr) \<Rightarrow> 'n notes_manager \<Rightarrow> 'n notes_manager" where
  "load_notes nm m = (case read_from_disk nm (nm_disk m) of
     None \<Rightarrow> m\<lparr>nm_notes := [], nm_mtime := 0\<rparr>
   | Some (mp, t) \<Rightarrow> m\<lparr>nm_notes := mp, nm_mtime := t\<rparr>)"

definition nm_new :: "('n \<Rightarrow> jstr) \<Rightarrow> ('n content \<times> nat) option \<Rightarrow> 'n notes_manager" where
  "nm_new nm disk = load_notes nm \<lparr>nm_disk = disk, nm_archive = None, nm_timer = False, nm_pending = [],
     nm_notes = [], nm_mtime = 0\<rparr>"

subsection \<open>Patching\<close>

text \<open>\<open>this.notes[name]\<close>: a missing entry and one that is \<open>undefined\<close> are the same.\<close>

definition note_of :: "'n notes_map \<Rightarrow> jstr \<Rightarrow> 'n option" where
  "note_of mp name = (case map_of mp name of None \<Rightarrow> None | Some v \<Rightarrow> v)"

definition schedule_flush :: "'n notes_manager \<Rightarrow> jstr \<Rightarrow> 'n notes_manager" where
  "schedule_flush m name = m\<lparr>nm_pending := (if name \<in> set (nm_pending m) then nm_pending m else nm_pending m @ [name]),
     nm_timer := True\<rparr>"

definition disk_mtime :: "('n content \<times> nat) option \<Rightarrow> nat" where
  "disk_mtime disk = (case disk of None \<Rightarrow> 0 | Some (_, t) \<Rightarrow> t)"

definition apply_patches :: "('n \<Rightarrow> jstr) \<Rightarrow> 'n \<Rightarrow> ('n \<Rightarrow> 'p \<Rightarrow> 'n option) \<Rightarrow> 'n notes_manager \<Rightarrow> jstr \<Rightarrow> 'p \<Rightarrow> 'n notes_manager" where
  "apply_patches nm blank patch m name p =
     (let m = (if disk_mtime (nm_disk m) \<noteq> nm_mtime m then load_notes nm m else m);
          existing = (case note_of (nm_notes m) name of None \<Rightarrow> blank | Some n \<Rightarrow> n)
      in case patch existing p of
           None \<Rightarrow> m
         | Some n \<Rightarrow> schedule_flush (m\<lparr>nm_notes := AList.update name (Some n) (nm_notes m)\<rparr>) name)"

subsection \<open>Writing\<close>

text \<open>
  What the file system does to a save at time \<open>t\<close>: the write of the notes file may fail (the file is
  replaced by a rename, so a failure leaves the old one), and so may the archive copy.
\<close>

datatype write_outcome = Written nat bool | WriteFails

definition merge_notes :: "'n notes_map \<Rightarrow> jstr list \<Rightarrow> 'n notes_map \<Rightarrow> 'n notes_map" where
  "merge_notes disk names own = fold (\<lambda>name merged. AList.update name (note_of own name) merged) names disk"

definition save_notes :: "('n \<Rightarrow> jstr) \<Rightarrow> 'n notes_manager \<Rightarrow> jstr list \<Rightarrow> write_outcome \<Rightarrow> 'n notes_manager" where
  "save_notes nm m names w =
     (let m = (case read_from_disk nm (nm_disk m) of
            None \<Rightarrow> m
          | Some (mp, _) \<Rightarrow> m\<lparr>nm_notes := merge_notes mp names (nm_notes m)\<rparr>);
          text = Entries (map snd (nm_notes m))
      in case w of
           WriteFails \<Rightarrow> m
         | Written t archived \<Rightarrow> m\<lparr>nm_disk := Some (text, t), nm_mtime := t,
             nm_archive := (if archived then Some text else nm_archive m)\<rparr>)"

definition flush_now :: "('n \<Rightarrow> jstr) \<Rightarrow> 'n notes_manager \<Rightarrow> write_outcome \<Rightarrow> 'n notes_manager" where
  "flush_now nm m w =
     (let m = m\<lparr>nm_timer := False\<rparr>
      in if nm_pending m = [] then m
         else save_notes nm (m\<lparr>nm_pending := []\<rparr>) (nm_pending m) w)"

text \<open>
  A session: patches of a configuration, the timer of the first unwritten patch firing, the flush of
  the disposed driver, and another process replacing the file.
\<close>

datatype ('n, 'p) notes_event =
    Patch jstr 'p
  | FlushTimer write_outcome
  | FlushNow write_outcome
  | External "'n content" nat

fun notes_step :: "('n \<Rightarrow> jstr) \<Rightarrow> 'n \<Rightarrow> ('n \<Rightarrow> 'p \<Rightarrow> 'n option) \<Rightarrow> 'n notes_manager \<Rightarrow> ('n, 'p) notes_event \<Rightarrow> 'n notes_manager" where
  "notes_step nm blank patch m (Patch name p) = apply_patches nm blank patch m name p"
| "notes_step nm blank patch m (FlushTimer w) = (if nm_timer m then flush_now nm (m\<lparr>nm_timer := False\<rparr>) w else m)"
| "notes_step nm blank patch m (FlushNow w) = flush_now nm m w"
| "notes_step nm blank patch m (External c t) = m\<lparr>nm_disk := Some (c, t)\<rparr>"

fun notes_run :: "('n \<Rightarrow> jstr) \<Rightarrow> 'n \<Rightarrow> ('n \<Rightarrow> 'p \<Rightarrow> 'n option) \<Rightarrow> 'n notes_manager \<Rightarrow> ('n, 'p) notes_event list \<Rightarrow> 'n notes_manager" where
  "notes_run nm blank patch m [] = m"
| "notes_run nm blank patch m (e # es) = notes_run nm blank patch (notes_step nm blank patch m e) es"

subsection \<open>Maps of named notes\<close>

text \<open>Every entry is a note stored under its own name.\<close>

definition named_map :: "('n \<Rightarrow> jstr) \<Rightarrow> 'n notes_map \<Rightarrow> bool" where
  "named_map nm mp = (distinct (map fst mp) \<and> (\<forall>(k, v) \<in> set mp. \<exists>n. v = Some n \<and> nm n = k))"

lemma named_map_Nil [simp]: "named_map nm []"
  by (simp add: named_map_def)

lemma set_update_subset: "set (AList.update k v al) \<subseteq> insert (k, v) (set al)"
  by (induction al) auto

lemma named_map_update: "named_map nm mp \<Longrightarrow> nm n = k \<Longrightarrow> named_map nm (AList.update k (Some n) mp)"
  using set_update_subset[of k "Some n" mp] unfolding named_map_def by (auto simp: distinct_update dest!: subsetD)

lemma note_of_update [simp]: "note_of (AList.update k v mp) = (note_of mp)(k := v)"
  by (auto simp: note_of_def update_conv' fun_eq_iff)

lemma note_of_Nil [simp]: "note_of [] k = None"
  by (simp add: note_of_def)


lemma reduce_named: "named_map nm acc \<Longrightarrow> reduce_notes nm acc ns = Some mp \<Longrightarrow> named_map nm mp"
  by (induction nm acc ns rule: reduce_notes.induct) (auto intro: named_map_update)

lemma read_named: "read_from_disk nm disk = Some (mp, t) \<Longrightarrow> named_map nm mp"
  by (auto simp: read_from_disk_def split: option.splits prod.splits content.splits dest: reduce_named[OF named_map_Nil])

text \<open>Writing such a map and reading it back gives the same map.\<close>

lemma reduce_values: "named_map nm (acc @ mp) \<Longrightarrow> reduce_notes nm acc (map snd mp) = Some (acc @ mp)"
proof (induction mp arbitrary: acc)
  case (Cons e mp)
  obtain k n where e: "e = (k, Some n)" "nm n = k" using Cons.prems by (cases e) (auto simp: named_map_def)
  have "k \<notin> fst ` set acc" using Cons.prems e by (auto simp: named_map_def)
  then have "AList.update k (Some n) acc = acc @ [e]" using e by (simp add: update_fresh)
  with Cons e show ?case by simp
qed simp

lemma read_written: "named_map nm mp \<Longrightarrow> read_from_disk nm (Some (Entries (map snd mp), t)) = Some (mp, t)"
  using reduce_values[of nm "[]" mp] by (simp add: read_from_disk_def)


lemma merge_named:
  "named_map nm mp \<Longrightarrow> \<forall>k \<in> set names. \<exists>n. note_of own k = Some n \<and> nm n = k \<Longrightarrow> named_map nm (merge_notes mp names own)"
  unfolding merge_notes_def by (induction names arbitrary: mp) (auto simp: named_map_update)

lemma note_of_merge: "note_of (merge_notes mp names own) k = (if k \<in> set names then note_of own k else note_of mp k)"
  unfolding merge_notes_def by (induction names arbitrary: mp) auto

subsection \<open>Flushing\<close>

lemma flush_readable:
  assumes "read_from_disk nm (nm_disk m) = Some (mp, t)" "nm_pending m \<noteq> []"
    and "\<forall>k \<in> set (nm_pending m). \<exists>n. note_of (nm_notes m) k = Some n \<and> nm n = k"
  shows "\<exists>mp'. read_from_disk nm (nm_disk (flush_now nm m (Written t' a))) = Some (mp', t') \<and>
    nm_notes (flush_now nm m (Written t' a)) = mp' \<and> nm_mtime (flush_now nm m (Written t' a)) = t' \<and>
    nm_pending (flush_now nm m (Written t' a)) = [] \<and>
    (\<forall>k. note_of mp' k = (if k \<in> set (nm_pending m) then note_of (nm_notes m) k else note_of mp k))"
proof -
  let ?mp = "merge_notes mp (nm_pending m) (nm_notes m)"
  have "named_map nm ?mp" by (rule merge_named[OF read_named[OF assms(1)] assms(3)])
  from read_written[OF this] show ?thesis using assms(1,2)
    by (intro exI[of _ ?mp]) (simp add: flush_now_def save_notes_def Let_def note_of_merge)
qed

subsection \<open>Error paths\<close>

text \<open>
  A concrete note for the examples: its name field, if it has one, and a value; a patch sets the value.
\<close>

type_synonym small_note = "jstr option \<times> jstr"

definition small_name :: "small_note \<Rightarrow> jstr" where
  "small_name n = (case fst n of None \<Rightarrow> ''undefined'' | Some s \<Rightarrow> s)"

definition small_patch :: "small_note \<Rightarrow> (jstr option \<times> jstr) \<Rightarrow> small_note option" where
  "small_patch n p = Some (case fst p of None \<Rightarrow> (fst n, snd p) | Some s \<Rightarrow> (Some s, snd p))"

abbreviation small_run :: "(small_note content \<times> nat) option \<Rightarrow> (small_note, small_note) notes_event list \<Rightarrow> small_note notes_manager" where
  "small_run disk es \<equiv> notes_run small_name (None, []) small_patch (nm_new small_name disk) es"

text \<open>Nothing gives a note of a new configuration its name: the next session does not find it.\<close>

lemma nameless_note_not_found:
  "let m = small_run None [Patch ''A'' (None, ''dma''), FlushTimer (Written 1 True)];
       m' = nm_new small_name (nm_disk m)
   in note_of (nm_notes m) ''A'' = Some (None, ''dma'') \<and> note_of (nm_notes m') ''A'' = None \<and>
      note_of (nm_notes m') ''undefined'' = Some (None, ''dma'')"
  by code_simp

text \<open>The notes of two configurations without a name collide, and one of them is gone from the file.\<close>

lemma nameless_notes_collide:
  "let m = small_run None [Patch ''A'' (None, ''dma''), Patch ''B'' (None, ''irq''), FlushTimer (Written 1 True)];
       m' = notes_run small_name (None, []) small_patch (nm_new small_name (nm_disk m))
         [Patch ''C'' (Some ''C'', ''x''), FlushTimer (Written 2 True)]
   in nm_disk m = Some (Entries [Some (None, ''dma''), Some (None, ''irq'')], 1) \<and>
      nm_disk m' = Some (Entries [Some (None, ''irq''), Some (Some ''C'', ''x'')], 2)"
  by code_simp

text \<open>
  A file that another session changed is loaded over the patches not yet written. The pending name
  remains: it is written as \<open>null\<close>, after which the file cannot be read any more and the next
  write drops what other configurations have in it.
\<close>

lemma reload_drops_pending_patch:
  "let m = small_run None [Patch ''A'' (Some ''A'', ''dma''), External (Entries [Some (Some ''X'', ''theirs'')]) 5,
         Patch ''B'' (Some ''B'', ''irq''), FlushTimer (Written 6 True)];
       m' = notes_run small_name (None, []) small_patch (nm_new small_name (nm_disk m))
         [Patch ''B'' (Some ''B'', ''irq2''), FlushTimer (Written 7 True)]
   in nm_disk m = Some (Entries [Some (Some ''X'', ''theirs''), None, Some (Some ''B'', ''irq'')], 6) \<and>
      nm_disk m' = Some (Entries [Some (Some ''B'', ''irq2'')], 7)"
  by code_simp

text \<open>A failed write is not repeated: its patches are in no later file.\<close>

lemma failed_write_not_repeated:
  "let m = small_run None [Patch ''A'' (Some ''A'', ''dma''), FlushTimer WriteFails,
         Patch ''B'' (Some ''B'', ''irq''), FlushTimer (Written 1 True)]
   in nm_disk m = Some (Entries [Some (Some ''B'', ''irq'')], 1)"
  by code_simp


subsection \<open>The reference semantics\<close>























subsection \<open>Properties\<close>



text \<open>
  A write does not take back what another session wrote in the meantime: every configuration with
  no pending patch here has after the write the note the file held just before it, every other one
  the note of this session.
\<close>

lemma flush_keeps_other_notes:
  assumes "read_from_disk nm (nm_disk m) = Some (mp, t)" "nm_pending m \<noteq> []"
    and "\<forall>k \<in> set (nm_pending m). \<exists>n. note_of (nm_notes m) k = Some n \<and> nm n = k"
  shows "\<exists>mp'. read_from_disk nm (nm_disk (flush_now nm m (Written t' a))) = Some (mp', t') \<and>
    (\<forall>k. note_of mp' k = (if k \<in> set (nm_pending m) then note_of (nm_notes m) k else note_of mp k))"
  using flush_readable[OF assms, of t' a] by blast

lemma flush_keeps_other_notes_witness:
  "let m = notes_run small_name (None, []) small_patch (nm_new small_name None)
       [Patch ''A'' (Some ''A'', ''dma''), External (Entries [Some (Some ''B'', ''irq'')]) 3]
   in note_of (nm_notes (nm_new small_name (nm_disk (flush_now small_name m (Written 4 True))))) ''B'' = Some (Some ''B'', ''irq'')"
proof -
  let ?m = "notes_run small_name (None, []) small_patch (nm_new small_name None)
       [Patch ''A'' (Some ''A'', ''dma''), External (Entries [Some (Some ''B'', ''irq'')]) 3]"
  have r: "read_from_disk small_name (nm_disk ?m) = Some ([(''B'', Some (Some ''B'', ''irq''))], 3)" by code_simp
  have p: "nm_pending ?m = [''A'']" by code_simp
  have n: "note_of (nm_notes ?m) ''A'' = Some (Some ''A'', ''dma'')" "small_name (Some ''A'', ''dma'') = ''A''" by code_simp+
  have "nm_pending ?m \<noteq> []" "\<forall>k \<in> set (nm_pending ?m). \<exists>n. note_of (nm_notes ?m) k = Some n \<and> small_name n = k"
    unfolding p using n by auto
  from flush_keeps_other_notes[OF r this, of 4 True] show ?thesis
    unfolding p Let_def by (auto simp: nm_new_def load_notes_def note_of_def)
qed

end
