(* ===== verification/Memory.thy ===== *)
theory Memory
  imports GdbCommands
begin

text \<open>
  Reading and writing target memory (\<open>adapter/memory.ts\<close>): the chunked read with its callback, the
  write, the word accesses and the two DAP requests.

  The sending of a command is a parameter \<open>send s c\<close> over a state \<open>s\<close> that contains GDB; a callback
  \<open>cb chunk s\<close> changes that state and tells whether its promise is ever resolved. Lengths and
  addresses are integers. The base64 text of the DAP messages is modelled by the bytes it stands for.
\<close>

subsection \<open>Hexadecimal buffers\<close>

text \<open>\<open>buf.toString("hex")\<close> and \<open>Buffer.from(text, "hex")\<close>, which stops at the first pair that is none.\<close>

definition to_hex_text :: "bytes \<Rightarrow> jstr" where
  "to_hex_text bs = concat (map (\<lambda>b. [hex_digit (unat b div 16), hex_digit (unat b mod 16)]) bs)"

fun from_hex_text :: "jstr \<Rightarrow> bytes" where
  "from_hex_text (h # l # s) = (case (hex_char_val h, hex_char_val l) of
     (Some x, Some y) \<Rightarrow> of_nat (16 * x + y) # from_hex_text s | _ \<Rightarrow> [])"
| "from_hex_text _ = []"

lemma from_to_hex [simp]: "from_hex_text (to_hex_text bs) = bs"
proof (induction bs)
  case (Cons b bs)
  have b: "unat b < 256" using unsigned_less[of b, where 'a = nat] by simp
  have "(of_nat (16 * (unat b div 16) + unat b mod 16) :: byte) = b" by (simp only: mult_div_mod_eq) simp
  with b Cons show ?case by (simp add: to_hex_text_def hex_char_val_digit)
qed (simp add: to_hex_text_def)

lemma length_to_hex [simp]: "length (to_hex_text bs) = 2 * length bs"
  by (induction bs) (simp_all add: to_hex_text_def)

lemma to_hex_Nil [simp]: "to_hex_text [] = []"
  by (simp add: to_hex_text_def)

lemma to_hex_Nil_iff [simp]: "to_hex_text bs = [] \<longleftrightarrow> bs = []"
  using length_to_hex[of bs] by (metis length_0_conv mult_eq_0_iff zero_neq_numeral)

subsection \<open>Reading\<close>

text \<open>
  What a read comes to: bytes, a rejection with the text of its error, or a promise that is never
  settled because a callback's is not.
\<close>

datatype 'a settled = Returns 'a | Rejects jstr | Pends

definition read_command :: "int \<Rightarrow> int \<Rightarrow> jstr" where
  "read_command addr n = ''-data-read-memory-bytes '' @ [DQ] @ format_address addr @ [DQ] @ '' '' @ show_nat (nat n)"

text \<open>\<open>x.toString().replace(/Error:\s*/, "")\<close>: the first occurrence goes, with the blanks behind it.\<close>

fun strip_error :: "jstr \<Rightarrow> jstr" where
  "strip_error [] = []"
| "strip_error (c # s) = (if starts_with ''Error:'' (c # s) then dropWhile js_ws (drop 6 (c # s)) else c # strip_error s)"

definition access_error :: "jstr \<Rightarrow> jstr \<Rightarrow> jstr" where
  "access_error what err = ''Error: '' @ what @ '' memory error: '' @ strip_error (if err = [] then ''<unknown error>'' else err)"

text \<open>A text field with a default; anything but a text has no \<open>trim\<close>.\<close>

definition text_field :: "mi_value \<Rightarrow> jstr \<Rightarrow> jstr \<Rightarrow> jstr + jstr" where
  "text_field v key deflt = (case js_field (Some v) key of
     Inl e \<Rightarrow> Inl e
   | Inr None \<Rightarrow> Inr deflt
   | Inr (Some (MConst s)) \<Rightarrow> Inr (if s = [] then deflt else s)
   | Inr (Some _) \<Rightarrow> Inl ''TypeError'')"

definition address_field :: "mi_value \<Rightarrow> jstr \<Rightarrow> jstr + int" where
  "address_field v key = (case text_field v key ''0x0'' of
     Inl e \<Rightarrow> Inl e
   | Inr s \<Rightarrow> (case parse_address s of None \<Rightarrow> Inl ''SyntaxError: Cannot convert to a BigInt'' | Some a \<Rightarrow> Inr a))"

text \<open>One answer: the bytes of the chunk and how many GDB says there are.\<close>

definition region_answer :: "int \<Rightarrow> mi_value \<Rightarrow> jstr + bytes \<times> int" where
  "region_answer addr memory = (case text_field memory ''contents'' [] of Inl e \<Rightarrow> Inl e | Inr contents \<Rightarrow>
     (case address_field memory ''begin'' of Inl e \<Rightarrow> Inl e | Inr begin_addr \<Rightarrow>
     (case address_field memory ''offset'' of Inl e \<Rightarrow> Inl e | Inr offset \<Rightarrow>
       if begin_addr + offset \<noteq> addr
       then Inl (''Error: GDB returned memory from unexpected address. Requested '' @ format_address addr @
         '', got '' @ format_address (begin_addr + offset))
       else (case address_field memory ''end'' of Inl e \<Rightarrow> Inl e | Inr end_addr \<Rightarrow>
         Inr (from_hex_text contents, end_addr - (begin_addr + offset))))))"

definition read_answer :: "int \<Rightarrow> (jstr \<times> mi_value) list \<Rightarrow> jstr + bytes \<times> int" where
  "read_answer addr result = (case map_of result ''memory'' of
     Some (MList (memory # rest)) \<Rightarrow>
       (if rest \<noteq> [] then Inl (''Error: Memory request spans multiple regions ('' @ show_nat (Suc (length rest)) @
          '' chunks). This can happen when memory crosses protection boundaries or unmapped regions.'')
        else region_answer addr memory)
   | _ \<Rightarrow> Inl ''Error: No memory data returned from GDB'')"

text \<open>
  The loop. \<open>alive\<close> tells whether every callback so far is resolved; the callback runs up to its first
  wait before the next command is sent.
\<close>

function read_loop :: "('s \<Rightarrow> jstr \<Rightarrow> answer \<times> 's) \<Rightarrow> (bytes \<Rightarrow> 's \<Rightarrow> bool \<times> 's) \<Rightarrow> 's \<Rightarrow> int \<Rightarrow> int \<Rightarrow> bytes \<Rightarrow> bool \<Rightarrow>
    (jstr + bytes \<times> bool) \<times> 's" where
  "read_loop send cb s addr len ret alive =
     (if len \<le> 0 then (Inr (ret, alive), s)
      else let chunk_size = min len 512;
               (a, s) = send s (read_command addr chunk_size)
           in case (case a of GdbError e \<Rightarrow> Inl e | GdbDone result \<Rightarrow> read_answer addr result) of
                Inl e \<Rightarrow> (Inl e, s)
              | Inr (chunk, actual) \<Rightarrow>
                  if actual < chunk_size then (Inr (ret @ chunk, alive), s)
                  else let (ok, s) = cb chunk s
                       in read_loop send cb s (addr + chunk_size) (len - chunk_size) (ret @ chunk) (alive \<and> ok))"
  by pat_completeness auto
termination
  by (relation "measure (\<lambda>(_, _, _, _, len, _). nat len)") (auto simp: Let_def)

declare read_loop.simps [simp del]

definition read_memory_bytes :: "('s \<Rightarrow> jstr \<Rightarrow> answer \<times> 's) \<Rightarrow> (bytes \<Rightarrow> 's \<Rightarrow> bool \<times> 's) \<Rightarrow> 's \<Rightarrow> int \<Rightarrow> int \<Rightarrow> bytes settled \<times> 's" where
  "read_memory_bytes send cb s addr len = (case read_loop send cb s addr len [] True of
     (Inl e, s) \<Rightarrow> (Rejects (access_error ''Read'' e), s)
   | (Inr (ret, alive), s) \<Rightarrow> (if alive then Returns ret else Pends, s))"

definition no_callback :: "bytes \<Rightarrow> 's \<Rightarrow> bool \<times> 's" where
  "no_callback chunk s = (True, s)"

subsection \<open>Writing\<close>

definition write_command :: "int \<Rightarrow> bytes \<Rightarrow> jstr" where
  "write_command addr data = ''-data-write-memory-bytes '' @ [DQ] @ format_address addr @ [DQ] @ '' '' @ [DQ] @ to_hex_text data @ [DQ]"

definition write_memory_bytes :: "('s \<Rightarrow> jstr \<Rightarrow> answer \<times> 's) \<Rightarrow> 's \<Rightarrow> int \<Rightarrow> bytes \<Rightarrow> unit settled \<times> 's" where
  "write_memory_bytes send s addr data =
     (if to_hex_text data = [] then (Returns (), s)
      else case send s (write_command addr data) of
        (GdbError e, s) \<Rightarrow> (Rejects (access_error ''Write'' e), s)
      | (GdbDone _, s) \<Rightarrow> (Returns (), s))"

text \<open>\<open>readUInt32LE\<close>, \<open>readUInt32BE\<close> of a buffer at an offset; \<open>None\<close> stands for a \<open>RangeError\<close>.\<close>

definition uint32_le :: "bytes \<Rightarrow> nat \<Rightarrow> nat option" where
  "uint32_le bs i = (if i + 4 \<le> length bs then Some (read_u32_le (drop i bs)) else None)"

definition uint32_be :: "bytes \<Rightarrow> nat \<Rightarrow> nat option" where
  "uint32_be bs i = (if i + 4 \<le> length bs then Some (read_u32_le (rev (take 4 (drop i bs)))) else None)"

definition range_error :: jstr where
  "range_error = ''RangeError''"

definition read_word :: "('s \<Rightarrow> jstr \<Rightarrow> answer \<times> 's) \<Rightarrow> 's \<Rightarrow> int \<Rightarrow> nat settled \<times> 's" where
  "read_word send s addr = (case read_memory_bytes send no_callback s addr 4 of
     (Returns data, s) \<Rightarrow> (case uint32_le data 0 of None \<Rightarrow> Rejects range_error | Some v \<Rightarrow> Returns v, s)
   | (Rejects e, s) \<Rightarrow> (Rejects e, s)
   | (Pends, s) \<Rightarrow> (Pends, s))"

definition write_word :: "('s \<Rightarrow> jstr \<Rightarrow> answer \<times> 's) \<Rightarrow> 's \<Rightarrow> int \<Rightarrow> int \<Rightarrow> unit settled \<times> 's" where
  "write_word send s addr v =
     (if 0 \<le> v \<and> v < 2 ^ 32 then write_memory_bytes send s addr (write_u32_le (nat v)) else (Rejects range_error, s))"

subsection \<open>The DAP requests\<close>

datatype memory_response = ReadBody jstr bytes | WriteBody nat | ErrorBody jstr | NoResponse

definition read_memory_request :: "('s \<Rightarrow> jstr \<Rightarrow> answer \<times> 's) \<Rightarrow> 's \<Rightarrow> jstr \<Rightarrow> int \<Rightarrow> int \<Rightarrow> memory_response \<times> 's" where
  "read_memory_request send s ref count offset = (case parse_address ref of
     None \<Rightarrow> (ErrorBody ''SyntaxError: Cannot convert to a BigInt'', s)
   | Some start \<Rightarrow>
       let use_addr = start + offset in
       if count = 0 then (ReadBody (format_address use_addr) [], s)
       else case read_memory_bytes send no_callback s use_addr count of
         (Returns contents, s) \<Rightarrow> (ReadBody (format_address use_addr) contents, s)
       | (Rejects e, s) \<Rightarrow> (ErrorBody e, s)
       | (Pends, s) \<Rightarrow> (NoResponse, s))"

definition write_memory_request :: "('s \<Rightarrow> jstr \<Rightarrow> answer \<times> 's) \<Rightarrow> 's \<Rightarrow> jstr \<Rightarrow> bytes \<Rightarrow> int \<Rightarrow> memory_response \<times> 's" where
  "write_memory_request send s ref data offset = (case parse_address ref of
     None \<Rightarrow> (ErrorBody (''Write memory error: '' @ strip_error ''SyntaxError: Cannot convert to a BigInt''), s)
   | Some start \<Rightarrow>
       let use_addr = start + offset in
       if to_hex_text data = [] then (WriteBody 0, s)
       else case send s (write_command use_addr data) of
         (GdbError e, s) \<Rightarrow> (ErrorBody (''Write memory error: '' @ strip_error (if e = [] then ''<unknown error>'' else e)), s)
       | (GdbDone _, s) \<Rightarrow> (WriteBody (length (to_hex_text data) div 2), s))"


subsection \<open>Memory behind GDB\<close>

text \<open>
  What GDB documents of the two commands, for memory that can be accessed between \<open>lo\<close> and \<open>hi\<close>:
  \<open>mem s\<close> is the target's memory. A read answers with one region that starts at the address, ends
  behind its last byte and has its contents; it changes nothing. A write stores the bytes.
\<close>

definition cells :: "(int \<Rightarrow> byte) \<Rightarrow> int \<Rightarrow> int \<Rightarrow> bytes" where
  "cells f a n = map (\<lambda>i. f (a + int i)) [0..<nat n]"

definition put_cells :: "(int \<Rightarrow> byte) \<Rightarrow> int \<Rightarrow> bytes \<Rightarrow> int \<Rightarrow> byte" where
  "put_cells f a bs x = (if a \<le> x \<and> x < a + int (length bs) then bs ! nat (x - a) else f x)"

definition region_result :: "(int \<Rightarrow> byte) \<Rightarrow> int \<Rightarrow> int \<Rightarrow> answer" where
  "region_result f a n = GdbDone [(''memory'', MList [MTuple [(''begin'', MConst (format_address a)), (''offset'', MConst ''0x0''),
     (''end'', MConst (format_address (a + n))), (''contents'', MConst (to_hex_text (cells f a n)))]])]"

definition gdb_memory :: "('s \<Rightarrow> jstr \<Rightarrow> answer \<times> 's) \<Rightarrow> ('s \<Rightarrow> int \<Rightarrow> byte) \<Rightarrow> int \<Rightarrow> int \<Rightarrow> bool" where
  "gdb_memory send mem lo hi = (0 \<le> lo \<and> (\<forall>s a.
     (\<forall>n. lo \<le> a \<and> 0 < n \<and> a + n \<le> hi \<longrightarrow>
        (\<exists>s'. send s (read_command a n) = (region_result (mem s) a n, s') \<and> mem s' = mem s)) \<and>
     (\<forall>bs. lo \<le> a \<and> bs \<noteq> [] \<and> a + int (length bs) \<le> hi \<longrightarrow>
        (\<exists>s'. send s (write_command a bs) = (GdbDone [], s') \<and> mem s' = put_cells (mem s) a bs))))"

lemma gdb_memory_lo: "gdb_memory send mem lo hi \<Longrightarrow> 0 \<le> lo"
  by (simp add: gdb_memory_def)

lemma gdb_memory_read:
  assumes "gdb_memory send mem lo hi" "lo \<le> a" "0 < n" "a + n \<le> hi"
  obtains s' where "send s (read_command a n) = (region_result (mem s) a n, s')" "mem s' = mem s"
  using assms unfolding gdb_memory_def by blast

lemma gdb_memory_write:
  assumes "gdb_memory send mem lo hi" "lo \<le> a" "bs \<noteq> []" "a + int (length bs) \<le> hi"
  obtains s' where "send s (write_command a bs) = (GdbDone [], s')" "mem s' = put_cells (mem s) a bs"
  using assms unfolding gdb_memory_def by blast

lemma length_cells [simp]: "length (cells f a n) = nat n"
  by (simp add: cells_def)

lemma nth_cells: "i < nat n \<Longrightarrow> cells f a n ! i = f (a + int i)"
  by (simp add: cells_def)

lemma cells_empty [simp]: "n \<le> 0 \<Longrightarrow> cells f a n = []"
  by (simp add: cells_def)

lemma cells_append: "0 \<le> m \<Longrightarrow> 0 \<le> n \<Longrightarrow> cells f a m @ cells f (a + m) n = cells f a (m + n)"
  by (rule nth_equalityI) (auto simp: cells_def nth_append algebra_simps)

lemma cells_put [simp]: "cells (put_cells f a bs) a (int (length bs)) = bs"
  by (rule nth_equalityI) (auto simp: cells_def put_cells_def)

lemma cells_cong: "(\<And>x. a \<le> x \<Longrightarrow> x < a + n \<Longrightarrow> f x = g x) \<Longrightarrow> cells f a n = cells g a n"
  by (auto simp: cells_def)

lemma address_field_hex:
  "0 \<le> a \<Longrightarrow> map_of fs key = Some (MConst (format_address a)) \<Longrightarrow> address_field (MTuple fs) key = Inr a"
proof -
  have "format_address a \<noteq> []" by (simp add: format_address_def)
  then show "0 \<le> a \<Longrightarrow> map_of fs key = Some (MConst (format_address a)) \<Longrightarrow> address_field (MTuple fs) key = Inr a"
    by (simp add: address_field_def text_field_def js_field_def)
qed

lemma zero_address: "address_field (MTuple fs) key = Inr 0" if "map_of fs key = Some (MConst ''0x0'')"
proof -
  have "format_address 0 = ''0x0''" by code_simp
  with address_field_hex[of 0 fs key] that show ?thesis by simp
qed

lemma read_region [simp]:
  assumes "0 \<le> a" "0 \<le> n"
  shows "(case region_result f a n of GdbError e \<Rightarrow> Inl e | GdbDone r \<Rightarrow> read_answer a r) = Inr (cells f a n, n)"
proof -
  let ?fs = "[(''begin'', MConst (format_address a)), (''offset'', MConst ''0x0''),
     (''end'', MConst (format_address (a + n))), (''contents'', MConst (to_hex_text (cells f a n)))]"
  have "address_field (MTuple ?fs) ''begin'' = Inr a" "address_field (MTuple ?fs) ''end'' = Inr (a + n)"
    "address_field (MTuple ?fs) ''offset'' = Inr 0"
    using assms by (intro address_field_hex zero_address; simp)+
  moreover have "text_field (MTuple ?fs) ''contents'' [] = Inr (to_hex_text (cells f a n))"
    by (simp add: text_field_def js_field_def)
  ultimately have "region_answer a (MTuple ?fs) = Inr (cells f a n, n)" by (simp add: region_answer_def)
  then show ?thesis by (simp add: region_result_def read_answer_def)
qed

text \<open>
  The loop reads exactly the memory, and keeps every property \<open>I\<close> of what was read so far and the
  state that the callback keeps.
\<close>

lemma read_loop_invariant:
  assumes gm: "gdb_memory send mem lo hi" and lo: "lo \<le> a" and hi: "a + len \<le> hi"
    and same: "\<And>r s. I r s \<Longrightarrow> cells (mem s) a len = cells f a len"
    and sent: "\<And>r s x n ans s'. I r s \<Longrightarrow> send s (read_command x n) = (ans, s') \<Longrightarrow> mem s' = mem s \<Longrightarrow> I r s'"
    and cb: "\<And>r chunk s. I r s \<Longrightarrow> r @ chunk = cells f a (int (length (r @ chunk))) \<Longrightarrow> int (length (r @ chunk)) \<le> len \<Longrightarrow>
      chunk \<noteq> [] \<Longrightarrow> length chunk \<le> 512 \<Longrightarrow> fst (cb chunk s) \<and> I (r @ chunk) (snd (cb chunk s))"
    and init: "I [] s"
  shows "\<exists>s'. read_loop send cb s a len [] True = (Inr (cells f a len, True), s') \<and> I (cells f a len) s'"
proof -
  have "0 \<le> dn \<Longrightarrow> 0 \<le> rest \<Longrightarrow> dn + rest = (if len < 0 then 0 else len) \<Longrightarrow> I (cells f a dn) s \<Longrightarrow>
     \<exists>s'. read_loop send cb s (a + dn) rest (cells f a dn) True = (Inr (cells f a len, True), s') \<and> I (cells f a len) s'"
    for dn rest :: int and s
  proof (induction "nat rest" arbitrary: dn rest s rule: less_induct)
    case less
    show ?case
    proof (cases "rest \<le> 0")
      case True
      with less.prems show ?thesis by (auto simp: read_loop.simps split: if_splits)
    next
      case False
      let ?n = "min rest 512"
      have b: "0 < ?n" "?n \<le> rest" "len = dn + rest" using False less.prems by (auto split: if_splits)
      have m: "0 \<le> lo" using gm by (simp add: gdb_memory_def)
      obtain s1 where s1: "send s (read_command (a + dn) ?n) = (region_result (mem s) (a + dn) ?n, s1)" "mem s1 = mem s"
        by (rule gdb_memory_read[OF gm, of "a + dn" ?n s]) (use lo hi b less.prems(1) in auto)
      have chunk: "cells (mem s) (a + dn) ?n = cells f (a + dn) ?n"
      proof (rule cells_cong)
        fix x assume x: "a + dn \<le> x" "x < a + dn + ?n"
        have "cells (mem s) a len ! nat (x - a) = cells f a len ! nat (x - a)" using same[OF less.prems(4)] by simp
        moreover have "nat (x - a) < nat len" "a + int (nat (x - a)) = x" using x b less.prems(1) by auto
        ultimately show "mem s x = f x" by (simp add: nth_cells)
      qed
      have app: "cells f a dn @ cells f (a + dn) ?n = cells f a (dn + ?n)"
        using b less.prems(1) by (simp add: cells_append)
      have "I (cells f a dn) s1" by (rule sent[OF less.prems(4) s1])
      from cb[OF this, of "cells f (a + dn) ?n"] obtain s2 where
        c: "cb (cells f (a + dn) ?n) s1 = (True, s2)" "I (cells f a (dn + ?n)) s2"
        using b less.prems(1,2) app by (cases "cb (cells f (a + dn) ?n) s1") (auto simp flip: length_greater_0_conv)
      have "read_loop send cb s (a + dn) rest (cells f a dn) True =
          read_loop send cb s2 (a + (dn + ?n)) (rest - ?n) (cells f a (dn + ?n)) True"
        using False s1(1) c(1) b m lo less.prems(1) chunk app
        by (subst read_loop.simps) (auto simp: Let_def algebra_simps)
      moreover have "\<exists>s'. read_loop send cb s2 (a + (dn + ?n)) (rest - ?n) (cells f a (dn + ?n)) True =
          (Inr (cells f a len, True), s') \<and> I (cells f a len) s'"
        by (rule less.hyps) (use b less.prems c(2) in \<open>auto split: if_splits\<close>)
      ultimately show ?thesis by simp
    qed
  qed
  from this[of 0 "if len < 0 then 0 else len" s] init show ?thesis
    by (cases "len < 0") (auto simp: read_loop.simps[of _ _ _ _ len])
qed

lemma read_memory_invariant:
  assumes "gdb_memory send mem lo hi" "lo \<le> a" "a + len \<le> hi"
    and "\<And>r s. I r s \<Longrightarrow> cells (mem s) a len = cells f a len"
    and "\<And>r s x n ans s'. I r s \<Longrightarrow> send s (read_command x n) = (ans, s') \<Longrightarrow> mem s' = mem s \<Longrightarrow> I r s'"
    and "\<And>r chunk s. I r s \<Longrightarrow> r @ chunk = cells f a (int (length (r @ chunk))) \<Longrightarrow> int (length (r @ chunk)) \<le> len \<Longrightarrow>
      chunk \<noteq> [] \<Longrightarrow> length chunk \<le> 512 \<Longrightarrow> fst (cb chunk s) \<and> I (r @ chunk) (snd (cb chunk s))"
    and "I [] s"
  obtains s' where "read_memory_bytes send cb s a len = (Returns (cells f a len), s')" "I (cells f a len) s'"
proof -
  have "\<exists>s'. read_loop send cb s a len [] True = (Inr (cells f a len, True), s') \<and> I (cells f a len) s'"
    by (rule read_loop_invariant[where send = send and mem = mem and I = I and f = f and cb = cb]; fact)
  with that show ?thesis by (auto simp: read_memory_bytes_def)
qed

lemma read_memory_bytes_exact:
  assumes "gdb_memory send mem lo hi" "lo \<le> a" "a + len \<le> hi"
  obtains s' where "read_memory_bytes send no_callback s a len = (Returns (cells (mem s) a len), s')" "mem s' = mem s"
  by (rule read_memory_invariant[OF assms, where I = "\<lambda>_ s'. mem s' = mem s" and f = "mem s" and s = s and cb = no_callback])
    (auto simp: no_callback_def)

lemma write_memory_stores:
  assumes "gdb_memory send mem lo hi" "lo \<le> a" "a + int (length bs) \<le> hi"
  obtains s' where "write_memory_bytes send s a bs = (Returns (), s')" "mem s' = put_cells (mem s) a bs"
proof (cases "bs = []")
  case True
  then have "mem s = put_cells (mem s) a bs" by (auto simp: put_cells_def fun_eq_iff)
  with True that show ?thesis by (simp add: write_memory_bytes_def)
next
  case False
  obtain s' where "send s (write_command a bs) = (GdbDone [], s')" "mem s' = put_cells (mem s) a bs"
    by (rule gdb_memory_write[OF assms(1,2) False assms(3)])
  with False that show ?thesis by (simp add: write_memory_bytes_def)
qed

subsection \<open>A small target\<close>

text \<open>
  An instance of the contract, for the examples: a memory and nothing else. It reads the address and
  the argument of a command as GDB does.
\<close>

definition command_args :: "jstr \<Rightarrow> int \<times> jstr" where
  "command_args c = (let t = tl (dropWhile (\<lambda>x. x \<noteq> DQ) c);
     a = takeWhile (\<lambda>x. x \<noteq> DQ) t; rest = drop 2 (dropWhile (\<lambda>x. x \<noteq> DQ) t)
   in (case parse_address a of None \<Rightarrow> 0 | Some n \<Rightarrow> n, filter (\<lambda>x. x \<noteq> DQ) rest))"

definition small_target :: "(int \<Rightarrow> byte) \<Rightarrow> jstr \<Rightarrow> answer \<times> (int \<Rightarrow> byte)" where
  "small_target f c = (let (a, arg) = command_args c in
     if starts_with ''-data-read-memory-bytes '' c then (region_result f a (int (dec_val arg)), f)
     else (GdbDone [], put_cells f a (from_hex_text arg)))"

lemma no_quote_hex: "d < 16 \<Longrightarrow> hex_digit d \<noteq> DQ"
  using hex_char_val_digit[of d] by (auto simp: hex_char_val_def is_digit_def)

lemma show_hex_no_quote: "DQ \<notin> set (show_hex n)"
  by (induction n rule: show_hex.induct) (subst show_hex.simps, auto simp: no_quote_hex no_quote_hex[THEN not_sym])

lemma to_hex_text_no_quote: "DQ \<notin> set (to_hex_text bs)"
proof (induction bs)
  case (Cons b bs)
  have "unat b < 256" using unsigned_less[of b, where 'a = nat] by simp
  then have "unat b div 16 < 16" by simp
  then show ?case using Cons no_quote_hex[of "unat b div 16"] no_quote_hex[of "unat b mod 16"]
    by (auto simp: to_hex_text_def dest: sym)
qed simp

lemma address_no_quote: "0 \<le> a \<Longrightarrow> DQ \<notin> set (format_address a)"
  using show_hex_no_quote by (simp add: format_address_def to_hex_def)

lemma show_nat_no_quote: "DQ \<notin> set (show_nat n)"
  using show_nat_digits[of n] by (auto simp: is_digit_def)

lemma filter_no_quote: "DQ \<notin> set s \<Longrightarrow> filter (\<lambda>x. x \<noteq> DQ) s = s"
  by (auto simp: filter_id_conv)

lemma command_args:
  assumes "0 \<le> a" "DQ \<notin> set p" "hd arg = CHR '' ''"
  shows "command_args (p @ [DQ] @ format_address a @ [DQ] @ arg) = (a, filter (\<lambda>x. x \<noteq> DQ) (tl arg))"
proof -
  have "dropWhile (\<lambda>x. x \<noteq> DQ) (p @ DQ # t) = DQ # t" "takeWhile (\<lambda>x. x \<noteq> DQ) (q @ DQ # t) = q"
    "dropWhile (\<lambda>x. x \<noteq> DQ) (q @ DQ # t) = DQ # t" if "DQ \<notin> set q" for q t
    using that assms(2) by (auto intro!: dropWhile_append2 takeWhile_append2 simp: dropWhile_append takeWhile_append)
  with address_no_quote[OF assms(1)] show ?thesis using assms(1) by (simp add: command_args_def drop_Suc)
qed

lemma small_memory: "0 \<le> lo \<Longrightarrow> gdb_memory small_target (\<lambda>f. f) lo hi"
  unfolding gdb_memory_def
proof (intro conjI allI impI)
  fix f a n assume a: "0 \<le> lo" "lo \<le> a \<and> 0 < n \<and> a + n \<le> hi"
  have "command_args (read_command a n) = (a, show_nat (nat n))"
    using command_args[of a "''-data-read-memory-bytes ''" "CHR '' '' # show_nat (nat n)"] a
    by (simp add: read_command_def filter_no_quote show_nat_no_quote)
  then show "\<exists>s'. small_target f (read_command a n) = (region_result f a n, s') \<and> s' = f"
    using a by (simp add: small_target_def) (simp add: read_command_def)
next
  fix f a and bs :: bytes assume a: "0 \<le> lo" "lo \<le> a \<and> bs \<noteq> [] \<and> a + int (length bs) \<le> hi"
  have "command_args (write_command a bs) = (a, to_hex_text bs)"
    using command_args[of a "''-data-write-memory-bytes ''" "CHR '' '' # DQ # to_hex_text bs @ [DQ]"] a
    by (simp add: write_command_def filter_no_quote to_hex_text_no_quote)
  then show "\<exists>s'. small_target f (write_command a bs) = (GdbDone [], s') \<and> s' = put_cells f a bs"
    by (simp add: small_target_def) (simp add: write_command_def)
qed simp

subsection \<open>Properties\<close>

text \<open>A short answer ends the read, and its bytes do not go through the callback.\<close>

lemma short_chunk_not_called_back:
  assumes "send s (read_command a 4) = (ans, s')" "(case ans of GdbError e \<Rightarrow> Inl e | GdbDone r \<Rightarrow> read_answer a r) = Inr (chunk, 2)"
  shows "read_memory_bytes send cb s a 4 = (Returns chunk, s')"
  using assms by (simp add: read_memory_bytes_def read_loop.simps)

lemma memory_read_request:
  assumes "gdb_memory send mem lo hi" "parse_address ref = Some start"
    and "lo \<le> start + offset" "0 \<le> count" "start + offset + count \<le> hi"
  shows "\<exists>s'. read_memory_request send s ref count offset =
    (ReadBody (format_address (start + offset)) (cells (mem s) (start + offset) count), s') \<and> mem s' = mem s"
proof (cases "count = 0")
  case False
  obtain s' where "read_memory_bytes send no_callback s (start + offset) count = (Returns (cells (mem s) (start + offset) count), s')"
    "mem s' = mem s" by (rule read_memory_bytes_exact[OF assms(1,3,5)])
  with False assms(2) show ?thesis by (simp add: read_memory_request_def Let_def)
qed (use assms(2) in \<open>simp add: read_memory_request_def Let_def\<close>)

text \<open>
  A memory request of any length is answered with exactly the bytes of the target: however many
  chunks it takes they join without a gap or an overlap, and the target is not changed.
\<close>

theorem memory_read_exact:
  assumes "gdb_memory send mem lo hi" "parse_address ref = Some start"
    and "lo \<le> start + offset" "0 \<le> count" "start + offset + count \<le> hi"
  shows "\<exists>s'. read_memory_request send s ref count offset =
    (ReadBody (format_address (start + offset)) (cells (mem s) (start + offset) count), s') \<and> mem s' = mem s"
  by (rule memory_read_request[OF assms])

theorem memory_read_exact_witness:
  "fst (read_memory_request small_target (\<lambda>a. of_int a) ''0x10'' 3 2) = ReadBody ''0x12'' [18, 19, 20]"
proof -
  have p: "parse_address ''0x10'' = Some 16" by code_simp
  have f: "format_address 18 = ''0x12''" "cells of_int 18 3 = [18, 19, 20]" by code_simp+
  from memory_read_exact[OF small_memory p, of 0 2 3 100 "\<lambda>a. of_int a"] f show ?thesis by auto
qed

text \<open>
  C21: What is written is read back. After a write request the answer counts the bytes, a read of the
  same place returns them, and no other byte of the target has changed.
\<close>

theorem memory_write_read:
  assumes "gdb_memory send mem lo hi" "parse_address ref = Some start"
    and "lo \<le> start + offset" "start + offset + int (length data) \<le> hi"
  shows "\<exists>s1 s2. write_memory_request send s ref data offset = (WriteBody (length data), s1) \<and>
    read_memory_request send s1 ref (int (length data)) offset = (ReadBody (format_address (start + offset)) data, s2) \<and>
    (\<forall>x. x < start + offset \<or> start + offset + int (length data) \<le> x \<longrightarrow> mem s2 x = mem s x)"
proof -
  obtain s1 where w: "write_memory_request send s ref data offset = (WriteBody (length data), s1)"
    "mem s1 = put_cells (mem s) (start + offset) data"
  proof (cases "data = []")
    case True
    then have "mem s = put_cells (mem s) (start + offset) data" by (auto simp: put_cells_def fun_eq_iff)
    with True that assms(2) show ?thesis by (simp add: write_memory_request_def Let_def)
  next
    case False
    obtain s' where "send s (write_command (start + offset) data) = (GdbDone [], s')" "mem s' = put_cells (mem s) (start + offset) data"
      by (rule gdb_memory_write[OF assms(1,3) False assms(4)])
    with False that assms(2) show ?thesis by (simp add: write_memory_request_def Let_def)
  qed
  obtain s2 where "read_memory_request send s1 ref (int (length data)) offset =
      (ReadBody (format_address (start + offset)) (cells (mem s1) (start + offset) (int (length data))), s2)" "mem s2 = mem s1"
    using memory_read_request[OF assms(1-3) _ assms(4)] by (metis of_nat_0_le_iff)
  with w show ?thesis by (auto simp: put_cells_def)
qed

theorem memory_write_read_witness:
  "let (r1, s1) = write_memory_request small_target (\<lambda>a. 0) ''20'' [1, 2, 3] 0;
       (r2, s2) = read_memory_request small_target s1 ''20'' 3 0
   in r1 = WriteBody 3 \<and> r2 = ReadBody ''0x14'' [1, 2, 3]"
proof -
  have p: "parse_address ''20'' = Some 20" by code_simp
  have f: "format_address 20 = ''0x14''" by code_simp
  from memory_write_read[OF small_memory p, of 0 0 "[1, 2, 3]" 100 "\<lambda>a. 0"] f show ?thesis by (auto simp: Let_def)
qed

end
