(* ===== verification/Rtt.thy ===== *)
theory Rtt
  imports Memory
begin

text \<open>
  The built-in RTT channels (\<open>adapter/rtt-builtin.ts\<close>): the control block and the buffer descriptors
  in target memory, draining an up buffer through the chunk callback, the write queue and the down
  buffer, the search for the block and one round of the poll.

  A running drain of the write queue is one step; writes that arrive meanwhile meet the busy flag.
  Numbers read from the target are integers. The transport's sockets, the throughput monitor and the
  timers are outside; what is handed to the transport is \<open>rt_out\<close>.
\<close>

record buffer_desc =
  bd_buf :: int
  bd_size :: int
  bd_wr :: int
  bd_rd :: int

record channel =
  ch_in_use :: bool
  ch_pending :: "bytes list"
  ch_buffer :: bytes

record 'g rtt_manager =
  rt_gdb :: 'g
  rt_little :: bool
  rt_found :: bool
  rt_cb_addr :: int
  rt_search :: bytes
  rt_num_rd :: nat
  rt_num_wr :: nat
  rt_channels :: "channel list"
  rt_busy :: bool
  rt_disabled :: bool
  rt_out :: "(nat \<times> bytes) list"
  rt_msgs :: "jstr list"

definition channel_new :: "bool \<Rightarrow> channel" where
  "channel_new used = \<lparr>ch_in_use = used, ch_pending = [], ch_buffer = []\<rparr>"

text \<open>The channels of \<open>start\<close>: all up to the highest one that a decoder asks for.\<close>

definition channels_for :: "nat list \<Rightarrow> channel list" where
  "channels_for nums = (if nums = [] then [] else map (\<lambda>ch. channel_new (ch \<in> set nums)) [0..<Suc (Max (set nums))])"

definition off_buf :: int where "off_buf = 4 - 4"
definition off_size :: int where "off_size = 8 - 4"
definition off_wr :: int where "off_wr = 12 - 4"
definition off_rd :: int where "off_rd = 16 - 4"
definition sizeof_desc :: int where "sizeof_desc = 16"

lemmas offs = off_buf_def off_size_def off_wr_def off_rd_def sizeof_desc_def

definition rt_send :: "('g \<Rightarrow> jstr \<Rightarrow> answer \<times> 'g) \<Rightarrow> 'g rtt_manager \<Rightarrow> jstr \<Rightarrow> answer \<times> 'g rtt_manager" where
  "rt_send gdb m c = (let (a, g) = gdb (rt_gdb m) c in (a, m\<lparr>rt_gdb := g\<rparr>))"

definition rt_msg :: "'g rtt_manager \<Rightarrow> jstr \<Rightarrow> 'g rtt_manager" where
  "rt_msg m w = m\<lparr>rt_msgs := rt_msgs m @ [w]\<rparr>"

definition read_uint32 :: "bool \<Rightarrow> bytes \<Rightarrow> int \<Rightarrow> int option" where
  "read_uint32 little bs i = map_option int (if little then uint32_le bs (nat i) else uint32_be bs (nat i))"

definition read_buffer_desc :: "('g \<Rightarrow> jstr \<Rightarrow> answer \<times> 'g) \<Rightarrow> 'g rtt_manager \<Rightarrow> int \<Rightarrow> buffer_desc settled \<times> 'g rtt_manager" where
  "read_buffer_desc gdb m desc_addr = (case read_memory_bytes (rt_send gdb) no_callback m (desc_addr + 4) sizeof_desc of
     (Returns b, m) \<Rightarrow>
       (case (read_uint32 (rt_little m) b off_buf, read_uint32 (rt_little m) b off_size,
              read_uint32 (rt_little m) b off_wr, read_uint32 (rt_little m) b off_rd) of
          (Some buf, Some sz, Some wr, Some rd) \<Rightarrow>
            (Returns \<lparr>bd_buf = buf, bd_size = sz, bd_wr = wr, bd_rd = rd\<rparr>, m)
        | _ \<Rightarrow> (Rejects range_error, m))
   | (Rejects e, m) \<Rightarrow> (Rejects e, m)
   | (Pends, m) \<Rightarrow> (Pends, m))"

subsection \<open>From the target\<close>

text \<open>
  The callback of a chunk, over the manager and the descriptor it closes over: the chunk is handed
  out, the read offset advances and is written to the target. Its promise is resolved only behind a
  successful write; an exception or a rejection inside its executor leaves it unsettled.
\<close>

definition update_write_for_chunk ::
  "('g \<Rightarrow> jstr \<Rightarrow> answer \<times> 'g) \<Rightarrow> nat \<Rightarrow> int \<Rightarrow> bytes \<Rightarrow> 'g rtt_manager \<times> buffer_desc \<Rightarrow> bool \<times> ('g rtt_manager \<times> buffer_desc)" where
  "update_write_for_chunk gdb ch desc_addr chunk s = (case s of (m, d) \<Rightarrow>
     let m = m\<lparr>rt_out := rt_out m @ [(ch, chunk)]\<rparr>;
         write_value = bd_rd d + int (length chunk);
         d = d\<lparr>bd_rd := write_value mod bd_size d\<rparr>
     in if bd_rd d \<noteq> write_value \<and> write_value > bd_size d then (False, (m, d))
        else case write_word (rt_send gdb) m (desc_addr + 4 + off_rd) (bd_rd d) of
          (Returns _, m) \<Rightarrow> (True, (m, d))
        | (_, m) \<Rightarrow> (False, (m, d)))"

definition chunk_send :: "('g \<Rightarrow> jstr \<Rightarrow> answer \<times> 'g) \<Rightarrow> 'g rtt_manager \<times> buffer_desc \<Rightarrow> jstr \<Rightarrow> answer \<times> ('g rtt_manager \<times> buffer_desc)" where
  "chunk_send gdb s c = (case s of (m, d) \<Rightarrow> let (a, m) = rt_send gdb m c in (a, (m, d)))"

definition show_error :: "nat \<Rightarrow> jstr \<Rightarrow> jstr" where
  "show_error ch e = ''RTT Read error on channel '' @ show_nat ch @ '': '' @ e @ [NL]"

definition up_desc_addr :: "'g rtt_manager \<Rightarrow> nat \<Rightarrow> int" where
  "up_desc_addr m ch = rt_cb_addr m + 24 + int ch * 24"

definition try_drain_from_device :: "('g \<Rightarrow> jstr \<Rightarrow> answer \<times> 'g) \<Rightarrow> 'g rtt_manager \<Rightarrow> nat \<Rightarrow> bytes option settled \<times> 'g rtt_manager" where
  "try_drain_from_device gdb m ch =
     (let desc_addr = up_desc_addr m ch;
          cb = update_write_for_chunk gdb ch desc_addr;
          fail = (\<lambda>e m. (Rejects e, rt_msg m (show_error ch e)))
      in case read_buffer_desc gdb m desc_addr of
           (Rejects e, m) \<Rightarrow> fail e m
         | (Pends, m) \<Rightarrow> (Pends, m)
         | (Returns d, m) \<Rightarrow>
             if bd_wr d = bd_rd d then (Returns None, m)
             else if bd_wr d > bd_rd d then
               (case read_memory_bytes (chunk_send gdb) cb (m, d) (bd_buf d + bd_rd d) (bd_wr d - bd_rd d) of
                  (Returns data, (m, _)) \<Rightarrow> (Returns (Some data), m)
                | (Rejects e, (m, _)) \<Rightarrow> fail e m
                | (Pends, (m, _)) \<Rightarrow> (Pends, m))
             else
               (case read_memory_bytes (chunk_send gdb) cb (m, d) (bd_buf d + bd_rd d) (bd_size d - bd_rd d) of
                  (Rejects e, (m, _)) \<Rightarrow> fail e m
                | (Pends, (m, _)) \<Rightarrow> (Pends, m)
                | (Returns part1, (m, d)) \<Rightarrow>
                    (case read_memory_bytes (chunk_send gdb) cb (m, d) (bd_buf d) (bd_wr d) of
                       (Returns part2, (m, _)) \<Rightarrow> (Returns (Some (part1 @ part2)), m)
                     | (Rejects e, (m, _)) \<Rightarrow> fail e m
                     | (Pends, (m, _)) \<Rightarrow> (Pends, m))))"

subsection \<open>To the target\<close>

text \<open>\<open>buf.subarray(i, j)\<close> and \<open>buf.subarray(i)\<close>: negative indices count from the end.\<close>

definition sub_index :: "int \<Rightarrow> int \<Rightarrow> nat" where
  "sub_index n i = nat (if i < 0 then max 0 (n + i) else min i n)"

definition subarray :: "bytes \<Rightarrow> int \<Rightarrow> int \<Rightarrow> bytes" where
  "subarray bs i j = (let n = int (length bs) in
     take (sub_index n j - sub_index n i) (drop (sub_index n i) bs))"

definition space_available :: "buffer_desc \<Rightarrow> int" where
  "space_available d = (if bd_rd d \<le> bd_wr d
     then bd_size d - bd_wr d + (if bd_rd d > 0 then bd_rd d - 1 else 0)
     else bd_rd d - bd_wr d - 1)"

definition write_part :: "('g \<Rightarrow> jstr \<Rightarrow> answer \<times> 'g) \<Rightarrow> 'g rtt_manager \<Rightarrow> buffer_desc \<Rightarrow> bytes \<Rightarrow> int \<Rightarrow> unit settled \<times> 'g rtt_manager" where
  "write_part gdb m d buf n =
     (if bd_wr d + n \<le> bd_size d
      then write_memory_bytes (rt_send gdb) m (bd_buf d + bd_wr d) (subarray buf 0 n)
      else let first = bd_size d - bd_wr d in
        case write_memory_bytes (rt_send gdb) m (bd_buf d + bd_wr d) (subarray buf 0 first) of
          (Returns _, m) \<Rightarrow> write_memory_bytes (rt_send gdb) m (bd_buf d) (subarray buf first (first + (n - first)))
        | r \<Rightarrow> r)"

text \<open>
  The loop over the write buffer, with the descriptor read before it; \<open>None\<close> is a loop that does not
  end. It returns what is left of the buffer.
\<close>

partial_function (option) drain_loop ::
  "('g \<Rightarrow> jstr \<Rightarrow> answer \<times> 'g) \<Rightarrow> buffer_desc \<Rightarrow> int \<Rightarrow> 'g rtt_manager \<Rightarrow> bytes \<Rightarrow> (unit settled \<times> bytes \<times> 'g rtt_manager) option" where
  "drain_loop gdb d desc_addr m buf =
     (if buf = [] \<or> space_available d = 0 then Some (Returns (), buf, m)
      else let n = min (space_available d) (int (length buf)) in
        case write_part gdb m d buf n of
          (Returns _, m1) \<Rightarrow>
            (let new_wr = bd_wr d + n in
             case write_word (rt_send gdb) m1 (desc_addr + 4 + off_wr) (if new_wr \<ge> bd_size d then new_wr - bd_size d else new_wr) of
               (Returns _, m2) \<Rightarrow> drain_loop gdb d desc_addr m2 (subarray buf n (int (length buf)))
             | (Rejects e, m2) \<Rightarrow> Some (Rejects e, buf, m2)
             | (Pends, m2) \<Rightarrow> Some (Pends, buf, m2))
        | (Rejects e, m1) \<Rightarrow> Some (Rejects e, buf, m1)
        | (Pends, m1) \<Rightarrow> Some (Pends, buf, m1))"

declare drain_loop.simps [code]

definition down_desc_addr :: "'g rtt_manager \<Rightarrow> nat \<Rightarrow> int" where
  "down_desc_addr m ch = rt_cb_addr m + 24 + int (rt_num_rd m) * 24 + int ch * 24"

definition set_buffer :: "nat \<Rightarrow> bytes \<Rightarrow> 'g rtt_manager \<Rightarrow> 'g rtt_manager" where
  "set_buffer ch buf m = m\<lparr>rt_channels := (rt_channels m)[ch := (rt_channels m ! ch)\<lparr>ch_buffer := buf\<rparr>]\<rparr>"

definition drain_write_buffer :: "('g \<Rightarrow> jstr \<Rightarrow> answer \<times> 'g) \<Rightarrow> 'g rtt_manager \<Rightarrow> nat \<Rightarrow> (unit settled \<times> 'g rtt_manager) option" where
  "drain_write_buffer gdb m ch =
     (let desc_addr = down_desc_addr m ch in
      case read_buffer_desc gdb m desc_addr of
        (Rejects e, m) \<Rightarrow> Some (Rejects e, m)
      | (Pends, m) \<Rightarrow> Some (Pends, m)
      | (Returns d, m) \<Rightarrow> map_option (\<lambda>(r, buf, m). (r, set_buffer ch buf m)) (drain_loop gdb d desc_addr m (ch_buffer (rt_channels m ! ch))))"

text \<open>
  \<open>writeToChannel\<close> up to its drain: an exception, nothing to do, or a drain to start.
\<close>

definition write_begin :: "'g rtt_manager \<Rightarrow> nat \<Rightarrow> bytes \<Rightarrow> (jstr + bool) \<times> 'g rtt_manager" where
  "write_begin m ch data =
     (if \<not> rt_found m then (Inl ''Error: RTT Control Block not found. Cannot write data.'', m)
      else if length (rt_channels m) \<le> ch then (Inl ''TypeError'', m)
      else let c = rt_channels m ! ch in
        if data = [] \<and> ch_buffer c = [] then (Inr False, m)
        else let c = c\<lparr>ch_pending := ch_pending c @ [data]\<rparr> in
          if rt_busy m then (Inr False, m\<lparr>rt_channels := (rt_channels m)[ch := c]\<rparr>)
          else (Inr True, m\<lparr>rt_busy := True,
            rt_channels := (rt_channels m)[ch := c\<lparr>ch_buffer := concat (ch_pending c) @ ch_buffer c, ch_pending := []\<rparr>]\<rparr>))"

definition write_error :: "nat \<Rightarrow> jstr \<Rightarrow> jstr" where
  "write_error ch e = ''RTT Write error on channel '' @ show_nat ch @ '': '' @ e @ [NL]"

definition write_drain :: "('g \<Rightarrow> jstr \<Rightarrow> answer \<times> 'g) \<Rightarrow> 'g rtt_manager \<Rightarrow> nat \<Rightarrow> (unit settled \<times> 'g rtt_manager) option" where
  "write_drain gdb m ch = map_option (\<lambda>(r, m). case r of
       Returns _ \<Rightarrow> (Returns (), m\<lparr>rt_busy := False\<rparr>)
     | Rejects e \<Rightarrow> (Rejects e, (rt_msg m (write_error ch e))\<lparr>rt_busy := False\<rparr>)
     | Pends \<Rightarrow> (Pends, m)) (drain_write_buffer gdb m ch)"

definition write_to_channel :: "('g \<Rightarrow> jstr \<Rightarrow> answer \<times> 'g) \<Rightarrow> 'g rtt_manager \<Rightarrow> nat \<Rightarrow> bytes \<Rightarrow> (unit settled \<times> 'g rtt_manager) option" where
  "write_to_channel gdb m ch data = (case write_begin m ch data of
     (Inl e, m) \<Rightarrow> Some (Rejects e, m)
   | (Inr False, m) \<Rightarrow> Some (Returns (), m)
   | (Inr True, m) \<Rightarrow> write_drain gdb m ch)"


subsection \<open>Search and poll\<close>

text \<open>
  \<open>doSearch\<close>. The identification is compared without its null bytes; decoding it as UTF-8 is
  modelled byte by byte.
\<close>

definition search_failed :: "jstr \<Rightarrow> 'g rtt_manager \<Rightarrow> unit settled \<times> 'g rtt_manager" where
  "search_failed e m = (Rejects e,
     if \<not> rt_found m then rt_msg m (''RTT Search error: '' @ e @ [NL])
     else (rt_msg m (''Aborting: Could not read RTT Control Block: '' @ e @ [NL]))\<lparr>rt_disabled := True\<rparr>)"

definition channel_counts :: "('g \<Rightarrow> jstr \<Rightarrow> answer \<times> 'g) \<Rightarrow> 'g rtt_manager \<Rightarrow> unit settled \<times> 'g rtt_manager" where
  "channel_counts gdb m = (case read_memory_bytes (rt_send gdb) no_callback m (rt_cb_addr m + 16) 8 of
     (Rejects e, m) \<Rightarrow> search_failed e m
   | (Pends, m) \<Rightarrow> (Pends, m)
   | (Returns b, m) \<Rightarrow>
       (case read_uint32 (rt_little m) b 0 of
          None \<Rightarrow> search_failed range_error m
        | Some up \<Rightarrow>
            let m = m\<lparr>rt_num_rd := nat up\<rparr> in
            case read_uint32 (rt_little m) b 4 of
              None \<Rightarrow> search_failed range_error m
            | Some down \<Rightarrow>
                let m = m\<lparr>rt_num_wr := nat down\<rparr> in
                if up > 16 \<or> down > 16
                then search_failed ''Error: Aborting RTT setup due to invalid number of channels.''
                  (rt_msg m ''Warning: RTT reported number of channels seems too high.'')
                else (Returns (), m)))"

definition do_search :: "('g \<Rightarrow> jstr \<Rightarrow> answer \<times> 'g) \<Rightarrow> 'g rtt_manager \<Rightarrow> unit settled \<times> 'g rtt_manager" where
  "do_search gdb m = (case read_memory_bytes (rt_send gdb) no_callback m (rt_cb_addr m) 16 of
     (Rejects e, m) \<Rightarrow> search_failed e m
   | (Pends, m) \<Rightarrow> (Pends, m)
   | (Returns b, m) \<Rightarrow>
       if filter (\<lambda>x. x \<noteq> 0) b = rt_search m
       then channel_counts gdb (rt_msg (m\<lparr>rt_found := True\<rparr>) (''RTT Control Block found at 0x'' @ to_hex (rt_cb_addr m)))
       else (Returns (), m))"

text \<open>
  The channels of one poll, in order; the first exception ends it. \<open>False\<close> is a poll that never ends
  and so is never scheduled again, \<open>None\<close> one that loops.
\<close>

fun poll_channels :: "('g \<Rightarrow> jstr \<Rightarrow> answer \<times> 'g) \<Rightarrow> 'g rtt_manager \<Rightarrow> nat list \<Rightarrow> (bool \<times> 'g rtt_manager) option" where
  "poll_channels gdb m [] = Some (True, m)"
| "poll_channels gdb m (ch # chs) =
     (if \<not> ch_in_use (rt_channels m ! ch) then poll_channels gdb m chs
      else case (if ch < rt_num_wr m then drain_write_buffer gdb m ch else Some (Returns (), m)) of
        None \<Rightarrow> None
      | Some (Rejects e, m) \<Rightarrow> Some (True, m)
      | Some (Pends, m) \<Rightarrow> Some (False, m)
      | Some (Returns _, m) \<Rightarrow>
          (case (if ch < rt_num_rd m then try_drain_from_device gdb m ch else (Returns None, m)) of
             (Returns _, m) \<Rightarrow> poll_channels gdb m chs
           | (Rejects e, m) \<Rightarrow> Some (True, m)
           | (Pends, m) \<Rightarrow> Some (False, m)))"

definition do_inner_poll :: "('g \<Rightarrow> jstr \<Rightarrow> answer \<times> 'g) \<Rightarrow> 'g rtt_manager \<Rightarrow> (bool \<times> 'g rtt_manager) option" where
  "do_inner_poll gdb m =
     (if rt_disabled m then Some (True, m)
      else if \<not> rt_found m then (case do_search gdb m of (Pends, m) \<Rightarrow> Some (False, m) | (_, m) \<Rightarrow> Some (True, m))
      else poll_channels gdb m [0..<length (rt_channels m)])"

subsection \<open>What the buffers hold\<close>

definition word_at :: "(int \<Rightarrow> byte) \<Rightarrow> int \<Rightarrow> int" where
  "word_at f a = int (read_u32_le (cells f a 4))"

definition desc_at :: "(int \<Rightarrow> byte) \<Rightarrow> int \<Rightarrow> buffer_desc" where
  "desc_at f a = \<lparr>bd_buf = word_at f (a + 4), bd_size = word_at f (a + 8), bd_wr = word_at f (a + 12), bd_rd = word_at f (a + 16)\<rparr>"

text \<open>The unread bytes of a circular buffer.\<close>

definition ring_content :: "(int \<Rightarrow> byte) \<Rightarrow> buffer_desc \<Rightarrow> bytes" where
  "ring_content f d = (if bd_rd d \<le> bd_wr d then cells f (bd_buf d + bd_rd d) (bd_wr d - bd_rd d)
     else cells f (bd_buf d + bd_rd d) (bd_size d - bd_rd d) @ cells f (bd_buf d) (bd_wr d))"

text \<open>
  A descriptor at \<open>a\<close> and its buffer, both in accessible memory between \<open>lo\<close> and \<open>hi\<close> and apart from each
  other, with offsets inside the buffer.
\<close>

definition ring_ok :: "int \<Rightarrow> int \<Rightarrow> int \<Rightarrow> buffer_desc \<Rightarrow> bool" where
  "ring_ok lo hi a d = (lo \<le> a \<and> a + 24 \<le> hi \<and> lo \<le> bd_buf d \<and> bd_buf d + bd_size d \<le> hi \<and> bd_size d < 2 ^ 32 \<and>
     0 \<le> bd_wr d \<and> bd_wr d < bd_size d \<and> 0 \<le> bd_rd d \<and> bd_rd d < bd_size d \<and>
     (bd_buf d + bd_size d \<le> a \<or> a + 24 \<le> bd_buf d))"

lemma drop_cells: "drop i (cells f a n) = cells f (a + int i) (n - int i)"
  by (rule nth_equalityI) (auto simp: nth_cells algebra_simps)

lemma read_u32_take: "4 \<le> length bs \<Longrightarrow> read_u32_le bs = read_u32_le (take 4 bs)"
  by (cases bs rule: read_u32_le.cases) auto

lemma take_cells: "int i \<le> n \<Longrightarrow> take i (cells f a n) = cells f a (int i)"
  by (rule nth_equalityI) (auto simp: nth_cells)

lemma uint32_cells: "0 \<le> i \<Longrightarrow> i + 4 \<le> n \<Longrightarrow> uint32_le (cells f a n) (nat i) = Some (nat (word_at f (a + i)))"
  using read_u32_take[of "cells f (a + i) (n - i)"] by (simp add: uint32_le_def drop_cells word_at_def take_cells)

lemma word_nonneg [simp]: "0 \<le> word_at f a"
  by (simp add: word_at_def)

lemma word_put: "0 \<le> v \<Longrightarrow> v < 2 ^ 32 \<Longrightarrow> word_at (put_cells f a (write_u32_le (nat v))) a = v"
proof -
  assume v: "0 \<le> v" "v < 2 ^ 32"
  have "length (write_u32_le (nat v)) = 4" by (simp add: write_u32_le_def)
  then have "cells (put_cells f a (write_u32_le (nat v))) a 4 = write_u32_le (nat v)"
    using cells_put[of f a "write_u32_le (nat v)"] by simp
  with v read_write_u32[of "nat v" "[]"] show ?thesis by (simp add: word_at_def)
qed

lemma cells_put_apart: "a + n \<le> b \<or> b + int (length bs) \<le> a \<Longrightarrow> cells (put_cells f b bs) a n = cells f a n"
  by (rule cells_cong) (auto simp: put_cells_def)

lemma word_put_apart: "a + 4 \<le> b \<or> b + int (length bs) \<le> a \<Longrightarrow> word_at (put_cells f b bs) a = word_at f a"
  by (simp add: word_at_def cells_put_apart)

lemma put_put: "length bs = length bs' \<Longrightarrow> put_cells (put_cells f a bs) a bs' = put_cells f a bs'"
  by (auto simp: put_cells_def fun_eq_iff)

text \<open>The contract of the target's memory carries over to the states that contain GDB.\<close>

lemma rt_send_memory: "gdb_memory gdb mem lo hi \<Longrightarrow> gdb_memory (rt_send gdb) (\<lambda>m. mem (rt_gdb m)) lo hi"
  unfolding gdb_memory_def rt_send_def by (auto simp: Let_def split: prod.splits) (metis fst_conv snd_conv)+

lemma chunk_send_memory: "gdb_memory gdb mem lo hi \<Longrightarrow> gdb_memory (chunk_send gdb) (\<lambda>s. mem (rt_gdb (fst s))) lo hi"
  unfolding gdb_memory_def rt_send_def chunk_send_def by (auto simp: Let_def split: prod.splits) (metis fst_conv snd_conv)+

subsection \<open>Draining\<close>

definition handed_out :: "nat \<Rightarrow> (nat \<times> bytes) list \<Rightarrow> bytes" where
  "handed_out ch out = concat (map snd (filter (\<lambda>(c, _). c = ch) out))"

lemma handed_out_append [simp]: "handed_out ch (o1 @ o2) = handed_out ch o1 @ handed_out ch o2"
  by (simp add: handed_out_def)

text \<open>Everything but what GDB and the transport were given.\<close>

definition same_channels :: "'g rtt_manager \<Rightarrow> 'g rtt_manager \<Rightarrow> bool" where
  "same_channels m m' = (rt_little m' = rt_little m \<and> rt_found m' = rt_found m \<and> rt_cb_addr m' = rt_cb_addr m \<and>
     rt_num_rd m' = rt_num_rd m \<and> rt_num_wr m' = rt_num_wr m \<and> rt_channels m' = rt_channels m \<and>
     rt_busy m' = rt_busy m \<and> rt_disabled m' = rt_disabled m)"

lemma same_channels_refl [simp]: "same_channels m m"
  by (simp add: same_channels_def)

lemma same_channels_trans: "same_channels m m1 \<Longrightarrow> same_channels m1 m2 \<Longrightarrow> same_channels m m2"
  by (simp add: same_channels_def)

lemma rt_send_same: "rt_send gdb m c = (a, m') \<Longrightarrow> same_channels m m' \<and> rt_out m' = rt_out m"
  by (auto simp: rt_send_def same_channels_def split: prod.splits)

lemma write_memory_same: "write_memory_bytes (rt_send gdb) m a bs = (r, m') \<Longrightarrow> same_channels m m' \<and> rt_out m' = rt_out m"
  using rt_send_same[of gdb m] by (auto simp: write_memory_bytes_def split: if_splits prod.splits answer.splits)

lemma write_word_stores:
  assumes "gdb_memory gdb mem lo hi" "lo \<le> a" "a + 4 \<le> hi" "0 \<le> v" "v < 2 ^ 32"
  obtains m' where "write_word (rt_send gdb) m a v = (Returns (), m')"
    "mem (rt_gdb m') = put_cells (mem (rt_gdb m)) a (write_u32_le (nat v))" "same_channels m m'" "rt_out m' = rt_out m"
proof -
  have "length (write_u32_le (nat v)) = 4" by (simp add: write_u32_le_def)
  then have hi: "a + int (length (write_u32_le (nat v))) \<le> hi" using assms(3) by simp
  obtain m' where w: "write_memory_bytes (rt_send gdb) m a (write_u32_le (nat v)) = (Returns (), m')"
    "mem (rt_gdb m') = put_cells (mem (rt_gdb m)) a (write_u32_le (nat v))"
    by (rule write_memory_stores[OF rt_send_memory[OF assms(1)] assms(2) hi])
  with write_memory_same[OF w(1)] assms(4,5) that show ?thesis by (simp add: write_word_def)
qed

text \<open>
  A read of \<open>n\<close> bytes from the read offset \<open>rd\<close> that stays inside the buffer: the bytes are returned
  and handed out, the read offset in the target is behind them, the rest of the target is as before.
\<close>

definition rd_stored :: "(int \<Rightarrow> byte) \<Rightarrow> int \<Rightarrow> bytes \<Rightarrow> int \<Rightarrow> int \<Rightarrow> byte" where
  "rd_stored f a r v = (if r = [] then f else put_cells f (a + 16) (write_u32_le (nat v)))"

definition drained where
  "drained mem f a ch m d r s = (case s of (m', d') \<Rightarrow>
     same_channels m m' \<and> d' = d\<lparr>bd_rd := (bd_rd d + int (length r)) mod bd_size d\<rparr> \<and>
     handed_out ch (rt_out m') = handed_out ch (rt_out m) @ r \<and> mem (rt_gdb m') = rd_stored f a r (bd_rd d'))"

lemma drain_segment:
  assumes gm: "gdb_memory gdb mem lo hi" and ok: "ring_ok lo hi a d" and n: "0 \<le> n" "bd_rd d + n \<le> bd_size d"
  obtains m' d' where
    "read_memory_bytes (chunk_send gdb) (update_write_for_chunk gdb ch a) (m, d) (bd_buf d + bd_rd d) n =
       (Returns (cells (mem (rt_gdb m)) (bd_buf d + bd_rd d) n), (m', d'))"
    "drained mem (mem (rt_gdb m)) a ch m d (cells (mem (rt_gdb m)) (bd_buf d + bd_rd d) n) (m', d')"
proof -
  let ?f = "mem (rt_gdb m)" and ?x = "bd_buf d + bd_rd d"
  let ?I = "drained mem ?f a ch m d"
  note r = ok[unfolded ring_ok_def]
  have apart: "cells (rd_stored ?f a u v) ?x n = cells ?f ?x n" for u v
    using r n by (auto simp: rd_stored_def write_u32_le_def intro!: cells_put_apart)
  obtain s' where "read_memory_bytes (chunk_send gdb) (update_write_for_chunk gdb ch a) (m, d) ?x n = (Returns (cells ?f ?x n), s')"
    "?I (cells ?f ?x n) s'"
  proof (rule read_memory_invariant[OF chunk_send_memory[OF gm], where I = ?I and f = ?f and s = "(m, d)" and a = ?x and len = n
        and cb = "update_write_for_chunk gdb ch a"])
    show "lo \<le> ?x" "?x + n \<le> hi" using r n by auto
    show "?I [] (m, d)" using r by (simp add: drained_def rd_stored_def)
    fix r s assume i: "?I r s"
    then show "cells (mem (rt_gdb (fst s))) ?x n = cells ?f ?x n" by (auto simp: drained_def apart)
    show "?I r s'" if "chunk_send gdb s (read_command x n') = (ans, s')" "mem (rt_gdb (fst s')) = mem (rt_gdb (fst s))" for x n' ans s'
    proof -
      obtain m1 d1 where s: "s = (m1, d1)" by force
      with that(1) obtain m2 where m2: "rt_send gdb m1 (read_command x n') = (ans, m2)" "s' = (m2, d1)"
        by (auto simp: chunk_send_def split: prod.splits)
      with rt_send_same[OF m2(1)] i that(2) s show ?thesis by (auto simp: drained_def intro: same_channels_trans)
    qed
    fix chunk assume c: "int (length (r @ chunk)) \<le> n" "chunk \<noteq> []" "length chunk \<le> 512"
    obtain m1 d1 where s: "s = (m1, d1)" by force
    with i have i1: "same_channels m m1" "d1 = d\<lparr>bd_rd := (bd_rd d + int (length r)) mod bd_size d\<rparr>"
      "handed_out ch (rt_out m1) = handed_out ch (rt_out m) @ r" "mem (rt_gdb m1) = rd_stored ?f a r (bd_rd d1)"
      by (auto simp: drained_def)
    have lt: "bd_rd d + int (length r) < bd_size d" using c n(2) by (auto simp flip: length_greater_0_conv)
    then have rd: "bd_rd d1 = bd_rd d + int (length r)" using ok i1(2) by (simp add: ring_ok_def)
    let ?v = "(bd_rd d1 + int (length chunk)) mod bd_size d"
    have v: "0 \<le> ?v" "?v < 2 ^ 32" "bd_rd d1 + int (length chunk) \<le> bd_size d"
      using ok c n rd by (auto simp: ring_ok_def intro: order.strict_trans[OF pos_mod_bound])
    let ?m = "m1\<lparr>rt_out := rt_out m1 @ [(ch, chunk)]\<rparr>"
    have ad: "lo \<le> a + 4 + off_rd" "a + 4 + off_rd + 4 \<le> hi" using ok by (auto simp: ring_ok_def off_rd_def)
    obtain m2 where w: "write_word (rt_send gdb) ?m (a + 4 + off_rd) ?v = (Returns (), m2)"
      "mem (rt_gdb m2) = put_cells (mem (rt_gdb ?m)) (a + 4 + off_rd) (write_u32_le (nat ?v))" "same_channels ?m m2" "rt_out m2 = rt_out ?m"
      by (rule write_word_stores[OF gm ad v(1,2)])
    have e: "update_write_for_chunk gdb ch a chunk s = (True, (m2, d1\<lparr>bd_rd := ?v\<rparr>))"
      using w(1) v(3) i1(2) by (simp add: update_write_for_chunk_def s Let_def)
    have "mem (rt_gdb m2) = rd_stored ?f a (r @ chunk) ?v"
      using w(2) i1(4) c(2) by (simp add: rd_stored_def off_rd_def put_put write_u32_le_def algebra_simps)
    moreover have "handed_out ch (rt_out m2) = handed_out ch (rt_out m) @ r @ chunk"
      using w(4) i1(3) by (simp add: handed_out_def)
    moreover have "same_channels m m2" using i1(1) w(3) by (simp add: same_channels_def)
    ultimately show "fst (update_write_for_chunk gdb ch a chunk s) \<and> ?I (r @ chunk) (snd (update_write_for_chunk gdb ch a chunk s))"
      using e i1(2) rd by (simp add: drained_def algebra_simps)
  qed
  with that show ?thesis by (cases s') auto
qed

lemma read_bytes_same:
  assumes "gdb_memory gdb mem lo hi" "lo \<le> a" "a + n \<le> hi"
  obtains m' where "read_memory_bytes (rt_send gdb) no_callback m a n = (Returns (cells (mem (rt_gdb m)) a n), m')"
    "mem (rt_gdb m') = mem (rt_gdb m)" "same_channels m m'" "rt_out m' = rt_out m"
proof -
  let ?I = "\<lambda>(_::bytes) m'. same_channels m m' \<and> rt_out m' = rt_out m \<and> mem (rt_gdb m') = mem (rt_gdb m)"
  obtain m' where "read_memory_bytes (rt_send gdb) no_callback m a n = (Returns (cells (mem (rt_gdb m)) a n), m')"
    "?I (cells (mem (rt_gdb m)) a n) m'"
    by (rule read_memory_invariant[OF rt_send_memory[OF assms(1)] assms(2,3), where I = ?I and f = "mem (rt_gdb m)" and s = m and cb = no_callback])
      (auto simp: no_callback_def dest: rt_send_same intro: same_channels_trans)
  with that show ?thesis by blast
qed

lemma read_desc:
  assumes "gdb_memory gdb mem lo hi" "lo \<le> a" "a + 24 \<le> hi" "rt_little m"
  obtains m' where "read_buffer_desc gdb m a = (Returns (desc_at (mem (rt_gdb m)) a), m')"
    "mem (rt_gdb m') = mem (rt_gdb m)" "same_channels m m'" "rt_out m' = rt_out m"
proof -
  let ?f = "mem (rt_gdb m)"
  have b: "lo \<le> a + 4" "a + 4 + sizeof_desc \<le> hi" using assms by (auto simp: sizeof_desc_def)
  obtain m' where r: "read_memory_bytes (rt_send gdb) no_callback m (a + 4) sizeof_desc = (Returns (cells ?f (a + 4) sizeof_desc), m')"
    "mem (rt_gdb m') = ?f" "same_channels m m'" "rt_out m' = rt_out m" by (rule read_bytes_same[OF assms(1) b])
  have "read_uint32 (rt_little m') (cells ?f (a + 4) sizeof_desc) i = Some (word_at ?f (a + 4 + i))" if "0 \<le> i" "i \<le> 12" for i
    using uint32_cells[of i sizeof_desc ?f "a + 4"] that assms(4) r(3) by (simp add: read_uint32_def sizeof_desc_def same_channels_def)
  then have "read_buffer_desc gdb m a = (Returns (desc_at ?f a), m')"
    using r(1) by (simp add: read_buffer_desc_def desc_at_def off_buf_def off_size_def off_wr_def off_rd_def add.commute)
  with r that show ?thesis by blast
qed

lemma rd_stored_desc:
  "r \<noteq> [] \<Longrightarrow> 0 \<le> v \<Longrightarrow> v < 2 ^ 32 \<Longrightarrow> desc_at (rd_stored f a r v) a = (desc_at f a)\<lparr>bd_rd := v\<rparr>"
  by (simp add: rd_stored_def desc_at_def word_put) (simp add: word_put_apart write_u32_le_def)

lemma rd_stored_apart: "x < a + 16 \<or> a + 20 \<le> x \<Longrightarrow> rd_stored f a r v x = f x"
  by (auto simp: rd_stored_def put_cells_def write_u32_le_def)

lemma try_drain:
  assumes gm: "gdb_memory gdb mem lo hi" and lit: "rt_little m"
    and a: "a = up_desc_addr m ch" and d: "d = desc_at (mem (rt_gdb m)) a" and ok: "ring_ok lo hi a d"
  shows "\<exists>m'. try_drain_from_device gdb m ch = (Returns (if ring_content (mem (rt_gdb m)) d = [] then None else Some (ring_content (mem (rt_gdb m)) d)), m') \<and>
    handed_out ch (rt_out m') = handed_out ch (rt_out m) @ ring_content (mem (rt_gdb m)) d \<and> same_channels m m' \<and>
    desc_at (mem (rt_gdb m')) a = d\<lparr>bd_rd := bd_wr d\<rparr> \<and>
    (\<forall>x. x < a + 16 \<or> a + 20 \<le> x \<longrightarrow> mem (rt_gdb m') x = mem (rt_gdb m) x)"
proof -
  let ?f = "mem (rt_gdb m)"
  note b = ok[unfolded ring_ok_def]
  obtain m1 where 1: "read_buffer_desc gdb m a = (Returns d, m1)" "mem (rt_gdb m1) = ?f" "same_channels m m1" "rt_out m1 = rt_out m"
    using read_desc[OF gm _ _ lit, of a] b d by metis
  consider "bd_wr d = bd_rd d" | "bd_wr d > bd_rd d" | "bd_wr d < bd_rd d" by linarith
  then show ?thesis
  proof cases
    case 1: 1
    with \<open>read_buffer_desc gdb m a = _\<close> \<open>mem (rt_gdb m1) = ?f\<close> \<open>same_channels m m1\<close> \<open>rt_out m1 = _\<close> a d show ?thesis
      by (intro exI[of _ m1]) (auto simp: try_drain_from_device_def ring_content_def Let_def)
  next
    case 2
    let ?n = "bd_wr d - bd_rd d"
    have n: "0 \<le> ?n" "bd_rd d + ?n \<le> bd_size d" using 2 b by auto
    obtain m' d' where s: "read_memory_bytes (chunk_send gdb) (update_write_for_chunk gdb ch a) (m1, d) (bd_buf d + bd_rd d) ?n =
        (Returns (cells ?f (bd_buf d + bd_rd d) ?n), (m', d'))"
      "drained mem ?f a ch m1 d (cells ?f (bd_buf d + bd_rd d) ?n) (m', d')"
      by (rule drain_segment[OF gm ok n, where m = m1, unfolded 1(2)])
    have ne: "cells ?f (bd_buf d + bd_rd d) ?n \<noteq> []" using 2 by (simp flip: length_0_conv)
    have rd: "bd_rd d' = bd_wr d" using s(2) b 2 by (auto simp: drained_def)
    show ?thesis
      using 1(1,3,4) s 2 ne rd b d a rd_stored_desc[OF ne, of "bd_wr d" ?f a]
      by (intro exI[of _ m'])
        (auto simp: try_drain_from_device_def ring_content_def Let_def drained_def rd_stored_apart intro: same_channels_trans)
  next
    case 3
    let ?n = "bd_size d - bd_rd d"
    have n: "0 \<le> ?n" "bd_rd d + ?n \<le> bd_size d" using b by auto
    obtain m2 d2 where s: "read_memory_bytes (chunk_send gdb) (update_write_for_chunk gdb ch a) (m1, d) (bd_buf d + bd_rd d) ?n =
        (Returns (cells ?f (bd_buf d + bd_rd d) ?n), (m2, d2))"
      "drained mem ?f a ch m1 d (cells ?f (bd_buf d + bd_rd d) ?n) (m2, d2)"
      by (rule drain_segment[OF gm ok n, where m = m1, unfolded 1(2)])
    have ne: "cells ?f (bd_buf d + bd_rd d) ?n \<noteq> []" using b by (simp flip: length_0_conv)
    have d2: "d2 = d\<lparr>bd_rd := 0\<rparr>" using s(2) b by (auto simp: drained_def)
    have f2: "mem (rt_gdb m2) = rd_stored ?f a (cells ?f (bd_buf d + bd_rd d) ?n) 0" using s(2) d2 by (simp add: drained_def)
    have ok2: "ring_ok lo hi a d2" and n2: "0 \<le> bd_wr d" "bd_rd d2 + bd_wr d \<le> bd_size d2" using b unfolding d2 by (auto simp: ring_ok_def)
    have same: "cells (mem (rt_gdb m2)) (bd_buf d) (bd_wr d) = cells ?f (bd_buf d) (bd_wr d)"
      by (rule cells_cong) (use b in \<open>auto simp: f2 intro!: rd_stored_apart\<close>)
    obtain m3 d3 where t: "read_memory_bytes (chunk_send gdb) (update_write_for_chunk gdb ch a) (m2, d2) (bd_buf d) (bd_wr d) =
        (Returns (cells ?f (bd_buf d) (bd_wr d)), (m3, d3))"
      "drained mem (mem (rt_gdb m2)) a ch m2 d2 (cells ?f (bd_buf d) (bd_wr d)) (m3, d3)"
      using drain_segment[OF gm ok2 n2, where m = m2 and ch = ch, unfolded d2] d2 same by auto
    let ?r = "cells ?f (bd_buf d) (bd_wr d)"
    have d3: "bd_rd d3 = bd_wr d" using t(2) b by (auto simp: drained_def d2)
    have f3: "mem (rt_gdb m3) = rd_stored ?f a (cells ?f (bd_buf d + bd_rd d) ?n @ ?r) (bd_wr d)"
    proof (cases "?r = []")
      case True
      then have "bd_wr d = 0" using b by (auto simp flip: length_0_conv)
      with t(2) True f2 ne show ?thesis by (simp add: drained_def rd_stored_def)
    next
      case False
      with t(2) d3 f2 ne show ?thesis by (simp add: drained_def rd_stored_def put_put write_u32_le_def)
    qed
    let ?c = "cells ?f (bd_buf d + bd_rd d) ?n @ ?r"
    have c: "ring_content ?f d = ?c" "?c \<noteq> []" using 3 ne by (simp_all add: ring_content_def)
    have "try_drain_from_device gdb m ch = (Returns (Some ?c), m3)"
      using 1(1) s(1) t(1) 3 a d2 by (simp add: try_drain_from_device_def Let_def)
    moreover have "handed_out ch (rt_out m3) = handed_out ch (rt_out m) @ ?c" "same_channels m m3"
      using s(2) t(2) 1(3,4) by (auto simp: drained_def intro: same_channels_trans)
    moreover have "desc_at (mem (rt_gdb m3)) a = d\<lparr>bd_rd := bd_wr d\<rparr>"
      unfolding f3 using rd_stored_desc[OF c(2)] b d by simp
    moreover have "\<forall>x. x < a + 16 \<or> a + 20 \<le> x \<longrightarrow> mem (rt_gdb m3) x = ?f x"
      unfolding f3 using rd_stored_apart by blast
    ultimately show ?thesis unfolding c(1) using c(2) by (intro exI[of _ m3]) simp
  qed
qed

subsection \<open>Writing\<close>

lemma subarray_eq: "0 \<le> i \<Longrightarrow> i \<le> j \<Longrightarrow> j \<le> int (length bs) \<Longrightarrow> subarray bs i j = take (nat (j - i)) (drop (nat i) bs)"
  by (simp add: subarray_def sub_index_def Let_def nat_diff_distrib)

text \<open>
  The bytes fit into the free space the code computes (\<open>enough\<close>), and do not fill the buffer up to a
  read offset of 0 (\<open>fits\<close>).
\<close>

definition enough :: "buffer_desc \<Rightarrow> bytes \<Rightarrow> bool" where
  "enough d bs = (int (length bs) \<le> space_available d)"

definition fits :: "buffer_desc \<Rightarrow> bytes \<Rightarrow> bool" where
  "fits d bs = (enough d bs \<and> (bd_rd d > 0 \<or> bd_wr d + int (length bs) < bd_size d))"

definition wr_after :: "buffer_desc \<Rightarrow> bytes \<Rightarrow> int" where
  "wr_after d bs = (let new_wr = bd_wr d + int (length bs) in if new_wr \<ge> bd_size d then new_wr - bd_size d else new_wr)"

definition part_stored :: "(int \<Rightarrow> byte) \<Rightarrow> buffer_desc \<Rightarrow> bytes \<Rightarrow> int \<Rightarrow> byte" where
  "part_stored f d bs = (let first = nat (bd_size d - bd_wr d) in
     if bd_wr d + int (length bs) \<le> bd_size d then put_cells f (bd_buf d + bd_wr d) bs
     else put_cells (put_cells f (bd_buf d + bd_wr d) (take first bs)) (bd_buf d) (drop first bs))"

lemma fits_bounds:
  assumes "ring_ok lo hi a d" "enough d bs" "bd_wr d + int (length bs) > bd_size d"
  shows "bd_rd d \<le> bd_wr d" "bd_wr d + int (length bs) - bd_size d < bd_rd d"
  using assms by (auto simp: ring_ok_def enough_def space_available_def split: if_splits)

lemma write_part_stores:
  assumes gm: "gdb_memory gdb mem lo hi" and ok: "ring_ok lo hi a d" and fit: "enough d bs"
  obtains m' where "write_part gdb m d bs (int (length bs)) = (Returns (), m')"
    "mem (rt_gdb m') = part_stored (mem (rt_gdb m)) d bs" "same_channels m m'" "rt_out m' = rt_out m"
proof (cases "bd_wr d + int (length bs) \<le> bd_size d")
  case True
  have lo: "lo \<le> bd_buf d + bd_wr d" and hi: "bd_buf d + bd_wr d + int (length bs) \<le> hi" using ok True by (auto simp: ring_ok_def)
  obtain m' where w: "write_memory_bytes (rt_send gdb) m (bd_buf d + bd_wr d) bs = (Returns (), m')"
    "mem (rt_gdb m') = put_cells (mem (rt_gdb m)) (bd_buf d + bd_wr d) bs"
    by (rule write_memory_stores[OF rt_send_memory[OF gm] lo hi])
  with True that write_memory_same[OF w(1)] show ?thesis by (simp add: write_part_def subarray_eq part_stored_def)
next
  case False
  let ?k = "bd_size d - bd_wr d" and ?n = "int (length bs)"
  note b = fits_bounds[OF ok fit] False
  have k: "0 \<le> ?k" "?k \<le> ?n" "int (length (take (nat ?k) bs)) = ?k" using ok b by (auto simp: ring_ok_def)
  have lo: "lo \<le> bd_buf d + bd_wr d" and hi: "bd_buf d + bd_wr d + int (length (take (nat ?k) bs)) \<le> hi"
    using ok b k by (auto simp: ring_ok_def)
  obtain m1 where w: "write_memory_bytes (rt_send gdb) m (bd_buf d + bd_wr d) (take (nat ?k) bs) = (Returns (), m1)"
    "mem (rt_gdb m1) = put_cells (mem (rt_gdb m)) (bd_buf d + bd_wr d) (take (nat ?k) bs)"
    by (rule write_memory_stores[OF rt_send_memory[OF gm] lo hi])
  have lo2: "lo \<le> bd_buf d" and hi2: "bd_buf d + int (length (drop (nat ?k) bs)) \<le> hi"
    using ok b k by (auto simp: ring_ok_def)
  obtain m2 where w2: "write_memory_bytes (rt_send gdb) m1 (bd_buf d) (drop (nat ?k) bs) = (Returns (), m2)"
    "mem (rt_gdb m2) = put_cells (mem (rt_gdb m1)) (bd_buf d) (drop (nat ?k) bs)"
    by (rule write_memory_stores[OF rt_send_memory[OF gm] lo2 hi2])
  have "subarray bs 0 ?k = take (nat ?k) bs" "subarray bs ?k (?k + (?n - ?k)) = drop (nat ?k) bs"
    using k(1,2) by (simp_all add: subarray_eq)
  with w w2 False have "write_part gdb m d bs ?n = (Returns (), m2)" by (simp add: write_part_def)
  moreover have "mem (rt_gdb m2) = part_stored (mem (rt_gdb m)) d bs" using w w2 False by (simp add: part_stored_def Let_def)
  ultimately show ?thesis using that write_memory_same[OF w(1)] write_memory_same[OF w2(1)] same_channels_trans by metis
qed

text \<open>The unread bytes after the write: those before, then the new ones.\<close>

lemma ring_written:
  assumes ok: "ring_ok lo hi a d" and fit: "fits d bs" and g: "\<And>x. bd_buf d \<le> x \<Longrightarrow> x < bd_buf d + bd_size d \<Longrightarrow> g x = part_stored f d bs x"
  shows "ring_content g (d\<lparr>bd_wr := wr_after d bs\<rparr>) = ring_content f d @ bs"
proof -
  let ?n = "int (length bs)" and ?b = "bd_buf d" and ?w = "bd_wr d" and ?r = "bd_rd d" and ?s = "bd_size d"
  note o = ok[unfolded ring_ok_def]
  have enough: "enough d bs" using fit by (simp add: fits_def)
  have gc: "cells g x k = cells (part_stored f d bs) x k" if "?b \<le> x" "x + k \<le> ?b + ?s" for x k
    by (rule cells_cong) (use that g in auto)
  show ?thesis
  proof (cases "?w + ?n \<le> ?s")
    case True
    then have p: "part_stored f d bs = put_cells f (?b + ?w) bs" by (simp add: part_stored_def)
    have new: "cells g (?b + ?w) ?n = bs" using gc[of "?b + ?w" ?n] True o by (simp add: p)
    have old: "cells g x k = cells f x k" if "?b \<le> x" "x + k \<le> ?b + ?s" "x + k \<le> ?b + ?w \<or> ?b + ?w + ?n \<le> x" for x k
      using gc[OF that(1,2)] that(3) by (simp add: p cells_put_apart)
    show ?thesis
    proof (cases "?r \<le> ?w")
      case le: True
      have "cells g (?b + ?r) (?w - ?r) @ cells g (?b + ?w) ?n = cells g (?b + ?r) (?w + ?n - ?r)"
        using cells_append[of "?w - ?r" ?n g "?b + ?r"] le by (simp add: algebra_simps)
      moreover have "cells g (?b + ?r) (?w - ?r) = cells f (?b + ?r) (?w - ?r)" using old[of "?b + ?r" "?w - ?r"] o le by simp
      ultimately show ?thesis using le new o fit True
        by (cases "?w + ?n = ?s") (auto simp: ring_content_def wr_after_def Let_def fits_def)
    next
      case gt: False
      then have f: "?w + ?n < ?r" using fit by (simp add: fits_def enough_def space_available_def)
      have "cells g ?b ?w @ cells g (?b + ?w) ?n = cells g ?b (?w + ?n)" using cells_append[of ?w ?n g ?b] o by simp
      moreover have "cells g ?b ?w = cells f ?b ?w" "cells g (?b + ?r) (?s - ?r) = cells f (?b + ?r) (?s - ?r)"
        using old[of ?b ?w] old[of "?b + ?r" "?s - ?r"] o f True by auto
      ultimately show ?thesis using gt new o f True by (auto simp: ring_content_def wr_after_def Let_def)
    qed
  next
    case False
    let ?k = "?s - ?w"
    let ?f1 = "put_cells f (?b + ?w) (take (nat ?k) bs)"
    have p: "part_stored f d bs = put_cells ?f1 ?b (drop (nat ?k) bs)" using False by (simp add: part_stored_def Let_def)
    have bd: "?r \<le> ?w" "?w + ?n - ?s < ?r" using fits_bounds[OF ok enough] False by auto
    have k: "0 \<le> ?k" "?k \<le> ?n" "int (length (take (nat ?k) bs)) = ?k" "int (length (drop (nat ?k) bs)) = ?n - ?k"
      using o False by auto
    have t1: "cells g ?b (?n - ?k) = drop (nat ?k) bs"
      using gc[of ?b "?n - ?k"] bd o k cells_put[of ?f1 ?b "drop (nat ?k) bs"] by (simp add: p)
    have t2: "cells g (?b + ?w) ?k = take (nat ?k) bs"
      using gc[of "?b + ?w" ?k] bd o k cells_put[of f "?b + ?w" "take (nat ?k) bs"] by (simp add: p cells_put_apart)
    have t3: "cells g (?b + ?r) (?w - ?r) = cells f (?b + ?r) (?w - ?r)"
      using gc[of "?b + ?r" "?w - ?r"] bd o k by (simp add: p cells_put_apart)
    have "cells g (?b + ?r) (?w - ?r) @ cells g (?b + ?w) ?k = cells g (?b + ?r) (?s - ?r)"
      using cells_append[of "?w - ?r" ?k g "?b + ?r"] bd k by (simp add: algebra_simps)
    then have "cells g (?b + ?r) (?s - ?r) @ cells g ?b (?n - ?k) = cells f (?b + ?r) (?w - ?r) @ bs"
      unfolding t1 t2 t3 by (metis append_assoc append_take_drop_id)
    moreover have "?n - ?k = ?w + ?n - ?s" by simp
    ultimately show ?thesis using bd False by (simp add: ring_content_def wr_after_def Let_def)
  qed
qed

lemma wr_after_bounds: "ring_ok lo hi a d \<Longrightarrow> enough d bs \<Longrightarrow> 0 \<le> wr_after d bs \<and> wr_after d bs < bd_size d"
  by (auto simp: ring_ok_def enough_def wr_after_def Let_def space_available_def split: if_splits)

lemma part_stored_apart: "ring_ok lo hi a d \<Longrightarrow> enough d bs \<Longrightarrow> x < bd_buf d \<or> bd_buf d + bd_size d \<le> x \<Longrightarrow> part_stored f d bs x = f x"
  using fits_bounds[of lo hi a d bs] by (auto simp: part_stored_def put_cells_def ring_ok_def Let_def)

lemma desc_put_wr:
  "0 \<le> v \<Longrightarrow> v < 2 ^ 32 \<Longrightarrow> desc_at (put_cells f (a + 12) (write_u32_le (nat v))) a = (desc_at f a)\<lparr>bd_wr := v\<rparr>"
  by (simp add: desc_at_def word_put) (simp add: word_put_apart write_u32_le_def)

lemma write_part_prefix: "write_part gdb m d (b1 @ b2) (int (length b1)) = write_part gdb m d b1 (int (length b1))"
  if "0 \<le> bd_size d - bd_wr d"
proof -
  have "subarray (b1 @ b2) i j = subarray b1 i j" if "0 \<le> i" "i \<le> j" "j \<le> int (length b1)" for i j
    using that by (simp add: subarray_eq)
  show ?thesis
  proof (cases "bd_wr d + int (length b1) \<le> bd_size d")
    case False
    let ?k = "bd_size d - bd_wr d"
    have "subarray (b1 @ b2) 0 ?k = subarray b1 0 ?k"
      "subarray (b1 @ b2) ?k (?k + (int (length b1) - ?k)) = subarray b1 ?k (?k + (int (length b1) - ?k))"
      using False that by (simp_all add: subarray_eq)
    with False show ?thesis by (simp only: write_part_def Let_def if_False)
  qed (simp add: write_part_def subarray_eq)
qed

text \<open>One round of the loop.\<close>

lemma drain_round:
  assumes gm: "gdb_memory gdb mem lo hi" and ok: "ring_ok lo hi a d" and fit: "enough d b1" "b1 \<noteq> []"
    and n: "b2 = [] \<or> space_available d = int (length b1)"
  obtains m3 where "drain_loop gdb d a m (b1 @ b2) = drain_loop gdb d a m3 b2"
    "mem (rt_gdb m3) = put_cells (part_stored (mem (rt_gdb m)) d b1) (a + 12) (write_u32_le (nat (wr_after d b1)))"
    "same_channels m m3" "rt_out m3 = rt_out m"
proof -
  note o = ok[unfolded ring_ok_def]
  let ?n = "int (length b1)" and ?v = "wr_after d b1"
  have sp: "space_available d \<noteq> 0" "min (space_available d) (int (length (b1 @ b2))) = ?n"
    using fit n by (auto simp: enough_def)
  obtain m2 where w: "write_part gdb m d b1 ?n = (Returns (), m2)" "mem (rt_gdb m2) = part_stored (mem (rt_gdb m)) d b1"
    "same_channels m m2" "rt_out m2 = rt_out m" by (rule write_part_stores[OF gm ok fit(1)])
  have v: "0 \<le> ?v" "?v < 2 ^ 32" "lo \<le> a + 4 + off_wr" "a + 4 + off_wr + 4 \<le> hi"
    using wr_after_bounds[OF ok fit(1)] o by (auto simp: off_wr_def)
  obtain m3 where ww: "write_word (rt_send gdb) m2 (a + 4 + off_wr) ?v = (Returns (), m3)"
    "mem (rt_gdb m3) = put_cells (mem (rt_gdb m2)) (a + 4 + off_wr) (write_u32_le (nat ?v))"
    "same_channels m2 m3" "rt_out m3 = rt_out m2" by (rule write_word_stores[OF gm v(3,4,1,2)])
  have sub: "subarray (b1 @ b2) ?n (int (length (b1 @ b2))) = b2" by (simp add: subarray_eq)
  have wp: "write_part gdb m d (b1 @ b2) ?n = (Returns (), m2)" using w(1) write_part_prefix[of d gdb m b1 b2] o by simp
  have "drain_loop gdb d a m (b1 @ b2) = drain_loop gdb d a m3 b2"
    by (subst drain_loop.simps)
      (use fit(2) sp(1) ww(1) in \<open>simp add: Let_def wr_after_def sp(2) wp sub del: length_append\<close>)
  moreover have "mem (rt_gdb m3) = put_cells (part_stored (mem (rt_gdb m)) d b1) (a + 12) (write_u32_le (nat ?v))"
    using ww(2) w(2) by (simp add: off_wr_def add.commute)
  ultimately show ?thesis using that w(3,4) ww(3,4) same_channels_trans by metis
qed

lemma stored_desc:
  assumes ok: "ring_ok lo hi a d" and fit: "enough d bs" and v: "0 \<le> v" "v < 2 ^ 32"
  shows "desc_at (put_cells (part_stored f d bs) (a + 12) (write_u32_le (nat v))) a = (desc_at f a)\<lparr>bd_wr := v\<rparr>"
    and "bd_buf d \<le> x \<Longrightarrow> x < bd_buf d + bd_size d \<Longrightarrow>
      put_cells g (a + 12) (write_u32_le (nat v)) x = g x"
proof -
  note o = ok[unfolded ring_ok_def]
  have "word_at (part_stored f d bs) x = word_at f x" if "a \<le> x" "x + 4 \<le> a + 24" for x
    unfolding word_at_def using o that
    by (intro arg_cong[where f = int] arg_cong[where f = read_u32_le] cells_cong part_stored_apart[OF ok fit]) auto
  then have "desc_at (part_stored f d bs) a = desc_at f a" by (simp add: desc_at_def)
  then show "desc_at (put_cells (part_stored f d bs) (a + 12) (write_u32_le (nat v))) a = (desc_at f a)\<lparr>bd_wr := v\<rparr>"
    by (simp add: desc_put_wr[OF v])
  show "bd_buf d \<le> x \<Longrightarrow> x < bd_buf d + bd_size d \<Longrightarrow> put_cells g (a + 12) (write_u32_le (nat v)) x = g x"
    using o by (auto simp: put_cells_def write_u32_le_def)
qed

lemma drain_loop_Nil [simp]: "drain_loop gdb d a m [] = Some (Returns (), [], m)"
  by (simp add: drain_loop.simps)

text \<open>A drain of what the code takes for enough space.\<close>

lemma drain_write:
  assumes gm: "gdb_memory gdb mem lo hi" and lit: "rt_little m"
    and a: "a = down_desc_addr m ch" and d: "d = desc_at (mem (rt_gdb m)) a" and ok: "ring_ok lo hi a d"
    and bs: "bs = ch_buffer (rt_channels m ! ch)" and fit: "enough d bs"
  shows "\<exists>m'. drain_write_buffer gdb m ch = Some (Returns (), m') \<and> rt_channels m' = rt_channels (set_buffer ch [] m) \<and>
    desc_at (mem (rt_gdb m')) a = d\<lparr>bd_wr := wr_after d bs\<rparr> \<and>
    (\<forall>x. bd_buf d \<le> x \<and> x < bd_buf d + bd_size d \<longrightarrow> mem (rt_gdb m') x = part_stored (mem (rt_gdb m)) d bs x) \<and>
    rt_out m' = rt_out m \<and> rt_busy m' = rt_busy m"
proof -
  let ?f = "mem (rt_gdb m)"
  note o = ok[unfolded ring_ok_def]
  obtain m1 where 1: "read_buffer_desc gdb m a = (Returns d, m1)" "mem (rt_gdb m1) = ?f" "same_channels m m1" "rt_out m1 = rt_out m"
    using read_desc[OF gm _ _ lit, of a] o d by metis
  have c1: "rt_channels m1 = rt_channels m" "rt_busy m1 = rt_busy m" using 1(3) by (auto simp: same_channels_def)
  show ?thesis
  proof (cases "bs = []")
    case True
    then have "wr_after d bs = bd_wr d" using o by (auto simp: wr_after_def)
    with 1 c1 True bs a d show ?thesis
      by (intro exI[of _ "set_buffer ch [] m1"])
        (auto simp: drain_write_buffer_def Let_def set_buffer_def part_stored_def put_cells_def)
  next
    case False
    obtain m3 where r: "drain_loop gdb d a m1 (bs @ []) = drain_loop gdb d a m3 []"
      "mem (rt_gdb m3) = put_cells (part_stored (mem (rt_gdb m1)) d bs) (a + 12) (write_u32_le (nat (wr_after d bs)))"
      "same_channels m1 m3" "rt_out m3 = rt_out m1" by (rule drain_round[OF gm ok fit False disjI1[OF refl], where m = m1])
    have v: "0 \<le> wr_after d bs" "wr_after d bs < 2 ^ 32" using wr_after_bounds[OF ok fit] o by auto
    have "drain_write_buffer gdb m ch = Some (Returns (), set_buffer ch [] m3)"
      using 1(1) c1 bs a r(1) by (simp add: drain_write_buffer_def Let_def)
    moreover have "rt_channels m3 = rt_channels m" "rt_busy m3 = rt_busy m" "rt_out m3 = rt_out m"
      using r(3,4) c1 1(4) by (auto simp: same_channels_def)
    ultimately show ?thesis using r(2) 1(2) stored_desc[OF ok fit v] d
      by (intro exI[of _ "set_buffer ch [] m3"]) (simp add: set_buffer_def)
  qed
qed

subsection \<open>Error paths\<close>

text \<open>
  With a read offset of 0 the code counts one byte of free space too many: when exactly that much is
  written, the write offset meets the read offset and the buffer looks empty. Nothing of it reaches
  the target, and the unread bytes before it are lost too.
\<close>

lemma full_write_looks_empty:
  assumes "gdb_memory gdb mem lo hi" "rt_little m" "a = down_desc_addr m ch" "d = desc_at (mem (rt_gdb m)) a" "ring_ok lo hi a d"
    and "bd_rd d = 0" "int (length (ch_buffer (rt_channels m ! ch))) = bd_size d - bd_wr d"
  shows "\<exists>m'. drain_write_buffer gdb m ch = Some (Returns (), m') \<and> rt_channels m' = rt_channels (set_buffer ch [] m) \<and>
    ring_content (mem (rt_gdb m')) (desc_at (mem (rt_gdb m')) a) = []"
proof -
  let ?bs = "ch_buffer (rt_channels m ! ch)"
  have "enough d ?bs" "wr_after d ?bs = 0"
    using assms(5-7) by (auto simp: enough_def space_available_def wr_after_def Let_def ring_ok_def)
  with drain_write[OF assms(1-5) refl] assms(6) show ?thesis by (fastforce simp: ring_content_def)
qed

lemma ring_kept:
  assumes ok: "ring_ok lo hi a d" and fit: "enough d bs"
  shows "ring_content (part_stored f d bs) d = ring_content f d"
proof -
  have kept: "part_stored f d bs x = f x"
    if "bd_buf d \<le> x" "x < bd_buf d + bd_size d"
      "if bd_rd d \<le> bd_wr d then bd_buf d + bd_rd d \<le> x \<and> x < bd_buf d + bd_wr d else x < bd_buf d + bd_wr d \<or> bd_buf d + bd_rd d \<le> x" for x
    using that ok fit fits_bounds[OF ok fit]
    by (auto simp: part_stored_def put_cells_def Let_def ring_ok_def enough_def space_available_def split: if_splits)
  show ?thesis
    using ok by (auto simp: ring_content_def ring_ok_def intro!: cells_cong kept arg_cong2[where f = "(@)"])
qed

text \<open>
  The descriptor is not updated between the rounds of the loop: of data longer than the free space,
  every round writes over the one before. What stays is the old content and the rest of the data.
\<close>

lemma long_write_overwrites:
  assumes gm: "gdb_memory gdb mem lo hi" and lit: "rt_little m" and a: "a = down_desc_addr m ch"
    and d: "d = desc_at (mem (rt_gdb m)) a" and ok: "ring_ok lo hi a d"
    and bs: "ch_buffer (rt_channels m ! ch) = b1 @ b2" "b1 \<noteq> []" "space_available d = int (length b1)" "b2 \<noteq> []" "fits d b2"
  shows "\<exists>m'. drain_write_buffer gdb m ch = Some (Returns (), m') \<and> rt_channels m' = rt_channels (set_buffer ch [] m) \<and>
    ring_content (mem (rt_gdb m')) (desc_at (mem (rt_gdb m')) a) = ring_content (mem (rt_gdb m)) d @ b2"
proof -
  let ?f = "mem (rt_gdb m)"
  note o = ok[unfolded ring_ok_def]
  have e1: "enough d b1" and e2: "enough d b2" using bs by (auto simp: enough_def fits_def)
  obtain m1 where 1: "read_buffer_desc gdb m a = (Returns d, m1)" "mem (rt_gdb m1) = ?f" "same_channels m m1"
    using read_desc[OF gm _ _ lit, of a] o d by metis
  obtain m2 where r: "drain_loop gdb d a m1 (b1 @ b2) = drain_loop gdb d a m2 b2"
    "mem (rt_gdb m2) = put_cells (part_stored (mem (rt_gdb m1)) d b1) (a + 12) (write_u32_le (nat (wr_after d b1)))"
    "same_channels m1 m2" "rt_out m2 = rt_out m1" by (rule drain_round[OF gm ok e1 bs(2) disjI2[OF bs(3)], where m = m1])
  obtain m3 where s: "drain_loop gdb d a m2 (b2 @ []) = drain_loop gdb d a m3 []"
    "mem (rt_gdb m3) = put_cells (part_stored (mem (rt_gdb m2)) d b2) (a + 12) (write_u32_le (nat (wr_after d b2)))"
    "same_channels m2 m3" "rt_out m3 = rt_out m2" by (rule drain_round[OF gm ok e2 bs(4) disjI1[OF refl], where m = m2])
  have v1: "0 \<le> wr_after d b1" "wr_after d b1 < 2 ^ 32" and v2: "0 \<le> wr_after d b2" "wr_after d b2 < 2 ^ 32"
    using wr_after_bounds[OF ok e1] wr_after_bounds[OF ok e2] o by auto
  let ?g = "mem (rt_gdb m2)"
  have g: "ring_content ?g d = ring_content ?f d"
  proof -
    have "ring_content ?g d = ring_content (part_stored ?f d b1) d"
      using stored_desc(2)[OF ok e1 v1, of _ "part_stored ?f d b1"] r(2) 1(2) o
      by (auto simp: ring_content_def intro!: cells_cong arg_cong2[where f = "(@)"])
    with ring_kept[OF ok e1] show ?thesis by simp
  qed
  have dg: "desc_at ?g a = d\<lparr>bd_wr := wr_after d b1\<rparr>" using r(2) 1(2) stored_desc(1)[OF ok e1 v1, of ?f] d by simp
  have "desc_at (mem (rt_gdb m3)) a = d\<lparr>bd_wr := wr_after d b2\<rparr>" using s(2) stored_desc(1)[OF ok e2 v2, of ?g] dg by simp
  moreover have "ring_content (mem (rt_gdb m3)) (d\<lparr>bd_wr := wr_after d b2\<rparr>) = ring_content ?g d @ b2"
    by (rule ring_written[OF ok bs(5)]) (use s(2) stored_desc(2)[OF ok e2 v2] in simp)
  moreover have "drain_write_buffer gdb m ch = Some (Returns (), set_buffer ch [] m3)"
    using 1(1,3) bs(1) a r(1) s(1) by (simp add: drain_write_buffer_def Let_def same_channels_def)
  moreover have "rt_channels m3 = rt_channels m" using 1(3) r(3) s(3) by (simp add: same_channels_def)
  ultimately show ?thesis using g by (intro exI[of _ "set_buffer ch [] m3"]) (simp add: set_buffer_def)
qed

text \<open>Data still waiting goes behind data that arrives later.\<close>

lemma write_queue_reorders:
  "rt_found m \<Longrightarrow> \<not> rt_busy m \<Longrightarrow> rt_channels m = [c] \<Longrightarrow> ch_pending c = [] \<Longrightarrow> ch_buffer c = old \<Longrightarrow> new \<noteq> [] \<Longrightarrow>
    ch_buffer (rt_channels (snd (write_begin m 0 new)) ! 0) = new @ old"
  by (simp add: write_begin_def Let_def)

text \<open>Data that arrives during a drain is kept aside, where neither the drain nor a poll takes it from.\<close>

lemma busy_write_set_aside:
  "rt_found m \<Longrightarrow> rt_busy m \<Longrightarrow> rt_channels m = [c] \<Longrightarrow> new \<noteq> [] \<Longrightarrow> write_begin m 0 new = (r, m') \<Longrightarrow>
    r = Inr False \<and> ch_buffer (rt_channels m' ! 0) = ch_buffer c \<and> ch_pending (rt_channels m' ! 0) = ch_pending c @ [new]"
  by (auto simp: write_begin_def Let_def)

text \<open>When the write of the read offset is refused, the poll never ends and so is never repeated.\<close>

lemma refused_offset_stops_poll:
  assumes "write_word (rt_send gdb) (m\<lparr>rt_out := rt_out m @ [(ch, chunk)]\<rparr>) (desc_addr + 4 + off_rd) ((bd_rd d + int (length chunk)) mod bd_size d) = (Rejects e, m')"
  shows "fst (update_write_for_chunk gdb ch desc_addr chunk (m, d)) = False"
  using assms by (simp add: update_write_for_chunk_def Let_def)

subsection \<open>Properties\<close>

text \<open>
  A target for the examples: a descriptor at 24 of the 8 byte buffer at 100, with write offset 3 and
  read offset 6.
\<close>

definition small_ring :: "int \<Rightarrow> byte" where
  "small_ring a = (if a = 28 then 100 else if a = 32 then 8 else if a = 36 then 3 else if a = 40 then 6
     else if 100 \<le> a \<and> a < 108 then of_int (a - 100) else 0)"

definition small_rtt :: "nat \<Rightarrow> (int \<Rightarrow> byte) rtt_manager" where
  "small_rtt up = \<lparr>rt_gdb = small_ring, rt_little = True, rt_found = True, rt_cb_addr = 0, rt_search = [], rt_num_rd = up,
     rt_num_wr = 1, rt_channels = [channel_new True], rt_busy = False, rt_disabled = False, rt_out = [], rt_msgs = []\<rparr>"

lemma small_desc: "desc_at small_ring 24 = \<lparr>bd_buf = 100, bd_size = 8, bd_wr = 3, bd_rd = 6\<rparr>"
  by (simp add: desc_at_def word_at_def cells_def small_ring_def upt_rec)

lemma small_ok: "ring_ok 0 200 24 \<lparr>bd_buf = 100, bd_size = 8, bd_wr = 3, bd_rd = 6\<rparr>"
  by (simp add: ring_ok_def)

lemma small_content: "ring_content small_ring \<lparr>bd_buf = 100, bd_size = 8, bd_wr = 3, bd_rd = 6\<rparr> = [6, 7, 0, 1, 2]"
  by (simp add: ring_content_def cells_def small_ring_def upt_rec)

text \<open>
  C22: Draining a channel delivers its circular buffer. The unread bytes, also when they wrap around or
  take several reads, are returned and handed to the transport once and in order; the read offset
  in the target is then the write offset, and nothing else in the target has changed. (The target is
  little-endian, and the descriptor describes a ring in memory that can be accessed.)
\<close>

theorem rtt_drain_delivers_ring:
  assumes "gdb_memory gdb mem lo hi" "rt_little m" "a = up_desc_addr m ch"
    and "d = desc_at (mem (rt_gdb m)) a" "ring_ok lo hi a d"
  shows "\<exists>m'. try_drain_from_device gdb m ch =
      (Returns (if ring_content (mem (rt_gdb m)) d = [] then None else Some (ring_content (mem (rt_gdb m)) d)), m') \<and>
    handed_out ch (rt_out m') = handed_out ch (rt_out m) @ ring_content (mem (rt_gdb m)) d \<and>
    desc_at (mem (rt_gdb m')) a = d\<lparr>bd_rd := bd_wr d\<rparr> \<and>
    (\<forall>x. x < a + 16 \<or> a + 20 \<le> x \<longrightarrow> mem (rt_gdb m') x = mem (rt_gdb m) x)"
  using try_drain[OF assms] by blast

theorem rtt_drain_delivers_ring_witness:
  "fst (try_drain_from_device small_target (small_rtt 1) 0) = Returns (Some [6, 7, 0, 1, 2])"
proof -
  have "24 = up_desc_addr (small_rtt 1) 0" "desc_at (rt_gdb (small_rtt 1)) 24 = \<lparr>bd_buf = 100, bd_size = 8, bd_wr = 3, bd_rd = 6\<rparr>"
    "rt_little (small_rtt 1)" "rt_gdb (small_rtt 1) = small_ring"
    by (simp_all add: small_rtt_def up_desc_addr_def small_desc)
  with rtt_drain_delivers_ring[OF small_memory, of 0 "small_rtt 1" 24 0 _ 200] small_ok small_content show ?thesis by force
qed

text \<open>
  A write that fits into the free space of a channel's buffer, with nothing queued, is appended to
  it: the unread bytes of the target are then those before followed by the data, and nothing is
  left to send.
\<close>

lemma rtt_write_appends:
  assumes "gdb_memory gdb mem lo hi" "rt_little m" "a = down_desc_addr m ch" "d = desc_at (mem (rt_gdb m)) a" "ring_ok lo hi a d"
    and "rt_found m" "\<not> rt_busy m" "ch < length (rt_channels m)" "ch_pending (rt_channels m ! ch) = []" "ch_buffer (rt_channels m ! ch) = []"
    and "fits d data"
  shows "\<exists>m'. write_to_channel gdb m ch data = Some (Returns (), m') \<and>
    ring_content (mem (rt_gdb m')) (desc_at (mem (rt_gdb m')) a) = ring_content (mem (rt_gdb m)) d @ data \<and>
    ch_buffer (rt_channels m' ! ch) = [] \<and> \<not> rt_busy m'"
proof (cases "data = []")
  case True
  with assms show ?thesis by (simp add: write_to_channel_def write_begin_def Let_def)
next
  case False
  obtain m1 where b: "write_begin m ch data = (Inr True, m1)" "ch_buffer (rt_channels m1 ! ch) = data" "rt_gdb m1 = rt_gdb m"
    "rt_little m1" "down_desc_addr m1 ch = a" "length (rt_channels m1) = length (rt_channels m)"
    using assms False by (simp add: write_begin_def Let_def down_desc_addr_def)
  have "enough d data" using assms(11) by (simp add: fits_def)
  then obtain m2 where w: "drain_write_buffer gdb m1 ch = Some (Returns (), m2)" "rt_channels m2 = rt_channels (set_buffer ch [] m1)"
    "desc_at (mem (rt_gdb m2)) a = d\<lparr>bd_wr := wr_after d data\<rparr>"
    "\<forall>x. bd_buf d \<le> x \<and> x < bd_buf d + bd_size d \<longrightarrow> mem (rt_gdb m2) x = part_stored (mem (rt_gdb m)) d data x"
    using drain_write[OF assms(1) b(4) b(5)[symmetric] _ assms(5) b(2)[symmetric]] assms(4) b(3) by auto
  have "ring_content (mem (rt_gdb m2)) (d\<lparr>bd_wr := wr_after d data\<rparr>) = ring_content (mem (rt_gdb m)) d @ data"
    by (rule ring_written[OF assms(5,11)]) (use w(4) in blast)
  with b w assms(8) show ?thesis by (simp add: write_to_channel_def write_drain_def set_buffer_def)
qed

lemma rtt_write_appends_witness:
  "let m' = snd (the (write_to_channel small_target (small_rtt 0) 0 [65, 66]))
   in ring_content (rt_gdb m') (desc_at (rt_gdb m') 24) = [6, 7, 0, 1, 2, 65, 66]"
proof -
  let ?d = "\<lparr>bd_buf = 100, bd_size = 8, bd_wr = 3, bd_rd = 6\<rparr>"
  have s: "24 = down_desc_addr (small_rtt 0) 0" "?d = desc_at (rt_gdb (small_rtt 0)) 24" "rt_little (small_rtt 0)"
    "rt_gdb (small_rtt 0) = small_ring" "rt_found (small_rtt 0)" "\<not> rt_busy (small_rtt 0)" "0 < length (rt_channels (small_rtt 0))"
    "ch_pending (rt_channels (small_rtt 0) ! 0) = []" "ch_buffer (rt_channels (small_rtt 0) ! 0) = []" "fits ?d [65, 66]"
    by (simp_all add: small_rtt_def down_desc_addr_def small_desc channel_new_def fits_def enough_def space_available_def)
  from rtt_write_appends[OF small_memory s(3,1,2) small_ok s(5-10)] s(4) small_content show ?thesis by (auto simp: Let_def)
qed

end
