(* ===== verification/Ports.thy ===== *)
theory Ports
  imports Prelude "HOL-Library.Multiset"
begin

text \<open>
  The port scanner (\<open>packages/shared/src/find-free-ports.ts\<close>): a port is reserved by holding listening
  sockets on it, ports are scanned upwards, and a reservation is a lock that owns its sockets.

  The network of the host is a parameter: what a \<open>listen\<close> on a port and an address comes to, the port
  the system picks for port 0, and what closing does. An asynchronous function is one step; two
  scans do not run at the same time.
\<close>

text \<open>An open socket of this process: its port and its address.\<close>

type_synonym socket = "nat \<times> jstr"

record 'o network =
  nw_listen :: "'o \<Rightarrow> nat \<Rightarrow> jstr \<Rightarrow> nat option \<times> 'o"
  nw_close :: "'o \<Rightarrow> socket \<Rightarrow> 'o"

record port_lock =
  lk_released :: bool
  lk_servers :: "socket list"
  lk_ports :: "nat list"

record 'o scanner =
  sn_os :: 'o
  sn_open :: "socket list"
  sn_probe :: "bool option"
  sn_avoid :: "nat list"
  sn_locks :: "port_lock list"
  sn_emitted :: "nat list list"

definition scanner_new :: "'o \<Rightarrow> 'o scanner" where
  "scanner_new os = \<lparr>sn_os = os, sn_open = [], sn_probe = None, sn_avoid = [], sn_locks = [], sn_emitted = []\<rparr>"

definition max_port :: nat where "max_port = 65535"
definition ephemeral_port_start :: nat where "ephemeral_port_start = 32768"
definition default_scanner_base :: nat where "default_scanner_base = 2500"
definition loopback_addr :: jstr where "loopback_addr = ''127.0.0.1''"
definition all_interfaces :: jstr where "all_interfaces = ''0.0.0.0''"

subsection \<open>Sockets\<close>

definition try_listen :: "'o network \<Rightarrow> 'o scanner \<Rightarrow> nat \<Rightarrow> jstr \<Rightarrow> socket option \<times> 'o scanner" where
  "try_listen nw s port host = (case nw_listen nw (sn_os s) port host of
     (None, os) \<Rightarrow> (None, s\<lparr>sn_os := os\<rparr>)
   | (Some picked, os) \<Rightarrow>
       let sock = (if port = 0 then picked else port, host) in (Some sock, s\<lparr>sn_os := os, sn_open := sn_open s @ [sock]\<rparr>))"

definition close_socket :: "'o network \<Rightarrow> 'o scanner \<Rightarrow> socket \<Rightarrow> 'o scanner" where
  "close_socket nw s sock = s\<lparr>sn_os := nw_close nw (sn_os s) sock, sn_open := remove1 sock (sn_open s)\<rparr>"

definition close_sockets :: "'o network \<Rightarrow> 'o scanner \<Rightarrow> socket list \<Rightarrow> 'o scanner" where
  "close_sockets nw s socks = foldl (close_socket nw) s socks"

text \<open>One attempt: whether the wildcard can be bound below a loopback socket on a port the system picks.\<close>

definition probe_attempt :: "'o network \<Rightarrow> 'o scanner \<Rightarrow> bool \<times> 'o scanner" where
  "probe_attempt nw s = (case try_listen nw s 0 loopback_addr of
     (None, s) \<Rightarrow> (False, s)
   | (Some loopback, s) \<Rightarrow>
       (case try_listen nw s (fst loopback) all_interfaces of
          (None, s) \<Rightarrow> (False, close_socket nw s loopback)
        | (Some wildcard, s) \<Rightarrow> (True, close_socket nw (close_socket nw s wildcard) loopback)))"

fun probe_hosts :: "'o network \<Rightarrow> 'o scanner \<Rightarrow> nat \<Rightarrow> bool \<times> 'o scanner" where
  "probe_hosts nw s 0 = (False, s)"
| "probe_hosts nw s (Suc n) = (case probe_attempt nw s of (True, s) \<Rightarrow> (True, s) | (False, s) \<Rightarrow> probe_hosts nw s n)"

definition hosts_are_independent :: "'o network \<Rightarrow> 'o scanner \<Rightarrow> bool \<times> 'o scanner" where
  "hosts_are_independent nw s = (case sn_probe s of
     Some b \<Rightarrow> (b, s)
   | None \<Rightarrow> let (b, s) = probe_hosts nw s 3 in (b, s\<lparr>sn_probe := Some b\<rparr>))"

definition claim_hosts :: "'o network \<Rightarrow> 'o scanner \<Rightarrow> jstr list \<times> 'o scanner" where
  "claim_hosts nw s = (case hosts_are_independent nw s of
     (True, s) \<Rightarrow> ([loopback_addr, all_interfaces], s)
   | (False, s) \<Rightarrow> ([all_interfaces], s))"

fun claim_each :: "'o network \<Rightarrow> 'o scanner \<Rightarrow> nat \<Rightarrow> jstr list \<Rightarrow> socket list \<Rightarrow> socket list option \<times> 'o scanner" where
  "claim_each nw s port [] servers = (Some servers, s)"
| "claim_each nw s port (host # hosts) servers = (case try_listen nw s port host of
     (None, s) \<Rightarrow> (None, close_sockets nw s servers)
   | (Some sock, s) \<Rightarrow> claim_each nw s port hosts (servers @ [sock]))"

definition claim_port :: "'o network \<Rightarrow> 'o scanner \<Rightarrow> nat \<Rightarrow> nat list \<Rightarrow> socket list option \<times> 'o scanner" where
  "claim_port nw s port avoid =
     (if port \<in> set avoid \<or> port \<in> set (sn_avoid s) then (None, s)
      else let (hosts, s) = claim_hosts nw s in claim_each nw s port hosts [])"

subsection \<open>The scan\<close>

definition scan_start :: "int \<Rightarrow> nat" where
  "scan_start preferred = nat (min (max (if preferred = 0 then int default_scanner_base else preferred) 1) (int max_port))"

definition scan_ceiling :: "nat \<Rightarrow> nat" where
  "scan_ceiling start = (if start \<ge> ephemeral_port_start then max_port else ephemeral_port_start - 1)"

fun scan_loop :: "'o network \<Rightarrow> nat \<Rightarrow> bool \<Rightarrow> nat list \<Rightarrow> 'o scanner \<Rightarrow> nat list \<Rightarrow> socket list \<Rightarrow> nat list \<Rightarrow>
    (socket list \<times> nat list) option \<times> 'o scanner" where
  "scan_loop nw num consecutive avoid s [] servers ports = (None, close_sockets nw s servers)"
| "scan_loop nw num consecutive avoid s (port # rest) servers ports = (case claim_port nw s port avoid of
     (Some claimed, s) \<Rightarrow>
       if length (ports @ [port]) = num then (Some (servers @ claimed, ports @ [port]), s)
       else scan_loop nw num consecutive avoid s rest (servers @ claimed) (ports @ [port])
   | (None, s) \<Rightarrow>
       if consecutive \<and> ports \<noteq> [] then scan_loop nw num consecutive avoid (close_sockets nw s servers) rest [] []
       else scan_loop nw num consecutive avoid s rest servers ports)"

definition scan_error :: "nat \<Rightarrow> bool \<Rightarrow> nat \<Rightarrow> nat \<Rightarrow> jstr" where
  "scan_error num consecutive start ceiling = ''Error: Could not find '' @ show_nat num @ '' '' @
     (if consecutive then ''consecutive '' else []) @ ''free ports in '' @ show_nat start @ ''-'' @ show_nat ceiling"

definition find_available_port_range ::
  "'o network \<Rightarrow> 'o scanner \<Rightarrow> nat \<Rightarrow> int \<Rightarrow> bool \<Rightarrow> nat list \<Rightarrow> (jstr + port_lock) \<times> 'o scanner" where
  "find_available_port_range nw s num preferred consecutive avoid =
     (if num = 0 then (Inr \<lparr>lk_released = False, lk_servers = [], lk_ports = []\<rparr>, s)
      else let start = scan_start preferred; ceiling = scan_ceiling start
        in case scan_loop nw num consecutive avoid s [start..<Suc ceiling] [] [] of
             (None, s) \<Rightarrow> (Inl (scan_error num consecutive start ceiling), s)
           | (Some (servers, ports), s) \<Rightarrow> (Inr \<lparr>lk_released = False, lk_servers = servers, lk_ports = ports\<rparr>, s))"

subsection \<open>Reservations\<close>

definition emit_allocated :: "'o scanner \<Rightarrow> nat list \<Rightarrow> 'o scanner" where
  "emit_allocated s ports = (if ports = [] then s
     else s\<lparr>sn_avoid := foldl (\<lambda>av p. if p \<in> set av then av else av @ [p]) (sn_avoid s) ports, sn_emitted := sn_emitted s @ [ports]\<rparr>)"

definition find_free_ports :: "'o network \<Rightarrow> 'o scanner \<Rightarrow> nat \<Rightarrow> int \<Rightarrow> bool \<Rightarrow> nat list \<Rightarrow> (jstr + nat list) \<times> 'o scanner" where
  "find_free_ports nw s num preferred consecutive avoid = (case find_available_port_range nw s num preferred consecutive avoid of
     (Inl e, s) \<Rightarrow> (Inl e, s)
   | (Inr lock, s) \<Rightarrow> (Inr (lk_ports lock), emit_allocated (s\<lparr>sn_locks := sn_locks s @ [lock]\<rparr>) (lk_ports lock)))"

text \<open>Releasing twice does nothing the second time.\<close>

definition release_lock :: "'o network \<Rightarrow> 'o scanner \<Rightarrow> port_lock \<Rightarrow> port_lock \<times> 'o scanner" where
  "release_lock nw s lock = (if lk_released lock then (lock, s)
     else (lock\<lparr>lk_released := True, lk_servers := []\<rparr>, close_sockets nw s (lk_servers lock)))"

definition release_held_ports :: "'o network \<Rightarrow> 'o scanner \<Rightarrow> 'o scanner" where
  "release_held_ports nw s = foldl (\<lambda>s lock. snd (release_lock nw s lock)) (s\<lparr>sn_locks := []\<rparr>) (sn_locks s)"

text \<open>The loop over the locks runs from the last one to the first.\<close>

definition unlock_ports_if_free :: "'o network \<Rightarrow> 'o scanner \<Rightarrow> nat list \<Rightarrow> 'o scanner" where
  "unlock_ports_if_free nw s wanted =
     (let covered = (\<lambda>lock. set (lk_ports lock) \<subseteq> set wanted)
      in foldl (\<lambda>s lock. snd (release_lock nw s lock)) (s\<lparr>sn_locks := filter (\<lambda>l. \<not> covered l) (sn_locks s)\<rparr>)
           (rev (filter covered (sn_locks s))))"

fun probe_each :: "'o network \<Rightarrow> 'o scanner \<Rightarrow> nat \<Rightarrow> jstr list \<Rightarrow> bool \<times> 'o scanner" where
  "probe_each nw s port [] = (False, s)"
| "probe_each nw s port (h # hs) = (case try_listen nw s port h of
     (None, s) \<Rightarrow> (True, s)
   | (Some sock, s) \<Rightarrow> probe_each nw (close_socket nw s sock) port hs)"

definition is_port_in_use :: "'o network \<Rightarrow> 'o scanner \<Rightarrow> nat \<Rightarrow> nat list \<Rightarrow> jstr list \<Rightarrow> bool \<times> 'o scanner" where
  "is_port_in_use nw s port avoid hosts = (if port \<in> set avoid then (True, s)
     else probe_each nw s port (if hosts \<noteq> [] then hosts else [loopback_addr, all_interfaces]))"

datatype port_event =
    FindPorts nat int bool "nat list"
  | ReleaseAll
  | Unlock "nat list"
  | InUse nat "nat list" "jstr list"

fun port_step :: "'o network \<Rightarrow> 'o scanner \<Rightarrow> port_event \<Rightarrow> 'o scanner" where
  "port_step nw s (FindPorts n p c av) = snd (find_free_ports nw s n p c av)"
| "port_step nw s ReleaseAll = release_held_ports nw s"
| "port_step nw s (Unlock ps) = unlock_ports_if_free nw s ps"
| "port_step nw s (InUse p av hs) = snd (is_port_in_use nw s p av hs)"

definition port_run :: "'o network \<Rightarrow> 'o scanner \<Rightarrow> port_event list \<Rightarrow> 'o scanner" where
  "port_run nw s es = foldl (port_step nw) s es"

subsection \<open>Accounting of sockets\<close>

text \<open>
  The sockets that are open, as a multiset: the network may give out the same port twice for port 0.
\<close>

abbreviation opened :: "'o scanner \<Rightarrow> socket multiset" where
  "opened s \<equiv> mset (sn_open s)"

definition same_rest :: "'o scanner \<Rightarrow> 'o scanner \<Rightarrow> bool" where
  "same_rest s s' = (sn_avoid s' = sn_avoid s \<and> sn_locks s' = sn_locks s \<and> sn_emitted s' = sn_emitted s)"

lemma same_rest_refl [simp]: "same_rest s s"
  by (simp add: same_rest_def)

lemma same_rest_trans: "same_rest s s1 \<Longrightarrow> same_rest s1 s2 \<Longrightarrow> same_rest s s2"
  by (simp add: same_rest_def)

lemma try_listen_open:
  assumes "try_listen nw s port host = (r, s')"
  shows "same_rest s s' \<and> sn_probe s' = sn_probe s \<and>
    (case r of None \<Rightarrow> opened s' = opened s
     | Some sock \<Rightarrow> opened s' = add_mset sock (opened s) \<and> snd sock = host \<and> (port \<noteq> 0 \<longrightarrow> sock = (port, host)))"
  using assms by (cases "nw_listen nw (sn_os s) port host") (auto simp: try_listen_def same_rest_def Let_def split: option.splits)

lemma close_socket_open [simp]:
  "opened (close_socket nw s sock) = opened s - {#sock#}" "sn_probe (close_socket nw s sock) = sn_probe s"
  "sn_avoid (close_socket nw s sock) = sn_avoid s" "sn_locks (close_socket nw s sock) = sn_locks s"
  "sn_emitted (close_socket nw s sock) = sn_emitted s"
  by (simp_all add: close_socket_def)

lemma close_sockets_open [simp]:
  "opened (close_sockets nw s socks) = opened s - mset socks" "sn_probe (close_sockets nw s socks) = sn_probe s"
  "sn_avoid (close_sockets nw s socks) = sn_avoid s" "sn_locks (close_sockets nw s socks) = sn_locks s"
  "sn_emitted (close_sockets nw s socks) = sn_emitted s"
  unfolding close_sockets_def by (induction socks arbitrary: s) simp_all

lemma same_rest_closed [simp]:
  "same_rest s (close_socket nw s' x) = same_rest s s'" "same_rest s (close_sockets nw s' xs) = same_rest s s'"
  "same_rest (close_socket nw s x) s' = same_rest s s'" "same_rest (close_sockets nw s xs) s' = same_rest s s'"
  by (simp_all add: same_rest_def)

lemma probe_attempt_open: "probe_attempt nw s = (b, s') \<Longrightarrow> same_rest s s' \<and> opened s' = opened s"
proof -
  assume p: "probe_attempt nw s = (b, s')"
  obtain r s1 where 1: "try_listen nw s 0 loopback_addr = (r, s1)" by force
  note o1 = try_listen_open[OF 1]
  show ?thesis
  proof (cases r)
    case None
    with p 1 o1 show ?thesis by (simp add: probe_attempt_def)
  next
    case (Some sock)
    obtain r2 s2 where 2: "try_listen nw s1 (fst sock) all_interfaces = (r2, s2)" by force
    note o2 = try_listen_open[OF 2]
    have "same_rest s s2" using o1 o2 same_rest_trans by blast
    with p 1 2 o1 o2 Some show ?thesis by (cases r2) (auto simp: probe_attempt_def)
  qed
qed

lemma probe_hosts_open: "probe_hosts nw s n = (b, s') \<Longrightarrow> same_rest s s' \<and> opened s' = opened s"
proof (induction n arbitrary: s)
  case (Suc n)
  obtain b1 s1 where 1: "probe_attempt nw s = (b1, s1)" by force
  with Suc.prems Suc.IH[of s1] probe_attempt_open[OF 1] show ?case by (cases b1) (auto intro: same_rest_trans)
qed simp

text \<open>The addresses a claim takes, once the probe has been made.\<close>

definition hosts_of :: "'o scanner \<Rightarrow> jstr list" where
  "hosts_of s = (if sn_probe s = Some True then [loopback_addr, all_interfaces] else [all_interfaces])"

lemma claim_hosts_open:
  "claim_hosts nw s = (hosts, s') \<Longrightarrow> same_rest s s' \<and> opened s' = opened s \<and> hosts = hosts_of s' \<and> sn_probe s' \<noteq> None \<and>
    (sn_probe s \<noteq> None \<longrightarrow> s' = s)"
proof (cases "sn_probe s")
  case None
  assume c: "claim_hosts nw s = (hosts, s')"
  obtain b s1 where 1: "probe_hosts nw s 3 = (b, s1)" by force
  with c None probe_hosts_open[OF 1] show ?thesis
    by (cases b) (auto simp: claim_hosts_def hosts_are_independent_def hosts_of_def same_rest_def)
qed (auto simp: claim_hosts_def hosts_are_independent_def hosts_of_def split: bool.splits)

lemma claim_each_open:
  assumes "claim_each nw s port hosts servers = (r, s')" "port \<noteq> 0" "mset servers \<subseteq># opened s"
  shows "same_rest s s' \<and> sn_probe s' = sn_probe s \<and> (case r of None \<Rightarrow> opened s' = opened s - mset servers
    | Some socks \<Rightarrow> socks = servers @ map (Pair port) hosts \<and> opened s' = opened s + mset (map (Pair port) hosts))"
  using assms
proof (induction nw s port hosts servers rule: claim_each.induct)
  case (2 nw s port host hosts servers)
  obtain r1 s1 where 1: "try_listen nw s port host = (r1, s1)" by force
  note o1 = try_listen_open[OF 1]
  show ?case
  proof (cases r1)
    case None
    with 1 o1 "2.prems" show ?thesis by auto
  next
    case (Some sock)
    then have s: "sock = (port, host)" "opened s1 = add_mset sock (opened s)" using o1 "2.prems"(2) by auto
    then have "mset (servers @ [sock]) \<subseteq># opened s1" using "2.prems"(3) by simp
    from "2.IH"[OF 1[symmetric] Some _ "2.prems"(2) this] "2.prems"(1) 1 Some
    have "same_rest s1 s' \<and> sn_probe s' = sn_probe s1 \<and> (case r of None \<Rightarrow> opened s' = opened s1 - mset (servers @ [sock])
      | Some socks \<Rightarrow> socks = (servers @ [sock]) @ map (Pair port) hosts \<and> opened s' = opened s1 + mset (map (Pair port) hosts))" by simp
    with s o1 show ?thesis by (auto intro: same_rest_trans split: option.splits)
  qed
qed auto

lemma claim_port_open:
  assumes "claim_port nw s port avoid = (r, s')" "port \<noteq> 0"
  shows "same_rest s s' \<and> (sn_probe s \<noteq> None \<longrightarrow> sn_probe s' = sn_probe s) \<and> (case r of None \<Rightarrow> opened s' = opened s
    | Some socks \<Rightarrow> socks = map (Pair port) (hosts_of s') \<and> sn_probe s' \<noteq> None \<and> opened s' = opened s + mset socks \<and>
        port \<notin> set avoid \<and> port \<notin> set (sn_avoid s))"
proof (cases "port \<in> set avoid \<or> port \<in> set (sn_avoid s)")
  case False
  obtain hosts s1 where 1: "claim_hosts nw s = (hosts, s1)" by force
  note o1 = claim_hosts_open[OF 1]
  have c: "claim_each nw s1 port hosts [] = (r, s')" using assms(1) False 1 by (simp add: claim_port_def)
  from claim_each_open[OF c assms(2)] o1 False show ?thesis
    by (auto simp: hosts_of_def intro: same_rest_trans split: option.splits)
qed (use assms in \<open>auto simp: claim_port_def\<close>)

subsection \<open>What a scan returns\<close>

text \<open>The ports a scan holds when it has reached the candidate \<open>c\<close>.\<close>

definition holding :: "nat \<Rightarrow> nat \<Rightarrow> bool \<Rightarrow> nat list \<Rightarrow> 'o scanner \<Rightarrow> socket list \<Rightarrow> nat list \<Rightarrow> bool" where
  "holding start c consecutive avoid s servers ports \<longleftrightarrow>
     sorted_wrt (<) ports \<and> (\<forall>p \<in> set ports. start \<le> p \<and> p < c \<and> p \<notin> set avoid \<and> p \<notin> set (sn_avoid s)) \<and>
     (consecutive \<longrightarrow> ports = [c - length ports..<c]) \<and>
     servers = concat (map (\<lambda>p. map (Pair p) (hosts_of s)) ports) \<and> (ports \<noteq> [] \<longrightarrow> sn_probe s \<noteq> None) \<and>
     mset servers \<subseteq># opened s"

lemma holding_none [simp]: "holding start c consecutive avoid s [] []"
  by (simp add: holding_def)

lemma holding_same:
  assumes "holding start c consecutive avoid s servers ports" "same_rest s s'" "sn_probe s \<noteq> None \<longrightarrow> sn_probe s' = sn_probe s"
    "opened s' = opened s"
  shows "\<not> consecutive \<or> ports = [] \<Longrightarrow> holding start (Suc c) consecutive avoid s' servers ports"
  using assms by (cases "ports = []") (auto simp: holding_def same_rest_def hosts_of_def)

lemma upt_extend: "xs = [c - length xs..<c] \<Longrightarrow> length xs \<le> c \<Longrightarrow> xs @ [c] = [Suc c - length (xs @ [c])..<Suc c]"
  by simp

lemma holding_take:
  assumes h: "holding start c consecutive avoid s servers ports" and "start \<le> c" "c \<noteq> 0"
    and cl: "claim_port nw s c avoid = (Some claimed, s')"
  shows "holding start (Suc c) consecutive avoid s' (servers @ claimed) (ports @ [c])"
proof -
  note o = claim_port_open[OF cl \<open>c \<noteq> 0\<close>]
  have hs: "ports = [] \<or> hosts_of s' = hosts_of s" using h o by (auto simp: holding_def hosts_of_def)
  have "consecutive \<Longrightarrow> length ports \<le> c" using h by (metis diff_le_self holding_def length_upt)
  then have "consecutive \<Longrightarrow> ports @ [c] = [Suc c - length (ports @ [c])..<Suc c]"
    using h upt_extend[of ports c] by (simp add: holding_def)
  with h hs o assms(2) show ?thesis
    unfolding holding_def same_rest_def by (auto simp: sorted_wrt_append less_Suc_eq)
qed

lemma upt_step:
  assumes "Suc n = e - c" shows "[c..<e] = c # [Suc c..<e]" "Suc c \<le> e" "n = e - Suc c"
  using assms by (auto simp: upt_conv_Cons)

lemma scan_loop_spec:
  assumes "scan_loop nw num consecutive avoid s [c..<e] servers ports = (r, s')"
    and "holding start c consecutive avoid s servers ports" "start \<le> c" "c \<le> e" "0 < c"
  shows "same_rest s s' \<and> (case r of None \<Rightarrow> opened s' = opened s - mset servers
    | Some (sv, ps) \<Rightarrow> length ps = num \<and> (\<exists>c'. c' \<le> e \<and> holding start c' consecutive avoid s' sv ps) \<and>
        opened s' = (opened s - mset servers) + mset sv)"
  using assms
proof (induction "e - c" arbitrary: c s servers ports)
  case 0
  then show ?case by auto
next
  case (Suc n)
  note up = upt_step(1)[OF Suc.hyps(2)] and e = upt_step(2,3)[OF Suc.hyps(2)]
  obtain r1 s1 where cl: "claim_port nw s c avoid = (r1, s1)" by force
  note o = claim_port_open[OF cl]
  note run = Suc.prems(1)[unfolded up scan_loop.simps cl prod.case]
  note IH = Suc.hyps(1)[OF e(2) _ _ _ e(1)]
  have sub: "mset servers \<subseteq># opened s" using Suc.prems(2) unfolding holding_def by blast
  show ?case
  proof (cases r1)
    case None
    show ?thesis
    proof (cases "consecutive \<and> ports \<noteq> []")
      case True
      with run None have "scan_loop nw num consecutive avoid (close_sockets nw s1 servers) [Suc c..<e] [] [] = (r, s')" by simp
      from IH[OF this holding_none] Suc.prems(3,5) o None show ?thesis
        by (auto simp: same_rest_def split: option.splits)
    next
      case False
      with run None have "scan_loop nw num consecutive avoid s1 [Suc c..<e] servers ports = (r, s')" by simp
      from IH[OF this holding_same[OF Suc.prems(2)]] False Suc.prems(3,5) o None show ?thesis
        by (auto simp: same_rest_def split: option.splits)
    qed
  next
    case (Some claimed)
    have t: "holding start (Suc c) consecutive avoid s1 (servers @ claimed) (ports @ [c])"
      using holding_take Suc.prems cl Some by blast
    have m: "opened s1 = opened s + mset claimed" using o Some Suc.prems(5) by simp
    show ?thesis
    proof (cases "length (ports @ [c]) = num")
      case True
      with run Some have "r = Some (servers @ claimed, ports @ [c])" "s' = s1" by auto
      with t m o sub Suc.prems(5) e True show ?thesis by (auto intro!: exI[of _ "Suc c"] simp: Some)
    next
      case False
      with run Some have "scan_loop nw num consecutive avoid s1 [Suc c..<e] (servers @ claimed) (ports @ [c]) = (r, s')" by simp
      from IH[OF this t] Suc.prems(3,5) o Some m sub show ?thesis
        by (auto simp: same_rest_def split: option.splits)
    qed
  qed
qed

lemma scan_start_bounds: "0 < scan_start preferred" "scan_start preferred \<le> scan_ceiling (scan_start preferred)"
  "scan_ceiling (scan_start preferred) \<le> max_port"
  by (auto simp: scan_start_def scan_ceiling_def max_port_def ephemeral_port_start_def default_scanner_base_def)

lemma range_error_open: "find_available_port_range nw s num preferred consecutive avoid = (Inl e, s') \<Longrightarrow>
    same_rest s s' \<and> opened s' = opened s"
proof -
  assume f: "find_available_port_range nw s num preferred consecutive avoid = (Inl e, s')"
  obtain r s1 where r: "scan_loop nw num consecutive avoid s [scan_start preferred..<Suc (scan_ceiling (scan_start preferred))] [] [] = (r, s1)"
    by force
  show ?thesis
    using f scan_loop_spec[OF r holding_none order_refl] scan_start_bounds[of preferred]
    by (cases r) (auto simp: find_available_port_range_def r Let_def split: if_splits prod.splits simp del: upt_Suc)
qed

lemma range_lock: "find_available_port_range nw s num preferred consecutive avoid = (Inr lock, s') \<Longrightarrow>
    same_rest s s' \<and> opened s' = opened s + mset (lk_servers lock) \<and> \<not> lk_released lock \<and> length (lk_ports lock) = num \<and>
    (\<exists>c. c \<le> Suc (scan_ceiling (scan_start preferred)) \<and> holding (scan_start preferred) c consecutive avoid s' (lk_servers lock) (lk_ports lock))"
proof -
  assume f: "find_available_port_range nw s num preferred consecutive avoid = (Inr lock, s')"
  show ?thesis
  proof (cases "num = 0")
    case True
    with f show ?thesis by (auto simp: find_available_port_range_def intro: exI[of _ 0])
  next
    case False
    obtain r s1 where r: "scan_loop nw num consecutive avoid s [scan_start preferred..<Suc (scan_ceiling (scan_start preferred))] [] [] = (r, s1)"
      by force
    from f False obtain sv ps where "r = Some (sv, ps)" "s1 = s'" "lock = \<lparr>lk_released = False, lk_servers = sv, lk_ports = ps\<rparr>"
      by (cases r) (auto simp: find_available_port_range_def r Let_def simp del: upt_Suc)
    with scan_loop_spec[OF r holding_none order_refl] scan_start_bounds[of preferred] show ?thesis by auto
  qed
qed

lemma foldl_adjoin_set: "set (foldl (\<lambda>av p. if p \<in> set av then av else av @ [p]) av ps) = set av \<union> set ps"
  by (induction ps arbitrary: av) auto

lemma emit_allocated_simps [simp]:
  "set (sn_avoid (emit_allocated s ports)) = set (sn_avoid s) \<union> set ports" "sn_open (emit_allocated s ports) = sn_open s"
  "sn_locks (emit_allocated s ports) = sn_locks s" "sn_probe (emit_allocated s ports) = sn_probe s"
  "concat (sn_emitted (emit_allocated s ports)) = concat (sn_emitted s) @ ports"
  by (auto simp: emit_allocated_def foldl_adjoin_set)

lemma consecutive_from_hd:
  assumes "ports = [c - length ports..<c]" shows "ports = [hd ports..<hd ports + length ports]"
proof (cases "ports = []")
  case False
  have l: "length ports \<le> c" by (metis assms diff_le_self length_upt)
  have "hd ports = c - length ports" using False assms by (metis hd_upt upt_eq_Nil_conv not_le)
  with assms l show ?thesis by simp
qed simp

text \<open>
  Whatever the host's network does, the ports \<open>findFreePorts\<close> returns are the number asked for, in
  ascending order, between the clamped start and the ceiling of its range, consecutive when that is asked
  for, none of them on the caller's avoid list or handed out before; each is then on the avoid list, and one new
  lock holds a listening socket on every address a claim takes, and nothing else has been left open.
\<close>

lemma free_ports_reserved:
  assumes "find_free_ports nw s num preferred consecutive avoid = (Inr ports, s')"
  shows "length ports = num \<and> sorted_wrt (<) ports \<and>
    set ports \<subseteq> {scan_start preferred..scan_ceiling (scan_start preferred)} - set avoid - set (sn_avoid s) \<and>
    (consecutive \<longrightarrow> ports = [hd ports..<hd ports + num]) \<and>
    set (sn_avoid s') = set (sn_avoid s) \<union> set ports \<and>
    (\<exists>socks. socks = concat (map (\<lambda>p. map (Pair p) (hosts_of s')) ports) \<and> mset (sn_open s') = mset (sn_open s) + mset socks \<and>
       sn_locks s' = sn_locks s @ [\<lparr>lk_released = False, lk_servers = socks, lk_ports = ports\<rparr>])"
proof -
  obtain lock s1 where f: "find_available_port_range nw s num preferred consecutive avoid = (Inr lock, s1)"
    and p: "ports = lk_ports lock" "s' = emit_allocated (s1\<lparr>sn_locks := sn_locks s1 @ [lock]\<rparr>) ports"
    using assms by (auto simp: find_free_ports_def split: sum.splits prod.splits)
  note l = range_lock[OF f, folded p(1)]
  obtain c where c: "c \<le> Suc (scan_ceiling (scan_start preferred))"
    and h: "holding (scan_start preferred) c consecutive avoid s1 (lk_servers lock) ports" using l by blast
  have hs: "hosts_of s' = hosts_of s1" by (simp add: p(2) hosts_of_def)
  have "set ports \<subseteq> {scan_start preferred..scan_ceiling (scan_start preferred)} - set avoid - set (sn_avoid s)"
    using h c l by (fastforce simp: holding_def same_rest_def)
  moreover have "consecutive \<longrightarrow> ports = [hd ports..<hd ports + num]"
    using h l consecutive_from_hd[of ports c] unfolding holding_def by metis
  moreover have "lk_servers lock = concat (map (\<lambda>p. map (Pair p) (hosts_of s')) ports)" "sorted_wrt (<) ports"
    using h hs by (auto simp: holding_def)
  ultimately show ?thesis using l p by (auto simp: same_rest_def)
qed

definition open_network :: "unit network" where
  "open_network = \<lparr>nw_listen = \<lambda>os port host. (if port = 65531 then None else Some 40000, os), nw_close = \<lambda>os sock. os\<rparr>"

lemma free_ports_reserved_witness:
  "\<exists>ports. fst (find_free_ports open_network (scanner_new ()) 2 65530 True []) = Inr ports \<and>
     ports = [65532, 65533] \<and> set ports \<subseteq> {scan_start 65530..scan_ceiling (scan_start 65530)}"
proof -
  obtain r s where r: "find_free_ports open_network (scanner_new ()) 2 65530 True [] = (r, s)" by (rule prod.exhaust)
  have up: "scan_start 65530 = 65530" "scan_ceiling 65530 = 65535"
    by (simp_all add: scan_start_def scan_ceiling_def max_port_def ephemeral_port_start_def)
  have l: "[65530..<Suc 65535] = [65530, 65531, 65532, 65533, 65534, 65535::nat]" by (simp add: upt_rec_numeral)
  have "r = Inr [65532, 65533]"
    using r by (auto simp add: Let_def find_free_ports_def find_available_port_range_def up l claim_port_def claim_hosts_def
        hosts_are_independent_def probe_attempt_def numeral_2_eq_2 numeral_3_eq_3 try_listen_def open_network_def scanner_new_def close_socket_def
        close_sockets_def loopback_addr_def all_interfaces_def emit_allocated_def simp del: upt_Suc)
  with r free_ports_reserved[of open_network "scanner_new ()" 2 65530 True "[]" "[65532, 65533]" s] show ?thesis by simp
qed

subsection \<open>The scan misses no window\<close>

text \<open>
  The host, while no other process binds or frees a port: \<open>held os\<close> are the sockets the scanner has open. A listen
  succeeds on an address that is free of others (\<open>free\<close>) unless an own socket is in the way: one on the same
  address, or, where the addresses of a port are not independent, any socket on that port (\<open>EADDRINUSE\<close>).
\<close>

definition can_bind :: "bool \<Rightarrow> socket multiset \<Rightarrow> nat \<Rightarrow> jstr \<Rightarrow> bool" where
  "can_bind indep own p h = ((p, h) \<notin># own \<and> (indep \<or> p \<notin> fst ` set_mset own))"

definition host_network :: "'o network \<Rightarrow> (nat \<Rightarrow> jstr \<Rightarrow> bool) \<Rightarrow> bool \<Rightarrow> ('o \<Rightarrow> socket multiset) \<Rightarrow> bool" where
  "host_network nw free indep held = ((\<forall>os p h r os'. p \<noteq> 0 \<longrightarrow> nw_listen nw os p h = (r, os') \<longrightarrow>
       (r \<noteq> None) = (free p h \<and> can_bind indep (held os) p h) \<and>
       held os' = (case r of None \<Rightarrow> held os | Some _ \<Rightarrow> add_mset (p, h) (held os))) \<and>
     (\<forall>os sock. held (nw_close nw os sock) = held os - {#sock#}))"

text \<open>Which ports a claim can take.\<close>

definition usable :: "'o scanner \<Rightarrow> nat list \<Rightarrow> (nat \<Rightarrow> jstr \<Rightarrow> bool) \<Rightarrow> bool \<Rightarrow> nat \<Rightarrow> bool" where
  "usable s avoid free indep p = (p \<notin> set avoid \<and> p \<notin> set (sn_avoid s) \<and>
     list_all (\<lambda>h. free p h \<and> can_bind indep (opened s) p h) (hosts_of s))"

text \<open>The reference: the lowest window of ports all of which are usable, or the lowest usable ports.\<close>

definition first_ports :: "(nat \<Rightarrow> bool) \<Rightarrow> nat \<Rightarrow> bool \<Rightarrow> nat \<Rightarrow> nat \<Rightarrow> nat list option" where
  "first_ports ok num consecutive start stop =
     (if consecutive then map_option (\<lambda>w. [w..<w + num]) (find (\<lambda>w. list_all ok [w..<w + num]) [start..<Suc stop - num])
      else let ps = filter ok [start..<stop] in if num \<le> length ps then Some (take num ps) else None)"

lemma try_listen_network:
  assumes "host_network nw free indep held" "held (sn_os s) = opened s" "p \<noteq> 0" "try_listen nw s p h = (r, s')"
  shows "(r \<noteq> None) = (free p h \<and> can_bind indep (opened s) p h) \<and> held (sn_os s') = opened s'"
proof -
  obtain x os where l: "nw_listen nw (sn_os s) p h = (x, os)" by force
  then have "(x \<noteq> None) = (free p h \<and> can_bind indep (opened s) p h)"
    "held os = (case x of None \<Rightarrow> opened s | Some _ \<Rightarrow> add_mset (p, h) (opened s))"
    using assms(1-3) unfolding host_network_def by metis+
  with assms(3,4) l show ?thesis by (cases x) (auto simp: try_listen_def Let_def)
qed

lemma close_sockets_network:
  "host_network nw free indep held \<Longrightarrow> held (sn_os s) = opened s \<Longrightarrow>
    held (sn_os (close_sockets nw s socks)) = opened (close_sockets nw s socks)"
proof (induction socks arbitrary: s)
  case (Cons x xs)
  have "held (nw_close nw os x) = held os - {#x#}" for os using Cons.prems(1) unfolding host_network_def by blast
  with Cons.prems(2) have "held (sn_os (close_socket nw s x)) = opened (close_socket nw s x)" by (simp add: close_socket_def)
  from Cons.IH[OF Cons.prems(1) this] show ?case by (simp add: close_sockets_def)
qed (simp add: close_sockets_def)

lemma claim_each_network:
  assumes "host_network nw free indep held" "held (sn_os s) = opened s" "p \<noteq> 0" "distinct hs" "indep \<or> length hs \<le> 1"
    and "claim_each nw s p hs servers = (r, s')"
  shows "(r \<noteq> None) = list_all (\<lambda>h. free p h \<and> can_bind indep (opened s) p h) hs \<and> held (sn_os s') = opened s'"
  using assms(2,4-6)
proof (induction hs arbitrary: s servers)
  case (Cons h hs)
  obtain x s1 where 1: "try_listen nw s p h = (x, s1)" by force
  note n = try_listen_network[OF assms(1) Cons.prems(1) assms(3) 1]
  show ?case
  proof (cases x)
    case None
    with Cons.prems(4) 1 n close_sockets_network[OF assms(1), of s1 servers] show ?thesis by auto
  next
    case (Some sock)
    have o: "opened s1 = add_mset (p, h) (opened s)" using try_listen_open[OF 1] Some assms(3) by auto
    have "can_bind indep (opened s1) p g = can_bind indep (opened s) p g" if "g \<in> set hs" for g
      using that Cons.prems(2,3) unfolding o can_bind_def by (cases hs) auto
    then have "list_all (\<lambda>h. free p h \<and> can_bind indep (opened s1) p h) hs = list_all (\<lambda>h. free p h \<and> can_bind indep (opened s) p h) hs"
      by (auto simp: list_all_iff)
    with Cons.IH[of s1 "servers @ [sock]"] Cons.prems 1 n Some show ?thesis by auto
  qed
qed auto

lemma claim_port_network:
  assumes "host_network nw free indep held" "held (sn_os s) = opened s" "sn_probe s \<noteq> None" "sn_probe s = Some True \<longrightarrow> indep" "p \<noteq> 0"
    and "claim_port nw s p avoid = (r, s')"
  shows "(r \<noteq> None) = usable s avoid free indep p \<and> held (sn_os s') = opened s'"
proof -
  obtain hosts s1 where 1: "claim_hosts nw s = (hosts, s1)" by force
  with claim_hosts_open[OF 1] assms(3) have h: "s1 = s" "hosts = hosts_of s" by auto
  have d: "distinct (hosts_of s)" "indep \<or> length (hosts_of s) \<le> 1"
    using assms(4) by (auto simp: hosts_of_def loopback_addr_def all_interfaces_def)
  show ?thesis
  proof (cases "p \<in> set avoid \<or> p \<in> set (sn_avoid s)")
    case False
    with assms(6) 1 h have "claim_each nw s p (hosts_of s) [] = (r, s')" by (simp add: claim_port_def)
    from claim_each_network[OF assms(1,2,5) d this] False show ?thesis by (simp add: usable_def)
  qed (use assms(2,6) in \<open>auto simp: claim_port_def usable_def\<close>)
qed

text \<open>The state of a scan that began in \<open>s0\<close>, holds \<open>servers\<close> and has reached the candidate \<open>c\<close>.\<close>

definition scanning :: "'o scanner \<Rightarrow> ('o \<Rightarrow> socket multiset) \<Rightarrow> 'o scanner \<Rightarrow> socket list \<Rightarrow> nat \<Rightarrow> bool" where
  "scanning s0 held s servers c = (same_rest s0 s \<and> sn_probe s = sn_probe s0 \<and> held (sn_os s) = opened s \<and>
     opened s = opened s0 + mset servers \<and> (\<forall>x \<in> set servers. fst x < c))"

text \<open>What a scan relies on.\<close>

definition scan_host :: "'o network \<Rightarrow> (nat \<Rightarrow> jstr \<Rightarrow> bool) \<Rightarrow> bool \<Rightarrow> ('o \<Rightarrow> socket multiset) \<Rightarrow> 'o scanner \<Rightarrow> bool" where
  "scan_host nw free indep held s = (host_network nw free indep held \<and> held (sn_os s) = opened s \<and>
     sn_probe s \<noteq> None \<and> (sn_probe s = Some True \<longrightarrow> indep))"

lemma scanning_usable: "scanning s0 held s servers c \<Longrightarrow> usable s avoid free indep c = usable s0 avoid free indep c"
proof -
  assume sc: "scanning s0 held s servers c"
  have "can_bind indep (opened s) c h = can_bind indep (opened s0) c h" for h
    using sc by (auto simp: scanning_def can_bind_def)
  then show ?thesis using sc by (simp add: usable_def scanning_def same_rest_def hosts_of_def)
qed

lemma scanning_step:
  assumes host: "scan_host nw free indep held s0" and sc: "scanning s0 held s servers c" and "0 < c"
    and cl: "claim_port nw s c avoid = (r, s1)"
  shows "(r \<noteq> None) = usable s0 avoid free indep c"
    and "r = None \<Longrightarrow> scanning s0 held s1 servers (Suc c) \<and> scanning s0 held (close_sockets nw s1 servers) [] (Suc c)"
    and "r = Some claimed \<Longrightarrow> scanning s0 held s1 (servers @ claimed) (Suc c)"
proof -
  have hn: "host_network nw free indep held" "held (sn_os s) = opened s" "sn_probe s \<noteq> None" "sn_probe s = Some True \<longrightarrow> indep"
    using host sc by (simp_all add: scan_host_def scanning_def)
  have c: "c \<noteq> 0" using assms(3) by simp
  note n = claim_port_network[OF hn c cl] and o = claim_port_open[OF cl c]
  show "(r \<noteq> None) = usable s0 avoid free indep c" using n scanning_usable[OF sc] by blast
  have p: "same_rest s0 s1" "sn_probe s1 = sn_probe s0" using sc o hn(3) by (auto simp: scanning_def intro: same_rest_trans)
  show "scanning s0 held s1 servers (Suc c) \<and> scanning s0 held (close_sockets nw s1 servers) [] (Suc c)" if "r = None"
    using that sc p n o close_sockets_network[OF hn(1), of s1 servers] by (auto simp: scanning_def less_Suc_eq)
  show "scanning s0 held s1 (servers @ claimed) (Suc c)" if "r = Some claimed"
    using that sc p n o by (auto simp: scanning_def less_Suc_eq)
qed

lemma find_upt_eqI: "P w \<Longrightarrow> a \<le> w \<Longrightarrow> w < b \<Longrightarrow> (\<And>v. a \<le> v \<Longrightarrow> v < w \<Longrightarrow> \<not> P v) \<Longrightarrow> find P [a..<b] = Some w"
  by (auto simp: find_Some_iff intro!: exI[of _ "w - a"])

lemma window_blocked: "\<not> ok c \<Longrightarrow> w \<le> c \<Longrightarrow> c < w + num \<Longrightarrow> \<not> list_all ok [w..<w + num]"
  by (auto simp: list_all_iff)

lemma scan_loop_window:
  assumes "scan_loop nw num True avoid s [c..<e] servers ports = (r, s')"
    and "scan_host nw free indep held s0" "scanning s0 held s servers c" "0 < c" "c \<le> e" "start \<le> c - length ports" "length ports \<le> c"
    and "length ports < num" "ports = [c - length ports..<c]" "list_all (usable s0 avoid free indep) ports"
    and "\<And>v. start \<le> v \<Longrightarrow> v < c - length ports \<Longrightarrow> \<not> list_all (usable s0 avoid free indep) [v..<v + num]"
    and "servers = [] \<or> ports \<noteq> []"
  shows "map_option snd r = first_ports (usable s0 avoid free indep) num True start e"
  using assms
proof (induction "e - c" arbitrary: c s servers ports)
  case 0
  let ?ok = "usable s0 avoid free indep"
  have "\<not> list_all ?ok [v..<v + num]" if "v \<in> set [start..<Suc e - num]" for v using that 0 by auto
  then have "find (\<lambda>w. list_all ?ok [w..<w + num]) [start..<Suc e - num] = None" unfolding find_None_iff by blast
  with 0 show ?case by (auto simp: first_ports_def)
next
  case (Suc n)
  let ?ok = "usable s0 avoid free indep"
  note up = upt_step(1)[OF Suc.hyps(2)] and e = upt_step(2,3)[OF Suc.hyps(2)]
  obtain r1 s1 where cl: "claim_port nw s c avoid = (r1, s1)" by force
  note run = Suc.prems(1)[unfolded up scan_loop.simps cl prod.case]
  note st = scanning_step[OF Suc.prems(2,3,4) cl]
  note IH = Suc.hyps(1)[OF e(2)]
  show ?case
  proof (cases r1)
    case None
    obtain s2 where 2: "scan_loop nw num True avoid s2 [Suc c..<e] [] [] = (r, s')" "scanning s0 held s2 [] (Suc c)"
      using run None st(2) Suc.prems(12) by (cases "ports = []") auto
    have "\<not> list_all ?ok [v..<v + num]" if "start \<le> v" "v < Suc c" for v
    proof (cases "v < c - length ports")
      case False
      with that Suc.prems(7,8) show ?thesis using window_blocked[of ?ok c v num] st(1) None by auto
    qed (use that Suc.prems(11) in simp)
    then show ?thesis using IH[OF 2(1) Suc.prems(2) 2(2)] e Suc.prems(6,8) by simp
  next
    case (Some claimed)
    have all: "list_all ?ok (ports @ [c])" using Suc.prems(10) st(1) Some by simp
    have seg: "ports @ [c] = [Suc c - length (ports @ [c])..<Suc c]" by (rule upt_extend[OF Suc.prems(9,7)])
    show ?thesis
    proof (cases "length (ports @ [c]) = num")
      case True
      with run Some have r: "map_option snd r = Some (ports @ [c])" by auto
      have k: "Suc c - length (ports @ [c]) = c - length ports" "Suc c = c - length ports + num" using True Suc.prems(7) by auto
      then have w: "ports @ [c] = [c - length ports..<(c - length ports) + num]" using seg by metis
      have "find (\<lambda>w. list_all ?ok [w..<w + num]) [start..<Suc e - num] = Some (c - length ports)"
        using all[unfolded w] k(2) Suc.prems(6,7,11) e(1) by (intro find_upt_eqI) auto
      with r w show ?thesis by (simp add: first_ports_def)
    next
      case False
      with run Some have "scan_loop nw num True avoid s1 [Suc c..<e] (servers @ claimed) (ports @ [c]) = (r, s')" by simp
      from IH[OF this Suc.prems(2) st(3)[OF Some]] show ?thesis
        using e Suc.prems(6-8,11) all seg False by auto
    qed
  qed
qed

lemma scan_loop_lowest:
  assumes "scan_loop nw num False avoid s [c..<e] servers ports = (r, s')"
    and "scan_host nw free indep held s0" "scanning s0 held s servers c" "0 < c" "c \<le> e" "length ports < num"
  shows "map_option snd r =
    (let ps = ports @ filter (usable s0 avoid free indep) [c..<e] in if num \<le> length ps then Some (take num ps) else None)"
  using assms
proof (induction "e - c" arbitrary: c s servers ports)
  case (Suc n)
  note up = upt_step(1)[OF Suc.hyps(2)] and e = upt_step(2,3)[OF Suc.hyps(2)]
  obtain r1 s1 where cl: "claim_port nw s c avoid = (r1, s1)" by force
  note run = Suc.prems(1)[unfolded up scan_loop.simps cl prod.case]
  note st = scanning_step[OF Suc.prems(2,3,4) cl]
  note IH = Suc.hyps(1)[OF e(2) _ Suc.prems(2) _ _ e(1)]
  show ?case
  proof (cases r1)
    case None
    with run have "scan_loop nw num False avoid s1 [Suc c..<e] servers ports = (r, s')" by simp
    from IH[OF this conjunct1[OF st(2)[OF None]] _ Suc.prems(6)] st(1) None show ?thesis by (simp add: up)
  next
    case (Some claimed)
    show ?thesis
    proof (cases "length (ports @ [c]) = num")
      case True
      with run Some st(1) show ?thesis by (auto simp: up Let_def)
    next
      case False
      with run Some have "scan_loop nw num False avoid s1 [Suc c..<e] (servers @ claimed) (ports @ [c]) = (r, s')" by simp
      from IH[OF this st(3)[OF Some]] False Suc.prems(6) st(1) Some show ?thesis by (simp add: up)
    qed
  qed
qed auto

text \<open>
  C23: On a host on which no other process binds or frees a port during the scan, and once the host has been
  probed, \<open>findFreePorts\<close> returns the lowest window of consecutive ports of its range that are all usable, and
  without \<open>consecutive\<close> the lowest usable ports; it fails exactly when the range has no such ports. A port is usable
  if it is on no avoid list and on every address of a claim free of other processes and of the scanner's own
  sockets.
\<close>

theorem free_ports_first_fit:
  assumes "scan_host nw free indep held s" "0 < num" "scan_start preferred = start"
  shows "(case fst (find_free_ports nw s num preferred consecutive avoid) of Inl e \<Rightarrow> None | Inr ports \<Rightarrow> Some ports) =
    first_ports (usable s avoid free indep) num consecutive start (Suc (scan_ceiling start))"
proof -
  obtain r s1 where r: "scan_loop nw num consecutive avoid s [start..<Suc (scan_ceiling start)] [] [] = (r, s1)" by force
  have f: "(case fst (find_free_ports nw s num preferred consecutive avoid) of Inl e \<Rightarrow> None | Inr ports \<Rightarrow> Some ports) = map_option snd r"
    using assms(2,3) r by (cases r) (auto simp: find_free_ports_def find_available_port_range_def Let_def simp del: upt_Suc split: prod.split)
  have b: "0 < start" "start \<le> Suc (scan_ceiling start)" using scan_start_bounds[of preferred] assms(3) by auto
  have sc: "scanning s held s [] start" using assms(1) by (simp add: scanning_def scan_host_def)
  show ?thesis
  proof (cases consecutive)
    case True
    then have r': "scan_loop nw num True avoid s [start..<Suc (scan_ceiling start)] [] [] = (r, s1)" using r by simp
    from scan_loop_window[OF r' assms(1) sc b, of start] assms(2) f True show ?thesis by (simp del: upt_Suc)
  next
    case False
    then have r': "scan_loop nw num False avoid s [start..<Suc (scan_ceiling start)] [] [] = (r, s1)" using r by simp
    from scan_loop_lowest[OF r' assms(1) sc b] assms(2) f False show ?thesis by (simp add: first_ports_def del: upt_Suc)
  qed
qed

text \<open>A host that keeps the sockets of the scanner; 65531 is taken by another process.\<close>

definition small_host :: "socket list network" where
  "small_host = \<lparr>nw_listen = \<lambda>os p h. (if p = 0 then (Some 40000, (40000, h) # os)
       else if p = 65531 \<or> (p, h) \<in> set os then (None, os) else (Some p, (p, h) # os)),
     nw_close = \<lambda>os sock. remove1 sock os\<rparr>"

lemma small_host_network: "host_network small_host (\<lambda>p h. p \<noteq> 65531) True mset"
  by (auto simp: host_network_def small_host_def can_bind_def)

lemma free_ports_first_fit_witness:
  "(case fst (find_free_ports small_host (((scanner_new [(65532, all_interfaces)])\<lparr>sn_open := [(65532, all_interfaces)]\<rparr>)\<lparr>sn_probe := Some True\<rparr>)
       2 65530 True []) of Inl e \<Rightarrow> None | Inr ports \<Rightarrow> Some ports) = Some [65533, 65534]"
proof -
  let ?s = "((scanner_new [(65532, all_interfaces)])\<lparr>sn_open := [(65532, all_interfaces)]\<rparr>)\<lparr>sn_probe := Some True\<rparr>"
  have st: "scan_start 65530 = 65530" "scan_ceiling 65530 = 65535"
    by (simp_all add: scan_start_def scan_ceiling_def max_port_def ephemeral_port_start_def)
  have h: "scan_host small_host (\<lambda>p h. p \<noteq> 65531) True mset ?s"
    by (simp add: scan_host_def small_host_network) (simp add: scanner_new_def)
  have l: "[65530..<Suc (Suc 65536) - 2] = [65530, 65531, 65532, 65533, 65534, 65535::nat]" by (simp add: upt_rec_numeral)
  have "first_ports (usable ?s [] (\<lambda>p h. p \<noteq> 65531) True) 2 True 65530 (Suc 65535) = Some [65533, 65534]"
    by (simp add: first_ports_def usable_def hosts_of_def scanner_new_def can_bind_def all_interfaces_def loopback_addr_def upt_rec_numeral l)
  then show ?thesis using free_ports_first_fit[OF h, of 2 65530 65530 True "[]"] st by simp
qed

subsection \<open>Nothing leaks\<close>

definition lock_sockets :: "'o scanner \<Rightarrow> port_lock \<Rightarrow> socket list" where
  "lock_sockets s lock = concat (map (\<lambda>p. map (Pair p) (hosts_of s)) (lk_ports lock))"

text \<open>Every lock of the list is unreleased and holds its ports; the open sockets are the locks' sockets.\<close>

definition scanner_ok :: "'o scanner \<Rightarrow> bool" where
  "scanner_ok s \<longleftrightarrow> opened s = mset (concat (map lk_servers (sn_locks s))) \<and>
     (\<forall>l \<in> set (sn_locks s). \<not> lk_released l \<and> lk_servers l = lock_sockets s l \<and> (lk_ports l \<noteq> [] \<longrightarrow> sn_probe s \<noteq> None)) \<and>
     distinct (concat (sn_emitted s)) \<and> set (concat (sn_emitted s)) \<subseteq> set (sn_avoid s)"

lemma scanner_ok_same:
  assumes "scanner_ok s" "same_rest s s'" "opened s' = opened s" "sn_probe s \<noteq> None \<longrightarrow> sn_probe s' = sn_probe s"
  shows "scanner_ok s'"
proof -
  have "lk_ports l = [] \<or> sn_probe s \<noteq> None \<Longrightarrow> lock_sockets s' l = lock_sockets s l" for l
    using assms(4) by (auto simp: lock_sockets_def hosts_of_def)
  with assms show ?thesis by (auto simp: scanner_ok_def same_rest_def)
qed

lemma scan_loop_probe: "scan_loop nw num cons avoid s [c..<e] servers ports = (r, s') \<Longrightarrow> 0 < c \<Longrightarrow> sn_probe s \<noteq> None \<longrightarrow> sn_probe s' = sn_probe s"
proof (induction "e - c" arbitrary: c s servers ports)
  case (Suc n)
  note up = upt_step(1)[OF Suc.hyps(2)] and e = upt_step(2,3)[OF Suc.hyps(2)]
  obtain r1 s1 where cl: "claim_port nw s c avoid = (r1, s1)" by force
  note o = claim_port_open[OF cl]
  note run = Suc.prems(1)[unfolded up scan_loop.simps cl prod.case]
  have "r = Some x \<Longrightarrow> s' = s1 \<Longrightarrow> ?case" for x using o Suc.prems(2) by auto
  moreover have "?case" if "scan_loop nw num cons avoid s2 [Suc c..<e] sv ps = (r, s')" "sn_probe s2 = sn_probe s1" for s2 sv ps
    using Suc.hyps(1)[OF e(2) that(1)] that(2) o Suc.prems(2) by auto
  ultimately show ?case using run by (auto split: option.splits if_splits)
qed auto

lemma range_probe:
  assumes "find_available_port_range nw s num preferred consecutive avoid = (r, s')"
  shows "sn_probe s \<noteq> None \<longrightarrow> sn_probe s' = sn_probe s"
proof -
  obtain r1 s1 where r: "scan_loop nw num consecutive avoid s [scan_start preferred..<Suc (scan_ceiling (scan_start preferred))] [] [] = (r1, s1)"
    by force
  with assms scan_loop_probe[OF r] scan_start_bounds(1) show ?thesis
    by (auto simp: find_available_port_range_def r Let_def split: if_splits option.splits prod.splits simp del: upt_Suc)
qed

lemma find_free_ports_ok:
  assumes "scanner_ok s" shows "scanner_ok (snd (find_free_ports nw s num preferred consecutive avoid))"
proof -
  obtain r s1 where f: "find_available_port_range nw s num preferred consecutive avoid = (r, s1)" by force
  note pr = range_probe[OF f]
  show ?thesis
  proof (cases r)
    case (Inl e)
    with f range_error_open[of nw s num preferred consecutive avoid e s1] scanner_ok_same[OF assms] pr show ?thesis
      by (simp add: find_free_ports_def)
  next
    case (Inr lock)
    note l = range_lock[OF f[unfolded Inr]]
    then obtain c where h: "holding (scan_start preferred) c consecutive avoid s1 (lk_servers lock) (lk_ports lock)" by blast
    have d: "distinct (lk_ports lock)" "set (lk_ports lock) \<inter> set (sn_avoid s1) = {}" "lk_servers lock = lock_sockets s1 lock"
      "lk_ports lock \<noteq> [] \<longrightarrow> sn_probe s1 \<noteq> None"
      using h by (auto simp: holding_def lock_sockets_def strict_sorted_iff)
    have ok: "scanner_ok (s1\<lparr>sn_open := sn_open s\<rparr>)"
      by (rule scanner_ok_same[OF assms]) (use l pr in \<open>auto simp: same_rest_def\<close>)
    have "lock_sockets (emit_allocated (s1\<lparr>sn_locks := sn_locks s1 @ [lock]\<rparr>) (lk_ports lock)) l = lock_sockets s1 l"
      "lock_sockets (s1\<lparr>sn_open := sn_open s\<rparr>) l = lock_sockets s1 l" for l
      by (simp_all add: lock_sockets_def hosts_of_def)
    with ok d l f Inr show ?thesis
      by (auto simp: find_free_ports_def scanner_ok_def same_rest_def)
  qed
qed

lemma release_all_open:
  assumes "\<forall>l \<in> set locks. \<not> lk_released l"
  shows "same_rest s (foldl (\<lambda>s l. snd (release_lock nw s l)) s locks) \<and>
    sn_probe (foldl (\<lambda>s l. snd (release_lock nw s l)) s locks) = sn_probe s \<and>
    opened (foldl (\<lambda>s l. snd (release_lock nw s l)) s locks) = opened s - mset (concat (map lk_servers locks))"
  using assms
proof (induction locks arbitrary: s)
  case (Cons l locks)
  have "same_rest s (snd (release_lock nw s l))" using Cons.prems by (simp add: release_lock_def)
  with Cons.IH[of "snd (release_lock nw s l)"] Cons.prems show ?case
    by (auto simp: release_lock_def intro: same_rest_trans)
qed simp

lemma mset_filter_rest: "mset (concat (map f xs)) - mset (concat (map f (filter P xs))) = mset (concat (map f (filter (\<lambda>x. \<not> P x) xs)))"
proof -
  have "mset (concat (map f xs)) = mset (concat (map f (filter P xs))) + mset (concat (map f (filter (\<lambda>x. \<not> P x) xs)))"
    by (induction xs) auto
  then show ?thesis by simp
qed

lemma mset_concat_rev: "mset (concat (map f (rev xs))) = mset (concat (map f xs))"
  by (induction xs) auto

lemma unlock_ports_ok:
  assumes ok: "scanner_ok s"
  shows "scanner_ok (unlock_ports_if_free nw s wanted) \<and>
    sn_locks (unlock_ports_if_free nw s wanted) = filter (\<lambda>l. \<not> set (lk_ports l) \<subseteq> set wanted) (sn_locks s) \<and>
    sn_avoid (unlock_ports_if_free nw s wanted) = sn_avoid s"
proof -
  let ?cov = "\<lambda>l. set (lk_ports l) \<subseteq> set wanted"
  let ?s = "s\<lparr>sn_locks := filter (\<lambda>l. \<not> ?cov l) (sn_locks s)\<rparr>"
  have un: "\<forall>l \<in> set (rev (filter ?cov (sn_locks s))). \<not> lk_released l" using ok by (auto simp: scanner_ok_def)
  note r = release_all_open[OF un, of ?s nw]
  let ?t = "unlock_ports_if_free nw s wanted"
  have t: "same_rest ?s ?t" "sn_probe ?t = sn_probe s" "opened ?t = opened s - mset (concat (map lk_servers (filter ?cov (sn_locks s))))"
    using r by (simp_all add: unlock_ports_if_free_def Let_def mset_concat_rev)
  have "lock_sockets ?t l = lock_sockets s l" for l using t(2) by (simp add: lock_sockets_def hosts_of_def)
  with t ok show ?thesis by (auto simp: scanner_ok_def same_rest_def mset_filter_rest)
qed

lemma release_held_as_unlock:
  assumes "scanner_ok s" shows "scanner_ok (release_held_ports nw s) \<and> sn_locks (release_held_ports nw s) = [] \<and>
    sn_open (release_held_ports nw s) = [] \<and> sn_avoid (release_held_ports nw s) = sn_avoid s"
proof -
  have "\<forall>l \<in> set (sn_locks s). \<not> lk_released l" using assms by (auto simp: scanner_ok_def)
  note r = release_all_open[OF this, of "s\<lparr>sn_locks := []\<rparr>" nw, folded release_held_ports_def]
  then have "opened (release_held_ports nw s) = {#}" using assms by (simp add: scanner_ok_def)
  with r assms show ?thesis by (auto simp: scanner_ok_def same_rest_def)
qed

lemma probe_each_open: "probe_each nw s p hs = (b, s') \<Longrightarrow> same_rest s s' \<and> opened s' = opened s \<and> sn_probe s' = sn_probe s"
proof (induction nw s p hs rule: probe_each.induct)
  case (2 nw s p h hs)
  obtain r s1 where 1: "try_listen nw s p h = (r, s1)" by force
  note o = try_listen_open[OF 1]
  show ?case
  proof (cases r)
    case (Some sock)
    have "same_rest s (close_socket nw s1 sock)" using o by simp
    with "2.IH"[OF 1[symmetric] Some] "2.prems" 1 o Some show ?thesis by (auto intro: same_rest_trans)
  qed (use 1 o "2.prems" in auto)
qed simp

lemma is_port_in_use_ok: "scanner_ok s \<Longrightarrow> scanner_ok (snd (is_port_in_use nw s p avoid hosts))"
proof -
  assume ok: "scanner_ok s"
  show ?thesis
  proof (cases "p \<in> set avoid")
    case False
    obtain b s1 where 1: "probe_each nw s p (if hosts \<noteq> [] then hosts else [loopback_addr, all_interfaces]) = (b, s1)"
      by (rule prod.exhaust)
    from probe_each_open[OF this] have "scanner_ok s1" by (intro scanner_ok_same[OF ok]) auto
    with 1 False show ?thesis unfolding is_port_in_use_def by simp
  qed (simp add: is_port_in_use_def ok)
qed

lemma port_step_ok: assumes "scanner_ok s" shows "scanner_ok (port_step nw s e)"
proof (cases e)
  case (Unlock ps)
  with unlock_ports_ok[OF assms, of nw ps] show ?thesis by simp
next
  case ReleaseAll
  with release_held_as_unlock[OF assms, of nw] show ?thesis by simp
qed (simp_all add: find_free_ports_ok[OF assms] is_port_in_use_ok[OF assms])

lemma port_run_ok: "scanner_ok (port_run nw (scanner_new os) es)"
proof (induction es rule: rev_induct)
  case Nil
  then show ?case by (simp add: port_run_def scanner_new_def scanner_ok_def)
next
  case (snoc e es)
  then show ?case by (simp add: port_run_def port_step_ok)
qed

text \<open>
  Over any sequence of allocations, probes, unlocks and releases, and whatever the network answers,
  the sockets the process holds are exactly those of the locks it still has, no port is ever handed out
  twice, and releasing the held ports closes every socket and keeps the ports on the avoid list.
\<close>

lemma scanner_leaks_nothing:
  "mset (sn_open (port_run nw (scanner_new os) es)) = mset (concat (map (lock_sockets (port_run nw (scanner_new os) es)) (sn_locks (port_run nw (scanner_new os) es)))) \<and>
   distinct (concat (sn_emitted (port_run nw (scanner_new os) es))) \<and>
   sn_open (port_run nw (scanner_new os) (es @ [ReleaseAll])) = [] \<and>
   sn_avoid (port_run nw (scanner_new os) (es @ [ReleaseAll])) = sn_avoid (port_run nw (scanner_new os) es)"
proof -
  let ?s = "port_run nw (scanner_new os) es"
  have ok: "scanner_ok ?s" by (rule port_run_ok)
  then have "map lk_servers (sn_locks ?s) = map (lock_sockets ?s) (sn_locks ?s)" by (simp add: scanner_ok_def)
  with ok have "mset (sn_open ?s) = mset (concat (map (lock_sockets ?s) (sn_locks ?s)))" by (simp add: scanner_ok_def)
  with ok release_held_as_unlock[OF ok, of nw] show ?thesis by (simp add: port_run_def scanner_ok_def)
qed

end
