(* ===== verification/Manual.thy ===== *)
theory Manual
  imports Prelude
begin

text \<open>
  Manual interactions (\<open>common/manual-session.ts\<close>): one debug session at a time may ask its user for an
  action; the user starts it and stops it, and the end of the session or the loss of the client ends it.

  A flow is an object of a list; its index is its identity, because an ended flow that was replaced in
  the map may still have an open question. The user's answers, the aborts of signals and the calls of
  clients are the rules of a step relation; \<open>start\<close> is cut at its \<open>await\<close>.
\<close>

datatype manual_phase = Mwaiting | Mactive | Mended
datatype manual_status = WaitingForUser | UserConfirmed | UserStopped | CancelledByUser | SessionEnded
datatype button = StartButton | StopButton

record manual_state =
  mn_owner :: jstr
  mn_id :: jstr
  mn_name :: jstr
  mn_state :: manual_phase
  mn_status :: manual_status

record flow =
  fl_snapshot :: manual_state
  fl_abort :: bool
  fl_done :: "manual_state option"
  fl_owner_signal :: nat
  fl_client_signal :: nat
  fl_asked :: "button option"

datatype manual_error = AlreadyPending | Disconnected | NoInteraction | ClientDisconnected | AskFailed jstr

record waiter =
  wt_flow :: nat
  wt_signal :: nat
  wt_result :: "(manual_error + manual_state) option"

text \<open>Who is called when a signal aborts: \<open>ended\<close> and \<open>detached\<close> of a flow, \<open>abort\<close> of a wait.\<close>

datatype listener = OnEnded nat | OnDetached nat | OnWaitAbort nat

record manual_manager =
  mg_flows :: "(jstr \<times> nat) list"
  mg_objs :: "flow list"
  mg_waits :: "waiter list"
  mg_listeners :: "(nat \<times> listener) list"
  mg_aborted :: "nat list"
  mg_published :: "(nat \<times> manual_state) list"
  mg_started :: "(nat \<times> (manual_error + manual_state)) list"

definition manual_manager_new :: manual_manager where
  "manual_manager_new = \<lparr>mg_flows = [], mg_objs = [], mg_waits = [], mg_listeners = [], mg_aborted = [], mg_published = [], mg_started = []\<rparr>"

abbreviation snapshot :: "manual_manager \<Rightarrow> nat \<Rightarrow> manual_state" where
  "snapshot m f \<equiv> fl_snapshot (mg_objs m ! f)"

definition manual_status_of :: "manual_manager \<Rightarrow> jstr \<Rightarrow> manual_state option" where
  "manual_status_of m owner = map_option (snapshot m) (map_of (mg_flows m) owner)"

definition unlisten :: "nat \<times> listener \<Rightarrow> manual_manager \<Rightarrow> manual_manager" where
  "unlisten l m = m\<lparr>mg_listeners := filter (\<lambda>l'. l' \<noteq> l) (mg_listeners m)\<rparr>"

definition publish :: "nat \<Rightarrow> manual_manager \<Rightarrow> manual_manager" where
  "publish f m = m\<lparr>mg_published := mg_published m @ [(f, snapshot m f)]\<rparr>"

text \<open>\<open>resolve\<close>: every wait still racing on \<open>done\<close> returns and removes its listener.\<close>

definition settle_wait :: "nat \<Rightarrow> manual_state \<Rightarrow> waiter \<Rightarrow> waiter" where
  "settle_wait f st w = (if wt_flow w = f \<and> wt_result w = None then w\<lparr>wt_result := Some (Inr st)\<rparr> else w)"

definition waits_on :: "manual_manager \<Rightarrow> nat \<Rightarrow> listener \<Rightarrow> bool" where
  "waits_on m f l = (case l of OnWaitAbort w \<Rightarrow> wt_flow (mg_waits m ! w) = f | _ \<Rightarrow> False)"

definition resolve_done :: "nat \<Rightarrow> manual_state \<Rightarrow> manual_manager \<Rightarrow> manual_manager" where
  "resolve_done f st m = m\<lparr>mg_waits := map (settle_wait f st) (mg_waits m),
     mg_listeners := filter (\<lambda>(sig, l). \<not> waits_on m f l) (mg_listeners m)\<rparr>"

definition finish :: "manual_manager \<Rightarrow> nat \<Rightarrow> manual_status \<Rightarrow> manual_manager" where
  "finish m f status = (let flow = mg_objs m ! f in
     if mn_state (fl_snapshot flow) = Mended then m
     else let snap = (fl_snapshot flow)\<lparr>mn_state := Mended, mn_status := status\<rparr>;
              m1 = m\<lparr>mg_objs := (mg_objs m)[f := flow\<lparr>fl_snapshot := snap, fl_abort := True, fl_done := Some snap\<rparr>]\<rparr>;
              m2 = unlisten (fl_owner_signal flow, OnEnded f) m1
          in publish f (resolve_done f snap m2))"

definition manual_start :: "manual_manager \<Rightarrow> jstr \<Rightarrow> jstr \<Rightarrow> nat \<Rightarrow> nat \<Rightarrow> jstr \<Rightarrow> (manual_error + nat) \<times> manual_manager" where
  "manual_start m owner name owner_sig client_sig uuid =
     (if (case map_of (mg_flows m) owner of None \<Rightarrow> False | Some f \<Rightarrow> mn_state (snapshot m f) \<noteq> Mended) then (Inl AlreadyPending, m)
      else if owner_sig \<in> set (mg_aborted m) \<or> client_sig \<in> set (mg_aborted m) then (Inl Disconnected, m)
      else let f = length (mg_objs m);
               flow = \<lparr>fl_snapshot = \<lparr>mn_owner = owner, mn_id = uuid, mn_name = name, mn_state = Mwaiting, mn_status = WaitingForUser\<rparr>,
                       fl_abort = False, fl_done = None, fl_owner_signal = owner_sig, fl_client_signal = client_sig, fl_asked = Some StartButton\<rparr>
           in (Inr f, publish f (m\<lparr>mg_objs := mg_objs m @ [flow], mg_flows := AList.update owner f (mg_flows m),
                 mg_listeners := mg_listeners m @ [(owner_sig, OnEnded f), (client_sig, OnDetached f)]\<rparr>)))"

text \<open>What follows the first \<open>await\<close> of \<open>start\<close>: the answer of the user, or the failure of \<open>ask\<close>.\<close>

definition start_returns :: "nat \<Rightarrow> manual_error + manual_state \<Rightarrow> manual_manager \<Rightarrow> manual_manager" where
  "start_returns f r m =
     (let m = unlisten (fl_client_signal (mg_objs m ! f), OnDetached f) m in m\<lparr>mg_started := mg_started m @ [(f, r)]\<rparr>)"

definition set_asked :: "nat \<Rightarrow> button option \<Rightarrow> manual_manager \<Rightarrow> manual_manager" where
  "set_asked f b m = m\<lparr>mg_objs := (mg_objs m)[f := (mg_objs m ! f)\<lparr>fl_asked := b\<rparr>]\<rparr>"

definition start_answered :: "manual_manager \<Rightarrow> nat \<Rightarrow> jstr + bool \<Rightarrow> manual_manager" where
  "start_answered m f r = (let m = set_asked f None m in case r of
     Inl e \<Rightarrow> start_returns f (Inl (AskFailed e)) (finish m f CancelledByUser)
   | Inr accepted \<Rightarrow>
       if mn_state (snapshot m f) = Mended then start_returns f (Inr (snapshot m f)) m
       else if \<not> accepted then (let m = finish m f CancelledByUser in start_returns f (Inr (snapshot m f)) m)
       else let m = unlisten (fl_client_signal (mg_objs m ! f), OnDetached f) m;
                m = m\<lparr>mg_objs := (mg_objs m)[f := (mg_objs m ! f)
                       \<lparr>fl_snapshot := (snapshot m f)\<lparr>mn_state := Mactive, mn_status := UserConfirmed\<rparr>\<rparr>]\<rparr>;
                m = set_asked f (Some StopButton) (publish f m)
            in start_returns f (Inr (snapshot m f)) m)"

definition stop_answered :: "manual_manager \<Rightarrow> nat \<Rightarrow> jstr + bool \<Rightarrow> manual_manager" where
  "stop_answered m f r = (let m = set_asked f None m in case r of
     Inr stopped \<Rightarrow> finish m f (if stopped then UserStopped else CancelledByUser)
   | Inl e \<Rightarrow> finish m f CancelledByUser)"

definition manual_wait :: "manual_manager \<Rightarrow> jstr \<Rightarrow> nat \<Rightarrow> (manual_error + nat) \<times> manual_manager" where
  "manual_wait m owner sig = (case map_of (mg_flows m) owner of
     None \<Rightarrow> (Inl NoInteraction, m)
   | Some f \<Rightarrow>
       if sig \<in> set (mg_aborted m) then (Inl ClientDisconnected, m)
       else let w = length (mg_waits m) in case fl_done (mg_objs m ! f) of
           Some st \<Rightarrow> (Inr w, m\<lparr>mg_waits := mg_waits m @ [\<lparr>wt_flow = f, wt_signal = sig, wt_result = Some (Inr st)\<rparr>]\<rparr>)
         | None \<Rightarrow> (Inr w, m\<lparr>mg_waits := mg_waits m @ [\<lparr>wt_flow = f, wt_signal = sig, wt_result = None\<rparr>],
               mg_listeners := mg_listeners m @ [(sig, OnWaitAbort w)]\<rparr>))"

definition manual_dispose :: "manual_manager \<Rightarrow> manual_manager" where
  "manual_dispose m = (foldl (\<lambda>m (owner, f). finish m f SessionEnded) m (mg_flows m))\<lparr>mg_flows := []\<rparr>"

text \<open>An abort calls the listeners of the signal in order; each is removed before it runs.\<close>

definition call_listener :: "nat \<Rightarrow> manual_manager \<Rightarrow> listener \<Rightarrow> manual_manager" where
  "call_listener sig m l = (if (sig, l) \<notin> set (mg_listeners m) then m
     else let m = unlisten (sig, l) m in case l of
         OnEnded f \<Rightarrow> finish m f SessionEnded
       | OnDetached f \<Rightarrow> finish m f CancelledByUser
       | OnWaitAbort w \<Rightarrow> m\<lparr>mg_waits := (mg_waits m)[w := (mg_waits m ! w)\<lparr>wt_result := Some (Inl ClientDisconnected)\<rparr>]\<rparr>)"

definition signal_abort :: "manual_manager \<Rightarrow> nat \<Rightarrow> manual_manager" where
  "signal_abort m sig = (if sig \<in> set (mg_aborted m) then m
     else let m = m\<lparr>mg_aborted := sig # mg_aborted m\<rparr>
          in foldl (call_listener sig) m (map snd (filter (\<lambda>(s, l). s = sig) (mg_listeners m))))"

inductive manual_step :: "manual_manager \<Rightarrow> manual_manager \<Rightarrow> bool" where
  begin_flow: "manual_step m (snd (manual_start m owner name owner_sig client_sig uuid))"
| answer_start: "f < length (mg_objs m) \<Longrightarrow> fl_asked (mg_objs m ! f) = Some StartButton \<Longrightarrow> manual_step m (start_answered m f r)"
| answer_stop: "f < length (mg_objs m) \<Longrightarrow> fl_asked (mg_objs m ! f) = Some StopButton \<Longrightarrow> manual_step m (stop_answered m f r)"
| wait_flow: "manual_step m (snd (manual_wait m owner sig))"
| abort_signal: "manual_step m (signal_abort m sig)"
| dispose_all: "manual_step m (manual_dispose m)"

inductive_cases manual_stepE [elim]: "manual_step m m'"

inductive manual_reachable :: "manual_manager \<Rightarrow> bool" where
  initial: "manual_reachable manual_manager_new"
| next_step: "manual_reachable m \<Longrightarrow> manual_step m m' \<Longrightarrow> manual_reachable m'"

subsection \<open>Well-formed managers\<close>

definition phase_ok :: "manual_state \<Rightarrow> bool" where
  "phase_ok st = (case mn_state st of
     Mwaiting \<Rightarrow> mn_status st = WaitingForUser
   | Mactive \<Rightarrow> mn_status st = UserConfirmed
   | Mended \<Rightarrow> mn_status st \<in> set [UserStopped, CancelledByUser, SessionEnded])"

definition published_of :: "manual_manager \<Rightarrow> nat \<Rightarrow> manual_state list" where
  "published_of m f = map snd (filter (\<lambda>(g, _). g = f) (mg_published m))"

text \<open>What clients see of one interaction: it waits, it may become active, it may end, in this order.\<close>

definition manual_life :: "manual_state list \<Rightarrow> manual_state \<Rightarrow> bool" where
  "manual_life xs st = (xs \<noteq> [] \<and> last xs = st \<and> list_all phase_ok xs \<and>
     map mn_state xs \<in> set [[Mwaiting], [Mwaiting, Mactive], [Mwaiting, Mended], [Mwaiting, Mactive, Mended]] \<and>
     list_all (\<lambda>x. mn_owner x = mn_owner st \<and> mn_id x = mn_id st \<and> mn_name x = mn_name st) xs)"

definition flow_ok :: "manual_manager \<Rightarrow> nat \<Rightarrow> bool" where
  "flow_ok m f = (let fl = mg_objs m ! f; st = fl_snapshot fl in
     manual_life (published_of m f) st \<and>
     (mn_state st = Mended \<longrightarrow> fl_done fl = Some st \<and> fl_abort fl) \<and>
     (mn_state st \<noteq> Mended \<longrightarrow> fl_done fl = None \<and> \<not> fl_abort fl \<and>
        (fl_owner_signal fl, OnEnded f) \<in> set (mg_listeners m) \<and> map_of (mg_flows m) (mn_owner st) = Some f) \<and>
     (mn_state st = Mwaiting \<longrightarrow> (fl_client_signal fl, OnDetached f) \<in> set (mg_listeners m)) \<and>
     (fl_asked fl = Some StartButton \<longrightarrow> mn_state st \<noteq> Mactive) \<and> (fl_asked fl = Some StopButton \<longrightarrow> mn_state st \<noteq> Mwaiting))"

definition wait_ok :: "nat set \<Rightarrow> manual_manager \<Rightarrow> nat \<Rightarrow> bool" where
  "wait_ok D m w = (let wt = mg_waits m ! w in wt_flow wt < length (mg_objs m) \<and> (case wt_result wt of
     None \<Rightarrow> fl_done (mg_objs m ! wt_flow wt) = None \<and> (wt_signal wt, OnWaitAbort w) \<in> set (mg_listeners m)
   | Some (Inr st) \<Rightarrow> fl_done (mg_objs m ! wt_flow wt) = Some st
   | Some (Inl e) \<Rightarrow> e = ClientDisconnected \<and> wt_signal wt \<in> D))"

definition listener_ok :: "manual_manager \<Rightarrow> nat \<times> listener \<Rightarrow> bool" where
  "listener_ok m = (\<lambda>(sig, l). case l of
     OnEnded f \<Rightarrow> f < length (mg_objs m) \<and> sig = fl_owner_signal (mg_objs m ! f)
   | OnDetached f \<Rightarrow> f < length (mg_objs m) \<and> sig = fl_client_signal (mg_objs m ! f)
   | OnWaitAbort w \<Rightarrow> w < length (mg_waits m) \<and> sig = wt_signal (mg_waits m ! w) \<and> wt_result (mg_waits m ! w) = None)"

definition manual_inv :: "nat set \<Rightarrow> manual_manager \<Rightarrow> bool" where
  "manual_inv D m \<longleftrightarrow>
     (\<forall>f < length (mg_objs m). flow_ok m f) \<and> (\<forall>w < length (mg_waits m). wait_ok D m w) \<and>
     (\<forall>l \<in> set (mg_listeners m). listener_ok m l) \<and>
     distinct (map fst (mg_flows m)) \<and> (\<forall>(owner, f) \<in> set (mg_flows m). f < length (mg_objs m)) \<and>
     (\<forall>(f, st) \<in> set (mg_published m). f < length (mg_objs m))"

lemma manual_invD:
  assumes "manual_inv D m"
  shows "f < length (mg_objs m) \<Longrightarrow> flow_ok m f" "w < length (mg_waits m) \<Longrightarrow> wait_ok D m w"
    "l \<in> set (mg_listeners m) \<Longrightarrow> listener_ok m l"
    "map_of (mg_flows m) owner = Some f \<Longrightarrow> f < length (mg_objs m)"
  using assms by (auto simp: manual_inv_def dest: map_of_SomeD)

lemma phases_extend:
  assumes "ms \<in> set [[Mwaiting], [Mwaiting, Mactive], [Mwaiting, Mended], [Mwaiting, Mactive, Mended]]"
  shows "last ms \<noteq> Mended \<Longrightarrow> ms @ [Mended] \<in> set [[Mwaiting], [Mwaiting, Mactive], [Mwaiting, Mended], [Mwaiting, Mactive, Mended]]"
    "last ms = Mwaiting \<Longrightarrow> ms @ [Mactive] \<in> set [[Mwaiting], [Mwaiting, Mactive], [Mwaiting, Mended], [Mwaiting, Mactive, Mended]]"
  using assms by auto

lemma manual_life_step:
  assumes life: "manual_life xs st" and st': "phase_ok st'" "mn_owner st' = mn_owner st" "mn_id st' = mn_id st" "mn_name st' = mn_name st"
    and "(mn_state st \<noteq> Mended \<and> mn_state st' = Mended) \<or> (mn_state st = Mwaiting \<and> mn_state st' = Mactive)"
  shows "manual_life (xs @ [st']) st'"
proof -
  have l: "mn_state st = last (map mn_state xs)"
    using life last_map[of xs mn_state] unfolding manual_life_def by (elim conjE) simp
  have "map mn_state xs \<in> set [[Mwaiting], [Mwaiting, Mactive], [Mwaiting, Mended], [Mwaiting, Mactive, Mended]]"
    using life unfolding manual_life_def by blast
  note l = l this
  have "map mn_state (xs @ [st']) \<in> set [[Mwaiting], [Mwaiting, Mactive], [Mwaiting, Mended], [Mwaiting, Mactive, Mended]]"
    using assms(6)
  proof (elim disjE conjE)
    assume "mn_state st \<noteq> Mended" "mn_state st' = Mended"
    then show ?thesis using phases_extend(1)[OF l(2)] l(1) by (simp only: map_append list.map not_False_eq_True simp_thms)
  next
    assume "mn_state st = Mwaiting" "mn_state st' = Mactive"
    then show ?thesis using phases_extend(2)[OF l(2)] l(1) by (simp only: map_append list.map not_False_eq_True simp_thms)
  qed
  moreover have "list_all phase_ok (xs @ [st'])"
    "list_all (\<lambda>x. mn_owner x = mn_owner st' \<and> mn_id x = mn_id st' \<and> mn_name x = mn_name st') (xs @ [st'])"
    using life st' unfolding manual_life_def by (elim conjE, simp)+
  ultimately show ?thesis unfolding manual_life_def by (intro conjI) simp_all
qed

subsection \<open>Every operation keeps managers well-formed\<close>

lemma finish_ended: "mn_state (snapshot m f) = Mended \<Longrightarrow> finish m f s = m"
  by (simp add: finish_def)

text \<open>The fields of a manager after \<open>finish\<close> ended a flow.\<close>

lemma finish_fields:
  assumes "mn_state (snapshot m f) \<noteq> Mended" "f < length (mg_objs m)" and snap: "snap = (snapshot m f)\<lparr>mn_state := Mended, mn_status := s\<rparr>"
  shows "mg_objs (finish m f s) = (mg_objs m)[f := (mg_objs m ! f)\<lparr>fl_snapshot := snap, fl_abort := True, fl_done := Some snap\<rparr>]"
    "mg_waits (finish m f s) = map (settle_wait f snap) (mg_waits m)"
    "mg_listeners (finish m f s) = filter (\<lambda>(sig, l). (sig, l) \<noteq> (fl_owner_signal (mg_objs m ! f), OnEnded f) \<and> \<not> waits_on m f l) (mg_listeners m)"
    "mg_published (finish m f s) = mg_published m @ [(f, snap)]"
    "mg_flows (finish m f s) = mg_flows m" "mg_aborted (finish m f s) = mg_aborted m" "mg_started (finish m f s) = mg_started m"
  using assms(1,2) by (auto simp: finish_def Let_def publish_def resolve_done_def unlisten_def snap waits_on_def
      fun_eq_iff intro!: filter_cong split: listener.splits)

lemma settle_wait_simps [simp]:
  "wt_flow (settle_wait f st w) = wt_flow w" "wt_signal (settle_wait f st w) = wt_signal w"
  "wt_result (settle_wait f st w) = (if wt_flow w = f \<and> wt_result w = None then Some (Inr st) else wt_result w)"
  by (simp_all add: settle_wait_def)

lemma finish_inv:
  assumes inv: "manual_inv D m" and f: "f < length (mg_objs m)" and s: "s \<in> {UserStopped, CancelledByUser, SessionEnded}"
  shows "manual_inv D (finish m f s)"
proof (cases "mn_state (snapshot m f) = Mended")
  case False
  note fs = finish_fields[OF False f refl, of s]
  have "flow_ok (finish m f s) g" if g: "g < length (mg_objs m)" for g
  proof (cases "g = f")
    case True
    with manual_invD(1)[OF inv f] False s f show ?thesis
      by (auto simp: flow_ok_def fs published_of_def Let_def phase_ok_def intro!: manual_life_step)
  next
    case False
    with manual_invD(1)[OF inv g] g show ?thesis
      by (auto simp: flow_ok_def fs published_of_def Let_def waits_on_def)
  qed
  moreover have "wait_ok D (finish m f s) w" if w: "w < length (mg_waits m)" for w
    using manual_invD(2)[OF inv w] w f manual_invD(1)[OF inv f] False
    by (auto simp: flow_ok_def wait_ok_def fs Let_def waits_on_def nth_list_update split: option.splits sum.splits)
  moreover have "listener_ok (finish m f s) l" if l: "l \<in> set (mg_listeners (finish m f s))" for l
    using l manual_invD(3)[OF inv, of l] f
    by (auto simp: listener_ok_def fs waits_on_def nth_list_update split: listener.splits prod.splits)
  ultimately show ?thesis using inv f by (auto simp: manual_inv_def fs)
qed (simp add: finish_ended inv)

lemma finish_length [simp]: "length (mg_objs (finish m f s)) = length (mg_objs m)" "mg_aborted (finish m f s) = mg_aborted m"
  "mg_flows (finish m f s) = mg_flows m"
  by (simp_all add: finish_def Let_def publish_def resolve_done_def unlisten_def)

lemma finish_is_ended: "f < length (mg_objs m) \<Longrightarrow> mn_state (snapshot (finish m f s) f) = Mended"
  by (simp add: finish_def Let_def publish_def resolve_done_def unlisten_def)

lemma finish_other: "g \<noteq> f \<Longrightarrow> mg_objs (finish m f s) ! g = mg_objs m ! g"
  by (simp add: finish_def Let_def publish_def resolve_done_def unlisten_def)

lemma finish_shrinks_listeners: "set (mg_listeners (finish m f s)) \<subseteq> set (mg_listeners m)"
  by (auto simp: finish_def Let_def publish_def resolve_done_def unlisten_def)

lemma unlisten_simps [simp]:
  "mg_objs (unlisten l m) = mg_objs m" "mg_flows (unlisten l m) = mg_flows m" "mg_waits (unlisten l m) = mg_waits m"
  "mg_published (unlisten l m) = mg_published m" "mg_aborted (unlisten l m) = mg_aborted m" "mg_started (unlisten l m) = mg_started m"
  "set (mg_listeners (unlisten l m)) = set (mg_listeners m) - {l}"
  by (auto simp: unlisten_def)

lemma started_inv [simp]: "manual_inv D (m\<lparr>mg_started := x\<rparr>) = manual_inv D m"
proof -
  have "flow_ok (m\<lparr>mg_started := x\<rparr>) f = flow_ok m f" "wait_ok D (m\<lparr>mg_started := x\<rparr>) w = wait_ok D m w"
    "listener_ok (m\<lparr>mg_started := x\<rparr>) l = listener_ok m l" for f w l
    by (auto simp: flow_ok_def wait_ok_def listener_ok_def published_of_def Let_def split: prod.splits listener.splits option.splits sum.splits)
  then show ?thesis by (simp add: manual_inv_def)
qed

lemma drop_listener_inv:
  assumes inv: "manual_inv D m" and l: "case l of OnEnded f \<Rightarrow> mn_state (snapshot m f) = Mended
      | OnDetached f \<Rightarrow> mn_state (snapshot m f) \<noteq> Mwaiting | OnWaitAbort w \<Rightarrow> wt_result (mg_waits m ! w) \<noteq> None"
  shows "manual_inv D (unlisten (sig, l) m)"
proof -
  have "flow_ok (unlisten (sig, l) m) g" if "g < length (mg_objs m)" for g
    using manual_invD(1)[OF inv that] l by (auto simp: flow_ok_def published_of_def Let_def)
  moreover have "wait_ok D (unlisten (sig, l) m) w" if "w < length (mg_waits m)" for w
    using manual_invD(2)[OF inv that] l by (auto simp: wait_ok_def Let_def split: option.splits sum.splits)
  moreover have "listener_ok (unlisten (sig, l) m) l'" if "l' \<in> set (mg_listeners m)" for l'
    using manual_invD(3)[OF inv that] by (auto simp: listener_ok_def split: listener.splits)
  ultimately show ?thesis using inv by (auto simp: manual_inv_def)
qed

lemma start_returns_inv:
  assumes "manual_inv D m" "f < length (mg_objs m)" "mn_state (snapshot m f) \<noteq> Mwaiting"
  shows "manual_inv D (start_returns f r m)"
  using drop_listener_inv[OF assms(1), of "OnDetached f"] assms(3) by (simp add: start_returns_def Let_def)

text \<open>Operations on one flow that keep its snapshot and the rest.\<close>

lemma set_asked_inv:
  assumes "manual_inv D m" "f < length (mg_objs m)" shows "manual_inv D (set_asked f None m)"
proof -
  let ?m = "set_asked f None m"
  have "flow_ok ?m g" if "g < length (mg_objs m)" for g
    using manual_invD(1)[OF assms(1) that] assms(2) by (auto simp: flow_ok_def published_of_def set_asked_def nth_list_update Let_def)
  moreover have "wait_ok D ?m w" if "w < length (mg_waits m)" for w
    using manual_invD(2)[OF assms(1) that] assms(2) by (auto simp: wait_ok_def set_asked_def nth_list_update Let_def split: option.splits sum.splits)
  moreover have "listener_ok ?m l" if "l \<in> set (mg_listeners m)" for l
    using manual_invD(3)[OF assms(1) that] assms(2) by (auto simp: listener_ok_def set_asked_def nth_list_update split: listener.splits)
  ultimately show ?thesis using assms by (auto simp: manual_inv_def set_asked_def)
qed

lemma set_asked_simps [simp]:
  "snapshot (set_asked f b m) g = snapshot m g" "length (mg_objs (set_asked f b m)) = length (mg_objs m)"
  by (simp_all add: set_asked_def) (cases "f < length (mg_objs m)"; cases "f = g"; simp add: list_update_beyond)

definition activate :: "nat \<Rightarrow> manual_manager \<Rightarrow> manual_manager" where
  "activate f m = (let m = unlisten (fl_client_signal (mg_objs m ! f), OnDetached f) m;
       m = m\<lparr>mg_objs := (mg_objs m)[f := (mg_objs m ! f)\<lparr>fl_snapshot := (snapshot m f)\<lparr>mn_state := Mactive, mn_status := UserConfirmed\<rparr>\<rparr>]\<rparr>
     in set_asked f (Some StopButton) (publish f m))"

lemma activate_inv:
  assumes inv: "manual_inv D m" and f: "f < length (mg_objs m)" and w: "mn_state (snapshot m f) = Mwaiting"
  shows "manual_inv D (activate f m)" "mn_state (snapshot (activate f m) f) = Mactive" "length (mg_objs (activate f m)) = length (mg_objs m)"
proof -
  let ?m = "activate f m"
  let ?snap = "(snapshot m f)\<lparr>mn_state := Mactive, mn_status := UserConfirmed\<rparr>"
  have fs: "mg_objs ?m = (mg_objs m)[f := (mg_objs m ! f)\<lparr>fl_snapshot := ?snap, fl_asked := Some StopButton\<rparr>]"
    "set (mg_listeners ?m) = set (mg_listeners m) - {(fl_client_signal (mg_objs m ! f), OnDetached f)}"
    "mg_published ?m = mg_published m @ [(f, ?snap)]" "mg_flows ?m = mg_flows m" "mg_waits ?m = mg_waits m"
    using f by (simp_all add: activate_def Let_def set_asked_def publish_def)
  have "flow_ok ?m g" if g: "g < length (mg_objs m)" for g
  proof (cases "g = f")
    case True
    with manual_invD(1)[OF inv f] w f show ?thesis
      by (auto simp: flow_ok_def fs published_of_def Let_def phase_ok_def intro!: manual_life_step)
  next
    case False
    with manual_invD(1)[OF inv g] g show ?thesis by (auto simp: flow_ok_def fs published_of_def Let_def)
  qed
  moreover have "wait_ok D ?m v" if "v < length (mg_waits m)" for v
    using manual_invD(2)[OF inv that] f by (auto simp: wait_ok_def fs nth_list_update Let_def split: option.splits sum.splits)
  moreover have "listener_ok ?m l" if "l \<in> set (mg_listeners m)" for l
    using manual_invD(3)[OF inv that] f by (auto simp: listener_ok_def fs nth_list_update split: listener.splits)
  ultimately show "manual_inv D ?m" using inv f by (auto simp: manual_inv_def fs)
  show "mn_state (snapshot ?m f) = Mactive" "length (mg_objs ?m) = length (mg_objs m)" using f by (simp_all add: fs)
qed

lemma asked_start: "manual_inv D m \<Longrightarrow> f < length (mg_objs m) \<Longrightarrow> fl_asked (mg_objs m ! f) = Some StartButton \<Longrightarrow>
    mn_state (snapshot m f) \<noteq> Mactive"
  using manual_invD(1)[of D m f] by (auto simp: flow_ok_def Let_def)

lemma start_answered_inv:
  assumes inv: "manual_inv D m" and f: "f < length (mg_objs m)" and a: "fl_asked (mg_objs m ! f) = Some StartButton"
  shows "manual_inv D (start_answered m f r)"
proof -
  let ?m = "set_asked f None m"
  have i: "manual_inv D ?m" and l: "f < length (mg_objs ?m)" using set_asked_inv[OF inv f] f by simp_all
  have fin: "manual_inv D (start_returns f x (finish ?m f CancelledByUser))" for x
    using start_returns_inv[OF finish_inv[OF i l]] finish_is_ended[OF l] f by simp
  show ?thesis
  proof (cases r)
    case (Inl e)
    with fin show ?thesis by (simp add: start_answered_def Let_def)
  next
    case (Inr accepted)
    show ?thesis
    proof (cases "mn_state (snapshot m f)")
      case Mended
      with Inr start_returns_inv[OF i l] show ?thesis by (simp add: start_answered_def Let_def)
    next
      case Mactive
      with asked_start[OF inv f a] show ?thesis by simp
    next
      case Mwaiting
      note ac = activate_inv[OF i l, simplified, OF Mwaiting]
      have "manual_inv D (start_returns f x (activate f ?m))" for x
        by (rule start_returns_inv[OF ac(1)]) (use ac(2,3) f in simp_all)
      with Inr Mwaiting fin show ?thesis by (simp add: start_answered_def Let_def activate_def)
    qed
  qed
qed

lemma stop_answered_inv:
  assumes "manual_inv D m" "f < length (mg_objs m)" shows "manual_inv D (stop_answered m f r)"
  using finish_inv[OF set_asked_inv[OF assms]] assms(2) by (cases r) (simp_all add: stop_answered_def Let_def)

lemma alist_update_set: "set (AList.update k v al) \<subseteq> insert (k, v) (set al)"
  by (induction al) auto

lemma manual_start_inv:
  assumes inv: "manual_inv D m" shows "manual_inv D (snd (manual_start m owner name osig csig uuid))"
proof -
  let ?r = "manual_start m owner name osig csig uuid"
  show ?thesis
  proof (cases "(case map_of (mg_flows m) owner of None \<Rightarrow> False | Some f \<Rightarrow> mn_state (snapshot m f) \<noteq> Mended) \<or>
      osig \<in> set (mg_aborted m) \<or> csig \<in> set (mg_aborted m)")
    case True
    then have "snd ?r = m" by (auto simp: manual_start_def)
    with inv show ?thesis by simp
  next
    case False
    let ?n = "length (mg_objs m)"
    let ?st = "\<lparr>mn_owner = owner, mn_id = uuid, mn_name = name, mn_state = Mwaiting, mn_status = WaitingForUser\<rparr>"
    let ?fl = "\<lparr>fl_snapshot = ?st, fl_abort = False, fl_done = None, fl_owner_signal = osig, fl_client_signal = csig, fl_asked = Some StartButton\<rparr>"
    have fs: "mg_objs (snd ?r) = mg_objs m @ [?fl]" "mg_flows (snd ?r) = AList.update owner ?n (mg_flows m)" "mg_waits (snd ?r) = mg_waits m"
      "mg_listeners (snd ?r) = mg_listeners m @ [(osig, OnEnded ?n), (csig, OnDetached ?n)]" "mg_published (snd ?r) = mg_published m @ [(?n, ?st)]"
      using False by (auto simp: manual_start_def Let_def publish_def)
    have flow: "flow_ok (snd ?r) g" if g: "g < Suc ?n" for g
    proof (cases "g = ?n")
      case True
      have "filter (\<lambda>(h, _). h = ?n) (mg_published m) = []" using inv by (fastforce simp: manual_inv_def filter_empty_conv)
      with True show ?thesis by (simp add: flow_ok_def fs published_of_def Let_def update_conv' manual_life_def phase_ok_def)
    next
      case ne: False
      with g have g: "g < ?n" by simp
      have "mn_state (snapshot m g) \<noteq> Mended \<Longrightarrow> map_of (mg_flows m) (mn_owner (snapshot m g)) = Some g"
        using manual_invD(1)[OF inv g] by (simp add: flow_ok_def Let_def)
      then have "mn_state (snapshot m g) \<noteq> Mended \<Longrightarrow> mn_owner (snapshot m g) \<noteq> owner" using False by (auto split: option.splits)
      with manual_invD(1)[OF inv g] g ne show ?thesis by (auto simp: flow_ok_def fs published_of_def Let_def update_conv' nth_append)
    qed
    have "wait_ok D (snd ?r) v" if "v < length (mg_waits m)" for v
      using manual_invD(2)[OF inv that] by (auto simp: wait_ok_def fs nth_append Let_def split: option.splits sum.splits)
    moreover have "listener_ok (snd ?r) l" if "l \<in> set (mg_listeners m)" for l
      using manual_invD(3)[OF inv that] by (auto simp: listener_ok_def fs nth_append split: listener.splits)
    moreover have "listener_ok (snd ?r) (osig, OnEnded ?n)" "listener_ok (snd ?r) (csig, OnDetached ?n)"
      by (simp_all add: listener_ok_def fs)
    moreover have "\<forall>(ow, f) \<in> set (AList.update owner ?n (mg_flows m)). f < Suc ?n"
      using inv alist_update_set[of owner ?n "mg_flows m"] by (fastforce simp: manual_inv_def)
    ultimately show ?thesis using inv flow by (auto simp: manual_inv_def fs distinct_update less_Suc_eq)
  qed
qed

lemma manual_wait_inv:
  assumes inv: "manual_inv D m" shows "manual_inv D (snd (manual_wait m owner sig))"
proof -
  let ?m = "snd (manual_wait m owner sig)"
  show ?thesis
  proof (cases "?m = m")
    case False
    then obtain f where f: "map_of (mg_flows m) owner = Some f" by (auto simp: manual_wait_def split: option.splits)
    let ?wt = "\<lparr>wt_flow = f, wt_signal = sig, wt_result = map_option Inr (fl_done (mg_objs m ! f))\<rparr>"
    let ?ls = "(case fl_done (mg_objs m ! f) of None \<Rightarrow> [(sig, OnWaitAbort (length (mg_waits m)))] | Some _ \<Rightarrow> [])"
    have fs: "mg_objs ?m = mg_objs m" "mg_flows ?m = mg_flows m" "mg_waits ?m = mg_waits m @ [?wt]"
      "mg_listeners ?m = mg_listeners m @ ?ls" "mg_published ?m = mg_published m"
      using False f by (auto simp: manual_wait_def Let_def split: option.splits if_splits)
    have fl: "f < length (mg_objs m)" using manual_invD(4)[OF inv f] .
    have "flow_ok ?m g" if "g < length (mg_objs m)" for g
      using manual_invD(1)[OF inv that] by (auto simp: flow_ok_def fs published_of_def Let_def)
    moreover have "wait_ok D ?m v" if "v < Suc (length (mg_waits m))" for v
    proof (cases "v = length (mg_waits m)")
      case False
      with that manual_invD(2)[OF inv, of v] show ?thesis by (auto simp: wait_ok_def fs nth_append Let_def split: option.splits sum.splits)
    qed (use fl in \<open>auto simp: wait_ok_def fs Let_def split: option.splits\<close>)
    moreover have "listener_ok ?m l" if "l \<in> set (mg_listeners m)" for l
      using manual_invD(3)[OF inv that] by (auto simp: listener_ok_def fs nth_append split: listener.splits)
    moreover have "listener_ok ?m l" if "l \<in> set ?ls" for l
      using that by (auto simp: listener_ok_def fs split: option.splits)
    ultimately show ?thesis using inv by (auto simp: manual_inv_def fs simp del: )
  qed (simp add: inv)
qed

lemma dispose_each_inv:
  assumes "manual_inv D m" "\<forall>(ow, f) \<in> set fs. f < length (mg_objs m)"
  shows "manual_inv D (foldl (\<lambda>m (ow, f). finish m f SessionEnded) m fs) \<and>
    mg_flows (foldl (\<lambda>m (ow, f). finish m f SessionEnded) m fs) = mg_flows m \<and>
    length (mg_objs (foldl (\<lambda>m (ow, f). finish m f SessionEnded) m fs)) = length (mg_objs m) \<and>
    (\<forall>f < length (mg_objs m). mn_state (snapshot m f) = Mended \<or> f \<in> snd ` set fs \<longrightarrow>
       mn_state (snapshot (foldl (\<lambda>m (ow, f). finish m f SessionEnded) m fs) f) = Mended)"
  using assms
proof (induction fs arbitrary: m)
  case (Cons p fs)
  obtain ow f where p: "p = (ow, f)" by (cases p)
  with Cons.prems have f: "f < length (mg_objs m)" by simp
  have i: "manual_inv D (finish m f SessionEnded)" by (rule finish_inv[OF Cons.prems(1) f]) simp
  have e: "mn_state (snapshot m g) = Mended \<or> g = f \<Longrightarrow> mn_state (snapshot (finish m f SessionEnded) g) = Mended" for g
    using finish_is_ended[OF f] finish_other[of g f m SessionEnded] by (cases "g = f") auto
  from Cons.IH[OF i] Cons.prems(2) e show ?case by (auto simp: p)
qed simp

lemma manual_dispose_inv:
  assumes inv: "manual_inv D m"
  shows "manual_inv D (manual_dispose m)" "f < length (mg_objs m) \<Longrightarrow> mn_state (snapshot (manual_dispose m) f) = Mended"
    "length (mg_objs (manual_dispose m)) = length (mg_objs m)"
proof -
  let ?m = "foldl (\<lambda>m (ow, f). finish m f SessionEnded) m (mg_flows m)"
  have d: "manual_inv D ?m" "mg_flows ?m = mg_flows m" "length (mg_objs ?m) = length (mg_objs m)"
    "f < length (mg_objs m) \<Longrightarrow> mn_state (snapshot m f) = Mended \<or> f \<in> snd ` set (mg_flows m) \<Longrightarrow> mn_state (snapshot ?m f) = Mended" for f
    using dispose_each_inv[OF inv, of "mg_flows m"] inv by (auto simp: manual_inv_def)
  have all: "mn_state (snapshot ?m f) = Mended" if "f < length (mg_objs m)" for f
    using manual_invD(1)[OF inv that] d(4)[OF that] by (force simp: flow_ok_def Let_def dest: map_of_SomeD)
  then show "f < length (mg_objs m) \<Longrightarrow> mn_state (snapshot (manual_dispose m) f) = Mended"
    "length (mg_objs (manual_dispose m)) = length (mg_objs m)" using d(3) by (simp_all add: manual_dispose_def)
  have "flow_ok (manual_dispose m) f" if "f < length (mg_objs m)" for f
    using manual_invD(1)[OF d(1), of f] all[OF that] that d(3) by (simp add: flow_ok_def manual_dispose_def published_of_def Let_def)
  moreover have "wait_ok D (manual_dispose m) w = wait_ok D ?m w" "listener_ok (manual_dispose m) l = listener_ok ?m l" for w l
    by (auto simp: manual_dispose_def wait_ok_def listener_ok_def Let_def split: prod.splits listener.splits option.splits sum.splits)
  ultimately show "manual_inv D (manual_dispose m)" using d(1,3) by (simp add: manual_inv_def) (simp add: manual_dispose_def)
qed

lemma waits_on_updates [simp]:
  "waits_on (m\<lparr>mg_objs := x\<rparr>) f l = waits_on m f l" "waits_on (m\<lparr>mg_listeners := y\<rparr>) f l = waits_on m f l"
  by (simp_all add: waits_on_def split: listener.split)

lemma finish_unlistened:
  assumes "mn_state (snapshot m f) \<noteq> Mended"
  shows "finish (unlisten (fl_owner_signal (mg_objs m ! f), OnEnded f) m) f s = finish m f s"
    "finish (unlisten (sig, OnDetached g) m) f s = unlisten (sig, OnDetached g) (finish m f s)"
  using assms by (simp_all add: finish_def Let_def publish_def resolve_done_def unlisten_def conj_ac)

lemma call_listener_inv:
  assumes inv: "manual_inv D m" and sig: "sig \<in> D"
  shows "manual_inv D (call_listener sig m l)"
proof (cases "(sig, l) \<in> set (mg_listeners m)")
  case True
  note lo = manual_invD(3)[OF inv True]
  show ?thesis
  proof (cases l)
    case (OnEnded f)
    then have f: "f < length (mg_objs m)" "sig = fl_owner_signal (mg_objs m ! f)" using lo by (auto simp: listener_ok_def)
    show ?thesis
    proof (cases "mn_state (snapshot m f) = Mended")
      case e: True
      with drop_listener_inv[OF inv, of "OnEnded f"] True OnEnded show ?thesis by (simp add: call_listener_def Let_def finish_ended)
    next
      case False
      from finish_unlistened(1)[OF False] f(2) OnEnded True finish_inv[OF inv f(1), of SessionEnded] show ?thesis
        by (simp add: call_listener_def Let_def)
    qed
  next
    case (OnDetached f)
    then have f: "f < length (mg_objs m)" using lo by (auto simp: listener_ok_def)
    have "manual_inv D (unlisten (sig, OnDetached f) (finish m f CancelledByUser))"
      by (rule drop_listener_inv[OF finish_inv[OF inv f]]) (simp_all add: finish_is_ended[OF f])
    moreover have "finish (unlisten (sig, OnDetached f) m) f CancelledByUser = unlisten (sig, OnDetached f) (finish m f CancelledByUser)"
      using finish_unlistened(2) by (cases "mn_state (snapshot m f) = Mended") (simp_all add: finish_ended)
    ultimately show ?thesis using OnDetached True by (simp add: call_listener_def Let_def)
  next
    case (OnWaitAbort w)
    define m' where "m' = call_listener sig m l"
    have w: "w < length (mg_waits m)" "sig = wt_signal (mg_waits m ! w)" using lo OnWaitAbort by (auto simp: listener_ok_def)
    have fs: "mg_objs m' = mg_objs m" "mg_flows m' = mg_flows m" "mg_published m' = mg_published m"
      "mg_waits m' = (mg_waits m)[w := (mg_waits m ! w)\<lparr>wt_result := Some (Inl ClientDisconnected)\<rparr>]"
      "set (mg_listeners m') = set (mg_listeners m) - {(sig, OnWaitAbort w)}"
      using OnWaitAbort True by (auto simp: m'_def call_listener_def Let_def)
    have "flow_ok m' g" if "g < length (mg_objs m)" for g
      using manual_invD(1)[OF inv that] by (auto simp: flow_ok_def fs published_of_def Let_def)
    moreover have "wait_ok D m' v" if "v < length (mg_waits m)" for v
      using manual_invD(2)[OF inv that] sig w by (auto simp: wait_ok_def fs nth_list_update Let_def split: option.splits sum.splits)
    moreover have "listener_ok m' l'" if "l' \<in> set (mg_listeners m')" for l'
      using that manual_invD(3)[OF inv, of l'] w by (auto simp: listener_ok_def fs nth_list_update split: listener.splits)
    ultimately show ?thesis using inv by (auto simp: manual_inv_def fs(1-4) m'_def[symmetric])
  qed
qed (simp add: call_listener_def inv)

lemma call_listener_listeners:
  "set (mg_listeners (call_listener sig m l)) \<subseteq> set (mg_listeners m) - {(sig, l)}" "mg_aborted (call_listener sig m l) = mg_aborted m"
  by (auto simp: call_listener_def Let_def split: listener.splits dest: set_mp[OF finish_shrinks_listeners])

lemma call_all_listeners:
  "set (mg_listeners (foldl (call_listener sig) m ls)) \<subseteq> set (mg_listeners m) - (\<lambda>l. (sig, l)) ` set ls \<and>
   mg_aborted (foldl (call_listener sig) m ls) = mg_aborted m"
proof (induction ls arbitrary: m)
  case (Cons l ls)
  with call_listener_listeners[of sig m l] show ?case by fastforce
qed simp

lemma call_all_inv: "manual_inv D m \<Longrightarrow> sig \<in> D \<Longrightarrow> manual_inv D (foldl (call_listener sig) m ls)"
  by (induction ls arbitrary: m) (simp_all add: call_listener_inv)

text \<open>No signal that has aborted has a listener left.\<close>

definition quiet :: "manual_manager \<Rightarrow> bool" where
  "quiet m \<longleftrightarrow> (\<forall>(sig, l) \<in> set (mg_listeners m). sig \<notin> set (mg_aborted m))"

abbreviation manual_ok :: "manual_manager \<Rightarrow> bool" where
  "manual_ok m \<equiv> manual_inv (set (mg_aborted m)) m \<and> quiet m"

lemma manual_inv_mono:
  assumes "manual_inv D m" "D \<subseteq> D'" shows "manual_inv D' (m\<lparr>mg_aborted := x\<rparr>)"
proof -
  have "flow_ok (m\<lparr>mg_aborted := x\<rparr>) f = flow_ok m f" "listener_ok (m\<lparr>mg_aborted := x\<rparr>) l = listener_ok m l" for f l
    by (auto simp: flow_ok_def listener_ok_def published_of_def Let_def split: prod.splits listener.splits)
  moreover have "wait_ok D m w \<Longrightarrow> wait_ok D' (m\<lparr>mg_aborted := x\<rparr>) w" for w
    using assms(2) by (auto simp: wait_ok_def Let_def split: option.splits sum.splits)
  ultimately show ?thesis using assms(1) by (simp add: manual_inv_def)
qed

lemma signal_abort_ok: assumes "manual_ok m" shows "manual_ok (signal_abort m sig)"
proof (cases "sig \<in> set (mg_aborted m)")
  case False
  let ?m0 = "m\<lparr>mg_aborted := sig # mg_aborted m\<rparr>" and ?ls = "map snd (filter (\<lambda>(s, l). s = sig) (mg_listeners m))"
  have r: "signal_abort m sig = foldl (call_listener sig) ?m0 ?ls" using False by (simp add: signal_abort_def)
  have i: "manual_inv (set (sig # mg_aborted m)) ?m0" by (rule manual_inv_mono[of "set (mg_aborted m)"]) (use assms in auto)
  have "manual_inv (set (sig # mg_aborted m)) (signal_abort m sig)" unfolding r by (rule call_all_inv[OF i]) simp
  moreover have "quiet (signal_abort m sig)"
  proof -
    have "s \<notin> set (mg_aborted (signal_abort m sig))" if "(s, l) \<in> set (mg_listeners (signal_abort m sig))" for s l
    proof -
      have "(s, l) \<in> set (mg_listeners m)" "(s, l) \<notin> Pair sig ` set ?ls"
        using that call_all_listeners[of sig ?m0 ?ls] by (auto simp: r)
      then have "s \<noteq> sig" "s \<notin> set (mg_aborted m)" using assms by (force simp: quiet_def)+
      then show ?thesis using call_all_listeners[of sig ?m0 ?ls] by (simp add: r)
    qed
    then show ?thesis by (auto simp: quiet_def)
  qed
  ultimately show ?thesis using call_all_listeners[of sig ?m0 ?ls] by (simp add: r)
qed (simp add: signal_abort_def assms)

lemma quiet_shrink: "quiet m \<Longrightarrow> set (mg_listeners m') \<subseteq> set (mg_listeners m) \<Longrightarrow> mg_aborted m' = mg_aborted m \<Longrightarrow> quiet m'"
  by (auto simp: quiet_def)

lemma start_returns_fields [simp]:
  "set (mg_listeners (start_returns f r m)) \<subseteq> set (mg_listeners m)" "mg_aborted (start_returns f r m) = mg_aborted m"
  by (auto simp: start_returns_def Let_def)

lemma answered_listeners:
  "set (mg_listeners (start_answered m f r)) \<subseteq> set (mg_listeners m)" "mg_aborted (start_answered m f r) = mg_aborted m"
  "set (mg_listeners (stop_answered m f r)) \<subseteq> set (mg_listeners m)" "mg_aborted (stop_answered m f r) = mg_aborted m"
  by (auto simp: start_answered_def stop_answered_def start_returns_def Let_def set_asked_def publish_def split: sum.split
      dest!: set_mp[OF finish_shrinks_listeners])

lemma dispose_listeners: "set (mg_listeners (manual_dispose m)) \<subseteq> set (mg_listeners m) \<and> mg_aborted (manual_dispose m) = mg_aborted m"
proof -
  have "set (mg_listeners (foldl (\<lambda>m (ow, f). finish m f SessionEnded) m fs)) \<subseteq> set (mg_listeners m) \<and>
      mg_aborted (foldl (\<lambda>m (ow, f). finish m f SessionEnded) m fs) = mg_aborted m" for fs
  proof (induction fs arbitrary: m)
    case (Cons p fs)
    with finish_shrinks_listeners[of m "snd p" SessionEnded] show ?case by (cases p) fastforce
  qed simp
  then show ?thesis by (simp add: manual_dispose_def)
qed

lemma manual_step_ok: assumes "manual_step m m'" "manual_ok m" shows "manual_ok m'"
  using assms(1)
proof cases
  case (begin_flow owner name osig csig uuid)
  have "mg_aborted m' = mg_aborted m" "quiet m'"
    using assms(2) by (auto simp: begin_flow manual_start_def Let_def publish_def quiet_def)
  with manual_start_inv begin_flow assms(2) show ?thesis by simp
next
  case (answer_start f r)
  with assms(2) start_answered_inv quiet_shrink[OF _ answered_listeners(1,2)] answered_listeners(2) show ?thesis by simp
next
  case (answer_stop f r)
  with assms(2) stop_answered_inv quiet_shrink[OF _ answered_listeners(3,4)] answered_listeners(4) show ?thesis by simp
next
  case (wait_flow owner sig)
  have "mg_aborted m' = mg_aborted m" "quiet m'"
    using assms(2) by (auto simp: wait_flow manual_wait_def Let_def quiet_def split: option.splits)
  with manual_wait_inv wait_flow assms(2) show ?thesis by simp
next
  case (abort_signal sig)
  with signal_abort_ok assms(2) show ?thesis by simp
next
  case dispose_all
  with assms(2) manual_dispose_inv(1) dispose_listeners[of m] quiet_shrink[of m m'] show ?thesis by simp
qed

lemma manual_reachable_ok: "manual_reachable m \<Longrightarrow> manual_ok m"
proof (induction rule: manual_reachable.induct)
  case initial
  then show ?case by (simp add: manual_manager_new_def manual_inv_def quiet_def)
qed (rule manual_step_ok)

subsection \<open>Properties\<close>

text \<open>
  What is published of an interaction is its life: it waits, may be confirmed, may end, in
  this order, each at most once, with a status that fits, and the last one published is its state;
  an interaction that has not ended is the one its session has, and its session's signal has not aborted.
\<close>

lemma interaction_life:
  assumes "manual_reachable m" "f < length (mg_objs m)"
  shows "manual_life (published_of m f) (snapshot m f) \<and>
    (mn_state (snapshot m f) \<noteq> Mended \<longrightarrow> manual_status_of m (mn_owner (snapshot m f)) = Some (snapshot m f) \<and>
      fl_owner_signal (mg_objs m ! f) \<notin> set (mg_aborted m))"
proof -
  have ok: "manual_ok m" by (rule manual_reachable_ok[OF assms(1)])
  note fo = manual_invD(1)[OF conjunct1[OF ok] assms(2)]
  then show ?thesis using ok by (auto simp: flow_ok_def Let_def manual_status_of_def quiet_def)
qed

text \<open>An example: the user confirms, the client that started detaches, another waits, the user stops.\<close>

definition manual_active :: manual_manager where
  "manual_active = start_answered (snd (manual_start manual_manager_new ''s1'' ''flash'' 0 1 ''id'')) 0 (Inr True)"

definition manual_example :: manual_manager where
  "manual_example = stop_answered (snd (manual_wait (signal_abort manual_active 1) ''s1'' 2)) 0 (Inr True)"

lemma manual_active_reachable: "manual_reachable manual_active"
proof -
  have "manual_step (snd (manual_start manual_manager_new ''s1'' ''flash'' 0 1 ''id'')) manual_active"
    unfolding manual_active_def by (rule answer_start) code_simp+
  with next_step[OF next_step[OF initial begin_flow]] show ?thesis .
qed

lemma manual_example_reachable: "manual_reachable manual_example"
proof -
  let ?m = "snd (manual_wait (signal_abort manual_active 1) ''s1'' 2)"
  have "manual_reachable ?m" by (blast intro: manual_active_reachable next_step abort_signal wait_flow)
  moreover have "manual_step ?m (stop_answered ?m 0 (Inr True))" by (rule answer_stop) code_simp+
  ultimately show ?thesis unfolding manual_example_def by (rule next_step)
qed

lemma interaction_life_witness:
  "map mn_state (published_of manual_example 0) = [Mwaiting, Mactive, Mended] \<and>
   manual_life (published_of manual_example 0) (snapshot manual_example 0)"
proof -
  have "0 < length (mg_objs manual_example)" by code_simp
  note l = interaction_life[OF manual_example_reachable this]
  have "map mn_state (published_of manual_example 0) = [Mwaiting, Mactive, Mended]" by code_simp
  with l show ?thesis by blast
qed

text \<open>
  C24: A wait is answered with the final state of its interaction or with the loss of its own client, and with
  nothing else; a wait that is still open has an interaction that has not ended and a client that is there.
\<close>

theorem waits_are_answered:
  assumes "manual_reachable m" "w < length (mg_waits m)"
  shows "case wt_result (mg_waits m ! w) of
     Some (Inr st) \<Rightarrow> mn_state st = Mended \<and> st = snapshot m (wt_flow (mg_waits m ! w))
   | Some (Inl e) \<Rightarrow> e = ClientDisconnected \<and> wt_signal (mg_waits m ! w) \<in> set (mg_aborted m)
   | None \<Rightarrow> mn_state (snapshot m (wt_flow (mg_waits m ! w))) \<noteq> Mended \<and> wt_signal (mg_waits m ! w) \<notin> set (mg_aborted m)"
proof -
  have ok: "manual_ok m" by (rule manual_reachable_ok[OF assms(1)])
  note wo = manual_invD(2)[OF conjunct1[OF ok] assms(2)]
  then have "wt_flow (mg_waits m ! w) < length (mg_objs m)" by (simp add: wait_ok_def Let_def)
  from manual_invD(1)[OF conjunct1[OF ok] this] wo ok show ?thesis
    by (auto simp: wait_ok_def flow_ok_def Let_def quiet_def split: option.splits sum.splits)
qed

lemma waits_are_answered_witness:
  "(\<exists>st. wt_result (mg_waits manual_example ! 0) = Some (Inr st) \<and> mn_state st = Mended \<and> mn_status st = UserStopped)"
proof -
  have "0 < length (mg_waits manual_example)" by code_simp
  note w = waits_are_answered[OF manual_example_reachable this]
  obtain st where st: "wt_result (mg_waits manual_example ! 0) = Some (Inr st)" "mn_status st = UserStopped"
    by (rule that[of "fl_snapshot (mg_objs manual_example ! 0)"]) code_simp+
  with w show ?thesis by auto
qed

subsection \<open>Progress\<close>

text \<open>The question a flow waits for in its state.\<close>

definition question :: "manual_phase \<Rightarrow> button option" where
  "question p = (case p of Mwaiting \<Rightarrow> Some StartButton | Mactive \<Rightarrow> Some StopButton | Mended \<Rightarrow> None)"

definition asks_ok :: "nat option \<Rightarrow> manual_manager \<Rightarrow> bool" where
  "asks_ok x m \<longleftrightarrow> (\<forall>f < length (mg_objs m). Some f \<noteq> x \<and> mn_state (snapshot m f) \<noteq> Mended \<longrightarrow>
     fl_asked (mg_objs m ! f) = question (mn_state (snapshot m f)))"

lemma finish_asks: "asks_ok x m \<Longrightarrow> f < length (mg_objs m) \<Longrightarrow> asks_ok (if x = Some f then None else x) (finish m f s)"
  unfolding asks_ok_def
proof (intro allI impI)
  fix g
  assume a: "\<forall>f<length (mg_objs m). Some f \<noteq> x \<and> mn_state (snapshot m f) \<noteq> Mended \<longrightarrow> fl_asked (mg_objs m ! f) = question (mn_state (snapshot m f))"
    and f: "f < length (mg_objs m)" and g: "g < length (mg_objs (finish m f s))"
    and e: "Some g \<noteq> (if x = Some f then None else x) \<and> mn_state (snapshot (finish m f s) g) \<noteq> Mended"
  then have "g \<noteq> f" using finish_is_ended[OF f, of s] by auto
  with a e g show "fl_asked (mg_objs (finish m f s) ! g) = question (mn_state (snapshot (finish m f s) g))"
    by (auto simp: finish_other split: if_splits)
qed

lemma asks_cong: "mg_objs m' = mg_objs m \<Longrightarrow> asks_ok x m' = asks_ok x m"
  by (simp add: asks_ok_def)

lemma finish_asks_None: "asks_ok None m \<Longrightarrow> f < length (mg_objs m) \<Longrightarrow> asks_ok None (finish m f s)"
  using finish_asks[of None m f s] by simp

lemma set_asked_asks: "asks_ok None m \<Longrightarrow> f < length (mg_objs m) \<Longrightarrow> asks_ok (Some f) (set_asked f b m)"
  by (auto simp: asks_ok_def set_asked_def)

lemma start_returns_objs [simp]: "mg_objs (start_returns f r m) = mg_objs m"
  by (simp add: start_returns_def Let_def)

lemma start_answered_asks:
  assumes "asks_ok None m" "f < length (mg_objs m)" shows "asks_ok None (start_answered m f r)"
proof -
  let ?m = "set_asked f None m"
  note a = set_asked_asks[OF assms, of None]
  have fin: "asks_ok None (start_returns f x (finish ?m f CancelledByUser))" for x
    using finish_asks[OF a, of f CancelledByUser] assms(2) by (simp add: asks_cong[of "start_returns f x _"])
  show ?thesis
  proof (cases r)
    case (Inr accepted)
    show ?thesis
    proof (cases "mn_state (snapshot m f) = Mended \<or> \<not> accepted")
      case True
      with Inr fin a show ?thesis by (auto simp: start_answered_def Let_def asks_ok_def)
    next
      case False
      with Inr a assms(2) show ?thesis
        by (auto simp: start_answered_def Let_def asks_ok_def question_def set_asked_def publish_def nth_list_update)
    qed
  qed (use fin in \<open>simp add: start_answered_def Let_def\<close>)
qed

lemma stop_answered_asks: "asks_ok None m \<Longrightarrow> f < length (mg_objs m) \<Longrightarrow> asks_ok None (stop_answered m f r)"
  using finish_asks[OF set_asked_asks, of m f f None] by (auto simp: stop_answered_def Let_def split: sum.split)

lemma call_listener_asks: "manual_inv D m \<Longrightarrow> asks_ok None m \<Longrightarrow> asks_ok None (call_listener sig m l)"
proof -
  assume inv: "manual_inv D m" and a: "asks_ok None m"
  have u: "asks_ok None (unlisten x m)" for x using a by (simp add: asks_ok_def)
  show ?thesis
  proof (cases "(sig, l) \<in> set (mg_listeners m)")
    case True
    from manual_invD(3)[OF inv this] finish_asks_None[OF u] u show ?thesis
      by (auto simp: call_listener_def Let_def listener_ok_def asks_ok_def split: listener.splits)
  qed (simp add: call_listener_def a)
qed

lemma call_all_asks: "manual_inv D m \<Longrightarrow> sig \<in> D \<Longrightarrow> asks_ok None m \<Longrightarrow> asks_ok None (foldl (call_listener sig) m ls)"
  by (induction ls arbitrary: m) (simp_all add: call_listener_inv call_listener_asks)

lemma dispose_asks: "asks_ok None m \<Longrightarrow> \<forall>(ow, f) \<in> set fs. f < length (mg_objs m) \<Longrightarrow>
    asks_ok None (foldl (\<lambda>m (ow, f). finish m f SessionEnded) m fs)"
proof (induction fs arbitrary: m)
  case (Cons p fs)
  then show ?case using Cons.IH[of "finish m (snd p) SessionEnded"] finish_asks_None[of m "snd p"] by (cases p) simp
qed simp

lemma finish_signal [simp]: "fl_owner_signal (mg_objs (finish m f s) ! g) = fl_owner_signal (mg_objs m ! g)"
proof -
  have "g = f \<Longrightarrow> f < length (mg_objs m) \<Longrightarrow> ?thesis"
    by (simp add: finish_def Let_def publish_def resolve_done_def unlisten_def)
  moreover have "\<not> f < length (mg_objs m) \<Longrightarrow> ?thesis"
    by (simp add: finish_def Let_def publish_def resolve_done_def unlisten_def list_update_beyond)
  ultimately show ?thesis using finish_other[of g f m s] by (cases "g = f") auto
qed

lemma call_listener_signal [simp]:
  "length (mg_objs (call_listener sig m l)) = length (mg_objs m)"
  "fl_owner_signal (mg_objs (call_listener sig m l) ! g) = fl_owner_signal (mg_objs m ! g)"
  by (auto simp: call_listener_def Let_def split: listener.split)

lemma signal_abort_simps [simp]:
  "length (mg_objs (signal_abort m sig)) = length (mg_objs m)" "sig \<in> set (mg_aborted (signal_abort m sig))"
  "fl_owner_signal (mg_objs (signal_abort m sig) ! g) = fl_owner_signal (mg_objs m ! g)"
proof -
  have "length (mg_objs (foldl (call_listener sig) m ls)) = length (mg_objs m) \<and>
    fl_owner_signal (mg_objs (foldl (call_listener sig) m ls) ! g) = fl_owner_signal (mg_objs m ! g)" for m ls
    by (induction ls arbitrary: m) simp_all
  then show "length (mg_objs (signal_abort m sig)) = length (mg_objs m)"
    "fl_owner_signal (mg_objs (signal_abort m sig) ! g) = fl_owner_signal (mg_objs m ! g)" by (simp_all add: signal_abort_def Let_def)
  show "sig \<in> set (mg_aborted (signal_abort m sig))" using call_all_listeners by (simp add: signal_abort_def Let_def)
qed

lemma manual_step_asks: assumes "manual_step m m'" "manual_ok m" "asks_ok None m" shows "asks_ok None m'"
  using assms(1)
proof cases
  case (begin_flow owner name osig csig uuid)
  with assms(3) show ?thesis
    by (auto simp: manual_start_def Let_def publish_def asks_ok_def question_def nth_append less_Suc_eq)
next
  case (wait_flow owner sig)
  with assms(3) show ?thesis by (auto simp: manual_wait_def Let_def asks_ok_def split: option.splits)
next
  case (abort_signal sig)
  have "manual_inv (set (sig # mg_aborted m)) (m\<lparr>mg_aborted := sig # mg_aborted m\<rparr>)"
    by (rule manual_inv_mono[of "set (mg_aborted m)"]) (use assms(2) in auto)
  from call_all_asks[OF this, of sig] assms(3) abort_signal show ?thesis
    by (simp add: signal_abort_def Let_def asks_ok_def)
next
  case dispose_all
  have "\<forall>(ow, f) \<in> set (mg_flows m). f < length (mg_objs m)" using assms(2) by (simp add: manual_inv_def)
  from dispose_asks[OF assms(3) this] dispose_all show ?thesis by (simp add: manual_dispose_def asks_ok_def)
qed (use assms in \<open>simp_all add: start_answered_asks stop_answered_asks\<close>)

text \<open>
  C25: No interaction gets stuck: as long as it has not ended its user has the question of its state open, and any
  answer to the last question ends it, and so does the end of the session.
\<close>

theorem interaction_never_stuck:
  assumes "manual_reachable m" "f < length (mg_objs m)" "mn_state (snapshot m f) \<noteq> Mended"
  shows "fl_asked (mg_objs m ! f) = question (mn_state (snapshot m f)) \<and>
    mn_state (snapshot (stop_answered m f r) f) = Mended \<and>
    mn_state (snapshot (signal_abort m (fl_owner_signal (mg_objs m ! f))) f) = Mended"
proof -
  have "manual_ok m \<and> asks_ok None m" using assms(1)
  proof (induction rule: manual_reachable.induct)
    case initial
    then show ?case using manual_reachable_ok[OF manual_reachable.initial] by (simp add: asks_ok_def manual_manager_new_def)
  qed (use manual_step_ok manual_step_asks in blast)
  then have a: "fl_asked (mg_objs m ! f) = question (mn_state (snapshot m f))" using assms(2,3) by (simp add: asks_ok_def)
  have s: "mn_state (snapshot (stop_answered m f r) f) = Mended"
    using finish_is_ended[of f "set_asked f None m"] assms(2) by (auto simp: stop_answered_def Let_def split: sum.split)
  let ?sig = "fl_owner_signal (mg_objs m ! f)"
  have l: "length (mg_objs (signal_abort m ?sig)) = length (mg_objs m)" "fl_owner_signal (mg_objs (signal_abort m ?sig) ! f) = ?sig"
    "?sig \<in> set (mg_aborted (signal_abort m ?sig))" by simp_all
  from interaction_life[OF next_step[OF assms(1) abort_signal], of f ?sig] assms(2) l
  have "mn_state (snapshot (signal_abort m ?sig) f) = Mended" by auto
  with a s show ?thesis by blast
qed

lemma interaction_never_stuck_witness:
  "fl_asked (mg_objs manual_active ! 0) = Some StopButton \<and>
   mn_state (snapshot (stop_answered manual_active 0 (Inl ''closed'')) 0) = Mended"
proof -
  have "0 < length (mg_objs manual_active)" "mn_state (snapshot manual_active 0) \<noteq> Mended" "question (mn_state (snapshot manual_active 0)) = Some StopButton"
    by code_simp+
  with interaction_never_stuck[OF manual_active_reachable this(1,2), of "Inl ''closed''"] show ?thesis by simp
qed

end
