(* ===== verification/Sessions.thy ===== *)
theory Sessions
  imports Prelude
begin

text \<open>
  The tree of debug sessions of the command line and the editor (\<open>common/cli-session.ts\<close>): the list of
  current sessions, the tree under a dummy root, and the ports of the sessions.

  A session object is a node of a heap, its identity the index; node 0 is the dummy root. The
  \<open>assert\<close> the file imports from \<open>console\<close> only prints. Of the editor's sessions the model has the identifier, the
  parent and whether the parent is a session of this extension; their data sources are not part of it.
\<close>

datatype session_status = Sstarted | Sstopped | Srunning | Sexited | Snone

record session_node =
  nd_id :: "jstr option"
  nd_status :: session_status
  nd_parent :: "nat option"
  nd_children :: "nat list"
  nd_ports :: "nat list"

record session_tree =
  st_nodes :: "session_node list"
  st_current :: "nat list"

text \<open>The session the editor announces: its identifier, and the identifier of a parent of the same type.\<close>

record editor_session =
  es_id :: jstr
  es_parent :: "jstr option"

abbreviation node_parent :: "session_tree \<Rightarrow> nat \<Rightarrow> nat option" where
  "node_parent t x \<equiv> nd_parent (st_nodes t ! x)"

abbreviation node_children :: "session_tree \<Rightarrow> nat \<Rightarrow> nat list" where
  "node_children t x \<equiv> nd_children (st_nodes t ! x)"

definition tree_new :: session_tree where
  "tree_new = \<lparr>st_nodes = [\<lparr>nd_id = None, nd_status = Snone, nd_parent = None, nd_children = [], nd_ports = []\<rparr>], st_current = []\<rparr>"

definition upd_node :: "nat \<Rightarrow> (session_node \<Rightarrow> session_node) \<Rightarrow> session_tree \<Rightarrow> session_tree" where
  "upd_node x g t = t\<lparr>st_nodes := (st_nodes t)[x := g (st_nodes t ! x)]\<rparr>"

definition new_session :: "session_tree \<Rightarrow> jstr \<Rightarrow> nat \<times> session_tree" where
  "new_session t i = (let x = length (st_nodes t) in (x, t\<lparr>st_nodes := st_nodes t @
     [\<lparr>nd_id = Some i, nd_status = Snone, nd_parent = None, nd_children = [], nd_ports = []\<rparr>], st_current := st_current t @ [x]\<rparr>))"

definition find_session :: "session_tree \<Rightarrow> jstr \<Rightarrow> nat option" where
  "find_session t i = find (\<lambda>x. nd_id (st_nodes t ! x) = Some i) (st_current t)"

definition get_session :: "session_tree \<Rightarrow> jstr \<Rightarrow> nat \<times> session_tree" where
  "get_session t i = (case find_session t i of Some x \<Rightarrow> (x, t) | None \<Rightarrow> new_session t i)"

definition add_child :: "session_tree \<Rightarrow> nat \<Rightarrow> nat \<Rightarrow> session_tree" where
  "add_child t p c = (if c \<in> set (node_children t p) then t
     else upd_node c (\<lambda>n. n\<lparr>nd_parent := Some p\<rparr>) (upd_node p (\<lambda>n. n\<lparr>nd_children := nd_children n @ [c]\<rparr>) t))"

definition remove_child :: "session_tree \<Rightarrow> nat \<Rightarrow> nat \<Rightarrow> session_tree" where
  "remove_child t p c = upd_node c (\<lambda>n. n\<lparr>nd_parent := None\<rparr>) (upd_node p (\<lambda>n. n\<lparr>nd_children := filter (\<lambda>x. x \<noteq> c) (nd_children n)\<rparr>) t)"

definition remove_node :: "session_tree \<Rightarrow> nat \<Rightarrow> session_tree" where
  "remove_node t c = (case node_parent t c of None \<Rightarrow> t | Some p \<Rightarrow> remove_child t p c)"

definition move_to_root :: "session_tree \<Rightarrow> nat \<Rightarrow> session_tree" where
  "move_to_root t c = (case node_parent t c of None \<Rightarrow> t | Some p \<Rightarrow> add_child (remove_node t c) 0 c)"

definition remove_session :: "session_tree \<Rightarrow> jstr \<Rightarrow> session_tree" where
  "remove_session t i = (case find_session t i of
     None \<Rightarrow> t
   | Some x \<Rightarrow>
       let t = remove_node (upd_node x (\<lambda>n. n\<lparr>nd_status := Sexited\<rparr>) t) x
       in t\<lparr>st_current := filter (\<lambda>y. nd_id (st_nodes t ! y) \<noteq> Some i) (st_current t)\<rparr>)"

definition new_session_started :: "session_tree \<Rightarrow> editor_session \<Rightarrow> nat \<times> session_tree" where
  "new_session_started t s = (let (x, t) = get_session t (es_id s); t = upd_node x (\<lambda>n. n\<lparr>nd_status := Sstarted\<rparr>) t in
     case es_parent s of
       Some pid \<Rightarrow> (case find_session t pid of None \<Rightarrow> (x, t) | Some p \<Rightarrow> (x, add_child t p x))
     | None \<Rightarrow> (x, add_child t 0 x))"

definition add_ports :: "nat list \<Rightarrow> nat list \<Rightarrow> nat list" where
  "add_ports ps qs = foldl (\<lambda>ps p. if p \<in> set ps then ps else ps @ [p]) ps qs"

definition add_used_ports :: "session_tree \<Rightarrow> nat \<Rightarrow> nat list \<Rightarrow> session_tree" where
  "add_used_ports t x ps = upd_node x (\<lambda>n. n\<lparr>nd_ports := add_ports (nd_ports n) ps\<rparr>) t"

definition get_all_used_ports :: "session_tree \<Rightarrow> nat list" where
  "get_all_used_ports t = foldl (\<lambda>ps x. if nd_status (st_nodes t ! x) \<noteq> Sexited then add_ports ps (nd_ports (st_nodes t ! x)) else ps) [] (st_current t)"

text \<open>
  The recursive walks, with fuel for the depth: \<open>None\<close> stands for a recursion that does not end.
  What is called for a node does not change the tree; the walk is the list of the visited nodes.
\<close>

fun get_root :: "nat \<Rightarrow> session_tree \<Rightarrow> nat \<Rightarrow> nat option" where
  "get_root 0 t x = None"
| "get_root (Suc n) t x = (case node_parent t x of
     Some p \<Rightarrow> (case node_parent t p of Some g \<Rightarrow> get_root n t p | None \<Rightarrow> Some x)
   | None \<Rightarrow> Some x)"

fun opt_concat :: "'a list option list \<Rightarrow> 'a list option" where
  "opt_concat [] = Some []"
| "opt_concat (x # xs) = (case x of None \<Rightarrow> None | Some a \<Rightarrow> map_option ((@) a) (opt_concat xs))"

fun broadcast :: "nat \<Rightarrow> session_tree \<Rightarrow> nat \<Rightarrow> nat list option" where
  "broadcast 0 t x = None"
| "broadcast (Suc n) t x = map_option (\<lambda>vs. vs @ [x]) (opt_concat (map (broadcast n t) (node_children t x)))"

definition broadcast_dfs :: "nat \<Rightarrow> session_tree \<Rightarrow> nat \<Rightarrow> bool \<Rightarrow> nat list option" where
  "broadcast_dfs n t x from_root = (if from_root then Option.bind (get_root n t x) (broadcast n t) else broadcast n t x)"

text \<open>
  What happens to the tree. The editor announces the start of a session once, and the parent
  of a session was created before it, as \<open>older\<close> says; \<open>pid\<close> gives the parent of each identifier.
\<close>

inductive session_step :: "(jstr \<Rightarrow> jstr option) \<Rightarrow> session_tree \<Rightarrow> session_tree \<Rightarrow> bool" for pid where
  get_ports: "session_step pid t (let (x, t) = get_session t i in add_used_ports t x ps)"
| started: "(case find_session t i of None \<Rightarrow> True | Some x \<Rightarrow> node_parent t x = None) \<Longrightarrow>
    session_step pid t (snd (new_session_started t \<lparr>es_id = i, es_parent = pid i\<rparr>))"
| moved: "x < length (st_nodes t) \<Longrightarrow> session_step pid t (move_to_root t x)"
| removed: "session_step pid t (remove_session t i)"

inductive_cases session_stepE: "session_step pid t t'"

inductive session_reachable :: "(jstr \<Rightarrow> jstr option) \<Rightarrow> session_tree \<Rightarrow> bool" for pid where
  initial_tree: "session_reachable pid tree_new"
| next_tree: "session_reachable pid t \<Longrightarrow> session_step pid t t' \<Longrightarrow> session_reachable pid t'"

subsection \<open>Well-formed trees\<close>

text \<open>Everything of the tree but its shape: what the editor said of the parents.\<close>

definition tree_ok :: "(jstr \<Rightarrow> jstr option) \<Rightarrow> session_tree \<Rightarrow> bool" where
  "tree_ok pid t \<longleftrightarrow> st_nodes t \<noteq> [] \<and> node_parent t 0 = None \<and>
     (\<forall>x \<in> set (st_current t). 0 < x \<and> x < length (st_nodes t)) \<and>
     (\<forall>x. 0 < x \<and> x < length (st_nodes t) \<longrightarrow> nd_id (st_nodes t ! x) \<noteq> None) \<and>
     (\<forall>p < length (st_nodes t). distinct (node_children t p)) \<and>
     (\<forall>p < length (st_nodes t). \<forall>c. c \<in> set (node_children t p) \<longleftrightarrow> c < length (st_nodes t) \<and> node_parent t c = Some p) \<and>
     (\<forall>c < length (st_nodes t). \<forall>p. node_parent t c = Some p \<longrightarrow> p < length (st_nodes t) \<and>
        (p = 0 \<or> Option.bind (nd_id (st_nodes t ! c)) pid = nd_id (st_nodes t ! p)))"

lemma tree_okD:
  assumes "tree_ok pid t"
  shows "0 < length (st_nodes t)" "node_parent t 0 = None" "x \<in> set (st_current t) \<Longrightarrow> 0 < x \<and> x < length (st_nodes t)"
    "0 < x \<Longrightarrow> x < length (st_nodes t) \<Longrightarrow> nd_id (st_nodes t ! x) \<noteq> None"
    "p < length (st_nodes t) \<Longrightarrow> distinct (node_children t p)"
    "p < length (st_nodes t) \<Longrightarrow> c \<in> set (node_children t p) \<longleftrightarrow> c < length (st_nodes t) \<and> node_parent t c = Some p"
    "c < length (st_nodes t) \<Longrightarrow> node_parent t c = Some p \<Longrightarrow> p < length (st_nodes t)"
    "c < length (st_nodes t) \<Longrightarrow> node_parent t c = Some p \<Longrightarrow> p = 0 \<or> Option.bind (nd_id (st_nodes t ! c)) pid = nd_id (st_nodes t ! p)"
  using assms unfolding tree_ok_def by auto

lemma parent_nonzero: "tree_ok pid t \<Longrightarrow> node_parent t c = Some p \<Longrightarrow> c \<noteq> 0"
  using tree_okD(2)[of pid t] by (cases "c = 0") auto

lemma upd_node_simps [simp]:
  "length (st_nodes (upd_node x g t)) = length (st_nodes t)" "st_current (upd_node x g t) = st_current t"
  "x < length (st_nodes t) \<Longrightarrow> st_nodes (upd_node x g t) ! y = (if y = x then g (st_nodes t ! x) else st_nodes t ! y)"
  "st_nodes (upd_node x g t) = [] \<longleftrightarrow> st_nodes t = []"
  by (auto simp: upd_node_def nth_list_update)

text \<open>An update of a node that keeps its links and its identifier.\<close>

lemma tree_ok_upd:
  assumes "tree_ok pid t" "x < length (st_nodes t)"
    "\<And>n. nd_id (g n) = nd_id n \<and> nd_parent (g n) = nd_parent n \<and> nd_children (g n) = nd_children n"
  shows "tree_ok pid (upd_node x g t)"
proof -
  have "nd_id (st_nodes (upd_node x g t) ! y) = nd_id (st_nodes t ! y) \<and> node_parent (upd_node x g t) y = node_parent t y \<and>
    node_children (upd_node x g t) y = node_children t y" for y using assms(2,3) by simp
  with assms(1) show ?thesis unfolding tree_ok_def by simp
qed

lemma find_session_Some: "find_session t i = Some x \<Longrightarrow> x \<in> set (st_current t) \<and> nd_id (st_nodes t ! x) = Some i"
  by (auto simp: find_session_def find_Some_iff)

lemma new_session_ok:
  assumes "tree_ok pid t" shows "tree_ok pid (snd (new_session t i))"
proof -
  let ?n = "\<lparr>nd_id = Some i, nd_status = Snone, nd_parent = None, nd_children = [], nd_ports = []\<rparr>"
  let ?t = "snd (new_session t i)" and ?l = "length (st_nodes t)"
  have fs: "st_nodes ?t = st_nodes t @ [?n]" "st_current ?t = st_current t @ [?l]" by (simp_all add: new_session_def Let_def)
  have old: "y < ?l \<Longrightarrow> st_nodes ?t ! y = st_nodes t ! y" for y by (simp add: fs nth_append)
  have new: "st_nodes ?t ! ?l = ?n" by (simp add: fs)
  have len: "length (st_nodes ?t) = Suc ?l" by (simp add: fs)
  note ok = tree_okD[OF assms]
  show ?thesis unfolding tree_ok_def fs(2)
  proof (intro conjI ballI allI impI)
    fix p c assume p: "p < length (st_nodes ?t)"
    show "c \<in> set (node_children ?t p) \<longleftrightarrow> c < length (st_nodes ?t) \<and> node_parent ?t c = Some p"
    proof (cases "p = ?l")
      case True
      have "node_parent t c \<noteq> Some ?l" if "c < ?l" using ok(7)[OF that] by auto
      with True show ?thesis by (cases "c = ?l") (auto simp: new old len less_Suc_eq)
    next
      case False
      with p have p: "p < ?l" by (simp add: len)
      with ok(6)[OF p, of c] show ?thesis by (cases "c = ?l") (auto simp: new old len less_Suc_eq)
    qed
  next
    fix p assume "p < length (st_nodes ?t)"
    then show "distinct (node_children ?t p)" using ok(5)[of p] by (cases "p = ?l") (auto simp: new old len)
  next
    fix c p assume c: "c < length (st_nodes ?t)" "node_parent ?t c = Some p"
    then have "c < ?l" by (cases "c = ?l") (auto simp: new len)
    with c ok(7,8)[of c p] show "p < length (st_nodes ?t)" "p = 0 \<or> Option.bind (nd_id (st_nodes ?t ! c)) pid = nd_id (st_nodes ?t ! p)"
      by (auto simp: old len less_Suc_eq)
  next
    fix x assume "0 < x \<and> x < length (st_nodes ?t)"
    then show "nd_id (st_nodes ?t ! x) \<noteq> None" using ok(4)[of x] by (cases "x = ?l") (auto simp: new old len)
  next
    fix x assume "x \<in> set (st_current t @ [?l])"
    then show "0 < x" "x < length (st_nodes ?t)" using ok(1,3) by (auto simp: len less_Suc_eq)
  qed (use ok(1,2) in \<open>auto simp: fs nth_append\<close>)
qed

lemma get_session_ok:
  assumes "tree_ok pid t" "get_session t i = (x, t')"
  shows "tree_ok pid t'" "0 < x" "x < length (st_nodes t')" "nd_id (st_nodes t' ! x) = Some i"
    "node_parent t' x = (case find_session t i of Some y \<Rightarrow> node_parent t y | None \<Rightarrow> None)"
proof -
  have "tree_ok pid t' \<and> 0 < x \<and> x < length (st_nodes t') \<and> nd_id (st_nodes t' ! x) = Some i \<and>
    node_parent t' x = (case find_session t i of Some y \<Rightarrow> node_parent t y | None \<Rightarrow> None)"
  proof (cases "find_session t i")
    case None
    with assms new_session_ok[OF assms(1), of i] tree_okD(1)[OF assms(1)] show ?thesis
      by (auto simp: get_session_def new_session_def Let_def)
  next
    case (Some y)
    with assms find_session_Some[OF Some] tree_okD(3)[OF assms(1)] show ?thesis by (auto simp: get_session_def)
  qed
  then show "tree_ok pid t'" "0 < x" "x < length (st_nodes t')" "nd_id (st_nodes t' ! x) = Some i"
    "node_parent t' x = (case find_session t i of Some y \<Rightarrow> node_parent t y | None \<Rightarrow> None)" by auto
qed

lemma add_child_ok:
  assumes ok: "tree_ok pid t" and p: "p < length (st_nodes t)" and c: "0 < c" "c < length (st_nodes t)" "node_parent t c = None"
    and i: "p = 0 \<or> Option.bind (nd_id (st_nodes t ! c)) pid = nd_id (st_nodes t ! p)"
  shows "tree_ok pid (add_child t p c)" "node_parent (add_child t p c) c = Some p" "length (st_nodes (add_child t p c)) = length (st_nodes t)"
proof -
  let ?t = "add_child t p c"
  note d = tree_okD[OF ok]
  have n: "c \<notin> set (node_children t p)" using d(6)[OF p] c(3) by simp
  have fs: "nd_id (st_nodes ?t ! y) = nd_id (st_nodes t ! y)" "node_parent ?t y = (if y = c then Some p else node_parent t y)"
    "node_children ?t y = (if y = p then node_children t p @ [c] else node_children t y)"
    "length (st_nodes ?t) = length (st_nodes t)" "st_current ?t = st_current t" "st_nodes ?t \<noteq> []" for y
    using n p c d(1) by (auto simp: add_child_def)
  show "node_parent ?t c = Some p" "length (st_nodes ?t) = length (st_nodes t)" by (simp_all add: fs)
  show "tree_ok pid ?t" unfolding tree_ok_def fs
  proof (intro conjI ballI allI impI)
    fix q b assume q: "q < length (st_nodes t)"
    show "b \<in> set (if q = p then node_children t p @ [c] else node_children t q) \<longleftrightarrow> b < length (st_nodes t) \<and> (if b = c then Some p else node_parent t b) = Some q"
      using d(6)[OF q, of b] c by auto
  next
    fix q assume "q < length (st_nodes t)"
    then show "distinct (if q = p then node_children t p @ [c] else node_children t q)" using d(5)[of q] n by auto
  next
    fix b q assume "b < length (st_nodes t)" "(if b = c then Some p else node_parent t b) = Some q"
    then show "q < length (st_nodes t)" "q = 0 \<or> Option.bind (nd_id (st_nodes t ! b)) pid = nd_id (st_nodes t ! q)"
      using d(7,8)[of b q] p i by (auto split: if_splits)
  qed (use d c fs(6) in auto)
qed

lemma remove_node_ok:
  assumes ok: "tree_ok pid t" and c: "c < length (st_nodes t)"
  shows "tree_ok pid (remove_node t c)" "node_parent (remove_node t c) c = None" "length (st_nodes (remove_node t c)) = length (st_nodes t)"
    "st_current (remove_node t c) = st_current t" "nd_id (st_nodes (remove_node t c) ! y) = nd_id (st_nodes t ! y)"
proof -
  let ?t = "remove_node t c"
  note d = tree_okD[OF ok]
  have "tree_ok pid ?t \<and> node_parent ?t c = None \<and> length (st_nodes ?t) = length (st_nodes t) \<and> st_current ?t = st_current t \<and>
    nd_id (st_nodes ?t ! y) = nd_id (st_nodes t ! y)"
  proof (cases "node_parent t c")
    case (Some p)
    have p: "p < length (st_nodes t)" by (rule d(7)[OF c Some])
    have fs: "nd_id (st_nodes ?t ! y) = nd_id (st_nodes t ! y)" "node_parent ?t y = (if y = c then None else node_parent t y)"
      "node_children ?t y = (if y = p then filter (\<lambda>x. x \<noteq> c) (node_children t p) else node_children t y)"
      "length (st_nodes ?t) = length (st_nodes t)" "st_current ?t = st_current t" "st_nodes ?t \<noteq> []" for y
      using p c d(1) Some by (auto simp: remove_node_def remove_child_def)
    have "tree_ok pid ?t" unfolding tree_ok_def fs
    proof (intro conjI ballI allI impI)
      fix q b assume q: "q < length (st_nodes t)"
      show "b \<in> set (if q = p then filter (\<lambda>x. x \<noteq> c) (node_children t p) else node_children t q) \<longleftrightarrow>
          b < length (st_nodes t) \<and> (if b = c then None else node_parent t b) = Some q"
        using d(6)[OF q, of b] Some by auto
    next
      fix q assume "q < length (st_nodes t)"
      then show "distinct (if q = p then filter (\<lambda>x. x \<noteq> c) (node_children t p) else node_children t q)" using d(5)[of q] by auto
    next
      fix b q assume "b < length (st_nodes t)" "(if b = c then None else node_parent t b) = Some q"
      then show "q < length (st_nodes t)" "q = 0 \<or> Option.bind (nd_id (st_nodes t ! b)) pid = nd_id (st_nodes t ! q)"
        using d(7,8)[of b q] by (auto split: if_splits)
    qed (use d fs(6) in auto)
    with fs show ?thesis by simp
  qed (simp add: remove_node_def ok)
  then show "tree_ok pid ?t" "node_parent ?t c = None" "length (st_nodes ?t) = length (st_nodes t)" "st_current ?t = st_current t"
    "nd_id (st_nodes ?t ! y) = nd_id (st_nodes t ! y)" by auto
qed

lemma move_to_root_ok:
  assumes ok: "tree_ok pid t" and c: "c < length (st_nodes t)" shows "tree_ok pid (move_to_root t c)"
proof (cases "node_parent t c")
  case (Some p)
  then have "c \<noteq> 0" by (rule parent_nonzero[OF ok])
  moreover note r = remove_node_ok[OF ok c]
  ultimately show ?thesis
    using add_child_ok(1)[OF r(1), of 0 c] tree_okD(1)[OF r(1)] r c Some by (simp add: move_to_root_def)
qed (simp add: move_to_root_def ok)

lemma remove_session_ok: assumes ok: "tree_ok pid t" shows "tree_ok pid (remove_session t i)"
proof (cases "find_session t i")
  case (Some x)
  have x: "x < length (st_nodes t)" using tree_okD(3)[OF ok] find_session_Some[OF Some] by auto
  let ?u = "remove_node (upd_node x (\<lambda>n. n\<lparr>nd_status := Sexited\<rparr>) t) x"
  have u: "tree_ok pid ?u" by (rule remove_node_ok(1)[OF tree_ok_upd[OF ok x]]) (use x in simp_all)
  then have "tree_ok pid (?u\<lparr>st_current := filter P (st_current ?u)\<rparr>)" for P by (simp add: tree_ok_def)
  with Some show ?thesis by (simp add: remove_session_def Let_def)
qed (simp add: remove_session_def ok)

lemma new_session_started_ok:
  assumes ok: "tree_ok pid t" and n: "case find_session t i of None \<Rightarrow> True | Some x \<Rightarrow> node_parent t x = None"
  shows "tree_ok pid (snd (new_session_started t \<lparr>es_id = i, es_parent = pid i\<rparr>))"
proof -
  obtain x t1 where g: "get_session t i = (x, t1)" by force
  note gs = get_session_ok[OF ok g]
  let ?t = "upd_node x (\<lambda>n. n\<lparr>nd_status := Sstarted\<rparr>) t1"
  have t: "tree_ok pid ?t" by (rule tree_ok_upd[OF gs(1,3)]) simp
  have x: "node_parent ?t x = None" "nd_id (st_nodes ?t ! x) = Some i" "x < length (st_nodes ?t)"
    using gs n by (auto split: option.splits)
  show ?thesis
  proof (cases "pid i")
    case None
    with g add_child_ok(1)[OF t _ gs(2) x(3,1), of 0] tree_okD(1)[OF t] show ?thesis
      by (simp add: new_session_started_def Let_def)
  next
    case (Some j)
    show ?thesis
    proof (cases "find_session ?t j")
      case (Some p)
      from find_session_Some[OF this] tree_okD(3)[OF t] have p: "p < length (st_nodes ?t)" "nd_id (st_nodes ?t ! p) = Some j" by auto
      have "tree_ok pid (add_child ?t p x)"
        by (rule add_child_ok(1)[OF t p(1) gs(2) x(3,1)]) (use p(2) x(2) \<open>pid i = Some j\<close> in simp)
      with Some g \<open>pid i = Some j\<close> show ?thesis by (simp add: new_session_started_def Let_def)
    qed (use g t Some in \<open>simp add: new_session_started_def Let_def\<close>)
  qed
qed

lemma session_reachable_ok: "session_reachable pid t \<Longrightarrow> tree_ok pid t"
proof (induction rule: session_reachable.induct)
  case initial_tree
  then show ?case by (auto simp: tree_ok_def tree_new_def nth_Cons')
next
  case (next_tree t t')
  from next_tree.hyps(2) show ?case
  proof cases
    case (get_ports i ps)
    obtain x t1 where g: "get_session t i = (x, t1)" by force
    note gs = get_session_ok[OF next_tree.IH g]
    have "tree_ok pid (add_used_ports t1 x ps)" unfolding add_used_ports_def by (rule tree_ok_upd[OF gs(1,3)]) simp
    with get_ports g show ?thesis by simp
  next
    case (started i)
    with new_session_started_ok[OF next_tree.IH] show ?thesis by simp
  next
    case (moved x)
    with move_to_root_ok[OF next_tree.IH] show ?thesis by simp
  next
    case (removed i)
    with remove_session_ok[OF next_tree.IH] show ?thesis by simp
  qed
qed

subsection \<open>The tree below a session\<close>

definition edges :: "session_tree \<Rightarrow> (nat \<times> nat) set" where
  "edges t = {(c, p). c < length (st_nodes t) \<and> node_parent t c = Some p}"

definition subtree :: "session_tree \<Rightarrow> nat \<Rightarrow> nat set" where
  "subtree t x = {y. (y, x) \<in> (edges t)\<^sup>*}"

definition acyclic_parents :: "(jstr \<Rightarrow> jstr option) \<Rightarrow> bool" where
  "acyclic_parents pid = acyclic {(i, j). pid i = Some j}"

lemma single_valued_edges: "single_valued (edges t)"
  by (auto simp: single_valued_def edges_def)

lemma edges_path_ids:
  assumes ok: "tree_ok pid t" and "(c, p) \<in> (edges t)\<^sup>+"
  shows "p = 0 \<or> (\<exists>i j. nd_id (st_nodes t ! c) = Some i \<and> nd_id (st_nodes t ! p) = Some j \<and> (i, j) \<in> {(i, j). pid i = Some j}\<^sup>+)"
  using assms(2)
proof (induction rule: trancl_induct)
  case (base p)
  then have e: "c < length (st_nodes t)" "node_parent t c = Some p" by (auto simp: edges_def)
  have "p < length (st_nodes t)" "c \<noteq> 0" using tree_okD(7)[OF ok] parent_nonzero[OF ok] e by auto
  with tree_okD(8)[OF ok e] tree_okD(4)[OF ok, of c] tree_okD(4)[OF ok, of p] e show ?case by (cases "p = 0") (auto split: bind_splits)
next
  case (step p q)
  then have e: "p < length (st_nodes t)" "node_parent t p = Some q" by (auto simp: edges_def)
  have "q < length (st_nodes t)" "p \<noteq> 0" using tree_okD(7)[OF ok] parent_nonzero[OF ok] e by auto
  with step.IH tree_okD(8)[OF ok e] tree_okD(4)[OF ok, of q] show ?case
    by (cases "q = 0") (auto split: bind_splits intro: trancl_into_trancl)
qed

lemma acyclic_edges: assumes ok: "tree_ok pid t" and "acyclic_parents pid" shows "acyclic (edges t)"
proof (rule acyclicI, intro allI notI)
  fix x assume c: "(x, x) \<in> (edges t)\<^sup>+"
  then obtain p where "(x, p) \<in> edges t" by (blast dest: tranclD)
  then have "x \<noteq> 0" using parent_nonzero[OF ok] by (auto simp: edges_def)
  with edges_path_ids[OF ok c] assms(2) show False by (auto simp: acyclic_parents_def acyclic_def)
qed

lemma subtree_finite: "x < length (st_nodes t) \<Longrightarrow> subtree t x \<subseteq> {..<length (st_nodes t)}"
  by (auto simp: subtree_def edges_def elim: converse_rtranclE)

lemma subtree_unfold:
  assumes ok: "tree_ok pid t" and x: "x < length (st_nodes t)"
  shows "subtree t x = insert x (\<Union>c \<in> set (node_children t x). subtree t c)"
proof (intro set_eqI iffI)
  fix y assume "y \<in> subtree t x"
  then have "y = x \<or> (\<exists>c. (y, c) \<in> (edges t)\<^sup>* \<and> (c, x) \<in> edges t)" by (auto simp: subtree_def elim: rtranclE)
  then show "y \<in> insert x (\<Union>c \<in> set (node_children t x). subtree t c)"
    using tree_okD(6)[OF ok x] by (auto simp: subtree_def edges_def)
next
  fix y assume "y \<in> insert x (\<Union>c \<in> set (node_children t x). subtree t c)"
  with tree_okD(6)[OF ok x] show "y \<in> subtree t x" by (auto simp: subtree_def edges_def intro: rtrancl_into_rtrancl)
qed

lemma child_edge: "tree_ok pid t \<Longrightarrow> x < length (st_nodes t) \<Longrightarrow> c \<in> set (node_children t x) \<Longrightarrow> (c, x) \<in> edges t \<and> c < length (st_nodes t)"
  using tree_okD(6) by (auto simp: edges_def)

lemma subtree_child_less:
  assumes ok: "tree_ok pid t" and ac: "acyclic (edges t)" and x: "x < length (st_nodes t)" and c: "c \<in> set (node_children t x)"
  shows "card (subtree t c) < card (subtree t x)"
proof (rule psubset_card_mono)
  show "finite (subtree t x)" using finite_subset[OF subtree_finite[OF x]] by simp
  have "x \<notin> subtree t c" using child_edge[OF ok x c] ac by (auto simp: subtree_def acyclic_def dest: rtrancl_into_trancl1)
  then show "subtree t c \<subset> subtree t x" using subtree_unfold[OF ok x] c by auto
qed

lemma subtrees_disjoint:
  assumes ac: "acyclic (edges t)" and e: "(a, x) \<in> edges t" "(b, x) \<in> edges t" "a \<noteq> b" and y: "y \<in> subtree t a" "y \<in> subtree t b"
  shows False
proof -
  have no: False if cd: "(c, d) \<in> (edges t)\<^sup>*" "c \<noteq> d" and cx: "(c, x) \<in> edges t" and dx: "(d, x) \<in> edges t" for c d
  proof -
    obtain z where "(c, z) \<in> edges t" "(z, d) \<in> (edges t)\<^sup>*" using cd by (auto elim: converse_rtranclE)
    with cx single_valued_edges[of t] have "(x, d) \<in> (edges t)\<^sup>*" by (auto simp: single_valued_def)
    with dx ac show False by (auto simp: acyclic_def dest: rtrancl_into_trancl1)
  qed
  show False using single_valued_confluent[OF single_valued_edges, of y a t b] y no e unfolding subtree_def by blast
qed

subsection \<open>The walks end\<close>

text \<open>No visited node is an ancestor of one visited later.\<close>

abbreviation children_first :: "session_tree \<Rightarrow> nat list \<Rightarrow> bool" where
  "children_first t vs \<equiv> sorted_wrt (\<lambda>a b. (b, a) \<notin> (edges t)\<^sup>+) vs"

lemma opt_concat_all:
  "(\<And>c. c \<in> set cs \<Longrightarrow> \<exists>vs. f c = Some vs \<and> P c vs) \<Longrightarrow> \<exists>vss. opt_concat (map f cs) = Some (concat vss) \<and> list_all2 P cs vss"
proof (induction cs)
  case (Cons c cs)
  obtain vs where "f c = Some vs" "P c vs" using Cons.prems[of c] by auto
  moreover obtain vss where "opt_concat (map f cs) = Some (concat vss)" "list_all2 P cs vss" using Cons by auto
  ultimately show ?case by (intro exI[of _ "vs # vss"]) simp
qed simp

lemma sorted_concat:
  assumes "list_all2 (\<lambda>c vs. set vs = S c \<and> distinct vs \<and> sorted_wrt R vs) cs vss" "distinct cs"
    and "\<And>a b. a \<in> set cs \<Longrightarrow> b \<in> set cs \<Longrightarrow> a \<noteq> b \<Longrightarrow> S a \<inter> S b = {} \<and> (\<forall>y \<in> S a. \<forall>z \<in> S b. R y z)"
  shows "set (concat vss) = \<Union> (S ` set cs) \<and> distinct (concat vss) \<and> sorted_wrt R (concat vss)"
  using assms
proof (induction rule: list_all2_induct)
  case (Cons c cs vs vss)
  have IH: "set (concat vss) = \<Union> (S ` set cs) \<and> distinct (concat vss) \<and> sorted_wrt R (concat vss)"
  proof (rule Cons.IH)
    show "distinct cs" using Cons.prems(1) by simp
    show "S a \<inter> S b = {} \<and> (\<forall>y \<in> S a. \<forall>z \<in> S b. R y z)" if "a \<in> set cs" "b \<in> set cs" "a \<noteq> b" for a b
      using Cons.prems(2)[of a b] that by simp
  qed
  have "S c \<inter> S b = {} \<and> (\<forall>y \<in> S c. \<forall>z \<in> S b. R y z)" if "b \<in> set cs" for b
    using Cons.prems(2)[of c b] Cons.prems(1) that by auto
  with IH Cons.hyps(1) show ?case by (auto simp: sorted_wrt_append)
qed simp

lemma broadcast_subtree:
  assumes ok: "tree_ok pid t" and ac: "acyclic (edges t)"
  shows "x < length (st_nodes t) \<Longrightarrow> card (subtree t x) \<le> n \<Longrightarrow>
    \<exists>vs. broadcast n t x = Some vs \<and> set vs = subtree t x \<and> distinct vs \<and> children_first t vs"
proof (induction n arbitrary: x)
  case 0
  then have "finite (subtree t x)" using finite_subset[OF subtree_finite] by auto
  with 0 have "x \<notin> subtree t x" by simp
  then show ?case by (simp add: subtree_def)
next
  case (Suc n)
  let ?cs = "node_children t x"
  have kids: "c \<in> set ?cs \<Longrightarrow> (c, x) \<in> edges t \<and> c < length (st_nodes t)" for c by (rule child_edge[OF ok Suc.prems(1)])
  have "\<exists>vs. broadcast n t c = Some vs \<and> (set vs = subtree t c \<and> distinct vs \<and> children_first t vs)" if "c \<in> set ?cs" for c
    using Suc.IH[of c] kids[OF that] subtree_child_less[OF ok ac Suc.prems(1) that] Suc.prems(2) by fastforce
  from opt_concat_all[of ?cs "broadcast n t" "\<lambda>c vs. set vs = subtree t c \<and> distinct vs \<and> children_first t vs", OF this]
  obtain vss where
    v: "opt_concat (map (broadcast n t) ?cs) = Some (concat vss)"
    "list_all2 (\<lambda>c vs. set vs = subtree t c \<and> distinct vs \<and> children_first t vs) ?cs vss" by blast
  have sep: "subtree t a \<inter> subtree t b = {} \<and> (\<forall>y \<in> subtree t a. \<forall>z \<in> subtree t b. (z, y) \<notin> (edges t)\<^sup>+)"
    if ab: "a \<in> set ?cs" "b \<in> set ?cs" "a \<noteq> b" for a b
  proof -
    have no: "y \<in> subtree t a \<Longrightarrow> y \<in> subtree t b \<Longrightarrow> False" for y
      using subtrees_disjoint[OF ac] kids ab by blast
    moreover have "z \<in> subtree t a" if "y \<in> subtree t a" "(z, y) \<in> (edges t)\<^sup>+" for y z
      using that by (auto simp: subtree_def)
    ultimately show ?thesis by blast
  qed
  have c: "set (concat vss) = \<Union> (subtree t ` set ?cs) \<and> distinct (concat vss) \<and> children_first t (concat vss)"
    using sorted_concat[OF v(2) tree_okD(5)[OF ok Suc.prems(1)]] sep by blast
  have "(x, a) \<notin> (edges t)\<^sup>+ \<and> a \<noteq> x" if a: "a \<in> set (concat vss)" for a
  proof -
    obtain k where k: "k \<in> set ?cs" "(a, k) \<in> (edges t)\<^sup>*" using a c by (auto simp: subtree_def)
    then have "(a, x) \<in> (edges t)\<^sup>+" using kids by (auto intro: rtrancl_into_trancl1)
    with ac show ?thesis by (auto simp: acyclic_def dest: trancl_trans)
  qed
  with c v(1) subtree_unfold[OF ok Suc.prems(1)] show ?case
    by (auto simp: sorted_wrt_append)
qed

lemma ancestors_bounded:
  assumes ok: "tree_ok pid t" and "x < length (st_nodes t)"
  shows "{a. (x, a) \<in> (edges t)\<^sup>*} \<subseteq> {..<length (st_nodes t)}"
proof
  fix a assume "a \<in> {a. (x, a) \<in> (edges t)\<^sup>*}"
  then have "(x, a) \<in> (edges t)\<^sup>*" by simp
  then show "a \<in> {..<length (st_nodes t)}"
  proof (induction rule: rtrancl_induct)
    case (step y z)
    then have "node_parent t y = Some z" "y < length (st_nodes t)" by (auto simp: edges_def)
    with tree_okD(7)[OF ok] show ?case by simp
  qed (use assms(2) in simp)
qed

lemma get_root_ends:
  assumes ok: "tree_ok pid t" and ac: "acyclic (edges t)"
  shows "x < length (st_nodes t) \<Longrightarrow> card {a. (x, a) \<in> (edges t)\<^sup>*} \<le> n \<Longrightarrow>
    \<exists>g. get_root n t x = Some g \<and> g < length (st_nodes t) \<and> (x, g) \<in> (edges t)\<^sup>* \<and>
      (case node_parent t g of None \<Rightarrow> g = x | Some p \<Rightarrow> node_parent t p = None)"
proof (induction n arbitrary: x)
  case 0
  then have "finite {a. (x, a) \<in> (edges t)\<^sup>*}" using finite_subset[OF ancestors_bounded[OF ok]] by simp
  with 0 have "x \<notin> {a. (x, a) \<in> (edges t)\<^sup>*}" by simp
  then show ?case by simp
next
  case (Suc n)
  show ?case
  proof (cases "node_parent t x")
    case None
    with Suc.prems(1) show ?thesis by simp
  next
    case (Some p)
    have e: "(x, p) \<in> edges t" "p < length (st_nodes t)" using Some Suc.prems(1) tree_okD(7)[OF ok] by (auto simp: edges_def)
    show ?thesis
    proof (cases "node_parent t p")
      case None
      with Some Suc.prems(1) show ?thesis by simp
    next
      case p: (Some g)
      have "{a. (p, a) \<in> (edges t)\<^sup>*} \<subset> {a. (x, a) \<in> (edges t)\<^sup>*}"
      proof
        show "{a. (p, a) \<in> (edges t)\<^sup>*} \<subseteq> {a. (x, a) \<in> (edges t)\<^sup>*}" using e by (auto intro: converse_rtrancl_into_rtrancl)
        have "(p, x) \<notin> (edges t)\<^sup>*" using ac e by (auto simp: acyclic_def dest: rtrancl_into_trancl2)
        then show "{a. (p, a) \<in> (edges t)\<^sup>*} \<noteq> {a. (x, a) \<in> (edges t)\<^sup>*}" by blast
      qed
      moreover have "finite {a. (x, a) \<in> (edges t)\<^sup>*}"
        using finite_subset[OF ancestors_bounded[OF ok Suc.prems(1)]] by simp
      ultimately have "card {a. (p, a) \<in> (edges t)\<^sup>*} < card {a. (x, a) \<in> (edges t)\<^sup>*}" by (rule psubset_card_mono[rotated])
      then have "card {a. (p, a) \<in> (edges t)\<^sup>*} \<le> n" using Suc.prems(2) by simp
      from Suc.IH[OF e(2) this] obtain h where h: "get_root n t p = Some h" "h < length (st_nodes t)" "(p, h) \<in> (edges t)\<^sup>*"
        "case node_parent t h of None \<Rightarrow> h = p | Some q \<Rightarrow> node_parent t q = None" by blast
      have "(x, h) \<in> (edges t)\<^sup>*" using e(1) h(3) by (rule converse_rtrancl_into_rtrancl)
      with h Some p show ?thesis by (auto split: option.splits)
    qed
  qed
qed

subsection \<open>Properties of the tree\<close>

text \<open>
  C26: In every reachable state the tree is well-formed: the children of a node are, without repetition, exactly the
  nodes whose parent it is, the root has none, and below the root parents are the parents the editor announced.
\<close>

theorem session_tree_wellformed:
  assumes "session_reachable pid t" "p < length (st_nodes t)" "c < length (st_nodes t)"
  shows "distinct (node_children t p) \<and> (c \<in> set (node_children t p) \<longleftrightarrow> node_parent t c = Some p) \<and> node_parent t 0 = None \<and>
    (node_parent t c = Some p \<and> p \<noteq> 0 \<longrightarrow> Option.bind (nd_id (st_nodes t ! c)) pid = nd_id (st_nodes t ! p))"
proof -
  note d = tree_okD[OF session_reachable_ok[OF assms(1)]]
  show ?thesis using d(2) d(5)[OF assms(2)] d(6)[OF assms(2), of c] d(8)[OF assms(3), of p] assms(3) by blast
qed

text \<open>
  A broadcast from a session ends, within a depth of the number of nodes: it visits the session and everything below
  it exactly once and every child before its parent; started at the root of the session, it visits the
  whole tree that holds it.
\<close>

lemma broadcast_children_first:
  assumes "session_reachable pid t" "acyclic_parents pid" "x < length (st_nodes t)"
  shows "\<exists>vs r. broadcast_dfs (Suc (length (st_nodes t))) t x from_root = Some vs \<and>
    (x, r) \<in> (edges t)\<^sup>* \<and> (if from_root then (case node_parent t r of None \<Rightarrow> r = x | Some p \<Rightarrow> node_parent t p = None) else r = x) \<and>
    set vs = subtree t r \<and> distinct vs \<and> children_first t vs"
proof -
  have ok: "tree_ok pid t" by (rule session_reachable_ok[OF assms(1)])
  have ac: "acyclic (edges t)" by (rule acyclic_edges[OF ok assms(2)])
  have "card (subtree t y) \<le> length (st_nodes t)" if "y < length (st_nodes t)" for y
    using card_mono[OF _ subtree_finite[OF that]] by simp
  then have b: "\<exists>vs. broadcast (Suc (length (st_nodes t))) t y = Some vs \<and> set vs = subtree t y \<and> distinct vs \<and> children_first t vs"
    if "y < length (st_nodes t)" for y using broadcast_subtree[OF ok ac that, of "Suc (length (st_nodes t))"] that by fastforce
  from card_mono[OF _ ancestors_bounded[OF ok assms(3)]] have "card {a. (x, a) \<in> (edges t)\<^sup>*} \<le> Suc (length (st_nodes t))"
    by simp
  from get_root_ends[OF ok ac assms(3) this] obtain g where g: "get_root (Suc (length (st_nodes t))) t x = Some g" "g < length (st_nodes t)"
    "(x, g) \<in> (edges t)\<^sup>*" "case node_parent t g of None \<Rightarrow> g = x | Some p \<Rightarrow> node_parent t p = None" by blast
  show ?thesis
  proof (cases from_root)
    case True
    obtain vs where "broadcast (Suc (length (st_nodes t))) t g = Some vs" "set vs = subtree t g" "distinct vs" "children_first t vs"
      using b[OF g(2)] by blast
    with g True show ?thesis
      by (intro exI[of _ vs] exI[of _ g]) (simp add: broadcast_dfs_def del: broadcast.simps get_root.simps)
  next
    case False
    obtain vs where "broadcast (Suc (length (st_nodes t))) t x = Some vs" "set vs = subtree t x" "distinct vs" "children_first t vs"
      using b[OF assms(3)] by blast
    with False show ?thesis
      by (intro exI[of _ vs] exI[of _ x]) (simp add: broadcast_dfs_def del: broadcast.simps)
  qed
qed

lemma add_ports_set [simp]: "set (add_ports ps qs) = set ps \<union> set qs"
  unfolding add_ports_def by (induction qs arbitrary: ps) auto

text \<open>The ports to avoid are those of the sessions that have not exited, those not yet started included.\<close>

lemma used_ports_exact:
  "set (get_all_used_ports t) = (\<Union>x \<in> {x \<in> set (st_current t). nd_status (st_nodes t ! x) \<noteq> Sexited}. set (nd_ports (st_nodes t ! x)))"
proof -
  have "set (foldl (\<lambda>ps x. if nd_status (st_nodes t ! x) \<noteq> Sexited then add_ports ps (nd_ports (st_nodes t ! x)) else ps) ps xs) =
    set ps \<union> (\<Union>x \<in> {x \<in> set xs. nd_status (st_nodes t ! x) \<noteq> Sexited}. set (nd_ports (st_nodes t ! x)))" for ps xs
    by (induction xs arbitrary: ps) auto
  then show ?thesis by (simp add: get_all_used_ports_def)
qed

text \<open>An example: a session with a second core under it.\<close>

definition two_cores :: "jstr \<Rightarrow> jstr option" where
  "two_cores i = (if i = ''core1'' then Some ''core0'' else None)"

definition two_core_tree :: session_tree where
  "two_core_tree = snd (new_session_started (snd (new_session_started tree_new \<lparr>es_id = ''core0'', es_parent = two_cores ''core0''\<rparr>))
     \<lparr>es_id = ''core1'', es_parent = two_cores ''core1''\<rparr>)"

lemma two_core_tree_reachable: "session_reachable two_cores two_core_tree"
proof -
  let ?t = "snd (new_session_started tree_new \<lparr>es_id = ''core0'', es_parent = two_cores ''core0''\<rparr>)"
  have "session_step two_cores tree_new ?t" by (rule started) code_simp
  with initial_tree have t: "session_reachable two_cores ?t" by (rule next_tree)
  have "session_step two_cores ?t two_core_tree" unfolding two_core_tree_def by (rule started) code_simp
  with t show ?thesis by (rule next_tree)
qed

lemma session_tree_wellformed_witness:
  "node_children two_core_tree 1 = [2] \<and> (2 \<in> set (node_children two_core_tree 1)) = (node_parent two_core_tree 2 = Some 1)"
proof -
  have "1 < length (st_nodes two_core_tree)" "2 < length (st_nodes two_core_tree)" "node_children two_core_tree 1 = [2]" by code_simp+
  with session_tree_wellformed[OF two_core_tree_reachable this(1,2)] show ?thesis by blast
qed

lemma broadcast_children_first_witness:
  "\<exists>vs. broadcast_dfs 4 two_core_tree 2 True = Some vs \<and> distinct vs \<and> children_first two_core_tree vs"
proof -
  have a: "acyclic_parents two_cores"
  proof -
    have e: "(i, j) \<in> {(i, j). two_cores i = Some j}\<^sup>+ \<Longrightarrow> i = ''core1'' \<and> j = ''core0''" for i j
      by (induction rule: trancl_induct) (auto simp: two_cores_def split: if_splits)
    have "(x, x) \<notin> {(i, j). two_cores i = Some j}\<^sup>+" for x
    proof
      assume "(x, x) \<in> {(i, j). two_cores i = Some j}\<^sup>+"
      from e[OF this] show False by auto
    qed
    then show ?thesis unfolding acyclic_parents_def acyclic_def by blast
  qed
  have "2 < length (st_nodes two_core_tree)" "Suc (length (st_nodes two_core_tree)) = 4" by code_simp+
  with broadcast_children_first[OF two_core_tree_reachable a this(1), of True] show ?thesis by auto
qed

end
