(* ===== verification/Variables.thy ===== *)
theory Variables
  imports GdbCommands VarScopes Handles
begin

text \<open>
  The variables the debug adapter shows (\<open>adapter/variables.ts\<close>, and the frame and scope handles of
  \<open>adapter/gdb-session.ts\<close>): containers of variable objects that mirror the variable objects of GDB, the handles
  by which the client names them, and the requests that create, update, assign and delete them.

  Variable objects are shared between a container's two tables, so they live in a heap and the tables hold their
  index. GDB is a parameter: an answer and a next state for each command. A request is one
  step, as the session's queue takes requests one at a time. The registers, the children of
  structured values and the text of character arrays are not modelled.
\<close>

subsection \<open>Variables and their keys\<close>

record var_keys =
  vk_parent :: int
  vk_name :: jstr
  vk_frame :: int

definition variable_keys :: "int \<Rightarrow> jstr \<Rightarrow> int \<Rightarrow> var_keys" where
  "variable_keys parent name frameRef = \<lparr>vk_parent = parent, vk_name = name, vk_frame = sint (to_w32 frameRef OR to_w32 VariableTypeMask)\<rparr>"

definition to_value_key :: "var_keys \<Rightarrow> jstr" where
  "to_value_key k = show_int (vk_parent k) @ ''|'' @ vk_name k @ ''|'' @ show_int (vk_frame k)"

text \<open>
  The text determines the three parts, whatever characters the name has: the registry of the variables
  (\<open>handles_identify_values\<close>) gives two variables the same handle exactly when their keys are the same.
\<close>

lemma split_at_first: "c \<notin> set a \<Longrightarrow> c \<notin> set a' \<Longrightarrow> a @ c # x = a' @ c # x' \<Longrightarrow> a = a' \<and> x = x'"
proof (induction a arbitrary: a')
  case Nil
  then show ?case by (cases a') auto
next
  case (Cons y a)
  then show ?case by (cases a') auto
qed

lemma show_int_inj: "show_int i = show_int j \<Longrightarrow> i = j"
  using show_int_read[of i "[]" j "[]"] by (simp add: delim_def)

lemma to_value_key_inj: "to_value_key k = to_value_key k' \<longleftrightarrow> k = k'"
proof
  assume e: "to_value_key k = to_value_key k'"
  have "CHR ''|'' \<notin> set (show_nat n)" for n using show_nat_digits[of n] by (auto simp: is_digit_def)
  then have n: "CHR ''|'' \<notin> set (show_int i)" "CHR ''|'' \<notin> set (rev (show_int i))" for i by (simp_all add: show_int_def)
  have "show_int (vk_parent k) @ CHR ''|'' # (vk_name k @ ''|'' @ show_int (vk_frame k)) =
      show_int (vk_parent k') @ CHR ''|'' # (vk_name k' @ ''|'' @ show_int (vk_frame k'))"
    using e by (simp add: to_value_key_def)
  from split_at_first[OF n(1) n(1) this] have p: "show_int (vk_parent k) = show_int (vk_parent k')"
    and r: "rev (vk_name k @ ''|'' @ show_int (vk_frame k)) = rev (vk_name k' @ ''|'' @ show_int (vk_frame k'))" by simp_all
  from r have "rev (show_int (vk_frame k)) @ CHR ''|'' # rev (vk_name k) = rev (show_int (vk_frame k')) @ CHR ''|'' # rev (vk_name k')" by simp
  from split_at_first[OF n(2) n(2) this] p show "k = k'" by (cases k; cases k') (auto dest: show_int_inj)
qed simp

text \<open>Texts of large numbers are evaluated without unary numbers.\<close>

fun show_pos :: "int \<Rightarrow> jstr" where
  "show_pos i = (if i < 10 then [digit_char (nat i)] else show_pos (i div 10) @ [digit_char (nat (i mod 10))])"

lemma show_pos_nat: "0 \<le> i \<Longrightarrow> show_pos i = show_nat (nat i)"
proof (induction i rule: show_pos.induct)
  case (1 i)
  show ?case
  proof (cases "i < 10")
    case True
    with 1 show ?thesis by (subst show_nat.simps) simp
  next
    case False
    with 1 show ?thesis by (subst show_nat.simps) (simp add: nat_div_distrib nat_mod_distrib)
  qed
qed

lemma show_int_code [code]: "show_int i = (if i < 0 then CHR ''-'' # show_pos (- i) else show_pos i)"
  using show_pos_nat[of i] show_pos_nat[of "- i"] by (simp add: show_int_def)

declare show_pos.simps [simp del]

text \<open>The fields of an answer that are texts; no other field of these records is looked at.\<close>

type_synonym mi_fields = "(jstr \<times> jstr) list"

definition text_fields :: "(jstr \<times> mi_value) list \<Rightarrow> mi_fields" where
  "text_fields rs = concat (map (\<lambda>(k, v). case v of MConst s \<Rightarrow> [(k, s)] | _ \<Rightarrow> []) rs)"

definition text_or :: "mi_fields \<Rightarrow> jstr \<Rightarrow> jstr \<Rightarrow> jstr" where
  "text_or r k d = (case map_of r k of None \<Rightarrow> d | Some s \<Rightarrow> if s = [] then d else s)"

definition text_else :: "mi_fields \<Rightarrow> jstr \<Rightarrow> jstr \<Rightarrow> jstr" where
  "text_else r k d = (case map_of r k of None \<Rightarrow> d | Some s \<Rightarrow> s)"

record var_object =
  vo_keys :: var_keys
  vo_scope :: int
  vo_value :: jstr
  vo_type :: jstr
  vo_exp :: jstr
  vo_eval :: jstr
  vo_dynamic :: bool
  vo_has_more :: bool
  vo_hint :: jstr
  vo_numchild :: num
  vo_ref :: int
  vo_handle :: int
  vo_gdb :: "jstr option"
  vo_file :: "jstr option"
  vo_address :: "jstr option"
  vo_editable :: "bool option"

text \<open>\<open>!!parseInt(s)\<close>\<close>

definition truthy_num :: "num \<Rightarrow> bool" where
  "truthy_num n = (case n of None \<Rightarrow> False | Some k \<Rightarrow> k \<noteq> 0)"

definition apply_changes :: "mi_fields \<Rightarrow> var_object \<Rightarrow> var_object" where
  "apply_changes r v =
     (let v = (case map_of r ''value'' of None \<Rightarrow> v | Some s \<Rightarrow> v\<lparr>vo_value := s\<rparr>);
          v = (if map_of r ''type_changed'' = Some ''true'' then v\<lparr>vo_type := text_else r ''new_type'' (vo_type v)\<rparr> else v);
          v = (case map_of r ''new_num_children'' of None \<Rightarrow> v | Some s \<Rightarrow> v\<lparr>vo_numchild := parse_int s\<rparr>);
          v = v\<lparr>vo_dynamic := truthy_num (parse_int (text_else r ''dynamic'' ''0''))\<rparr>;
          v = (case map_of r ''displayhint'' of None \<Rightarrow> v | Some s \<Rightarrow> v\<lparr>vo_hint := s\<rparr>)
      in v\<lparr>vo_has_more := truthy_num (parse_int (text_else r ''has_more'' ''0''))\<rparr>)"

subsection \<open>Containers\<close>

type_synonym var_entry = "var_keys \<times> nat"

record container =
  ct_scope :: int
  ct_prefix :: jstr
  ct_global :: bool
  ct_names :: "(jstr option \<times> nat) list"
  ct_handles :: "(jstr, var_entry) registry"
  ct_files :: "(jstr \<times> int) list"
  ct_next_file :: int

definition container_new :: "int \<Rightarrow> jstr \<Rightarrow> bool \<Rightarrow> container" where
  "container_new scope prefix global = \<lparr>ct_scope = scope, ct_prefix = prefix, ct_global = global, ct_names = [],
     ct_handles = hr_new, ct_files = [], ct_next_file = 1\<rparr>"

definition var_key_of :: "var_entry \<Rightarrow> jstr" where
  "var_key_of e = to_value_key (fst e)"

definition add_variable :: "(jstr, var_entry) registry \<Rightarrow> var_entry \<Rightarrow> (jstr, var_entry) registry \<times> nat" where
  "add_variable r e = reg_add var_key_of r e"

definition release_handle :: "(jstr, var_entry) registry \<Rightarrow> nat \<Rightarrow> (jstr, var_entry) registry \<times> bool" where
  "release_handle r h = reg_release var_key_of (\<lambda>_. False) r h"

text \<open>\<open>handle >>> ScopeBits\<close>, and \<open>(handle << ScopeBits) | (scope & ScopeMask)\<close>.\<close>

definition handle_index :: "int \<Rightarrow> nat" where
  "handle_index handle = unat (drop_bit 4 (to_w32 handle))"

definition pack_handle :: "nat \<Rightarrow> int \<Rightarrow> int" where
  "pack_handle h scope = sint (push_bit 4 (to_w32 (int h)) OR (to_w32 scope AND to_w32 ScopeMask))"

type_synonym var_heap = "var_object list"

definition create_variable :: "int \<Rightarrow> int \<Rightarrow> jstr \<Rightarrow> jstr \<Rightarrow> jstr \<Rightarrow> int \<Rightarrow> int \<Rightarrow> var_heap \<Rightarrow> container \<Rightarrow> nat \<times> int \<times> var_heap \<times> container" where
  "create_variable scope parent name value type thread frame heap ct =
     (let varRef = encode_scope_reference thread frame (sint (to_w32 scope AND to_w32 ActualScopeMask));
          oid = length heap; keys = variable_keys parent name varRef;
          (reg, handle) = add_variable (ct_handles ct) (keys, oid);
          ref = pack_handle handle scope;
          obj = \<lparr>vo_keys = keys, vo_scope = sint (to_w32 scope OR to_w32 VariableTypeMask), vo_value = value, vo_type = type, vo_exp = [], vo_eval = [],
                 vo_dynamic = False, vo_has_more = False, vo_hint = [], vo_numchild = Some 0, vo_ref = 0, vo_handle = ref,
                 vo_gdb = None, vo_file = None, vo_address = None, vo_editable = None\<rparr>
      in (oid, ref, heap @ [obj], ct\<lparr>ct_handles := reg\<rparr>))"

definition parse_mi_variable :: "jstr \<Rightarrow> mi_fields \<Rightarrow> int \<Rightarrow> int \<Rightarrow> int \<Rightarrow> int \<Rightarrow> var_heap \<Rightarrow> container \<Rightarrow> nat \<times> int \<times> var_heap \<times> container" where
  "parse_mi_variable name r scope parent thread frame heap ct =
     (let (oid, ref, heap, ct) = create_variable scope parent name (text_else r ''value'' []) (text_or r ''type'' ''unknown'') thread frame heap ct;
          exp = text_or r ''exp'' name;
          obj = (heap ! oid)\<lparr>vo_gdb := map_of r ''name'', vo_exp := exp, vo_numchild := parse_int (text_or r ''numchild'' ''0''), vo_eval := exp\<rparr>
      in (oid, ref, heap[oid := apply_changes r obj], ct\<lparr>ct_names := AList.update (map_of r ''name'') oid (ct_names ct)\<rparr>))"

definition get_variable_by_key :: "container \<Rightarrow> var_keys \<Rightarrow> nat option" where
  "get_variable_by_key ct k = (case hr_key_to_handle (ct_handles ct) (to_value_key k) of
     None \<Rightarrow> None | Some h \<Rightarrow> map_option snd (hr_handle_to_obj (ct_handles ct) h))"

definition get_variable_by_ref :: "container \<Rightarrow> int \<Rightarrow> nat option" where
  "get_variable_by_ref ct ref = map_option snd (hr_handle_to_obj (ct_handles ct) (handle_index ref))"

definition release_variable :: "container \<Rightarrow> int \<Rightarrow> container \<times> bool" where
  "release_variable ct ref = (let (reg, b) = release_handle (ct_handles ct) (handle_index ref) in (ct\<lparr>ct_handles := reg\<rparr>, b))"

definition has_gdb_name :: "container \<Rightarrow> jstr \<Rightarrow> bool" where
  "has_gdb_name ct name = (map_of (ct_names ct) (Some name) \<noteq> None)"

text \<open>A template literal shows an undefined name as \<open>undefined\<close>.\<close>

definition delete_cmd :: "jstr option \<Rightarrow> jstr" where
  "delete_cmd name = ''-var-delete '' @ (case name of None \<Rightarrow> ''undefined'' | Some n \<Rightarrow> n)"

type_synonym 'g gdb_send = "'g \<Rightarrow> jstr \<Rightarrow> answer \<times> 'g"

text \<open>Errors of \<open>-var-delete\<close> are only logged.\<close>

fun delete_roots :: "'g gdb_send \<Rightarrow> 'g \<Rightarrow> var_heap \<Rightarrow> (jstr option \<times> nat) list \<Rightarrow> 'g" where
  "delete_roots gdb g heap [] = g"
| "delete_roots gdb g heap ((name, oid) # rest) =
     delete_roots gdb (if vk_parent (vo_keys (heap ! oid)) = 0 then snd (gdb g (delete_cmd name)) else g) heap rest"

definition clear_container :: "'g gdb_send \<Rightarrow> 'g \<Rightarrow> var_heap \<Rightarrow> container \<Rightarrow> 'g \<times> container" where
  "clear_container gdb g heap ct = (delete_roots gdb g heap (ct_names ct), ct\<lparr>ct_handles := reg_clear (ct_handles ct), ct_names := []\<rparr>)"

definition delete_by_gdb_name :: "'g gdb_send \<Rightarrow> 'g \<Rightarrow> var_heap \<Rightarrow> container \<Rightarrow> jstr \<Rightarrow> bool \<times> 'g \<times> container" where
  "delete_by_gdb_name gdb g heap ct name = (case map_of (ct_names ct) (Some name) of
     None \<Rightarrow> (False, g, ct)
   | Some oid \<Rightarrow>
       (True, if vk_parent (vo_keys (heap ! oid)) = 0 then snd (gdb g (delete_cmd (Some name))) else g,
        (fst (release_variable ct (vo_handle (heap ! oid))))\<lparr>ct_names := AList.delete (Some name) (ct_names ct)\<rparr>))"

definition delete_stale_child :: "'g gdb_send \<Rightarrow> 'g \<Rightarrow> var_heap \<Rightarrow> container \<Rightarrow> jstr \<Rightarrow> bool \<times> 'g \<times> container" where
  "delete_stale_child gdb g heap ct name = (case map_of (ct_names ct) (Some name) of
     None \<Rightarrow> (False, g, ct)
   | Some oid \<Rightarrow> (True, snd (gdb g (delete_cmd (Some name))),
        (fst (release_variable ct (vo_handle (heap ! oid))))\<lparr>ct_names := AList.delete (Some name) (ct_names ct)\<rparr>))"

definition get_file_id :: "container \<Rightarrow> jstr \<Rightarrow> int \<times> container" where
  "get_file_id ct file = (if file = [] then (0, ct) else case map_of (ct_files ct) file of
     Some i \<Rightarrow> (i, ct)
   | None \<Rightarrow> (ct_next_file ct, ct\<lparr>ct_files := AList.update file (ct_next_file ct) (ct_files ct), ct_next_file := ct_next_file ct + 1\<rparr>))"

text \<open>Global and static variables: the number of the file takes the place of the thread.\<close>

definition parse_mi_global_variable :: "jstr \<Rightarrow> mi_fields \<Rightarrow> int \<Rightarrow> int \<Rightarrow> jstr \<Rightarrow> var_heap \<Rightarrow> container \<Rightarrow> nat \<times> int \<times> var_heap \<times> container" where
  "parse_mi_global_variable name r scope parent file heap ct =
     (let (file_id, ct) = get_file_id ct file;
          (oid, ref, heap, ct) = create_variable scope parent name (text_else r ''value'' []) (text_or r ''type'' ''unknown'') file_id 0 heap ct;
          exp = text_or r ''exp'' name;
          obj = (heap ! oid)\<lparr>vo_file := Some file, vo_gdb := map_of r ''name'', vo_exp := exp, vo_eval := exp\<rparr>
      in (oid, ref, heap[oid := apply_changes r obj], ct\<lparr>ct_names := AList.update (map_of r ''name'') oid (ct_names ct)\<rparr>))"

subsection \<open>The manager\<close>

record 'g var_manager =
  vm_gdb :: 'g
  vm_heap :: var_heap
  vm_containers :: "int \<Rightarrow> container option"
  vm_frames :: item_registry
  vm_file_map :: "(jstr \<times> int) list"

abbreviation ScopeGlobal :: int where "ScopeGlobal \<equiv> 0"
abbreviation ScopeStatic :: int where "ScopeStatic \<equiv> 1"
abbreviation ScopeLocal :: int where "ScopeLocal \<equiv> 2"
abbreviation ScopeRegisters :: int where "ScopeRegisters \<equiv> 3"
abbreviation ScopeWatch :: int where "ScopeWatch \<equiv> 5"
abbreviation ScopeConsoleMsg :: int where "ScopeConsoleMsg \<equiv> 6"
abbreviation ScopeGlobalVariable :: int where "ScopeGlobalVariable \<equiv> 8"
abbreviation ScopeStaticVariable :: int where "ScopeStaticVariable \<equiv> 9"
abbreviation ScopeLocalVariable :: int where "ScopeLocalVariable \<equiv> 10"
abbreviation ScopeWatchVariable :: int where "ScopeWatchVariable \<equiv> 13"

definition var_manager_new :: "'g \<Rightarrow> 'g var_manager" where
  "var_manager_new g = \<lparr>vm_gdb = g, vm_heap = [],
     vm_containers = (Map.empty(ScopeGlobal \<mapsto> container_new ScopeGlobal ''G-'' True))(ScopeStatic \<mapsto> container_new ScopeStatic ''S-'' True,
       ScopeLocal \<mapsto> container_new ScopeLocal ''L-'' False, ScopeWatch \<mapsto> container_new ScopeWatch ''W-'' False,
       ScopeRegisters \<mapsto> container_new ScopeRegisters ''R-'' False),
     vm_frames = hr_new, vm_file_map = []\<rparr>"

definition container_scope :: "int \<Rightarrow> int" where
  "container_scope scope = sint (to_w32 scope AND to_w32 ActualScopeMask)"

definition no_container :: jstr where "no_container = ''Error: No container for scope''"

definition get_container :: "'g var_manager \<Rightarrow> int \<Rightarrow> container option" where
  "get_container m scope = vm_containers m (container_scope scope)"

definition put_container :: "int \<Rightarrow> container \<Rightarrow> 'g var_manager \<Rightarrow> 'g var_manager" where
  "put_container scope ct m = m\<lparr>vm_containers := (vm_containers m)(container_scope scope \<mapsto> ct)\<rparr>"

definition add_frame_info :: "int \<Rightarrow> int \<Rightarrow> int \<Rightarrow> 'g var_manager \<Rightarrow> int \<times> 'g var_manager" where
  "add_frame_info thread frame scope m =
     (let (r, h) = add_item (vm_frames m) (JInt (encode_scope_reference thread frame scope)) in (int h, m\<lparr>vm_frames := r\<rparr>))"

definition get_frame_info :: "'g var_manager \<Rightarrow> int \<Rightarrow> jstr + int \<times> int \<times> int" where
  "get_frame_info m handle = (case (if handle < 0 then None else get_item (vm_frames m) (nat handle)) of
     Some (JInt encoded) \<Rightarrow> Inr (decode_reference encoded)
   | _ \<Rightarrow> Inl (''Error: No frame info for handle '' @ show_int handle))"

definition get_variable_object :: "'g var_manager \<Rightarrow> int \<Rightarrow> nat option" where
  "get_variable_object m handle = (if \<not> is_variable_reference handle then None
     else case get_container m (get_scope_from_reference handle) of None \<Rightarrow> None | Some ct \<Rightarrow> get_variable_by_ref ct handle)"

definition get_var_or_frame_info :: "'g var_manager \<Rightarrow> int \<Rightarrow> jstr + int \<times> int \<times> int" where
  "get_var_or_frame_info m handle =
     (if is_variable_reference handle then
        (case get_container m (get_scope_from_reference handle) of
           None \<Rightarrow> Inl no_container
         | Some ct \<Rightarrow> (case get_variable_by_ref ct handle of
             None \<Rightarrow> Inl (''Error: No variable found for reference '' @ show_int handle)
           | Some oid \<Rightarrow> (let (thread, frame, _) = decode_reference (vk_frame (vo_keys (vm_heap m ! oid)))
               in Inr (thread, frame, get_scope_from_reference handle))))
      else get_frame_info m handle)"

text \<open>Who answers a \<open>variables\<close> request: \<open>variablesRequest\<close> and \<open>getVariables\<close>.\<close>

datatype var_route = RConsole | RLocals int int | RRegisters int int | RGlobals | RStatics int int | RChildren nat | RFails jstr

definition variables_route :: "'g var_manager \<Rightarrow> int \<Rightarrow> var_route" where
  "variables_route m ref =
     (if get_scope_from_reference ref = ScopeConsoleMsg then RConsole
      else case get_var_or_frame_info m ref of
        Inl e \<Rightarrow> RFails e
      | Inr (thread, frame, scope) \<Rightarrow>
          if scope = ScopeLocal then RLocals thread frame
          else if scope = ScopeRegisters then RRegisters thread frame
          else if scope = ScopeGlobal then RGlobals
          else if scope = ScopeStatic then RStatics thread frame
          else if is_variable_reference scope then
            (case get_variable_object m ref of None \<Rightarrow> RFails ''TypeError'' | Some oid \<Rightarrow> RChildren oid)
          else RFails (''Error: Invalid variablesReference '' @ show_int ref))"

text \<open>\<open>getFileId\<close> of the session, on canonical paths, and the scopes of a frame.\<close>

definition session_file_id :: "(jstr \<Rightarrow> jstr) \<Rightarrow> jstr \<Rightarrow> 'g var_manager \<Rightarrow> int \<times> 'g var_manager" where
  "session_file_id canonical path m = (case map_of (vm_file_map m) (canonical path) of
     Some i \<Rightarrow> (i, m)
   | None \<Rightarrow> (let i = int (length (vm_file_map m)) in (i, m\<lparr>vm_file_map := AList.update (canonical path) i (vm_file_map m)\<rparr>)))"

definition global_file_name :: jstr where "global_file_name = '':global:''"

text \<open>The session numbers the name of the global file when it is created.\<close>

definition session_start :: "(jstr \<Rightarrow> jstr) \<Rightarrow> 'g \<Rightarrow> 'g var_manager" where
  "session_start canonical g = snd (session_file_id canonical global_file_name (var_manager_new g))"

definition file_by_id :: "'g var_manager \<Rightarrow> int \<Rightarrow> jstr" where
  "file_by_id m i = (case find (\<lambda>(path, j). j = i) (vm_file_map m) of None \<Rightarrow> [] | Some (path, j) \<Rightarrow> path)"

text \<open>A frame of the stack: its level and its file names, of which the empty one counts as missing.\<close>

record stack_frame =
  sf_level :: int
  sf_file :: jstr
  sf_fullname :: jstr

fun add_frames :: "int \<Rightarrow> stack_frame list \<Rightarrow> 'g var_manager \<Rightarrow> int list \<times> 'g var_manager" where
  "add_frames thread [] m = ([], m)"
| "add_frames thread (fr # frs) m =
     (let (h, m) = add_frame_info thread (sf_level fr) ScopeLocal m; (hs, m) = add_frames thread frs m in (h # hs, m))"

definition scopes_request :: "(jstr \<Rightarrow> jstr) \<Rightarrow> (int \<Rightarrow> stack_frame list option) \<Rightarrow> int \<Rightarrow> 'g var_manager \<Rightarrow> (jstr + (jstr \<times> int) list) \<times> 'g var_manager" where
  "scopes_request canonical threads frame_id m = (case get_frame_info m frame_id of
     Inl e \<Rightarrow> (Inl (''Failed to get scopes: '' @ e), m)
   | Inr (thread, frame, _) \<Rightarrow> (case threads thread of
       None \<Rightarrow> (Inl (''Thread with id '' @ show_int thread @ '' not found.''), m)
     | Some frames \<Rightarrow>
         if int (length frames) \<le> frame then (Inl (''Frame with id '' @ show_int frame @ '' not found in thread '' @ show_int thread @ ''.''), m)
         else let fr = frames ! nat frame;
                  (file, m) = (if sf_file fr = [] then (0, m) else session_file_id canonical (sf_file fr) m);
                  (full, m) = (if sf_fullname fr = [] then (0, m) else session_file_id canonical (sf_fullname fr) m);
                  name = (if sf_file fr = [] \<and> sf_fullname fr = [] then [] else ''-> '' @ (if sf_file fr = [] then sf_fullname fr else sf_file fr));
                  (local, m) = add_frame_info thread frame ScopeLocal m;
                  (static, m) = add_frame_info file full ScopeStatic m;
                  (global, m) = add_frame_info 0 0 ScopeGlobal m;
                  (registers, m) = add_frame_info thread frame ScopeRegisters m
              in (Inr [(''Local'', local), (''Static'' @ name, static), (''Global'', global), (''Registers'', registers)], m)))"

text \<open>The containers are visited in the order in which they were created.\<close>

definition clear_scope :: "'g gdb_send \<Rightarrow> int \<Rightarrow> 'g var_manager \<Rightarrow> 'g var_manager" where
  "clear_scope gdb scope m = (case vm_containers m scope of
     None \<Rightarrow> m
   | Some ct \<Rightarrow> if ct_global ct then m
       else let (g, ct) = clear_container gdb (vm_gdb m) (vm_heap m) ct in m\<lparr>vm_gdb := g, vm_containers := (vm_containers m)(scope \<mapsto> ct)\<rparr>)"

definition clear_for_continue :: "'g gdb_send \<Rightarrow> 'g var_manager \<Rightarrow> 'g var_manager" where
  "clear_for_continue gdb m =
     (foldl (\<lambda>m scope. clear_scope gdb scope m) m [ScopeGlobal, ScopeStatic, ScopeLocal, ScopeWatch, ScopeRegisters])\<lparr>vm_frames := clear_items (vm_frames m)\<rparr>"

subsection \<open>Names of GDB variables\<close>

definition gdb_name_at :: "jstr \<Rightarrow> nat \<Rightarrow> jstr" where
  "gdb_name_at template n = (if n = 0 then template else template @ ''-'' @ show_nat n)"

lemma gdb_name_at_inj: "gdb_name_at t n = gdb_name_at t k \<Longrightarrow> n = k"
  by (auto simp: gdb_name_at_def split: if_splits)

function next_gdb_name :: "container \<Rightarrow> jstr \<Rightarrow> nat \<Rightarrow> jstr" where
  "next_gdb_name ct template n = (if has_gdb_name ct (gdb_name_at template n) then next_gdb_name ct template (Suc n) else gdb_name_at template n)"
  by pat_completeness auto

termination
proof (relation "measure (\<lambda>(ct, template, n). card {k \<in> {n..}. has_gdb_name ct (gdb_name_at template k)})")
  show "wf (measure (\<lambda>(ct, template, n). card {k \<in> {n..}. has_gdb_name ct (gdb_name_at template k)}))" by simp
  fix ct template n assume h: "has_gdb_name ct (gdb_name_at template n)"
  have "inj_on (gdb_name_at template) A" for A by (auto intro!: inj_onI dest: gdb_name_at_inj)
  moreover have "gdb_name_at template ` {k \<in> {n..}. has_gdb_name ct (gdb_name_at template k)} \<subseteq> the ` fst ` set (ct_names ct)"
    by (auto simp: has_gdb_name_def image_iff dest!: map_of_SomeD intro!: bexI[rotated])
  ultimately have f: "finite {k \<in> {n..}. has_gdb_name ct (gdb_name_at template k)}"
    by (meson finite_imageD finite_imageI finite_set finite_subset)
  have "{k \<in> {Suc n..}. has_gdb_name ct (gdb_name_at template k)} \<subset> {k \<in> {n..}. has_gdb_name ct (gdb_name_at template k)}"
    (is "?A \<subset> ?B")
  proof
    show "?A \<subseteq> ?B" by auto
    have "n \<in> ?B" "n \<notin> ?A" using h by auto
    then show "?A \<noteq> ?B" by blast
  qed
  from psubset_card_mono[OF f this]
  show "((ct, template, Suc n), ct, template, n) \<in> measure (\<lambda>(ct, template, n). card {k \<in> {n..}. has_gdb_name ct (gdb_name_at template k)})" by simp
qed

definition create_gdb_name :: "container \<Rightarrow> jstr \<Rightarrow> int \<Rightarrow> int \<Rightarrow> jstr" where
  "create_gdb_name ct base thread frame = next_gdb_name ct (ct_prefix ct @ base @ ''-'' @ show_int thread @ ''-'' @ show_int frame) 0"

declare next_gdb_name.simps [simp del]

subsection \<open>Requests\<close>

definition vm_send :: "'g gdb_send \<Rightarrow> 'g var_manager \<Rightarrow> jstr \<Rightarrow> answer \<times> 'g var_manager" where
  "vm_send gdb m c = (let (a, g) = gdb (vm_gdb m) c in (a, m\<lparr>vm_gdb := g\<rparr>))"

definition upd_var :: "nat \<Rightarrow> (var_object \<Rightarrow> var_object) \<Rightarrow> 'g var_manager \<Rightarrow> 'g var_manager" where
  "upd_var oid f m = m\<lparr>vm_heap := (vm_heap m)[oid := f (vm_heap m ! oid)]\<rparr>"

text \<open>\<open>DataEvaluateExpression\<close>, and the first match of \<open>/0[xX][0-9a-fA-F]+/\<close>.\<close>

definition data_evaluate :: "'g gdb_send \<Rightarrow> jstr \<Rightarrow> 'g var_manager \<Rightarrow> jstr option \<times> 'g var_manager" where
  "data_evaluate gdb expr m = (case vm_send gdb m (''-data-evaluate-expression '' @ DQ # expr @ [DQ]) of
     (GdbDone rs, m) \<Rightarrow> (case map_of (text_fields rs) ''value'' of None \<Rightarrow> None | Some v \<Rightarrow> if v = [] then None else Some v, m)
   | (GdbError e, m) \<Rightarrow> (None, m))"

fun find_hex :: "jstr \<Rightarrow> jstr option" where
  "find_hex (a # b # s) = (let ds = takeWhile (\<lambda>c. hex_char_val c \<noteq> None) s in
     if a = CHR ''0'' \<and> (b = CHR ''x'' \<or> b = CHR ''X'') \<and> ds \<noteq> [] then Some (a # b # ds) else find_hex (b # s))"
| "find_hex _ = None"

text \<open>\<open>queryAddressOf\<close> with \<open>force\<close>; \<open>writable\<close> says of an address what the memory regions of the target say.\<close>

definition query_address_of :: "(int \<Rightarrow> bool) \<Rightarrow> 'g gdb_send \<Rightarrow> nat \<Rightarrow> 'g var_manager \<Rightarrow> 'g var_manager" where
  "query_address_of writable gdb oid m =
     (case data_evaluate gdb (''&('' @ vo_eval (vm_heap m ! oid) @ '')'') m of
        (None, m) \<Rightarrow> m
      | (Some v, m) \<Rightarrow> (case find_hex v of
          None \<Rightarrow> upd_var oid (\<lambda>v. v\<lparr>vo_address := None\<rparr>) m
        | Some a \<Rightarrow> upd_var oid (\<lambda>v. v\<lparr>vo_address := Some a, vo_editable := Some (case js_big_int a of Some n \<Rightarrow> writable n | None \<Rightarrow> False)\<rparr>) m))"

text \<open>The first record of the \<open>changelist\<close> of an update, and what is done with it.\<close>

definition first_change :: "(jstr \<times> mi_value) list \<Rightarrow> mi_fields option" where
  "first_change rs = (case map_of rs ''changelist'' of Some (MList (MTuple fs # _)) \<Rightarrow> Some (text_fields fs) | _ \<Rightarrow> None)"

definition update_object :: "mi_fields option \<Rightarrow> var_object \<Rightarrow> var_object" where
  "update_object ch v = (case ch of
     None \<Rightarrow> v
   | Some r \<Rightarrow> if text_or r ''in_scope'' ''true'' = ''true'' then apply_changes r v else v\<lparr>vo_value := ''not in scope?''\<rparr>)"

definition has_children :: "mi_fields \<Rightarrow> bool" where
  "has_children r = truthy_num (parse_int (text_else r ''numchild'' []))"

definition update_cmd :: "jstr \<Rightarrow> jstr option \<Rightarrow> jstr" where
  "update_cmd gap name = ''-var-update '' @ gap @ ''--all-values '' @ (case name of None \<Rightarrow> ''undefined'' | Some n \<Rightarrow> n)"

definition create_cmd :: "int \<Rightarrow> int \<Rightarrow> jstr \<Rightarrow> jstr \<Rightarrow> jstr" where
  "create_cmd thread frame name rest = ''-var-create --thread '' @ show_int thread @ '' --frame '' @ show_int frame @ '' '' @ name @ '' '' @ rest"

text \<open>One local variable: what is shown of it, by its object, and nothing when GDB refuses.\<close>

definition local_variable :: "(int \<Rightarrow> bool) \<Rightarrow> 'g gdb_send \<Rightarrow> int \<Rightarrow> int \<Rightarrow> jstr \<Rightarrow> 'g var_manager \<Rightarrow> nat option \<times> 'g var_manager" where
  "local_variable writable gdb thread frame name m = (case get_container m ScopeLocal of
     None \<Rightarrow> (None, m)
   | Some ct \<Rightarrow> (case get_variable_by_key ct (variable_keys 0 name (encode_var_reference thread frame ScopeLocal)) of
       None \<Rightarrow>
         (case vm_send gdb m (create_cmd thread frame (create_gdb_name ct name thread frame) (''* '' @ name)) of
            (GdbError e, m) \<Rightarrow> (None, m)
          | (GdbDone rs, m) \<Rightarrow>
              let r = text_fields rs;
                  (oid, ref, heap, ct) = parse_mi_variable name r ScopeLocalVariable 0 thread frame (vm_heap m) ct;
                  m = put_container ScopeLocal ct (m\<lparr>vm_heap := heap\<rparr>);
                  m = (if has_children r then upd_var oid (\<lambda>v. v\<lparr>vo_ref := ref\<rparr>) m else m)
              in (Some oid, query_address_of writable gdb oid m))
     | Some oid \<Rightarrow>
         (case vm_send gdb m (update_cmd [] (vo_gdb (vm_heap m ! oid))) of
            (GdbError e, m) \<Rightarrow> (None, m)
          | (GdbDone rs, m) \<Rightarrow> (Some oid, upd_var oid (update_object (first_change rs)) m))))"

fun local_loop :: "('g \<Rightarrow> bool) \<Rightarrow> (int \<Rightarrow> bool) \<Rightarrow> 'g gdb_send \<Rightarrow> int \<Rightarrow> int \<Rightarrow> jstr list \<Rightarrow> 'g var_manager \<Rightarrow> nat list \<times> 'g var_manager" where
  "local_loop running writable gdb thread frame [] m = ([], m)"
| "local_loop running writable gdb thread frame (name # names) m =
     (if running (vm_gdb m) then ([], m)
      else let (r, m) = local_variable writable gdb thread frame name m; (rs, m) = local_loop running writable gdb thread frame names m
        in (case r of None \<Rightarrow> rs | Some oid \<Rightarrow> oid # rs, m))"

text \<open>The names of the listed variables; GDB gives every one a name.\<close>

definition listed_names :: "(jstr \<times> mi_value) list \<Rightarrow> jstr list" where
  "listed_names rs = (case map_of rs ''variables'' of
     Some (MList vs) \<Rightarrow> concat (map (\<lambda>v. case v of MTuple fs \<Rightarrow> (case map_of (text_fields fs) ''name'' of Some n \<Rightarrow> [n] | None \<Rightarrow> []) | _ \<Rightarrow> []) vs)
   | _ \<Rightarrow> [])"

definition get_local_variables :: "('g \<Rightarrow> bool) \<Rightarrow> (int \<Rightarrow> bool) \<Rightarrow> 'g gdb_send \<Rightarrow> int \<Rightarrow> int \<Rightarrow> 'g var_manager \<Rightarrow> (jstr + nat list) \<times> 'g var_manager" where
  "get_local_variables running writable gdb thread frame m =
     (case vm_send gdb m (''-stack-list-variables --thread '' @ show_int thread @ '' --frame '' @ show_int frame @ '' --all-values'') of
        (GdbError e, m) \<Rightarrow> (Inl e, m)
      | (GdbDone rs, m) \<Rightarrow> (let (vs, m) = local_loop running writable gdb thread frame (listed_names rs) m in (Inr vs, m)))"

subsection \<open>Global and static variables\<close>

text \<open>
  The variables of a file, by name: those of the pseudo file \<open>:global:\<close>, or the static ones of a source file. \<open>thread\<close> and
  \<open>frame\<close> only go into the name, \<open>reference\<close> into the key.
\<close>

definition file_variable :: "(int \<Rightarrow> bool) \<Rightarrow> 'g gdb_send \<Rightarrow> int \<Rightarrow> int \<Rightarrow> int \<Rightarrow> int \<Rightarrow> jstr \<Rightarrow> jstr \<Rightarrow> 'g var_manager \<Rightarrow> nat option \<times> 'g var_manager" where
  "file_variable writable gdb scope reference thread frame file name m = (case get_container m scope of
     None \<Rightarrow> (None, m)
   | Some ct \<Rightarrow> (case get_variable_by_key ct (variable_keys 0 name reference) of
       None \<Rightarrow>
         let gdb_name = create_gdb_name ct name thread frame
         in (case vm_send gdb m (''-var-create '' @ gdb_name @ '' @ '' @ name) of
            (GdbError e, m) \<Rightarrow> (None, m)
          | (GdbDone rs, m) \<Rightarrow>
              let r = text_fields rs;
                  (oid, ref, heap, ct) = parse_mi_global_variable name r scope 0 file (vm_heap m) ct;
                  m = put_container scope ct (m\<lparr>vm_heap := heap\<rparr>);
                  m = (if has_children r then upd_var oid (\<lambda>v. v\<lparr>vo_ref := ref\<rparr>) m else m)
              in (Some oid, query_address_of writable gdb oid m))
     | Some oid \<Rightarrow>
         (case vm_send gdb m (update_cmd [] (vo_gdb (vm_heap m ! oid))) of
            (GdbError e, m) \<Rightarrow> (None, m)
          | (GdbDone rs, m) \<Rightarrow> (Some oid, upd_var oid (update_object (first_change rs)) m))))"

fun file_loop :: "('g \<Rightarrow> bool) \<Rightarrow> (int \<Rightarrow> bool) \<Rightarrow> 'g gdb_send \<Rightarrow> int \<Rightarrow> int \<Rightarrow> int \<Rightarrow> int \<Rightarrow> jstr \<Rightarrow> jstr list \<Rightarrow> 'g var_manager \<Rightarrow> nat list \<times> 'g var_manager" where
  "file_loop running writable gdb scope reference thread frame file [] m = ([], m)"
| "file_loop running writable gdb scope reference thread frame file (name # names) m =
     (if running (vm_gdb m) then ([], m)
      else let (r, m) = file_variable writable gdb scope reference thread frame file name m;
               (rs, m) = file_loop running writable gdb scope reference thread frame file names m
        in (case r of None \<Rightarrow> rs | Some oid \<Rightarrow> oid # rs, m))"

text \<open>
  The debug helper tells the names: \<open>None\<close> when its symbol table is not ready in time. (The branch without the helper is
  dead: \<open>RustDebugHelperEnabled\<close> is a constant of the program.)
\<close>

definition number_file :: "int \<Rightarrow> jstr \<Rightarrow> 'g var_manager \<Rightarrow> int \<times> 'g var_manager" where
  "number_file scope file m = (case get_container m scope of
     None \<Rightarrow> (0, m)
   | Some ct \<Rightarrow> let (i, ct) = get_file_id ct file in (i, put_container scope ct m))"

definition get_global_variables :: "('g \<Rightarrow> bool) \<Rightarrow> (int \<Rightarrow> bool) \<Rightarrow> 'g gdb_send \<Rightarrow> jstr list option \<Rightarrow> 'g var_manager \<Rightarrow> nat list \<times> 'g var_manager" where
  "get_global_variables running writable gdb names m = (case names of
     None \<Rightarrow> ([], m)
   | Some names \<Rightarrow> let (i, m) = number_file ScopeGlobalVariable global_file_name m
       in file_loop running writable gdb ScopeGlobalVariable (encode_scope_reference i 0 ScopeGlobalVariable) 0 0 global_file_name names m)"

definition get_static_variables :: "('g \<Rightarrow> bool) \<Rightarrow> (int \<Rightarrow> bool) \<Rightarrow> 'g gdb_send \<Rightarrow> (jstr \<Rightarrow> jstr list option) \<Rightarrow> int \<Rightarrow> int \<Rightarrow> 'g var_manager \<Rightarrow> nat list \<times> 'g var_manager" where
  "get_static_variables running writable gdb names file_id full_file_id m =
     (let file = file_by_id m full_file_id in (case names file of
        None \<Rightarrow> ([], m)
      | Some names \<Rightarrow> let (i, m) = number_file ScopeStaticVariable file m
          in file_loop running writable gdb ScopeStaticVariable (encode_scope_reference i 0 ScopeStaticVariable) file_id full_file_id file names m))"

subsection \<open>Watch expressions\<close>

text \<open>\<open>/,[bdtonxX]$/\<close> and the names of the formats.\<close>

definition format_suffix :: "jstr \<Rightarrow> (jstr \<times> char option)" where
  "format_suffix expr = (case rev expr of
     c # k # s \<Rightarrow> if k = CHR '','' \<and> c \<in> set ''bdtonxX'' then (rev s, Some c) else (expr, None)
   | _ \<Rightarrow> (expr, None))"

definition format_name :: "char \<Rightarrow> jstr" where
  "format_name c = (if c = CHR ''t'' \<or> c = CHR ''b'' then ''binary'' else if c = CHR ''o'' then ''octal'' else if c = CHR ''d'' then ''decimal''
     else if c = CHR ''n'' then ''natural'' else if c = CHR ''x'' then ''hexadecimal'' else ''zero-hexadecimal'')"

definition name_char :: "char \<Rightarrow> char" where
  "name_char c = (let n = of_char c :: nat in
     if is_digit c \<or> 65 \<le> n \<and> n \<le> 90 \<or> 97 \<le> n \<and> n \<le> 122 \<or> n = 95 \<or> n = 44 then c else CHR ''-'')"

definition fmt_expr :: "container \<Rightarrow> jstr \<Rightarrow> int \<Rightarrow> int \<Rightarrow> jstr \<times> jstr \<times> char option" where
  "fmt_expr ct expr thread frame =
     (let (new, suffix) = format_suffix (js_trim expr) in (create_gdb_name ct (map name_char new) thread frame, new, suffix))"

definition watch_create_cmd :: "int \<Rightarrow> int \<Rightarrow> jstr \<Rightarrow> jstr \<Rightarrow> jstr" where
  "watch_create_cmd thread frame name expr =
     (if thread = 0 \<and> frame = 0 then ''-var-create '' @ name @ '' @ '' @ DQ # expr @ [DQ]
      else create_cmd thread frame name (''* '' @ DQ # expr @ [DQ]))"

definition watch_frame :: "'g var_manager \<Rightarrow> int option \<Rightarrow> jstr + int \<times> int" where
  "watch_frame m frame_id = (case frame_id of
     None \<Rightarrow> Inr (0, 0)
   | Some h \<Rightarrow> if h = 0 then Inr (0, 0) else map_sum id (\<lambda>(thread, frame, _). (thread, frame)) (get_var_or_frame_info m h))"

text \<open>The body of \<open>evaluateExpression\<close> for the editor: an error, or the object with its value.\<close>

definition evaluate_expression :: "(int \<Rightarrow> bool) \<Rightarrow> 'g gdb_send \<Rightarrow> jstr \<Rightarrow> int option \<Rightarrow> 'g var_manager \<Rightarrow> (jstr + nat) \<times> 'g var_manager" where
  "evaluate_expression writable gdb expression frame_id m = (case watch_frame m frame_id of
     Inl e \<Rightarrow> (Inl e, m)
   | Inr (thread, frame) \<Rightarrow> (case get_container m ScopeWatchVariable of
       None \<Rightarrow> (Inl no_container, m)
     | Some ct \<Rightarrow> (case get_variable_by_key ct (variable_keys 0 (js_trim expression) (encode_var_reference thread frame ScopeWatchVariable)) of
         Some oid \<Rightarrow>
           (case vm_send gdb m (update_cmd '' '' (vo_gdb (vm_heap m ! oid))) of
              (GdbError e, m) \<Rightarrow> (Inl e, m)
            | (GdbDone rs, m) \<Rightarrow> (Inr oid, upd_var oid (update_object (first_change rs)) m))
       | None \<Rightarrow>
           let (name, expr, suffix) = fmt_expr ct expression thread frame
           in (case vm_send gdb m (watch_create_cmd thread frame name expr) of
                 (GdbError e, m) \<Rightarrow> (Inl e, m)
               | (GdbDone rs, m) \<Rightarrow>
                   let r = text_fields rs;
                       (formatted, m) = (case suffix of
                          None \<Rightarrow> (Inr r, m)
                        | Some c \<Rightarrow> (case vm_send gdb m (''-var-set-format '' @ name @ '' '' @ format_name c) of
                            (GdbError e, m) \<Rightarrow> (Inl e, m)
                          | (GdbDone fs, m) \<Rightarrow> (Inr (case map_of (text_fields fs) ''value'' of
                              None \<Rightarrow> AList.delete ''value'' r | Some v \<Rightarrow> AList.update ''value'' v r), m)))
                   in (case formatted of
                         Inl e \<Rightarrow> (Inl e, m)
                       | Inr r \<Rightarrow>
                           let (oid, ref, heap, ct) = parse_mi_variable (js_trim expression) r ScopeWatchVariable 0 thread frame (vm_heap m) ct;
                               m = put_container ScopeWatchVariable ct (m\<lparr>vm_heap := heap\<rparr>);
                               m = upd_var oid (\<lambda>v. (apply_changes r v)\<lparr>vo_gdb := Some name\<rparr>) m;
                               m = (if has_children r then upd_var oid (\<lambda>v. v\<lparr>vo_ref := ref\<rparr>) m else m)
                           in (Inr oid, query_address_of writable gdb oid m))))))"

text \<open>The text an evaluation shows when it fails.\<close>

definition evaluate_error :: "bool \<Rightarrow> jstr \<Rightarrow> jstr" where
  "evaluate_error watch e = (if watch then ''<'' @ e @ ''>'' else [])"

definition assign_cmd :: "jstr option \<Rightarrow> jstr \<Rightarrow> jstr" where
  "assign_cmd name v = ''-var-assign '' @ (case name of None \<Rightarrow> ''undefined'' | Some n \<Rightarrow> n) @ '' '' @ DQ # v @ [DQ]"

definition assigned_value :: "answer \<Rightarrow> jstr option" where
  "assigned_value a = (case a of GdbError e \<Rightarrow> None | GdbDone rs \<Rightarrow>
     (case map_of (text_fields rs) ''value'' of Some v \<Rightarrow> if v = [] then None else Some v | None \<Rightarrow> None))"

text \<open>The assignment \<open>setVariable\<close> ends with.\<close>

definition assign_object :: "'g gdb_send \<Rightarrow> jstr \<Rightarrow> jstr \<Rightarrow> nat \<Rightarrow> 'g var_manager \<Rightarrow> (jstr + jstr \<times> int) \<times> 'g var_manager" where
  "assign_object gdb name val oid m = (case vm_send gdb m (assign_cmd (vo_gdb (vm_heap m ! oid)) val) of
     (GdbError e, m) \<Rightarrow> (Inl e, m)
   | (GdbDone rs, m) \<Rightarrow> (case assigned_value (GdbDone rs) of
       None \<Rightarrow> (Inl (''Error: Failed to set variable '' @ name), m)
     | Some v \<Rightarrow> (Inr (v, vo_ref (vm_heap m ! oid)), upd_var oid (\<lambda>x. x\<lparr>vo_value := v\<rparr>) m)))"

definition set_variable :: "'g gdb_send \<Rightarrow> int \<Rightarrow> jstr \<Rightarrow> jstr \<Rightarrow> 'g var_manager \<Rightarrow> (jstr + jstr \<times> int) \<times> 'g var_manager" where
  "set_variable gdb ref name val m = (case get_var_or_frame_info m ref of
     Inl e \<Rightarrow> (Inl e, m)
   | Inr (thread, frame, scope) \<Rightarrow> (case get_container m scope of
       None \<Rightarrow> (Inl no_container, m)
     | Some ct \<Rightarrow>
         (case (if is_variable_reference ref \<and> ct_scope ct \<noteq> ScopeRegisters
                then (case get_variable_by_ref ct ref of None \<Rightarrow> None | Some p \<Rightarrow> Some (vo_handle (vm_heap m ! p))) else Some 0) of
            None \<Rightarrow> (Inl (''Error: Parent variable not found for reference '' @ show_int ref), m)
          | Some parent \<Rightarrow>
              (case get_variable_by_key ct (variable_keys parent name (encode_var_reference thread frame scope)) of
                 None \<Rightarrow> (Inl (''Error: Variable '' @ name @ '' not found or has no GDB name''), m)
               | Some oid \<Rightarrow>
                   if vo_gdb (vm_heap m ! oid) = None then (Inl (''Error: Variable '' @ name @ '' not found or has no GDB name''), m)
                   else assign_object gdb name val oid m))))"

definition set_expression :: "'g gdb_send \<Rightarrow> jstr \<Rightarrow> jstr \<Rightarrow> int option \<Rightarrow> 'g var_manager \<Rightarrow> (jstr + jstr) \<times> 'g var_manager" where
  "set_expression gdb expression val frame_id m = (case watch_frame m frame_id of
     Inl e \<Rightarrow> (Inl e, m)
   | Inr (thread, frame) \<Rightarrow> (case get_container m ScopeWatchVariable of
       None \<Rightarrow> (Inl no_container, m)
     | Some ct \<Rightarrow>
         let known = (case get_variable_by_key ct (variable_keys 0 (js_trim expression) (encode_var_reference thread frame ScopeWatchVariable)) of
               None \<Rightarrow> None | Some oid \<Rightarrow> vo_gdb (vm_heap m ! oid));
             (target, m) = (case known of
                Some n \<Rightarrow> (Inr (n, False), m)
              | None \<Rightarrow>
                  let (name, expr, suffix) = fmt_expr ct expression thread frame
                  in (case vm_send gdb m (watch_create_cmd thread frame name expr) of
                        (GdbError e, m) \<Rightarrow> (Inl e, m)
                      | (GdbDone rs, m) \<Rightarrow>
                          let r = text_fields rs;
                              (oid, ref, heap, ct) = create_variable ScopeWatchVariable 0 (js_trim expression) (text_else r ''value'' [])
                                (text_else r ''type'' ''undefined'') thread frame (vm_heap m) ct;
                              m = put_container ScopeWatchVariable ct (m\<lparr>vm_heap := heap\<rparr>);
                              m = upd_var oid (\<lambda>v. (apply_changes r v)\<lparr>vo_gdb := Some name\<rparr>) m
                          in (Inr (name, True), m)))
         in (case target of
               Inl e \<Rightarrow> (Inl e, m)
             | Inr (name, new) \<Rightarrow>
                 (case vm_send gdb m (assign_cmd (Some name) val) of
                    (GdbError e, m) \<Rightarrow> (Inl e, m)
                  | (a, m) \<Rightarrow>
                      let m = (if \<not> new then m else case get_container m ScopeWatchVariable of None \<Rightarrow> m | Some ct \<Rightarrow>
                            let (b, g, ct) = delete_by_gdb_name gdb (vm_gdb m) (vm_heap m) ct name
                            in put_container ScopeWatchVariable ct (m\<lparr>vm_gdb := g\<rparr>))
                      in (case assigned_value a of
                            None \<Rightarrow> (Inl (''Error: Failed to set expression '' @ expression), m)
                          | Some v \<Rightarrow> (Inr v, m))))))"

subsection \<open>Handles of frames\<close>

lemma scope_of_ref: "get_scope_from_reference r = r mod 16"
  using sint_low[of 4 r] by (simp add: get_scope_from_reference_def mask_words)

lemma is_variable_reference_mod: "is_variable_reference r \<longleftrightarrow> 8 \<le> r mod 16"
proof -
  have "(0xf :: 32 word) AND 8 = 8" by simp
  then have a: "(to_w32 r AND 0xf) AND 8 = to_w32 r AND 8" by (simp only: and.assoc)
  have "to_w32 (r mod 16) = to_w32 r AND 0xf"
    using uint_low[of 4 r] by (simp add: mask_words word_uint_eq_iff unsigned_of_int take_bit_eq_mod[of 32])
  with a have e: "is_variable_reference r \<longleftrightarrow> to_w32 (r mod 16) AND 8 \<noteq> 0"
    by (simp add: is_variable_reference_def mask_defs signed_eq_0_iff)
  have "r mod 16 \<in> {0..15}" by auto
  then have "r mod 16 = 0 \<or> r mod 16 = 1 \<or> r mod 16 = 2 \<or> r mod 16 = 3 \<or> r mod 16 = 4 \<or> r mod 16 = 5 \<or> r mod 16 = 6 \<or> r mod 16 = 7 \<or>
    r mod 16 = 8 \<or> r mod 16 = 9 \<or> r mod 16 = 10 \<or> r mod 16 = 11 \<or> r mod 16 = 12 \<or> r mod 16 = 13 \<or> r mod 16 = 14 \<or> r mod 16 = 15"
    by simp presburger
  then show ?thesis unfolding e by (elim disjE) simp_all
qed

text \<open>What a scope reference stands for.\<close>

definition route_of :: "int \<times> int \<times> int \<Rightarrow> int \<Rightarrow> var_route" where
  "route_of info ref = (case info of (thread, frame, scope) \<Rightarrow>
     if scope = ScopeLocal then RLocals thread frame else if scope = ScopeRegisters then RRegisters thread frame
     else if scope = ScopeGlobal then RGlobals else if scope = ScopeStatic then RStatics thread frame
     else RFails (''Error: Invalid variablesReference '' @ show_int ref))"

lemma add_frame_info_get:
  assumes "hr_inv id (vm_frames m)" "add_frame_info thread frame scope m = (h, m')"
  shows "hr_inv id (vm_frames m') \<and> 0 < h \<and> get_frame_info m' h = Inr (decode_reference (encode_scope_reference thread frame scope))"
proof -
  obtain r k where a: "add_item (vm_frames m) (JInt (encode_scope_reference thread frame scope)) = (r, k)" by force
  have "hr_inv id r" using items.add_invar[OF assms(1)] a by (metis fst_conv)
  moreover obtain x where x: "get_item r k = Some x" "x = JInt (encode_scope_reference thread frame scope)"
    using items.add_lookup[OF assms(1), of "JInt (encode_scope_reference thread frame scope)"] a by auto
  moreover have "0 < k" using items.lookup_issued[OF \<open>hr_inv id r\<close> x(1)] by simp
  ultimately show ?thesis using assms(2) a by (auto simp: add_frame_info_def get_frame_info_def)
qed

text \<open>
  A \<open>variables\<close> request with the reference of a scope is answered for that scope as long as the number of the reference
  is not 6 and not 8 or more modulo 16: the reference is a running number, but it is read as if it were packed.
  A number that is 6 modulo 16 is taken for a console message, and one of 8 or more for a variable.
\<close>

lemma scope_reference_routes:
  assumes "hr_inv id (vm_frames m)" "add_frame_info thread frame scope m = (h, m')" "0 \<le> scope" "scope < 8"
  shows "if h mod 16 = 6 then variables_route m' h = RConsole
    else if h mod 16 < 8 then variables_route m' h = route_of (thread mod 16, frame mod 2 ^ 24, scope) h
    else (\<exists>e. variables_route m' h = RFails e) \<or> (\<exists>oid. variables_route m' h = RChildren oid)"
proof -
  note g = add_frame_info_get[OF assms(1,2)]
  have "scope = 0 \<or> scope = 1 \<or> scope = 2 \<or> scope = 3 \<or> scope = 4 \<or> scope = 5 \<or> scope = 6 \<or> scope = 7" using assms(3,4) by presburger
  then have "sint (to_w32 scope AND to_w32 ActualScopeMask) = scope" by (auto simp: mask_defs)
  then have d: "decode_reference (encode_scope_reference thread frame scope) = (thread mod 16, frame mod 2 ^ 24, scope)"
    using assms(3,4) by (simp add: encode_scope_reference_def decode_encode)
  consider "h mod 16 = 6" | "h mod 16 \<noteq> 6" "h mod 16 < 8" | "8 \<le> h mod 16" by linarith
  then show ?thesis
  proof cases
    case 1
    then show ?thesis by (simp add: variables_route_def scope_of_ref)
  next
    case 2
    have "\<not> 8 \<le> scope mod 16" using assms(3,4) by simp
    with 2 g d show ?thesis
      by (simp add: variables_route_def scope_of_ref get_var_or_frame_info_def is_variable_reference_mod route_of_def)
  next
    case 3
    have "get_var_or_frame_info m' h = Inr (a, b, c) \<Longrightarrow> c = h mod 16" for a b c
      using 3 by (auto simp: get_var_or_frame_info_def is_variable_reference_mod scope_of_ref split: option.splits prod.splits)
    with 3 show ?thesis
      by (auto simp: variables_route_def scope_of_ref is_variable_reference_mod split: sum.splits option.splits)
  qed
qed

text \<open>
  A stack of three frames, whose scopes are asked for the topmost one: the registers get the reference 6, which the
  request for variables answers as a console message, and in a stack of five frames 8, which it refuses.
\<close>

definition frames_of :: "nat \<Rightarrow> stack_frame list" where
  "frames_of n = map (\<lambda>i. \<lparr>sf_level = int i, sf_file = ''main.c'', sf_fullname = ''/src/main.c''\<rparr>) [0..<n]"

definition scopes_of_top :: "nat \<Rightarrow> (jstr + (jstr \<times> int) list) \<times> unit var_manager" where
  "scopes_of_top n = (let (hs, m) = add_frames 1 (frames_of n) (session_start id ()) in
     scopes_request id (\<lambda>_. Some (frames_of n)) (hd hs) m)"

lemma registers_scope_misread:
  "fst (scopes_of_top 3) = Inr [(''Local'', 1), (''Static-> main.c'', 4), (''Global'', 5), (''Registers'', 6)] \<and>
   variables_route (snd (scopes_of_top 3)) 6 = RConsole \<and>
   (case fst (scopes_of_top 5) of Inr ss \<Rightarrow> last ss | Inl e \<Rightarrow> ([], 0)) = (''Registers'', 8) \<and>
   variables_route (snd (scopes_of_top 5)) 8 = RFails ''Error: No variable found for reference 8''"
  by code_simp

lemma scope_reference_routes_witness:
  "variables_route (snd (add_frame_info 1 0 ScopeLocal (var_manager_new ()))) 1 = RLocals 1 0"
proof -
  let ?m = "var_manager_new ()"
  obtain h m' where a: "add_frame_info 1 0 ScopeLocal ?m = (h, m')" by (rule prod.exhaust)
  then have "h = 1" by (auto simp: add_frame_info_def add_item_def var_manager_new_def hr_new_def Let_def)
  moreover have "hr_inv id (vm_frames ?m)" by (simp add: var_manager_new_def)
  from scope_reference_routes[OF this a] have "if h mod 16 = 6 then variables_route m' h = RConsole
    else if h mod 16 < 8 then variables_route m' h = route_of (1 mod 16, 0 mod 2 ^ 24, ScopeLocal) h
    else (\<exists>e. variables_route m' h = RFails e) \<or> (\<exists>oid. variables_route m' h = RChildren oid)" by simp
  ultimately show ?thesis using a by (simp add: route_of_def)
qed

subsection \<open>GDB's variable objects\<close>

text \<open>What a command does to the variable objects of GDB: the name it creates, deletes, or formats.\<close>

definition skip_word :: "jstr \<Rightarrow> jstr" where
  "skip_word s = drop 1 (dropWhile (\<lambda>c. c \<noteq> CHR '' '') s)"

definition first_word :: "jstr \<Rightarrow> jstr" where
  "first_word s = takeWhile (\<lambda>c. c \<noteq> CHR '' '') s"

definition created_name :: "jstr \<Rightarrow> jstr option" where
  "created_name c = (if starts_with ''-var-create --thread '' c then Some (first_word (skip_word (skip_word (skip_word (skip_word (skip_word c))))))
     else if starts_with ''-var-create '' c then Some (first_word (skip_word c)) else None)"

definition deleted_name :: "jstr \<Rightarrow> jstr option" where
  "deleted_name c = (if starts_with ''-var-delete '' c then Some (skip_word c) else None)"

definition formatted_name :: "jstr \<Rightarrow> jstr option" where
  "formatted_name c = (if starts_with ''-var-set-format '' c \<and> skip_word (skip_word c) \<in>
       {''binary'', ''decimal'', ''hexadecimal'', ''octal'', ''natural'', ''zero-hexadecimal''}
     then Some (first_word (skip_word c)) else None)"

text \<open>
  What the manual of GDB says of the commands: a variable object is created under the name given, which must be free, or
  not at all; \<open>-var-delete\<close> deletes it and is an error only if there is none of that name; an existing one can be given any
  of the six formats; nothing else changes the set of variable objects. A name of a listed variable has no space.
\<close>

definition varobj_contract :: "'g gdb_send \<Rightarrow> ('g \<Rightarrow> jstr set) \<Rightarrow> bool" where
  "varobj_contract gdb live = (\<forall>g c a g'. gdb g c = (a, g') \<longrightarrow>
     (case created_name c of
        Some n \<Rightarrow> (case a of GdbDone rs \<Rightarrow> n \<notin> live g \<and> live g' = insert n (live g) \<and> map_of (text_fields rs) ''name'' = Some n | GdbError e \<Rightarrow> live g' = live g)
      | None \<Rightarrow> (case deleted_name c of
          Some n \<Rightarrow> (case a of GdbDone _ \<Rightarrow> live g' = live g - {n} | GdbError _ \<Rightarrow> n \<notin> live g \<and> live g' = live g)
        | None \<Rightarrow> live g' = live g \<and> (\<forall>n. formatted_name c = Some n \<and> n \<in> live g \<longrightarrow> (\<exists>rs. a = GdbDone rs)) \<and>
            (\<forall>rs n. a = GdbDone rs \<and> n \<in> set (listed_names rs) \<longrightarrow> CHR '' '' \<notin> set n))))"

lemma varobj_contractD:
  assumes "varobj_contract gdb live" "gdb g c = (a, g')"
  shows "created_name c = Some n \<Longrightarrow> a = GdbDone rs \<Longrightarrow> n \<notin> live g \<and> live g' = insert n (live g) \<and> map_of (text_fields rs) ''name'' = Some n"
    and "created_name c = Some n \<Longrightarrow> a = GdbError e \<Longrightarrow> live g' = live g"
    and "created_name c = None \<Longrightarrow> deleted_name c = Some n \<Longrightarrow> live g' = live g - {n}"
    and "created_name c = None \<Longrightarrow> deleted_name c = None \<Longrightarrow> live g' = live g"
    and "created_name c = None \<Longrightarrow> deleted_name c = None \<Longrightarrow> formatted_name c = Some n \<Longrightarrow> n \<in> live g \<Longrightarrow> \<exists>rs. a = GdbDone rs"
    and "created_name c = None \<Longrightarrow> deleted_name c = None \<Longrightarrow> a = GdbDone rs \<Longrightarrow> n \<in> set (listed_names rs) \<Longrightarrow> CHR '' '' \<notin> set n"
proof -
  have h: "case created_name c of
        Some n \<Rightarrow> (case a of GdbDone rs \<Rightarrow> n \<notin> live g \<and> live g' = insert n (live g) \<and> map_of (text_fields rs) ''name'' = Some n | GdbError e \<Rightarrow> live g' = live g)
      | None \<Rightarrow> (case deleted_name c of
          Some n \<Rightarrow> (case a of GdbDone _ \<Rightarrow> live g' = live g - {n} | GdbError _ \<Rightarrow> n \<notin> live g \<and> live g' = live g)
        | None \<Rightarrow> live g' = live g \<and> (\<forall>n. formatted_name c = Some n \<and> n \<in> live g \<longrightarrow> (\<exists>rs. a = GdbDone rs)) \<and>
            (\<forall>rs n. a = GdbDone rs \<and> n \<in> set (listed_names rs) \<longrightarrow> CHR '' '' \<notin> set n))"
    using assms unfolding varobj_contract_def by blast
  show "created_name c = None \<Longrightarrow> deleted_name c = Some n \<Longrightarrow> live g' = live g - {n}"
    using h by (auto split: answer.splits)
  show "created_name c = Some n \<Longrightarrow> a = GdbDone rs \<Longrightarrow> n \<notin> live g \<and> live g' = insert n (live g) \<and> map_of (text_fields rs) ''name'' = Some n"
    "created_name c = Some n \<Longrightarrow> a = GdbError e \<Longrightarrow> live g' = live g"
    "created_name c = None \<Longrightarrow> deleted_name c = None \<Longrightarrow> live g' = live g"
    "created_name c = None \<Longrightarrow> deleted_name c = None \<Longrightarrow> formatted_name c = Some n \<Longrightarrow> n \<in> live g \<Longrightarrow> \<exists>rs. a = GdbDone rs"
    "created_name c = None \<Longrightarrow> deleted_name c = None \<Longrightarrow> a = GdbDone rs \<Longrightarrow> n \<in> set (listed_names rs) \<Longrightarrow> CHR '' '' \<notin> set n"
    using h by simp_all
qed

lemma skip_word_append [simp]: "CHR '' '' \<notin> set w \<Longrightarrow> skip_word (w @ CHR '' '' # s) = s" "CHR '' '' \<notin> set w \<Longrightarrow> first_word (w @ CHR '' '' # s) = w"
proof -
  assume w: "CHR '' '' \<notin> set w"
  have "dropWhile (\<lambda>c. c \<noteq> CHR '' '') (w @ CHR '' '' # s) = CHR '' '' # s" using w by (subst dropWhile_append2) auto
  then show "skip_word (w @ CHR '' '' # s) = s" by (simp add: skip_word_def)
  show "first_word (w @ CHR '' '' # s) = w" using w unfolding first_word_def by (subst takeWhile_append2) auto
qed

lemma show_int_no_space [simp]: "CHR '' '' \<notin> set (show_int i)"
proof -
  have "CHR '' '' \<notin> set (show_nat n)" for n
    using show_nat_digits[of n] by (auto simp: is_digit_def)
  then show ?thesis by (simp add: show_int_def)
qed

text \<open>The names of a container are those of root objects and begin with its prefix.\<close>

definition scope_prefix :: "int \<Rightarrow> jstr" where
  "scope_prefix s = (if s = ScopeGlobal then ''G-'' else if s = ScopeStatic then ''S-'' else if s = ScopeLocal then ''L-''
     else if s = ScopeWatch then ''W-'' else ''R-'')"

definition container_ok :: "var_heap \<Rightarrow> int \<Rightarrow> container \<Rightarrow> bool" where
  "container_ok heap s ct \<longleftrightarrow> s \<in> {ScopeGlobal, ScopeStatic, ScopeLocal, ScopeWatch, ScopeRegisters} \<and> ct_prefix ct = scope_prefix s \<and>
     ct_global ct = (s = ScopeGlobal \<or> s = ScopeStatic) \<and> distinct (map fst (ct_names ct)) \<and>
     (\<forall>(k, oid) \<in> set (ct_names ct). oid < length heap \<and> vk_parent (vo_keys (heap ! oid)) = 0 \<and> (\<exists>n. k = Some n \<and> starts_with (ct_prefix ct) n))"

definition vars_ok :: "'g var_manager \<Rightarrow> bool" where
  "vars_ok m \<longleftrightarrow> (\<forall>s ct. vm_containers m s = Some ct \<longrightarrow> container_ok (vm_heap m) s ct) \<and>
     (\<forall>s \<in> {ScopeGlobal, ScopeStatic, ScopeLocal, ScopeWatch, ScopeRegisters}. vm_containers m s \<noteq> None)"

definition names_of :: "'g var_manager \<Rightarrow> jstr set" where
  "names_of m = {n. \<exists>s ct. vm_containers m s = Some ct \<and> Some n \<in> fst ` set (ct_names ct)}"

definition vars_accounted :: "('g \<Rightarrow> jstr set) \<Rightarrow> 'g var_manager \<Rightarrow> bool" where
  "vars_accounted live m \<longleftrightarrow> vars_ok m \<and> live (vm_gdb m) = names_of m"

lemma container_scope_simps [simp]:
  "container_scope ScopeLocal = ScopeLocal" "container_scope ScopeWatchVariable = ScopeWatch" "container_scope ScopeWatch = ScopeWatch"
  "container_scope ScopeGlobalVariable = ScopeGlobal" "container_scope ScopeStaticVariable = ScopeStatic"
  by (simp_all add: container_scope_def mask_defs)

lemma keys_kept [simp]:
  "vo_keys (apply_changes r v) = vo_keys v" "vo_keys (update_object ch v) = vo_keys v"
  by (simp_all add: apply_changes_def update_object_def Let_def split: option.split)

lemma upd_var_simps [simp]:
  "vm_gdb (upd_var oid f m) = vm_gdb m" "vm_containers (upd_var oid f m) = vm_containers m" "names_of (upd_var oid f m) = names_of m"
  "length (vm_heap (upd_var oid f m)) = length (vm_heap m)"
  by (simp_all add: upd_var_def names_of_def)

lemma upd_var_ok:
  assumes "\<And>v. vo_keys (f v) = vo_keys v" shows "vars_ok (upd_var oid f m) = vars_ok m"
proof -
  have "vo_keys (vm_heap (upd_var oid f m) ! i) = vo_keys (vm_heap m ! i)" for i
  proof (cases "oid < length (vm_heap m)")
    case True
    then show ?thesis by (simp add: upd_var_def nth_list_update assms)
  qed (simp add: upd_var_def list_update_beyond)
  then show ?thesis by (simp add: vars_ok_def container_ok_def cong: conj_cong)
qed

lemma accounted_upd: "(\<And>v. vo_keys (f v) = vo_keys v) \<Longrightarrow> vars_accounted live (upd_var oid f m) = vars_accounted live m"
  by (simp add: vars_accounted_def upd_var_ok)

lemma accounted_gdb:
  assumes "vars_accounted live m" "live g = live (vm_gdb m)" shows "vars_accounted live (m\<lparr>vm_gdb := g\<rparr>)"
  using assms by (simp add: vars_accounted_def vars_ok_def names_of_def)

lemma send_neutral:
  assumes ct: "varobj_contract gdb live" and "vars_accounted live m" "vm_send gdb m c = (a, m')" "created_name c = None" "deleted_name c = None"
  shows "vars_accounted live m' \<and> m' = m\<lparr>vm_gdb := vm_gdb m'\<rparr>"
proof -
  obtain g where g: "gdb (vm_gdb m) c = (a, g)" "m' = m\<lparr>vm_gdb := g\<rparr>" using assms(3) by (auto simp: vm_send_def Let_def split: prod.splits)
  from varobj_contractD(4)[OF ct g(1) assms(4,5)] accounted_gdb[OF assms(2)] g show ?thesis by simp
qed

lemma neutral_names [simp]:
  "created_name (CHR ''-'' # CHR ''d'' # s) = None" "deleted_name (CHR ''-'' # CHR ''d'' # s) = None"
  "created_name (CHR ''-'' # CHR ''s'' # s) = None" "deleted_name (CHR ''-'' # CHR ''s'' # s) = None"
  "created_name (update_cmd gap n) = None" "deleted_name (update_cmd gap n) = None" "created_name (assign_cmd n v) = None" "deleted_name (assign_cmd n v) = None"
  "created_name (delete_cmd (Some nm)) = None" "deleted_name (delete_cmd (Some nm)) = Some nm"
  "created_name (''-var-set-format '' @ t) = None" "deleted_name (''-var-set-format '' @ t) = None"
  by (simp_all add: created_name_def deleted_name_def update_cmd_def assign_cmd_def delete_cmd_def skip_word_def)

lemma created_create_cmd [simp]: "CHR '' '' \<notin> set n \<Longrightarrow> created_name (create_cmd t f n rest) = Some n"
proof -
  assume n: "CHR '' '' \<notin> set n"
  have c: "create_cmd t f n rest = ''-var-create'' @ CHR '' '' # (''--thread'' @ CHR '' '' # (show_int t @ CHR '' '' # (''--frame'' @ CHR '' '' # (show_int f @ CHR '' '' # (n @ CHR '' '' # rest)))))"
    by (simp add: create_cmd_def)
  have p: "starts_with ''-var-create --thread '' (create_cmd t f n rest)" by (simp add: create_cmd_def)
  have w: "CHR '' '' \<notin> set ''-var-create''" "CHR '' '' \<notin> set ''--thread''" "CHR '' '' \<notin> set ''--frame''" by simp_all
  have "first_word (skip_word (skip_word (skip_word (skip_word (skip_word (create_cmd t f n rest)))))) = n"
    by (simp only: c skip_word_append(1)[OF w(1)] skip_word_append(1)[OF w(2)] skip_word_append(1)[OF w(3)]
        skip_word_append(1)[OF show_int_no_space] skip_word_append(2)[OF n])
  with p show ?thesis by (simp only: created_name_def if_True)
qed

lemma next_gdb_name_fresh: "\<not> has_gdb_name ct (next_gdb_name ct template k) \<and> (\<exists>s. next_gdb_name ct template k = template @ s \<and> CHR '' '' \<notin> set s)"
proof (induction ct template k rule: next_gdb_name.induct)
  case (1 ct template n)
  have "CHR '' '' \<notin> set (show_nat n)" using show_nat_digits[of n] by (auto simp: is_digit_def)
  then have "\<exists>s. gdb_name_at template n = template @ s \<and> CHR '' '' \<notin> set s" by (auto simp: gdb_name_at_def)
  with 1 show ?case by (subst (1 2) next_gdb_name.simps) simp
qed

text \<open>
  The name chosen for a new GDB variable is none that the container already has, begins with the container's prefix and
  the wanted name, and has a space only if these have one.
\<close>

lemma created_name_is_fresh:
  "map_of (ct_names ct) (Some (create_gdb_name ct base thread frame)) = None \<and> starts_with (ct_prefix ct @ base) (create_gdb_name ct base thread frame) \<and>
   (CHR '' '' \<in> set (create_gdb_name ct base thread frame)) = (CHR '' '' \<in> set (ct_prefix ct) \<union> set base)"
proof -
  obtain s where "create_gdb_name ct base thread frame = (ct_prefix ct @ base) @ (''-'' @ show_int thread @ ''-'' @ show_int frame) @ s" "CHR '' '' \<notin> set s"
    using next_gdb_name_fresh[of ct "ct_prefix ct @ base @ ''-'' @ show_int thread @ ''-'' @ show_int frame" 0] by (auto simp: create_gdb_name_def)
  with next_gdb_name_fresh[of ct "ct_prefix ct @ base @ ''-'' @ show_int thread @ ''-'' @ show_int frame" 0] show ?thesis
    by (auto simp: create_gdb_name_def has_gdb_name_def starts_with_def)
qed

lemma parse_mi_variable_spec:
  assumes "parse_mi_variable name r scope parent thread frame heap ct = (oid, ref, heap', ct')"
  shows "oid = length heap \<and> length heap' = Suc (length heap) \<and> (\<forall>i < length heap. heap' ! i = heap ! i) \<and> vk_parent (vo_keys (heap' ! oid)) = parent \<and>
    ct_names ct' = AList.update (map_of r ''name'') oid (ct_names ct) \<and> ct_prefix ct' = ct_prefix ct \<and> ct_global ct' = ct_global ct"
proof -
  obtain reg h where "add_variable (ct_handles ct) (variable_keys parent name (encode_scope_reference thread frame (sint (to_w32 scope AND to_w32 ActualScopeMask))), length heap) = (reg, h)"
    by force
  with assms show ?thesis
    by (auto simp: parse_mi_variable_def create_variable_def Let_def variable_keys_def nth_append)
qed

lemma get_file_id_kept: "get_file_id ct file = (i, ct') \<Longrightarrow> ct_names ct' = ct_names ct \<and> ct_prefix ct' = ct_prefix ct \<and> ct_global ct' = ct_global ct"
  by (auto simp: get_file_id_def split: if_splits option.splits)

lemma parse_mi_global_variable_spec:
  assumes "parse_mi_global_variable name r scope parent file heap ct = (oid, ref, heap', ct')"
  shows "oid = length heap \<and> length heap' = Suc (length heap) \<and> (\<forall>i < length heap. heap' ! i = heap ! i) \<and> vk_parent (vo_keys (heap' ! oid)) = parent \<and>
    ct_names ct' = AList.update (map_of r ''name'') oid (ct_names ct) \<and> ct_prefix ct' = ct_prefix ct \<and> ct_global ct' = ct_global ct"
proof -
  obtain i c where i: "get_file_id ct file = (i, c)" by force
  obtain reg h where "add_variable (ct_handles c) (variable_keys parent name (encode_scope_reference i 0 (sint (to_w32 scope AND to_w32 ActualScopeMask))), length heap) = (reg, h)"
    by force
  with assms i get_file_id_kept[OF i] show ?thesis
    by (auto simp: parse_mi_global_variable_def create_variable_def Let_def variable_keys_def nth_append)
qed

lemma alist_update_elems: "x \<in> set (AList.update k v al) \<Longrightarrow> x = (k, v) \<or> x \<in> set al"
  by (induction al) (auto split: if_splits)

lemma register_created:
  assumes ac: "vars_accounted live m" and ct: "vm_containers m s = Some ct" "container_scope scope = s"
    and n: "map_of (ct_names ct) (Some n) = None" "starts_with (ct_prefix ct) n" "live g = insert n (live (vm_gdb m))" "map_of r ''name'' = Some n"
    and p: "oid = length (vm_heap m) \<and> length heap = Suc (length (vm_heap m)) \<and> (\<forall>i < length (vm_heap m). heap ! i = vm_heap m ! i) \<and> vk_parent (vo_keys (heap ! oid)) = 0 \<and>
      ct_names ct' = AList.update (map_of r ''name'') oid (ct_names ct) \<and> ct_prefix ct' = ct_prefix ct \<and> ct_global ct' = ct_global ct"
  shows "vars_accounted live (put_container scope ct' (m\<lparr>vm_gdb := g, vm_heap := heap\<rparr>))"
proof -
  note sp = p[unfolded n(4)]
  let ?m = "put_container scope ct' (m\<lparr>vm_gdb := g, vm_heap := heap\<rparr>)"
  have cs: "vm_containers ?m = (vm_containers m)(s \<mapsto> ct')" "vm_heap ?m = heap" "vm_gdb ?m = g" using ct(2) by (simp_all add: put_container_def)
  have ok: "\<And>s ct. vm_containers m s = Some ct \<Longrightarrow> container_ok (vm_heap m) s ct" using ac by (auto simp: vars_accounted_def vars_ok_def)
  have old: "container_ok heap s' c" if "vm_containers m s' = Some c" for s' c
    using ok[OF that] sp by (fastforce simp: container_ok_def)
  have "distinct (map fst (ct_names ct'))" using ok[OF ct(1)] sp by (simp add: container_ok_def distinct_update)
  moreover have "\<forall>(k, o') \<in> set (ct_names ct'). o' < length heap \<and> vk_parent (vo_keys (heap ! o')) = 0 \<and> (\<exists>n. k = Some n \<and> starts_with (ct_prefix ct') n)"
    using old[OF ct(1)] sp n(2) by (fastforce simp: container_ok_def dest!: alist_update_elems)
  ultimately have "container_ok heap s ct'" using old[OF ct(1)] sp by (auto simp: container_ok_def)
  with old ac have v: "vars_ok ?m" by (auto simp: vars_ok_def cs vars_accounted_def)
  have "fst ` set (ct_names ct') = insert (Some n) (fst ` set (ct_names ct))" using sp by (simp add: dom_update)
  then have e: "Some x \<in> fst ` set (ct_names ct') \<longleftrightarrow> x = n \<or> Some x \<in> fst ` set (ct_names ct)" for x by auto
  have "x \<in> names_of ?m \<longleftrightarrow> x = n \<or> x \<in> names_of m" for x
  proof
    assume "x \<in> names_of ?m"
    then obtain s' c where "((vm_containers m)(s \<mapsto> ct')) s' = Some c" "Some x \<in> fst ` set (ct_names c)" by (auto simp: names_of_def cs)
    with e[of x] ct(1) show "x = n \<or> x \<in> names_of m" unfolding names_of_def by (cases "s' = s") auto
  next
    assume x: "x = n \<or> x \<in> names_of m"
    show "x \<in> names_of ?m"
    proof (cases "x = n \<or> Some x \<in> fst ` set (ct_names ct)")
      case True
      with e[of x] show ?thesis unfolding names_of_def cs by (auto intro!: exI[of _ s])
    next
      case False
      with x obtain s' c where c: "vm_containers m s' = Some c" "Some x \<in> fst ` set (ct_names c)" by (auto simp: names_of_def)
      with False ct(1) have "s' \<noteq> s" by auto
      with c show ?thesis unfolding names_of_def cs by (auto intro!: exI[of _ s'])
    qed
  qed
  then have "names_of ?m = insert n (names_of m)" by blast
  with v ac n(3) show ?thesis by (simp add: vars_accounted_def cs)
qed

text \<open>Containers share no names; a free name of a container is free in GDB.\<close>

lemma prefix_scope:
  assumes "container_ok heap s ct" "container_ok heap s' ct'" "starts_with (scope_prefix s) n" "starts_with (scope_prefix s') n"
  shows "s = s'"
proof -
  have "length (scope_prefix x) = 2" for x by (simp add: scope_prefix_def)
  with assms(3,4) have "scope_prefix s = scope_prefix s'" by (simp add: starts_with_def)
  with assms(1,2) show ?thesis unfolding container_ok_def scope_prefix_def by (auto split: if_splits)
qed

lemma var_name_prefix: "container_ok heap s ct \<Longrightarrow> Some n \<in> fst ` set (ct_names ct) \<Longrightarrow> starts_with (scope_prefix s) n"
  unfolding container_ok_def by fastforce

lemma containers_ok: "vars_accounted live m \<Longrightarrow> vm_containers m s = Some ct \<Longrightarrow> container_ok (vm_heap m) s ct"
  by (auto simp: vars_accounted_def vars_ok_def)

lemma fresh_name_free:
  assumes ac: "vars_accounted live m" and ct: "vm_containers m s = Some ct" and n: "map_of (ct_names ct) (Some n) = None" "starts_with (ct_prefix ct) n"
  shows "n \<notin> live (vm_gdb m)"
proof
  assume "n \<in> live (vm_gdb m)"
  then obtain s' c where c: "vm_containers m s' = Some c" "Some n \<in> fst ` set (ct_names c)" using ac by (auto simp: vars_accounted_def names_of_def)
  note ok = containers_ok[OF ac ct] containers_ok[OF ac c(1)]
  have "s = s'" by (rule prefix_scope[OF ok _ var_name_prefix[OF ok(2) c(2)]]) (use ok(1) n(2) in \<open>simp add: container_ok_def\<close>)
  with c ct n(1) show False by (auto simp: map_of_eq_None_iff)
qed

lemma container_of_ok: "vars_accounted live m \<Longrightarrow> get_container m scope = Some ct \<Longrightarrow> vm_containers m (container_scope scope) = Some ct \<and> ct_prefix ct = scope_prefix (container_scope scope)"
  by (auto simp: get_container_def vars_accounted_def vars_ok_def container_ok_def)

lemma query_address_ok:
  assumes ct: "varobj_contract gdb live" and ac: "vars_accounted live m" shows "vars_accounted live (query_address_of writable gdb oid m)"
proof -
  obtain r m1 where d: "data_evaluate gdb (''&('' @ vo_eval (vm_heap m ! oid) @ '')'') m = (r, m1)" by force
  obtain a m2 where s: "vm_send gdb m (''-data-evaluate-expression '' @ DQ # (''&('' @ vo_eval (vm_heap m ! oid) @ '')'') @ [DQ]) = (a, m2)" by force
  have "m1 = m2" using d s by (auto simp: data_evaluate_def split: answer.splits)
  moreover have "vars_accounted live m2" using send_neutral[OF ct ac s] by simp
  ultimately have "vars_accounted live m1" by simp
  then show ?thesis unfolding query_address_of_def d prod.case
    by (cases r) (auto simp: accounted_upd split: option.split)
qed

lemma local_variable_ok:
  assumes ct: "varobj_contract gdb live" and ac: "vars_accounted live m" and sp: "CHR '' '' \<notin> set name"
  shows "vars_accounted live (snd (local_variable writable gdb thread frame name m))"
proof (cases "get_container m ScopeLocal")
  case (Some c)
  note c = container_of_ok[OF ac Some, simplified]
  show ?thesis
  proof (cases "get_variable_by_key c (variable_keys 0 name (encode_var_reference thread frame ScopeLocal))")
    case known: (Some oid)
    obtain a m1 where s: "vm_send gdb m (update_cmd [] (vo_gdb (vm_heap m ! oid))) = (a, m1)" by force
    have "vars_accounted live m1" using send_neutral[OF ct ac s] by simp
    with Some known s show ?thesis by (cases a) (simp_all add: local_variable_def accounted_upd)
  next
    case None
    let ?n = "create_gdb_name c name thread frame" and ?c = "create_cmd thread frame (create_gdb_name c name thread frame) (''* '' @ name)"
    note fr = created_name_is_fresh[of c name thread frame]
    have nsp: "CHR '' '' \<notin> set ?n" using fr sp c by (simp add: scope_prefix_def)
    have pre: "starts_with (ct_prefix c) ?n" using fr starts_with_shorter by blast
    have cr: "created_name ?c = Some ?n" using nsp by simp
    obtain a g where s: "gdb (vm_gdb m) ?c = (a, g)" by force
    then have v: "vm_send gdb m ?c = (a, m\<lparr>vm_gdb := g\<rparr>)" by (simp add: vm_send_def)
    show ?thesis
    proof (cases a)
      case (GdbError e)
      with varobj_contractD(2)[OF ct s cr, of e] accounted_gdb[OF ac] Some None v show ?thesis by (simp add: local_variable_def)
    next
      case (GdbDone rs)
      from varobj_contractD(1)[OF ct s cr GdbDone] have l: "live g = insert ?n (live (vm_gdb m))" "map_of (text_fields rs) ''name'' = Some ?n" by auto
      obtain oid ref heap c' where p: "parse_mi_variable name (text_fields rs) ScopeLocalVariable 0 thread frame (vm_heap m) c = (oid, ref, heap, c')"
        by (rule prod_cases4)
      have "vars_accounted live (put_container ScopeLocal c' (m\<lparr>vm_gdb := g, vm_heap := heap\<rparr>))"
        by (rule register_created[OF ac conjunct1[OF c] _ _ pre l parse_mi_variable_spec[OF p]]) (use fr in simp_all)
      then have "vars_accounted live (query_address_of writable gdb oid (if b then upd_var oid (\<lambda>v. v\<lparr>vo_ref := ref\<rparr>) (put_container ScopeLocal c' (m\<lparr>vm_gdb := g, vm_heap := heap\<rparr>))
          else put_container ScopeLocal c' (m\<lparr>vm_gdb := g, vm_heap := heap\<rparr>)))" for b
        by (intro query_address_ok[OF ct]) (simp add: accounted_upd)
      with Some None v GdbDone p show ?thesis by (simp add: local_variable_def Let_def)
    qed
  qed
qed (simp add: local_variable_def ac)

lemma local_loop_ok:
  "varobj_contract gdb live \<Longrightarrow> vars_accounted live m \<Longrightarrow> \<forall>n \<in> set names. CHR '' '' \<notin> set n \<Longrightarrow>
    vars_accounted live (snd (local_loop running writable gdb thread frame names m))"
proof (induction names arbitrary: m)
  case (Cons name names)
  obtain r m1 where 1: "local_variable writable gdb thread frame name m = (r, m1)" by force
  obtain rs m2 where 2: "local_loop running writable gdb thread frame names m1 = (rs, m2)" by force
  have "vars_accounted live m1" using local_variable_ok[OF Cons.prems(1,2), of name writable thread frame] Cons.prems(3) 1 by simp
  with Cons.IH[OF Cons.prems(1), of m1] Cons.prems(3) 2 have "vars_accounted live m2" by simp
  with Cons.prems(2) 1 2 show ?case by simp
qed simp

lemma get_local_variables_ok:
  assumes ct: "varobj_contract gdb live" and ac: "vars_accounted live m"
  shows "vars_accounted live (snd (get_local_variables running writable gdb thread frame m))"
proof -
  let ?c = "''-stack-list-variables --thread '' @ show_int thread @ '' --frame '' @ show_int frame @ '' --all-values''"
  obtain a g where s: "gdb (vm_gdb m) ?c = (a, g)" by force
  then have v: "vm_send gdb m ?c = (a, m\<lparr>vm_gdb := g\<rparr>)" by (simp add: vm_send_def)
  have n: "created_name ?c = None" "deleted_name ?c = None" by simp_all
  have ac1: "vars_accounted live (m\<lparr>vm_gdb := g\<rparr>)" using send_neutral[OF ct ac v n] by simp
  show ?thesis
  proof (cases a)
    case (GdbDone rs)
    have "\<forall>n \<in> set (listed_names rs). CHR '' '' \<notin> set n" using varobj_contractD(6)[OF ct s n GdbDone] by blast
    from local_loop_ok[OF ct ac1 this] GdbDone v show ?thesis
      unfolding get_local_variables_def v prod.case by (simp add: case_prod_beta Let_def)
  next
    case (GdbError e)
    with ac1 show ?thesis unfolding get_local_variables_def v prod.case by simp
  qed
qed

lemma created_plain_cmd:
  assumes n: "CHR '' '' \<notin> set n" "n = k # l" "k \<noteq> CHR ''-''" shows "created_name (''-var-create '' @ n @ '' @ '' @ s) = Some n"
proof -
  have c: "''-var-create '' @ n @ '' @ '' @ s = ''-var-create'' @ CHR '' '' # (n @ CHR '' '' # ''@ '' @ s)" by simp
  have w: "CHR '' '' \<notin> set ''-var-create''" by simp
  have p: "\<not> starts_with ''-var-create --thread '' (''-var-create '' @ n @ '' @ '' @ s)" "starts_with ''-var-create '' (''-var-create '' @ n @ '' @ '' @ s)"
    using n(2,3) by simp_all
  show ?thesis
    unfolding created_name_def using p by (simp only: if_True if_False c skip_word_append(1)[OF w] skip_word_append(2)[OF n(1)])
qed

lemma prefixed: "starts_with (scope_prefix s) n \<Longrightarrow> \<exists>k l. n = k # l \<and> k \<noteq> CHR ''-''"
  by (auto simp: scope_prefix_def starts_with_Cons split: if_splits)

lemma created_watch_cmd [simp]:
  "CHR '' '' \<notin> set n \<Longrightarrow> starts_with ''W-'' n \<Longrightarrow> created_name (watch_create_cmd thread frame n expr) = Some n"
  using prefixed[of ScopeWatch n] created_plain_cmd[of n] by (auto simp: watch_create_cmd_def scope_prefix_def)

lemma file_variable_ok:
  assumes ct: "varobj_contract gdb live" and ac: "vars_accounted live m" and sp: "CHR '' '' \<notin> set name"
  shows "vars_accounted live (snd (file_variable writable gdb scope reference thread frame file name m))"
proof (cases "get_container m scope")
  case (Some c)
  note c = container_of_ok[OF ac Some]
  show ?thesis
  proof (cases "get_variable_by_key c (variable_keys 0 name reference)")
    case known: (Some oid)
    obtain a m1 where s: "vm_send gdb m (update_cmd [] (vo_gdb (vm_heap m ! oid))) = (a, m1)" by force
    have "vars_accounted live m1" using send_neutral[OF ct ac s] by simp
    with Some known s show ?thesis by (cases a) (simp_all add: file_variable_def accounted_upd)
  next
    case None
    define n where "n = create_gdb_name c name thread frame"
    let ?c = "''-var-create '' @ n @ '' @ '' @ name"
    note fr = created_name_is_fresh[of c name thread frame, folded n_def]
    have nsp: "CHR '' '' \<notin> set n" using fr sp c by (simp add: scope_prefix_def)
    have pre: "starts_with (ct_prefix c) n" using fr starts_with_shorter by blast
    have cr: "created_name ?c = Some n" using prefixed[of "container_scope scope" n] pre c created_plain_cmd[OF nsp] by auto
    obtain a g where s: "gdb (vm_gdb m) ?c = (a, g)" by force
    then have v: "vm_send gdb m ?c = (a, m\<lparr>vm_gdb := g\<rparr>)" by (simp add: vm_send_def)
    show ?thesis
    proof (cases a)
      case (GdbError e)
      with varobj_contractD(2)[OF ct s cr, of e] accounted_gdb[OF ac] Some None v show ?thesis
        unfolding file_variable_def by (simp add: Let_def flip: n_def)
    next
      case (GdbDone rs)
      from varobj_contractD(1)[OF ct s cr GdbDone] have l: "live g = insert n (live (vm_gdb m))" "map_of (text_fields rs) ''name'' = Some n" by auto
      obtain oid ref heap c' where p: "parse_mi_global_variable name (text_fields rs) scope 0 file (vm_heap m) c = (oid, ref, heap, c')"
        by (rule prod_cases4)
      have "vars_accounted live (put_container scope c' (m\<lparr>vm_gdb := g, vm_heap := heap\<rparr>))"
        by (rule register_created[OF ac conjunct1[OF c] _ _ pre l parse_mi_global_variable_spec[OF p]]) (use fr in simp_all)
      then have "vars_accounted live (query_address_of writable gdb oid (if b then upd_var oid (\<lambda>v. v\<lparr>vo_ref := ref\<rparr>) (put_container scope c' (m\<lparr>vm_gdb := g, vm_heap := heap\<rparr>))
          else put_container scope c' (m\<lparr>vm_gdb := g, vm_heap := heap\<rparr>)))" for b
        by (intro query_address_ok[OF ct]) (simp add: accounted_upd)
      with Some None v GdbDone p show ?thesis unfolding file_variable_def by (simp add: Let_def flip: n_def)
    qed
  qed
qed (simp add: file_variable_def ac)

lemma file_loop_ok:
  "varobj_contract gdb live \<Longrightarrow> vars_accounted live m \<Longrightarrow> \<forall>n \<in> set names. CHR '' '' \<notin> set n \<Longrightarrow>
    vars_accounted live (snd (file_loop running writable gdb scope reference thread frame file names m))"
proof (induction names arbitrary: m)
  case (Cons name names)
  obtain r m1 where 1: "file_variable writable gdb scope reference thread frame file name m = (r, m1)" by force
  obtain rs m2 where 2: "file_loop running writable gdb scope reference thread frame file names m1 = (rs, m2)" by force
  have "vars_accounted live (snd (file_variable writable gdb scope reference thread frame file name m))"
    using file_variable_ok[OF Cons.prems(1,2)] Cons.prems(3) by simp
  then have "vars_accounted live m1" using 1 by simp
  with Cons.IH[OF Cons.prems(1), of m1] Cons.prems(3) 2 have "vars_accounted live m2" by simp
  with Cons.prems(2) 1 2 show ?case by simp
qed simp

lemma names_of_same:
  assumes "vm_containers m s = Some c" "ct_names c' = ct_names c" "vm_containers m' = (vm_containers m)(s \<mapsto> c')"
  shows "names_of m' = names_of m"
proof (intro set_eqI iffI)
  fix n assume "n \<in> names_of m'"
  then obtain s' d where "vm_containers m' s' = Some d" "Some n \<in> fst ` set (ct_names d)" by (auto simp: names_of_def)
  with assms show "n \<in> names_of m" unfolding names_of_def by (cases "s' = s") auto
next
  fix n assume "n \<in> names_of m"
  then obtain s' d where "vm_containers m s' = Some d" "Some n \<in> fst ` set (ct_names d)" by (auto simp: names_of_def)
  with assms show "n \<in> names_of m'" unfolding names_of_def by (cases "s' = s") (auto intro: exI[of _ s'])
qed

lemma number_file_ok:
  assumes ac: "vars_accounted live m" shows "vars_accounted live (snd (number_file scope file m))"
proof (cases "get_container m scope")
  case (Some c)
  obtain i c' where i: "get_file_id c file = (i, c')" by force
  note c = container_of_ok[OF ac Some]
  note k = get_file_id_kept[OF i]
  let ?m = "put_container scope c' m"
  have cs: "vm_containers ?m = (vm_containers m)(container_scope scope \<mapsto> c')" "vm_heap ?m = vm_heap m" "vm_gdb ?m = vm_gdb m" by (simp_all add: put_container_def)
  have "container_ok (vm_heap m) (container_scope scope) c'" 
    using containers_ok[OF ac conjunct1[OF c]] unfolding container_ok_def conjunct1[OF k] conjunct1[OF conjunct2[OF k]] conjunct2[OF conjunct2[OF k]] .
  with ac have "vars_ok ?m" unfolding vars_ok_def vars_accounted_def cs by auto
  moreover have "names_of ?m = names_of m" by (rule names_of_same[OF conjunct1[OF c] conjunct1[OF k] cs(1)])
  ultimately show ?thesis using ac Some i by (simp add: number_file_def vars_accounted_def cs)
qed (simp add: number_file_def ac)

lemma get_file_variables_ok:
  assumes ct: "varobj_contract gdb live" and ac: "vars_accounted live m"
  shows "list_all (\<lambda>n. CHR '' '' \<notin> set n) (case names of None \<Rightarrow> [] | Some ns \<Rightarrow> ns) \<Longrightarrow> vars_accounted live (snd (get_global_variables running writable gdb names m))"
    and "list_all (\<lambda>n. CHR '' '' \<notin> set n) (case file_names (file_by_id m full) of None \<Rightarrow> [] | Some ns \<Rightarrow> ns) \<Longrightarrow>
      vars_accounted live (snd (get_static_variables running writable gdb file_names file_id full m))"
  using file_loop_ok[OF ct number_file_ok[OF ac]] ac
  by (auto simp: get_global_variables_def get_static_variables_def Let_def list_all_iff case_prod_beta split: option.splits)

lemma name_char_no_space: "CHR '' '' \<notin> set (map name_char s)"
  by (auto simp: name_char_def Let_def is_digit_def split: if_splits)

lemma evaluate_expression_ok:
  assumes ct: "varobj_contract gdb live" and ac: "vars_accounted live m"
  shows "vars_accounted live (snd (evaluate_expression writable gdb expression frame_id m))"
proof (cases "watch_frame m frame_id")
  case wf: (Inr tf)
  obtain thread frame where tf: "tf = (thread, frame)" by (cases tf)
  show ?thesis
  proof (cases "get_container m ScopeWatchVariable")
    case (Some c)
    note c = container_of_ok[OF ac Some, simplified]
    note st = wf[unfolded tf] Some
    show ?thesis
    proof (cases "get_variable_by_key c (variable_keys 0 (js_trim expression) (encode_var_reference thread frame ScopeWatchVariable))")
      case known: (Some oid)
      obtain a m1 where s: "vm_send gdb m (update_cmd '' '' (vo_gdb (vm_heap m ! oid))) = (a, m1)" by force
      have "vars_accounted live m1" using send_neutral[OF ct ac s] by simp
      with st known s show ?thesis by (cases a) (simp_all add: evaluate_expression_def accounted_upd)
    next
      case None
      obtain new suffix where fs: "format_suffix (js_trim expression) = (new, suffix)" by force
      define n where "n = create_gdb_name c (map name_char new) thread frame"
      have fx: "fmt_expr c expression thread frame = (n, new, suffix)" by (simp add: fmt_expr_def fs n_def)
      note fr = created_name_is_fresh[of c "map name_char new" thread frame, folded n_def]
      have nsp: "CHR '' '' \<notin> set n" using fr c name_char_no_space[of new] by (simp add: scope_prefix_def)
      have pre: "starts_with (ct_prefix c) n" using fr starts_with_shorter by blast
      have cr: "created_name (watch_create_cmd thread frame n new) = Some n" using nsp pre c by (simp add: scope_prefix_def)
      obtain a g where s: "gdb (vm_gdb m) (watch_create_cmd thread frame n new) = (a, g)" by force
      then have v: "vm_send gdb m (watch_create_cmd thread frame n new) = (a, m\<lparr>vm_gdb := g\<rparr>)" by (simp add: vm_send_def)
      show ?thesis
      proof (cases a)
        case (GdbError e)
        with varobj_contractD(2)[OF ct s cr, of e] accounted_gdb[OF ac] st None v fx show ?thesis by (simp add: evaluate_expression_def)
      next
        case (GdbDone rs)
        let ?r = "text_fields rs"
        from varobj_contractD(1)[OF ct s cr GdbDone] have l: "live g = insert n (live (vm_gdb m))" "map_of ?r ''name'' = Some n" by auto
        define formatted where "formatted = (case suffix of
                          None \<Rightarrow> (Inr ?r, m\<lparr>vm_gdb := g\<rparr>)
                        | Some k \<Rightarrow> (case vm_send gdb (m\<lparr>vm_gdb := g\<rparr>) (''-var-set-format '' @ n @ '' '' @ format_name k) of
                            (GdbError e, m) \<Rightarrow> (Inl e, m)
                          | (GdbDone fs, m) \<Rightarrow> (Inr (case map_of (text_fields fs) ''value'' of
                              None \<Rightarrow> AList.delete ''value'' ?r | Some v \<Rightarrow> AList.update ''value'' v ?r), m)))"
        have "\<exists>r g'. formatted = (Inr r, m\<lparr>vm_gdb := g'\<rparr>) \<and> map_of r ''name'' = Some n \<and> live g' = live g"
        proof (cases suffix)
          case None
          with l show ?thesis by (auto simp: formatted_def)
        next
          case (Some k)
          let ?fc = "''-var-set-format '' @ n @ '' '' @ format_name k"
          obtain b g' where f: "gdb g ?fc = (b, g')" by force
          have "''-var-set-format '' @ n @ '' '' @ format_name k = ''-var-set-format'' @ CHR '' '' # (n @ CHR '' '' # format_name k)" by simp
          moreover have "CHR '' '' \<notin> set ''-var-set-format''" by simp
          ultimately have w: "skip_word (skip_word ?fc) = format_name k" "first_word (skip_word ?fc) = n"
            using nsp by (metis skip_word_append)+
          have "format_name k \<in> {''binary'', ''decimal'', ''hexadecimal'', ''octal'', ''natural'', ''zero-hexadecimal''}"
            by (simp add: format_name_def)
          with w have "formatted_name ?fc = Some n" unfolding formatted_name_def w by (simp only: starts_with_append) simp
          moreover have nn: "created_name ?fc = None" "deleted_name ?fc = None" by (simp_all add: created_name_def deleted_name_def)
          moreover have "n \<in> live g" using l(1) by simp
          ultimately obtain fs where b: "b = GdbDone fs" using varobj_contractD(5)[OF ct f, of n] by blast
          have "live g' = live g" by (rule varobj_contractD(4)[OF ct f nn])
          with Some f b l(2) show ?thesis
            unfolding formatted_def vm_send_def Let_def by (auto simp: update_conv' delete_conv' split: option.split)
        qed
        then obtain r g' where fm: "formatted = (Inr r, m\<lparr>vm_gdb := g'\<rparr>)" "map_of r ''name'' = Some n" "live g' = insert n (live (vm_gdb m))" using l(1) by auto
        obtain oid ref heap c' where p: "parse_mi_variable (js_trim expression) r ScopeWatchVariable 0 thread frame (vm_heap m) c = (oid, ref, heap, c')"
          by (rule prod_cases4)
        define m2 where "m2 = put_container ScopeWatchVariable c' (m\<lparr>vm_gdb := g', vm_heap := heap\<rparr>)"
        have "vars_accounted live m2" unfolding m2_def
          by (rule register_created[OF ac conjunct1[OF c] _ _ pre fm(3,2) parse_mi_variable_spec[OF p]]) (use fr in simp_all)
        then have "vars_accounted live (query_address_of writable gdb oid (if b then upd_var oid (\<lambda>v. v\<lparr>vo_ref := ref\<rparr>) (upd_var oid (\<lambda>v. (apply_changes r v)\<lparr>vo_gdb := Some n\<rparr>) m2)
            else upd_var oid (\<lambda>v. (apply_changes r v)\<lparr>vo_gdb := Some n\<rparr>) m2))" for b
          by (intro query_address_ok[OF ct]) (simp add: accounted_upd)
        moreover have "snd (evaluate_expression writable gdb expression frame_id m) =
            query_address_of writable gdb oid (if has_children r then upd_var oid (\<lambda>v. v\<lparr>vo_ref := ref\<rparr>) (upd_var oid (\<lambda>v. (apply_changes r v)\<lparr>vo_gdb := Some n\<rparr>) m2)
              else upd_var oid (\<lambda>v. (apply_changes r v)\<lparr>vo_gdb := Some n\<rparr>) m2)"
          using st None fx v GdbDone p fm(1) unfolding evaluate_expression_def formatted_def by (simp add: Let_def m2_def)
        ultimately show ?thesis by simp
      qed
    qed
  qed (simp add: evaluate_expression_def wf tf ac)
qed (simp add: evaluate_expression_def ac)

lemma assign_object_ok:
  assumes ct: "varobj_contract gdb live" and ac: "vars_accounted live m" shows "vars_accounted live (snd (assign_object gdb name val oid m))"
proof -
  obtain a m1 where s: "vm_send gdb m (assign_cmd (vo_gdb (vm_heap m ! oid)) val) = (a, m1)" by force
  have "vars_accounted live m1" using send_neutral[OF ct ac s] by simp
  with s show ?thesis by (auto simp: assign_object_def accounted_upd split: answer.split option.split)
qed

lemma set_variable_ok:
  assumes ct: "varobj_contract gdb live" and ac: "vars_accounted live m" shows "vars_accounted live (snd (set_variable gdb ref name val m))"
  using assign_object_ok[OF ct ac] ac unfolding set_variable_def
  by (simp split: sum.split option.split prod.split)

lemma delete_roots_live:
  assumes ct: "varobj_contract gdb live"
    and "\<forall>(k, oid) \<in> set names. vk_parent (vo_keys (heap ! oid)) = 0 \<and> k \<noteq> None"
  shows "live (delete_roots gdb g heap names) = live g - {n. Some n \<in> fst ` set names}"
  using assms(2)
proof (induction names arbitrary: g)
  case (Cons p names)
  obtain n oid where p: "p = (Some n, oid)" using Cons.prems by (cases p) auto
  obtain a g' where d: "gdb g (delete_cmd (Some n)) = (a, g')" by force
  have "live g' = live g - {n}" by (rule varobj_contractD(3)[OF ct d]) simp_all
  with Cons.IH[of g'] Cons.prems p d show ?case by auto
qed simp

text \<open>What a continue leaves of a set of names: the globals and the statics.\<close>

definition kept_names :: "jstr set \<Rightarrow> jstr set" where
  "kept_names ns = {n \<in> ns. starts_with ''G-'' n \<or> starts_with ''S-'' n}"

lemma clear_scope_ok:
  assumes ct: "varobj_contract gdb live" and ac: "vars_accounted live m"
  shows "vars_accounted live (clear_scope gdb s m)"
    and "vm_containers (clear_scope gdb s m) s = Some c \<Longrightarrow> \<not> ct_global c \<Longrightarrow> ct_names c = []"
    and "s' \<noteq> s \<Longrightarrow> vm_containers (clear_scope gdb s m) s' = vm_containers m s'"
    and "ct_global c \<Longrightarrow> (vm_containers (clear_scope gdb s m) s' = Some c) = (vm_containers m s' = Some c)"
proof -
  show "s' \<noteq> s \<Longrightarrow> vm_containers (clear_scope gdb s m) s' = vm_containers m s'"
    by (auto simp: clear_scope_def clear_container_def split: option.split)
  show "vm_containers (clear_scope gdb s m) s = Some c \<Longrightarrow> \<not> ct_global c \<Longrightarrow> ct_names c = []"
    by (auto simp: clear_scope_def clear_container_def split: option.splits if_splits)
  show "ct_global c \<Longrightarrow> (vm_containers (clear_scope gdb s m) s' = Some c) = (vm_containers m s' = Some c)"
    by (auto simp: clear_scope_def clear_container_def split: option.splits if_splits)
  show "vars_accounted live (clear_scope gdb s m)"
  proof (cases "\<exists>c. vm_containers m s = Some c \<and> \<not> ct_global c")
    case False
    then have "clear_scope gdb s m = m" by (auto simp: clear_scope_def split: option.splits)
    with ac show ?thesis by simp
  next
    case True
    then obtain c where c: "vm_containers m s = Some c" "\<not> ct_global c" by blast
    note ok = containers_ok[OF ac]
    define g where "g = delete_roots gdb (vm_gdb m) (vm_heap m) (ct_names c)"
    define c' where "c' = c\<lparr>ct_handles := reg_clear (ct_handles c), ct_names := []\<rparr>"
    have m': "clear_scope gdb s m = m\<lparr>vm_gdb := g, vm_containers := (vm_containers m)(s \<mapsto> c')\<rparr>"
      using c by (simp add: clear_scope_def clear_container_def g_def c'_def)
    let ?m = "m\<lparr>vm_gdb := g, vm_containers := (vm_containers m)(s \<mapsto> c')\<rparr>"
    have "\<forall>(k, oid) \<in> set (ct_names c). vk_parent (vo_keys (vm_heap m ! oid)) = 0 \<and> k \<noteq> None"
      using ok[OF c(1)] by (auto simp: container_ok_def)
    then have live: "live g = names_of m - {n. Some n \<in> fst ` set (ct_names c)}"
      using delete_roots_live[OF ct, of "ct_names c" "vm_heap m" "vm_gdb m"] ac by (simp add: g_def vars_accounted_def)
    have names: "names_of ?m = names_of m - {n. Some n \<in> fst ` set (ct_names c)}"
    proof (intro set_eqI iffI)
      fix n assume "n \<in> names_of ?m"
      then obtain s' d where d: "((vm_containers m)(s \<mapsto> c')) s' = Some d" "Some n \<in> fst ` set (ct_names d)" by (auto simp: names_of_def)
      then have "s' \<noteq> s" by (auto simp: c'_def)
      with d have d: "vm_containers m s' = Some d" "Some n \<in> fst ` set (ct_names d)" by auto
      have "Some n \<notin> fst ` set (ct_names c)"
        using prefix_scope[OF ok[OF c(1)] ok[OF d(1)] var_name_prefix[OF ok[OF c(1)]] var_name_prefix[OF ok[OF d(1)] d(2)]] \<open>s' \<noteq> s\<close> by blast
      with d show "n \<in> names_of m - {n. Some n \<in> fst ` set (ct_names c)}" unfolding names_of_def by blast
    next
      fix n assume n: "n \<in> names_of m - {n. Some n \<in> fst ` set (ct_names c)}"
      then obtain s' d where d: "vm_containers m s' = Some d" "Some n \<in> fst ` set (ct_names d)" by (auto simp: names_of_def)
      with n c have "s' \<noteq> s" by auto
      with d show "n \<in> names_of ?m" unfolding names_of_def by (auto intro!: exI[of _ s'])
    qed
    have "container_ok (vm_heap m) s c'" using ok[OF c(1)] by (simp add: container_ok_def c'_def)
    then have "\<forall>s' ct. vm_containers ?m s' = Some ct \<longrightarrow> container_ok (vm_heap ?m) s' ct" using ok by simp
    moreover have "\<forall>s' \<in> {ScopeGlobal, ScopeStatic, ScopeLocal, ScopeWatch, ScopeRegisters}. vm_containers ?m s' \<noteq> None"
      using ac by (auto simp: vars_accounted_def vars_ok_def)
    ultimately have "vars_ok ?m" unfolding vars_ok_def by blast
    with live names show ?thesis by (simp add: m' vars_accounted_def)
  qed
qed

lemma kept_prefix: "container_ok heap s ct \<Longrightarrow> Some n \<in> fst ` set (ct_names ct) \<Longrightarrow> (starts_with ''G-'' n \<or> starts_with ''S-'' n) = ct_global ct"
  using var_name_prefix[of heap s ct n] by (auto simp: container_ok_def scope_prefix_def starts_with_Cons split: if_splits)

lemma clear_for_continue_ok:
  assumes ct: "varobj_contract gdb live" and ac: "vars_accounted live m"
  shows "vars_accounted live (clear_for_continue gdb m) \<and> live (vm_gdb (clear_for_continue gdb m)) = kept_names (live (vm_gdb m))"
proof -
  let ?fold = "\<lambda>scopes. foldl (\<lambda>m scope. clear_scope gdb scope m) m scopes"
  have step: "vars_accounted live (?fold scopes) \<and> (\<forall>s \<in> set scopes. \<forall>c. vm_containers (?fold scopes) s = Some c \<longrightarrow> \<not> ct_global c \<longrightarrow> ct_names c = []) \<and>
      (\<forall>s c. ct_global c \<longrightarrow> (vm_containers (?fold scopes) s = Some c) = (vm_containers m s = Some c))" for scopes
  proof (induction scopes rule: rev_induct)
    case (snoc s scopes)
    note ok = clear_scope_ok[OF ct conjunct1[OF snoc], where s = s]
    have "ct_names c = []" if "s' \<in> set (scopes @ [s])" "vm_containers (clear_scope gdb s (?fold scopes)) s' = Some c" "\<not> ct_global c" for s' c
      using that snoc ok(2,3) by (cases "s' = s") auto
    with ok(1,4) snoc show ?case by simp
  qed (simp add: ac)
  define m' where "m' = ?fold [ScopeGlobal, ScopeStatic, ScopeLocal, ScopeWatch, ScopeRegisters]"
  note st = step[of "[ScopeGlobal, ScopeStatic, ScopeLocal, ScopeWatch, ScopeRegisters]", folded m'_def]
  have ok': "container_ok (vm_heap m') s c" if "vm_containers m' s = Some c" for s c by (rule containers_ok[OF conjunct1[OF st] that])
  have glob: "ct_global c" if "vm_containers m' s = Some c" "Some n \<in> fst ` set (ct_names c)" for s c n
    using st ok'[OF that(1)] that by (auto simp: container_ok_def)
  have "names_of m' = kept_names (names_of m)"
  proof (intro set_eqI iffI)
    fix n assume "n \<in> names_of m'"
    then obtain s c where c: "vm_containers m' s = Some c" "Some n \<in> fst ` set (ct_names c)" by (auto simp: names_of_def)
    then have "vm_containers m s = Some c" using glob st by blast
    then show "n \<in> kept_names (names_of m)" using kept_prefix[OF ok'[OF c(1)] c(2)] glob[OF c] c(2) by (auto simp: kept_names_def names_of_def)
  next
    fix n assume n: "n \<in> kept_names (names_of m)"
    then obtain s c where c: "vm_containers m s = Some c" "Some n \<in> fst ` set (ct_names c)" by (auto simp: kept_names_def names_of_def)
    then have "ct_global c" using kept_prefix[OF containers_ok[OF ac c(1)] c(2)] n by (simp add: kept_names_def)
    with st c(1) have "vm_containers m' s = Some c" by blast
    with c(2) show "n \<in> names_of m'" by (auto simp: names_of_def)
  qed
  with st ac have "vars_accounted live (m'\<lparr>vm_frames := x\<rparr>) \<and> live (vm_gdb (m'\<lparr>vm_frames := x\<rparr>)) = kept_names (live (vm_gdb m))" for x
    by (simp add: vars_accounted_def vars_ok_def names_of_def)
  then show ?thesis unfolding clear_for_continue_def m'_def by blast
qed

subsection \<open>Runs\<close>

datatype var_event =
    ShowLocals int int
  | Evaluate jstr "int option"
  | ShowGlobals "jstr list option"
  | ShowStatics "jstr list option" int int
  | AssignVariable int jstr jstr
  | ShowFrames int "stack_frame list"
  | ShowScopes int "stack_frame list option"
  | Continue

fun var_step :: "('g \<Rightarrow> bool) \<Rightarrow> (int \<Rightarrow> bool) \<Rightarrow> (jstr \<Rightarrow> jstr) \<Rightarrow> 'g gdb_send \<Rightarrow> 'g var_manager \<Rightarrow> var_event \<Rightarrow> 'g var_manager" where
  "var_step running writable canonical gdb m (ShowLocals thread frame) = snd (get_local_variables running writable gdb thread frame m)"
| "var_step running writable canonical gdb m (Evaluate expr frame_id) = snd (evaluate_expression writable gdb expr frame_id m)"
| "var_step running writable canonical gdb m (ShowGlobals names) = snd (get_global_variables running writable gdb names m)"
| "var_step running writable canonical gdb m (ShowStatics names file_id full_file_id) = snd (get_static_variables running writable gdb (\<lambda>_. names) file_id full_file_id m)"
| "var_step running writable canonical gdb m (AssignVariable ref name val) = snd (set_variable gdb ref name val m)"
| "var_step running writable canonical gdb m (ShowFrames thread frames) = snd (add_frames thread frames m)"
| "var_step running writable canonical gdb m (ShowScopes frame_id frames) = snd (scopes_request canonical (\<lambda>_. frames) frame_id m)"
| "var_step running writable canonical gdb m Continue = clear_for_continue gdb m"

text \<open>Names of variables have no space.\<close>

fun plain_event :: "var_event \<Rightarrow> bool" where
  "plain_event (ShowGlobals (Some names)) = list_all (\<lambda>n. CHR '' '' \<notin> set n) names"
| "plain_event (ShowStatics (Some names) file_id full_file_id) = list_all (\<lambda>n. CHR '' '' \<notin> set n) names"
| "plain_event e = True"

definition var_run :: "('g \<Rightarrow> bool) \<Rightarrow> (int \<Rightarrow> bool) \<Rightarrow> (jstr \<Rightarrow> jstr) \<Rightarrow> 'g gdb_send \<Rightarrow> 'g var_manager \<Rightarrow> var_event list \<Rightarrow> 'g var_manager" where
  "var_run running writable canonical gdb m es = foldl (var_step running writable canonical gdb) m es"

definition same_vars :: "'g var_manager \<Rightarrow> 'g var_manager \<Rightarrow> bool" where
  "same_vars m m' = (vm_gdb m' = vm_gdb m \<and> vm_heap m' = vm_heap m \<and> vm_containers m' = vm_containers m)"

lemma same_vars_accounted: "same_vars m m' \<Longrightarrow> vars_accounted live m' = vars_accounted live m"
  by (simp add: same_vars_def vars_accounted_def vars_ok_def names_of_def)

lemma add_frame_info_same: "same_vars m (snd (add_frame_info t f s m))"
  by (simp add: add_frame_info_def same_vars_def split: prod.split)

lemma session_file_id_same: "same_vars m (snd (session_file_id canonical p m))"
  by (simp add: session_file_id_def same_vars_def Let_def split: option.split)

lemma same_vars_trans: "same_vars m m1 \<Longrightarrow> same_vars m1 m2 \<Longrightarrow> same_vars m m2"
  by (simp add: same_vars_def)

lemma add_frames_same: "same_vars m (snd (add_frames t frs m))"
proof (induction frs arbitrary: m)
  case (Cons fr frs)
  obtain h m1 where 1: "add_frame_info t (sf_level fr) ScopeLocal m = (h, m1)" by force
  obtain hs m2 where 2: "add_frames t frs m1 = (hs, m2)" by force
  show ?case using same_vars_trans[of m m1 m2] Cons.IH[of m1] add_frame_info_same[of m t "sf_level fr" ScopeLocal] 1 2 by simp
qed (simp add: same_vars_def)

lemma scopes_request_same: "same_vars m (snd (scopes_request canonical threads frame_id m))"
proof -
  have s: "same_vars m (snd (if b then (0, m) else session_file_id canonical p m))" for b p and m :: "'a var_manager"
    by (cases b) (simp_all add: session_file_id_same, simp add: same_vars_def)
  have body: "same_vars m (snd (let (file, m) = (if b1 then (0, m) else session_file_id canonical p1 m);
                  (full, m) = (if b2 then (0, m) else session_file_id canonical p2 m);
                  (local, m) = add_frame_info t f ScopeLocal m;
                  (static, m) = add_frame_info file full ScopeStatic m;
                  (global, m) = add_frame_info 0 0 ScopeGlobal m;
                  (registers, m) = add_frame_info t f ScopeRegisters m
              in (Inr [(''Local'', local), (''Static'' @ nm, static), (''Global'', global), (''Registers'', registers)], m)))" for b1 b2 p1 p2 t f nm
  proof -
    obtain a1 m1 where 1: "(if b1 then (0, m) else session_file_id canonical p1 m) = (a1, m1)" by force
    obtain a2 m2 where 2: "(if b2 then (0, m1) else session_file_id canonical p2 m1) = (a2, m2)" by force
    obtain a3 m3 where 3: "add_frame_info t f ScopeLocal m2 = (a3, m3)" by force
    obtain a4 m4 where 4: "add_frame_info a1 a2 ScopeStatic m3 = (a4, m4)" by force
    obtain a5 m5 where 5: "add_frame_info 0 0 ScopeGlobal m4 = (a5, m5)" by force
    obtain a6 m6 where 6: "add_frame_info t f ScopeRegisters m5 = (a6, m6)" by force
    have "same_vars m m1" "same_vars m1 m2" using s[of m b1 p1] s[of m1 b2 p2] 1 2 by simp_all
    moreover have "same_vars m2 m3" "same_vars m3 m4" "same_vars m4 m5" "same_vars m5 m6"
      using add_frame_info_same[of m2 t f ScopeLocal] add_frame_info_same[of m3 a1 a2 ScopeStatic] add_frame_info_same[of m4 0 0 ScopeGlobal]
        add_frame_info_same[of m5 t f ScopeRegisters] 3 4 5 6 by simp_all
    ultimately have "same_vars m m6" by (meson same_vars_trans)
    then show ?thesis by (simp only: 1 2 3 4 5 6 Let_def prod.case snd_conv)
  qed
  have id: "same_vars m m" by (simp add: same_vars_def)
  show ?thesis
  proof (cases "get_frame_info m frame_id")
    case (Inl e)
    then show ?thesis by (simp add: scopes_request_def id)
  next
    case (Inr tri)
    obtain thread frame sc where tri: "tri = (thread, frame, sc)" by (rule prod_cases3)
    show ?thesis
    proof (cases "threads thread")
      case None
      then show ?thesis by (simp add: scopes_request_def Inr tri id)
    next
      case (Some frames)
      show ?thesis
      proof (cases "int (length frames) \<le> frame")
        case True
        then show ?thesis by (simp add: scopes_request_def Inr tri Some id)
      next
        case False
        show ?thesis unfolding scopes_request_def Inr tri Some sum.case option.case prod.case if_not_P[OF False]
          unfolding Let_def by (rule body[unfolded Let_def])
      qed
    qed
  qed
qed

lemma var_step_ok:
  assumes "varobj_contract gdb live" "vars_accounted live m" "plain_event e" shows "vars_accounted live (var_step running writable canonical gdb m e)"
proof (cases e)
  case (ShowGlobals names)
  with assms get_file_variables_ok(1)[OF assms(1,2), of names] show ?thesis by (cases names) simp_all
next
  case (ShowStatics names file_id full)
  with assms get_file_variables_ok(2)[OF assms(1,2), of "\<lambda>_. names"] show ?thesis by (cases names) simp_all
qed (use assms in \<open>simp_all add: get_local_variables_ok evaluate_expression_ok set_variable_ok clear_for_continue_ok
    same_vars_accounted[OF add_frames_same] same_vars_accounted[OF scopes_request_same]\<close>)

lemma var_run_ok: "varobj_contract gdb live \<Longrightarrow> list_all plain_event es \<Longrightarrow> vars_accounted live m \<Longrightarrow> vars_accounted live (var_run running writable canonical gdb m es)"
  unfolding var_run_def by (induction es arbitrary: m) (simp_all add: var_step_ok)

lemma start_accounted:
  assumes "live g = {}" shows "vars_accounted live (session_start canonical g)"
proof -
  have "vars_accounted live (var_manager_new g)"
    using assms by (auto simp: vars_accounted_def vars_ok_def var_manager_new_def names_of_def container_ok_def container_new_def scope_prefix_def split: if_splits)
  then show ?thesis unfolding session_start_def by (simp add: same_vars_accounted[OF session_file_id_same])
qed

text \<open>
  C27: Over any run of requests for local, global and static variables, watch expressions, assignments to them, frames and
  scopes, the variable objects GDB has are exactly those the containers know by name, and when the target continues only
  the globals and statics are left. (Not among them are \<open>setExpression\<close>, which leaves an object behind, the children of
  structured values and the registers.)
\<close>

theorem gdb_variables_accounted:
  assumes "varobj_contract gdb live" "live g = {}" "list_all plain_event es"
  shows "live (vm_gdb (var_run running writable canonical gdb (session_start canonical g) es)) = names_of (var_run running writable canonical gdb (session_start canonical g) es) \<and>
    live (vm_gdb (var_run running writable canonical gdb (session_start canonical g) (es @ [Continue]))) =
      kept_names (live (vm_gdb (var_run running writable canonical gdb (session_start canonical g) es)))"
proof -
  let ?m = "var_run running writable canonical gdb (session_start canonical g) es"
  have ac: "vars_accounted live ?m"
    by (rule var_run_ok[OF assms(1,3) start_accounted[where live = live, OF assms(2)]])
  then have "live (vm_gdb ?m) = names_of ?m" unfolding vars_accounted_def by blast
  moreover have "var_run running writable canonical gdb (session_start canonical g) (es @ [Continue]) = clear_for_continue gdb ?m"
    by (simp only: var_run_def foldl_append foldl.simps var_step.simps)
  moreover note clear_for_continue_ok[OF assms(1) ac]
  ultimately show ?thesis by simp
qed

text \<open>A small GDB: its state is the list of its variable objects, every frame has the local variable \<open>x\<close>.\<close>

definition small_varobj_gdb :: "jstr list gdb_send" where
  "small_varobj_gdb g c = (case created_name c of
     Some n \<Rightarrow> if n \<in> set g then (GdbError ''Error: Duplicate variable object name'', g)
       else (GdbDone [(''name'', MConst n), (''numchild'', MConst ''0''), (''value'', MConst ''1''), (''type'', MConst ''int'')], n # g)
   | None \<Rightarrow> (case deleted_name c of
       Some n \<Rightarrow> if n \<in> set g then (GdbDone [], removeAll n g) else (GdbError ''Error: Variable object not found'', g)
     | None \<Rightarrow> (GdbDone (if starts_with ''-stack-list-variables'' c then [(''variables'', MList [MTuple [(''name'', MConst ''x'')]])] else [(''value'', MConst ''2'')]), g)))"

lemma small_varobj_gdb_contract: "varobj_contract small_varobj_gdb set"
proof -
  have listed: "listed_names [(''value'', MConst ''2'')] = []" "listed_names [(''variables'', MList [MTuple [(''name'', MConst ''x'')]])] = [''x'']" by code_simp+
  show ?thesis unfolding varobj_contract_def
  proof (intro allI impI)
    fix g c a g' assume h: "small_varobj_gdb g c = (a, g')"
    show "case created_name c of
        Some n \<Rightarrow> (case a of GdbDone rs \<Rightarrow> n \<notin> set g \<and> set g' = insert n (set g) \<and> map_of (text_fields rs) ''name'' = Some n | GdbError e \<Rightarrow> set g' = set g)
      | None \<Rightarrow> (case deleted_name c of
          Some n \<Rightarrow> (case a of GdbDone _ \<Rightarrow> set g' = set g - {n} | GdbError _ \<Rightarrow> n \<notin> set g \<and> set g' = set g)
        | None \<Rightarrow> set g' = set g \<and> (\<forall>n. formatted_name c = Some n \<and> n \<in> set g \<longrightarrow> (\<exists>rs. a = GdbDone rs)) \<and>
            (\<forall>rs n. a = GdbDone rs \<and> n \<in> set (listed_names rs) \<longrightarrow> CHR '' '' \<notin> set n))"
    proof (cases "created_name c")
      case (Some n)
      with h show ?thesis by (cases "n \<in> set g") (auto simp: small_varobj_gdb_def text_fields_def)
    next
      case none: None
      show ?thesis
      proof (cases "deleted_name c")
        case (Some n)
        with h none show ?thesis by (cases "n \<in> set g") (auto simp: small_varobj_gdb_def)
      next
        case None
        with h none listed show ?thesis by (cases "starts_with ''-stack-list-variables'' c") (auto simp: small_varobj_gdb_def)
      qed
    qed
  qed
qed

lemma gdb_variables_accounted_witness:
  "vm_gdb (var_run (\<lambda>_. False) (\<lambda>_. False) id small_varobj_gdb (session_start id []) [Evaluate ''a'' None, ShowLocals 1 0, ShowGlobals (Some [''g''])]) = [''G-g-0-0'', ''L-x-1-0'', ''W-a-0-0''] \<and>
   set (vm_gdb (var_run (\<lambda>_. False) (\<lambda>_. False) id small_varobj_gdb (session_start id []) ([Evaluate ''a'' None, ShowLocals 1 0, ShowGlobals (Some [''g''])] @ [Continue]))) = {''G-g-0-0''}"
proof -
  let ?es = "[Evaluate ''a'' None, ShowLocals 1 0, ShowGlobals (Some [''g''])]"
  have "vm_gdb (var_run (\<lambda>_. False) (\<lambda>_. False) id small_varobj_gdb (session_start id []) ?es) = [''G-g-0-0'', ''L-x-1-0'', ''W-a-0-0'']"
    by code_simp
  moreover have "kept_names {''G-g-0-0'', ''L-x-1-0'', ''W-a-0-0''} = {''G-g-0-0''}" by (auto simp: kept_names_def)
  moreover have "list_all plain_event ?es" by simp
  ultimately show ?thesis
    using gdb_variables_accounted[OF small_varobj_gdb_contract, of "[]" ?es "\<lambda>_. False" "\<lambda>_. False" id] by simp
qed

subsection \<open>Error paths\<close>

text \<open>
  \<open>setExpression\<close> creates a variable object under a name it never records, so its own deletion by that name finds
  nothing: GDB keeps the object over a continue, and from then on evaluating the expression fails.
\<close>

definition after_set :: "jstr list var_manager" where
  "after_set = snd (set_expression small_varobj_gdb ''a'' ''5'' None (session_start id []))"

lemma set_expression_leaks:
  "vm_gdb (clear_for_continue small_varobj_gdb after_set) = [''W-a-0-0'']"
  "map_option ct_names (get_container (clear_for_continue small_varobj_gdb after_set) ScopeWatchVariable) = Some []"
  "fst (evaluate_expression (\<lambda>_. False) small_varobj_gdb ''a'' None (clear_for_continue small_varobj_gdb after_set)) = Inl ''Error: Duplicate variable object name''"
  by code_simp+

text \<open>A format that GDB refuses leaves the variable object of the watch expression behind in the same way.\<close>

definition no_format_gdb :: "jstr list gdb_send" where
  "no_format_gdb g c = (if starts_with ''-var-set-format '' c then (GdbError ''Error: Cannot access memory'', g) else small_varobj_gdb g c)"

lemma refused_format_leaks:
  "vm_gdb (clear_for_continue no_format_gdb (snd (evaluate_expression (\<lambda>_. False) no_format_gdb ''a,x'' None (session_start id [])))) = [''W-a-0-0'']"
  by code_simp

text \<open>
  The name of the global file has the number 0, not 1, and the number of a file is cut to 4 bits when it is packed: a
  static variable of file 17 is taken for the one of the same name of file 1.
\<close>

lemma global_file_is_zero: "fst (session_file_id canonical global_file_name (var_manager_new g)) = 0"
  by (simp add: session_file_id_def var_manager_new_def)

lemma static_files_alias:
  "variable_keys 0 name (encode_scope_reference 17 0 ScopeStaticVariable) = variable_keys 0 name (encode_scope_reference 1 0 ScopeStaticVariable)"
  by (simp add: encode_scope_reference_def encode_reference_def mask_defs)

end
