(* ===== verification/Threads.thy ===== *)
theory Threads
  imports GdbCommands Variables
begin

text \<open>
  The threads and frames the debug adapter knows of (\<open>adapter/gdb-mi/mi-commands.ts\<close>): what it reads from
  \<open>-thread-info\<close>, from \<open>-stack-list-frames\<close> and, before either was asked, from the record of a stop. A frame handle
  names a frame by its level and the adapter looks frames up by their position, so the two must agree.
\<close>

subsection \<open>Frames\<close>

record mi_frame =
  fr_level :: num
  fr_addr :: "jstr option"
  fr_func :: "jstr option"
  fr_file :: "jstr option"
  fr_fullname :: "jstr option"
  fr_line :: "num option"
  fr_from :: "jstr option"
  fr_arch :: "jstr option"
  fr_addr_flags :: "jstr option"
  fr_args :: "(mi_value option \<times> mi_value option) list"
  fr_fake :: bool

text \<open>The fields of the items of an array, and a number read from a field that may be missing.\<close>

definition item_fields :: "mi_value list \<Rightarrow> (jstr \<times> mi_value) list list" where
  "item_fields vs = map (\<lambda>v. case v of MTuple fs \<Rightarrow> fs | _ \<Rightarrow> []) vs"

definition text_num :: "jstr option \<Rightarrow> num" where
  "text_num t = (case t of None \<Rightarrow> None | Some s \<Rightarrow> parse_int s)"

definition frame_new :: "(jstr \<times> mi_value) list \<Rightarrow> mi_frame" where
  "frame_new fs = (let t = map_of (text_fields fs) in
     \<lparr>fr_level = text_num (t ''level''), fr_addr = t ''addr'', fr_func = t ''func'', fr_file = t ''file'', fr_fullname = t ''fullname'',
      fr_line = map_option parse_int (t ''line''), fr_from = t ''from'', fr_arch = t ''arch'', fr_addr_flags = t ''addr_flags'',
      fr_args = (case map_of fs ''args'' of Some (MList vs) \<Rightarrow> map (\<lambda>fs. (map_of fs ''name'', map_of fs ''value'')) (item_fields vs) | _ \<Rightarrow> []),
      fr_fake = False\<rparr>)"

subsection \<open>Threads\<close>

record mi_thread =
  th_id :: num
  th_target :: "jstr option"
  th_frames :: "mi_frame list"
  th_name :: jstr
  th_details :: "jstr option"
  th_state :: "jstr option"
  th_core :: "num option"
  th_fake :: bool

text \<open>The name as GDB shows it; an empty text counts as missing.\<close>

definition thread_label :: "num \<Rightarrow> jstr \<Rightarrow> jstr \<Rightarrow> jstr" where
  "thread_label tid name details =
     (if name \<noteq> [] \<and> details \<noteq> [] \<and> name \<noteq> details then name @ '' ('' @ details @ '')''
      else if name \<noteq> [] then name else if details \<noteq> [] then details else show_num tid)"

definition thread_new :: "(jstr \<times> mi_value) list \<Rightarrow> mi_thread" where
  "thread_new fs = (let t = map_of (text_fields fs); tid = text_num (t ''id'') in
     \<lparr>th_id = tid, th_target = t ''target-id'',
      th_frames = (case map_of fs ''frame'' of Some (MTuple fr) \<Rightarrow> [frame_new fr] | _ \<Rightarrow> []),
      th_name = thread_label tid (text_else (text_fields fs) ''name'' []) (text_else (text_fields fs) ''details'' []),
      th_details = t ''details'', th_state = (case t ''state'' of Some [] \<Rightarrow> None | s \<Rightarrow> s),
      th_core = map_option parse_int (t ''core''), th_fake = False\<rparr>)"

text \<open>\<open>setFrame\<close>: \<open>None\<close> is the exception. An index that is no number leaves the array as it is.\<close>

definition set_frame :: "mi_frame \<Rightarrow> num \<Rightarrow> mi_thread \<Rightarrow> mi_thread option" where
  "set_frame fr ix th = (case ix of
     None \<Rightarrow> Some th
   | Some i \<Rightarrow> if length (th_frames th) < i then None
       else if i = length (th_frames th) then Some (th\<lparr>th_frames := th_frames th @ [fr]\<rparr>)
       else Some (th\<lparr>th_frames := (th_frames th)[i := fr]\<rparr>))"

fun set_frames :: "mi_frame list \<Rightarrow> mi_thread \<Rightarrow> mi_thread \<times> bool" where
  "set_frames [] th = (th, True)"
| "set_frames (fr # frs) th = (case set_frame fr (fr_level fr) th of None \<Rightarrow> (th, False) | Some th \<Rightarrow> set_frames frs th)"

definition thread_set_fake :: "mi_thread \<Rightarrow> mi_thread" where
  "thread_set_fake th = th\<lparr>th_fake := True, th_frames := map (fr_fake_update (\<lambda>_. True)) (th_frames th)\<rparr>"

subsection \<open>The list of threads\<close>

text \<open>The table is in the order of insertion; a later thread of the same number takes the place of an earlier one.\<close>

record thread_list =
  tl_threads :: "(num \<times> mi_thread) list"
  tl_current :: num
  tl_fake :: bool

definition threads_empty :: thread_list where
  "threads_empty = \<lparr>tl_threads = [], tl_current = None, tl_fake = False\<rparr>"

definition threads_of :: "mi_value list \<Rightarrow> (num \<times> mi_thread) list" where
  "threads_of vs = foldl (\<lambda>ths fs. AList.update (th_id (thread_new fs)) (thread_new fs) ths) [] (item_fields vs)"

definition thread_list_new :: "(jstr \<times> mi_value) list \<Rightarrow> thread_list" where
  "thread_list_new rs =
     \<lparr>tl_threads = (case map_of rs ''threads'' of Some (MList vs) \<Rightarrow> threads_of vs | _ \<Rightarrow> []),
      tl_current = text_num (map_of (text_fields rs) ''current-thread-id''), tl_fake = False\<rparr>"

text \<open>GDB numbers its threads; one without a number would be sorted first.\<close>

definition sorted_threads :: "thread_list \<Rightarrow> mi_thread list" where
  "sorted_threads ts = sort_key (\<lambda>th. case th_id th of None \<Rightarrow> 0 | Some i \<Rightarrow> i) (map snd (tl_threads ts))"

definition set_fake_threads :: "thread_list \<Rightarrow> thread_list" where
  "set_fake_threads ts = ts\<lparr>tl_threads := map (\<lambda>(i, th). (i, thread_set_fake th)) (tl_threads ts), tl_fake := True\<rparr>"

text \<open>The one thread of a stop: the frame of the record gets a level when it has none.\<close>

definition with_default :: "jstr \<Rightarrow> jstr \<Rightarrow> (jstr \<times> mi_value) list \<Rightarrow> (jstr \<times> mi_value) list" where
  "with_default k d fs = (if map_of fs k = None \<or> map_of fs k = Some (MConst []) then AList.update k (MConst d) fs else fs)"

definition parse_stopped_thread_info :: "(jstr \<times> mi_value) list \<Rightarrow> thread_list" where
  "parse_stopped_thread_info rs =
     (let tid = text_or (text_fields rs) ''thread-id'' ''1'';
          frame = (case map_of rs ''frame'' of
            Some (MTuple fs) \<Rightarrow> [(''frame'', MTuple (with_default ''state'' ''stopped'' (with_default ''level'' ''1'' fs)))]
          | _ \<Rightarrow> [])
      in set_fake_threads (thread_list_new
           [(''threads'', MList [MTuple ([(''id'', MConst tid), (''target-id'', MConst (''Thread '' @ tid))] @ frame)]),
            (''current-thread-id'', MConst tid)]))"

subsection \<open>Requests\<close>

text \<open>An answer of GDB, or its refusal.\<close>

definition thread_info_all :: "answer \<Rightarrow> jstr + thread_list" where
  "thread_info_all a = (case a of GdbError e \<Rightarrow> Inl e | GdbDone rs \<Rightarrow> Inr (thread_list_new rs))"

definition listed_frames :: "(jstr \<times> mi_value) list \<Rightarrow> mi_frame list" where
  "listed_frames rs = (case map_of rs ''stack'' of Some (MList vs) \<Rightarrow> map frame_new (item_fields vs) | _ \<Rightarrow> [])"

definition stack_list_cmd :: "num \<Rightarrow> nat \<Rightarrow> nat \<Rightarrow> jstr" where
  "stack_list_cmd tid start final = ''-stack-list-frames --thread '' @ show_num tid @ '' '' @ show_nat start @ '' '' @ show_nat final"

text \<open>\<open>sendStackListFrames\<close>: the thread keeps the frames that were set before one was out of bounds.\<close>

definition list_frames :: "answer \<Rightarrow> mi_thread \<Rightarrow> mi_thread \<times> jstr option" where
  "list_frames a th = (case a of
     GdbError e \<Rightarrow> (th, Some e)
   | GdbDone rs \<Rightarrow> (let (th, ok) = set_frames (listed_frames rs) th in
       (th, if ok then None else Some ''Error: Frame index out of bounds'')))"

text \<open>The listed frames are those of a thread of the table, which is changed in place.\<close>

definition update_thread :: "num \<Rightarrow> mi_thread \<Rightarrow> thread_list \<Rightarrow> thread_list" where
  "update_thread tid th ts = ts\<lparr>tl_threads := AList.update tid th (tl_threads ts)\<rparr>"

subsection \<open>Positions and levels\<close>

definition frames_indexed :: "mi_thread \<Rightarrow> bool" where
  "frames_indexed th \<longleftrightarrow> (\<forall>i < length (th_frames th). fr_level (th_frames th ! i) = Some i)"

lemma set_frame_indexed: "frames_indexed th \<Longrightarrow> set_frame fr (fr_level fr) th = Some th' \<Longrightarrow> frames_indexed th'"
  by (auto simp: set_frame_def frames_indexed_def nth_append nth_list_update less_Suc_eq split: option.splits if_splits)

lemma set_frames_indexed: "frames_indexed th \<Longrightarrow> frames_indexed (fst (set_frames frs th))"
proof (induction frs arbitrary: th)
  case (Cons fr frs)
  show ?case
  proof (cases "set_frame fr (fr_level fr) th")
    case (Some th')
    with Cons.IH[OF set_frame_indexed[OF Cons.prems Some]] show ?thesis by simp
  qed (use Cons.prems in simp)
qed simp

lemma list_frames_indexed: "frames_indexed th \<Longrightarrow> frames_indexed (fst (list_frames a th))"
  using set_frames_indexed[of th] by (simp add: list_frames_def case_prod_beta Let_def split: answer.split)

lemma set_frames_page:
  assumes "map fr_level frs = map Some [s..<s + length frs]" "s \<le> length (th_frames th)"
  shows "set_frames frs th = (th\<lparr>th_frames := take s (th_frames th) @ frs @ drop (s + length frs) (th_frames th)\<rparr>, True)"
  using assms
proof (induction frs arbitrary: s th)
  case (Cons fr frs)
  have lv: "fr_level fr = Some s" "map fr_level frs = map Some [Suc s..<Suc s + length frs]"
  proof -
    have "[s..<s + length (fr # frs)] = s # [Suc s..<Suc s + length frs]" by (subst upt_conv_Cons) simp_all
    then show "fr_level fr = Some s" "map fr_level frs = map Some [Suc s..<Suc s + length frs]" using Cons.prems(1) by simp_all
  qed
  define th1 where "th1 = th\<lparr>th_frames := take s (th_frames th) @ fr # drop (Suc s) (th_frames th)\<rparr>"
  have "set_frame fr (Some s) th = Some th1"
    using Cons.prems(2) by (auto simp: set_frame_def th1_def upd_conv_take_nth_drop)
  moreover have "Suc s \<le> length (th_frames th1)" using Cons.prems(2) by (simp add: th1_def)
  note Cons.IH[OF lv(2) this]
  moreover have "take (Suc s) (th_frames th1) = take s (th_frames th) @ [fr]" using Cons.prems(2) by (simp add: th1_def take_Cons' min_def)
  moreover have "drop (Suc s + length frs) (th_frames th1) = drop (s + length (fr # frs)) (th_frames th)"
    using Cons.prems(2) by (simp add: th1_def min_def drop_Cons' add.commute)
  ultimately show ?case by (simp add: lv(1)) (simp add: th1_def)
qed simp

subsection \<open>Frames that are shown\<close>

text \<open>What the session reads of a frame of a thread, and the threads by their number.\<close>

definition shown_frame :: "mi_frame \<Rightarrow> stack_frame" where
  "shown_frame fr = \<lparr>sf_level = (case fr_level fr of None \<Rightarrow> 0 | Some i \<Rightarrow> int i), sf_file = (case fr_file fr of None \<Rightarrow> [] | Some f \<Rightarrow> f),
     sf_fullname = (case fr_fullname fr of None \<Rightarrow> [] | Some f \<Rightarrow> f)\<rparr>"

definition frames_of_thread :: "thread_list \<Rightarrow> int \<Rightarrow> stack_frame list option" where
  "frames_of_thread ts tid = (if tid < 0 then None
     else map_option (\<lambda>th. map shown_frame (th_frames th)) (map_of (tl_threads ts) (Some (nat tid))))"

definition file_label :: "stack_frame \<Rightarrow> jstr" where
  "file_label fr = (if sf_file fr = [] \<and> sf_fullname fr = [] then [] else ''-> '' @ (if sf_file fr = [] then sf_fullname fr else sf_file fr))"

text \<open>\<open>stackTraceRequest\<close>: GDB is asked for a page, and all frames the thread has by then get a handle.\<close>

definition stack_trace :: "answer \<Rightarrow> num \<Rightarrow> thread_list \<Rightarrow> 'g var_manager \<Rightarrow> (jstr + int list) \<times> thread_list \<times> 'g var_manager" where
  "stack_trace a tid ts m = (case map_of (tl_threads ts) tid of
     None \<Rightarrow> (Inl (''Thread with id '' @ show_num tid @ '' not found.''), ts, m)
   | Some th \<Rightarrow> (let (th, err) = list_frames a th; ts = update_thread tid th ts in
       (case err of
          Some e \<Rightarrow> (Inl (''Failed to get stack frames: '' @ e), ts, m)
        | None \<Rightarrow> let (hs, m) = add_frames (case tid of None \<Rightarrow> 0 | Some t \<Rightarrow> int t) (map shown_frame (th_frames th)) m in (Inr hs, ts, m))))"

text \<open>Without threads from \<open>-thread-info\<close> the frames of the first thread are shown, whatever thread was asked for.\<close>

definition stack_trace_fake :: "thread_list \<Rightarrow> 'g var_manager \<Rightarrow> int list \<times> 'g var_manager" where
  "stack_trace_fake ts m = (case tl_threads ts of
     [] \<Rightarrow> ([], m)
   | (_, th) # _ \<Rightarrow> add_frames (case th_id th of None \<Rightarrow> 0 | Some t \<Rightarrow> int t) (map shown_frame (th_frames th)) m)"

lemma add_frame_info_keeps:
  assumes inv: "hr_inv id (vm_frames m)" and a: "add_frame_info t f s m = (h, m')" and g: "get_frame_info m k = Inr info"
  shows "hr_inv id (vm_frames m') \<and> get_frame_info m' k = Inr info"
proof -
  have "get_item (vm_frames m') k' = Some x" if "get_item (vm_frames m) k' = Some x" for k' x
    using items.add_keeps[OF inv that, of "JInt (encode_scope_reference t f s)"] a by (auto simp: add_frame_info_def Let_def split: prod.splits)
  then show ?thesis using add_frame_info_get[OF inv a] g
    by (auto simp: get_frame_info_def split: if_splits option.splits jval.splits)
qed

lemma add_frames_get:
  assumes "hr_inv id (vm_frames m)" "add_frames t frs m = (hs, m')"
  shows "hr_inv id (vm_frames m') \<and> length hs = length frs \<and> (\<forall>k info. get_frame_info m k = Inr info \<longrightarrow> get_frame_info m' k = Inr info) \<and>
    (\<forall>i < length frs. get_frame_info m' (hs ! i) = Inr (decode_reference (encode_scope_reference t (sf_level (frs ! i)) ScopeLocal)))"
  using assms
proof (induction frs arbitrary: m hs m')
  case (Cons fr frs)
  obtain h m1 where 1: "add_frame_info t (sf_level fr) ScopeLocal m = (h, m1)" by force
  obtain hs2 m2 where 2: "add_frames t frs m1 = (hs2, m2)" by force
  have e: "hs = h # hs2" "m' = m2" using Cons.prems(2) 1 2 by simp_all
  note g = add_frame_info_get[OF Cons.prems(1) 1]
  note IH = Cons.IH[OF conjunct1[OF g] 2]
  have "get_frame_info m2 k = Inr info" if "get_frame_info m k = Inr info" for k info
    using IH add_frame_info_keeps[OF Cons.prems(1) 1 that] by blast
  moreover have "get_frame_info m2 ((h # hs2) ! i) = Inr (decode_reference (encode_scope_reference t (sf_level ((fr # frs) ! i)) ScopeLocal))"
    if "i < length (fr # frs)" for i
  proof (cases i)
    case 0
    with IH g show ?thesis unfolding 0 nth_Cons_0 by blast
  next
    case (Suc j)
    with that have "j < length frs" by simp
    with IH show ?thesis unfolding Suc nth_Cons_Suc by blast
  qed
  ultimately show ?case using IH by (simp add: e)
qed simp

text \<open>
  C32: A page of the stack of a thread whose frames are at their levels: the frames asked for take their places, the others
  stay, and every frame gets a handle that stands for its level in the thread. Asking for the scopes of such a handle
  finds that very frame, so the static variables are those of its file. (The thread is known, its number below 16, the page
  a run of consecutive levels that begins within the frames already there, and the frames no more than \<open>2^24\<close>.)
\<close>

theorem shown_frames_have_their_scopes:
  assumes inv: "hr_inv id (vm_frames m)" and th: "map_of (tl_threads ts) (Some t) = Some th" "frames_indexed th" "t < 16"
    and page: "map fr_level (listed_frames rs) = map Some [s..<s + length (listed_frames rs)]" "s \<le> length (th_frames th)"
    and few: "length (th_frames th') \<le> 2 ^ 24"
    and th': "th' = th\<lparr>th_frames := take s (th_frames th) @ listed_frames rs @ drop (s + length (listed_frames rs)) (th_frames th)\<rparr>"
    and i: "i < length (th_frames th')"
  shows "\<exists>hs m' l st g r. stack_trace (GdbDone rs) (Some t) ts m = (Inr hs, update_thread (Some t) th' ts, m') \<and>
    length hs = length (th_frames th') \<and> get_frame_info m' (hs ! i) = Inr (int t, int i, ScopeLocal) \<and>
    fst (scopes_request canonical (frames_of_thread (update_thread (Some t) th' ts)) (hs ! i) m') =
      Inr [(''Local'', l), (''Static'' @ file_label (shown_frame (th_frames th' ! i)), st), (''Global'', g), (''Registers'', r)]"
proof -
  have lf: "list_frames (GdbDone rs) th = (th', None)" using set_frames_page[OF page] by (simp add: list_frames_def th')
  obtain hs m' where a: "add_frames (int t) (map shown_frame (th_frames th')) m = (hs, m')" by force
  note g = add_frames_get[OF inv a]
  have ix: "frames_indexed th'" using list_frames_indexed[OF th(2), of "GdbDone rs"] lf by simp
  have "sf_level (shown_frame (th_frames th' ! i)) = int i" using ix i by (simp add: frames_indexed_def shown_frame_def)
  moreover have "decode_reference (encode_scope_reference (int t) (int i) ScopeLocal) = (int t, int i, ScopeLocal)"
    using th(3) i few by (simp add: encode_scope_reference_def decode_encode mask_defs)
  ultimately have h: "get_frame_info m' (hs ! i) = Inr (int t, int i, ScopeLocal)" using g i by simp
  have fo: "frames_of_thread (update_thread (Some t) th' ts) (int t) = Some (map shown_frame (th_frames th'))"
    by (simp add: frames_of_thread_def update_thread_def update_conv')
  have "\<exists>l st g r. fst (scopes_request canonical (frames_of_thread (update_thread (Some t) th' ts)) (hs ! i) m') =
      Inr [(''Local'', l), (''Static'' @ file_label (shown_frame (th_frames th' ! i)), st), (''Global'', g), (''Registers'', r)]"
    using i by (simp add: scopes_request_def h fo file_label_def Let_def case_prod_beta)
  with g h show ?thesis using a lf th(1) by (auto simp: stack_trace_def)
qed

text \<open>A thread with one frame and the answer to a request for its stack.\<close>

definition sample_threads :: thread_list where
  "sample_threads = thread_list_new [(''threads'', MList [MTuple [(''id'', MConst ''1''), (''name'', MConst ''main''),
     (''frame'', MTuple [(''level'', MConst ''0''), (''file'', MConst ''main.c'')])]]), (''current-thread-id'', MConst ''1'')]"

definition sample_stack :: "(jstr \<times> mi_value) list" where
  "sample_stack = [(''stack'', MList [MTuple [(''level'', MConst ''0''), (''file'', MConst ''main.c'')], MTuple [(''level'', MConst ''1''), (''file'', MConst ''app.c'')]])]"

lemma shown_frames_have_their_scopes_witness:
  "\<exists>hs ts m' l st g r. stack_trace (GdbDone sample_stack) (Some 1) sample_threads (var_manager_new ()) = (Inr hs, ts, m') \<and> length hs = 2 \<and>
    get_frame_info m' (hs ! 1) = Inr (1, 1, ScopeLocal) \<and>
    fst (scopes_request id (frames_of_thread ts) (hs ! 1) m') = Inr [(''Local'', l), (''Static-> app.c'', st), (''Global'', g), (''Registers'', r)]"
proof -
  let ?m = "var_manager_new ()"
  have inv: "hr_inv id (vm_frames ?m)" by (simp add: var_manager_new_def)
  have "map_option (\<lambda>th. map fr_level (th_frames th)) (map_of (tl_threads sample_threads) (Some 1)) = Some [Some 0]" by code_simp
  then obtain th where th: "map_of (tl_threads sample_threads) (Some 1) = Some th" "map fr_level (th_frames th) = [Some 0]" by auto
  have lv: "map fr_level (listed_frames sample_stack) = [Some 0, Some 1]" "map fr_file (listed_frames sample_stack) = [Some ''main.c'', Some ''app.c'']"
    "map fr_fullname (listed_frames sample_stack) = [None, None]" "length (listed_frames sample_stack) = 2" by code_simp+
  have ix: "frames_indexed th" unfolding frames_indexed_def using th(2) by auto
  define th' where "th' = th\<lparr>th_frames := listed_frames sample_stack\<rparr>"
  have drop: "drop 2 (th_frames th) = []" using arg_cong[OF th(2), of length] by simp
  obtain a b where ab: "listed_frames sample_stack = [a, b]" using lv(4) by (auto simp: numeral_2_eq_2 length_Suc_conv)
  have "file_label (shown_frame (th_frames th' ! 1)) = ''-> app.c''" using lv(2,3) ab by (simp add: th'_def file_label_def shown_frame_def)
  moreover have "map fr_level (listed_frames sample_stack) = map Some [0..<0 + length (listed_frames sample_stack)]" using lv(1,4) by (simp add: upt_rec)
  ultimately show ?thesis
    using shown_frames_have_their_scopes[OF inv th(1) ix, of sample_stack 0 th' 1 id] lv(4) drop by (fastforce simp: th'_def)
qed

subsection \<open>Error paths\<close>

text \<open>
  The frame of a stop has no level in GDB's record and is given the level 1, so as long as no threads were asked for the
  handle of the topmost frame stands for its caller.
\<close>

lemma stopped_frame_is_caller:
  "(case stack_trace_fake (parse_stopped_thread_info [(''thread-id'', MConst ''1''), (''frame'', MTuple [(''func'', MConst ''main'')])]) (var_manager_new ()) of
     (hs, m) \<Rightarrow> (map (get_frame_info m) hs)) = [Inr (1, 1, ScopeLocal)]"
  by code_simp

text \<open>A later page is answered with all frames, and one that does not follow what is known with an error.\<close>

definition page_from :: "nat \<Rightarrow> (jstr \<times> mi_value) list" where
  "page_from n = [(''stack'', MList [MTuple [(''level'', MConst (show_nat n))]])]"

lemma stack_page_repeats:
  "map_sum id (map nat) (fst (stack_trace (GdbDone (page_from 1)) (Some 1) sample_threads (var_manager_new ()))) = Inr [1, 2]"
  "fst (stack_trace (GdbDone (page_from 2)) (Some 1) sample_threads (var_manager_new ())) = Inl ''Failed to get stack frames: Error: Frame index out of bounds''"
  by code_simp+

end
