(* ===== verification/DebugSession.thy ===== *)
theory DebugSession
  imports Threads SeqSession
begin

text \<open>
  The debug session (\<open>adapter/gdb-session.ts\<close>): how it launches, runs, stops, resets and ends, which requests it
  refuses while the target runs, and what it tells the client of the state of the target.

  A request, an answer and an event of GDB are each one step. Whatever a handler awaits is a \<^emph>\<open>task\<close>: the
  continuation after one \<open>await\<close>, with the request it will answer. The environment answers a task with what GDB
  or another component returned; a task that is not outstanding cannot be answered. Breakpoints, variables, memory
  and the live watch are other components: the session asks them and passes on that they are done. Log output and
  the bodies of responses are left out, except for threads and frames.
\<close>

subsection \<open>Configuration\<close>

text \<open>
  The lists of commands of a launch configuration, and those of the controller of the GDB server, which are parameters.
\<close>

datatype session_mode = ModeLaunch | ModeAttach | ModeReset

record session_config =
  cf_no_debug :: bool
  cf_entry :: "jstr option"
  cf_break_after_reset :: bool
  cf_chained :: bool
  cf_live :: bool
  cf_pre_connect :: "jstr list"
  cf_pre_launch :: "jstr list"
  cf_pre_attach :: "jstr list"
  cf_connect :: "jstr list"
  cf_override_launch :: "jstr list option"
  cf_server_launch :: "jstr list"
  cf_post_launch :: "jstr list"
  cf_override_attach :: "jstr list option"
  cf_server_attach :: "jstr list"
  cf_post_attach :: "jstr list"
  cf_pre_reset :: "jstr list"
  cf_override_reset :: "jstr list option"
  cf_server_reset :: "jstr list"
  cf_post_reset :: "jstr list"
  cf_swo_rtt :: "jstr list"
  cf_post_start_session :: "jstr list"
  cf_post_reset_session :: "jstr list"
  cf_pre_end :: "jstr list"

definition escape_quotes :: "jstr \<Rightarrow> jstr" where
  "escape_quotes s = concat (map (\<lambda>c. if c = DQ then [BSL, DQ] else [c]) s)"

definition continue_words :: "jstr list" where
  "continue_words = [''continue'', ''c'', ''cont'']"

definition console_cmd :: "jstr \<Rightarrow> jstr" where
  "console_cmd c = ''-interpreter-exec console '' @ [DQ] @ c @ [DQ]"

definition command_map :: "jstr \<Rightarrow> jstr" where
  "command_map c = (if c = [] then c
     else let c = js_trim c in
       if c \<in> set continue_words then ''exec-continue --all''
       else if starts_with ''-'' c then c else console_cmd (escape_quotes c))"

definition connect_commands_pre :: "session_config \<Rightarrow> session_mode \<Rightarrow> jstr list" where
  "connect_commands_pre cf mode =
     map command_map (if mode = ModeAttach then cf_pre_attach cf else cf_pre_launch cf) @ cf_connect cf"

definition connect_commands_post :: "session_config \<Rightarrow> session_mode \<Rightarrow> jstr list" where
  "connect_commands_post cf mode =
     (if mode = ModeAttach
      then (case cf_override_attach cf of Some cs \<Rightarrow> map command_map cs | None \<Rightarrow> cf_server_attach cf) @ map command_map (cf_post_attach cf)
      else (case cf_override_launch cf of Some cs \<Rightarrow> map command_map cs | None \<Rightarrow> cf_server_launch cf) @ map command_map (cf_post_launch cf))"

definition reset_commands :: "session_config \<Rightarrow> jstr list" where
  "reset_commands cf = map command_map (cf_pre_reset cf) @
     (case cf_override_reset cf of Some cs \<Rightarrow> map command_map cs | None \<Rightarrow> cf_server_reset cf) @ map command_map (cf_post_reset cf)"

text \<open>What a mode sends once the target is there, whether it continues then, and whether it waits before it.\<close>

definition mode_plan :: "session_config \<Rightarrow> session_mode \<Rightarrow> jstr list \<times> bool \<times> bool" where
  "mode_plan cf mode =
     (if mode = ModeAttach then ([], cf_no_debug cf, False)
      else let cmds = map command_map (if mode = ModeReset then cf_post_reset_session cf else cf_post_start_session cf) in
        if cf_no_debug cf then ([], True, False)
        else (case cf_entry cf of
          Some e \<Rightarrow> ((''-break-insert -t '' @ e) # cmds, True, cmds \<noteq> [])
        | None \<Rightarrow> (cmds, \<not> cf_break_after_reset cf, cmds \<noteq> [])))"

subsection \<open>The debug console\<close>

function split_ws :: "jstr \<Rightarrow> jstr list" where
  "split_ws s = takeWhile (\<lambda>c. \<not> js_ws c) s #
     (case dropWhile (\<lambda>c. \<not> js_ws c) s of [] \<Rightarrow> [] | c # r \<Rightarrow> split_ws (dropWhile js_ws r))"
  by pat_completeness auto

termination
proof (relation "measure length")
  fix s r :: jstr and c assume "dropWhile (\<lambda>c. \<not> js_ws c) s = c # r"
  then have "length (c # r) \<le> length s" by (metis length_dropWhile_le)
  then show "(dropWhile js_ws r, s) \<in> measure length" using length_dropWhile_le[of js_ws r] by simp
qed simp

text \<open>
  The words the console maps are looked up in an object literal, which inherits the properties of all objects: such a
  word is mapped to the text of a function.
\<close>

definition inherited_names :: "jstr list" where
  "inherited_names = [''hasOwnProperty'', ''isPrototypeOf'', ''propertyIsEnumerable'', ''toLocaleString'', ''toString'', ''valueOf'',
     ''__defineGetter__'', ''__defineSetter__'', ''__lookupGetter__'', ''__lookupSetter__'']"

definition native_text :: "jstr \<Rightarrow> jstr" where
  "native_text f = ''function '' @ f @ ''() { [native code] }''"

definition repl_mapping :: "jstr \<Rightarrow> jstr option" where
  "repl_mapping w = (if w \<in> set continue_words then Some ''-exec-continue''
     else if w \<in> set inherited_names then Some (native_text w)
     else if w = ''constructor'' then Some (native_text ''Object'')
     else if w = ''__proto__'' then Some ''[object Object]'' else None)"

text \<open>A line of the console: whether it is for the GDB of the live watch, and the command it becomes.\<close>

definition repl_command :: "jstr \<Rightarrow> bool \<times> jstr" where
  "repl_command expr =
     (let expr = escape_quotes (js_trim expr);
          live = starts_with ''+'' expr;
          expr = (if live then js_trim (tl expr) else expr);
          splits = split_ws expr;
          expr = (case repl_mapping (hd splits) of Some c \<Rightarrow> c @ '' '' @ join_with '' '' (tl splits) | None \<Rightarrow> expr)
      in (live, if starts_with ''-'' expr then expr else console_cmd expr))"

subsection \<open>Tasks\<close>

datatype run_cmd = RunContinue | RunNext | RunStepIn | RunStepOut

fun run_cmd_text :: "run_cmd \<Rightarrow> jstr" where
  "run_cmd_text RunContinue = ''-exec-continue''"
| "run_cmd_text RunNext = ''-exec-next''"
| "run_cmd_text RunStepIn = ''-exec-step''"
| "run_cmd_text RunStepOut = ''-exec-finish''"

text \<open>The awaits of \<open>runSessionModeCommands\<close>, of a launch and of the end of a session.\<close>

datatype mode_phase = MSwo "jstr list" | MCommands "jstr list" bool bool | MDelay bool | MFlush | MFlushOld

datatype mode_origin = FromLaunch nat | FromReset nat

datatype launch_phase = LGdb | LServer | LPreConnect | LSwo | LConnect "jstr list" | LTarget | LAfterConnect "jstr list" | LTail

datatype end_phase = ELive | EInterrupt | EWait | EBreakpoints | EPreEnd "jstr list" | EDetach | EDisconnect | EStop | EServer | EDone

datatype task =
    JClear nat
  | JRun run_cmd nat
  | JPause nat
  | JGoto nat
  | JAuto
  | JBreakpoints nat
  | JDelegate nat
  | JCommand nat
  | JThreads nat
  | JStack nat num mi_thread
  | JReset nat "jstr list"
  | JMode mode_origin mode_phase
  | JPreConnect "jstr list"
  | JLaunch nat launch_phase
  | JEnd nat bool end_phase

text \<open>The request a task will answer. A launch is answered before its last await.\<close>

fun origin_owes :: "mode_origin \<Rightarrow> nat multiset" where
  "origin_owes (FromLaunch q) = {#}"
| "origin_owes (FromReset q) = {#q#}"

fun task_owes :: "task \<Rightarrow> nat multiset" where
  "task_owes (JClear q) = {#q#}"
| "task_owes (JRun c q) = {#q#}"
| "task_owes (JPause q) = {#q#}"
| "task_owes (JGoto q) = {#q#}"
| "task_owes JAuto = {#}"
| "task_owes (JBreakpoints q) = {#q#}"
| "task_owes (JDelegate q) = {#q#}"
| "task_owes (JCommand q) = {#q#}"
| "task_owes (JThreads q) = {#q#}"
| "task_owes (JStack q t th) = {#q#}"
| "task_owes (JReset q cs) = {#q#}"
| "task_owes (JMode origin p) = origin_owes origin"
| "task_owes (JPreConnect cs) = {#}"
| "task_owes (JLaunch q p) = (if p = LTail then {#} else {#q#})"
| "task_owes (JEnd q d p) = {#q#}"

subsection \<open>The session\<close>

record debug =
  db_running :: bool
  db_gdb :: bool
  db_continuing :: bool
  db_suppress :: bool
  db_configured :: bool
  db_restarting :: bool
  db_ending :: bool
  db_mode :: session_mode
  db_waiting :: nat
  db_stopped_thread :: num
  db_threads :: thread_list
  db_pre :: "answer option"
  db_tasks :: "task list"

definition debug_new :: debug where
  "debug_new = \<lparr>db_running = False, db_gdb = True, db_continuing = False, db_suppress = True, db_configured = False, db_restarting = False,
     db_ending = False, db_mode = ModeLaunch, db_waiting = 0, db_stopped_thread = Some 1, db_threads = threads_empty, db_pre = None, db_tasks = []\<rparr>"

text \<open>
  What the session does: sends a command to GDB, asks another component, answers a request, tells the client.
  \<open>ToldContinued\<close> stands for the event of the protocol and the custom one that follows it. An event sent after a delay
  is listed where the delay begins.
\<close>

datatype debug_out =
    Send jstr task
  | SendLive jstr task
  | Ask task
  | Answer nat
  | AnswerError nat
  | AnswerBusy nat
  | AnswerThreads nat "mi_thread list"
  | AnswerAnyThread nat num
  | AnswerFrames nat num "mi_frame list"
  | ToldStopped jstr num
  | ToldStoppedCustom jstr num
  | ToldContinued num
  | ToldTerminated
  | ToldThread jstr num
  | ToldInitialized
  | ToldStarted jstr
  | ToldSession jstr
  | ToldPopup

type_synonym dstep = "debug \<times> debug_out list"

definition is_busy :: "debug \<Rightarrow> bool" where
  "is_busy d = (db_continuing d \<or> db_gdb d \<and> db_running d)"

definition is_running :: "debug \<Rightarrow> bool" where
  "is_running d = (db_gdb d \<and> db_running d)"

definition await_task :: "task \<Rightarrow> debug \<Rightarrow> debug" where
  "await_task j d = d\<lparr>db_tasks := j # db_tasks d\<rparr>"

definition send_task :: "jstr \<Rightarrow> task \<Rightarrow> debug \<Rightarrow> dstep" where
  "send_task c j d = (await_task j d, [Send c j])"

definition ask_task :: "task \<Rightarrow> debug \<Rightarrow> dstep" where
  "ask_task j d = (await_task j d, [Ask j])"

text \<open>What comes after a step.\<close>

definition and_then :: "dstep \<Rightarrow> (debug \<Rightarrow> dstep) \<Rightarrow> dstep" where
  "and_then x f = (let (d, out) = x; (d, out') = f d in (d, out @ out'))"

subsection \<open>Stops and starts of the target\<close>

definition quit_event :: "debug \<Rightarrow> dstep" where
  "quit_event d = (d, if db_restarting d then [] else [ToldTerminated])"

definition notify_stopped :: "jstr \<Rightarrow> bool \<Rightarrow> debug \<Rightarrow> dstep" where
  "notify_stopped reason client d =
     (d, (if client then [ToldStopped (if reason = [] then ''breakpoint'' else reason) (db_stopped_thread d)] else [])
       @ [ToldStoppedCustom reason (db_stopped_thread d)])"

text \<open>\<open>stopEvent\<close>: without a record the thread is taken to be the first.\<close>

definition stop_event :: "session_config \<Rightarrow> (jstr \<times> mi_value) list option \<Rightarrow> jstr option \<Rightarrow> debug \<Rightarrow> dstep" where
  "stop_event cf info reason d =
     (let d = d\<lparr>db_stopped_thread := (case info of None \<Rightarrow> Some 1 | Some rs \<Rightarrow> parse_int (text_else (text_fields rs) ''thread-id'' ''1'')),
                db_threads := parse_stopped_thread_info (case info of None \<Rightarrow> [] | Some rs \<Rightarrow> rs)\<rparr>
      in if db_suppress d then (d, [])
         else if reason = Some ''exited'' \<or> reason = Some ''exited-normally'' then quit_event d
         else notify_stopped (case reason of None \<Rightarrow> ''breakpoint'' | Some r \<Rightarrow> r) (\<not> cf_no_debug cf \<and> reason \<noteq> Some ''entry'') d)"

definition running_internal :: "debug \<Rightarrow> dstep" where
  "running_internal d = (d, [ToldContinued (case tl_current (db_threads d) of Some (Suc n) \<Rightarrow> Some (Suc n) | _ \<Rightarrow> Some 1)])"

definition handle_running :: "debug \<Rightarrow> dstep" where
  "handle_running d = running_internal (d\<lparr>db_continuing := False\<rparr>)"

subsection \<open>What a session mode does\<close>

definition try_continue :: "debug \<Rightarrow> dstep" where
  "try_continue d = send_task (run_cmd_text RunContinue) JAuto (d\<lparr>db_continuing := True\<rparr>)"

text \<open>\<open>sendContinueWhenPossible\<close>, and its listeners when the configuration is done.\<close>

definition continue_when_possible :: "debug \<Rightarrow> dstep" where
  "continue_when_possible d =
     (if \<not> db_configured d then (d\<lparr>db_waiting := db_waiting d + 1\<rparr>, [])
      else if is_running d then (d, []) else try_continue d)"

fun fire_listeners :: "nat \<Rightarrow> debug \<Rightarrow> dstep" where
  "fire_listeners 0 d = (d, [])"
| "fire_listeners (Suc n) d = and_then (if is_running d then (d, []) else try_continue d) (fire_listeners n)"

definition configuration_done :: "nat \<Rightarrow> debug \<Rightarrow> dstep" where
  "configuration_done q d =
     and_then (fire_listeners (db_waiting d) (d\<lparr>db_configured := True, db_waiting := 0\<rparr>)) (\<lambda>d. (d, [Answer q]))"

definition mode_done :: "mode_origin \<Rightarrow> debug \<Rightarrow> dstep" where
  "mode_done origin d = (case origin of FromLaunch q \<Rightarrow> ask_task (JLaunch q LTail) d | FromReset q \<Rightarrow> (d, [Answer q]))"

definition mode_tell :: "session_config \<Rightarrow> mode_origin \<Rightarrow> debug \<Rightarrow> dstep" where
  "mode_tell cf origin d =
     and_then (if is_running d then running_internal d else stop_event cf None (Some ''Reset'') d) (mode_done origin)"

definition mode_finish :: "mode_origin \<Rightarrow> bool \<Rightarrow> debug \<Rightarrow> dstep" where
  "mode_finish origin continue d =
     (if continue then and_then (continue_when_possible d) (mode_done origin)
      else send_task (console_cmd ''maintenance flush register-cache'') (JMode origin MFlush) d)"

definition mode_ready :: "mode_origin \<Rightarrow> bool \<Rightarrow> bool \<Rightarrow> debug \<Rightarrow> dstep" where
  "mode_ready origin continue delay d =
     (let d = d\<lparr>db_suppress := False\<rparr> in if delay then ask_task (JMode origin (MDelay continue)) d else mode_finish origin continue d)"

definition mode_commands :: "mode_origin \<Rightarrow> jstr list \<Rightarrow> bool \<Rightarrow> bool \<Rightarrow> debug \<Rightarrow> dstep" where
  "mode_commands origin cmds continue delay d = (case cmds of
     [] \<Rightarrow> mode_ready origin continue delay d
   | c # _ \<Rightarrow> send_task c (JMode origin (MCommands cmds continue delay)) d)"

definition mode_planned :: "session_config \<Rightarrow> mode_origin \<Rightarrow> debug \<Rightarrow> dstep" where
  "mode_planned cf origin d = (case mode_plan cf (db_mode d) of (cmds, continue, delay) \<Rightarrow> mode_commands origin cmds continue delay d)"

definition mode_swo :: "session_config \<Rightarrow> mode_origin \<Rightarrow> jstr list \<Rightarrow> debug \<Rightarrow> dstep" where
  "mode_swo cf origin cmds d = (case cmds of [] \<Rightarrow> mode_planned cf origin d | c # _ \<Rightarrow> send_task c (JMode origin (MSwo cmds)) d)"

fun mode_answered :: "session_config \<Rightarrow> mode_origin \<Rightarrow> mode_phase \<Rightarrow> answer \<Rightarrow> debug \<Rightarrow> dstep" where
  "mode_answered cf origin (MSwo cmds) (GdbDone _) d = mode_swo cf origin (tl cmds) d"
| "mode_answered cf origin (MSwo cmds) (GdbError _) d = and_then (d, [ToldPopup]) (mode_planned cf origin)"
| "mode_answered cf origin (MCommands cmds continue delay) (GdbDone _) d = mode_commands origin (tl cmds) continue delay d"
| "mode_answered cf origin (MCommands cmds continue delay) (GdbError _) d = mode_ready origin continue delay d"
| "mode_answered cf origin (MDelay continue) _ d = mode_finish origin continue d"
| "mode_answered cf origin MFlush (GdbDone _) d = mode_tell cf origin d"
| "mode_answered cf origin MFlush (GdbError _) d = send_task (console_cmd ''flushregs'') (JMode origin MFlushOld) d"
| "mode_answered cf origin MFlushOld _ d = mode_tell cf origin d"

subsection \<open>Launch\<close>

definition launch_ready :: "session_config \<Rightarrow> nat \<Rightarrow> debug \<Rightarrow> dstep" where
  "launch_ready cf q d = and_then (d, [Answer q, ToldInitialized, ToldStarted ''post-start-gdb''])
     (\<lambda>d. if is_running d then ask_task (JLaunch q LTail) (d\<lparr>db_suppress := False\<rparr>) else mode_swo cf (FromLaunch q) (cf_swo_rtt cf) d)"

definition launch_connected :: "session_config \<Rightarrow> nat \<Rightarrow> jstr list \<Rightarrow> debug \<Rightarrow> dstep" where
  "launch_connected cf q cmds d = (case cmds of [] \<Rightarrow> launch_ready cf q d | c # _ \<Rightarrow> send_task c (JLaunch q (LAfterConnect cmds)) d)"

definition launch_connect :: "nat \<Rightarrow> jstr list \<Rightarrow> debug \<Rightarrow> dstep" where
  "launch_connect q cmds d = (case cmds of [] \<Rightarrow> ask_task (JLaunch q LTarget) d | c # _ \<Rightarrow> send_task c (JLaunch q (LConnect cmds)) d)"

definition pre_connect :: "jstr list \<Rightarrow> debug \<Rightarrow> dstep" where
  "pre_connect cmds d = (case cmds of [] \<Rightarrow> (d\<lparr>db_pre := Some (GdbDone [])\<rparr>, []) | c # _ \<Rightarrow> send_task c (JPreConnect cmds) d)"

text \<open>The commands before the connection run beside the start of the server; their outcome is awaited after it.\<close>

fun launch_answered :: "session_config \<Rightarrow> nat \<Rightarrow> launch_phase \<Rightarrow> answer \<Rightarrow> debug \<Rightarrow> dstep" where
  "launch_answered cf q LTail (GdbDone _) d = (d, [ToldStarted ''post-initialized''])"
| "launch_answered cf q LTail (GdbError _) d = (d, [])"
| "launch_answered cf q LPreConnect _ d = (case db_pre d of
     None \<Rightarrow> (await_task (JLaunch q LPreConnect) d, [])
   | Some (GdbDone _) \<Rightarrow> ask_task (JLaunch q LSwo) d
   | Some (GdbError _) \<Rightarrow> (d, [AnswerError q]))"
| "launch_answered cf q _ (GdbError _) d = (d, [AnswerError q])"
| "launch_answered cf q LGdb (GdbDone _) d = and_then (pre_connect (cf_pre_connect cf) d) (ask_task (JLaunch q LServer))"
| "launch_answered cf q LServer (GdbDone _) d = ask_task (JLaunch q LPreConnect) d"
| "launch_answered cf q LSwo (GdbDone _) d = and_then (d, [ToldStarted ''post-start-server'']) (launch_connect q (connect_commands_pre cf (db_mode d)))"
| "launch_answered cf q (LConnect cmds) (GdbDone _) d = launch_connect q (tl cmds) d"
| "launch_answered cf q LTarget (GdbDone _) d = launch_connected cf q (connect_commands_post cf (db_mode d)) d"
| "launch_answered cf q (LAfterConnect cmds) (GdbDone _) d = launch_connected cf q (tl cmds) d"

subsection \<open>The end of the session\<close>

definition end_done :: "nat \<Rightarrow> bool \<Rightarrow> debug \<Rightarrow> dstep" where
  "end_done q detach d = ask_task (JEnd q detach EDone) d"

definition end_stop :: "nat \<Rightarrow> bool \<Rightarrow> debug \<Rightarrow> dstep" where
  "end_stop q detach d = ask_task (JEnd q detach EStop) d"

definition end_disconnect :: "nat \<Rightarrow> bool \<Rightarrow> debug \<Rightarrow> dstep" where
  "end_disconnect q detach d = send_task ''-target-disconnect'' (JEnd q detach EDisconnect) d"

definition end_commands :: "nat \<Rightarrow> bool \<Rightarrow> jstr list \<Rightarrow> debug \<Rightarrow> dstep" where
  "end_commands q detach cmds d = (case cmds of
     [] \<Rightarrow> if detach then send_task ''-target-detach'' (JEnd q detach EDetach) d else end_disconnect q detach d
   | c # _ \<Rightarrow> send_task (command_map c) (JEnd q detach (EPreEnd cmds)) d)"

definition end_breakpoints :: "nat \<Rightarrow> bool \<Rightarrow> debug \<Rightarrow> dstep" where
  "end_breakpoints q detach d = ask_task (JEnd q detach EBreakpoints) d"

definition end_gdb :: "nat \<Rightarrow> bool \<Rightarrow> debug \<Rightarrow> dstep" where
  "end_gdb q detach d =
     (if \<not> db_gdb d then ask_task (JEnd q detach EServer) d
      else if is_running d then send_task ''-exec-interrupt'' (JEnd q detach EInterrupt) d else end_breakpoints q detach d)"

definition finish_session :: "session_config \<Rightarrow> nat \<Rightarrow> bool \<Rightarrow> debug \<Rightarrow> dstep" where
  "finish_session cf q detach d =
     (if db_ending d then end_done q detach d
      else let d = d\<lparr>db_ending := True, db_suppress := True\<rparr> in
        if cf_live cf then ask_task (JEnd q detach ELive) d else end_gdb q detach d)"

fun end_answered :: "session_config \<Rightarrow> nat \<Rightarrow> bool \<Rightarrow> end_phase \<Rightarrow> answer \<Rightarrow> debug \<Rightarrow> dstep" where
  "end_answered cf q detach ELive (GdbDone _) d = end_gdb q detach d"
| "end_answered cf q detach ELive (GdbError _) d = end_done q detach d"
| "end_answered cf q detach EInterrupt (GdbDone _) d = ask_task (JEnd q detach EWait) d"
| "end_answered cf q detach EInterrupt (GdbError _) d = end_breakpoints q detach d"
| "end_answered cf q detach EWait _ d = end_breakpoints q detach d"
| "end_answered cf q detach EBreakpoints _ d = end_commands q detach (cf_pre_end cf) d"
| "end_answered cf q detach (EPreEnd cmds) _ d = end_commands q detach (tl cmds) d"
| "end_answered cf q detach EDetach (GdbDone _) d = end_disconnect q detach d"
| "end_answered cf q detach EDetach (GdbError _) d = end_stop q detach d"
| "end_answered cf q detach EDisconnect _ d = end_stop q detach d"
| "end_answered cf q detach EStop (GdbDone _) d = ask_task (JEnd q detach EServer) (d\<lparr>db_gdb := False\<rparr>)"
| "end_answered cf q detach EStop (GdbError _) d = end_done q detach d"
| "end_answered cf q detach EServer _ d = end_done q detach d"
| "end_answered cf q detach EDone _ d = (d, Answer q # (if db_restarting d then [] else [ToldTerminated]))"

subsection \<open>Requests\<close>

text \<open>
  The requests by what the session does with them. \<open>RqScopes\<close> and \<open>RqInspect\<close> go to the variables and the memory,
  \<open>RqDelegate\<close> to the live watch, \<open>RqController\<close> was taken by the server controller, \<open>RqSimple\<close> has only a response, and
  \<open>RqStepBack\<close> and \<open>RqDisassembleCustom\<close> have an empty handler. \<open>RqGoto\<close> has the command unless the file is missing.
\<close>

datatype debug_req =
    RqLaunch
  | RqAttach
  | RqDisconnect bool bool
  | RqTerminate
  | RqRestart
  | RqConfigurationDone
  | RqRun run_cmd
  | RqPause
  | RqThreads
  | RqStack num nat nat
  | RqBreakpoints
  | RqScopes
  | RqInspect
  | RqEvaluate bool jstr
  | RqGoto "jstr option"
  | RqSimple
  | RqStepBack
  | RqReset
  | RqExecute jstr
  | RqDelegate
  | RqController
  | RqDisassembleCustom
  | RqStopDebugging bool bool

definition run_request :: "run_cmd \<Rightarrow> nat \<Rightarrow> debug \<Rightarrow> dstep" where
  "run_request c q d =
     (if c = RunContinue then (if is_busy d then (d, [AnswerBusy q]) else ask_task (JClear q) d)
      else send_task (run_cmd_text c) (JRun c q) (d\<lparr>db_continuing := True\<rparr>))"

definition threads_request :: "nat \<Rightarrow> debug \<Rightarrow> dstep" where
  "threads_request q d =
     (if is_busy d
      then (d, [case sorted_threads (db_threads d) of
          [] \<Rightarrow> AnswerAnyThread q (case tl_current (db_threads d) of Some (Suc n) \<Rightarrow> Some (Suc n) | _ \<Rightarrow> Some 1)
        | ths \<Rightarrow> AnswerThreads q ths])
      else send_task ''-thread-info'' (JThreads q) d)"

definition stack_request :: "nat \<Rightarrow> num \<Rightarrow> nat \<Rightarrow> nat \<Rightarrow> debug \<Rightarrow> dstep" where
  "stack_request q tid start levels d =
     (if is_busy d then (d, [Answer q])
      else if tl_fake (db_threads d)
      then (d, [case tl_threads (db_threads d) of [] \<Rightarrow> AnswerFrames q None [] | (_, th) # _ \<Rightarrow> AnswerFrames q (th_id th) (th_frames th)])
      else (case map_of (tl_threads (db_threads d)) tid of
          None \<Rightarrow> (d, [Answer q])
        | Some th \<Rightarrow> send_task (stack_list_cmd tid start (start + (if levels = 0 then 40 else levels))) (JStack q tid th) d))"

definition evaluate_request :: "session_config \<Rightarrow> nat \<Rightarrow> bool \<Rightarrow> jstr \<Rightarrow> debug \<Rightarrow> dstep" where
  "evaluate_request cf q repl expr d =
     (if \<not> repl then (if is_busy d then (d, [AnswerBusy q]) else ask_task (JDelegate q) d)
      else case repl_command expr of (live, cmd) \<Rightarrow>
        if \<not> live then send_task cmd (JCommand q) d
        else if cf_live cf then (await_task (JCommand q) d, [SendLive cmd (JCommand q)]) else (d, [AnswerError q]))"

definition reset_commands_done :: "session_config \<Rightarrow> nat \<Rightarrow> debug \<Rightarrow> dstep" where
  "reset_commands_done cf q d =
     and_then (d, if cf_chained cf then [ToldSession ''session-reset''] else []) (mode_swo cf (FromReset q) (cf_swo_rtt cf))"

definition reset_send :: "session_config \<Rightarrow> nat \<Rightarrow> jstr list \<Rightarrow> debug \<Rightarrow> dstep" where
  "reset_send cf q cmds d = (case cmds of [] \<Rightarrow> reset_commands_done cf q d | c # _ \<Rightarrow> send_task c (JReset q cmds) d)"

definition reset_request :: "session_config \<Rightarrow> nat \<Rightarrow> debug \<Rightarrow> dstep" where
  "reset_request cf q d = reset_send cf q (reset_commands cf) (d\<lparr>db_suppress := True, db_mode := ModeReset\<rparr>)"

text \<open>A client that ends the session may ask to terminate or to suspend the target; otherwise GDB detaches from it.\<close>

definition disconnect_request :: "session_config \<Rightarrow> nat \<Rightarrow> bool \<Rightarrow> bool \<Rightarrow> debug \<Rightarrow> dstep" where
  "disconnect_request cf q terminate suspend d =
     and_then (d, if cf_chained cf then [ToldSession ''session-terminating''] else []) (finish_session cf q (\<not> terminate \<and> \<not> suspend))"

fun handle_request :: "session_config \<Rightarrow> nat \<Rightarrow> debug_req \<Rightarrow> debug \<Rightarrow> dstep" where
  "handle_request cf q RqLaunch d = ask_task (JLaunch q LGdb) (d\<lparr>db_mode := ModeLaunch\<rparr>)"
| "handle_request cf q RqAttach d = ask_task (JLaunch q LGdb) (d\<lparr>db_mode := ModeAttach\<rparr>)"
| "handle_request cf q (RqDisconnect terminate suspend) d = disconnect_request cf q terminate suspend d"
| "handle_request cf q RqTerminate d = finish_session cf q False d"
| "handle_request cf q RqRestart d = finish_session cf q False (d\<lparr>db_restarting := True\<rparr>)"
| "handle_request cf q RqConfigurationDone d = configuration_done q d"
| "handle_request cf q (RqRun c) d = run_request c q d"
| "handle_request cf q RqPause d = send_task ''-exec-interrupt'' (JPause q) d"
| "handle_request cf q RqThreads d = threads_request q d"
| "handle_request cf q (RqStack tid start levels) d = stack_request q tid start levels d"
| "handle_request cf q RqBreakpoints d = ask_task (JBreakpoints q) (d\<lparr>db_suppress := is_running d\<rparr>)"
| "handle_request cf q RqScopes d = (if is_busy d \<or> tl_fake (db_threads d) then (d, [Answer q]) else ask_task (JDelegate q) d)"
| "handle_request cf q RqInspect d = (if is_busy d then (d, [AnswerBusy q]) else ask_task (JDelegate q) d)"
| "handle_request cf q (RqEvaluate repl expr) d = evaluate_request cf q repl expr d"
| "handle_request cf q (RqGoto cmd) d = (case cmd of None \<Rightarrow> (d, [AnswerError q]) | Some c \<Rightarrow> send_task c (JGoto q) (d\<lparr>db_continuing := True\<rparr>))"
| "handle_request cf q RqSimple d = (d, [Answer q])"
| "handle_request cf q RqStepBack d = (d, [])"
| "handle_request cf q RqReset d = reset_request cf q d"
| "handle_request cf q (RqExecute c) d = (if c = [] then (d, []) else send_task (command_map c) (JCommand q) d)"
| "handle_request cf q RqDelegate d = ask_task (JDelegate q) d"
| "handle_request cf q RqController d = (d, [AnswerError q])"
| "handle_request cf q RqDisassembleCustom d = (d, [])"
| "handle_request cf q (RqStopDebugging terminate suspend) d = finish_session cf q (\<not> terminate \<and> \<not> suspend) d"

definition answer_with :: "nat \<Rightarrow> answer \<Rightarrow> debug_out" where
  "answer_with q a = (case a of GdbDone rs \<Rightarrow> Answer q | GdbError e \<Rightarrow> AnswerError q)"

text \<open>Clearing the variables swallows all errors.\<close>

fun answered :: "session_config \<Rightarrow> task \<Rightarrow> answer \<Rightarrow> debug \<Rightarrow> dstep" where
  "answered cf (JClear q) a d = send_task (run_cmd_text RunContinue) (JRun RunContinue q) (d\<lparr>db_continuing := True\<rparr>)"
| "answered cf (JRun c q) a d = (case a of GdbDone rs \<Rightarrow> (d, [Answer q]) | GdbError e \<Rightarrow> (d\<lparr>db_continuing := False\<rparr>, [AnswerError q]))"
| "answered cf (JPause q) a d = (d, [answer_with q a])"
| "answered cf (JGoto q) a d = (d, [answer_with q a])"
| "answered cf JAuto a d = (d, [])"
| "answered cf (JBreakpoints q) a d = (d\<lparr>db_suppress := False\<rparr>, [answer_with q a])"
| "answered cf (JDelegate q) a d = (d, [answer_with q a])"
| "answered cf (JCommand q) a d = (d, [answer_with q a])"
| "answered cf (JThreads q) a d = (case thread_info_all a of
     Inl e \<Rightarrow> (d, [AnswerError q]) | Inr ts \<Rightarrow> (d\<lparr>db_threads := ts\<rparr>, [AnswerThreads q (sorted_threads ts)]))"
| "answered cf (JStack q tid th) a d = (case list_frames a th of
     (th, err) \<Rightarrow> (if tl_fake (db_threads d) then d else d\<lparr>db_threads := update_thread tid th (db_threads d)\<rparr>,
       [case err of None \<Rightarrow> AnswerFrames q tid (th_frames th) | Some e \<Rightarrow> AnswerError q]))"
| "answered cf (JReset q cmds) a d = (case a of GdbDone rs \<Rightarrow> reset_send cf q (tl cmds) d | GdbError e \<Rightarrow> (d, [AnswerError q]))"
| "answered cf (JMode origin p) a d = mode_answered cf origin p a d"
| "answered cf (JPreConnect cmds) a d = (case a of GdbDone rs \<Rightarrow> pre_connect (tl cmds) d | GdbError e \<Rightarrow> (d\<lparr>db_pre := Some a\<rparr>, []))"
| "answered cf (JLaunch q p) a d = launch_answered cf q p a d"
| "answered cf (JEnd q detach p) a d = end_answered cf q detach p a d"

subsection \<open>Runs\<close>

datatype debug_event =
    Request nat debug_req
  | Answered task answer
  | GdbRuns
  | GdbStops "(jstr \<times> mi_value) list" "jstr option"
  | GdbQuits
  | ServerExits
  | GdbThread jstr "jstr option"

text \<open>
  GDB reports the end of the program twice: its event \<open>exited-normally\<close> comes before the stop. After the session
  stopped GDB there are no more events of it.
\<close>

definition gdb_stops :: "session_config \<Rightarrow> (jstr \<times> mi_value) list \<Rightarrow> jstr option \<Rightarrow> debug \<Rightarrow> dstep" where
  "gdb_stops cf rs reason d =
     (let d = d\<lparr>db_running := False\<rparr> in
        and_then (if reason = Some ''exited'' \<or> reason = Some ''exited-normally'' then quit_event d else (d, []))
          (stop_event cf (Some rs) reason))"

fun debug_step :: "session_config \<Rightarrow> debug \<Rightarrow> debug_event \<Rightarrow> dstep" where
  "debug_step cf d (Request q r) = handle_request cf q r d"
| "debug_step cf d (Answered j a) = (if j \<in> set (db_tasks d) then answered cf j a (d\<lparr>db_tasks := remove1 j (db_tasks d)\<rparr>) else (d, []))"
| "debug_step cf d GdbRuns = (if db_gdb d then handle_running (d\<lparr>db_running := True\<rparr>) else (d, []))"
| "debug_step cf d (GdbStops rs reason) = (if db_gdb d then gdb_stops cf rs reason d else (d, []))"
| "debug_step cf d GdbQuits = (if db_gdb d then quit_event d else (d, []))"
| "debug_step cf d ServerExits = (d, [ToldTerminated])"
| "debug_step cf d (GdbThread what tid) = (d, case tid of Some t \<Rightarrow> (if db_gdb d \<and> t \<noteq> [] then [ToldThread what (parse_int t)] else []) | None \<Rightarrow> [])"

fun debug_run :: "session_config \<Rightarrow> debug \<Rightarrow> debug_event list \<Rightarrow> dstep" where
  "debug_run cf d [] = (d, [])"
| "debug_run cf d (e # es) = and_then (debug_step cf d e) (\<lambda>d. debug_run cf d es)"

subsection \<open>What holds of every step\<close>

definition owed :: "debug \<Rightarrow> nat multiset" where
  "owed d = sum_list (map task_owes (db_tasks d))"

fun answer_ids :: "debug_out list \<Rightarrow> nat multiset" where
  "answer_ids [] = {#}"
| "answer_ids (Answer q # out) = add_mset q (answer_ids out)"
| "answer_ids (AnswerError q # out) = add_mset q (answer_ids out)"
| "answer_ids (AnswerBusy q # out) = add_mset q (answer_ids out)"
| "answer_ids (AnswerThreads q ths # out) = add_mset q (answer_ids out)"
| "answer_ids (AnswerAnyThread q t # out) = add_mset q (answer_ids out)"
| "answer_ids (AnswerFrames q t frs # out) = add_mset q (answer_ids out)"
| "answer_ids (_ # out) = answer_ids out"

text \<open>Whether the client believes that the target is stopped, from what it was told.\<close>

fun shown_stopped :: "bool \<Rightarrow> debug_out list \<Rightarrow> bool" where
  "shown_stopped v [] = v"
| "shown_stopped v (ToldStopped r t # out) = shown_stopped True out"
| "shown_stopped v (ToldContinued t # out) = shown_stopped False out"
| "shown_stopped v (_ # out) = shown_stopped v out"

definition starts_target :: "debug_out list \<Rightarrow> bool" where
  "starts_target out \<longleftrightarrow> (\<exists>c. Send c JAuto \<in> set out)"

fun is_end :: "nat \<Rightarrow> task \<Rightarrow> bool" where
  "is_end q (JEnd q' detach p) = (q' = q)"
| "is_end q _ = False"

lemma answer_ids_append [simp]: "answer_ids (out @ out') = answer_ids out + answer_ids out'"
  by (induction out rule: answer_ids.induct) simp_all

lemma shown_append [simp]: "shown_stopped v (out @ out') = shown_stopped (shown_stopped v out) out'"
  by (induction v out rule: shown_stopped.induct) simp_all

lemma starts_simps [simp]:
  "\<not> starts_target []" "starts_target (o1 # out) \<longleftrightarrow> (\<exists>c. o1 = Send c JAuto) \<or> starts_target out"
  "starts_target (out @ out') \<longleftrightarrow> starts_target out \<or> starts_target out'"
  by (auto simp: starts_target_def)

text \<open>
  A step that settles \<open>k\<close>: the requests owed an answer, with the answers given, grow by \<open>k\<close>; nothing starts the target,
  and the client believes the target stopped only if it did before or it is; the program continues the target only in a
  configured session; the ends of sessions for other requests stay as they are.
\<close>

definition step_ok :: "debug \<Rightarrow> nat multiset \<Rightarrow> dstep \<Rightarrow> bool" where
  "step_ok d k x \<longleftrightarrow> owed (fst x) + answer_ids (snd x) = owed d + k \<and> (is_running (fst x) \<longrightarrow> is_running d) \<and>
     (\<forall>v. shown_stopped v (snd x) \<longrightarrow> v \<or> \<not> is_running (fst x)) \<and> db_configured (fst x) = db_configured d \<and>
     (starts_target (snd x) \<longrightarrow> db_configured (fst x)) \<and>
     (\<forall>q. q \<notin># k \<longrightarrow> filter (is_end q) (db_tasks (fst x)) = filter (is_end q) (db_tasks d))"

lemma step_ok_and_then:
  assumes "step_ok d k x" "step_ok (fst x) k' (f (fst x))" shows "step_ok d (k + k') (and_then x f)"
proof -
  obtain d1 out where x: "x = (d1, out)" by force
  obtain d2 out' where f: "f d1 = (d2, out')" by force
  note a = assms(1)[unfolded x step_ok_def fst_conv snd_conv]
  note b = assms(2)[unfolded x fst_conv f step_ok_def snd_conv]
  have "owed d2 + answer_ids (out @ out') = owed d + (k + k')"
    using conjunct1[OF a] conjunct1[OF b] by (simp add: ac_simps) (metis add.assoc add.commute)
  moreover have "\<forall>v. shown_stopped v (out @ out') \<longrightarrow> v \<or> \<not> is_running d2" using a b unfolding shown_append by blast
  moreover have "is_running d2 \<longrightarrow> is_running d" "db_configured d2 = db_configured d" "starts_target (out @ out') \<longrightarrow> db_configured d2"
    using a b by auto
  moreover have "\<forall>q. q \<notin># k + k' \<longrightarrow> filter (is_end q) (db_tasks d2) = filter (is_end q) (db_tasks d)" using a b by simp
  ultimately show ?thesis unfolding step_ok_def and_then_def x prod.case Let_def f fst_conv snd_conv by blast
qed

lemma step_ok_from:
  assumes "step_ok d' k x" "db_tasks d' = db_tasks d" "is_running d' \<Longrightarrow> is_running d" "db_configured d' = db_configured d"
  shows "step_ok d k x"
  using assms by (auto simp: step_ok_def owed_def)

lemma owed_simps [simp]:
  "owed (d\<lparr>db_running := b\<rparr>) = owed d" "owed (d\<lparr>db_gdb := b\<rparr>) = owed d" "owed (d\<lparr>db_continuing := b\<rparr>) = owed d" "owed (d\<lparr>db_suppress := b\<rparr>) = owed d"
  "owed (d\<lparr>db_configured := b\<rparr>) = owed d" "owed (d\<lparr>db_restarting := b\<rparr>) = owed d" "owed (d\<lparr>db_ending := b\<rparr>) = owed d" "owed (d\<lparr>db_mode := md\<rparr>) = owed d"
  "owed (d\<lparr>db_waiting := n\<rparr>) = owed d" "owed (d\<lparr>db_stopped_thread := t\<rparr>) = owed d" "owed (d\<lparr>db_threads := ts\<rparr>) = owed d" "owed (d\<lparr>db_pre := a\<rparr>) = owed d"
  "owed (d\<lparr>db_tasks := j # js\<rparr>) = task_owes j + owed (d\<lparr>db_tasks := js\<rparr>)" "owed (d\<lparr>db_tasks := db_tasks d\<rparr>) = owed d"
  by (simp_all add: owed_def)

lemma is_running_simps [simp]:
  "is_running (d\<lparr>db_continuing := b\<rparr>) = is_running d" "is_running (d\<lparr>db_suppress := b\<rparr>) = is_running d"
  "is_running (d\<lparr>db_configured := b\<rparr>) = is_running d" "is_running (d\<lparr>db_restarting := b\<rparr>) = is_running d" "is_running (d\<lparr>db_ending := b\<rparr>) = is_running d"
  "is_running (d\<lparr>db_mode := md\<rparr>) = is_running d" "is_running (d\<lparr>db_waiting := n\<rparr>) = is_running d" "is_running (d\<lparr>db_stopped_thread := t\<rparr>) = is_running d"
  "is_running (d\<lparr>db_threads := ts\<rparr>) = is_running d" "is_running (d\<lparr>db_pre := a\<rparr>) = is_running d" "is_running (d\<lparr>db_tasks := js\<rparr>) = is_running d"
  "\<not> is_running (d\<lparr>db_gdb := False\<rparr>)" "\<not> is_running (d\<lparr>db_running := False\<rparr>)"
  by (simp_all add: is_running_def)

named_theorems steps \<open>what each operation settles\<close>

lemma send_ok [steps]: "(j = JAuto \<Longrightarrow> db_configured d) \<Longrightarrow> step_ok d (task_owes j) (send_task c j d)"
  by (cases j) (auto simp: step_ok_def send_task_def await_task_def)

lemma ask_ok [steps]: "step_ok d (task_owes j) (ask_task j d)"
  by (cases j) (auto simp: step_ok_def ask_task_def await_task_def)

lemma tell_ok: "answer_ids out = k \<Longrightarrow> \<not> starts_target out \<Longrightarrow> (\<And>v. shown_stopped v out \<Longrightarrow> v \<or> \<not> is_running d) \<Longrightarrow> step_ok d k (d, out)"
  by (simp add: step_ok_def)

lemma then_at: "step_ok d {#} x \<Longrightarrow> step_ok (fst x) k (f (fst x)) \<Longrightarrow> step_ok d k (and_then x f)"
  using step_ok_and_then[of d "{#}" x k f] by simp

lemma then_first: "step_ok d {#} x \<Longrightarrow> (\<And>d. step_ok d k (f d)) \<Longrightarrow> step_ok d k (and_then x f)"
  by (rule then_at)

lemma then_last: "step_ok d k x \<Longrightarrow> step_ok (fst x) {#} (f (fst x)) \<Longrightarrow> step_ok d k (and_then x f)"
  using step_ok_and_then[of d k x "{#}" f] by simp

lemma stop_ok [steps]: "\<not> is_running d \<Longrightarrow> step_ok d {#} (stop_event cf info reason d)"
  by (auto simp: stop_event_def quit_event_def notify_stopped_def step_ok_def Let_def)

lemma quit_ok [steps]: "step_ok d {#} (quit_event d)"
  by (simp add: quit_event_def step_ok_def)

lemma running_ok [steps]: "step_ok d {#} (running_internal d)"
  by (simp add: running_internal_def step_ok_def)

lemma try_ok [steps]: "db_configured d \<Longrightarrow> step_ok d {#} (try_continue d)"
  unfolding try_continue_def by (rule step_ok_from[where d' = "d\<lparr>db_continuing := True\<rparr>"]) (use send_ok[of JAuto "d\<lparr>db_continuing := True\<rparr>"] in simp_all)

lemma idle_ok [steps]: "step_ok d {#} (d, [])"
  by (simp add: step_ok_def)

lemma continue_when_possible_ok [steps]: "step_ok d {#} (continue_when_possible d)"
proof -
  have "step_ok d {#} (d\<lparr>db_waiting := n\<rparr>, [])" for n by (simp add: step_ok_def)
  then show ?thesis by (simp add: continue_when_possible_def idle_ok try_ok)
qed

lemma fire_ok: "db_configured d \<Longrightarrow> step_ok d {#} (fire_listeners n d)"
proof (induction n arbitrary: d)
  case (Suc n)
  have 1: "step_ok d {#} (if is_running d then (d, []) else try_continue d)" using Suc.prems by (simp add: idle_ok try_ok)
  then have "db_configured (fst (if is_running d then (d, []) else try_continue d))" using Suc.prems unfolding step_ok_def by blast
  from Suc.IH[OF this] show ?case unfolding fire_listeners.simps by (rule then_at[OF 1])
qed (simp add: idle_ok)

lemma mode_done_ok [steps]: "step_ok d (origin_owes origin) (mode_done origin d)"
  using ask_ok[of d "JLaunch q LTail" for q] by (cases origin) (auto simp: mode_done_def step_ok_def[of _ _ "(_, _)"])

lemma mode_tell_ok [steps]: "step_ok d (origin_owes origin) (mode_tell cf origin d)"
  unfolding mode_tell_def by (rule then_first[OF _ mode_done_ok]) (simp add: running_ok stop_ok)

lemma mode_finish_ok [steps]: "step_ok d (origin_owes origin) (mode_finish origin continue d)"
  using send_ok[of "JMode origin MFlush" d] then_first[OF continue_when_possible_ok mode_done_ok]
  by (simp add: mode_finish_def)

lemma mode_ready_ok [steps]: "step_ok d (origin_owes origin) (mode_ready origin continue delay d)"
  unfolding mode_ready_def Let_def
  by (rule step_ok_from[where d' = "d\<lparr>db_suppress := False\<rparr>"]) (use ask_ok[of _ "JMode origin (MDelay continue)"] in \<open>simp_all add: mode_finish_ok\<close>)

lemma mode_commands_ok [steps]: "step_ok d (origin_owes origin) (mode_commands origin cmds continue delay d)"
  using send_ok[of "JMode origin (MCommands cmds continue delay)" d] by (cases cmds) (simp_all add: mode_commands_def mode_ready_ok)

lemma mode_planned_ok [steps]: "step_ok d (origin_owes origin) (mode_planned cf origin d)"
  by (simp add: mode_planned_def mode_commands_ok split: prod.split)

lemma mode_swo_ok [steps]: "step_ok d (origin_owes origin) (mode_swo cf origin cmds d)"
  using send_ok[of "JMode origin (MSwo cmds)" d] by (cases cmds) (simp_all add: mode_swo_def mode_planned_ok)

lemma mode_answered_ok: "step_ok d (origin_owes origin) (mode_answered cf origin p a d)"
proof -
  have "step_ok d (origin_owes origin) (and_then (d, [ToldPopup]) (mode_planned cf origin))"
    by (rule then_first) (simp_all add: mode_planned_ok step_ok_def[of _ _ "(_, _)"])
  then show ?thesis using send_ok[of "JMode origin MFlushOld" d]
    by (cases p; cases a) (simp_all add: mode_swo_ok mode_commands_ok mode_ready_ok mode_finish_ok mode_tell_ok)
qed

lemma launch_ready_ok [steps]: "step_ok d {#q#} (launch_ready cf q d)"
  unfolding launch_ready_def
proof (rule then_last)
  show "step_ok d {#q#} (d, [Answer q, ToldInitialized, ToldStarted ''post-start-gdb''])" by (simp add: step_ok_def)
  have "step_ok d {#} (ask_task (JLaunch q LTail) (d\<lparr>db_suppress := False\<rparr>))"
    by (rule step_ok_from[where d' = "d\<lparr>db_suppress := False\<rparr>"]) (use ask_ok[of "d\<lparr>db_suppress := False\<rparr>" "JLaunch q LTail"] in simp_all)
  then show "step_ok (fst (d, [Answer q, ToldInitialized, ToldStarted ''post-start-gdb''])) {#}
      (if is_running (fst (d, [Answer q, ToldInitialized, ToldStarted ''post-start-gdb'']))
       then ask_task (JLaunch q LTail) (fst (d, [Answer q, ToldInitialized, ToldStarted ''post-start-gdb''])\<lparr>db_suppress := False\<rparr>)
       else mode_swo cf (FromLaunch q) (cf_swo_rtt cf) (fst (d, [Answer q, ToldInitialized, ToldStarted ''post-start-gdb''])))"
    using mode_swo_ok[of d "FromLaunch q"] by simp
qed

lemma launch_connected_ok [steps]: "step_ok d {#q#} (launch_connected cf q cmds d)"
  using send_ok[of "JLaunch q (LAfterConnect cmds)" d] by (cases cmds) (simp_all add: launch_connected_def launch_ready_ok)

lemma launch_connect_ok [steps]: "step_ok d {#q#} (launch_connect q cmds d)"
  using send_ok[of "JLaunch q (LConnect cmds)" d] ask_ok[of d "JLaunch q LTarget"] by (cases cmds) (simp_all add: launch_connect_def)

lemma pre_connect_ok [steps]: "step_ok d {#} (pre_connect cmds d)"
proof -
  have "step_ok d {#} (d\<lparr>db_pre := a\<rparr>, [])" for a by (simp add: step_ok_def)
  then show ?thesis using send_ok[of "JPreConnect cmds" d] by (cases cmds) (simp_all add: pre_connect_def)
qed

lemma launch_answered_ok: "step_ok d (task_owes (JLaunch q p)) (launch_answered cf q p a d)"
proof -
  have "step_ok d {#q#} (and_then (pre_connect (cf_pre_connect cf) d) (ask_task (JLaunch q LServer)))"
    using ask_ok[of _ "JLaunch q LServer"] by (intro then_first pre_connect_ok) simp
  moreover have "step_ok d {#q#} (and_then (d, [ToldStarted ''post-start-server'']) (launch_connect q cmds))" for cmds
    by (rule then_first) (simp_all add: launch_connect_ok step_ok_def[of _ _ "(_, _)"])
  moreover have "step_ok d {#q#} (await_task (JLaunch q LPreConnect) d, [])" by (simp add: step_ok_def await_task_def)
  moreover note ask_ok[of d "JLaunch q LPreConnect"] ask_ok[of d "JLaunch q LSwo"]
  ultimately show ?thesis
    by (cases p; cases a) (auto simp: launch_connect_ok launch_connected_ok step_ok_def[of _ _ "(_, [])"] step_ok_def[of _ _ "(_, [_])"] split: option.split answer.split)
qed

lemmas end_defs = end_done_def end_stop_def end_disconnect_def end_breakpoints_def

lemma end_commands_ok [steps]: "step_ok d {#q#} (end_commands q detach cmds d)"
  using send_ok[of "JEnd q b p" d for b p] by (cases cmds) (simp_all add: end_commands_def end_defs)

lemma end_gdb_ok [steps]: "step_ok d {#q#} (end_gdb q detach d)"
  using send_ok[of "JEnd q detach p" d for p] ask_ok[of d "JEnd q detach p" for p] by (simp add: end_gdb_def end_defs)

lemma finish_session_ok [steps]: "step_ok d {#q#} (finish_session cf q detach d)"
proof -
  have "step_ok d {#q#} (if cf_live cf then ask_task (JEnd q detach ELive) d' else end_gdb q detach d')"
    if "d' = d\<lparr>db_ending := True, db_suppress := True\<rparr>" for d'
    by (rule step_ok_from[where d' = d']) (use that ask_ok[of d' "JEnd q detach ELive"] in \<open>simp_all add: end_gdb_ok\<close>)
  then show ?thesis using ask_ok[of d "JEnd q detach EDone"] by (simp add: finish_session_def end_defs Let_def)
qed

lemma end_answered_ok: "step_ok d {#q#} (end_answered cf q detach p a d)"
proof -
  have "step_ok d {#q#} (ask_task (JEnd q detach EServer) (d\<lparr>db_gdb := False\<rparr>))"
    by (rule step_ok_from[where d' = "d\<lparr>db_gdb := False\<rparr>"]) (use ask_ok[of "d\<lparr>db_gdb := False\<rparr>" "JEnd q detach EServer"] in simp_all)
  moreover have "step_ok d {#q#} (d, Answer q # (if db_restarting d then [] else [ToldTerminated]))" by (simp add: step_ok_def)
  ultimately show ?thesis
    using send_ok[of "JEnd q detach p" d for p] ask_ok[of d "JEnd q detach p" for p]
    by (cases p; cases a) (simp_all add: end_defs end_commands_ok end_gdb_ok)
qed

lemma reset_send_ok [steps]: "step_ok d {#q#} (reset_send cf q cmds d)"
proof -
  have "step_ok d {#q#} (reset_commands_done cf q d)"
    unfolding reset_commands_done_def
    by (rule then_first) (use mode_swo_ok[of _ "FromReset q"] in \<open>simp_all add: step_ok_def[of _ _ "(_, _)"]\<close>)
  then show ?thesis using send_ok[of "JReset q cmds" d] by (cases cmds) (simp_all add: reset_send_def)
qed

text \<open>A request whose handler does nothing is not answered.\<close>

fun answerable :: "debug_req \<Rightarrow> bool" where
  "answerable RqStepBack = False"
| "answerable RqDisassembleCustom = False"
| "answerable (RqExecute c) = (c \<noteq> [])"
| "answerable r = True"

definition asked :: "nat \<Rightarrow> debug_req \<Rightarrow> nat multiset" where
  "asked q r = (if answerable r then {#q#} else {#})"

lemma request_ok:
  assumes "r \<noteq> RqConfigurationDone" shows "step_ok d (asked q r) (handle_request cf q r d)"
proof -
  have with_field: "step_ok d {#q#} (ask_task j d')" "(j = JAuto \<Longrightarrow> db_configured d) \<Longrightarrow> step_ok d {#q#} (send_task c j d')"
    if "task_owes j = {#q#}" "db_tasks d' = db_tasks d" "is_running d' = is_running d" "db_configured d' = db_configured d" for j d' c
    using that ask_ok[of d' j] send_ok[of j d' c] by (auto intro: step_ok_from[where d' = d'])
  have ans: "step_ok d {#q#} (d, [o1])" if "answer_ids [o1] = {#q#}" "\<And>v. shown_stopped v [o1] = v" "\<And>c j. o1 \<noteq> Send c j" for o1
    using that by (simp add: step_ok_def)
  show ?thesis
  proof (cases r)
    case (RqDisconnect t s)
    have "step_ok d {#q#} (disconnect_request cf q t s d)" unfolding disconnect_request_def
      by (rule then_first) (simp_all add: finish_session_ok step_ok_def[of _ _ "(_, _)"])
    with RqDisconnect show ?thesis by (simp add: asked_def)
  next
    case RqRestart
    have "step_ok d {#q#} (finish_session cf q False (d\<lparr>db_restarting := True\<rparr>))"
      by (rule step_ok_from[where d' = "d\<lparr>db_restarting := True\<rparr>"]) (simp_all add: finish_session_ok)
    with RqRestart show ?thesis by (simp add: asked_def)
  next
    case RqReset
    have "step_ok d {#q#} (reset_request cf q d)" unfolding reset_request_def
      by (rule step_ok_from[where d' = "d\<lparr>db_suppress := True, db_mode := ModeReset\<rparr>"]) (simp_all add: reset_send_ok)
    with RqReset show ?thesis by (simp add: asked_def)
  next
    case RqThreads
    then show ?thesis by (auto simp: asked_def threads_request_def intro!: with_field ans split: list.split)
  next
    case (RqStack t s l)
    then show ?thesis by (auto simp: asked_def stack_request_def intro!: with_field ans split: list.split option.split)
  next
    case (RqEvaluate repl expr)
    have "step_ok d {#q#} (await_task (JCommand q) d, [SendLive c (JCommand q)])" for c by (simp add: step_ok_def await_task_def)
    with RqEvaluate show ?thesis by (auto simp: asked_def evaluate_request_def intro!: with_field ans split: prod.split)
  next
    case (RqGoto c)
    then show ?thesis by (cases c) (auto simp: asked_def intro!: with_field ans)
  qed (use assms in \<open>auto simp: asked_def run_request_def finish_session_ok idle_ok intro!: with_field ans\<close>)
qed

lemma answered_ok: "step_ok d (task_owes j) (answered cf j a d)"
proof -
  have ans: "step_ok d {#q#} (d', [o1])"
    if "answer_ids [o1] = {#q#}" "\<And>v. shown_stopped v [o1] = v" "\<And>c j. o1 \<noteq> Send c j" "db_tasks d' = db_tasks d" "is_running d' = is_running d" "db_configured d' = db_configured d"
    for o1 q d' using that by (simp add: step_ok_def owed_def)
  have ids: "answer_ids [answer_with q a] = {#q#}" "shown_stopped v [answer_with q a] = v" "answer_with q a \<noteq> Send c k" for q v c k
    by (simp_all add: answer_with_def split: answer.split)
  show ?thesis
  proof (cases j)
    case (JClear q)
    have "step_ok d {#q#} (send_task (run_cmd_text RunContinue) (JRun RunContinue q) (d\<lparr>db_continuing := True\<rparr>))"
      by (rule step_ok_from[where d' = "d\<lparr>db_continuing := True\<rparr>"]) (use send_ok[of "JRun RunContinue q" "d\<lparr>db_continuing := True\<rparr>"] in simp_all)
    with JClear show ?thesis by simp
  next
    case (JStack q tid th)
    show ?thesis unfolding JStack by (auto simp: case_prod_beta intro!: ans split: option.split)
  next
    case (JThreads q)
    then show ?thesis by (auto intro!: ans split: sum.split)
  next
    case (JPreConnect cmds)
    have "step_ok d {#} (d\<lparr>db_pre := a\<rparr>, [])" for a by (simp add: step_ok_def)
    with JPreConnect show ?thesis by (simp add: pre_connect_ok split: answer.split)
  next
    case (JLaunch q p)
    with launch_answered_ok show ?thesis by simp
  next
    case (JMode origin p)
    with mode_answered_ok show ?thesis by simp
  next
    case (JEnd q detach p)
    with end_answered_ok show ?thesis by simp
  next
    case (JReset q cmds)
    then show ?thesis by (auto simp: reset_send_ok intro!: ans split: answer.split)
  qed (auto simp: ids idle_ok intro!: ans split: answer.split)
qed

fun event_asks :: "debug_event \<Rightarrow> nat multiset" where
  "event_asks (Request q r) = asked q r"
| "event_asks _ = {#}"

fun foreign :: "nat \<Rightarrow> debug_event \<Rightarrow> bool" where
  "foreign q (Request q' r) = (q' \<noteq> q)"
| "foreign q (Answered j a) = (q \<notin># task_owes j)"
| "foreign q _ = True"

definition settled_right :: "debug \<Rightarrow> debug_event \<Rightarrow> dstep \<Rightarrow> bool" where
  "settled_right d e x \<longleftrightarrow> owed (fst x) + answer_ids (snd x) = owed d + event_asks e \<and>
     (\<forall>v. (v \<longrightarrow> \<not> is_running d) \<longrightarrow> shown_stopped v (snd x) \<longrightarrow> \<not> is_running (fst x)) \<and>
     (db_configured (fst x) \<longrightarrow> db_configured d \<or> (\<exists>q. e = Request q RqConfigurationDone)) \<and> (starts_target (snd x) \<longrightarrow> db_configured (fst x)) \<and>
     (\<forall>q. foreign q e \<longrightarrow> filter (is_end q) (db_tasks (fst x)) = filter (is_end q) (db_tasks d))"

lemma settled_of_step: "step_ok d (event_asks e) x \<Longrightarrow> (\<And>q. foreign q e \<Longrightarrow> q \<notin># event_asks e) \<Longrightarrow> settled_right d e x"
  unfolding step_ok_def settled_right_def by blast

lemma owed_remove: "j \<in> set (db_tasks d) \<Longrightarrow> owed (d\<lparr>db_tasks := remove1 j (db_tasks d)\<rparr>) + task_owes j = owed d"
  by (simp add: owed_def sum_list_map_remove1 add.commute)

lemma is_end_owes: "is_end q j \<Longrightarrow> q \<in># task_owes j"
  by (cases j) auto

lemma step_settles: "settled_right d e (debug_step cf d e)"
proof (cases e)
  case (Request q r)
  show ?thesis
  proof (cases "r = RqConfigurationDone")
    case True
    let ?d = "d\<lparr>db_configured := True, db_waiting := 0\<rparr>"
    have "step_ok ?d {#q#} (and_then (fire_listeners n ?d) (\<lambda>d. (d, [Answer q])))" for n
      by (rule then_first[OF fire_ok]) (simp_all add: step_ok_def)
    then have "step_ok ?d {#q#} (configuration_done q d)" unfolding configuration_done_def .
    then show ?thesis unfolding Request True settled_right_def step_ok_def by (auto simp: asked_def)
  next
    case False
    then show ?thesis using request_ok[OF False, of d q cf] by (auto simp: Request asked_def intro!: settled_of_step split: if_splits)
  qed
next
  case (Answered j a)
  show ?thesis
  proof (cases "j \<in> set (db_tasks d)")
    case True
    let ?d = "d\<lparr>db_tasks := remove1 j (db_tasks d)\<rparr>"
    have ok: "step_ok ?d (task_owes j) (answered cf j a ?d)" by (rule answered_ok)
    have f: "filter (is_end q) (remove1 j (db_tasks d)) = filter (is_end q) (db_tasks d)" if "q \<notin># task_owes j" for q
      using that is_end_owes[of q j] by (auto simp: filter_remove1 intro!: remove1_idem)
    show ?thesis using ok True owed_remove[OF True] f by (auto simp: Answered settled_right_def step_ok_def)
  qed (simp add: Answered settled_right_def)
next
  case GdbRuns
  then show ?thesis by (simp add: settled_right_def handle_running_def running_internal_def)
next
  case (GdbStops rs reason)
  have "step_ok d {#} (gdb_stops cf rs reason d)"
    unfolding gdb_stops_def Let_def
    by (rule step_ok_from[where d' = "d\<lparr>db_running := False\<rparr>"], rule then_at)
      (auto simp: quit_event_def step_ok_def[of _ _ "(_, _)"] intro!: stop_ok)
  then show ?thesis using idle_ok[of d] by (auto simp: GdbStops intro!: settled_of_step)
next
  case GdbQuits
  then show ?thesis using quit_ok[of d] idle_ok[of d] by (auto intro!: settled_of_step)
qed (auto simp: settled_right_def split: option.split)

text \<open>What the events of a run ask for.\<close>

definition run_asks :: "debug_event list \<Rightarrow> nat multiset" where
  "run_asks es = sum_list (map event_asks es)"

lemma run_settles:
  "owed (fst (debug_run cf d es)) + answer_ids (snd (debug_run cf d es)) = owed d + run_asks es \<and>
    ((v \<longrightarrow> \<not> is_running d) \<longrightarrow> shown_stopped v (snd (debug_run cf d es)) \<longrightarrow> \<not> is_running (fst (debug_run cf d es))) \<and>
    (db_configured (fst (debug_run cf d es)) \<longrightarrow> db_configured d \<or> (\<exists>q. Request q RqConfigurationDone \<in> set es)) \<and>
    (starts_target (snd (debug_run cf d es)) \<longrightarrow> db_configured d \<or> (\<exists>q. Request q RqConfigurationDone \<in> set es))"
proof (induction es arbitrary: d v)
  case (Cons e es)
  obtain d1 out where 1: "debug_step cf d e = (d1, out)" by force
  obtain d2 out' where 2: "debug_run cf d1 es = (d2, out')" by force
  have r: "debug_run cf d (e # es) = (d2, out @ out')" by (simp add: and_then_def 1 2)
  note s = step_settles[of d e cf, unfolded 1 settled_right_def fst_conv snd_conv]
  note i = Cons.IH[of d1 "shown_stopped v out", unfolded 2 fst_conv snd_conv]
  have "owed d2 + answer_ids (out @ out') = owed d + run_asks (e # es)"
  proof -
    have "owed d2 + answer_ids (out @ out') = owed d2 + answer_ids out' + answer_ids out" by simp
    also have "\<dots> = owed d1 + answer_ids out + run_asks es" using i by (simp add: ac_simps)
    also have "\<dots> = owed d + event_asks e + run_asks es" using s by simp
    finally show ?thesis by (simp add: run_asks_def add.assoc)
  qed
  moreover have "(v \<longrightarrow> \<not> is_running d) \<longrightarrow> shown_stopped v (out @ out') \<longrightarrow> \<not> is_running d2" using s i by auto
  moreover have "db_configured d2 \<longrightarrow> db_configured d \<or> (\<exists>q. Request q RqConfigurationDone \<in> set (e # es))"
    "starts_target (out @ out') \<longrightarrow> db_configured d \<or> (\<exists>q. Request q RqConfigurationDone \<in> set (e # es))"
    using s i by auto
  ultimately show ?case unfolding r fst_conv snd_conv by blast
qed (simp add: run_asks_def)

subsection \<open>Properties\<close>

text \<open>
  C28: On every run, with the answers of GDB and of the other parts in any order and the events of GDB in between, every
  request is answered exactly once or its answer is still owed by a task, and nothing else is answered. The requests
  with an empty handler (a step back, a custom disassembly, an execute command without text) are the exception: they are
  never answered.
\<close>

theorem requests_answered_once:
  "answer_ids (snd (debug_run cf debug_new es)) + owed (fst (debug_run cf debug_new es)) = run_asks es"
  using run_settles[of cf debug_new es] by (simp add: debug_new_def owed_def add.commute)

text \<open>
  C29: The client is never left in the belief that the target is stopped while it runs: if the last it was told of the
  target is a stop, the target is not running, on every run and whatever was suppressed in between.
\<close>

theorem never_shown_stopped_while_running:
  "shown_stopped False (snd (debug_run cf debug_new es)) \<Longrightarrow> \<not> is_running (fst (debug_run cf debug_new es))"
  using run_settles[of cf debug_new es False] by simp

text \<open>
  C30: The session never lets the target run on its own before the client has said that its configuration, that is its
  breakpoints, is done.
\<close>

theorem target_waits_for_configuration:
  "Send c JAuto \<in> set (snd (debug_run cf debug_new es)) \<Longrightarrow> \<exists>q. Request q RqConfigurationDone \<in> set es"
  using run_settles[of cf debug_new es False] by (auto simp: debug_new_def starts_target_def)

text \<open>A launch up to the first stop: the target is continued once the client is configured, and stops at the entry point.\<close>

definition plain_config :: session_config where
  "plain_config = \<lparr>cf_no_debug = False, cf_entry = Some ''main'', cf_break_after_reset = False, cf_chained = False, cf_live = False, cf_pre_connect = [],
     cf_pre_launch = [], cf_pre_attach = [], cf_connect = [''target-select''], cf_override_launch = None, cf_server_launch = [''load''], cf_post_launch = [],
     cf_override_attach = None, cf_server_attach = [], cf_post_attach = [], cf_pre_reset = [], cf_override_reset = None, cf_server_reset = [''reset''],
     cf_post_reset = [], cf_swo_rtt = [], cf_post_start_session = [], cf_post_reset_session = [], cf_pre_end = []\<rparr>"

definition launch_run :: "debug_event list" where
  "launch_run = [Request 1 RqLaunch] @ map (\<lambda>p. Answered (JLaunch 1 p) (GdbDone [])) [LGdb, LServer, LPreConnect, LSwo, LConnect [''target-select''], LTarget, LAfterConnect [''load'']] @
     [Answered (JMode (FromLaunch 1) (MCommands [''-break-insert -t main''] True False)) (GdbDone []), Request 2 RqConfigurationDone,
      Answered JAuto (GdbDone []), GdbRuns, GdbStops [(''thread-id'', MConst ''1'')] (Some ''breakpoint-hit'')]"

lemma launch_run_outputs:
  "snd (debug_run plain_config debug_new launch_run) =
    [Ask (JLaunch 1 LGdb), Ask (JLaunch 1 LServer), Ask (JLaunch 1 LPreConnect), Ask (JLaunch 1 LSwo), ToldStarted ''post-start-server'',
     Send ''target-select'' (JLaunch 1 (LConnect [''target-select''])), Ask (JLaunch 1 LTarget), Send ''load'' (JLaunch 1 (LAfterConnect [''load''])),
     Answer 1, ToldInitialized, ToldStarted ''post-start-gdb'',
     Send ''-break-insert -t main'' (JMode (FromLaunch 1) (MCommands [''-break-insert -t main''] True False)), Ask (JLaunch 1 LTail),
     Send ''-exec-continue'' JAuto, Answer 2, ToldContinued (Some 1), ToldStopped ''breakpoint-hit'' (Some 1), ToldStoppedCustom ''breakpoint-hit'' (Some 1)]"
  by code_simp

lemma never_shown_stopped_while_running_witness:
  "\<not> is_running (fst (debug_run plain_config debug_new launch_run))"
  by (rule never_shown_stopped_while_running) (simp add: launch_run_outputs)

lemma target_waits_for_configuration_witness:
  "\<exists>q. Request q RqConfigurationDone \<in> set launch_run"
  by (rule target_waits_for_configuration[of "''-exec-continue''" plain_config]) (simp add: launch_run_outputs)

subsection \<open>The session ends\<close>

text \<open>How many answers the end of a session still needs at most.\<close>

fun end_left :: "session_config \<Rightarrow> end_phase \<Rightarrow> nat" where
  "end_left cf ELive = length (cf_pre_end cf) + 10"
| "end_left cf EInterrupt = length (cf_pre_end cf) + 9"
| "end_left cf EWait = length (cf_pre_end cf) + 8"
| "end_left cf EBreakpoints = length (cf_pre_end cf) + 7"
| "end_left cf (EPreEnd cmds) = length cmds + 6"
| "end_left cf EDetach = 5"
| "end_left cf EDisconnect = 4"
| "end_left cf EStop = 3"
| "end_left cf EServer = 2"
| "end_left cf EDone = 1"

definition ends_of :: "nat \<Rightarrow> debug \<Rightarrow> task list" where
  "ends_of q d = filter (is_end q) (db_tasks d)"

text \<open>
  A run in which the end of the session for a request is answered whenever it is its turn (\<open>Inr\<close>), with other events in
  between (\<open>Inl\<close>).
\<close>

fun drive_end :: "session_config \<Rightarrow> nat \<Rightarrow> debug \<Rightarrow> (debug_event + answer) list \<Rightarrow> dstep" where
  "drive_end cf q d [] = (d, [])"
| "drive_end cf q d (Inl e # is) = and_then (debug_step cf d e) (\<lambda>d. drive_end cf q d is)"
| "drive_end cf q d (Inr a # is) = (case ends_of q d of
     [] \<Rightarrow> drive_end cf q d is
   | j # _ \<Rightarrow> and_then (debug_step cf d (Answered j a)) (\<lambda>d. drive_end cf q d is))"

definition turns :: "('a + 'b) list \<Rightarrow> nat" where
  "turns is = length (filter (\<lambda>i. case i of Inl _ \<Rightarrow> False | Inr _ \<Rightarrow> True) is)"

lemma turns_simps [simp]: "turns [] = 0" "turns (Inl x # is) = turns is" "turns (Inr y # is) = Suc (turns is)"
  by (simp_all add: turns_def)

lemma ends_of_simps [simp]:
  "ends_of q (fst (send_task c j d)) = (if is_end q j then j # ends_of q d else ends_of q d)"
  "ends_of q (fst (ask_task j d)) = (if is_end q j then j # ends_of q d else ends_of q d)"
  "ends_of q (d\<lparr>db_gdb := b\<rparr>) = ends_of q d" "ends_of q (d\<lparr>db_ending := b\<rparr>) = ends_of q d" "ends_of q (d\<lparr>db_suppress := b\<rparr>) = ends_of q d"
  by (simp_all add: ends_of_def send_task_def ask_task_def await_task_def)

text \<open>Every answer brings the end nearer, or is its last.\<close>

lemma end_answered_progress:
  assumes "ends_of q d = []"
  shows "(\<exists>detach' p'. ends_of q (fst (end_answered cf q detach p a d)) = [JEnd q detach' p'] \<and> end_left cf p' < end_left cf p) \<or>
    Answer q \<in> set (snd (end_answered cf q detach p a d))"
proof -
  have cmds: "\<exists>p'. ends_of q (fst (end_commands q detach cs d)) = [JEnd q detach p'] \<and> end_left cf p' \<le> length cs + (if cs = [] then 5 else 6)" for cs
    using assms by (cases cs) (auto simp: end_commands_def end_defs)
  have pre: "\<exists>p'. ends_of q (fst (end_commands q detach (tl cs) d)) = [JEnd q detach p'] \<and> end_left cf p' < length cs + 6" for cs
    using cmds[of "tl cs"] by (cases cs) (auto simp: less_Suc_eq_le split: if_splits)
  show ?thesis
  proof (cases p)
    case (EPreEnd cs)
    with pre[of cs] show ?thesis by auto
  next
    case EBreakpoints
    with cmds[of "cf_pre_end cf"] show ?thesis by (auto simp: less_Suc_eq_le split: if_splits)
  qed (use assms in \<open>cases a; auto simp: end_defs end_gdb_def\<close>)+
qed

text \<open>The events in between are not the session's own answers to the request.\<close>

definition others_only :: "nat \<Rightarrow> (debug_event + answer) list \<Rightarrow> bool" where
  "others_only q is = list_all (\<lambda>i. case i of Inl e \<Rightarrow> foreign q e | Inr a \<Rightarrow> True) is"

lemma others_only_simps [simp]:
  "others_only q []" "others_only q (Inl e # is) \<longleftrightarrow> foreign q e \<and> others_only q is" "others_only q (Inr a # is) = others_only q is"
  by (simp_all add: others_only_def)

lemma snd_and_then: "snd (and_then x f) = snd x @ snd (f (fst x))"
  by (simp add: and_then_def split: prod.split)

lemma drive_end_answers:
  assumes "ends_of q d = [JEnd q detach p]" "others_only q is" "end_left cf p \<le> turns is"
  shows "Answer q \<in> set (snd (drive_end cf q d is))"
  using assms
proof (induction "is" arbitrary: d detach p)
  case Nil
  then show ?case by (cases p) simp_all
next
  case (Cons i "is")
  show ?case
  proof (cases i)
    case (Inl e)
    have "ends_of q (fst (debug_step cf d e)) = ends_of q d"
      using step_settles[of d e cf] Cons.prems(2) Inl by (simp add: settled_right_def ends_of_def)
    with Cons Inl show ?thesis by (simp add: snd_and_then)
  next
    case (Inr a)
    let ?j = "JEnd q detach p" and ?d = "d\<lparr>db_tasks := remove1 (JEnd q detach p) (db_tasks d)\<rparr>"
    have "?j \<in> set (ends_of q d)" using Cons.prems(1) by simp
    then have j: "?j \<in> set (db_tasks d)" by (simp add: ends_of_def)
    have "ends_of q ?d = []" using Cons.prems(1) by (simp add: ends_of_def filter_remove1)
    from end_answered_progress[OF this, of cf detach p a] consider
        (more) detach' p' where "ends_of q (fst (debug_step cf d (Answered ?j a))) = [JEnd q detach' p']" "end_left cf p' < end_left cf p"
      | (answered) "Answer q \<in> set (snd (debug_step cf d (Answered ?j a)))"
      using j by auto
    then show ?thesis
    proof cases
      case more
      with Cons.IH[OF more(1)] Cons.prems Inr show ?thesis by (simp add: snd_and_then)
    next
      case answered
      then show ?thesis using Cons.prems(1) Inr by (simp add: snd_and_then)
    qed
  qed
qed

text \<open>The requests that end the session.\<close>

fun ends_session :: "debug_req \<Rightarrow> bool" where
  "ends_session (RqDisconnect t s) = True"
| "ends_session RqTerminate = True"
| "ends_session RqRestart = True"
| "ends_session (RqStopDebugging t s) = True"
| "ends_session _ = False"

lemma finish_session_starts:
  "ends_of q d = [] \<Longrightarrow> \<exists>p. ends_of q (fst (finish_session cf q detach d)) = [JEnd q detach p] \<and> end_left cf p \<le> length (cf_pre_end cf) + 10"
  by (auto simp: finish_session_def end_gdb_def end_defs Let_def)

text \<open>
  C31: Ending a session always comes to an end: after a request to disconnect, terminate, restart or stop, in any state
  and with whatever else happens in between, it is answered once what it awaits has been answered, in success or in
  error, as often as the launch configuration has commands for the end, and ten times more.
\<close>

theorem session_end_always_answers:
  assumes "ends_session r" "ends_of q d = []" "others_only q is" "length (cf_pre_end cf) + 10 \<le> turns is"
  shows "Answer q \<in> set (snd (and_then (handle_request cf q r d) (\<lambda>d. drive_end cf q d is)))"
proof -
  have "\<exists>detach p. ends_of q (fst (handle_request cf q r d)) = [JEnd q detach p] \<and> end_left cf p \<le> length (cf_pre_end cf) + 10"
  proof (cases r)
    case (RqDisconnect t s)
    with finish_session_starts[OF assms(2), of cf "\<not> t \<and> \<not> s"] show ?thesis by (auto simp: disconnect_request_def and_then_def split: prod.splits)
  next
    case RqRestart
    have "ends_of q (d\<lparr>db_restarting := True\<rparr>) = []" using assms(2) by (simp add: ends_of_def)
    from finish_session_starts[OF this, of cf False] RqRestart show ?thesis by auto
  next
    case RqTerminate
    with finish_session_starts[OF assms(2), of cf False] show ?thesis by auto
  next
    case (RqStopDebugging t s)
    with finish_session_starts[OF assms(2), of cf "\<not> t \<and> \<not> s"] show ?thesis by auto
  qed (use assms(1) in auto)
  then obtain detach p where "ends_of q (fst (handle_request cf q r d)) = [JEnd q detach p]" "end_left cf p \<le> turns is"
    using assms(4) by force
  from drive_end_answers[OF this(1) assms(3) this(2)] show ?thesis by (simp add: snd_and_then)
qed

lemma session_end_always_answers_witness:
  "Answer 7 \<in> set (snd (and_then (handle_request plain_config 7 RqTerminate debug_new)
     (\<lambda>d. drive_end plain_config 7 d (Inl GdbRuns # replicate 10 (Inr (GdbError [])))))) \<and> ends_of 7 debug_new = []"
  using session_end_always_answers[of RqTerminate 7 debug_new "Inl GdbRuns # replicate 10 (Inr (GdbError []))" plain_config]
  by (simp add: eval_nat_numeral) (simp add: ends_of_def debug_new_def plain_config_def)

subsection \<open>Paths that leave the session stuck\<close>

text \<open>
  A goto that fails leaves the session busy: only the run requests reset \<open>continuing\<close> in their \<open>catch\<close>. With it set,
  the target stopped and nothing outstanding, a request to continue is refused.
\<close>

lemma failed_goto_stays_busy:
  "snd (debug_run cf (debug_new\<lparr>db_configured := True\<rparr>)
     [Request 1 (RqGoto (Some c)), Answered (JGoto 1) (GdbError e), Request 2 (RqRun RunContinue)]) = [Send c (JGoto 1), AnswerError 1, AnswerBusy 2]"
  by (simp add: and_then_def send_task_def await_task_def debug_new_def answer_with_def run_request_def is_busy_def)

text \<open>So does the session's own continue when it fails.\<close>

lemma failed_continue_stays_busy:
  "snd (debug_run cf (debug_new\<lparr>db_waiting := 1\<rparr>)
     [Request 1 RqConfigurationDone, Answered JAuto (GdbError e), Request 2 (RqRun RunContinue)]) =
    [Send ''-exec-continue'' JAuto, Answer 1, AnswerBusy 2]"
  by (simp add: and_then_def send_task_def await_task_def debug_new_def configuration_done_def try_continue_def is_running_def run_request_def is_busy_def)

text \<open>A reset whose command fails leaves stops suppressed: the next stop is not told.\<close>

lemma failed_reset_hides_stops:
  assumes "reset_commands cf = c # cs"
  shows "snd (debug_run cf (debug_new\<lparr>db_suppress := False\<rparr>)
     [Request 1 RqReset, Answered (JReset 1 (c # cs)) (GdbError e), GdbRuns, GdbStops rs (Some ''breakpoint-hit'')]) =
    [Send c (JReset 1 (c # cs)), AnswerError 1, ToldContinued (Some 1)]"
  using assms
  by (simp add: and_then_def send_task_def await_task_def debug_new_def reset_request_def reset_send_def handle_running_def running_internal_def
      threads_empty_def gdb_stops_def stop_event_def Let_def)

text \<open>A program that ends is told to have ended twice.\<close>

lemma exit_told_twice:
  "snd (debug_step cf (debug_new\<lparr>db_suppress := False\<rparr>) (GdbStops rs (Some ''exited-normally''))) = [ToldTerminated, ToldTerminated]"
  by (simp add: and_then_def gdb_stops_def quit_event_def stop_event_def debug_new_def Let_def)

text \<open>A request with an empty handler is owed nothing and answered by nothing.\<close>

lemma step_back_unanswered: "debug_step cf d (Request q RqStepBack) = (d, [])"
  by simp

text \<open>A name that all objects of the language have is not sent to GDB as it is typed.\<close>

lemma inherited_word_mapped: "repl_command ''toString x'' = (False, console_cmd ''function toString() { [native code] } x'')"
  by code_simp

lemma mapped_continue: "repl_command '' +c  now'' = (True, ''-exec-continue now'')"
  by code_simp

text \<open>A second request to end the session does not wait for the first: it is answered and the end told while GDB is asked still.\<close>

lemma second_end_overtakes:
  "snd (debug_run plain_config debug_new [Request 1 RqTerminate, Request 2 RqTerminate, Answered (JEnd 2 False EDone) (GdbDone [])]) =
    [Ask (JEnd 1 False EBreakpoints), Ask (JEnd 2 False EDone), Answer 2, ToldTerminated]"
  by code_simp

end
