(* ===== verification/LaunchOrder.thy ===== *)
theory LaunchOrder
  imports DebugSession
begin

text \<open>
  The order of the commands of a launch or an attach (\<open>launchAttachInit\<close> and what it calls in
  \<open>adapter/gdb-session.ts\<close>), over every run of the session of \<open>DebugSession\<close>: the commands before the connection, which
  run beside the start of the server, those that connect, and those that load or attach.
\<close>

subsection \<open>A launch in which all goes well\<close>

fun sent :: "debug_out list \<Rightarrow> jstr list" where
  "sent [] = []"
| "sent (Send c j # out) = c # sent out"
| "sent (_ # out) = sent out"

lemma sent_append [simp]: "sent (out @ out') = sent out @ sent out'"
  by (induction out rule: sent.induct) simp_all

text \<open>The answers to a list of commands that are sent one after the other, each task with the commands left.\<close>

fun answers_to :: "(jstr list \<Rightarrow> task) \<Rightarrow> jstr list \<Rightarrow> debug_event list" where
  "answers_to j [] = []"
| "answers_to j (c # cs) = Answered (j (c # cs)) (GdbDone []) # answers_to j cs"

text \<open>A launch or an attach in which all goes well, up to its response.\<close>

definition good_start :: "session_config \<Rightarrow> session_mode \<Rightarrow> nat \<Rightarrow> debug_event list" where
  "good_start cf mode q = [Request q (if mode = ModeAttach then RqAttach else RqLaunch), Answered (JLaunch q LGdb) (GdbDone [])] @ answers_to JPreConnect (cf_pre_connect cf)"

definition good_connect :: "session_config \<Rightarrow> session_mode \<Rightarrow> nat \<Rightarrow> debug_event list" where
  "good_connect cf mode q = map (\<lambda>p. Answered (JLaunch q p) (GdbDone [])) [LServer, LPreConnect, LSwo] @ answers_to (\<lambda>cs. JLaunch q (LConnect cs)) (connect_commands_pre cf mode)"

definition good_finish :: "session_config \<Rightarrow> session_mode \<Rightarrow> nat \<Rightarrow> debug_event list" where
  "good_finish cf mode q = Answered (JLaunch q LTarget) (GdbDone []) # answers_to (\<lambda>cs. JLaunch q (LAfterConnect cs)) (connect_commands_post cf mode)"

definition good_launch :: "session_config \<Rightarrow> session_mode \<Rightarrow> nat \<Rightarrow> debug_event list" where
  "good_launch cf mode q = good_start cf mode q @ good_connect cf mode q @ good_finish cf mode q"

lemma debug_run_append: "debug_run cf d (es @ es') = and_then (debug_run cf d es) (\<lambda>d. debug_run cf d es')"
  by (induction es arbitrary: d) (simp_all add: and_then_def split: prod.split)

lemma snd_run_append: "snd (debug_run cf d (es @ es')) = snd (debug_run cf d es) @ snd (debug_run cf (fst (debug_run cf d es)) es')"
  by (simp add: debug_run_append snd_and_then)

lemma fst_run_append: "fst (debug_run cf d (es @ es')) = fst (debug_run cf (fst (debug_run cf d es)) es')"
  by (simp add: debug_run_append and_then_def split: prod.split)

lemma run_trans: "debug_run cf d es = (d1, out) \<Longrightarrow> debug_run cf d1 es' = (d2, out') \<Longrightarrow> debug_run cf d (es @ es') = (d2, out @ out')"
  by (simp add: debug_run_append and_then_def)

text \<open>What comes before the response.\<close>

definition before :: "nat \<Rightarrow> debug_out list \<Rightarrow> debug_out list" where
  "before q out = takeWhile (\<lambda>x. x \<noteq> Answer q) out"

lemma before_append [simp]: "Answer q \<notin> set out \<Longrightarrow> before q (out @ out') = out @ before q out'"
  by (induction out) (auto simp: before_def)

lemma before_answer [simp]: "before q (Answer q # out) = []"
  by (simp add: before_def)

text \<open>A run of answers to commands: what is sent, that nothing is answered, and where it ends.\<close>

lemma pre_connect_run:
  "j = JPreConnect (c # cs) \<Longrightarrow> j \<in> set (db_tasks d) \<Longrightarrow> remove1 j (db_tasks d) = [x] \<Longrightarrow>
    \<exists>d' out. debug_run cf d (answers_to JPreConnect (c # cs)) = (d', out) \<and> sent out = cs \<and> Answer q \<notin> set out \<and>
      db_tasks d' = [x] \<and> db_pre d' = Some (GdbDone []) \<and> db_mode d' = db_mode d"
proof (induction cs arbitrary: c d j)
  case (Cons c2 cs)
  let ?d = "d\<lparr>db_tasks := [JPreConnect (c2 # cs), x]\<rparr>"
  have 1: "debug_step cf d (Answered (JPreConnect (c # c2 # cs)) (GdbDone [])) = (?d, [Send c2 (JPreConnect (c2 # cs))])"
    using Cons.prems by (simp add: pre_connect_def send_task_def await_task_def)
  obtain d' out where 2: "debug_run cf ?d (answers_to JPreConnect (c2 # cs)) = (d', out)" "sent out = cs" "Answer q \<notin> set out"
    "db_tasks d' = [x]" "db_pre d' = Some (GdbDone [])" "db_mode d' = db_mode ?d"
    using Cons.IH[of "JPreConnect (c2 # cs)" c2 ?d] by auto
  have "debug_run cf d (answers_to JPreConnect (c # c2 # cs)) = (d', Send c2 (JPreConnect (c2 # cs)) # out)"
    using 1 2(1) by (simp add: and_then_def)
  with 2 show ?case by auto
qed (auto simp: and_then_def pre_connect_def)

lemma connect_run:
  "db_tasks d = [JLaunch q (LConnect (c # cs))] \<Longrightarrow>
    \<exists>d' out. debug_run cf d (answers_to (\<lambda>cs. JLaunch q (LConnect cs)) (c # cs)) = (d', out) \<and> sent out = cs \<and> Answer q \<notin> set out \<and>
      db_tasks d' = [JLaunch q LTarget] \<and> db_mode d' = db_mode d"
proof (induction cs arbitrary: c d)
  case (Cons c2 cs)
  let ?d = "d\<lparr>db_tasks := [JLaunch q (LConnect (c2 # cs))]\<rparr>"
  have 1: "debug_step cf d (Answered (JLaunch q (LConnect (c # c2 # cs))) (GdbDone [])) = (?d, [Send c2 (JLaunch q (LConnect (c2 # cs)))])"
    using Cons.prems by (simp add: launch_connect_def send_task_def await_task_def)
  obtain d' out where 2: "debug_run cf ?d (answers_to (\<lambda>cs. JLaunch q (LConnect cs)) (c2 # cs)) = (d', out)" "sent out = cs" "Answer q \<notin> set out"
    "db_tasks d' = [JLaunch q LTarget]" "db_mode d' = db_mode ?d"
    using Cons.IH[of ?d c2] by auto
  have "debug_run cf d (answers_to (\<lambda>cs. JLaunch q (LConnect cs)) (c # c2 # cs)) = (d', Send c2 (JLaunch q (LConnect (c2 # cs))) # out)"
    using 1 2(1) by (simp add: and_then_def)
  with 2 show ?case by auto
qed (auto simp: and_then_def launch_connect_def ask_task_def await_task_def)

lemma launch_ready_answers: "\<exists>out. snd (launch_ready cf q d) = Answer q # out"
  by (simp add: launch_ready_def snd_and_then)

lemma after_connect_run:
  "db_tasks d = [JLaunch q (LAfterConnect (c # cs))] \<Longrightarrow>
    \<exists>out out'. snd (debug_run cf d (answers_to (\<lambda>cs. JLaunch q (LAfterConnect cs)) (c # cs))) = out @ Answer q # out' \<and> sent out = cs \<and> Answer q \<notin> set out"
proof (induction cs arbitrary: c d)
  case Nil
  obtain out where "snd (launch_ready cf q (d\<lparr>db_tasks := []\<rparr>)) = Answer q # out" using launch_ready_answers by blast
  with Nil show ?case by (intro exI[of _ "[]"] exI[of _ out]) (simp add: snd_and_then launch_connected_def)
next
  case (Cons c2 cs)
  let ?d = "d\<lparr>db_tasks := [JLaunch q (LAfterConnect (c2 # cs))]\<rparr>"
  have 1: "debug_step cf d (Answered (JLaunch q (LAfterConnect (c # c2 # cs))) (GdbDone [])) = (?d, [Send c2 (JLaunch q (LAfterConnect (c2 # cs)))])"
    using Cons.prems by (simp add: launch_connected_def send_task_def await_task_def)
  obtain out out' where 2: "snd (debug_run cf ?d (answers_to (\<lambda>cs. JLaunch q (LAfterConnect cs)) (c2 # cs))) = out @ Answer q # out'" "sent out = cs" "Answer q \<notin> set out"
    using Cons.IH[of ?d c2] by auto
  have "snd (debug_run cf d (answers_to (\<lambda>cs. JLaunch q (LAfterConnect cs)) (c # c2 # cs))) = (Send c2 (JLaunch q (LAfterConnect (c2 # cs))) # out) @ Answer q # out'"
    using 1 2(1) by (simp add: snd_and_then)
  with 2(2,3) show ?case by (metis sent.simps(2) set_ConsD debug_out.distinct(5))
qed

text \<open>A launch up to the server, up to the connection, and up to its response.\<close>

lemma launch_starts:
  assumes "db_tasks d = []" "mode \<noteq> ModeReset"
  obtains d1 o1 where "debug_run cf d (good_start cf mode q) = (d1, o1)"
    "sent o1 = cf_pre_connect cf" "Answer q \<notin> set o1" "db_tasks d1 = [JLaunch q LServer]" "db_pre d1 = Some (GdbDone [])" "db_mode d1 = mode"
proof (cases "cf_pre_connect cf")
  case Nil
  then show thesis using that assms(1,2) by (cases mode) (auto simp: good_start_def and_then_def ask_task_def await_task_def pre_connect_def)
next
  case (Cons c cs)
  let ?d1 = "d\<lparr>db_mode := mode, db_tasks := [JLaunch q LServer, JPreConnect (c # cs)]\<rparr>"
  have s: "debug_run cf d [Request q (if mode = ModeAttach then RqAttach else RqLaunch), Answered (JLaunch q LGdb) (GdbDone [])] =
      (?d1, [Ask (JLaunch q LGdb), Send c (JPreConnect (c # cs)), Ask (JLaunch q LServer)])"
    using assms(1,2) Cons by (cases mode) (auto simp: and_then_def ask_task_def send_task_def await_task_def pre_connect_def)
  obtain d' out' where t: "debug_run cf ?d1 (answers_to JPreConnect (c # cs)) = (d', out')" "sent out' = cs" "Answer q \<notin> set out'"
    "db_tasks d' = [JLaunch q LServer]" "db_pre d' = Some (GdbDone [])" "db_mode d' = mode"
    using pre_connect_run[of "JPreConnect (c # cs)" c cs ?d1 "JLaunch q LServer" cf q] by auto
  show thesis using run_trans[OF s t(1)] t Cons
    by (intro that[of d' "[Ask (JLaunch q LGdb), Send c (JPreConnect (c # cs)), Ask (JLaunch q LServer)] @ out'"]) (simp_all add: good_start_def)
qed

lemma launch_connects:
  assumes "db_tasks d1 = [JLaunch q LServer]" "db_pre d1 = Some (GdbDone [])" "db_mode d1 = mode"
  obtains d2 o2 where "debug_run cf d1 (good_connect cf mode q) = (d2, o2)"
    "sent o2 = connect_commands_pre cf mode" "Answer q \<notin> set o2" "db_tasks d2 = [JLaunch q LTarget]" "db_mode d2 = mode"
proof (cases "connect_commands_pre cf mode")
  case Nil
  then show thesis using that assms by (auto simp: good_connect_def and_then_def ask_task_def await_task_def launch_connect_def)
next
  case (Cons c cs)
  let ?d1 = "d1\<lparr>db_tasks := [JLaunch q (LConnect (c # cs))]\<rparr>"
  have s: "debug_run cf d1 (map (\<lambda>p. Answered (JLaunch q p) (GdbDone [])) [LServer, LPreConnect, LSwo]) =
      (?d1, [Ask (JLaunch q LPreConnect), Ask (JLaunch q LSwo), ToldStarted ''post-start-server'', Send c (JLaunch q (LConnect (c # cs)))])"
    using assms Cons by (simp add: and_then_def ask_task_def send_task_def await_task_def launch_connect_def)
  obtain d' out' where t: "debug_run cf ?d1 (answers_to (\<lambda>cs. JLaunch q (LConnect cs)) (c # cs)) = (d', out')" "sent out' = cs" "Answer q \<notin> set out'"
    "db_tasks d' = [JLaunch q LTarget]" "db_mode d' = mode"
    using connect_run[of ?d1 q c cs cf] assms(3) by auto
  show thesis using run_trans[OF s t(1)] t Cons
    by (intro that[of d' "[Ask (JLaunch q LPreConnect), Ask (JLaunch q LSwo), ToldStarted ''post-start-server'', Send c (JLaunch q (LConnect (c # cs)))] @ out'"])
      (simp_all add: good_connect_def)
qed

lemma launch_finishes:
  assumes "db_tasks d2 = [JLaunch q LTarget]" "db_mode d2 = mode"
  obtains o3 o4 where "snd (debug_run cf d2 (good_finish cf mode q)) = o3 @ Answer q # o4"
    "sent o3 = connect_commands_post cf mode" "Answer q \<notin> set o3"
proof (cases "connect_commands_post cf mode")
  case Nil
  obtain o4 where "snd (launch_ready cf q (d2\<lparr>db_tasks := []\<rparr>)) = Answer q # o4" using launch_ready_answers by blast
  then show thesis using that[of "[]" o4] assms Nil by (simp add: good_finish_def snd_and_then launch_connected_def)
next
  case (Cons c cs)
  let ?d2 = "d2\<lparr>db_tasks := [JLaunch q (LAfterConnect (c # cs))]\<rparr>"
  have s: "debug_step cf d2 (Answered (JLaunch q LTarget) (GdbDone [])) = (?d2, [Send c (JLaunch q (LAfterConnect (c # cs)))])"
    using assms Cons by (simp add: launch_connected_def send_task_def await_task_def)
  obtain o3 o4 where "snd (debug_run cf ?d2 (answers_to (\<lambda>cs. JLaunch q (LAfterConnect cs)) (c # cs))) = o3 @ Answer q # o4" "sent o3 = cs" "Answer q \<notin> set o3"
    using after_connect_run[of ?d2 q c cs cf] by auto
  with s Cons show thesis by (intro that[of "Send c (JLaunch q (LAfterConnect (c # cs))) # o3" o4]) (simp_all add: good_finish_def snd_and_then)
qed

lemma good_launch_completes:
  assumes "db_tasks d = []" "mode \<noteq> ModeReset" "out = snd (debug_run cf d (good_launch cf mode q))"
  shows "sent (before q out) = cf_pre_connect cf @ connect_commands_pre cf mode @ connect_commands_post cf mode \<and> Answer q \<in> set out"
proof -
  obtain d1 o1 where 1: "debug_run cf d (good_start cf mode q) = (d1, o1)"
    "sent o1 = cf_pre_connect cf" "Answer q \<notin> set o1" "db_tasks d1 = [JLaunch q LServer]" "db_pre d1 = Some (GdbDone [])" "db_mode d1 = mode"
    using launch_starts[OF assms(1,2)] by blast
  obtain d2 o2 where 2: "debug_run cf d1 (good_connect cf mode q) = (d2, o2)"
    "sent o2 = connect_commands_pre cf mode" "Answer q \<notin> set o2" "db_tasks d2 = [JLaunch q LTarget]" "db_mode d2 = mode"
    using launch_connects[OF 1(4,5,6)] by blast
  obtain o3 o4 where 3: "snd (debug_run cf d2 (good_finish cf mode q)) = o3 @ Answer q # o4"
    "sent o3 = connect_commands_post cf mode" "Answer q \<notin> set o3"
    using launch_finishes[OF 2(4,5)] by blast
  have "out = o1 @ o2 @ o3 @ Answer q # o4"
    using assms(3) 1(1) 2(1) 3(1) by (simp add: good_launch_def snd_run_append)
  then show ?thesis using 1(2,3) 2(2,3) 3(2,3) by simp
qed

subsection \<open>The log of a launch\<close>

text \<open>The tasks of a launch up to its response, and those that stand for a command.\<close>

fun launch_task :: "task \<Rightarrow> bool" where
  "launch_task (JLaunch q p) = (p \<noteq> LTail)"
| "launch_task _ = False"

fun pre_task :: "task \<Rightarrow> bool" where
  "pre_task (JPreConnect cs) = True"
| "pre_task _ = False"

fun command_task :: "task \<Rightarrow> bool" where
  "command_task (JLaunch q (LConnect cs)) = True"
| "command_task (JLaunch q (LAfterConnect cs)) = True"
| "command_task (JPreConnect cs) = True"
| "command_task _ = False"

text \<open>The log: \<open>Inl c\<close> for a command of the launch that is sent, \<open>Inr\<close> for its answer, whether it was a success.\<close>

fun launch_sends :: "debug_out list \<Rightarrow> (jstr + bool) list" where
  "launch_sends [] = []"
| "launch_sends (Send c j # out) = (if command_task j then [Inl c] else []) @ launch_sends out"
| "launch_sends (_ # out) = launch_sends out"

fun succeeded :: "answer \<Rightarrow> bool" where
  "succeeded (GdbDone rs) = True"
| "succeeded (GdbError e) = False"

fun launch_heard :: "debug \<Rightarrow> debug_event \<Rightarrow> (jstr + bool) list" where
  "launch_heard d (Answered j a) = (if j \<in> set (db_tasks d) \<and> command_task j then [Inr (succeeded a)] else [])"
| "launch_heard d _ = []"

fun launch_log :: "session_config \<Rightarrow> debug \<Rightarrow> debug_event list \<Rightarrow> (jstr + bool) list" where
  "launch_log cf d [] = []"
| "launch_log cf d (e # es) = launch_heard d e @ launch_sends (snd (debug_step cf d e)) @ launch_log cf (fst (debug_step cf d e)) es"

definition in_turn :: "jstr list \<Rightarrow> (jstr + bool) list" where
  "in_turn cs = concat (map (\<lambda>c. [Inl c, Inr True]) cs)"

lemma in_turn_simps [simp]: "in_turn [] = []" "in_turn (cs @ ds) = in_turn cs @ in_turn ds" "in_turn (c # cs) = Inl c # Inr True # in_turn cs"
  by (simp_all add: in_turn_def)

lemma launch_sends_append [simp]: "launch_sends (out @ out') = launch_sends out @ launch_sends out'"
  by (induction out rule: launch_sends.induct) simp_all

text \<open>The events of a run with one launch: no second launch and no reset.\<close>

fun ordinary :: "debug_event \<Rightarrow> bool" where
  "ordinary (Request q r) = (r \<noteq> RqLaunch \<and> r \<noteq> RqAttach \<and> r \<noteq> RqReset)"
| "ordinary _ = True"

subsection \<open>What does not concern the launch\<close>

text \<open>What of the session a launch depends on.\<close>

definition launch_part :: "debug \<Rightarrow> task list \<times> task list \<times> answer option \<times> session_mode" where
  "launch_part d = (filter launch_task (db_tasks d), filter pre_task (db_tasks d), db_pre d, db_mode d)"

definition keeps :: "task list \<times> task list \<times> answer option \<times> session_mode \<Rightarrow> dstep \<Rightarrow> bool" where
  "keeps L x \<longleftrightarrow> launch_part (fst x) = L \<and> launch_sends (snd x) = [] \<and> ToldInitialized \<notin> set (snd x)"

lemma launch_part_simps [simp]:
  "launch_part (d\<lparr>db_running := b\<rparr>) = launch_part d" "launch_part (d\<lparr>db_gdb := b\<rparr>) = launch_part d" "launch_part (d\<lparr>db_continuing := b\<rparr>) = launch_part d"
  "launch_part (d\<lparr>db_suppress := b\<rparr>) = launch_part d" "launch_part (d\<lparr>db_configured := b\<rparr>) = launch_part d" "launch_part (d\<lparr>db_restarting := b\<rparr>) = launch_part d"
  "launch_part (d\<lparr>db_ending := b\<rparr>) = launch_part d" "launch_part (d\<lparr>db_waiting := n\<rparr>) = launch_part d" "launch_part (d\<lparr>db_stopped_thread := t\<rparr>) = launch_part d"
  "launch_part (d\<lparr>db_threads := ts\<rparr>) = launch_part d"
  by (simp_all add: launch_part_def)

lemma keeps_tell: "launch_part d = L \<Longrightarrow> launch_sends out = [] \<Longrightarrow> ToldInitialized \<notin> set out \<Longrightarrow> keeps L (d, out)"
  by (simp add: keeps_def)

lemma command_launch: "command_task j \<Longrightarrow> launch_task j \<or> pre_task j"
  by (cases j rule: command_task.cases) auto

lemma keeps_await: "launch_part d = L \<Longrightarrow> \<not> launch_task j \<Longrightarrow> \<not> pre_task j \<Longrightarrow> launch_part (await_task j d) = L"
  by (auto simp: launch_part_def await_task_def)

lemma keeps_send: "launch_part d = L \<Longrightarrow> \<not> launch_task j \<Longrightarrow> \<not> pre_task j \<Longrightarrow> keeps L (send_task c j d)"
  using command_launch[of j] by (auto simp: keeps_def send_task_def keeps_await)

lemma keeps_ask: "launch_part d = L \<Longrightarrow> \<not> launch_task j \<Longrightarrow> \<not> pre_task j \<Longrightarrow> keeps L (ask_task j d)"
  by (auto simp: keeps_def ask_task_def keeps_await)

lemma keeps_and_then:
  assumes "keeps L x" "\<And>d. launch_part d = L \<Longrightarrow> keeps L (f d)" shows "keeps L (and_then x f)"
  using assms(1) assms(2)[of "fst x"] by (simp add: keeps_def and_then_def case_prod_beta)

named_theorems keep \<open>operations that leave a launch alone\<close>

lemmas keep_basic = keeps_tell keeps_send keeps_ask keeps_and_then

lemma keeps_quit [keep]: "launch_part d = L \<Longrightarrow> keeps L (quit_event d)"
  by (auto simp: quit_event_def intro!: keep_basic)

lemma keeps_stop [keep]: "launch_part d = L \<Longrightarrow> keeps L (stop_event cf info reason d)"
  by (auto simp: stop_event_def notify_stopped_def Let_def intro!: keep_basic keep split: if_splits)

lemma keeps_running [keep]: "launch_part d = L \<Longrightarrow> keeps L (running_internal d)"
  by (auto simp: running_internal_def intro!: keep_basic)

lemma keeps_try [keep]: "launch_part d = L \<Longrightarrow> keeps L (try_continue d)"
  by (auto simp: try_continue_def intro!: keep_basic)

lemma keeps_when_possible [keep]: "launch_part d = L \<Longrightarrow> keeps L (continue_when_possible d)"
  by (auto simp: continue_when_possible_def intro!: keep_basic keep)

lemma keeps_fire [keep]: "launch_part d = L \<Longrightarrow> keeps L (fire_listeners n d)"
  by (induction n arbitrary: d) (auto intro!: keep_basic keep)

lemma keeps_mode_done [keep]: "launch_part d = L \<Longrightarrow> keeps L (mode_done origin d)"
  by (auto simp: mode_done_def intro!: keep_basic split: mode_origin.split)

lemma keeps_mode_tell [keep]: "launch_part d = L \<Longrightarrow> keeps L (mode_tell cf origin d)"
  by (auto simp: mode_tell_def intro!: keep_basic keep)

lemma keeps_mode_finish [keep]: "launch_part d = L \<Longrightarrow> keeps L (mode_finish origin continue d)"
  by (auto simp: mode_finish_def intro!: keep_basic keep)

lemma keeps_mode_ready [keep]: "launch_part d = L \<Longrightarrow> keeps L (mode_ready origin continue delay d)"
  by (auto simp: mode_ready_def Let_def intro!: keep_basic keep)

lemma keeps_mode_commands [keep]: "launch_part d = L \<Longrightarrow> keeps L (mode_commands origin cmds continue delay d)"
  by (auto simp: mode_commands_def intro!: keep_basic keep split: list.split)

lemma keeps_mode_planned [keep]: "launch_part d = L \<Longrightarrow> keeps L (mode_planned cf origin d)"
  by (auto simp: mode_planned_def intro!: keep split: prod.split)

lemma keeps_mode_swo [keep]: "launch_part d = L \<Longrightarrow> keeps L (mode_swo cf origin cmds d)"
  by (auto simp: mode_swo_def intro!: keep_basic keep split: list.split)

lemma keeps_mode_answered [keep]: "launch_part d = L \<Longrightarrow> keeps L (mode_answered cf origin p a d)"
  by (cases p; cases a) (auto intro!: keep_basic keep)

lemma keeps_end_commands [keep]: "launch_part d = L \<Longrightarrow> keeps L (end_commands q detach cmds d)"
  by (auto simp: end_commands_def end_defs intro!: keep_basic split: list.split)

lemma keeps_end_gdb [keep]: "launch_part d = L \<Longrightarrow> keeps L (end_gdb q detach d)"
  by (auto simp: end_gdb_def end_defs intro!: keep_basic)

lemma keeps_finish [keep]: "launch_part d = L \<Longrightarrow> keeps L (finish_session cf q detach d)"
  by (auto simp: finish_session_def end_defs Let_def intro!: keep_basic keep)

lemma keeps_end_answered [keep]: "launch_part d = L \<Longrightarrow> keeps L (end_answered cf q detach p a d)"
  by (cases p; cases a) (auto simp: end_defs intro!: keep_basic keep)

lemma keeps_reset_send [keep]: "launch_part d = L \<Longrightarrow> keeps L (reset_send cf q cmds d)"
  by (auto simp: reset_send_def reset_commands_done_def intro!: keep_basic keep split: list.split)

lemma keeps_request [keep]:
  "launch_part d = L \<Longrightarrow> ordinary (Request q r) \<Longrightarrow> keeps L (handle_request cf q r d)"
  by (cases r) (auto simp: configuration_done_def disconnect_request_def run_request_def threads_request_def stack_request_def evaluate_request_def
      keeps_await intro!: keep_basic keep split: list.split option.split prod.split)

lemma keeps_answered [keep]:
  "launch_part d = L \<Longrightarrow> \<not> launch_task j \<Longrightarrow> \<not> pre_task j \<Longrightarrow> keeps L (answered cf j a d)"
proof (cases j)
  case (JLaunch q p)
  assume "launch_part d = L" "\<not> launch_task j"
  with JLaunch show ?thesis by (cases a) (auto intro!: keep_basic)
qed (auto simp: answer_with_def intro!: keep_basic keep split: answer.split sum.split prod.split option.split)

subsection \<open>Where a launch can be\<close>

text \<open>The commands before the connection: all done, one refused, or one sent.\<close>

definition pre_state :: "jstr list \<Rightarrow> debug \<Rightarrow> (jstr + bool) list \<Rightarrow> bool" where
  "pre_state pre d log \<longleftrightarrow> filter pre_task (db_tasks d) = [] \<and> (\<exists>rs. db_pre d = Some (GdbDone rs)) \<and> log = in_turn pre \<or>
     filter pre_task (db_tasks d) = [] \<and> (\<exists>e. db_pre d = Some (GdbError e)) \<and> (\<exists>as c bs. pre = as @ c # bs \<and> log = in_turn as @ [Inl c, Inr False]) \<or>
     db_pre d = None \<and> (\<exists>as c bs. pre = as @ c # bs \<and> filter pre_task (db_tasks d) = [JPreConnect (c # bs)] \<and> log = in_turn as @ [Inl c])"

text \<open>A launch that has come to its end, successful or not: its commands so far, the last one perhaps refused.\<close>

definition over :: "jstr list \<Rightarrow> (jstr + bool) list \<Rightarrow> bool" where
  "over cs log \<longleftrightarrow> (\<exists>as bs. cs = as @ bs \<and> log = in_turn as) \<or> (\<exists>as c bs. cs = as @ c # bs \<and> log = in_turn as @ [Inl c, Inr False])"

text \<open>\<open>told\<close>: whether the client was told that the session is initialized.\<close>

definition launch_at :: "session_config \<Rightarrow> session_mode \<Rightarrow> nat \<Rightarrow> debug \<Rightarrow> (jstr + bool) list \<Rightarrow> bool \<Rightarrow> bool" where
  "launch_at cf mode q d log told \<longleftrightarrow>
     (let pre = cf_pre_connect cf; conn = connect_commands_pre cf mode; post = connect_commands_post cf mode;
          ls = filter launch_task (db_tasks d); ps = filter pre_task (db_tasks d)
      in db_mode d = mode \<and>
        (\<not> told \<and> ls = [JLaunch q LGdb] \<and> ps = [] \<and> db_pre d = None \<and> log = [] \<or>
         \<not> told \<and> (ls = [JLaunch q LServer] \<or> ls = [JLaunch q LPreConnect] \<or> ls = []) \<and> pre_state pre d log \<or>
         \<not> told \<and> ls = [JLaunch q LSwo] \<and> ps = [] \<and> log = in_turn pre \<or>
         \<not> told \<and> (\<exists>as c bs. ls = [JLaunch q (LConnect (c # bs))] \<and> ps = [] \<and> conn = as @ c # bs \<and> log = in_turn (pre @ as) @ [Inl c]) \<or>
         \<not> told \<and> ls = [JLaunch q LTarget] \<and> ps = [] \<and> log = in_turn (pre @ conn) \<or>
         \<not> told \<and> (\<exists>as c bs. ls = [JLaunch q (LAfterConnect (c # bs))] \<and> ps = [] \<and> post = as @ c # bs \<and> log = in_turn (pre @ conn @ as) @ [Inl c]) \<or>
         \<not> told \<and> ls = [] \<and> ps = [] \<and> over (pre @ conn @ post) log \<or>
         told \<and> ls = [] \<and> ps = [] \<and> log = in_turn (pre @ conn @ post)))"

text \<open>In all of these the commands of the log come in order, each after the answer to the one before.\<close>

lemma launch_at_log:
  assumes "launch_at cf mode q d log told"
  shows "\<exists>as bs tl. cf_pre_connect cf @ connect_commands_pre cf mode @ connect_commands_post cf mode = as @ bs \<and> log = in_turn as @ tl \<and>
    (tl = [] \<or> bs \<noteq> [] \<and> (tl = [Inl (hd bs)] \<or> tl = [Inl (hd bs), Inr False]))"
proof -
  let ?pre = "cf_pre_connect cf" and ?conn = "connect_commands_pre cf mode" and ?post = "connect_commands_post cf mode"
  have turned: ?thesis if "?pre @ ?conn @ ?post = as @ bs" "log = in_turn as" for as bs using that by blast
  have sent: ?thesis if "?pre @ ?conn @ ?post = as @ c # bs" "log = in_turn as @ tl" "tl = [Inl c] \<or> tl = [Inl c, Inr False]" for as c bs tl
    using that by (intro exI[of _ as] exI[of _ "c # bs"] exI[of _ tl]) auto
  have pre: ?thesis if "pre_state ?pre d log"
    using that unfolding pre_state_def
  proof (elim disjE conjE exE)
    fix as c bs assume "?pre = as @ c # bs" "log = in_turn as @ [Inl c, Inr False]"
    then show ?thesis using sent[of as c "bs @ ?conn @ ?post"] by simp
  next
    fix as c bs assume "?pre = as @ c # bs" "log = in_turn as @ [Inl c]"
    then show ?thesis using sent[of as c "bs @ ?conn @ ?post"] by simp
  qed (use turned[of ?pre] in simp)
  show ?thesis
    using assms unfolding launch_at_def Let_def
  proof (elim conjE disjE exE)
    fix as c bs assume "?conn = as @ c # bs" "log = in_turn (?pre @ as) @ [Inl c]"
    then show ?thesis using sent[of "?pre @ as" c "bs @ ?post"] by simp
  next
    fix as c bs assume "?post = as @ c # bs" "log = in_turn (?pre @ ?conn @ as) @ [Inl c]"
    then show ?thesis using sent[of "?pre @ ?conn @ as" c bs] by simp
  next
    assume "over (?pre @ ?conn @ ?post) log"
    then show ?thesis unfolding over_def using turned sent by blast
  qed (use pre turned[of "[]"] turned[of ?pre] turned[of "?pre @ ?conn"] turned[of "?pre @ ?conn @ ?post" "[]"] in simp_all)
qed

subsection \<open>Every step of a launch\<close>

lemma launch_at_part: "launch_part d' = launch_part d \<Longrightarrow> launch_at cf mode q d' log told = launch_at cf mode q d log told"
  by (simp add: launch_at_def pre_state_def launch_part_def)

lemma await_filters [simp]:
  "filter P (db_tasks (await_task j d)) = (if P j then j # filter P (db_tasks d) else filter P (db_tasks d))"
  "db_pre (await_task j d) = db_pre d" "db_mode (await_task j d) = db_mode d"
  by (simp_all add: await_task_def)

text \<open>An answer to a command before the connection.\<close>

lemma pre_answered:
  assumes "pre_state pre d log" "JPreConnect cs \<in> set (db_tasks d)"
    and "answered cf (JPreConnect cs) a (d\<lparr>db_tasks := remove1 (JPreConnect cs) (db_tasks d)\<rparr>) = (d', out)"
  shows "pre_state pre d' (log @ Inr (succeeded a) # launch_sends out) \<and> filter launch_task (db_tasks d') = filter launch_task (db_tasks d) \<and>
    db_mode d' = db_mode d \<and> ToldInitialized \<notin> set out"
proof -
  have mem: "JPreConnect cs \<in> set (filter pre_task (db_tasks d))" using assms(2) by simp
  then have "filter pre_task (db_tasks d) \<noteq> []" by (metis list.set(1) empty_iff)
  then obtain as c bs where n: "db_pre d = None" "pre = as @ c # bs" "filter pre_task (db_tasks d) = [JPreConnect (c # bs)]" "log = in_turn as @ [Inl c]"
    using assms(1) unfolding pre_state_def by blast
  have cs: "cs = c # bs" using mem unfolding n(3) by simp
  let ?d = "d\<lparr>db_tasks := remove1 (JPreConnect cs) (db_tasks d)\<rparr>"
  have r: "filter launch_task (remove1 (JPreConnect cs) (db_tasks d)) = filter launch_task (db_tasks d)"
    "filter pre_task (remove1 (JPreConnect cs) (db_tasks d)) = []"
    using n(3) cs by (simp_all add: filter_remove1 remove1_idem)
  show ?thesis
  proof (cases a)
    case (GdbError e)
    with assms(3) n r show ?thesis by (auto simp: pre_state_def)
  next
    case (GdbDone rs)
    show ?thesis
    proof (cases bs)
      case Nil
      with assms(3) GdbDone n r cs show ?thesis by (auto simp: pre_state_def pre_connect_def)
    next
      case (Cons c2 bs2)
      with assms(3) GdbDone cs have x: "d' = await_task (JPreConnect (c2 # bs2)) ?d" "out = [Send c2 (JPreConnect (c2 # bs2))]"
        by (auto simp: pre_connect_def send_task_def)
      have "pre = (as @ [c]) @ c2 # bs2" "log @ [Inr True, Inl c2] = in_turn (as @ [c]) @ [Inl c2]" using n Cons by simp_all
      with x n r GdbDone show ?thesis unfolding pre_state_def by fastforce
    qed
  qed
qed

text \<open>After the last command the response is given, and nothing of the launch is sent any more.\<close>

lemma launch_ready_ends:
  assumes "launch_ready cf q d = (d', out)" shows "launch_part d' = launch_part d \<and> launch_sends out = [] \<and> ToldInitialized \<in> set out"
proof -
  obtain d1 o1 where x: "(if is_running d then ask_task (JLaunch q LTail) (d\<lparr>db_suppress := False\<rparr>) else mode_swo cf (FromLaunch q) (cf_swo_rtt cf) d) = (d1, o1)"
    by force
  have "keeps (launch_part d) (if is_running d then ask_task (JLaunch q LTail) (d\<lparr>db_suppress := False\<rparr>) else mode_swo cf (FromLaunch q) (cf_swo_rtt cf) d)"
    by (auto intro!: keeps_ask keeps_mode_swo)
  with x assms show ?thesis by (auto simp: keeps_def launch_ready_def and_then_def)
qed

text \<open>The commands after the look at the target, from one on.\<close>

lemma launch_connected_at:
  assumes "launch_connected cf q bs d = (d', out)" "db_mode d = mode" "filter launch_task (db_tasks d) = []" "filter pre_task (db_tasks d) = []"
    and "connect_commands_post cf mode = as @ bs" "log = in_turn (cf_pre_connect cf @ connect_commands_pre cf mode @ as)"
  shows "launch_at cf mode q d' (log @ launch_sends out) (ToldInitialized \<in> set out)"
proof (cases bs)
  case Nil
  with assms(1) have "launch_ready cf q d = (d', out)" by (simp add: launch_connected_def)
  from launch_ready_ends[OF this] Nil assms show ?thesis by (simp add: launch_at_def launch_part_def)
next
  case (Cons c cs)
  with assms(1) have "d' = await_task (JLaunch q (LAfterConnect (c # cs))) d" "out = [Send c (JLaunch q (LAfterConnect (c # cs)))]"
    by (auto simp: launch_connected_def send_task_def)
  with assms Cons show ?thesis by (simp add: launch_at_def)
qed

text \<open>The commands that connect, from one on.\<close>

lemma launch_connect_at:
  assumes "launch_connect q bs d = (d', out)" "db_mode d = mode" "filter launch_task (db_tasks d) = []" "filter pre_task (db_tasks d) = []"
    and "connect_commands_pre cf mode = as @ bs" "log = in_turn (cf_pre_connect cf @ as)"
  shows "launch_at cf mode q d' (log @ launch_sends out) False \<and> ToldInitialized \<notin> set out"
proof (cases bs)
  case Nil
  with assms(1) have "d' = await_task (JLaunch q LTarget) d" "out = [Ask (JLaunch q LTarget)]" by (auto simp: launch_connect_def ask_task_def)
  with assms Nil show ?thesis by (simp add: launch_at_def)
next
  case (Cons c cs)
  with assms(1) have "d' = await_task (JLaunch q (LConnect (c # cs))) d" "out = [Send c (JLaunch q (LConnect (c # cs)))]"
    by (auto simp: launch_connect_def send_task_def)
  with assms Cons show ?thesis by (simp add: launch_at_def)
qed

text \<open>An answer to another task of the launch.\<close>

lemma launch_answered_at:
  assumes at: "launch_at cf mode q d log told" and j: "JLaunch q' p \<in> set (db_tasks d)" "p \<noteq> LTail"
    and st: "launch_answered cf q' p a (d\<lparr>db_tasks := remove1 (JLaunch q' p) (db_tasks d)\<rparr>) = (d', out)"
  shows "launch_at cf mode q d' (log @ launch_heard d (Answered (JLaunch q' p) a) @ launch_sends out) (told \<or> ToldInitialized \<in> set out)"
proof -
  let ?d = "d\<lparr>db_tasks := remove1 (JLaunch q' p) (db_tasks d)\<rparr>"
  let ?pre = "cf_pre_connect cf" and ?conn = "connect_commands_pre cf mode" and ?post = "connect_commands_post cf mode"
  have mem: "JLaunch q' p \<in> set (filter launch_task (db_tasks d))" using j by simp
  then have ne: "filter launch_task (db_tasks d) \<noteq> []" by (metis list.set(1) empty_iff)
  have one: "\<exists>p. filter launch_task (db_tasks d) = [JLaunch q p]" using at ne unfolding launch_at_def Let_def by blast
  then obtain pa where "filter launch_task (db_tasks d) = [JLaunch q pa]" by blast
  with mem have "JLaunch q' p \<in> set [JLaunch q pa]" by metis
  then have q: "q' = q" and "pa = p" by simp_all
  with \<open>filter launch_task (db_tasks d) = _\<close> have ls: "filter launch_task (db_tasks d) = [JLaunch q p]" by simp
  have told: "\<not> told" using at ne unfolding launch_at_def Let_def by blast
  have part: "filter launch_task (db_tasks ?d) = []" "filter pre_task (db_tasks ?d) = filter pre_task (db_tasks d)" "db_mode ?d = mode" "db_pre ?d = db_pre d"
    using ls q at by (simp_all add: filter_remove1 remove1_idem launch_at_def Let_def)
  note at' = at[unfolded launch_at_def Let_def ls]
  show ?thesis
  proof (cases p)
    case LGdb
    with at' have n: "filter pre_task (db_tasks d) = []" "db_pre d = None" "log = []" by auto
    show ?thesis
    proof (cases a)
      case (GdbError e)
      with st LGdb have "d' = ?d" "out = [AnswerError q']" by auto
      moreover have "over (?pre @ ?conn @ ?post) []" unfolding over_def by (rule disjI1, rule exI[of _ "[]"]) simp
      ultimately show ?thesis using part n told LGdb by (simp add: launch_at_def Let_def)
    next
      case (GdbDone rs)
      show ?thesis
      proof (cases ?pre)
        case Nil
        with st LGdb GdbDone q have "d' = await_task (JLaunch q LServer) (?d\<lparr>db_pre := Some (GdbDone [])\<rparr>)" "out = [Ask (JLaunch q LServer)]"
          by (auto simp: pre_connect_def and_then_def ask_task_def)
        with part n told LGdb Nil show ?thesis by (simp add: launch_at_def pre_state_def)
      next
        case (Cons c cs)
        with st LGdb GdbDone q have "d' = await_task (JLaunch q LServer) (await_task (JPreConnect (c # cs)) ?d)"
          "out = [Send c (JPreConnect (c # cs)), Ask (JLaunch q LServer)]"
          by (auto simp: pre_connect_def and_then_def ask_task_def send_task_def)
        with part n told LGdb Cons show ?thesis by (simp add: launch_at_def pre_state_def)
      qed
    qed
  next
    case LServer
    with at' have n: "pre_state ?pre d log" by auto
    then have "pre_state ?pre ?d log" using part by (simp add: pre_state_def)
    moreover have "pre_state ?pre (await_task (JLaunch q LPreConnect) x) log = pre_state ?pre x log" for x by (simp add: pre_state_def)
    moreover have "d' = (if \<exists>rs. a = GdbDone rs then await_task (JLaunch q LPreConnect) ?d else ?d) \<and> launch_sends out = [] \<and> ToldInitialized \<notin> set out"
      using st LServer q by (cases a) (auto simp: ask_task_def)
    ultimately show ?thesis using part told LServer by (simp add: launch_at_def)
  next
    case LPreConnect
    with at' have n: "pre_state ?pre d log" by auto
    then have s: "pre_state ?pre ?d log" using part by (simp add: pre_state_def)
    show ?thesis
    proof (cases "db_pre d")
      case None
      with st LPreConnect q have "d' = await_task (JLaunch q LPreConnect) ?d" "out = []" by auto
      moreover have "pre_state ?pre (await_task (JLaunch q LPreConnect) ?d) log" using s by (simp add: pre_state_def)
      ultimately show ?thesis using part told LPreConnect by (simp add: launch_at_def)
    next
      case (Some b)
      show ?thesis
      proof (cases b)
        case (GdbError e)
        with st LPreConnect Some have "d' = ?d" "out = [AnswerError q']" by auto
        with part told LPreConnect s show ?thesis by (simp add: launch_at_def)
      next
        case (GdbDone rs)
        with st LPreConnect Some q have "d' = await_task (JLaunch q LSwo) ?d" "out = [Ask (JLaunch q LSwo)]" by (auto simp: ask_task_def)
        moreover have "filter pre_task (db_tasks d) = []" "log = in_turn ?pre" using n Some GdbDone by (auto simp: pre_state_def)
        ultimately show ?thesis using part told LPreConnect by (simp add: launch_at_def)
      qed
    qed
  next
    case LSwo
    with at' have n: "filter pre_task (db_tasks d) = []" "log = in_turn ?pre" by auto
    show ?thesis
    proof (cases a)
      case (GdbError e)
      with st LSwo have "d' = ?d" "out = [AnswerError q']" by auto
      moreover have "over (?pre @ ?conn @ ?post) log" unfolding over_def n(2) by (rule disjI1, rule exI[of _ ?pre]) simp
      ultimately show ?thesis using part n told LSwo by (simp add: launch_at_def Let_def)
    next
      case (GdbDone rs)
      obtain d1 o1 where x: "launch_connect q ?conn ?d = (d1, o1)" by force
      with st LSwo GdbDone q part(3) have "d' = d1" "out = ToldStarted ''post-start-server'' # o1" by (auto simp: and_then_def)
      with launch_connect_at[OF x part(3,1), of cf "[]" log] part(2) n told LSwo show ?thesis by simp
    qed
  next
    case (LConnect cs)
    with at' obtain as c bs where n: "filter pre_task (db_tasks d) = []" "cs = c # bs" "?conn = as @ c # bs" "log = in_turn (?pre @ as) @ [Inl c]" by auto
    show ?thesis
    proof (cases a)
      case (GdbError e)
      with st LConnect have "d' = ?d" "out = [AnswerError q']" by auto
      moreover have "over (?pre @ ?conn @ ?post) (in_turn (?pre @ as) @ [Inl c, Inr False])"
        unfolding over_def n(3) by (intro disjI2 exI[of _ "?pre @ as"] exI[of _ c] exI[of _ "bs @ ?post"]) simp
      ultimately show ?thesis using part n j told LConnect GdbError by (simp add: launch_at_def)
    next
      case (GdbDone rs)
      with st LConnect n(2) q have x: "launch_connect q bs ?d = (d', out)" by simp
      have "log @ [Inr True] = in_turn (?pre @ as @ [c])" using n(4) by simp
      from launch_connect_at[OF x part(3,1), of cf "as @ [c]", OF _ _ this] part(2) n j told LConnect GdbDone show ?thesis by simp
    qed
  next
    case LTarget
    with at' have n: "filter pre_task (db_tasks d) = []" "log = in_turn (?pre @ ?conn)" by auto
    show ?thesis
    proof (cases a)
      case (GdbError e)
      with st LTarget have "d' = ?d" "out = [AnswerError q']" by auto
      moreover have "over (?pre @ ?conn @ ?post) log" unfolding over_def n(2) by (rule disjI1, rule exI[of _ "?pre @ ?conn"]) simp
      ultimately show ?thesis using part n told LTarget by (simp add: launch_at_def)
    next
      case (GdbDone rs)
      with st LTarget q part(3) have x: "launch_connected cf q ?post ?d = (d', out)" by simp
      from launch_connected_at[OF x part(3,1), of "[]" log] part(2) n told LTarget show ?thesis by simp
    qed
  next
    case (LAfterConnect cs)
    with at' obtain as c bs where n: "filter pre_task (db_tasks d) = []" "cs = c # bs" "?post = as @ c # bs" "log = in_turn (?pre @ ?conn @ as) @ [Inl c]" by auto
    show ?thesis
    proof (cases a)
      case (GdbError e)
      with st LAfterConnect have "d' = ?d" "out = [AnswerError q']" by auto
      moreover have "over (?pre @ ?conn @ ?post) (in_turn (?pre @ ?conn @ as) @ [Inl c, Inr False])"
        unfolding over_def n(3) by (intro disjI2 exI[of _ "?pre @ ?conn @ as"] exI[of _ c] exI[of _ bs]) simp
      ultimately show ?thesis using part n j told LAfterConnect GdbError by (simp add: launch_at_def)
    next
      case (GdbDone rs)
      with st LAfterConnect n(2) q have x: "launch_connected cf q bs ?d = (d', out)" by simp
      have "log @ [Inr True] = in_turn (?pre @ ?conn @ as @ [c])" using n(4) by simp
      from launch_connected_at[OF x part(3,1), of "as @ [c]", OF _ _ this] part(2) n j told LAfterConnect GdbDone show ?thesis by simp
    qed
  qed (use j in simp)
qed

lemma launch_at_kept:
  assumes "launch_at cf mode q d log told" "keeps (launch_part d) (d', out)"
  shows "launch_at cf mode q d' (log @ launch_sends out) (told \<or> ToldInitialized \<in> set out)"
  using assms launch_at_part[of d' d] by (simp add: keeps_def)

lemma launch_at_step:
  assumes at: "launch_at cf mode q d log told" and e: "ordinary e" and st: "debug_step cf d e = (d', out)"
  shows "launch_at cf mode q d' (log @ launch_heard d e @ launch_sends out) (told \<or> ToldInitialized \<in> set out)"
proof -
  have kept: ?thesis if "keeps (launch_part d) (d', out)" "launch_heard d e = []" using launch_at_kept[OF at that(1)] that(2) by simp
  show ?thesis
  proof (cases e)
    case (Request q r)
    with st e keeps_request[OF refl, of q r d cf] show ?thesis by (intro kept) simp_all
  next
    case (Answered j a)
    let ?d = "d\<lparr>db_tasks := remove1 j (db_tasks d)\<rparr>"
    show ?thesis
    proof (cases "j \<in> set (db_tasks d)")
      case False
      with st Answered show ?thesis by (intro kept) (auto simp: keeps_def)
    next
      case True
      with st Answered have st': "answered cf j a ?d = (d', out)" by simp
      consider (pre) cs where "j = JPreConnect cs" | (launch) q' p where "j = JLaunch q' p" "p \<noteq> LTail" | (other) "\<not> launch_task j" "\<not> pre_task j"
        by (cases j) auto
      then show ?thesis
      proof cases
        case (pre cs)
        have "JPreConnect cs \<in> set (filter pre_task (db_tasks d))" using True pre by simp
        then have "filter pre_task (db_tasks d) \<noteq> []" by (metis list.set(1) empty_iff)
        then have s: "\<not> told" "pre_state (cf_pre_connect cf) d log" "db_mode d = mode"
          "filter launch_task (db_tasks d) = [JLaunch q LServer] \<or> filter launch_task (db_tasks d) = [JLaunch q LPreConnect] \<or> filter launch_task (db_tasks d) = []"
          using at unfolding launch_at_def Let_def by blast+
        from pre_answered[OF s(2) True[unfolded pre] st'[unfolded pre]] s True pre Answered show ?thesis by (simp add: launch_at_def)
      next
        case (launch q' p)
        from launch_answered_at[OF at True[unfolded launch(1)] launch(2), of a d' out] st' launch Answered show ?thesis by simp
      next
        case other
        then have "launch_part ?d = launch_part d" by (auto simp: launch_part_def filter_remove1 intro!: remove1_idem)
        with keeps_answered[OF _ other, of ?d "launch_part d" cf a] st' have "keeps (launch_part d) (d', out)" by simp
        moreover have "\<not> command_task j" using other command_launch by blast
        ultimately show ?thesis using Answered by (intro kept) simp_all
      qed
    qed
  next
    case GdbRuns
    with st show ?thesis by (intro kept) (auto simp: handle_running_def keeps_def running_internal_def split: if_splits)
  next
    case (GdbStops rs reason)
    have "keeps (launch_part d) (gdb_stops cf rs reason d)" by (auto simp: gdb_stops_def Let_def intro!: keep_basic keep)
    with st GdbStops show ?thesis by (intro kept) (auto simp: keeps_def split: if_splits)
  next
    case GdbQuits
    with st keeps_quit[of d "launch_part d"] show ?thesis by (intro kept) (auto simp: keeps_def split: if_splits)
  next
    case ServerExits
    with st show ?thesis by (intro kept) (auto simp: keeps_def)
  next
    case (GdbThread what tid)
    with st show ?thesis by (intro kept) (auto simp: keeps_def split: option.splits if_splits)
  qed
qed

lemma launch_at_run:
  "launch_at cf mode q d log told \<Longrightarrow> list_all ordinary es \<Longrightarrow>
    launch_at cf mode q (fst (debug_run cf d es)) (log @ launch_log cf d es) (told \<or> ToldInitialized \<in> set (snd (debug_run cf d es)))"
proof (induction es arbitrary: d log told)
  case (Cons e es)
  obtain d1 o1 where 1: "debug_step cf d e = (d1, o1)" by force
  have "launch_at cf mode q d1 (log @ launch_heard d e @ launch_sends o1) (told \<or> ToldInitialized \<in> set o1)"
    using launch_at_step[OF Cons.prems(1) _ 1] Cons.prems(2) by simp
  from Cons.IH[OF this] Cons.prems(2) 1 show ?case by (simp add: and_then_def case_prod_beta)
qed simp

subsection \<open>Properties\<close>

text \<open>
  C33: A launch or an attach sends its commands in order, on every run of a session with one launch and no reset in
  it, whatever GDB and the other components answer and when, and with any other requests and events in between: first
  those before the connection, then those that connect, and then those that load or attach, each only after the
  one before was answered with success, and none after one that was refused. The client is told that the session is
  initialized only when all of them are done; and if all goes well they are all sent and the request is answered.
\<close>

theorem launch_sends_in_order:
  assumes "mode \<noteq> ModeReset" "r = (if mode = ModeAttach then RqAttach else RqLaunch)" "list_all ordinary es"
    and "cmds = cf_pre_connect cf @ connect_commands_pre cf mode @ connect_commands_post cf mode"
    and "log = launch_log cf debug_new (Request q r # es)"
  shows "(\<exists>as bs tl. cmds = as @ bs \<and> log = in_turn as @ tl \<and> (tl = [] \<or> bs \<noteq> [] \<and> (tl = [Inl (hd bs)] \<or> tl = [Inl (hd bs), Inr False]))) \<and>
    (ToldInitialized \<in> set (snd (debug_run cf debug_new (Request q r # es))) \<longrightarrow> log = in_turn cmds) \<and>
    sent (before q (snd (debug_run cf debug_new (good_launch cf mode q)))) = cmds \<and> Answer q \<in> set (snd (debug_run cf debug_new (good_launch cf mode q)))"
proof -
  obtain d out where r: "debug_step cf debug_new (Request q r) = (d, out)" by force
  then have d: "d = await_task (JLaunch q LGdb) (debug_new\<lparr>db_mode := mode\<rparr>)" "out = [Ask (JLaunch q LGdb)]"
    using assms(1,2) by (cases mode; auto simp: ask_task_def)+
  have at: "launch_at cf mode q d [] False" unfolding d by (simp add: launch_at_def) (simp add: debug_new_def)
  have log: "log = launch_log cf d es" using assms(5) r d(2) by simp
  have told: "(ToldInitialized \<in> set (snd (debug_run cf debug_new (Request q r # es)))) = (ToldInitialized \<in> set (snd (debug_run cf d es)))"
    using r d(2) by (simp add: and_then_def case_prod_beta)
  have a: "launch_at cf mode q (fst (debug_run cf d es)) log (ToldInitialized \<in> set (snd (debug_run cf d es)))"
    using launch_at_run[OF at assms(3)] log by simp
  have "ToldInitialized \<in> set (snd (debug_run cf d es)) \<longrightarrow> log = in_turn cmds" using a unfolding launch_at_def Let_def assms(4) by blast
  moreover have "db_tasks debug_new = []" by (simp add: debug_new_def)
  note good_launch_completes[OF this assms(1) refl, where cf = cf and q = q]
  ultimately show ?thesis using launch_at_log[OF a] told assms(4) by simp
qed

text \<open>The second of the two commands of the example is refused: nothing is sent after it, and the client is not told.\<close>

lemma launch_sends_in_order_witness:
  "launch_log plain_config debug_new (Request 1 RqLaunch # map (\<lambda>p. Answered (JLaunch 1 p) (GdbDone [])) [LGdb, LServer, LPreConnect, LSwo, LConnect [''target-select''], LTarget]
      @ [Answered (JLaunch 1 (LAfterConnect [''load''])) (GdbError ''refused'')]) =
    [Inl ''target-select'', Inr True, Inl ''load'', Inr False] \<and>
   ToldInitialized \<notin> set (snd (debug_run plain_config debug_new (Request 1 RqLaunch # map (\<lambda>p. Answered (JLaunch 1 p) (GdbDone []))
      [LGdb, LServer, LPreConnect, LSwo, LConnect [''target-select''], LTarget] @ [Answered (JLaunch 1 (LAfterConnect [''load''])) (GdbError ''refused'')]))) \<and>
   sent (before 1 (snd (debug_run plain_config debug_new (good_launch plain_config ModeLaunch 1)))) = [''target-select'', ''load'']"
proof -
  let ?es = "map (\<lambda>p. Answered (JLaunch 1 p) (GdbDone [])) [LGdb, LServer, LPreConnect, LSwo, LConnect [''target-select''], LTarget]
      @ [Answered (JLaunch 1 (LAfterConnect [''load''])) (GdbError ''refused'')]"
  have l: "launch_log plain_config debug_new (Request 1 RqLaunch # ?es) = [Inl ''target-select'', Inr True, Inl ''load'', Inr False]" by code_simp
  have o: "list_all ordinary ?es" by simp
  have c: "cf_pre_connect plain_config @ connect_commands_pre plain_config ModeLaunch @ connect_commands_post plain_config ModeLaunch = [''target-select'', ''load'']"
    by (simp add: plain_config_def connect_commands_pre_def connect_commands_post_def)
  have r: "RqLaunch = (if ModeLaunch = ModeAttach then RqAttach else RqLaunch)" by simp
  from launch_sends_in_order[OF _ r o refl refl, of plain_config 1] show ?thesis unfolding l c by simp
qed

end
