(* ===== verification/ServerCommon.thy ===== *)
theory ServerCommon
  imports GdbCommands Handles
begin

text \<open>
  What the controllers of the GDB servers share (\<open>adapter/servers/common.ts\<close>): the part of the launch configuration
  they read, commands to load a program and to set up SWO, and the TCP ports of RTT channels (\<open>RTTServerHelper\<close>).

  A text that may be missing is the empty text where the code only asks whether it is there. The file system, the
  operating system and the resolution of installed tools are a parameter (\<open>host_env\<close>).
\<close>

subsection \<open>Configuration\<close>

datatype swo_decoder = SwoPort nat | SwoAdvanced "nat list"

record swo_config =
  sw_enabled :: bool
  sw_cpu :: nat
  sw_freq :: nat
  sw_manchester :: bool
  sw_decoders :: "swo_decoder list"
  sw_profile :: bool
  sw_source :: jstr
  sw_port :: jstr
  sw_path :: jstr

text \<open>A decoder of RTT channels names one channel, or a list of them; it is told the TCP ports.\<close>

record rtt_decoder =
  rd_port :: nat
  rd_ports :: "nat list"
  rd_tcp_port :: "jstr option"
  rd_tcp_ports :: "jstr list option"

record rtt_config =
  rt_enabled :: bool
  rt_builtin :: bool
  rt_builtin_port :: "nat option"
  rt_clear :: bool
  rt_address :: "jstr option"
  rt_search_size :: "nat option"
  rt_search_id :: "jstr option"
  rt_polling :: "nat option"
  rt_retry :: "nat option"
  rt_decoders :: "rtt_decoder list"

record server_args =
  sa_request :: jstr
  sa_reset_mode :: bool
  sa_serverpath :: jstr
  sa_server_args :: "jstr list"
  sa_nprocs :: "int option"
  sa_target :: int
  sa_interface :: jstr
  sa_device :: jstr
  sa_serial :: jstr
  sa_ip :: jstr
  sa_rtos :: jstr
  sa_load_files :: "jstr list option"
  sa_run_to_entry :: jstr
  sa_break_after_reset :: bool
  sa_swo :: swo_config
  sa_rtt :: rtt_config
  sa_cwd :: jstr
  sa_jlinkscript :: jstr
  sa_config_files :: "jstr list option"
  sa_search_dir :: "jstr list"
  sa_openocd_launch :: "jstr list"
  sa_openocd_pre :: "jstr list"
  sa_extension_path :: jstr
  sa_host :: bool
  sa_sync_files :: "(jstr \<times> jstr) list"
  sa_board :: jstr
  sa_target_id :: jstr
  sa_cmsis_pack :: jstr
  sa_v1 :: bool
  sa_cubeprog :: jstr
  sa_bmp_port :: jstr
  sa_power :: jstr
  sa_cpu :: jstr
  sa_machine :: jstr
  sa_executable :: jstr
  sa_gdb_target :: jstr

text \<open>The host: its platform, what exists, \<open>path.join\<close>, and the tools found in the directories of the vendor.\<close>

datatype platform = Win32 | Darwin | OtherOs

record host_env =
  ho_platform :: platform
  ho_exists :: "jstr \<Rightarrow> bool"
  ho_command :: "jstr \<Rightarrow> bool"
  ho_join :: "jstr list \<Rightarrow> jstr"
  ho_clt :: jstr
  ho_cube_server :: jstr
  ho_cube_prog :: jstr
  ho_program_files :: jstr

text \<open>A missing value in a template is printed as such.\<close>

definition show_opt :: "('a \<Rightarrow> jstr) \<Rightarrow> 'a option \<Rightarrow> jstr" where
  "show_opt f x = (case x of None \<Rightarrow> ''undefined'' | Some v \<Rightarrow> f v)"

subsection \<open>Helpers of all controllers\<close>

definition exec_console :: "jstr \<Rightarrow> jstr" where
  "exec_console c = ''interpreter-exec console '' @ [DQ] @ c @ [DQ]"

text \<open>A TCP port: as the debugger sees it, and as the server does.\<close>

type_synonym port_map = "(jstr \<times> (nat \<times> nat)) list"

definition create_port_name :: "int \<Rightarrow> jstr \<Rightarrow> jstr" where
  "create_port_name p prefix = prefix @ (if p = 0 then [] else show_int p)"

definition remote_port :: "port_map \<Rightarrow> jstr \<Rightarrow> nat option" where
  "remote_port ps nm = map_option snd (map_of ps nm)"

definition local_port :: "port_map \<Rightarrow> jstr \<Rightarrow> nat option" where
  "local_port ps nm = map_option fst (map_of ps nm)"

text \<open>The commands of \<open>connectCommands\<close> shared by all servers on a TCP port; a missing port raises.\<close>

definition connect_tcp :: "server_args \<Rightarrow> port_map \<Rightarrow> jstr list option" where
  "connect_tcp a ps = map_option (\<lambda>p. [''target-select extended-remote 127.0.0.1:'' @ show_nat p])
     (local_port ps (create_port_name (sa_target a) ''gdbPort''))"

definition forward_slashes :: "jstr \<Rightarrow> jstr" where
  "forward_slashes s = map (\<lambda>c. if c = BSL then CHR ''/'' else c) s"

definition gen_download_commands :: "server_args \<Rightarrow> jstr list \<Rightarrow> jstr list" where
  "gen_download_commands a pre = (case sa_load_files a of
     Some [] \<Rightarrow> []
   | Some fs \<Rightarrow> pre @ concat (map (\<lambda>f. [''file-exec-file '' @ [DQ] @ forward_slashes f @ [DQ], ''target-download'']) fs)
   | None \<Rightarrow> pre @ [''target-download''])"

definition port_bit :: "nat \<Rightarrow> 32 word" where
  "port_bit p = push_bit (p mod 32) 1"

definition decoder_ports :: "swo_decoder \<Rightarrow> nat list" where
  "decoder_ports d = (case d of SwoPort p \<Rightarrow> [p] | SwoAdvanced ps \<Rightarrow> ps)"

definition calculate_port_mask :: "swo_decoder list \<Rightarrow> 32 word" where
  "calculate_port_mask ds = foldl (\<lambda>m d. foldl (\<lambda>m p. or m (port_bit p)) m (decoder_ports d)) 0 ds"

definition show_mask :: "swo_decoder list \<Rightarrow> jstr" where
  "show_mask ds = ''0x'' @ show_hex (unat (calculate_port_mask ds))"

definition gdb_swo_init :: "swo_config \<Rightarrow> jstr list" where
  "gdb_swo_init c =
     [''set $cpuFreq = '' @ show_nat (sw_cpu c), ''set $swoFreq = '' @ show_nat (sw_freq c), ''set $swoPortMask = '' @ show_mask (sw_decoders c),
      ''set $swoFormat = '' @ (if sw_manchester c then ''1'' else ''2''), ''SWO_Init''] @
     (if sw_profile c then [''EnablePCSample''] else [])"

definition swo_commands :: "server_args \<Rightarrow> jstr list" where
  "swo_commands a = (if sw_enabled (sa_swo a) then map exec_console (gdb_swo_init (sa_swo a)) else [])"

text \<open>The sources of SWO data announced to the front end.\<close>

datatype swo_event =
    SwoSocket jstr
  | SwoSerial jstr nat
  | SwoFile jstr
  | SwoFifo jstr
  | SwoUsb jstr jstr

definition swo_socket_at :: "port_map \<Rightarrow> jstr \<Rightarrow> swo_event list option" where
  "swo_socket_at ps nm = map_option (\<lambda>p. [SwoSocket (show_nat p)]) (local_port ps nm)"

subsection \<open>RTT channels\<close>

text \<open>The TCP port of each channel, by rising channel number as the keys of the object are enumerated.\<close>

type_synonym channel_map = "(nat \<times> jstr) list"

fun set_channel :: "nat \<Rightarrow> jstr \<Rightarrow> channel_map \<Rightarrow> channel_map" where
  "set_channel c v [] = [(c, v)]"
| "set_channel c v ((c', v') # m) = (if c = c' then (c, v) # m else if c < c' then (c, v) # (c', v') # m else (c', v') # set_channel c v m)"

definition dummy_port :: jstr where "dummy_port = ''??''"

definition decoder_channels :: "rtt_decoder \<Rightarrow> nat list" where
  "decoder_channels d = (if rd_ports d = [] then [rd_port d] else rd_ports d)"

definition prepare_decoder :: "rtt_decoder \<Rightarrow> rtt_decoder" where
  "prepare_decoder d = (if rd_ports d = [] then d else d\<lparr>rd_tcp_ports := Some []\<rparr>)"

definition mark_channels :: "rtt_decoder list \<Rightarrow> channel_map \<Rightarrow> channel_map" where
  "mark_channels ds m = foldl (\<lambda>m c. set_channel c dummy_port m) m (concat (map decoder_channels ds))"

text \<open>\<open>assignPorts\<close>: a channel of a list gets its own number as port, any other the first port.\<close>

fun assign_list :: "nat list \<Rightarrow> channel_map \<Rightarrow> jstr list \<times> channel_map" where
  "assign_list [] m = ([], m)"
| "assign_list (c # cs) m =
     (let str = (case map_of m c of Some s \<Rightarrow> if s = dummy_port then show_nat c else s | None \<Rightarrow> ''undefined'');
          m = (if map_of m c = Some dummy_port then set_channel c str m else m);
          (strs, m) = assign_list cs m
      in (str # strs, m))"

definition assign_decoder :: "nat \<Rightarrow> rtt_decoder \<Rightarrow> channel_map \<Rightarrow> rtt_decoder \<times> channel_map" where
  "assign_decoder p d m =
     (if rd_ports d \<noteq> [] then let (strs, m) = assign_list (rd_ports d) m in (d\<lparr>rd_tcp_ports := Some strs\<rparr>, m)
      else (case map_of m (rd_port d) of
          None \<Rightarrow> (d\<lparr>rd_tcp_port := None\<rparr>, m)
        | Some s \<Rightarrow> if s = dummy_port then (d\<lparr>rd_tcp_port := Some (show_nat p)\<rparr>, set_channel (rd_port d) (show_nat p) m)
            else (d\<lparr>rd_tcp_port := Some s\<rparr>, m)))"

fun assign_ports :: "nat \<Rightarrow> rtt_decoder list \<Rightarrow> channel_map \<Rightarrow> rtt_decoder list \<times> channel_map" where
  "assign_ports p [] m = ([], m)"
| "assign_ports p (d # ds) m = (let (d, m) = assign_decoder p d m; (ds, m) = assign_ports p ds m in (d # ds, m))"

text \<open>
  \<open>allocateRTTPorts\<close> up to the scan for ports: nothing to do, a port that was given, or how many ports from where.
\<close>

datatype rtt_alloc = RttNone | RttGiven nat | RttScan nat nat

definition allocate_rtt_ports :: "rtt_config \<Rightarrow> bool \<Rightarrow> nat \<Rightarrow> channel_map \<Rightarrow> rtt_alloc \<times> rtt_config \<times> channel_map" where
  "allocate_rtt_ports c builtin start m =
     (if \<not> rt_enabled c \<or> rt_decoders c = [] then (RttNone, c, m)
      else if \<not> builtin \<and> rt_builtin c then (RttNone, c, m)
      else let c' = c\<lparr>rt_decoders := map prepare_decoder (rt_decoders c)\<rparr>; m' = mark_channels (rt_decoders c) m in
        (case rt_builtin_port c of
           Some p \<Rightarrow> if builtin then (if length m' \<le> 1 then (RttGiven p, c', m') else (RttScan (length m') p, c', m')) else (RttScan (length m') start, c', m')
         | None \<Rightarrow> (RttScan (length m') start, c', m')))"

text \<open>What the scan found is assigned; it finds at least one port when one was asked for.\<close>

definition rtt_assigned :: "rtt_alloc \<times> rtt_config \<times> channel_map \<Rightarrow> nat list \<Rightarrow> rtt_config \<times> channel_map" where
  "rtt_assigned r found = (case r of (alloc, c, m) \<Rightarrow>
     let with = (\<lambda>p. case assign_ports p (rt_decoders c) m of (ds, m) \<Rightarrow> (c\<lparr>rt_decoders := ds\<rparr>, m)) in
     (case alloc of RttNone \<Rightarrow> (c, m) | RttGiven p \<Rightarrow> with p | RttScan n s \<Rightarrow> (case found of p # _ \<Rightarrow> with p | [] \<Rightarrow> (c, m))))"

text \<open>\<open>emitConfigures\<close>: the decoders announced; an empty text for a port counts as none.\<close>

definition emit_configures :: "rtt_config \<Rightarrow> rtt_decoder list" where
  "emit_configures c = (if rt_enabled c
     then filter (\<lambda>d. (rd_tcp_port d \<noteq> None \<and> rd_tcp_port d \<noteq> Some []) \<or> rd_tcp_ports d \<noteq> None) (rt_decoders c) else [])"

subsection \<open>The mask of ITM ports\<close>

lemma bit_port_bit: "bit (port_bit p) i \<longleftrightarrow> i < 32 \<and> i = p mod 32"
  by (auto simp: port_bit_def bit_simps)

lemma fold_port_bits: "bit (foldl (\<lambda>m p. or m (port_bit p)) m ps) i \<longleftrightarrow> bit m i \<or> i < 32 \<and> (\<exists>p \<in> set ps. i = p mod 32)"
  by (induction ps arbitrary: m) (auto simp: bit_or_iff bit_port_bit)

text \<open>
  The mask enables exactly the ports the decoders look at: bit \<open>i\<close> is set if and only if some decoder has a port
  that is \<open>i\<close>, counted modulo 32 as the shift of the language does.
\<close>

lemma port_mask_bits:
  "bit (calculate_port_mask ds) i \<longleftrightarrow> i < 32 \<and> (\<exists>d \<in> set ds. \<exists>p \<in> set (decoder_ports d). i = p mod 32)"
proof -
  have "bit (foldl (\<lambda>m d. foldl (\<lambda>m p. or m (port_bit p)) m (decoder_ports d)) m ds) i \<longleftrightarrow>
      bit m i \<or> i < 32 \<and> (\<exists>d \<in> set ds. \<exists>p \<in> set (decoder_ports d). i = p mod 32)" for m
    by (induction ds arbitrary: m) (auto simp: fold_port_bits)
  then show ?thesis by (simp add: calculate_port_mask_def)
qed

text \<open>Ports 0 and 32 share a bit.\<close>

lemma port_mask_wraps: "calculate_port_mask [SwoPort 32, SwoAdvanced [1, 31]] = 0x80000003"
  by code_simp

end
