(* ===== verification/Controllers.thy ===== *)
theory Controllers
  imports ServerCommon
begin

text \<open>
  The controllers of the GDB servers (\<open>adapter/servers/*.ts\<close>): for each kind of server the commands GDB is given to
  connect, launch, attach, reset and trace, the arguments of the server process, the text that says it is ready and
  the sources of SWO data it announces; and the choice between them (\<open>adapter/server-session.ts\<close>).
\<close>

abbreviation monitor_halt :: jstr where "monitor_halt \<equiv> exec_console ''monitor halt''"
abbreviation monitor_reset :: jstr where "monitor_reset \<equiv> exec_console ''monitor reset''"
abbreviation monitor_reset_halt :: jstr where "monitor_reset_halt \<equiv> exec_console ''monitor reset halt''"
abbreviation mem_accessible :: jstr where "mem_accessible \<equiv> exec_console ''set mem inaccessible-by-default off''"

text \<open>Two words of a command line, left out when the second is missing.\<close>

definition flag_if :: "jstr \<Rightarrow> jstr \<Rightarrow> jstr list" where
  "flag_if flag v = (if v = [] then [] else [flag, v])"

text \<open>\<open>x.includes(p)\<close>.\<close>

fun contains :: "jstr \<Rightarrow> jstr \<Rightarrow> bool" where
  "contains p [] = (p = [])"
| "contains p (c # s) = (starts_with p (c # s) \<or> contains p s)"

subsection \<open>J-Link\<close>

definition jlink_ports :: "jstr list" where "jlink_ports = [''gdbPort'', ''swoPort'', ''consolePort'']"

definition jlink_launch :: "server_args \<Rightarrow> jstr list" where
  "jlink_launch a = monitor_halt # gen_download_commands a [monitor_reset] @ [monitor_reset]"

definition jlink_attach :: "jstr list" where "jlink_attach = [monitor_halt]"

definition jlink_reset :: "jstr list" where "jlink_reset = [monitor_halt, monitor_reset]"

text \<open>
  \<open>parseHexOrDecInt\<close> of an address. The digits after \<open>0x\<close> are read by \<open>parseInt\<close>, which skips white space and
  a second \<open>0x\<close>; signs are left out.
\<close>

definition parse_hex_digits :: "jstr \<Rightarrow> num" where
  "parse_hex_digits s = (let s = js_trim_start s; s = (if js_lower (take 2 s) = ''0x'' then drop 2 s else s);
       ds = takeWhile (\<lambda>c. hex_char_val c \<noteq> None) s in
     if ds = [] then None else base_val 16 0 ds)"

definition parse_hex_or_dec :: "jstr \<Rightarrow> num" where
  "parse_hex_or_dec s = (if starts_with ''0x'' s then parse_hex_digits (drop 2 s) else parse_int s)"

text \<open>The words of the search text are cleared, four bytes each.\<close>

definition jlink_clear :: "num \<Rightarrow> nat \<Rightarrow> jstr list" where
  "jlink_clear addr len = map (\<lambda>i. exec_console (''monitor exec memU32 0x'' @
     (case addr of None \<Rightarrow> ''NaN'' | Some x \<Rightarrow> show_hex (x + 4 * i)) @ '' = 0'')) [0..<(len + 3) div 4]"

definition jlink_rtt :: "server_args \<Rightarrow> jstr list" where
  "jlink_rtt a = (let c = sa_rtt a in
     if \<not> rt_enabled c \<or> rt_builtin c \<or> sa_reset_mode a then []
     else (if sa_request a = ''launch'' \<and> rt_clear c
           then jlink_clear (parse_hex_or_dec (case rt_address c of None \<Rightarrow> ''0'' | Some x \<Rightarrow> x)) (length (case rt_search_id c of None \<Rightarrow> [] | Some x \<Rightarrow> x)) else [])
       @ [exec_console (''monitor exec SetRTTAddr '' @ show_opt id (rt_address c))])"

text \<open>\<open>x | 0\<close>: the number is cut to a signed word.\<close>

definition to_int32 :: "nat \<Rightarrow> int" where
  "to_int32 n = sint (of_nat n :: 32 word)"

definition jlink_swo :: "server_args \<Rightarrow> jstr list" where
  "jlink_swo a = (let c = sa_swo a; m = show_mask (sw_decoders c) in map exec_console
     [''monitor SWO EnableTarget '' @ show_int (to_int32 (sw_cpu c)) @ '' '' @ show_int (to_int32 (sw_freq c)) @ '' '' @ m @ '' 0'',
      ''DisableITMPorts 0xFFFFFFFF'', ''EnableITMPorts '' @ m, ''EnableDWTSync'', ''ITMSyncEnable'',
      if sw_profile c then ''EnablePCSample'' else ''DisablePCSample''])"

definition jlink_swo_rtt :: "server_args \<Rightarrow> jstr list" where
  "jlink_swo_rtt a = (if sw_enabled (sa_swo a) then jlink_swo a else []) @ jlink_rtt a"

definition jlink_names :: "jstr list" where
  "jlink_names = [''JLinkGDBServerCLExe'', ''JLinkGDBServerCL'', ''JLinkGDBServer'']"

definition jlink_executable :: "host_env \<Rightarrow> server_args \<Rightarrow> jstr" where
  "jlink_executable h a = (if sa_serverpath a \<noteq> [] then sa_serverpath a
     else if ho_platform h = Win32 then ''JLinkGDBServerCL.exe''
     else (case filter (ho_command h) jlink_names of n # _ \<Rightarrow> n | [] \<Rightarrow> ''JLinkGDBServer''))"

definition jlink_default_rtt_port :: nat where "jlink_default_rtt_port = 19021"

definition jlink_allocate_rtt :: "server_args \<Rightarrow> channel_map \<Rightarrow> rtt_alloc \<times> rtt_config \<times> channel_map" where
  "jlink_allocate_rtt a m = (if rt_enabled (sa_rtt a) \<and> rt_decoders (sa_rtt a) = [] then (RttNone, sa_rtt a, m)
     else allocate_rtt_ports (sa_rtt a) False jlink_default_rtt_port m)"

definition jlink_arguments :: "server_args \<Rightarrow> port_map \<Rightarrow> channel_map \<Rightarrow> jstr list option" where
  "jlink_arguments a ps m = (case (remote_port ps ''gdbPort'', remote_port ps ''swoPort'', remote_port ps ''consolePort'') of
     (Some g, Some s, Some c) \<Rightarrow> Some (
       [''-singlerun'', ''-nogui'', ''-if'', sa_interface a, ''-port'', show_nat g, ''-swoport'', show_nat s, ''-telnetport'', show_nat c, ''-device'', sa_device a]
       @ (if rt_enabled (sa_rtt a) then [''-rtttelnetport'', (case m of [] \<Rightarrow> show_nat jlink_default_rtt_port | (_, p) # _ \<Rightarrow> p)] else [])
       @ (if sa_serial a \<noteq> [] then [''-select'', ''usb='' @ sa_serial a] else if sa_ip a \<noteq> [] then [''-select'', ''ip='' @ sa_ip a] else [])
       @ flag_if ''-rtos'' (sa_rtos a) @ flag_if ''-jlinkscriptfile'' (sa_jlinkscript a) @ sa_server_args a)
   | _ \<Rightarrow> None)"

definition jlink_completed :: "server_args \<Rightarrow> port_map \<Rightarrow> swo_event list option" where
  "jlink_completed a ps = (let c = sa_swo a in
     if \<not> sw_enabled c then Some []
     else if sw_source c \<in> set [''probe'', ''socket''] then swo_socket_at ps (create_port_name (sa_target a) ''swoPort'')
     else Some [SwoSerial (sw_source c) (sw_freq c)])"

subsection \<open>OpenOCD\<close>

definition openocd_ports :: "jstr list" where "openocd_ports = [''gdbPort'', ''tclPort'', ''telnetPort'', ''swoPort'']"

definition openocd_launch :: "server_args \<Rightarrow> jstr list" where
  "openocd_launch a = gen_download_commands a [monitor_reset_halt] @ [monitor_reset_halt]"

definition openocd_attach :: "jstr list" where "openocd_attach = [monitor_halt]"

definition openocd_reset :: "server_args \<Rightarrow> jstr list" where
  "openocd_reset a = monitor_reset_halt #
     (if sa_run_to_entry a = [] \<and> sa_break_after_reset a then [exec_console ''monitor gdb_sync'', exec_console ''stepi''] else [])"

definition openocd_rtt :: "server_args \<Rightarrow> channel_map \<Rightarrow> jstr list \<times> server_args" where
  "openocd_rtt a m = (let c = sa_rtt a in
     if \<not> rt_enabled c \<or> rt_builtin c \<or> sa_reset_mode a then ([], a)
     else ((if sa_request a = ''launch'' \<and> rt_clear c
            then [exec_console (''monitor mwb '' @ show_opt id (rt_address c) @ '' 0 '' @ show_opt (show_nat \<circ> length) (rt_search_id c))] else [])
        @ [exec_console (''monitor rtt setup '' @ show_opt id (rt_address c) @ '' '' @ show_opt show_nat (rt_search_size c) @ '' {'' @ show_opt id (rt_search_id c) @ ''}'')]
        @ (case rt_polling c of None \<Rightarrow> [] | Some n \<Rightarrow> if 0 < n then [exec_console (''monitor rtt polling_interval '' @ show_nat n)] else [])
        @ map (\<lambda>(ch, p). exec_console (''monitor rtt server start '' @ p @ '' '' @ show_nat ch)) m
        @ [exec_console ''monitor rtt start''],
       a\<lparr>sa_rtt := c\<lparr>rt_retry := (case rt_retry c of None \<Rightarrow> Some 1000 | Some n \<Rightarrow> Some n)\<rparr>\<rparr>))"

definition openocd_swo :: "server_args \<Rightarrow> port_map \<Rightarrow> jstr list option" where
  "openocd_swo a ps = (let c = sa_swo a; tail = [''monitor gdb_sync'', ''stepi''] @ gdb_swo_init c in
     if sa_reset_mode a then Some (map exec_console tail)
     else map_option (\<lambda>p. map exec_console ((''monitor CDSWOConfigure '' @ show_nat (sw_cpu c) @ '' '' @ show_nat (sw_freq c) @ '' '' @
         (if sw_source c = ''serial'' then ''external'' else CHR '':'' # show_nat p)) # tail))
       (remote_port ps (create_port_name (sa_target a) ''swoPort'')))"

definition openocd_swo_rtt :: "server_args \<Rightarrow> port_map \<Rightarrow> channel_map \<Rightarrow> (jstr list \<times> server_args) option" where
  "openocd_swo_rtt a ps m = (case (if sw_enabled (sa_swo a) then openocd_swo a ps else Some []) of
     None \<Rightarrow> None | Some swo \<Rightarrow> (case openocd_rtt a m of (rtt, a) \<Rightarrow> Some (swo @ rtt, a)))"

definition openocd_executable :: "host_env \<Rightarrow> server_args \<Rightarrow> jstr" where
  "openocd_executable h a = (if sa_serverpath a \<noteq> [] then sa_serverpath a else if ho_platform h = Win32 then ''openocd.exe'' else ''openocd'')"

text \<open>For a remote host the helper script is copied there and the search path gets the session directory.\<close>

definition openocd_remote :: "server_args \<Rightarrow> jstr \<times> server_args" where
  "openocd_remote a = (let helpers = sa_extension_path a @ ''/support/openocd-helpers.tcl''; remote = ''./mcu-debug/support/openocd-helpers.tcl'' in
     if sa_host a then (remote, a\<lparr>sa_sync_files := sa_sync_files a @ [(helpers, remote)],
         sa_search_dir := (if sa_search_dir a = [] then [''.''] else if ''.'' \<in> set (sa_search_dir a) then sa_search_dir a else ''.'' # sa_search_dir a)\<rparr>)
     else (helpers, a))"

definition openocd_swo_sources :: "jstr list" where
  "openocd_swo_sources = [''probe'', ''socket'', ''file'', ''serial'']"

definition openocd_arguments :: "server_args \<Rightarrow> port_map \<Rightarrow> (jstr list \<times> server_args) option" where
  "openocd_arguments a ps = (case openocd_remote a of (helpers, a) \<Rightarrow>
     (case (remote_port ps ''gdbPort'', remote_port ps ''tclPort'', remote_port ps ''telnetPort'', sa_config_files a) of
        (Some g, Some t, Some n, Some files) \<Rightarrow> Some (
          [''-f'', helpers, ''-c'', ''gdb_port '' @ show_nat g, ''-c'', ''tcl_port '' @ show_nat t, ''-c'', ''telnet_port '' @ show_nat n]
          @ concat (map (\<lambda>d. [''-s'', d]) (if sa_search_dir a = [] then [sa_cwd a] else sa_search_dir a))
          @ concat (map (\<lambda>c. [''-c'', c]) (sa_openocd_pre a)) @ concat (map (\<lambda>f. [''-f'', f]) files)
          @ (if sa_rtos a = [] then [] else [''-c'', ''CDRTOSConfigure '' @ sa_rtos a]) @ sa_server_args a
          @ concat (map (\<lambda>c. [''-c'', c]) (sa_openocd_launch a)) @ [''-c'', ''CDLiveWatchSetup''],
          if sw_enabled (sa_swo a) \<and> sw_source (sa_swo a) \<notin> set openocd_swo_sources
          then a\<lparr>sa_swo := sa_swo a\<lparr>sw_enabled := False\<rparr>\<rparr> else a)
      | _ \<Rightarrow> None))"

definition openocd_completed :: "server_args \<Rightarrow> port_map \<Rightarrow> swo_event list option" where
  "openocd_completed a ps = (let c = sa_swo a in
     if \<not> sw_enabled c then Some []
     else if sw_source c \<in> set [''probe'', ''socket'', ''file''] then swo_socket_at ps (create_port_name (sa_target a) ''swoPort'')
     else Some (if sw_source c = ''serial'' then [SwoSerial (sw_path c) (sw_freq c)] else []))"

subsection \<open>ST-Util\<close>

definition stutil_ports :: "jstr list" where "stutil_ports = [''gdbPort'']"

definition stutil_launch :: "server_args \<Rightarrow> jstr list" where
  "stutil_launch a = monitor_halt # gen_download_commands a [monitor_reset] @ [monitor_reset]"

definition stutil_attach :: "jstr list" where "stutil_attach = [monitor_halt]"

definition stutil_reset :: "jstr list" where "stutil_reset = [monitor_halt, monitor_reset]"

definition stutil_swo :: "server_args \<Rightarrow> jstr list" where
  "stutil_swo a = (if sw_source (sa_swo a) = ''probe'' then [] else swo_commands a)"

definition stutil_executable :: "host_env \<Rightarrow> server_args \<Rightarrow> jstr" where
  "stutil_executable h a = (if sa_serverpath a \<noteq> [] then sa_serverpath a else if ho_platform h = Win32 then ''st-util.exe'' else ''st-util'')"

definition stutil_arguments :: "server_args \<Rightarrow> port_map \<Rightarrow> jstr list option" where
  "stutil_arguments a ps = map_option (\<lambda>g. [''-p'', show_nat g, ''--no-reset''] @ (if sa_v1 a then [''--stlinkv1''] else [])
     @ flag_if ''--serial'' (sa_serial a) @ sa_server_args a) (remote_port ps ''gdbPort'')"

definition stutil_completed :: "server_args \<Rightarrow> swo_event list" where
  "stutil_completed a = (let c = sa_swo a in if sw_enabled c \<and> sw_source c \<noteq> ''probe'' then [SwoSerial (sw_source c) (sw_freq c)] else [])"

subsection \<open>ST-LINK\<close>

definition stlink_ports :: "jstr list" where "stlink_ports = [''gdbPort'', ''swoPort'', ''gap1'', ''gap2'']"

text \<open>The server debugs one processor; which one is a parameter of its command line, kept by the controller.\<close>

definition stlink_set_arguments :: "server_args \<Rightarrow> server_args \<times> int" where
  "stlink_set_arguments a = (a\<lparr>sa_nprocs := Some 1, sa_target := 0\<rparr>, if sa_target a > 0 then sa_target a else 0)"

definition stlink_launch :: "server_args \<Rightarrow> jstr list" where
  "stlink_launch a = gen_download_commands a [monitor_reset] @ [monitor_reset, monitor_halt]"

definition stlink_attach :: "jstr list" where "stlink_attach = []"

definition stlink_reset :: "jstr list" where "stlink_reset = [monitor_reset]"

definition stlink_server_name :: "host_env \<Rightarrow> jstr" where
  "stlink_server_name h = (if ho_platform h = Win32 then ''ST-LINK_gdbserver.exe'' else ''ST-LINK_gdbserver'')"

definition stlink_executable :: "host_env \<Rightarrow> server_args \<Rightarrow> jstr \<times> server_args" where
  "stlink_executable h a = (let p = ho_join h [ho_clt h, ''STLink-gdb-server'', ''bin'', stlink_server_name h] in
     if sa_serverpath a \<noteq> [] then (sa_serverpath a, a)
     else if ho_clt h \<noteq> [] \<and> ho_exists h p then (p, a\<lparr>sa_serverpath := p\<rparr>) else (ho_cube_server h, a))"

definition stlink_programmer :: "host_env \<Rightarrow> server_args \<Rightarrow> jstr" where
  "stlink_programmer h a = (let p = ho_join h [ho_clt h, ''STM32CubeProgrammer'', ''bin''] in
     if sa_cubeprog a \<noteq> [] then sa_cubeprog a
     else if ho_clt h \<noteq> [] \<and> ho_exists h p \<and> p \<noteq> [] then p
     else if ho_cube_prog h \<noteq> [] then ho_cube_prog h
     else (case ho_platform h of
         Win32 \<Rightarrow> ho_program_files h @ [BSL] @ ''STMicroelectronics'' @ [BSL] @ ''STM32Cube'' @ [BSL] @ ''STM32CubeProgrammer'' @ [BSL] @ ''bin''
       | Darwin \<Rightarrow> ''/Applications/STMicroelectronics/STM32Cube/STM32CubeProgrammer/STM32CubeProgrammer.app/Contents/MacOs/bin''
       | OtherOs \<Rightarrow> ''/usr/local/STMicroelectronics/STM32Cube/STM32CubeProgrammer/bin''))"

text \<open>The quotient of the frequencies as it is printed.\<close>

definition show_quotient :: "nat \<Rightarrow> nat \<Rightarrow> jstr" where
  "show_quotient x y = (if y = 0 then (if x = 0 then ''NaN'' else ''Infinity'') else show_nat (x div y))"

definition stlink_arguments :: "host_env \<Rightarrow> int \<Rightarrow> server_args \<Rightarrow> port_map \<Rightarrow> jstr list option" where
  "stlink_arguments h core a ps = (let c = sa_swo a in
     case (remote_port ps ''gdbPort'', if sw_enabled c then remote_port ps ''swoPort'' else Some 0) of
       (Some g, Some s) \<Rightarrow> Some ([''-p'', show_nat g, ''-cp'', stlink_programmer h a]
         @ (if sa_interface a \<noteq> ''jtag'' \<and> sa_interface a \<noteq> ''cjtag'' then [''--swd''] else [])
         @ (if sw_enabled c then [''--swo-port'', show_nat s, ''--cpu-clock'', show_nat (sw_cpu c), ''--swo-clock-div'', show_quotient (sw_cpu c) (sw_freq c)] else [])
         @ flag_if ''--serial-number'' (sa_serial a) @ (if sa_request a = ''attach'' then [''--attach''] else [])
         @ [''--halt'', ''-m'', if core > 0 then show_int core else ''0''] @ sa_server_args a)
     | _ \<Rightarrow> None)"

definition stlink_completed :: "server_args \<Rightarrow> port_map \<Rightarrow> swo_event list option" where
  "stlink_completed a ps = (if sw_enabled (sa_swo a) then swo_socket_at ps ''swoPort'' else Some [])"

subsection \<open>PyOCD\<close>

definition pyocd_ports :: "jstr list" where "pyocd_ports = [''gdbPort'', ''consolePort'', ''swoPort'']"

definition pyocd_connect :: "server_args \<Rightarrow> port_map \<Rightarrow> jstr list option" where
  "pyocd_connect a ps = map_option (\<lambda>cs. cs @ [mem_accessible]) (connect_tcp a ps)"

definition pyocd_launch :: "server_args \<Rightarrow> jstr list" where
  "pyocd_launch a = gen_download_commands a [monitor_reset_halt] @ [monitor_reset_halt]"

definition pyocd_attach :: "jstr list" where "pyocd_attach = [monitor_halt]"

definition pyocd_reset :: "jstr list" where "pyocd_reset = [monitor_reset]"

definition pyocd_executable :: "server_args \<Rightarrow> jstr" where
  "pyocd_executable a = (if sa_serverpath a \<noteq> [] then sa_serverpath a else ''pyocd'')"

definition pyocd_swo_arguments :: "server_args \<Rightarrow> port_map \<Rightarrow> jstr list option" where
  "pyocd_swo_arguments a ps = (let c = sa_swo a in
     if sw_enabled c \<and> sw_source c \<in> set [''probe'', ''socket'', ''file'']
     then map_option (\<lambda>p. [''-O'', ''enable_swv=1'', ''-O'', ''swv_raw_enable=true'', ''-O'', ''swv_raw_port='' @ show_nat p, ''-O'', ''swv_system_clock='' @ show_nat (sw_cpu c),
         ''-O'', ''swv_clock='' @ (if sw_freq c = 0 then ''1'' else show_nat (sw_freq c))]) (remote_port ps (create_port_name (sa_target a) ''swoPort''))
     else Some [])"

definition pyocd_arguments :: "server_args \<Rightarrow> port_map \<Rightarrow> jstr list option" where
  "pyocd_arguments a ps = (case (remote_port ps ''gdbPort'', remote_port ps ''consolePort'', pyocd_swo_arguments a ps) of
     (Some g, Some t, Some swo) \<Rightarrow> Some ([''gdbserver'', ''--port'', show_nat g, ''--telnet-port'', show_nat t]
       @ flag_if ''--board'' (sa_board a) @ flag_if ''--target'' (sa_target_id a) @ flag_if ''--pack'' (sa_cmsis_pack a) @ swo @ sa_server_args a)
   | _ \<Rightarrow> None)"

definition pyocd_completed :: "server_args \<Rightarrow> port_map \<Rightarrow> swo_event list option" where
  "pyocd_completed a ps = (let c = sa_swo a in
     if \<not> sw_enabled c then Some []
     else if sw_source c \<in> set [''probe'', ''socket'', ''file''] then swo_socket_at ps (create_port_name (sa_target a) ''swoPort'')
     else Some (if sw_source c = ''serial'' then [SwoSerial (sw_source c) (sw_freq c)] else []))"

subsection \<open>PE Micro\<close>

definition pe_ports :: "jstr list" where "pe_ports = [''gdbPort'', ''swoPort'', ''consolePort'']"

abbreviation monitor_pe_reset :: jstr where "monitor_pe_reset \<equiv> exec_console ''monitor _reset''"

definition pe_launch :: "server_args \<Rightarrow> jstr list" where
  "pe_launch a = gen_download_commands a [monitor_pe_reset] @ [monitor_pe_reset]"

definition pe_attach :: "jstr list" where "pe_attach = [monitor_halt]"

definition pe_reset :: "jstr list" where "pe_reset = [monitor_pe_reset]"

definition pe_executable :: "host_env \<Rightarrow> server_args \<Rightarrow> jstr" where
  "pe_executable h a = (if sa_serverpath a \<noteq> [] then sa_serverpath a else if ho_platform h = Win32 then ''pegdbserver_console.exe'' else ''pegdbserver_console'')"

definition pe_arguments :: "server_args \<Rightarrow> port_map \<Rightarrow> jstr list option" where
  "pe_arguments a ps = (let c = sa_swo a; socket = sw_enabled c \<and> sw_source c = ''socket'' in
     case (remote_port ps ''gdbPort'', if socket then remote_port ps (create_port_name (sa_target a) ''swoPort'') else Some 0) of
       (Some g, Some s) \<Rightarrow> Some ([''-startserver'', ''-singlesession'', ''-device='' @ sa_device a, ''-serverport='' @ show_nat g]
         @ (if sa_ip a = [] then [] else [''-serverip='' @ sa_ip a]) @ (if sa_rtos a = [] then [] else [''-kernal='' @ sa_rtos a])
         @ (if sa_interface a = ''jtag'' then [''-usejtag''] else [])
         @ (case sa_config_files a of None \<Rightarrow> [] | Some fs \<Rightarrow> [''-configfile='' @ (case fs of [] \<Rightarrow> ''undefined'' | f # _ \<Rightarrow> f)])
         @ (if socket then [''-streamingport='' @ show_nat s] else []) @ sa_server_args a)
     | _ \<Rightarrow> None)"

definition pe_launched :: "server_args \<Rightarrow> port_map \<Rightarrow> swo_event list option" where
  "pe_launched a ps = (if sw_enabled (sa_swo a) \<and> sw_source (sa_swo a) = ''socket''
     then swo_socket_at ps (create_port_name (sa_target a) ''swoPort'') else Some [])"

subsection \<open>Black Magic Probe\<close>

definition bmp_connect :: "server_args \<Rightarrow> jstr list" where
  "bmp_connect a = [''target-select extended-remote '' @ sa_bmp_port a]
     @ (if sa_power a = ''enable'' then [exec_console ''monitor tpwr enable'', exec_console ''shell sleep 0.1'']
        else if sa_power a = ''disable'' then [exec_console ''monitor tpwr disable''] else [])
     @ [if sa_interface a = ''jtag'' then exec_console ''monitor jtag_scan'' else exec_console ''monitor swdp_scan'',
        exec_console (''attach '' @ sa_target_id a), mem_accessible]"

definition bmp_launch :: "server_args \<Rightarrow> jstr list" where
  "bmp_launch a = gen_download_commands a [] @ [exec_console ''SoftwareReset 1'']"

definition bmp_attach :: "jstr list" where "bmp_attach = []"

definition bmp_reset :: "jstr list" where "bmp_reset = [exec_console ''SoftwareReset'']"

definition bmp_swo :: "server_args \<Rightarrow> jstr list" where
  "bmp_swo a = (let c = sa_swo a in if sw_enabled c then map exec_console (gdb_swo_init c @
     (if sw_source c = ''probe'' then [if sw_manchester c then ''monitor traceswo enable'' else ''monitor traceswo enable '' @ show_nat (sw_freq c)] else [])) else [])"

definition bmp_completed :: "server_args \<Rightarrow> swo_event list" where
  "bmp_completed a = (let c = sa_swo a in
     if \<not> sw_enabled c then []
     else if sw_source c = ''probe'' then [SwoUsb (if sw_path c = [] then ''Black Magic Probe'' else sw_path c) (if sw_port c = [] then ''Black Magic Trace Capture'' else sw_port c)]
     else [SwoSerial (sw_source c) (sw_freq c)])"

subsection \<open>QEMU\<close>

definition qemu_ports :: "jstr list" where "qemu_ports = [''gdbPort'']"

definition qemu_launch :: "jstr list" where "qemu_launch = []"

definition qemu_reset :: "jstr list" where
  "qemu_reset = [exec_console ''monitor stop'', exec_console ''monitor system_reset'']"

definition qemu_executable :: "server_args \<Rightarrow> jstr" where
  "qemu_executable a = (if sa_serverpath a \<noteq> [] then sa_serverpath a else ''qemu-system-arm'')"

definition qemu_arguments :: "server_args \<Rightarrow> port_map \<Rightarrow> jstr list option" where
  "qemu_arguments a ps = map_option (\<lambda>g. [''-cpu'', sa_cpu a, ''-machine'', sa_machine a, ''-nographic'', ''-semihosting-config'',
       ''enable=on,target=native'', ''-gdb'', ''tcp::'' @ show_nat g, ''-S'', ''-kernel'', sa_executable a] @ sa_server_args a)
     (remote_port ps ''gdbPort'')"

subsection \<open>probe-rs\<close>

definition probe_rs_ports :: "jstr list" where "probe_rs_ports = [''gdbPort'', ''consolePort'', ''swoPort'']"

definition probe_rs_connect :: "server_args \<Rightarrow> port_map \<Rightarrow> jstr list option" where
  "probe_rs_connect a ps = map_option (\<lambda>cs. cs @ [mem_accessible]) (connect_tcp a ps)"

definition probe_rs_launch :: "server_args \<Rightarrow> jstr list" where
  "probe_rs_launch a = gen_download_commands a [monitor_reset_halt] @ [monitor_reset_halt]"

definition probe_rs_attach :: "jstr list" where "probe_rs_attach = [monitor_halt]"

definition probe_rs_reset :: "jstr list" where "probe_rs_reset = [monitor_reset]"

definition probe_rs_executable :: "server_args \<Rightarrow> jstr" where
  "probe_rs_executable a = (if sa_serverpath a \<noteq> [] then sa_serverpath a else ''probe-rs'')"

definition probe_rs_arguments :: "server_args \<Rightarrow> port_map \<Rightarrow> jstr list option" where
  "probe_rs_arguments a ps = (case (remote_port ps ''gdbPort'', remote_port ps ''consolePort'') of
     (Some g, Some t) \<Rightarrow> Some ([''gdb'', ''--non-interactive'', ''--gdb-connection-string=127.0.0.1:'' @ show_nat g]
       @ flag_if ''--protocol'' (sa_interface a) @ flag_if ''--probe'' (sa_serial a) @ flag_if ''--chip'' (sa_device a) @ sa_server_args a)
   | _ \<Rightarrow> None)"

subsection \<open>External servers\<close>

definition external_connect :: "server_args \<Rightarrow> jstr list" where
  "external_connect a = [''target-select extended-remote '' @ sa_gdb_target a]"

definition external_launch :: "server_args \<Rightarrow> jstr list" where
  "external_launch a = gen_download_commands a [monitor_reset_halt] @ [monitor_reset_halt]"

definition external_attach :: "jstr list" where "external_attach = [monitor_halt]"

definition external_reset :: "jstr list" where "external_reset = [monitor_reset_halt]"

text \<open>The path of the pipe for the trace is a fresh temporary name.\<close>

definition external_swo_path :: "host_env \<Rightarrow> jstr \<Rightarrow> server_args \<Rightarrow> jstr" where
  "external_swo_path h tmp a = (if sw_enabled (sa_swo a) \<and> ho_platform h = Win32 then forward_slashes tmp else tmp)"

definition external_started :: "host_env \<Rightarrow> jstr \<Rightarrow> server_args \<Rightarrow> swo_event list" where
  "external_started h tmp a = (if sw_enabled (sa_swo a) \<and> sw_source (sa_swo a) = ''probe'' \<and> ho_platform h \<noteq> Win32
     then [SwoFifo (external_swo_path h tmp a)] else [])"

definition external_completed :: "host_env \<Rightarrow> jstr \<Rightarrow> server_args \<Rightarrow> swo_event list" where
  "external_completed h tmp a = (let c = sa_swo a in
     if \<not> sw_enabled c then []
     else if sw_source c = ''probe'' \<and> ho_platform h = Win32 then [SwoFile (external_swo_path h tmp a)]
     else if sw_source c = ''socket'' then [SwoSocket (sw_port c)]
     else if sw_source c = ''file'' then [SwoFile (sw_path c)]
     else if sw_source c = ''serial'' then [SwoSerial (sw_path c) (sw_freq c)] else [])"

subsection \<open>The choice of the controller\<close>

datatype server = JLink | OpenOcd | StUtil | StLink | PyOcd | Pe | Bmp | Qemu | ProbeRs | External

definition server_type_map :: "(jstr \<times> server) list" where
  "server_type_map = [(''jlink'', JLink), (''openocd'', OpenOcd), (''stutil'', StUtil), (''stlink'', StLink), (''pyocd'', PyOcd),
     (''pe'', Pe), (''bmp'', Bmp), (''qemu'', Qemu), (''probe-rs'', ProbeRs), (''external'', External)]"

text \<open>An unknown type raises.\<close>

definition controller_of :: "jstr \<Rightarrow> server option" where
  "controller_of t = map_of server_type_map (js_lower (if t = [] then ''openocd'' else t))"

fun ports_needed :: "server \<Rightarrow> jstr list" where
  "ports_needed JLink = jlink_ports"
| "ports_needed OpenOcd = openocd_ports"
| "ports_needed StUtil = stutil_ports"
| "ports_needed StLink = stlink_ports"
| "ports_needed PyOcd = pyocd_ports"
| "ports_needed Pe = pe_ports"
| "ports_needed Bmp = []"
| "ports_needed Qemu = qemu_ports"
| "ports_needed ProbeRs = probe_rs_ports"
| "ports_needed External = []"

fun connect_commands :: "server \<Rightarrow> server_args \<Rightarrow> port_map \<Rightarrow> jstr list option" where
  "connect_commands PyOcd a ps = pyocd_connect a ps"
| "connect_commands ProbeRs a ps = probe_rs_connect a ps"
| "connect_commands Bmp a ps = Some (bmp_connect a)"
| "connect_commands External a ps = Some (external_connect a)"
| "connect_commands _ a ps = connect_tcp a ps"

fun launch_commands :: "server \<Rightarrow> server_args \<Rightarrow> jstr list" where
  "launch_commands JLink a = jlink_launch a"
| "launch_commands OpenOcd a = openocd_launch a"
| "launch_commands StUtil a = stutil_launch a"
| "launch_commands StLink a = stlink_launch a"
| "launch_commands PyOcd a = pyocd_launch a"
| "launch_commands Pe a = pe_launch a"
| "launch_commands Bmp a = bmp_launch a"
| "launch_commands Qemu a = qemu_launch"
| "launch_commands ProbeRs a = probe_rs_launch a"
| "launch_commands External a = external_launch a"

fun attach_commands :: "server \<Rightarrow> jstr list" where
  "attach_commands JLink = jlink_attach"
| "attach_commands OpenOcd = openocd_attach"
| "attach_commands StUtil = stutil_attach"
| "attach_commands StLink = stlink_attach"
| "attach_commands PyOcd = pyocd_attach"
| "attach_commands Pe = pe_attach"
| "attach_commands Bmp = bmp_attach"
| "attach_commands Qemu = []"
| "attach_commands ProbeRs = probe_rs_attach"
| "attach_commands External = external_attach"

fun server_reset :: "server \<Rightarrow> server_args \<Rightarrow> jstr list" where
  "server_reset JLink a = jlink_reset"
| "server_reset OpenOcd a = openocd_reset a"
| "server_reset StUtil a = stutil_reset"
| "server_reset StLink a = stlink_reset"
| "server_reset PyOcd a = pyocd_reset"
| "server_reset Pe a = pe_reset"
| "server_reset Bmp a = bmp_reset"
| "server_reset Qemu a = qemu_reset"
| "server_reset ProbeRs a = probe_rs_reset"
| "server_reset External a = external_reset"

fun swo_and_rtt :: "server \<Rightarrow> server_args \<Rightarrow> port_map \<Rightarrow> channel_map \<Rightarrow> jstr list option" where
  "swo_and_rtt JLink a ps m = Some (jlink_swo_rtt a)"
| "swo_and_rtt OpenOcd a ps m = map_option fst (openocd_swo_rtt a ps m)"
| "swo_and_rtt StUtil a ps m = Some (stutil_swo a)"
| "swo_and_rtt StLink a ps m = Some (swo_commands a)"
| "swo_and_rtt PyOcd a ps m = Some (swo_commands a)"
| "swo_and_rtt Pe a ps m = Some []"
| "swo_and_rtt Bmp a ps m = Some (bmp_swo a)"
| "swo_and_rtt Qemu a ps m = Some []"
| "swo_and_rtt ProbeRs a ps m = Some (swo_commands a)"
| "swo_and_rtt External a ps m = Some []"

text \<open>The arguments of the server process; those of OpenOCD change the configuration too.\<close>

fun server_arguments :: "host_env \<Rightarrow> server \<Rightarrow> int \<Rightarrow> server_args \<Rightarrow> port_map \<Rightarrow> channel_map \<Rightarrow> (jstr list \<times> server_args) option" where
  "server_arguments h JLink core a ps m = map_option (\<lambda>xs. (xs, a)) (jlink_arguments a ps m)"
| "server_arguments h OpenOcd core a ps m = openocd_arguments a ps"
| "server_arguments h StUtil core a ps m = map_option (\<lambda>xs. (xs, a)) (stutil_arguments a ps)"
| "server_arguments h StLink core a ps m = map_option (\<lambda>xs. (xs, a)) (stlink_arguments h core a ps)"
| "server_arguments h PyOcd core a ps m = map_option (\<lambda>xs. (xs, a)) (pyocd_arguments a ps)"
| "server_arguments h Pe core a ps m = map_option (\<lambda>xs. (xs, a)) (pe_arguments a ps)"
| "server_arguments h Bmp core a ps m = Some ([], a)"
| "server_arguments h Qemu core a ps m = map_option (\<lambda>xs. (xs, a)) (qemu_arguments a ps)"
| "server_arguments h ProbeRs core a ps m = map_option (\<lambda>xs. (xs, a)) (probe_rs_arguments a ps)"
| "server_arguments h External core a ps m = Some ([], a)"

text \<open>The texts that say that the server is ready; \<open>None\<close> where it is not waited for.\<close>

definition openocd_ready :: "jstr \<Rightarrow> bool" where
  "openocd_ready line = (let pat = ''listening on port '' in
     list_ex (\<lambda>i. let s = drop i (js_lower line); r = drop (length pat) s in
       starts_with pat s \<and> takeWhile is_digit r \<noteq> [] \<and> starts_with '' for gdb connection'' (dropWhile is_digit r)) [0..<length line])"

definition pyocd_ready :: "jstr \<Rightarrow> bool" where
  "pyocd_ready line = list_ex (\<lambda>w. list_ex (\<lambda>p. contains (''GDB server '' @ w @ '' '' @ p @ '' port'') line) [''at'', ''on'']) [''listening'', ''started'']"

fun init_match :: "server \<Rightarrow> (jstr \<Rightarrow> bool) option" where
  "init_match JLink = Some (contains ''Waiting for GDB connection'')"
| "init_match OpenOcd = Some openocd_ready"
| "init_match StUtil = Some (contains ''Listening at *'')"
| "init_match StLink = Some (\<lambda>l. contains ''waiting for debugger connection'' (js_lower l) \<or> contains ''listening at'' (js_lower l))"
| "init_match PyOcd = Some pyocd_ready"
| "init_match Pe = Some (contains ''All Servers Running'')"
| "init_match ProbeRs = Some (contains ''Firing up GDB'')"
| "init_match _ = None"

subsection \<open>The ports of a session\<close>

text \<open>\<open>calculatePortsNeeded\<close>: the number of processors and the one debugged are brought into range.\<close>

definition clamp_processors :: "server_args \<Rightarrow> server_args" where
  "clamp_processors a = (let n = max (case sa_nprocs a of None \<Rightarrow> 1 | Some k \<Rightarrow> k) 1 in
     a\<lparr>sa_nprocs := Some n, sa_target := (if sa_target a < 0 \<or> sa_target a \<ge> n then n - 1 else sa_target a)\<rparr>)"

definition processors :: "server_args \<Rightarrow> nat" where
  "processors a = (case sa_nprocs a of None \<Rightarrow> 0 | Some n \<Rightarrow> nat n)"

definition total_ports :: "server \<Rightarrow> server_args \<Rightarrow> nat" where
  "total_ports sv a = length (ports_needed sv) * processors a"

definition port_names :: "jstr list \<Rightarrow> nat \<Rightarrow> jstr list" where
  "port_names needed n = concat (map (\<lambda>nm. map (\<lambda>p. create_port_name (int p) nm) [0..<n]) needed)"

definition create_ports_map :: "server \<Rightarrow> server_args \<Rightarrow> nat list \<Rightarrow> port_map" where
  "create_ports_map sv a ports = map (\<lambda>(nm, p). (nm, (p, p))) (zip (port_names (ports_needed sv) (processors a)) ports)"


subsection \<open>Every processor has its ports\<close>

lemma create_port_name_inj: "0 \<le> p \<Longrightarrow> 0 \<le> q \<Longrightarrow> create_port_name p nm = create_port_name q nm \<longleftrightarrow> p = q"
  using show_nat_ne[of "nat p"] show_nat_ne[of "nat q"] by (auto simp: create_port_name_def show_int_def simp del: show_nat_ne)

text \<open>No name of a port is a prefix of another.\<close>

definition prefix_free :: "jstr list \<Rightarrow> bool" where
  "prefix_free ns = (list_all (\<lambda>a. list_all (\<lambda>b. a = b \<or> \<not> starts_with a b) ns) ns \<and> distinct ns)"

lemma prefix_free_needed: "prefix_free (ports_needed sv)"
  by (cases sv; simp only: ports_needed.simps) (code_simp+)

lemma starts_with_common: "a @ s = b @ t \<Longrightarrow> starts_with a b \<or> starts_with b (a :: 'a list)"
  by (metis append_take_drop_id append_eq_append_conv_if starts_with_append)

lemma port_names_distinct: "prefix_free ns \<Longrightarrow> distinct (port_names ns n)"
proof -
  assume pf: "prefix_free ns"
  have sep: "create_port_name p a \<noteq> create_port_name q b" if "a \<in> set ns" "b \<in> set ns" "a \<noteq> b" for p q a b
    using starts_with_common[of a _ b] pf that unfolding prefix_free_def list_all_iff create_port_name_def by metis
  have "distinct (concat (map (\<lambda>nm. map (\<lambda>p. create_port_name (int p) nm) [0..<n]) xs))" if "set xs \<subseteq> set ns" "distinct xs" for xs
    using that
  proof (induction xs)
    case (Cons x xs)
    have "distinct (map (\<lambda>p. create_port_name (int p) x) [0..<n])" by (simp add: distinct_map inj_on_def create_port_name_inj)
    moreover have "create_port_name (int p) x \<noteq> create_port_name (int q) y" if "y \<in> set xs" for p q y
      using Cons.prems that by (intro sep) auto
    ultimately show ?case using Cons by auto
  qed simp
  then show ?thesis using pf by (simp add: port_names_def prefix_free_def)
qed

lemma length_port_names: "length (port_names ns n) = length ns * n"
  by (induction ns) (simp_all add: port_names_def)

lemma nth_port_names: "i < length ns \<Longrightarrow> p < n \<Longrightarrow> port_names ns n ! (i * n + p) = create_port_name (int p) (ns ! i)"
proof (induction ns arbitrary: i)
  case (Cons x ns)
  show ?case
  proof (cases i)
    case 0
    with Cons.prems show ?thesis by (simp add: port_names_def nth_append)
  next
    case (Suc j)
    with Cons.IH[of j] Cons.prems show ?thesis by (simp add: port_names_def nth_append add.assoc)
  qed
qed simp

text \<open>The port of a kind and a processor, when the ports found are consecutive.\<close>

lemma port_at:
  assumes "i < length (ports_needed sv)" "p < processors a"
  shows "map_of (create_ports_map sv a [b..<b + total_ports sv a]) (create_port_name (int p) (ports_needed sv ! i)) =
    Some (b + i * processors a + p, b + i * processors a + p)"
proof -
  let ?ns = "port_names (ports_needed sv) (processors a)" and ?k = "i * processors a + p"
  have d: "distinct ?ns" by (rule port_names_distinct[OF prefix_free_needed])
  have k: "?k < length ?ns"
  proof -
    have "?k < Suc i * processors a" using assms(2) by simp
    also have "\<dots> \<le> length (ports_needed sv) * processors a" using assms(1) by (intro mult_le_mono1) simp
    finally show ?thesis by (simp add: length_port_names)
  qed
  have "zip ?ns [b..<b + total_ports sv a] ! ?k = (create_port_name (int p) (ports_needed sv ! i), b + ?k)"
    using k nth_port_names[OF assms] by (simp add: total_ports_def length_port_names)
  then have "(create_port_name (int p) (ports_needed sv ! i), (b + ?k, b + ?k)) \<in> set (create_ports_map sv a [b..<b + total_ports sv a])"
    using k by (auto simp: create_ports_map_def total_ports_def length_port_names set_conv_nth intro!: image_eqI[where x = "zip ?ns [b..<b + total_ports sv a] ! ?k"] exI[of _ ?k])
  moreover have "distinct (map fst (create_ports_map sv a [b..<b + total_ports sv a]))"
  proof -
    have "map fst (create_ports_map sv a [b..<b + total_ports sv a]) = map fst (zip ?ns [b..<b + total_ports sv a])"
      by (simp add: create_ports_map_def comp_def case_prod_beta)
    then show ?thesis using d by (simp add: total_ports_def length_port_names)
  qed
  ultimately show ?thesis by (simp add: add.assoc)
qed


subsection \<open>Channels and their ports\<close>

lemma map_of_set_channel [simp]: "map_of (set_channel c v m) = (map_of m)(c \<mapsto> v)"
  by (induction c v m rule: set_channel.induct) (auto simp: fun_eq_iff)

lemma show_nat_not_dummy [simp]: "show_nat n \<noteq> dummy_port" "dummy_port \<noteq> show_nat n"
proof -
  have "\<not> (\<forall>c \<in> set dummy_port. is_digit c)" by (simp add: dummy_port_def is_digit_def)
  then show "show_nat n \<noteq> dummy_port" "dummy_port \<noteq> show_nat n" using show_nat_digits[of n] by metis+
qed

text \<open>The channels a decoder is told to connect to, with the ports.\<close>

definition decoder_routes :: "rtt_decoder \<Rightarrow> (nat \<times> jstr) list" where
  "decoder_routes d = (if rd_ports d = [] then (case rd_tcp_port d of None \<Rightarrow> [] | Some p \<Rightarrow> [(rd_port d, p)])
     else zip (rd_ports d) (case rd_tcp_ports d of None \<Rightarrow> [] | Some ps \<Rightarrow> ps))"

definition keeps_assigned :: "channel_map \<Rightarrow> channel_map \<Rightarrow> bool" where
  "keeps_assigned m m' \<longleftrightarrow> dom (map_of m) \<subseteq> dom (map_of m') \<and> (\<forall>c s. map_of m c = Some s \<longrightarrow> s \<noteq> dummy_port \<longrightarrow> map_of m' c = Some s)"

lemma keeps_trans: "keeps_assigned m m' \<Longrightarrow> keeps_assigned m' m'' \<Longrightarrow> keeps_assigned m m''"
  unfolding keeps_assigned_def by blast

lemma assign_list_routes:
  "assign_list cs m = (strs, m') \<Longrightarrow> set cs \<subseteq> dom (map_of m) \<Longrightarrow>
    length strs = length cs \<and> keeps_assigned m m' \<and> (\<forall>(c, s) \<in> set (zip cs strs). s \<noteq> dummy_port \<and> map_of m' c = Some s)"
proof (induction cs arbitrary: m strs m')
  case (Cons c cs)
  obtain s where s: "map_of m c = Some s" using Cons.prems(2) by auto
  define str where "str = (if s = dummy_port then show_nat c else s)"
  define m1 where "m1 = (if s = dummy_port then set_channel c str m else m)"
  obtain strs2 m2 where r: "assign_list cs m1 = (strs2, m2)" by force
  have e: "strs = str # strs2" "m' = m2" using Cons.prems(1) s r by (auto simp: str_def m1_def Let_def split: if_splits)
  have 1: "keeps_assigned m m1" "str \<noteq> dummy_port" "map_of m1 c = Some str" using s by (auto simp: m1_def str_def keeps_assigned_def)
  have "set cs \<subseteq> dom (map_of m1)" using Cons.prems(2) 1(1) by (auto simp: keeps_assigned_def)
  note i = Cons.IH[OF r this]
  then have "map_of m2 c = Some str" using 1 unfolding keeps_assigned_def by blast
  with i 1 keeps_trans[of m m1 m2] show ?case unfolding e by simp
qed (simp add: keeps_assigned_def)

lemma assign_decoder_routes:
  assumes "assign_decoder p d m = (d', m')" "set (decoder_channels d) \<subseteq> dom (map_of m)"
  shows "keeps_assigned m m' \<and> map fst (decoder_routes d') = decoder_channels d \<and> rd_ports d' = rd_ports d \<and>
    (\<forall>(c, s) \<in> set (decoder_routes d'). s \<noteq> dummy_port \<and> map_of m' c = Some s) \<and> (rd_tcp_port d' \<noteq> None \<or> rd_tcp_ports d' \<noteq> None)"
proof (cases "rd_ports d = []")
  case True
  then obtain s where "map_of m (rd_port d) = Some s" using assms(2) by (auto simp: decoder_channels_def)
  then show ?thesis using assms(1) True by (auto simp: assign_decoder_def decoder_routes_def decoder_channels_def keeps_assigned_def split: if_splits)
next
  case False
  obtain strs m1 where r: "assign_list (rd_ports d) m = (strs, m1)" by force
  have e: "d' = d\<lparr>rd_tcp_ports := Some strs\<rparr>" "m' = m1" using assms(1) False r by (simp_all add: assign_decoder_def)
  have "set (rd_ports d) \<subseteq> dom (map_of m)" using assms(2) False by (simp add: decoder_channels_def)
  from assign_list_routes[OF r this] show ?thesis using False by (simp add: e decoder_routes_def decoder_channels_def)
qed

lemma assign_ports_routes:
  "assign_ports p ds m = (ds', m') \<Longrightarrow> set (concat (map decoder_channels ds)) \<subseteq> dom (map_of m) \<Longrightarrow>
    keeps_assigned m m' \<and> map (map fst \<circ> decoder_routes) ds' = map decoder_channels ds \<and>
    (\<forall>d \<in> set ds'. (\<forall>(c, s) \<in> set (decoder_routes d). s \<noteq> dummy_port \<and> map_of m' c = Some s) \<and> (rd_tcp_port d \<noteq> None \<or> rd_tcp_ports d \<noteq> None))"
proof (induction ds arbitrary: m ds' m')
  case (Cons d ds)
  obtain d1 m1 where 1: "assign_decoder p d m = (d1, m1)" by force
  obtain ds2 m2 where 2: "assign_ports p ds m1 = (ds2, m2)" by force
  have e: "ds' = d1 # ds2" "m' = m2" using Cons.prems(1) 1 2 by simp_all
  have s: "set (decoder_channels d) \<subseteq> dom (map_of m)" "set (concat (map decoder_channels ds)) \<subseteq> dom (map_of m)" using Cons.prems(2) by auto
  note a = assign_decoder_routes[OF 1 s(1)]
  have "set (concat (map decoder_channels ds)) \<subseteq> dom (map_of m1)" using a s(2) by (auto simp: keeps_assigned_def)
  note b = Cons.IH[OF 2 this]
  have "s \<noteq> dummy_port \<and> map_of m2 c = Some s" if "(c, s) \<in> set (decoder_routes d1)" for c s
    using a b that by (auto simp: keeps_assigned_def)
  moreover have "keeps_assigned m m2" using a b keeps_trans by blast
  ultimately show ?case unfolding e using a b by auto
qed (simp add: keeps_assigned_def)

lemma mark_channels_dom: "dom (map_of (mark_channels ds m)) = dom (map_of m) \<union> set (concat (map decoder_channels ds))"
proof -
  have "dom (map_of (foldl (\<lambda>m c. set_channel c dummy_port m) m cs)) = dom (map_of m) \<union> set cs" for cs
    by (induction cs arbitrary: m) auto
  then show ?thesis by (simp add: mark_channels_def)
qed

lemma prepare_decoder_channels [simp]: "decoder_channels (prepare_decoder d) = decoder_channels d"
  by (simp add: prepare_decoder_def decoder_channels_def)

definition rtt_server_start :: "nat \<Rightarrow> jstr \<Rightarrow> jstr" where
  "rtt_server_start ch p = exec_console (''monitor rtt server start '' @ p @ '' '' @ show_nat ch)"

text \<open>
  Decoders and server meet: after the ports for RTT are allocated for OpenOCD, every decoder is told a port for each
  of its channels, OpenOCD is told to serve that channel on that port, and the decoder is announced.
\<close>

lemma rtt_decoder_meets_server:
  assumes c: "rt_enabled c" "\<not> rt_builtin c" "rt_decoders c \<noteq> []" "\<not> sa_reset_mode a"
    and r: "rtt_assigned (allocate_rtt_ports c False start []) (p # ports) = (c', m)"
  shows "map (map fst \<circ> decoder_routes) (rt_decoders c') = map decoder_channels (rt_decoders c) \<and>
    (\<forall>d \<in> set (rt_decoders c'). \<forall>(ch, s) \<in> set (decoder_routes d). rtt_server_start ch s \<in> set (fst (openocd_rtt (a\<lparr>sa_rtt := c'\<rparr>) m))) \<and>
    (\<forall>d \<in> set (rt_decoders c'). rd_tcp_port d \<noteq> Some [] \<longrightarrow> d \<in> set (emit_configures c'))"
proof -
  let ?m = "mark_channels (rt_decoders c) []"
  obtain ds' m' where as: "assign_ports p (map prepare_decoder (rt_decoders c)) ?m = (ds', m')" by force
  have e: "c' = c\<lparr>rt_decoders := ds'\<rparr>" "m = m'"
    using r as c by (auto simp: allocate_rtt_ports_def rtt_assigned_def Let_def split: option.splits)
  have "set (concat (map decoder_channels (map prepare_decoder (rt_decoders c)))) \<subseteq> dom (map_of ?m)"
    by (simp add: mark_channels_dom comp_def)
  note a = assign_ports_routes[OF as this]
  have "rtt_server_start ch s \<in> set (fst (openocd_rtt (a\<lparr>sa_rtt := c'\<rparr>) m))" if "d \<in> set ds'" "(ch, s) \<in> set (decoder_routes d)" for d ch s
  proof -
    have "map_of m' ch = Some s" using a that by fastforce
    then have "(ch, s) \<in> set m'" by (rule map_of_SomeD)
    then show ?thesis using c by (force simp: openocd_rtt_def e rtt_server_start_def Let_def)
  qed
  then show ?thesis using a c by (auto simp: e emit_configures_def comp_def)
qed

text \<open>An example of a configuration: OpenOCD for the second of two processors, with two RTT channels.\<close>

definition sample_decoder :: "nat \<Rightarrow> rtt_decoder" where
  "sample_decoder ch = \<lparr>rd_port = ch, rd_ports = [], rd_tcp_port = None, rd_tcp_ports = None\<rparr>"

definition sample_rtt :: rtt_config where
  "sample_rtt = \<lparr>rt_enabled = True, rt_builtin = False, rt_builtin_port = None, rt_clear = False, rt_address = Some ''0x20000000'', rt_search_size = Some 1024,
     rt_search_id = Some ''SEGGER RTT'', rt_polling = None, rt_retry = None, rt_decoders = [sample_decoder 0, sample_decoder 1]\<rparr>"

definition sample_args :: server_args where
  "sample_args = \<lparr>sa_request = ''launch'', sa_reset_mode = False, sa_serverpath = [], sa_server_args = [], sa_nprocs = Some 2, sa_target = 1,
     sa_interface = ''swd'', sa_device = ''STM32'', sa_serial = [], sa_ip = [], sa_rtos = [], sa_load_files = None, sa_run_to_entry = [],
     sa_break_after_reset = True,
     sa_swo = \<lparr>sw_enabled = False, sw_cpu = 0, sw_freq = 0, sw_manchester = False, sw_decoders = [], sw_profile = False, sw_source = [], sw_port = [], sw_path = []\<rparr>,
     sa_rtt = sample_rtt, sa_cwd = ''.'', sa_jlinkscript = [], sa_config_files = Some [''board.cfg''], sa_search_dir = [], sa_openocd_launch = [],
     sa_openocd_pre = [], sa_extension_path = ''ext'', sa_host = False, sa_sync_files = [], sa_board = [], sa_target_id = [], sa_cmsis_pack = [],
     sa_v1 = False, sa_cubeprog = [], sa_bmp_port = [], sa_power = [], sa_cpu = [], sa_machine = [], sa_executable = ''a.elf'', sa_gdb_target = []\<rparr>"

lemma rtt_decoder_meets_server_witness:
  "\<exists>ds c' m. rtt_assigned (allocate_rtt_ports sample_rtt False 60000 []) [60000, 60001] = (c', m) \<and> rt_decoders c' = ds \<and>
    map (map fst \<circ> decoder_routes) ds = [[0], [1]]"
proof -
  obtain c' m where r: "rtt_assigned (allocate_rtt_ports sample_rtt False 60000 []) (60000 # [60001]) = (c', m)" by force
  have "rt_enabled sample_rtt" "\<not> rt_builtin sample_rtt" "rt_decoders sample_rtt \<noteq> []" "\<not> sa_reset_mode sample_args" by (simp_all add: sample_rtt_def sample_args_def)
  from rtt_decoder_meets_server[OF this r] r show ?thesis by (simp add: sample_rtt_def sample_decoder_def decoder_channels_def)
qed

subsection \<open>The port GDB connects to\<close>

lemma gdb_port_first: "''gdbPort'' \<in> set (ports_needed sv) \<Longrightarrow> 0 < length (ports_needed sv) \<and> ports_needed sv ! 0 = ''gdbPort''"
  by (cases sv) (auto simp: jlink_ports_def openocd_ports_def stutil_ports_def stlink_ports_def pyocd_ports_def pe_ports_def qemu_ports_def probe_rs_ports_def)

lemma clamp_in_range: "\<exists>t. sa_target (clamp_processors a) = int t \<and> t < processors (clamp_processors a)"
proof -
  let ?n = "max (case sa_nprocs a of None \<Rightarrow> 1 | Some k \<Rightarrow> k) 1"
  have "0 \<le> sa_target (clamp_processors a) \<and> sa_target (clamp_processors a) < ?n" by (auto simp: clamp_processors_def Let_def)
  then show ?thesis by (intro exI[of _ "nat (sa_target (clamp_processors a))"]) (auto simp: clamp_processors_def processors_def Let_def)
qed

text \<open>
  C34: For a server that GDB finds by a TCP port, and without a proxy, so that the ports are those the scan found in a row: every port of the chosen processor
  is the one of the first processor plus its number, which is how the servers count, all ports have different names,
  and the commands begin with connecting GDB to the port of the chosen processor.
\<close>

theorem session_connects_to_its_core:
  assumes g: "''gdbPort'' \<in> set (ports_needed sv)" and a': "a' = clamp_processors a" and ps: "ps = create_ports_map sv a' [b..<b + total_ports sv a']"
  shows "\<exists>t cs. sa_target a' = int t \<and> t < processors a' \<and> distinct (map fst ps) \<and> remote_port ps ''gdbPort'' = Some b \<and>
    (\<forall>nm \<in> set (ports_needed sv). \<exists>x. remote_port ps nm = Some x \<and> local_port ps (create_port_name (sa_target a') nm) = Some (x + t)) \<and>
    connect_commands sv a' ps = Some ((''target-select extended-remote 127.0.0.1:'' @ show_nat (b + t)) # cs)"
proof -
  obtain t where t: "sa_target a' = int t" "t < processors a'" using clamp_in_range[of a] a' by blast
  have at0: "create_port_name (int 0) nm = nm" for nm by (simp add: create_port_name_def)
  have all: "\<exists>x. remote_port ps nm = Some x \<and> local_port ps (create_port_name (sa_target a') nm) = Some (x + t)" if nm: "nm \<in> set (ports_needed sv)" for nm
  proof -
    obtain i where i: "i < length (ports_needed sv)" "nm = ports_needed sv ! i" using nm by (auto simp: in_set_conv_nth)
    have "0 < processors a'" using t by simp
    from port_at[OF i(1) this, of b] port_at[OF i(1) t(2), of b] show ?thesis by (auto simp: remote_port_def local_port_def ps i(2) t at0[simplified])
  qed
  note f = gdb_port_first[OF g]
  have "0 < processors a'" using t by simp
  with f port_at[of 0 sv 0 a' b] port_at[of 0 sv t a' b] t
  have p: "remote_port ps ''gdbPort'' = Some b" "local_port ps (create_port_name (sa_target a') ''gdbPort'') = Some (b + t)"
    by (auto simp: remote_port_def local_port_def ps at0[simplified])
  have "\<exists>cs. connect_commands sv a' ps = Some ((''target-select extended-remote 127.0.0.1:'' @ show_nat (b + t)) # cs)"
    using p(2) g by (cases sv) (auto simp: connect_tcp_def pyocd_connect_def probe_rs_connect_def)
  moreover have "distinct (map fst ps)"
  proof -
    have "map fst ps = map fst (zip (port_names (ports_needed sv) (processors a')) [b..<b + total_ports sv a'])"
      by (simp add: ps create_ports_map_def comp_def case_prod_beta)
    then show ?thesis using port_names_distinct[OF prefix_free_needed, of sv "processors a'"] by (simp add: total_ports_def length_port_names)
  qed
  ultimately show ?thesis using t p(1) all by blast
qed

lemma session_connects_to_its_core_witness:
  "connect_commands OpenOcd (clamp_processors sample_args) (create_ports_map OpenOcd (clamp_processors sample_args) [50000..<50000 + 8]) =
    Some [''target-select extended-remote 127.0.0.1:50001'']"
proof -
  have n: "total_ports OpenOcd (clamp_processors sample_args) = 8" by code_simp
  have g: "''gdbPort'' \<in> set (ports_needed OpenOcd)" by (simp add: openocd_ports_def)
  have t: "sa_target (clamp_processors sample_args) = 1" by code_simp
  from session_connects_to_its_core[OF g refl refl, of sample_args 50000] obtain cs where
    "connect_commands OpenOcd (clamp_processors sample_args) (create_ports_map OpenOcd (clamp_processors sample_args) [50000..<50000 + 8]) =
      Some ((''target-select extended-remote 127.0.0.1:'' @ show_nat (50000 + 1)) # cs)" using t n by auto
  moreover have "cs = []" if "connect_tcp a ps = Some (x # cs)" for a ps x using that by (auto simp: connect_tcp_def)
  moreover have "show_nat (50000 + 1) = ''50001''" by (simp add: show_nat.simps digit_char_def) code_simp
  ultimately show ?thesis by auto
qed

subsection \<open>Error paths\<close>

text \<open>All plain channels are given the first port that was found, so the server is asked to serve two channels on one port.\<close>

lemma rtt_ports_shared:
  "map (rd_tcp_port) (rt_decoders (fst (rtt_assigned (RttScan 2 60000, sample_rtt, mark_channels (rt_decoders sample_rtt) []) [60000, 60001]))) =
    [Some (show_nat 60000), Some (show_nat 60000)]"
  by (simp add: rtt_assigned_def sample_rtt_def sample_decoder_def mark_channels_def decoder_channels_def assign_decoder_def dummy_port_def[symmetric])

text \<open>The channels of a list are given their own numbers as TCP ports.\<close>

lemma rtt_list_ports: "assign_list [0, 1] (mark_channels [sample_decoder 0, sample_decoder 1] []) = ([show_nat 0, show_nat 1], [(0, show_nat 0), (1, show_nat 1)])"
  by (simp add: mark_channels_def sample_decoder_def decoder_channels_def Let_def)

text \<open>The J-Link server is started on the port of the first processor also when GDB connects to that of another.\<close>

lemma jlink_core_not_served:
  assumes "ps = create_ports_map JLink (clamp_processors sample_args) [50000, 50001, 50002, 50003, 50004, 50005]"
  shows "remote_port ps ''gdbPort'' = Some 50000" "local_port ps (create_port_name (sa_target (clamp_processors sample_args)) ''gdbPort'') = Some 50001"
  unfolding assms by (simp_all add: create_ports_map_def port_names_def jlink_ports_def processors_def clamp_processors_def sample_args_def
      remote_port_def local_port_def create_port_name_def show_int_def show_nat.simps digit_char_def upt_rec)

text \<open>An empty list of configuration files is passed to the server of PE Micro as a file that is not there.\<close>

lemma pe_config_undefined:
  "pe_arguments (sample_args\<lparr>sa_config_files := Some []\<rparr>) [(''gdbPort'', (1, 1))] =
    Some [''-startserver'', ''-singlesession'', ''-device=STM32'', ''-serverport=1'', ''-configfile=undefined'']"
  by code_simp

end
