(* ===== verification/ServerStart.thy ===== *)
theory ServerStart
  imports Controllers Lines "HOL-Library.Sublist"
begin

text \<open>
  The start and the end of a GDB server (\<open>adapter/server-session.ts\<close>): the process or the proxy that runs it, the line
  of its output that says it is ready, the timers, and what is told when it exits. The promise of \<open>startServer\<close> is
  settled by its first \<open>Resolve\<close> or \<open>Reject\<close>; later ones have no effect. And the connection to the command port of
  OpenOCD (\<open>adapter/servers/openocd.ts\<close>).
\<close>

subsection \<open>Before the server is started\<close>

text \<open>The outcome of the proxy and of the ports is that of other components; \<open>None\<close> says that there is nothing to start.\<close>

definition prepare_server ::
  "server \<Rightarrow> jstr option \<Rightarrow> jstr option \<Rightarrow> bool \<Rightarrow> jstr \<Rightarrow> jstr list \<Rightarrow> jstr + (jstr \<times> jstr list) option" where
  "prepare_server sv proxy_error ports_error using_parent executable arguments =
     (if sv = External then Inr None
      else case proxy_error of Some e \<Rightarrow> Inl (''Failed to connect to proxy server: '' @ e)
      | None \<Rightarrow> (case ports_error of Some e \<Rightarrow> Inl (''Error allocating TCP ports for gdb-server: '' @ e)
        | None \<Rightarrow> if using_parent \<or> executable = [] then Inr None else Inr (Some (executable, arguments))))"

subsection \<open>The line that says that the server is ready\<close>

text \<open>\<open>doMatch\<close>: the rest of one stream, and whether the server is known to be ready; the last line need not be complete.\<close>

definition ready_line :: "(jstr \<Rightarrow> bool) \<Rightarrow> jstr \<Rightarrow> bool" where
  "ready_line m l = (js_trim l \<noteq> [] \<and> m (js_trim l))"

definition do_match :: "(jstr \<Rightarrow> bool) \<Rightarrow> bool \<times> jstr \<Rightarrow> jstr \<Rightarrow> bool \<times> jstr" where
  "do_match m s data = (case s of (ready, remaining) \<Rightarrow>
     if ready then (ready, remaining)
     else let lines = split_on NL (remaining @ data) in (list_ex (ready_line m) lines, last lines))"

fun match_chunks :: "(jstr \<Rightarrow> bool) \<Rightarrow> bool \<times> jstr \<Rightarrow> jstr list \<Rightarrow> bool \<times> jstr" where
  "match_chunks m s [] = s"
| "match_chunks m s (c # cs) = match_chunks m (do_match m s c) cs"

subsection \<open>The running server\<close>

datatype start_phase = AtConsole | AtProxy | Waiting | Up | GaveUp

record start_state =
  st_phase :: start_phase
  st_process :: bool
  st_attached :: bool
  st_resolved :: bool
  st_callback :: bool
  st_stop :: bool
  st_timers :: bool
  st_out :: jstr
  st_err :: jstr

datatype start_out = Resolve | Reject | LaunchStarted | LaunchCompleted | ToldServerExited | KillProcess | Uncaught

type_synonym start_result = "start_state \<times> start_out list"

definition start_new :: start_state where
  "start_new = \<lparr>st_phase = AtConsole, st_process = False, st_attached = False, st_resolved = False, st_callback = True, st_stop = False,
     st_timers = False, st_out = [], st_err = []\<rparr>"

text \<open>What waits for the server once it was launched: nothing to match and no proxy means to wait for a while.\<close>

definition after_launch :: "server \<Rightarrow> bool \<Rightarrow> start_state \<Rightarrow> start_result" where
  "after_launch sv proxy s =
     (if init_match sv = None \<and> \<not> proxy then (s\<lparr>st_phase := Waiting, st_attached := (sv \<noteq> Qemu)\<rparr>, [LaunchStarted])
      else (s\<lparr>st_phase := Up, st_timers := True, st_attached := \<not> proxy\<rparr>, [LaunchStarted]))"

definition launch_server :: "server \<Rightarrow> bool \<Rightarrow> start_state \<Rightarrow> start_result" where
  "launch_server sv proxy s = (if proxy then (s\<lparr>st_phase := AtProxy\<rparr>, []) else after_launch sv proxy (s\<lparr>st_process := True\<rparr>))"

definition start_server :: "server \<Rightarrow> bool \<Rightarrow> bool \<Rightarrow> start_result" where
  "start_server sv proxy console = (if console then (start_new, []) else launch_server sv proxy start_new)"

definition server_exited :: "start_state \<Rightarrow> start_result" where
  "server_exited s =
     (s\<lparr>st_timers := False, st_process := False, st_resolved := True\<rparr>,
      if \<not> st_resolved s then [Reject] else if st_stop s then [] else [ToldServerExited])"

datatype start_event =
    ConsoleAnswer bool
  | ProxyAnswer bool
  | StreamStarted jstr
  | ProxyExited
  | WaitOver
  | Output bool jstr
  | ProcError
  | ProcExit
  | Tick
  | Timeout
  | StopServer

definition handle_output :: "server \<Rightarrow> bool \<Rightarrow> jstr \<Rightarrow> start_state \<Rightarrow> start_result" where
  "handle_output sv err data s = (case init_match sv of
     None \<Rightarrow> (s, [])
   | Some m \<Rightarrow> if st_resolved s then (s, [])
       else (case do_match m (False, if err then st_err s else st_out s) data of (ready, r) \<Rightarrow>
         let s = (if err then s\<lparr>st_err := r\<rparr> else s\<lparr>st_out := r\<rparr>) in
         if ready then (s\<lparr>st_resolved := True, st_callback := False\<rparr>, LaunchCompleted # (if st_callback s then [Resolve] else [])) else (s, [])))"

text \<open>
  The function for an exit is defined after the launch was awaited: a proxy that reports an exit before raises an error.
  The handlers of the process are attached last, for QEMU after the wait.
\<close>

fun start_step :: "server \<Rightarrow> bool \<Rightarrow> start_state \<Rightarrow> start_event \<Rightarrow> start_result" where
  "start_step sv proxy s (ConsoleAnswer ok) =
     (if st_phase s \<noteq> AtConsole then (s, []) else if ok then launch_server sv proxy s else (s\<lparr>st_phase := GaveUp\<rparr>, [Reject]))"
| "start_step sv proxy s (ProxyAnswer ok) =
     (if st_phase s \<noteq> AtProxy then (s, []) else if ok then after_launch sv proxy s else (s\<lparr>st_phase := GaveUp\<rparr>, [Reject]))"
| "start_step sv proxy s (StreamStarted nm) =
     (if proxy \<and> st_phase s \<noteq> AtConsole \<and> starts_with ''gdb'' nm
      then (s\<lparr>st_callback := False, st_resolved := True\<rparr>, if st_callback s then [Resolve] else []) else (s, []))"
| "start_step sv proxy s ProxyExited =
     (if \<not> proxy then (s, []) else case st_phase s of
        AtConsole \<Rightarrow> (s, []) | AtProxy \<Rightarrow> (s, [Uncaught]) | GaveUp \<Rightarrow> (s, [Uncaught]) | _ \<Rightarrow> server_exited s)"
| "start_step sv proxy s WaitOver =
     (if st_phase s \<noteq> Waiting then (s, [])
      else if sv = Qemu then (s\<lparr>st_phase := Up, st_attached := True\<rparr>, [LaunchCompleted, Resolve])
      else (s\<lparr>st_phase := Up, st_resolved := True\<rparr>, [LaunchCompleted, Resolve]))"
| "start_step sv proxy s (Output err data) = (if st_attached s then handle_output sv err data s else (s, []))"
| "start_step sv proxy s ProcError =
     (if \<not> st_attached s then (s, if st_process s then [Uncaught] else [])
      else (s\<lparr>st_timers := False, st_resolved := True\<rparr>, if st_resolved s then [] else [Reject]))"
| "start_step sv proxy s ProcExit = (if st_attached s then server_exited s else (s, []))"
| "start_step sv proxy s Tick = (if st_timers s \<and> (st_resolved s \<or> st_stop s) then (s\<lparr>st_timers := False\<rparr>, []) else (s, []))"
| "start_step sv proxy s Timeout =
     (if \<not> st_timers s then (s, [])
      else (s\<lparr>st_timers := False, st_process := False, st_resolved := True\<rparr>,
        (if st_process s then [KillProcess] else []) @ (if st_resolved s then [] else [Reject])))"
| "start_step sv proxy s StopServer = (s\<lparr>st_stop := True, st_process := False\<rparr>, if st_process s then [KillProcess] else [])"

fun start_run :: "server \<Rightarrow> bool \<Rightarrow> start_state \<Rightarrow> start_event list \<Rightarrow> start_result" where
  "start_run sv proxy s [] = (s, [])"
| "start_run sv proxy s (e # es) = (let (s, out) = start_step sv proxy s e; (s, out') = start_run sv proxy s es in (s, out @ out'))"

text \<open>How the promise is settled.\<close>

fun settled :: "start_out list \<Rightarrow> bool option" where
  "settled [] = None"
| "settled (Resolve # out) = Some True"
| "settled (Reject # out) = Some False"
| "settled (_ # out) = settled out"

lemma settled_append [simp]: "settled (out @ out') = (case settled out of None \<Rightarrow> settled out' | r \<Rightarrow> r)"
  by (induction out rule: settled.induct) simp_all

subsection \<open>An exit is reported\<close>

text \<open>The promise is known to be settled exactly when it is, until the start was given up.\<close>

definition start_inv :: "start_state \<Rightarrow> bool option \<Rightarrow> bool" where
  "start_inv s r \<longleftrightarrow> (st_resolved s \<longrightarrow> r \<noteq> None) \<and> (\<not> st_callback s \<longrightarrow> st_resolved s) \<and> (st_phase s = GaveUp \<longrightarrow> r \<noteq> None) \<and>
     (\<not> st_resolved s \<longrightarrow> st_phase s \<noteq> GaveUp \<longrightarrow> r = None) \<and> (st_attached s \<longrightarrow> st_phase s \<noteq> GaveUp \<and> st_phase s \<noteq> AtProxy \<and> st_phase s \<noteq> AtConsole)"

definition after :: "bool option \<Rightarrow> start_out list \<Rightarrow> bool option" where
  "after r out = (case r of None \<Rightarrow> settled out | _ \<Rightarrow> r)"

lemmas start_defs = start_inv_def after_def launch_server_def after_launch_def server_exited_def

lemma start_step_inv:
  assumes "sv \<noteq> Qemu" "start_inv s r"
  shows "start_inv (fst (start_step sv proxy s e)) (after r (snd (start_step sv proxy s e)))"
proof (cases e)
  case (Output err data)
  show ?thesis
  proof (cases "st_attached s \<and> init_match sv \<noteq> None \<and> \<not> st_resolved s")
    case True
    then obtain m where m: "init_match sv = Some m" by auto
    obtain ready rest where dm: "do_match m (False, if err then st_err s else st_out s) data = (ready, rest)" by force
    show ?thesis using True assms dm m by (cases r; cases err) (auto simp: Output handle_output_def start_defs Let_def)
  qed (use assms in \<open>cases r; auto simp: Output handle_output_def start_defs split: option.splits\<close>)
qed (use assms in \<open>cases r; cases "st_phase s"; auto simp: start_defs\<close>)+

lemma start_run_inv:
  "sv \<noteq> Qemu \<Longrightarrow> start_inv s r \<Longrightarrow> start_inv (fst (start_run sv proxy s es)) (after r (snd (start_run sv proxy s es)))"
proof (induction es arbitrary: s r)
  case (Cons e es)
  obtain s1 out where 1: "start_step sv proxy s e = (s1, out)" by force
  obtain s2 out' where 2: "start_run sv proxy s1 es = (s2, out')" by force
  have "start_inv s1 (after r out)" using start_step_inv[OF Cons.prems, of proxy e] 1 by simp
  from Cons.IH[OF Cons.prems(1) this] have "start_inv s2 (after (after r out) out')" by (simp add: 2)
  moreover have "after (after r out) out' = after r (out @ out')" by (simp add: after_def split: option.splits)
  ultimately show ?case by (simp add: 1 2)
next
  case Nil
  then show ?case by (cases r) (simp_all add: after_def)
qed

text \<open>Whether an event is an exit of the server that the session hears of.\<close>

fun heard_exit :: "bool \<Rightarrow> start_state \<Rightarrow> start_event \<Rightarrow> bool" where
  "heard_exit proxy s ProcExit = st_attached s"
| "heard_exit proxy s ProxyExited = (proxy \<and> st_phase s \<in> {Waiting, Up})"
| "heard_exit proxy s _ = False"

text \<open>
  C35: An exit of the server is never passed over: if it is heard of on any run in which nobody asked to stop it, either
  the start fails with it (or had failed), or the start had succeeded and the exit is told. For QEMU it is not so.
\<close>

theorem server_exit_reported:
  assumes "sv \<noteq> Qemu" "start_server sv proxy console = (s0, out0)" "start_run sv proxy s0 es = (s, out)" "\<not> st_stop s" "heard_exit proxy s e"
    and "out' = snd (start_step sv proxy s e)"
  shows "settled (out0 @ out @ out') = Some False \<or> settled (out0 @ out) = Some True \<and> ToldServerExited \<in> set out'"
proof -
  have "start_inv s0 (after None out0)" using assms(2) by (auto simp: start_server_def start_new_def start_defs split: if_splits)
  from start_run_inv[OF assms(1) this, of proxy es] have i: "start_inv s (after (after None out0) out)" by (simp add: assms(3))
  have r: "after (after None out0) out = settled (out0 @ out)" by (simp add: after_def split: option.splits)
  have "st_phase s \<noteq> GaveUp" using assms(5) i by (cases e) (auto simp: start_inv_def)
  then have "st_resolved s \<longleftrightarrow> settled (out0 @ out) \<noteq> None" using i by (auto simp: start_inv_def r)
  moreover have "out' = (if \<not> st_resolved s then [Reject] else [ToldServerExited])"
    using assms(4-6) by (cases e; cases "st_phase s"; auto simp: server_exited_def split: if_splits)
  ultimately show ?thesis by (auto split: option.splits)
qed

text \<open>A server that becomes ready by its second line, and exits later.\<close>

definition exit_run :: "start_event list" where
  "exit_run = [Output False ''Starting'', Output False (NL # ''Waiting for GDB conn''), Output False ''ection...'', Tick]"

lemma server_exit_reported_witness:
  "settled (snd (start_server JLink False False) @ snd (start_run JLink False (fst (start_server JLink False False)) exit_run) @
     snd (start_step JLink False (fst (start_run JLink False (fst (start_server JLink False False)) exit_run)) ProcExit)) \<noteq> None"
proof -
  obtain s0 out0 where 0: "start_server JLink False False = (s0, out0)" by force
  obtain s out where 1: "start_run JLink False s0 exit_run = (s, out)" by force
  have "\<not> st_stop (fst (start_run JLink False (fst (start_server JLink False False)) exit_run))"
    "st_attached (fst (start_run JLink False (fst (start_server JLink False False)) exit_run))" by code_simp+
  then have h: "\<not> st_stop s" "heard_exit False s ProcExit" by (simp_all add: 0 1)
  have "settled (out0 @ out @ snd (start_step JLink False s ProcExit)) = Some False \<or> settled (out0 @ out) = Some True"
    using server_exit_reported[OF _ 0 1 h refl] by blast
  then show ?thesis unfolding 0 1 fst_conv snd_conv by (auto simp del: start_step.simps split: option.splits)
qed

subsection \<open>A ready server is noticed\<close>

lemma match_ready: "match_chunks m (True, r) cs = (True, r)"
  by (induction cs) (simp_all add: do_match_def)

lemma split_on_prefix_lines: "l \<in> set (split_on c s) \<Longrightarrow> \<exists>l' \<in> set (split_on c (s @ t)). prefix l l'"
proof -
  assume l: "l \<in> set (split_on c s)"
  have e: "split_on c (s @ t) = butlast (split_on c s) @ split_on c (last (split_on c s) @ t)" by (rule split_on_append)
  show ?thesis
  proof (cases "l \<in> set (butlast (split_on c s))")
    case False
    with l have "l = last (split_on c s)" by (metis append_butlast_last_id in_set_butlastD in_set_conv_decomp split_on_ne Un_iff set_append list.set_intros(1) set_ConsD list.distinct(1) empty_iff list.set(1))
    have hd: "prefix u (hd (split_on c (u @ t)))" if "c \<notin> set u" for u
      using that
    proof (induction u)
      case (Cons x u)
      then show ?case by (cases "split_on c (u @ t)") (auto simp: split_on_ne[symmetric])
    qed simp
    have "prefix l (hd (split_on c (l @ t)))" by (rule hd) (use \<open>l = _\<close> split_on_last in metis)
    then show ?thesis unfolding e \<open>l = _\<close>[symmetric] by (intro bexI[of _ "hd (split_on c (l @ t))"]) auto
  qed (auto simp: e)
qed

lemma match_chunks_lines:
  assumes "\<not> list_ex (ready_line m) (butlast (split_on NL t))"
  shows "(\<not> fst (match_chunks m (False, last (split_on NL t)) cs) \<longrightarrow> \<not> list_ex (ready_line m) (butlast (split_on NL (t @ concat cs)))) \<and>
    (fst (match_chunks m (False, last (split_on NL t)) cs) \<longrightarrow> (\<exists>l \<in> set (split_on NL (t @ concat cs)). \<exists>p. prefix p l \<and> ready_line m p))"
  using assms
proof (induction cs arbitrary: t)
  case (Cons c cs)
  let ?lines = "split_on NL (last (split_on NL t) @ c)"
  have e: "split_on NL (t @ c) = butlast (split_on NL t) @ ?lines" by (rule split_on_append)
  show ?case
  proof (cases "list_ex (ready_line m) ?lines")
    case True
    then obtain l where l: "l \<in> set (split_on NL (t @ c))" "ready_line m l" by (auto simp: list_ex_iff e)
    obtain l' where "l' \<in> set (split_on NL ((t @ c) @ concat cs))" "prefix l l'" using split_on_prefix_lines[OF l(1)] by blast
    with l(2) True show ?thesis by (auto simp: do_match_def Let_def match_ready)
  next
    case False
    then have "\<not> list_ex (ready_line m) (butlast (split_on NL (t @ c)))" using Cons.prems
      by (auto simp: e butlast_append list_ex_iff dest: in_set_butlastD)
    from Cons.IH[OF this] False show ?thesis by (simp add: do_match_def e Let_def)
  qed
qed simp

text \<open>
  C36: However the output of the server is cut into chunks, the session knows that it is ready once a complete line of
  the output, without the white space around it, matches the text of the server; and it takes it to be ready only if
  the beginning of a line matched.
\<close>

theorem server_ready_detected:
  "(list_ex (ready_line m) (butlast (split_on NL (concat cs))) \<longrightarrow> fst (match_chunks m (False, []) cs)) \<and>
   (fst (match_chunks m (False, []) cs) \<longrightarrow> (\<exists>l \<in> set (split_on NL (concat cs)). \<exists>p. prefix p l \<and> ready_line m p))"
  using match_chunks_lines[of m "[]" cs] by auto

lemma server_ready_detected_witness:
  "fst (match_chunks (the (init_match StUtil)) (False, []) [''boot'', NL # ''Liste'', ''ning at *:4500'' @ [NL]])"
proof -
  have "list_ex (ready_line (the (init_match StUtil))) (butlast (split_on NL (concat [''boot'', NL # ''Liste'', ''ning at *:4500'' @ [NL]])))" by code_simp
  with server_ready_detected[of "the (init_match StUtil)" "[''boot'', NL # ''Liste'', ''ning at *:4500'' @ [NL]]"] show ?thesis by blast
qed

subsection \<open>The command port of OpenOCD\<close>

abbreviation SUB :: char where "SUB \<equiv> CHR 0x1A"

record tcl =
  tc_buf :: jstr
  tc_queue :: "nat list"
  tc_next :: nat

definition tcl_new :: tcl where
  "tcl_new = \<lparr>tc_buf = [], tc_queue = [], tc_next = 1\<rparr>"

text \<open>\<open>tclCommand\<close> with an open connection: the text sent, and its number; an empty command is answered at once.\<close>

definition tcl_command :: "tcl \<Rightarrow> jstr \<Rightarrow> tcl \<times> jstr" where
  "tcl_command s cmd = (if cmd = [] then (s, []) else (s\<lparr>tc_queue := tc_queue s @ [tc_next s], tc_next := tc_next s + 1\<rparr>, cmd @ [SUB]))"

text \<open>\<open>tclRecvTclData\<close>: the first packet of the data answers the oldest command, the others are only logged.\<close>

definition tcl_recv :: "tcl \<Rightarrow> jstr \<Rightarrow> tcl \<times> (nat \<times> jstr) list" where
  "tcl_recv s data = (let packets = split_on SUB (tc_buf s @ data); s = s\<lparr>tc_buf := last packets\<rparr> in
     case (tc_queue s, butlast packets) of
       (k # q, p # _) \<Rightarrow> (s\<lparr>tc_queue := q\<rparr>, [(k, p)])
     | _ \<Rightarrow> (s, []))"

fun tcl_chunks :: "tcl \<Rightarrow> jstr list \<Rightarrow> tcl \<times> (nat \<times> jstr) list" where
  "tcl_chunks s [] = (s, [])"
| "tcl_chunks s (c # cs) = (let (s, out) = tcl_recv s c; (s, out') = tcl_chunks s cs in (s, out @ out'))"

lemma split_on_count: "length (split_on c s) = Suc (count_list s c)"
  by (induction s) (auto split: list.splits simp: split_on_ne[symmetric])

lemma zip_take_length: "zip (take (length ys) xs) ys = zip xs ys"
  by (induction xs ys rule: list_induct2') simp_all

lemma tcl_recv_one:
  assumes "SUB \<notin> set (tc_buf s)" "count_list c SUB \<le> 1"
  shows "tcl_recv s c = (s\<lparr>tc_buf := last (split_on SUB (tc_buf s @ c)), tc_queue := drop (count_list c SUB) (tc_queue s)\<rparr>,
    zip (tc_queue s) (butlast (split_on SUB (tc_buf s @ c))))"
proof -
  have l: "length (butlast (split_on SUB (tc_buf s @ c))) = count_list c SUB"
    using assms(1) by (simp add: split_on_count count_list_0_iff)
  show ?thesis
  proof (cases "count_list c SUB")
    case 0
    with l have "butlast (split_on SUB (tc_buf s @ c)) = []" by (simp only: length_0_conv)
    with 0 show ?thesis by (cases "tc_queue s") (simp_all add: tcl_recv_def Let_def)
  next
    case (Suc n)
    with l assms(2) have "length (butlast (split_on SUB (tc_buf s @ c))) = Suc 0" by simp
    then obtain p where "butlast (split_on SUB (tc_buf s @ c)) = [p]" unfolding length_Suc_conv length_0_conv by blast
    with Suc assms(2) show ?thesis by (cases "tc_queue s") (simp_all add: tcl_recv_def Let_def)
  qed
qed

text \<open>
  Answers that arrive one at a time, in whatever pieces, go to the commands in the order they were sent.
\<close>

lemma tcl_answers_in_order:
  assumes "SUB \<notin> set (tc_buf s)" "list_all (\<lambda>c. count_list c SUB \<le> 1) cs"
  shows "snd (tcl_chunks s cs) = zip (tc_queue s) (butlast (split_on SUB (tc_buf s @ concat cs)))"
  using assms
proof (induction cs arbitrary: s)
  case (Cons c cs)
  let ?p = "split_on SUB (tc_buf s @ c)"
  have c: "count_list c SUB \<le> 1" using Cons.prems by simp
  let ?s = "s\<lparr>tc_buf := last ?p, tc_queue := drop (count_list c SUB) (tc_queue s)\<rparr>"
  have "SUB \<notin> set (tc_buf ?s)" by (simp add: split_on_last)
  moreover have "list_all (\<lambda>c. count_list c SUB \<le> 1) cs" using Cons.prems by simp
  ultimately have i: "snd (tcl_chunks ?s cs) = zip (drop (count_list c SUB) (tc_queue s)) (butlast (split_on SUB (last ?p @ concat cs)))"
    using Cons.IH[of ?s] by simp
  have "snd (tcl_chunks s (c # cs)) = zip (tc_queue s) (butlast ?p) @ snd (tcl_chunks ?s cs)"
    by (simp add: tcl_recv_one[OF Cons.prems(1) c] case_prod_beta)
  also have "\<dots> = zip (tc_queue s) (butlast ?p @ butlast (split_on SUB (last ?p @ concat cs)))"
  proof -
    have "length (butlast ?p) = count_list c SUB" using Cons.prems(1) by (simp add: split_on_count count_list_0_iff)
    with zip_take_length[of "butlast ?p" "tc_queue s"] show ?thesis unfolding i by (simp only: zip_append2)
  qed
  also have "butlast ?p @ butlast (split_on SUB (last ?p @ concat cs)) = butlast (split_on SUB (tc_buf s @ concat (c # cs)))"
    using split_on_append[of SUB "tc_buf s @ c" "concat cs"] by (simp add: butlast_append)
  finally show ?case .
qed (simp add: split_on_no_sep)

subsection \<open>Error paths\<close>

text \<open>Two answers in one piece: the second is lost, and the next answer goes to the wrong command.\<close>

lemma tcl_second_answer_lost:
  "snd (tcl_chunks (tcl_new\<lparr>tc_queue := [1, 2, 3]\<rparr>) [''a'' @ [SUB] @ ''b'' @ [SUB], ''c'' @ [SUB]]) = [(1, ''a''), (2, ''c'')]"
  by code_simp

text \<open>For QEMU the flag that the start has ended is not set, so a later exit is not told.\<close>

lemma qemu_exit_untold:
  "start_run Qemu False (fst (start_server Qemu False False)) [WaitOver, ProcExit] = (out1, out2) \<Longrightarrow> ToldServerExited \<notin> set out2"
  by (auto simp: start_server_def launch_server_def after_launch_def start_new_def server_exited_def)

text \<open>An error of the QEMU process while it is waited for is not caught.\<close>

lemma qemu_error_uncaught: "snd (start_run Qemu False (fst (start_server Qemu False False)) [ProcError]) = [Uncaught]"
  by (simp add: start_server_def launch_server_def after_launch_def start_new_def)

text \<open>A server behind a proxy is never told to be complete, so its SWO data is not announced.\<close>

lemma proxy_never_complete: "LaunchCompleted \<notin> set (snd (start_run sv True (fst (start_server sv True console)) es))"
proof -
  have 1: "\<not> st_attached s \<and> st_phase s \<noteq> Waiting \<Longrightarrow> LaunchCompleted \<notin> set (snd (start_step sv True s e)) \<and>
      \<not> st_attached (fst (start_step sv True s e)) \<and> st_phase (fst (start_step sv True s e)) \<noteq> Waiting" for s e
    by (cases e) (auto simp: launch_server_def after_launch_def server_exited_def split: start_phase.split)
  have "\<not> st_attached s \<and> st_phase s \<noteq> Waiting \<Longrightarrow> LaunchCompleted \<notin> set (snd (start_run sv True s es))" for s
  proof (induction es arbitrary: s)
    case (Cons e es)
    with 1[OF Cons.prems, of e] show ?case by (auto simp: case_prod_beta)
  qed simp
  then show ?thesis by (simp add: start_server_def start_new_def launch_server_def)
qed

text \<open>An exit that the proxy reports while the launch is awaited raises an error.\<close>

lemma proxy_early_exit: "snd (start_run sv True (fst (start_server sv True False)) [ProxyExited]) = [Uncaught]"
  by (simp add: start_server_def launch_server_def start_new_def)

end
