(* ===== verification/Substitution.thy ===== *)
theory Substitution
  imports Prelude
begin

text \<open>
  Variables in launch configurations (\<open>adapter/servers/common.ts\<close>): the resolution of variables that refer to each
  other (\<open>resolveVarMap\<close>), their substitution in a text with escapes (\<open>processVarSubstitution\<close>), and the lines of an
  environment file. The messages about missing and cyclic variables are left out. Variables are the own properties of
  an object; a reference to a name that every object inherits finds a function, which makes the resolution of a variable raise.
\<close>

subsection \<open>References in a text\<close>

type_synonym vars = "(jstr \<times> jstr) list"

definition var_open :: "jstr \<Rightarrow> jstr" where
  "var_open pre = CHR ''$'' # CHR ''{'' # pre"

definition var_text :: "jstr \<Rightarrow> jstr \<Rightarrow> jstr" where
  "var_text pre nm = var_open pre @ nm @ [CHR ''}'']"

text \<open>A name goes up to the closing brace; without a prefix it holds no colon.\<close>

definition name_end :: "jstr \<Rightarrow> char \<Rightarrow> bool" where
  "name_end pre c = (c = CHR ''}'' \<or> pre = [] \<and> c = CHR '':'')"

definition match_ref :: "jstr \<Rightarrow> jstr \<Rightarrow> (jstr \<times> jstr) option" where
  "match_ref pre s =
     (let r = drop (length (var_open pre)) s; nm = takeWhile (\<lambda>c. \<not> name_end pre c) r in
      if starts_with (var_open pre) s \<and> nm \<noteq> [] then
        (case dropWhile (\<lambda>c. \<not> name_end pre c) r of [] \<Rightarrow> None | c # rest \<Rightarrow> if c = CHR ''}'' then Some (nm, rest) else None)
      else None)"

lemma match_ref_text:
  assumes m: "match_ref pre s = Some (nm, rest)"
  shows "s = var_text pre nm @ rest \<and> nm \<noteq> []"
proof -
  define r where "r = drop (length (var_open pre)) s"
  have 1: "starts_with (var_open pre) s" "nm = takeWhile (\<lambda>c. \<not> name_end pre c) r" "dropWhile (\<lambda>c. \<not> name_end pre c) r = CHR ''}'' # rest" "nm \<noteq> []"
    using m unfolding match_ref_def Let_def r_def[symmetric] by (simp_all split: if_splits list.splits)
  have "s = var_open pre @ r" using 1(1) append_take_drop_id[of "length (var_open pre)" s] by (simp add: starts_with_def r_def)
  moreover have "r = nm @ CHR ''}'' # rest" using takeWhile_dropWhile_id[of "\<lambda>c. \<not> name_end pre c" r] by (simp only: 1(2,3))
  ultimately show ?thesis using 1(4) by (simp add: var_text_def)
qed

lemma match_ref_shorter: "match_ref pre s = Some (nm, rest) \<Longrightarrow> length rest < length s"
  by (auto dest!: match_ref_text simp: var_text_def var_open_def)

datatype piece = Lit char | Ref jstr

function pieces :: "jstr \<Rightarrow> jstr \<Rightarrow> piece list" where
  "pieces pre [] = []"
| "pieces pre (c # s) = (case match_ref pre (c # s) of Some (nm, rest) \<Rightarrow> Ref nm # pieces pre rest | None \<Rightarrow> Lit c # pieces pre s)"
  by pat_completeness auto
termination
  by (relation "measure (\<lambda>(pre, s). length s)") (auto dest: match_ref_shorter)

fun piece_text :: "jstr \<Rightarrow> piece \<Rightarrow> jstr" where
  "piece_text pre (Lit c) = [c]"
| "piece_text pre (Ref nm) = var_text pre nm"

lemma pieces_text: "concat (map (piece_text pre) (pieces pre s)) = s"
  by (induction pre s rule: pieces.induct) (auto split: option.split dest: match_ref_text)

subsection \<open>Resolution of variables\<close>

lemma busy_shrinks:
  "map_of vars name = Some raw \<Longrightarrow> name \<notin> set busy \<Longrightarrow> card (fst ` set vars - insert name (set busy)) < card (fst ` set vars - set busy)"
  using map_of_SomeD[of vars name raw] by (intro psubset_card_mono) force+

text \<open>
  \<open>expand\<close>: the names known to be cyclic, the names being expanded, and the values found so far. \<open>None\<close> says that the
  name leads into a cycle.
\<close>

function (sequential) expand :: "jstr \<Rightarrow> vars \<Rightarrow> jstr list \<Rightarrow> jstr list \<Rightarrow> vars \<Rightarrow> jstr \<Rightarrow> vars \<times> jstr option"
  and expand_pieces :: "jstr \<Rightarrow> vars \<Rightarrow> jstr list \<Rightarrow> jstr list \<Rightarrow> vars \<Rightarrow> piece list \<Rightarrow> vars \<times> jstr \<times> bool" where
  "expand pre vars cyclic busy resolved name =
     (if name \<in> set cyclic then (resolved, None)
      else case map_of resolved name of Some v \<Rightarrow> (resolved, Some v)
      | None \<Rightarrow> (case map_of vars name of
          None \<Rightarrow> (resolved, Some (var_text pre name))
        | Some raw \<Rightarrow>
            if name \<in> set busy then (resolved, None)
            else (case expand_pieces pre vars cyclic (name # busy) resolved (pieces pre raw) of
              (resolved, text, bad) \<Rightarrow> if bad then (resolved, None) else (AList.update name text resolved, Some text))))"
| "expand_pieces pre vars cyclic busy resolved [] = (resolved, [], False)"
| "expand_pieces pre vars cyclic busy resolved (Lit c # ps) =
     (case expand_pieces pre vars cyclic busy resolved ps of (resolved, text, bad) \<Rightarrow> (resolved, c # text, bad))"
| "expand_pieces pre vars cyclic busy resolved (Ref nm # ps) =
     (case (if map_of vars nm = None then (resolved, Some (var_text pre nm)) else expand pre vars cyclic busy resolved nm) of
        (resolved, value) \<Rightarrow>
          (case expand_pieces pre vars cyclic busy resolved ps of (resolved, text, bad) \<Rightarrow>
            (case value of None \<Rightarrow> (resolved, var_text pre nm @ text, True) | Some v \<Rightarrow> (resolved, v @ text, bad))))"
  by pat_completeness auto
termination
  by (relation "measures [\<lambda>x. case x of Inl (pre, vars, cyclic, busy, resolved, name) \<Rightarrow> card (fst ` set vars - set busy)
      | Inr (pre, vars, cyclic, busy, resolved, ps) \<Rightarrow> card (fst ` set vars - set busy),
     \<lambda>x. case x of Inl _ \<Rightarrow> 0 | Inr (pre, vars, cyclic, busy, resolved, ps) \<Rightarrow> Suc (length ps)]")
    (simp_all add: busy_shrinks)

declare expand.simps [simp del]

text \<open>The loop over all names. A name that leads into a cycle keeps its text and is remembered.\<close>

fun resolve_loop :: "jstr \<Rightarrow> vars \<Rightarrow> jstr list \<Rightarrow> jstr list \<Rightarrow> vars \<Rightarrow> vars" where
  "resolve_loop pre vars cyclic [] resolved = resolved"
| "resolve_loop pre vars cyclic (nm # nms) resolved = (case expand pre vars cyclic [] resolved nm of
     (resolved, None) \<Rightarrow> resolve_loop pre vars (nm # cyclic) nms (case map_of vars nm of None \<Rightarrow> resolved | Some raw \<Rightarrow> AList.update nm raw resolved)
   | (resolved, Some _) \<Rightarrow> resolve_loop pre vars cyclic nms resolved)"

definition resolve_var_map :: "jstr \<Rightarrow> vars \<Rightarrow> vars" where
  "resolve_var_map pre vars = resolve_loop pre vars [] (map fst vars) []"

text \<open>
  What \<open>vars[ref]\<close> finds for a name that is no variable but that every object inherits, as text. It is no text, so a variable
  that refers to it cannot be expanded: \<open>raw.replace\<close> raises. Every text is visited, so \<open>resolveVarMap\<close> raises if and only if one
  of them has such a reference (\<open>None\<close>); if none has, the result is \<open>resolve_var_map\<close>.
\<close>

definition object_methods :: "jstr list" where
  "object_methods = [''hasOwnProperty'', ''isPrototypeOf'', ''propertyIsEnumerable'', ''toLocaleString'', ''toString'', ''valueOf'',
     ''__defineGetter__'', ''__defineSetter__'', ''__lookupGetter__'', ''__lookupSetter__'']"

definition object_text :: "jstr \<Rightarrow> jstr option" where
  "object_text nm = (if nm \<in> set object_methods then Some (''function '' @ nm @ ''() { [native code] }'')
     else if nm = ''constructor'' then Some ''function Object() { [native code] }''
     else if nm = ''__proto__'' then Some ''[object Object]'' else None)"

fun object_ref :: "vars \<Rightarrow> piece \<Rightarrow> bool" where
  "object_ref vars (Lit c) = False"
| "object_ref vars (Ref nm) = (map_of vars nm = None \<and> object_text nm \<noteq> None)"

definition resolve_or_raise :: "jstr \<Rightarrow> vars \<Rightarrow> vars option" where
  "resolve_or_raise pre vars = (if list_ex (\<lambda>(nm, raw). list_ex (object_ref vars) (pieces pre raw)) vars then None else Some (resolve_var_map pre vars))"

subsection \<open>The value of a variable\<close>

text \<open>
  What resolution should give: the value of a variable is its text with every variable in it replaced by its value; what
  is not defined stays as it is written.
\<close>

inductive var_value :: "jstr \<Rightarrow> vars \<Rightarrow> jstr \<Rightarrow> jstr \<Rightarrow> bool" and pieces_value :: "jstr \<Rightarrow> vars \<Rightarrow> piece list \<Rightarrow> jstr \<Rightarrow> bool"
  for pre vars where
  var: "map_of vars nm = Some raw \<Longrightarrow> pieces_value pre vars (pieces pre raw) t \<Longrightarrow> var_value pre vars nm t"
| none: "pieces_value pre vars [] []"
| lit: "pieces_value pre vars ps t \<Longrightarrow> pieces_value pre vars (Lit c # ps) (c # t)"
| missing: "map_of vars nm = None \<Longrightarrow> pieces_value pre vars ps t \<Longrightarrow> pieces_value pre vars (Ref nm # ps) (var_text pre nm @ t)"
| known: "var_value pre vars nm v \<Longrightarrow> pieces_value pre vars ps t \<Longrightarrow> pieces_value pre vars (Ref nm # ps) (v @ t)"

inductive_cases var_valueE: "var_value pre vars nm v"
inductive_cases pieces_nilE: "pieces_value pre vars [] t"
inductive_cases pieces_litE: "pieces_value pre vars (Lit c # ps) t"
inductive_cases pieces_refE: "pieces_value pre vars (Ref nm # ps) t"

lemma var_value_defined: "var_value pre vars nm v \<Longrightarrow> map_of vars nm \<noteq> None"
  by (auto elim: var_valueE)

lemma var_value_det:
  "var_value pre vars nm v \<Longrightarrow> var_value pre vars nm v' \<Longrightarrow> v' = v"
  "pieces_value pre vars ps t \<Longrightarrow> pieces_value pre vars ps t' \<Longrightarrow> t' = t"
proof (induction arbitrary: v' and t' rule: var_value_pieces_value.inducts)
  case (var nm raw t)
  from var(4) show ?case using var(1,3) by (auto elim!: var_valueE)
next
  case none
  from none show ?case by (rule pieces_nilE)
next
  case (lit ps t c)
  from lit(3) show ?case using lit(2) by (auto elim!: pieces_litE)
next
  case (missing nm ps t)
  from missing(4) show ?case
  proof (rule pieces_refE)
    fix t2 assume "t' = var_text pre nm @ t2" "pieces_value pre vars ps t2"
    with missing(3) show ?thesis by simp
  qed (use missing(1) in \<open>auto dest: var_value_defined\<close>)
next
  case (known nm v ps t)
  from known(5) show ?case
  proof (rule pieces_refE)
    fix v2 t2 assume "t' = v2 @ t2" "var_value pre vars nm v2" "pieces_value pre vars ps t2"
    with known(2,4) show ?thesis by simp
  qed (use known(1) in \<open>auto dest: var_value_defined\<close>)
qed

text \<open>A variable refers to the defined variables in its text.\<close>

definition refers :: "jstr \<Rightarrow> vars \<Rightarrow> (jstr \<times> jstr) set" where
  "refers pre vars = {(a, b). \<exists>raw. map_of vars a = Some raw \<and> Ref b \<in> set (pieces pre raw) \<and> map_of vars b \<noteq> None}"

definition in_cycle :: "jstr \<Rightarrow> vars \<Rightarrow> jstr \<Rightarrow> bool" where
  "in_cycle pre vars a \<longleftrightarrow> (\<exists>c. (a, c) \<in> (refers pre vars)\<^sup>* \<and> (c, c) \<in> (refers pre vars)\<^sup>+)"

lemma in_cycle_step: "(a, b) \<in> refers pre vars \<Longrightarrow> in_cycle pre vars b \<Longrightarrow> in_cycle pre vars a"
  unfolding in_cycle_def by (meson converse_rtrancl_into_rtrancl)

lemma in_cycle_defined: "in_cycle pre vars nm \<Longrightarrow> map_of vars nm \<noteq> None"
proof -
  assume "in_cycle pre vars nm"
  then obtain c where c: "(nm, c) \<in> (refers pre vars)\<^sup>*" "(c, c) \<in> (refers pre vars)\<^sup>+" unfolding in_cycle_def by blast
  then have "(nm, c) \<in> (refers pre vars)\<^sup>+" by (rule rtrancl_trancl_trancl)
  then obtain b where "(nm, b) \<in> refers pre vars" by (meson tranclD)
  then show ?thesis by (auto simp: refers_def)
qed

text \<open>A variable with a value leads into no cycle.\<close>

lemma var_value_acc:
  "var_value pre vars nm v \<Longrightarrow> nm \<in> Wellfounded.acc ((refers pre vars)\<inverse>)"
  "pieces_value pre vars ps t \<Longrightarrow> Ref b \<in> set ps \<Longrightarrow> map_of vars b \<noteq> None \<Longrightarrow> b \<in> Wellfounded.acc ((refers pre vars)\<inverse>)"
proof (induction arbitrary: and b rule: var_value_pieces_value.inducts)
  case (var nm raw t)
  show ?case by (rule accI) (use var in \<open>auto simp: refers_def\<close>)
qed auto

lemma acc_no_cycle: "a \<in> Wellfounded.acc (r\<inverse>) \<Longrightarrow> (a, c) \<in> r\<^sup>* \<Longrightarrow> (c, c) \<notin> r\<^sup>+"
proof -
  assume a: "a \<in> Wellfounded.acc (r\<inverse>)" and ac: "(a, c) \<in> r\<^sup>*"
  from ac a have c: "c \<in> Wellfounded.acc (r\<inverse>)" by (induction rule: rtrancl_induct) (auto intro: acc_downward)
  from c show "(c, c) \<notin> r\<^sup>+"
  proof (induction rule: acc_induct_rule)
    fix x assume 1: "\<And>y. (y, x) \<in> r\<inverse> \<Longrightarrow> (y, y) \<notin> r\<^sup>+"
    show "(x, x) \<notin> r\<^sup>+"
    proof
      assume "(x, x) \<in> r\<^sup>+"
      then obtain y where y: "(x, y) \<in> r" "(y, x) \<in> r\<^sup>*" by (metis tranclD)
      then have "(y, y) \<in> r\<^sup>+" by (meson rtrancl_into_trancl1)
      with 1 y(1) show False by blast
    qed
  qed
qed

lemma value_no_cycle: "var_value pre vars nm v \<Longrightarrow> \<not> in_cycle pre vars nm"
  unfolding in_cycle_def using acc_no_cycle[OF var_value_acc(1)] by metis

subsection \<open>Resolution finds the values\<close>

definition memo_ok :: "jstr \<Rightarrow> vars \<Rightarrow> jstr list \<Rightarrow> vars \<Rightarrow> bool" where
  "memo_ok pre vars cyclic resolved \<longleftrightarrow> (\<forall>n v. map_of resolved n = Some v \<longrightarrow>
     (if n \<in> set cyclic then map_of vars n = Some v else var_value pre vars n v))"

definition covers :: "vars \<Rightarrow> vars \<Rightarrow> bool" where
  "covers m m' \<longleftrightarrow> dom (map_of m) \<subseteq> dom (map_of m')"

lemma covers_simps [simp]: "covers m m" "covers m m' \<Longrightarrow> covers m (AList.update k v m')"
  by (auto simp: covers_def update_conv')

lemma covers_trans: "covers m m' \<Longrightarrow> covers m' m'' \<Longrightarrow> covers m m''"
  unfolding covers_def by (rule subset_trans)

definition expand_right :: "jstr \<Rightarrow> vars \<Rightarrow> jstr list \<Rightarrow> vars \<Rightarrow> jstr \<Rightarrow> vars \<times> jstr option \<Rightarrow> bool" where
  "expand_right pre vars cyclic resolved name r \<longleftrightarrow> memo_ok pre vars cyclic (fst r) \<and> covers resolved (fst r) \<and>
     (case snd r of None \<Rightarrow> in_cycle pre vars name | Some v \<Rightarrow> if map_of vars name = None then v = var_text pre name
        else var_value pre vars name v \<and> map_of (fst r) name = Some v)"

definition pieces_right :: "jstr \<Rightarrow> vars \<Rightarrow> jstr list \<Rightarrow> vars \<Rightarrow> piece list \<Rightarrow> vars \<times> jstr \<times> bool \<Rightarrow> bool" where
  "pieces_right pre vars cyclic resolved ps r \<longleftrightarrow> memo_ok pre vars cyclic (fst r) \<and> covers resolved (fst r) \<and>
     (if snd (snd r) then \<exists>b. Ref b \<in> set ps \<and> map_of vars b \<noteq> None \<and> in_cycle pre vars b else pieces_value pre vars ps (fst (snd r)))"

lemma expand_correct:
  "memo_ok pre vars cyclic resolved \<Longrightarrow> \<forall>n \<in> set cyclic. in_cycle pre vars n \<Longrightarrow>
    \<forall>x \<in> set busy. (x, name) \<in> (refers pre vars)\<^sup>+ \<Longrightarrow> expand_right pre vars cyclic resolved name (expand pre vars cyclic busy resolved name)"
  "memo_ok pre vars cyclic resolved \<Longrightarrow> \<forall>n \<in> set cyclic. in_cycle pre vars n \<Longrightarrow>
    \<forall>b. Ref b \<in> set ps \<longrightarrow> map_of vars b \<noteq> None \<longrightarrow> (\<forall>x \<in> set busy. (x, b) \<in> (refers pre vars)\<^sup>+) \<Longrightarrow>
    pieces_right pre vars cyclic resolved ps (expand_pieces pre vars cyclic busy resolved ps)"
proof (induction pre vars cyclic busy resolved name and pre vars cyclic busy resolved ps rule: expand_expand_pieces.induct)
  case (1 pre vars cyclic busy resolved name)
  show ?case
  proof (cases "name \<in> set cyclic \<or> map_of resolved name \<noteq> None \<or> map_of vars name = None \<or> name \<in> set busy")
    case True
    have "in_cycle pre vars name" if "name \<in> set busy"
      using "1.prems"(3) that unfolding in_cycle_def by blast
    moreover have "var_value pre vars name y \<and> map_of vars name \<noteq> None" if "map_of resolved name = Some y" "name \<notin> set cyclic" for y
      using "1.prems"(1) that var_value_defined unfolding memo_ok_def by metis
    ultimately show ?thesis using True "1.prems"(1,2)
      by (subst expand.simps) (auto simp: expand_right_def split: option.split)
  next
    case False
    then obtain raw where raw: "map_of vars name = Some raw" by auto
    obtain r2 tx bad where e: "expand_pieces pre vars cyclic (name # busy) resolved (pieces pre raw) = (r2, tx, bad)" by (metis prod_cases3)
    have "\<forall>b. Ref b \<in> set (pieces pre raw) \<longrightarrow> map_of vars b \<noteq> None \<longrightarrow> (\<forall>x \<in> set (name # busy). (x, b) \<in> (refers pre vars)\<^sup>+)"
    proof (intro allI impI ballI)
      fix b x assume b: "Ref b \<in> set (pieces pre raw)" "map_of vars b \<noteq> None" and x: "x \<in> set (name # busy)"
      have s: "(name, b) \<in> refers pre vars" using raw b by (auto simp: refers_def)
      show "(x, b) \<in> (refers pre vars)\<^sup>+"
        using x s "1.prems"(3) by (auto intro: trancl_into_trancl)
    qed
    with "1.IH" raw False "1.prems" have p: "pieces_right pre vars cyclic resolved (pieces pre raw) (r2, tx, bad)" unfolding e[symmetric] by auto
    have ex: "expand pre vars cyclic busy resolved name = (if bad then (r2, None) else (AList.update name tx r2, Some tx))"
      using False raw e by (subst expand.simps) auto
    show ?thesis
    proof (cases bad)
      case True
      then obtain b where b: "Ref b \<in> set (pieces pre raw)" "map_of vars b \<noteq> None" "in_cycle pre vars b" using p by (auto simp: pieces_right_def)
      have "in_cycle pre vars name" by (rule in_cycle_step[OF _ b(3)]) (use raw b in \<open>auto simp: refers_def\<close>)
      with p True show ?thesis by (simp add: ex expand_right_def pieces_right_def)
    next
      case bad: False
      have "var_value pre vars name tx" using p raw bad by (auto simp: pieces_right_def intro: var_value_pieces_value.intros)
      with p raw bad False show ?thesis by (auto simp: ex expand_right_def pieces_right_def memo_ok_def update_conv')
    qed
  qed
next
  case (3 pre vars cyclic busy resolved c ps)
  obtain r2 tx bad where e: "expand_pieces pre vars cyclic busy resolved ps = (r2, tx, bad)" by (metis prod_cases3)
  have "pieces_right pre vars cyclic resolved ps (r2, tx, bad)" using 3 e by simp
  then show ?case by (auto simp: e pieces_right_def intro: var_value_pieces_value.intros)
next
  case (4 pre vars cyclic busy resolved nm ps)
  define x where "x = (if map_of vars nm = None then (resolved, Some (var_text pre nm)) else expand pre vars cyclic busy resolved nm)"
  obtain r1 val where x1: "x = (r1, val)" by force
  obtain r2 tx bad where e: "expand_pieces pre vars cyclic busy r1 ps = (r2, tx, bad)" by (metis prod_cases3)
  have a: "expand_right pre vars cyclic resolved nm (r1, val)"
  proof (cases "map_of vars nm = None")
    case True
    with x1 "4.prems"(1) show ?thesis by (auto simp: x_def expand_right_def)
  next
    case False
    then have "expand_right pre vars cyclic resolved nm (expand pre vars cyclic busy resolved nm)" using "4.IH"(1) "4.prems" by simp
    moreover have "expand pre vars cyclic busy resolved nm = (r1, val)" using x1 False unfolding x_def by (simp only: if_False)
    ultimately show ?thesis by simp
  qed
  have b: "pieces_right pre vars cyclic r1 ps (r2, tx, bad)"
    using "4.IH"(2)[OF x1[unfolded x_def, symmetric]] a "4.prems" by (simp add: e expand_right_def)
  have c: "covers resolved r2" using a b covers_trans unfolding expand_right_def pieces_right_def fst_conv by blast
  have ex: "expand_pieces pre vars cyclic busy resolved (Ref nm # ps) =
      (case val of None \<Rightarrow> (r2, var_text pre nm @ tx, True) | Some v \<Rightarrow> (r2, v @ tx, bad))"
    using x1 e by (simp add: x_def[symmetric])
  show ?case
  proof (cases val)
    case None
    have "in_cycle pre vars nm" using a None by (simp add: expand_right_def)
    with b c None in_cycle_defined[OF this] show ?thesis unfolding ex by (auto simp: pieces_right_def)
  next
    case (Some v)
    have "pieces_value pre vars ps tx \<Longrightarrow> pieces_value pre vars (Ref nm # ps) (v @ tx)"
      using a Some by (auto simp: expand_right_def split: if_splits intro: var_value_pieces_value.intros)
    with b c Some show ?thesis unfolding ex by (cases bad) (fastforce simp: pieces_right_def)+
  qed
qed (auto simp: pieces_right_def intro: var_value_pieces_value.intros)


lemma resolve_loop_correct:
  "memo_ok pre vars cyclic resolved \<Longrightarrow> \<forall>n \<in> set cyclic. in_cycle pre vars n \<Longrightarrow> set nms \<subseteq> dom (map_of vars) \<Longrightarrow>
    \<exists>cyclic'. memo_ok pre vars cyclic' (resolve_loop pre vars cyclic nms resolved) \<and> (\<forall>n \<in> set cyclic'. in_cycle pre vars n) \<and>
      covers resolved (resolve_loop pre vars cyclic nms resolved) \<and> set nms \<subseteq> dom (map_of (resolve_loop pre vars cyclic nms resolved))"
proof (induction nms arbitrary: cyclic resolved)
  case (Cons nm nms)
  obtain r1 val where e: "expand pre vars cyclic [] resolved nm = (r1, val)" by force
  have a: "expand_right pre vars cyclic resolved nm (r1, val)" using expand_correct(1)[OF Cons.prems(1,2), of "[]" nm] e by simp
  obtain raw where raw: "map_of vars nm = Some raw" using Cons.prems(3) by auto
  define cyc where "cyc = (if val = None then nm # cyclic else cyclic)"
  define r2 where "r2 = (if val = None then AList.update nm raw r1 else r1)"
  have l: "resolve_loop pre vars cyclic (nm # nms) resolved = resolve_loop pre vars cyc nms r2"
    using e raw by (simp add: cyc_def r2_def split: option.split)
  have m: "memo_ok pre vars cyc r2" "\<forall>n \<in> set cyc. in_cycle pre vars n" "covers resolved r2" "nm \<in> dom (map_of r2)"
    using a raw Cons.prems(2) by (auto simp: cyc_def r2_def expand_right_def memo_ok_def update_conv' split: option.splits)
  have "set nms \<subseteq> dom (map_of vars)" using Cons.prems(3) by simp
  from Cons.IH[OF m(1,2) this] obtain cyclic' where
    c: "memo_ok pre vars cyclic' (resolve_loop pre vars cyc nms r2)" "\<forall>n \<in> set cyclic'. in_cycle pre vars n"
    "covers r2 (resolve_loop pre vars cyc nms r2)" "set nms \<subseteq> dom (map_of (resolve_loop pre vars cyc nms r2))" by blast
  have "nm \<in> dom (map_of (resolve_loop pre vars cyc nms r2))" using m(4) c(3) unfolding covers_def by (rule rev_subsetD)
  with c m(3) covers_trans show ?case unfolding l by (metis insert_subset list.set(2))
qed auto

text \<open>
  C37: Resolution gives every variable its value: one that leads into no cycle has a value, namely its text with all
  variables in it replaced by their values, however deep, and is resolved to it; one that leads into a cycle has no
  value and keeps its text; nothing else is resolved. So the order of the names does not matter. This is the result where the resolution
  returns one (\<open>resolve_or_raise\<close>): no text refers to an inherited name.
\<close>

theorem resolution_finds_values:
  "(\<not> in_cycle pre vars nm \<longrightarrow> map_of vars nm \<noteq> None \<longrightarrow> (\<exists>v. var_value pre vars nm v \<and> map_of (resolve_var_map pre vars) nm = Some v)) \<and>
   (in_cycle pre vars nm \<longrightarrow> map_of (resolve_var_map pre vars) nm = map_of vars nm \<and> (\<nexists>v. var_value pre vars nm v)) \<and>
   (map_of vars nm = None \<longrightarrow> map_of (resolve_var_map pre vars) nm = None)"
proof -
  have "memo_ok pre vars [] []" by (simp add: memo_ok_def)
  moreover have "set (map fst vars) \<subseteq> dom (map_of vars)" by (simp add: dom_map_of_conv_image_fst)
  ultimately obtain cyclic where c: "memo_ok pre vars cyclic (resolve_var_map pre vars)" "\<forall>n \<in> set cyclic. in_cycle pre vars n"
    "set (map fst vars) \<subseteq> dom (map_of (resolve_var_map pre vars))"
    using resolve_loop_correct[of pre vars "[]" "[]" "map fst vars"] by (auto simp: resolve_var_map_def)
  have some: "\<exists>v. map_of (resolve_var_map pre vars) nm = Some v" if "map_of vars nm \<noteq> None"
    using c(3) that by (auto simp: dom_map_of_conv_image_fst[symmetric] subset_iff)
  have entry: "if nm \<in> set cyclic then map_of vars nm = Some v else var_value pre vars nm v" if "map_of (resolve_var_map pre vars) nm = Some v" for v
    using c(1) that unfolding memo_ok_def by blast
  show ?thesis
  proof (cases "map_of (resolve_var_map pre vars) nm")
    case None
    then have "map_of vars nm = None" using some by fastforce
    with None in_cycle_defined[of pre vars nm] show ?thesis by (auto dest: var_value_defined)
  next
    case (Some v)
    show ?thesis
    proof (cases "nm \<in> set cyclic")
      case True
      with entry[OF Some] c(2) Some value_no_cycle[of pre vars nm] show ?thesis by auto
    next
      case False
      with entry[OF Some] have v: "var_value pre vars nm v" by simp
      with Some value_no_cycle[OF v] var_value_defined[OF v] show ?thesis by auto
    qed
  qed
qed

subsection \<open>Substitution in a text\<close>

text \<open>A backslash takes away the meaning of what follows it.\<close>

definition escape_value :: "char \<Rightarrow> char" where
  "escape_value c = (if c = CHR ''n'' then NL else if c = CHR ''r'' then CR else if c = CHR ''t'' then CHR 0x09 else c)"

definition var_or_text :: "jstr \<Rightarrow> vars \<Rightarrow> jstr \<Rightarrow> jstr" where
  "var_or_text pre vars nm = (case map_of vars nm of Some v \<Rightarrow> v
   | None \<Rightarrow> (case object_text nm of Some t \<Rightarrow> t | None \<Rightarrow> var_text pre nm))"

function substitute :: "jstr \<Rightarrow> vars \<Rightarrow> jstr \<Rightarrow> jstr" where
  "substitute pre vars [] = []"
| "substitute pre vars (c # s) =
     (if c = BSL then (case s of
          [] \<Rightarrow> [BSL]
        | d # r \<Rightarrow> if d = BSL then BSL # substitute pre vars r
            else (case match_ref pre s of
                Some (nm, rest) \<Rightarrow> var_text pre nm @ substitute pre vars rest
              | None \<Rightarrow> escape_value d # substitute pre vars r))
      else (case match_ref pre (c # s) of
          Some (nm, rest) \<Rightarrow> var_or_text pre vars nm @ substitute pre vars rest
        | None \<Rightarrow> c # substitute pre vars s))"
  by pat_completeness auto
termination
  by (relation "measure (\<lambda>(pre, vars, s). length s)") (auto dest: match_ref_shorter)

definition process_var_substitution :: "jstr \<Rightarrow> vars \<Rightarrow> jstr \<Rightarrow> jstr" where
  "process_var_substitution pre vars s = substitute pre (resolve_var_map pre vars) s"

definition process_or_raise :: "jstr \<Rightarrow> vars \<Rightarrow> jstr \<Rightarrow> jstr option" where
  "process_or_raise pre vars s = map_option (\<lambda>vars. substitute pre vars s) (resolve_or_raise pre vars)"

definition escape_char :: "char \<Rightarrow> jstr" where
  "escape_char c = (if c = NL then [BSL, CHR ''n''] else if c = CR then [BSL, CHR ''r''] else if c = CHR 0x09 then [BSL, CHR ''t'']
     else if c = DQ \<or> c = CHR 0x27 \<or> c = BSL then [BSL, c] else [c])"

definition escape_string_literal :: "jstr \<Rightarrow> jstr" where
  "escape_string_literal s = concat (map escape_char s)"

fun has_open :: "jstr \<Rightarrow> bool" where
  "has_open (c # d # s) = (c = CHR ''$'' \<and> d = CHR ''{'' \<or> has_open (d # s))"
| "has_open _ = False"

lemma match_ref_open: "match_ref pre s \<noteq> None \<Longrightarrow> \<exists>r. s = CHR ''$'' # CHR ''{'' # r"
  by (auto dest!: match_ref_text simp: var_text_def var_open_def)

lemma escape_brace: "escape_string_literal s = CHR ''{'' # r \<Longrightarrow> \<exists>s'. s = CHR ''{'' # s'"
  by (cases s) (auto simp: escape_string_literal_def escape_char_def split: if_splits)

text \<open>
  Substitution undoes escaping: a text in which no reference begins, written as the code writes the values of an
  environment file, is read back as it was, whatever the variables are.
\<close>

lemma substitution_unescapes:
  assumes "\<not> has_open s" shows "process_var_substitution pre vars (escape_string_literal s) = s"
proof -
  have "substitute pre vs (escape_string_literal s) = s" for vs
    using assms
  proof (induction s)
    case (Cons c s)
    have s: "\<not> has_open s" using Cons.prems by (cases s) auto
    have e: "escape_string_literal (c # s) = escape_char c @ escape_string_literal s" by (simp add: escape_string_literal_def)
    show ?case
    proof (cases "length (escape_char c) = 1")
      case True
      then have c: "escape_char c = [c]" "c \<noteq> BSL" by (auto simp: escape_char_def split: if_splits)
      have "match_ref pre (c # escape_string_literal s) = None"
      proof (rule ccontr)
        assume "match_ref pre (c # escape_string_literal s) \<noteq> None"
        from match_ref_open[OF this] obtain r where "c = CHR ''$''" "escape_string_literal s = CHR ''{'' # r" by auto
        with escape_brace Cons.prems show False by fastforce
      qed
      with c Cons.IH s show ?thesis by (simp add: e)
    next
      case False
      then obtain d where d: "escape_char c = [BSL, d]" "escape_value d = c" "d \<noteq> CHR ''$''" "d = BSL \<longrightarrow> c = BSL"
        by (auto simp: escape_char_def escape_value_def split: if_splits)
      have "match_ref pre (d # escape_string_literal s) = None" using match_ref_open[of pre "d # escape_string_literal s"] d(3) by fastforce
      with d Cons.IH s show ?thesis by (auto simp: e)
    qed
  qed (simp add: escape_string_literal_def)
  then show ?thesis by (simp add: process_var_substitution_def)
qed

text \<open>Variables that refer to each other: two levels, and a cycle with a name that leads into it.\<close>

definition sample_vars :: vars where
  "sample_vars = [(''root'', ''/w''), (''out'', ''${root}/o''), (''x'', ''a${y}''), (''y'', ''b${x}''), (''z'', ''-${x}''), (''elf'', ''${out}/${name}.elf'')]"

lemma sample_resolved:
  "resolve_var_map [] sample_vars =
    [(''root'', ''/w''), (''out'', ''/w/o''), (''x'', ''a${y}''), (''y'', ''b${x}''), (''z'', ''-${x}''), (''elf'', ''/w/o/${name}.elf'')]"
  by code_simp

lemma resolution_finds_values_witness:
  "map_of (resolve_var_map [] sample_vars) ''elf'' = Some ''/w/o/${name}.elf'' \<and> var_value [] sample_vars ''elf'' ''/w/o/${name}.elf''"
proof -
  have e: "map_of (resolve_var_map [] sample_vars) ''elf'' = Some ''/w/o/${name}.elf''" unfolding sample_resolved by code_simp
  have d: "map_of sample_vars ''elf'' = Some ''${out}/${name}.elf''" by code_simp
  note th = resolution_finds_values[of "[]" sample_vars "''elf''"]
  have "\<not> in_cycle [] sample_vars ''elf''" using th e d by auto
  then obtain v where "var_value [] sample_vars ''elf'' v" "map_of (resolve_var_map [] sample_vars) ''elf'' = Some v" using th d by auto
  with e show ?thesis by simp
qed

definition sample_text :: jstr where
  "sample_text = ''say '' @ [DQ] @ ''C:'' @ [BSL] @ ''new'' @ [DQ, NL]"

lemma substitution_unescapes_witness:
  "process_var_substitution ''env:'' sample_vars (escape_string_literal sample_text) = sample_text"
  by (rule substitution_unescapes) code_simp

subsection \<open>Environment files\<close>

text \<open>The escapes of a value in double quotes.\<close>

fun unescape :: "jstr \<Rightarrow> jstr" where
  "unescape (c # d # s) = (if c = BSL then escape_value d # unescape s else c # unescape (d # s))"
| "unescape s = s"

definition quoted_with :: "char \<Rightarrow> jstr \<Rightarrow> bool" where
  "quoted_with q v = (length v \<ge> 2 \<and> hd v = q \<and> last v = q)"

definition parse_env_file_line :: "jstr \<Rightarrow> (jstr \<times> jstr) option" where
  "parse_env_file_line raw = (let line = js_trim raw in
     if line = [] \<or> hd line = CHR ''#'' then None
     else (case index_of (CHR ''='') line of
        None \<Rightarrow> None
      | Some ix \<Rightarrow>
          let key = js_trim (take ix line); v = js_trim (drop (ix + 1) line) in
          if ix = 0 \<or> key = [] then None
          else Some (key, if quoted_with DQ v then unescape (butlast (tl v))
            else if quoted_with (CHR 0x27) v then butlast (tl v) else v)))"

lemma escape_value_escaped: "length (escape_char c) = 2 \<Longrightarrow> \<exists>d. escape_char c = [BSL, d] \<and> escape_value d = c"
  by (auto simp: escape_char_def escape_value_def split: if_splits)

lemma unescape_plain: "c \<noteq> BSL \<Longrightarrow> unescape (c # s) = c # unescape s"
  by (cases s) simp_all

lemma unescape_value [simp]: "unescape (escape_string_literal s) = s"
proof (induction s)
  case (Cons c s)
  have e: "escape_string_literal (c # s) = escape_char c @ escape_string_literal s" by (simp add: escape_string_literal_def)
  show ?case
  proof (cases "length (escape_char c) = 2")
    case True
    with escape_value_escaped[OF True] Cons show ?thesis by (auto simp: e)
  next
    case False
    then have "escape_char c = [c]" "c \<noteq> BSL" by (auto simp: escape_char_def split: if_splits)
    with Cons unescape_plain show ?thesis by (simp add: e)
  qed
qed (simp add: escape_string_literal_def)

text \<open>
  A line of an environment file with any value, escaped and in double quotes, is read as the name and that value.
\<close>

lemma env_line_roundtrip:
  assumes "key \<noteq> []" "CHR ''='' \<notin> set key" "hd key \<noteq> CHR ''#''" "\<not> js_ws (hd key)" "\<not> js_ws (last key)"
  shows "parse_env_file_line (key @ ''='' @ [DQ] @ escape_string_literal v @ [DQ]) = Some (key, v)"
proof -
  let ?v = "[DQ] @ escape_string_literal v @ [DQ]" and ?l = "key @ ''='' @ [DQ] @ escape_string_literal v @ [DQ]"
  have ws: "\<not> js_ws DQ" by (simp add: js_ws_def)
  have l: "js_trim ?l = ?l" using assms ws by (intro js_trim_id) (simp_all add: hd_append)
  have v: "js_trim ?v = ?v" using ws by (intro js_trim_id) simp_all
  have k: "js_trim key = key" using assms by (intro js_trim_id) simp_all
  have ix: "index_of (CHR ''='') ?l = Some (length key)"
    using index_of_append_notin[OF assms(2)] by simp
  have q: "quoted_with DQ ?v" "butlast (tl ?v) = escape_string_literal v" by (simp_all add: quoted_with_def butlast_append)
  have d: "drop (length key + 1) ?l = ?v" "take (length key) ?l = key" by simp_all
  have ne: "?l \<noteq> []" "hd ?l \<noteq> CHR ''#''" "length key \<noteq> 0" using assms by (simp_all add: hd_append)
  show ?thesis by (simp only: parse_env_file_line_def l Let_def ix option.case d v k q ne assms(1) if_True if_False de_Morgan_disj simp_thms unescape_value)
qed

lemma env_line_roundtrip_witness:
  "parse_env_file_line (''PATH'' @ ''='' @ [DQ] @ escape_string_literal sample_text @ [DQ]) = Some (''PATH'', sample_text)"
  by (rule env_line_roundtrip) code_simp+

text \<open>
  The variables of a configuration: its own, substituted from the environment of the process, and those of the file, escaped;
  a later entry takes the place of an earlier one. \<open>None\<close>: the substitution in one of its own raises.
\<close>

definition env_of_config :: "jstr \<Rightarrow> vars \<Rightarrow> vars \<Rightarrow> jstr list \<Rightarrow> vars option" where
  "env_of_config platform process_env own env_lines =
     (let outer = foldl (\<lambda>m (k, v). AList.update k v m) [(''platform'', platform)] process_env;
          env = foldl (\<lambda>m (k, v). AList.update k (process_var_substitution ''env:'' outer v) m) [(''platform'', platform)] own
      in if own \<noteq> [] \<and> resolve_or_raise ''env:'' outer = None then None
         else Some (foldl (\<lambda>m l. case parse_env_file_line l of None \<Rightarrow> m | Some (k, v) \<Rightarrow> AList.update k (escape_string_literal v) m) env env_lines))"

text \<open>
  \<open>substituteEnvVarsInConfig\<close>: the configuration is written as JSON, substituted in, and read again; a text that is no
  longer JSON leaves the configuration as it was, with an error. \<open>None\<close>: the substitution raises.
\<close>

definition substitute_config :: "('a \<Rightarrow> jstr) \<Rightarrow> (jstr \<Rightarrow> 'a option) \<Rightarrow> vars \<Rightarrow> 'a \<Rightarrow> ('a \<times> bool) option" where
  "substitute_config stringify parse env args = (case process_or_raise ''env:'' env (stringify args) of
     None \<Rightarrow> None
   | Some t \<Rightarrow> Some (case parse t of Some a \<Rightarrow> (a, True) | None \<Rightarrow> (args, False)))"

subsection \<open>Error paths\<close>

text \<open>
  Substitution also reads the escapes of the JSON text itself, so a quote or a backslash in any text of the configuration
  spoils it.
\<close>

lemma substitution_spoils_json:
  "process_var_substitution ''env:'' [] ([DQ, BSL, DQ] @ ''x'' @ [DQ]) = [DQ, DQ] @ ''x'' @ [DQ]"
  "process_var_substitution ''env:'' [] ([DQ] @ ''C:'' @ [BSL, BSL] @ ''p'' @ [DQ]) = [DQ] @ ''C:'' @ [BSL] @ ''p'' @ [DQ]"
  by code_simp+

text \<open>A variable that only leads into a cycle is left as it is too, though it does not refer to itself.\<close>

lemma cycle_neighbour_unresolved: "map_of (resolve_var_map [] sample_vars) ''z'' = Some ''-${x}''"
  unfolding sample_resolved by code_simp

text \<open>A variable that refers to an inherited name, with and without a variable of that name.\<close>

lemma inherited_reference_raises:
  "resolve_or_raise [] [(''a'', ''${toString}'')] = None"
  "resolve_or_raise [] [(''a'', ''${toString}''), (''toString'', ''b'')] = Some [(''toString'', ''b''), (''a'', ''b'')]"
  "process_or_raise ''env:'' [] ''${env:constructor}'' = Some ''function Object() { [native code] }''"
  by code_simp+

end
