(* ===== verification/ConfigObjects.thy ===== *)
theory ConfigObjects
  imports Handles
begin

text \<open>
  Launch configurations as the values of the language they are (\<open>common/config-provider.ts\<close> reads and writes them by
  property name): objects as association lists in the order of their keys, the truth of a value, and the parts of a
  configuration that come from a parent session (\<open>handleChainedInherits\<close>, \<open>handleChainedOverrides\<close>,
  \<open>sanitizeChainedConfigs\<close>). A configuration is JSON: dates, patterns and objects with a key of their own do not occur
  in it. Property \<open>p\<close> of a value that is not an object is undefined, as it is there.
\<close>

subsection \<open>Objects\<close>

type_synonym obj = "(jstr \<times> jval) list"

fun as_obj :: "jval \<Rightarrow> obj" where
  "as_obj (JObj fs) = fs"
| "as_obj _ = []"

fun as_arr :: "jval \<Rightarrow> jval list" where
  "as_arr (JArr xs) = xs"
| "as_arr _ = []"

definition prop_get :: "obj \<Rightarrow> jstr \<Rightarrow> jval" where
  "prop_get ob k = (case map_of ob k of None \<Rightarrow> JUndefined | Some v \<Rightarrow> v)"

definition prop_set :: "jstr \<Rightarrow> jval \<Rightarrow> obj \<Rightarrow> obj" where
  "prop_set k v ob = AList.update k v ob"

definition prop_del :: "jstr \<Rightarrow> obj \<Rightarrow> obj" where
  "prop_del k ob = AList.delete k ob"

definition prop_true :: "obj \<Rightarrow> jstr \<Rightarrow> bool" where
  "prop_true ob k = (\<not> falsy (prop_get ob k))"

definition nullish :: "jval \<Rightarrow> bool" where
  "nullish v = (v = JUndefined \<or> v = JNull)"

text \<open>A property gets a value where the code finds it missing, in the sense of each place.\<close>

definition set_if_falsy :: "jstr \<Rightarrow> jval \<Rightarrow> obj \<Rightarrow> obj" where
  "set_if_falsy k v ob = (if prop_true ob k then ob else prop_set k v ob)"

definition set_if_nullish :: "jstr \<Rightarrow> jval \<Rightarrow> obj \<Rightarrow> obj" where
  "set_if_nullish k v ob = (if nullish (prop_get ob k) then prop_set k v ob else ob)"

definition set_if_undefined :: "jstr \<Rightarrow> jval \<Rightarrow> obj \<Rightarrow> obj" where
  "set_if_undefined k v ob = (if prop_get ob k = JUndefined then prop_set k v ob else ob)"

text \<open>\<open>Object.assign\<close>.\<close>

definition assign_props :: "obj \<Rightarrow> obj \<Rightarrow> obj" where
  "assign_props ob src = foldl (\<lambda>ob (k, v). prop_set k v ob) ob src"

text \<open>A value in a template.\<close>

fun js_text :: "jval \<Rightarrow> jstr" where
  "js_text (JStr s) = s"
| "js_text (JInt i) = show_int i"
| "js_text (JBool b) = (if b then ''true'' else ''false'')"
| "js_text JUndefined = ''undefined''"
| "js_text JNull = ''null''"
| "js_text (JArr vs) = join_with '','' (map (\<lambda>v. if nullish v then [] else js_text v) vs)"
| "js_text _ = ''[object Object]''"

named_theorems objects \<open>reading a property after writing one\<close>

lemma get_nil [simp]: "prop_get [] k = JUndefined"
  by (simp add: prop_get_def)

lemma get_cons [simp]: "prop_get ((k', v) # ob) k = (if k = k' then v else prop_get ob k)"
  by (simp add: prop_get_def)

lemma true_nil [simp]: "\<not> prop_true [] k"
  by (simp add: prop_true_def)

lemma true_cons [simp]: "prop_true ((k', v) # ob) k = (if k = k' then \<not> falsy v else prop_true ob k)"
  by (simp add: prop_true_def)

lemma get_set [objects]: "prop_get (prop_set k v ob) k' = (if k' = k then v else prop_get ob k')"
  by (simp add: prop_get_def prop_set_def update_conv')

lemma get_del [objects]: "prop_get (prop_del k ob) k' = (if k' = k then JUndefined else prop_get ob k')"
  by (simp add: prop_get_def prop_del_def delete_conv')

lemma true_set [objects]: "prop_true (prop_set k v ob) k' = (if k' = k then \<not> falsy v else prop_true ob k')"
  by (simp add: prop_true_def get_set)

lemma true_del [objects]: "prop_true (prop_del k ob) k' = (k' \<noteq> k \<and> prop_true ob k')"
  by (simp add: prop_true_def get_del)

lemma get_set_if_falsy [objects]:
  "prop_get (set_if_falsy k v ob) k' = (if k' = k \<and> falsy (prop_get ob k) then v else prop_get ob k')"
  by (simp add: set_if_falsy_def prop_true_def get_set)

lemma get_set_if_nullish [objects]:
  "prop_get (set_if_nullish k v ob) k' = (if k' = k \<and> nullish (prop_get ob k) then v else prop_get ob k')"
  by (simp add: set_if_nullish_def get_set)

lemma get_set_if_undefined [objects]:
  "prop_get (set_if_undefined k v ob) k' = (if k' = k \<and> prop_get ob k = JUndefined then v else prop_get ob k')"
  by (simp add: set_if_undefined_def get_set)

lemma get_assign:
  "distinct (map fst src) \<Longrightarrow> prop_get (assign_props ob src) k = (if k \<in> fst ` set src then prop_get src k else prop_get ob k)"
proof (induction src arbitrary: ob)
  case (Cons x xs)
  obtain a v where x: "x = (a, v)" by (cases x)
  have "prop_get (assign_props (prop_set a v ob) xs) k = (if k \<in> fst ` set xs then prop_get xs k else prop_get (prop_set a v ob) k)"
    using Cons by (simp add: x)
  with Cons.prems have "prop_get (assign_props ob (x # xs)) k = (if k \<in> fst ` set xs then prop_get xs k else if k = a then v else prop_get ob k)"
    by (simp add: x assign_props_def get_set)
  with Cons.prems show ?case by (auto simp: x)
qed (simp add: assign_props_def)

subsection \<open>What a configuration gets from its parent session\<close>

definition reserved :: "jstr \<Rightarrow> bool" where
  "reserved k = (k \<in> {''type'', ''name'', ''request''} \<or> starts_with ''pvt'' k)"

text \<open>\<open>handleChainedInherits\<close>: the names are texts; the configuration and the warnings.\<close>

fun handle_inherits :: "obj \<Rightarrow> jstr list \<Rightarrow> obj \<Rightarrow> obj \<times> jstr list" where
  "handle_inherits parent [] config = (config, [])"
| "handle_inherits parent (p # ps) config =
     (if reserved p \<or> p = ''chainedConfigurations'' then
        (case handle_inherits parent ps config of (c, ws) \<Rightarrow>
           (c, (''Cannot inherit property '' @ [CHR 0x27] @ p @ [CHR 0x27] @ '' for configuration '' @ [CHR 0x27] @ js_text (prop_get config ''name'') @ [CHR 0x27] @ '' because it is reserved'') # ws))
      else if prop_get parent p \<noteq> JUndefined then handle_inherits parent ps (prop_set p (prop_get parent p) config)
      else (case handle_inherits parent ps config of (c, ws) \<Rightarrow>
           (c, (''Cannot inherit property '' @ [CHR 0x27] @ p @ [CHR 0x27] @ '' for configuration '' @ [CHR 0x27] @ js_text (prop_get config ''name'') @ [CHR 0x27] @ '' because it does not exist in parent configuration'') # ws)))"

text \<open>\<open>handleChainedOverrides\<close>: null takes a property away.\<close>

fun handle_overrides :: "obj \<Rightarrow> obj \<Rightarrow> obj" where
  "handle_overrides [] config = config"
| "handle_overrides ((p, v) # ps) config =
     handle_overrides ps (if reserved p then config else if v = JNull then prop_del p config else prop_set p v config)"

fun as_text :: "jval \<Rightarrow> jstr" where
  "as_text (JStr s) = s"
| "as_text _ = []"

text \<open>The part of \<open>sanitizeChainedConfigs\<close> for a session with a parent: the configuration of the parent and the launch there.\<close>

definition chained_child :: "obj \<Rightarrow> obj \<Rightarrow> obj \<Rightarrow> obj \<times> jstr list" where
  "chained_child parent launch config =
     (let config = prop_set ''pvtMyConfigFromParent'' (JObj launch) (prop_set ''pvtParent'' (JObj parent) config);
          (config, ws) = handle_inherits parent (map as_text (as_arr (prop_get launch ''inherits''))) config
      in (handle_overrides (as_obj (prop_get launch ''overrides'')) config, ws))"

subsection \<open>The launches of a parent\<close>

definition chained_events :: "jval set" where "chained_events = {JStr ''postStart'', JStr ''postInit''}"

definition chained_defaults :: "jval \<Rightarrow> obj \<Rightarrow> obj" where
  "chained_defaults servertype c =
     set_if_nullish ''lifecycleManagedByParent'' (JBool True)
      (set_if_nullish ''detached'' (JBool (servertype = JStr ''jlink''))
       ((\<lambda>c. if prop_true c ''waitOnEvent'' \<and> prop_get c ''waitOnEvent'' \<in> chained_events then c else prop_set ''waitOnEvent'' (JStr ''postInit'') c)
        (set_if_falsy ''delayMs'' (JInt 0) c)))"

definition launch_defaults :: "obj \<Rightarrow> obj \<Rightarrow> obj" where
  "launch_defaults chained l =
     (let l = set_if_nullish ''enabled'' (JBool True) l;
          l = set_if_undefined ''delayMs'' (prop_get chained ''delayMs'') l;
          l = set_if_nullish ''detached'' (prop_get chained ''detached'') l;
          l = (if prop_get l ''waitOnEvent'' \<in> chained_events then l else prop_set ''waitOnEvent'' (prop_get chained ''waitOnEvent'') l);
          l = set_if_nullish ''lifecycleManagedByParent'' (prop_get chained ''lifecycleManagedByParent'') l;
          inh = as_arr (prop_get l ''inherits'') @ as_arr (prop_get chained ''inherits'')
      in if inh \<noteq> [] then prop_set ''inherits'' (JArr inh) l else prop_del ''inherits'' l)"

text \<open>
  The overrides are one object: each launch writes its own into it and then refers to it. \<open>merge_overrides\<close> goes over the
  launches and says which of them refer to it, \<open>link_overrides\<close> gives those its final contents.
\<close>

fun merge_overrides :: "obj \<Rightarrow> obj list \<Rightarrow> obj \<times> bool list" where
  "merge_overrides shared [] = (shared, [])"
| "merge_overrides shared (l # ls) =
     (let tmp = as_obj (prop_get l ''overrides''); linked = (shared \<noteq> [] \<or> tmp \<noteq> []);
          (final, bs) = merge_overrides (if linked then assign_props shared tmp else shared) ls
      in (final, linked # bs))"

definition link_overrides :: "obj \<Rightarrow> obj \<Rightarrow> bool \<Rightarrow> obj" where
  "link_overrides shared l linked = (if linked then prop_set ''overrides'' (JObj shared) l else prop_del ''overrides'' l)"

definition sanitize_launches :: "obj \<Rightarrow> obj list \<Rightarrow> obj list \<times> obj" where
  "sanitize_launches chained ls =
     (let ls = map (launch_defaults chained) ls;
          (shared, linked) = merge_overrides (as_obj (prop_get chained ''overrides'')) ls
      in (map2 (link_overrides shared) ls linked, shared))"

definition sanitize_parent :: "obj \<Rightarrow> obj" where
  "sanitize_parent config =
     (let chained = as_obj (prop_get config ''chainedConfigurations''); ls = as_arr (prop_get chained ''launches'') in
      if \<not> prop_true chained ''enabled'' \<or> ls = [] then prop_set ''chainedConfigurations'' (JObj [(''enabled'', JBool False)]) config
      else let chained = chained_defaults (prop_get config ''servertype'') chained;
               (ls, shared) = sanitize_launches chained (map as_obj ls);
               chained = (if prop_true chained ''overrides'' then prop_set ''overrides'' (JObj shared) chained else chained)
           in prop_set ''chainedConfigurations'' (JObj (prop_set ''launches'' (JArr (map JObj ls)) chained)) config)"

text \<open>\<open>sanitizeChainedConfigs\<close>, over the session of the same name that waits to be started, if there is one.\<close>

definition sanitize_chained :: "(obj \<times> obj) option \<Rightarrow> obj \<Rightarrow> obj \<times> jstr list" where
  "sanitize_chained me config = (case me of None \<Rightarrow> (sanitize_parent config, [])
     | Some (parent, launch) \<Rightarrow> (case chained_child parent launch config of (c, ws) \<Rightarrow> (sanitize_parent c, ws)))"

subsection \<open>The value of an inherited property\<close>

lemma handle_inherits_get:
  "prop_get (fst (handle_inherits parent ps config)) k =
     (if k \<in> set ps \<and> \<not> reserved k \<and> k \<noteq> ''chainedConfigurations'' \<and> prop_get parent k \<noteq> JUndefined then prop_get parent k else prop_get config k)"
  by (induction parent ps config rule: handle_inherits.induct) (auto simp: objects split: prod.splits)

lemma handle_overrides_get:
  "distinct (map fst ps) \<Longrightarrow> prop_get (handle_overrides ps config) k =
     (if reserved k then prop_get config k
      else case map_of ps k of None \<Rightarrow> prop_get config k | Some v \<Rightarrow> if v = JNull then JUndefined else v)"
proof (induction ps config rule: handle_overrides.induct)
  case (2 p v ps config)
  let ?c = "if reserved p then config else if v = JNull then prop_del p config else prop_set p v config"
  have c: "prop_get ?c k = (if reserved p \<or> k \<noteq> p then prop_get config k else if v = JNull then JUndefined else v)"
    by (simp add: objects)
  have p: "map_of ps p = None" using 2(2) by (simp add: map_of_eq_None_iff)
  show ?case using 2 p by (cases "k = p") (simp_all add: c objects split: option.split)
qed simp

end
