(* ===== verification/ConfigProvider.thy ===== *)
theory ConfigProvider
  imports ConfigObjects Controllers
begin

text \<open>
  The launch configuration before a session starts (\<open>common/config-provider.ts\<close>): its defaults, the checks of each kind
  of server, and what is filled in once variables are substituted. The editor and the files are parameters
  (\<open>config_host\<close>). A number is an integer; frequencies are even, so that half of one is one.
\<close>

subsection \<open>The host\<close>

text \<open>
  \<open>getSetting\<close>, \<open>os.platform\<close>, the waiting session of a name with its parent's configuration, and the toolchain found for
  an ST-Link; the functions of \<open>path\<close> and what the file system has: the first 16 bytes of a file, or the text of an error.
\<close>

record config_host =
  ch_setting :: "jstr \<Rightarrow> jstr \<Rightarrow> jval"
  ch_platform :: jstr
  ch_chained :: "jval \<Rightarrow> (obj \<times> obj) option"
  ch_used_ports :: "nat list"
  ch_toolchain :: jval
  ch_extension_path :: jstr
  ch_remote :: jval
  ch_absolute :: "jstr \<Rightarrow> bool"
  ch_join :: "jstr \<Rightarrow> jstr \<Rightarrow> jstr"
  ch_normalize :: "jstr \<Rightarrow> jstr"
  ch_resolve :: "jstr \<Rightarrow> jstr"
  ch_extname :: "jstr \<Rightarrow> jstr"
  ch_exists :: "jstr \<Rightarrow> bool"
  ch_head :: "jstr \<Rightarrow> jstr + bytes"

definition os_suffix :: "config_host \<Rightarrow> jstr" where
  "os_suffix h = (if ch_platform h = ''win32'' then ''windows'' else if ch_platform h = ''darwin'' then ''osx'' else ''linux'')"

text \<open>One round of the loop of \<open>setOsSpecficConfigSetting\<close>: the setting for this system, or the setting for all.\<close>

definition setting_in :: "config_host \<Rightarrow> jstr \<Rightarrow> jstr \<Rightarrow> jval option" where
  "setting_in h section name =
     (let os_val = ch_setting h section (name @ ''.'' @ os_suffix h); v = ch_setting h section name in
      if \<not> nullish os_val then Some os_val
      else if nullish v then None
      else (case v of
          JObj fs \<Rightarrow> if prop_get fs (os_suffix h) \<noteq> JUndefined then Some (prop_get fs (os_suffix h)) else None
        | JArr _ \<Rightarrow> None
        | _ \<Rightarrow> Some v))"

definition os_setting :: "config_host \<Rightarrow> jstr \<Rightarrow> jstr \<Rightarrow> obj \<Rightarrow> obj" where
  "os_setting h dst name config =
     (if prop_true config dst then config
      else (case setting_in h ''mcu-debug'' name of
          Some v \<Rightarrow> prop_set dst v config
        | None \<Rightarrow> (case setting_in h ''cortex-debug'' name of Some v \<Rightarrow> prop_set dst v config | None \<Rightarrow> config)))"

text \<open>\<open>if (config.a && !config.b) { config.b = config.a; }\<close>.\<close>

definition take_from :: "jstr \<Rightarrow> jstr \<Rightarrow> obj \<Rightarrow> obj" where
  "take_from a b config = (if prop_true config a then set_if_falsy b (prop_get config a) config else config)"

subsection \<open>The checks of each server\<close>

text \<open>A check gives the configuration, the warnings and the error; no error is the empty text.\<close>

type_synonym checked = "obj \<times> jstr list \<times> jstr"

abbreviation swo_of :: "obj \<Rightarrow> obj" where "swo_of config \<equiv> as_obj (prop_get config ''swoConfig'')"

definition swo_off :: "obj \<Rightarrow> obj" where
  "swo_off config = prop_set ''graphConfig'' (JArr [])
     (prop_set ''swoConfig'' (JObj [(''enabled'', JBool False), (''decoders'', JArr []), (''cpuFrequency'', JInt 0), (''swoFrequency'', JInt 0)]) config)"

definition verify_qemu :: "config_host \<Rightarrow> obj \<Rightarrow> checked" where
  "verify_qemu h config =
     (let c = set_if_falsy ''machine'' (JStr ''lm3s6965evb'') (set_if_falsy ''cpu'' (JStr ''mcu-m3'') (os_setting h ''serverpath'' ''qemupath'' config));
          swo = prop_true (swo_of c) ''enabled''
      in (if swo then swo_off c else c, if swo then [''SWO support is not available when using QEMU.''] else [],
          if prop_true c ''rtos'' then ''RTOS support is not available when using QEMU'' else []))"

text \<open>All RTT decoders of a J-Link are on one channel; a decoder without one gets channel 0.\<close>

fun jlink_decoders :: "jval option \<Rightarrow> obj list \<Rightarrow> obj list \<times> jstr" where
  "jlink_decoders chosen [] = ([], [])"
| "jlink_decoders chosen (d # ds) =
     (let port = prop_get d ''port'';
          d' = (if port = JUndefined then prop_set ''port'' (JInt 0) d else d);
          port' = prop_get d' ''port''
      in if port \<noteq> JUndefined \<and> (\<exists>i \<in> set (case port of JInt i \<Rightarrow> [i] | _ \<Rightarrow> []). i < 0 \<or> i > 15)
         then (d # ds, ''Invalid port/channel '' @ [CHR 0x27] @ js_text port @ [CHR 0x27] @ ''.  JLink RTT port/channel must be between 0 and 15.'')
         else if chosen \<noteq> None \<and> chosen \<noteq> Some port'
         then (d' # ds, ''Port/channel '' @ js_text port' @ '' selected but another decoder is using port '' @ js_text (the chosen) @
           ''. JLink RTT only allows a single RTT port/channel per debugging session.'')
         else (case jlink_decoders (Some port') ds of (ds, e) \<Rightarrow> (d' # ds, e)))"

definition verify_jlink :: "config_host \<Rightarrow> obj \<Rightarrow> checked" where
  "verify_jlink h config =
     (let c = os_setting h ''serverpath'' ''JLinkGDBServerPath''
                (set_if_falsy ''interface'' (JStr ''swd'') (take_from ''jlinkInterface'' ''interface'' (take_from ''jlinkpath'' ''serverpath'' config)));
          swo = swo_of c; rtt = as_obj (prop_get c ''rttConfig'') in
      if \<not> prop_true c ''device'' then (c, [], ''Device Identifier is required for J-Link configurations. Please see https://www.segger.com/downloads/supported-devices.php for supported devices'')
      else if prop_get c ''interface'' \<in> {JStr ''jtag'', JStr ''cjtag''} \<and> prop_true swo ''enabled'' \<and> prop_get swo ''source'' = JStr ''probe''
      then (c, [], ''SWO Decoding cannot be performed through the J-Link Probe in JTAG mode.'')
      else if prop_true rtt ''enabled'' \<and> as_arr (prop_get rtt ''decoders'') \<noteq> [] then
        (case jlink_decoders None (map as_obj (as_arr (prop_get rtt ''decoders''))) of (ds, e) \<Rightarrow>
           (prop_set ''rttConfig'' (JObj (prop_set ''decoders'' (JArr (map JObj ds)) rtt)) c, [], e))
      else (c, [], []))"

definition jlink_valid_rtos :: "jstr list" where
  "jlink_valid_rtos = [''Azure'', ''ChibiOS'', ''embOS'', ''FreeRTOS'', ''NuttX'', ''Zephyr'']"

definition openocd_valid_rtos :: "jstr list" where
  "openocd_valid_rtos = [''auto'', ''FreeRTOS'', ''ThreadX'', ''chibios'', ''Chromium-EC'', ''eCos'', ''embKernel'', ''linux'', ''mqx'', ''nuttx'', ''RIOT'', ''uCOS-III'', ''Zephyr'']"

definition library_ext :: "config_host \<Rightarrow> jstr" where
  "library_ext h = (if ch_platform h = ''darwin'' then ''.dylib'' else if ch_platform h = ''linux'' then ''.so''
     else if ch_platform h = ''win32'' then ''.dll'' else [])"

definition verify_jlink_after :: "config_host \<Rightarrow> obj \<Rightarrow> checked" where
  "verify_jlink_after h config = (let rtos = js_text (prop_get config ''rtos'') in
     if \<not> prop_true config ''rtos'' then (config, [], [])
     else if rtos \<in> set jlink_valid_rtos
     then (prop_set ''rtos'' (JStr (''GDBServer/RTOSPlugin_'' @ rtos @ library_ext h)) config, [], [])
     else let rtos = (if ch_extname h rtos = [] then rtos @ library_ext h else rtos) in
       (prop_set ''rtos'' (JStr rtos) config, [],
        if ch_exists h rtos then [] else ''JLink RTOS plugin file '' @ [DQ] @ rtos @ [DQ] @ '' not found.'' @ [NL] @
          ''The following RTOS values are supported by J-Link: '' @ join_with '', '' jlink_valid_rtos @
          ''. A custom plugin can be used by supplying a complete path to a J-Link GDB Server Plugin.''))"

definition verify_openocd :: "config_host \<Rightarrow> obj \<Rightarrow> checked" where
  "verify_openocd h config =
     (let c = os_setting h ''serverpath'' ''openocdPath'' (take_from ''openOCDPath'' ''serverpath'' config) in
      if prop_true c ''rtos'' \<and> prop_get c ''rtos'' \<notin> set (map JStr openocd_valid_rtos)
      then (c, [], ''The following RTOS values are supported by OpenOCD: '' @ join_with '' '' openocd_valid_rtos @ ''.You can always use '' @ [DQ] @ ''auto'' @ [DQ] @
        '' and OpenOCD generally does the right thing'')
      else if ch_chained h (prop_get c ''name'') \<noteq> None then (c, [], [])
      else if as_arr (prop_get c ''configFiles'') = [] then (c, [], ''At least one OpenOCD Configuration File must be specified.'')
      else (if as_arr (prop_get c ''searchDir'') = [] then prop_set ''searchDir'' (JArr []) c else c, [], []))"

definition verify_stutil :: "config_host \<Rightarrow> obj \<Rightarrow> checked" where
  "verify_stutil h config =
     (let c = os_setting h ''serverpath'' ''stutilPath'' (take_from ''stutilpath'' ''serverpath'' config) in
      if prop_true c ''rtos'' then (c, [], ''The st-util GDB Server does not have support for the rtos option.'')
      else if prop_true (swo_of c) ''enabled'' \<and> prop_get (swo_of c) ''source'' = JStr ''probe''
      then (swo_off c, [''SWO support is not available from the probe when using the ST-Util GDB server. Disabling SWO.''], [])
      else (c, [], []))"

definition verify_stlink :: "config_host \<Rightarrow> obj \<Rightarrow> checked" where
  "verify_stlink h config =
     (let c = os_setting h ''stm32cubeprogrammer'' ''stm32cubeprogrammer'' (os_setting h ''serverpath'' ''stlinkPath'' (take_from ''stlinkPath'' ''serverpath'' config)) in
      (c, [], if prop_true c ''rtos'' then ''The ST-Link GDB Server does not have support for the rtos option.'' else []))"

definition verify_probe_rs :: "config_host \<Rightarrow> obj \<Rightarrow> checked" where
  "verify_probe_rs h config =
     (let c = os_setting h ''serverpath'' ''probeRSPath'' (take_from ''probeRSPath'' ''serverpath'' config) in
      (c, [], if prop_true c ''rtos'' then ''The probe-rs GDB Server does not have support for the rtos option.'' else []))"

definition verify_pyocd :: "config_host \<Rightarrow> obj \<Rightarrow> checked" where
  "verify_pyocd h config =
     (let c = os_setting h ''serverpath'' ''pyocdPath'' (take_from ''pyocdPath'' ''serverpath'' config) in
      if prop_true c ''rtos'' then (c, [], ''The PyOCD GDB Server does not have support for the rtos option.'')
      else (take_from ''target'' ''targetId'' (take_from ''board'' ''boardId'' c), [], []))"

definition verify_bmp :: "obj \<Rightarrow> checked" where
  "verify_bmp config =
     (if \<not> prop_true config ''BMPGDBSerialPort'' then (config, [], ''A Serial Port for the Black Magic Probe GDB server is required.'')
      else let c = set_if_falsy ''targetId'' (JInt 1) (set_if_falsy ''interface'' (JStr ''swd'') (set_if_falsy ''powerOverBMP'' (JStr ''lastState'') config)) in
        (c, [], if prop_true c ''rtos'' then ''The Black Magic Probe GDB Server does not have support for the rtos option.'' else []))"

definition verify_pe :: "config_host \<Rightarrow> obj \<Rightarrow> checked" where
  "verify_pe h config =
     (let c = os_setting h ''serverpath'' ''PEGDBServerPath'' config in
      (c, [], if length (as_arr (prop_get c ''configFiles'')) > 1 then ''Only one pegdbserver Configuration File is allowed.''
         else if \<not> prop_true c ''device'' then ''Device Identifier is required for PE configurations. Please run `pegdbserver_console.exe -devicelist` for supported devices''
         else if prop_true (swo_of c) ''enabled'' \<and> prop_get (swo_of c) ''source'' \<noteq> JStr ''socket'' then ''The PE GDB Server Only supports socket type SWO''
         else []))"

definition verify_external :: "obj \<Rightarrow> checked" where
  "verify_external config =
     (let swo = swo_of config; socket = (prop_get swo ''source'' = JStr ''socket'');
          bad = (prop_true swo ''enabled'' \<and> \<not> prop_true swo (if socket then ''swoPort'' else ''swoPath''))
      in (if bad then swo_off config else config,
          if bad then [if socket then ''SWO source type '' @ [DQ] @ ''socket'' @ [DQ] @ '' requires a '' @ [DQ] @ ''swoPort'' @ [DQ] @ ''. Disabling SWO support.''
            else ''SWO source type '' @ [DQ] @ js_text (prop_get swo ''source'') @ [DQ] @ '' requires a '' @ [DQ] @ ''swoPath'' @ [DQ] @ ''. Disabling SWO support.''] else [],
          if prop_true config ''gdbTarget'' then []
          else ''External GDB server type must specify the GDB target. This should either be a '' @ [DQ] @ ''hostname:port'' @ [DQ] @ '' combination or a serial port.''))"

definition verify_server :: "config_host \<Rightarrow> jval \<Rightarrow> obj \<Rightarrow> checked" where
  "verify_server h type c =
     (if type = JStr ''jlink'' then verify_jlink h c else if type = JStr ''openocd'' then verify_openocd h c
      else if type = JStr ''stutil'' then verify_stutil h c else if type = JStr ''stlink'' then verify_stlink h c
      else if type = JStr ''probe-rs'' then verify_probe_rs h c else if type = JStr ''pyocd'' then verify_pyocd h c
      else if type = JStr ''bmp'' then verify_bmp c else if type = JStr ''pe'' then verify_pe h c
      else if type = JStr ''external'' then verify_external c else if type = JStr ''qemu'' then verify_qemu h c
      else (c, [], ''Invalid servertype parameters. The following values are supported: '' @
        join_with '', '' (map (\<lambda>s. [DQ] @ s @ [DQ]) [''jlink'', ''openocd'', ''stutil'', ''stlink'', ''pyocd'', ''bmp'', ''pe'', ''external'', ''qemu''])))"

subsection \<open>The defaults\<close>

definition flatten_platform :: "config_host \<Rightarrow> obj \<Rightarrow> obj" where
  "flatten_platform h c =
     (let c = (if ch_platform h = ''darwin'' then assign_props c (as_obj (prop_get c ''osx''))
        else if ch_platform h = ''win32'' then assign_props c (as_obj (prop_get c ''windows''))
        else if ch_platform h = ''linux'' then assign_props c (as_obj (prop_get c ''linux'')) else c)
      in prop_del ''linux'' (prop_del ''windows'' (prop_del ''osx'' c)))"

definition swo_decoder_defaults :: "obj \<Rightarrow> obj" where
  "swo_decoder_defaults d =
     (if prop_get d ''type'' = JStr ''advanced''
      then (if prop_get d ''ports'' = JUndefined \<and> prop_get d ''port'' \<noteq> JUndefined then prop_set ''ports'' (JArr [prop_get d ''port'']) d else d)
      else (if prop_get d ''port'' = JUndefined \<and> prop_get d ''number'' \<noteq> JUndefined then prop_set ''port'' (prop_get d ''number'') d else d))"

fun half :: "jval \<Rightarrow> jval" where
  "half (JInt i) = JInt (i div 2)"
| "half v = v"

definition swo_enabled_defaults :: "obj \<Rightarrow> obj \<times> jstr list" where
  "swo_enabled_defaults s0 =
     (let s1 = set_if_falsy ''cpuFrequency'' (JInt 1000000) s0;
          s2 = set_if_falsy ''swoFrequency'' (half (prop_get s1 ''cpuFrequency'')) s1;
          s3 = set_if_falsy ''decoders'' (JArr []) (set_if_falsy ''source'' (JStr ''probe'') (set_if_falsy ''swoEncoding'' (JStr ''uart'') s2))
      in (prop_set ''decoders'' (JArr (map (JObj \<circ> swo_decoder_defaults \<circ> as_obj) (as_arr (prop_get s3 ''decoders'')))) s3,
          (if prop_true s0 ''cpuFrequency'' then [] else [''launch.json: Missing/Invalid swoConfig.cpuFrequency. setting to '' @ js_text (prop_get s1 ''cpuFrequency'') @ '' Hz'']) @
          (if prop_true s1 ''swoFrequency'' then [] else [''launch.json: Missing/Invalid swoConfig.swoFrequency. setting to '' @ js_text (prop_get s2 ''swoFrequency'') @ '' Hz''])))"

definition swo_defaults :: "obj \<Rightarrow> obj \<times> jstr list" where
  "swo_defaults c =
     (if \<not> prop_true c ''swoConfig''
      then (prop_set ''swoConfig'' (JObj [(''enabled'', JBool False), (''decoders'', JArr []), (''cpuFrequency'', JInt 0), (''swoFrequency'', JInt 0), (''source'', JStr ''probe'')]) c, [])
      else if prop_true (swo_of c) ''enabled'' then (case swo_enabled_defaults (swo_of c) of (s, ws) \<Rightarrow> (prop_set ''swoConfig'' (JObj s) c, ws))
      else (c, []))"

definition rtt_defaults :: "obj \<Rightarrow> obj" where
  "rtt_defaults c =
     (if \<not> prop_true c ''rttConfig'' then prop_set ''rttConfig'' (JObj [(''enabled'', JBool False), (''decoders'', JArr [])]) c
      else (case prop_get c ''rttConfig'' of
          JObj r \<Rightarrow>
            (let r = set_if_falsy ''decoders'' (JArr []) r;
                 r = (case prop_get r ''useBuiltinRTT'' of
                     JBool b \<Rightarrow> if \<not> prop_true r ''enabled'' then r
                       else if b then prop_set ''useBuiltinRTT'' (JObj [(''enabled'', JBool True)]) r else prop_del ''useBuiltinRTT'' r
                   | _ \<Rightarrow> r)
             in prop_set ''rttConfig'' (JObj r) c)
        | _ \<Rightarrow> c))"

definition command_defaults :: "obj \<Rightarrow> obj" where
  "command_defaults c =
     (let c = foldl (\<lambda>c k. set_if_falsy k (JArr []) c) c
            [''graphConfig'', ''preLaunchCommands'', ''postLaunchCommands'', ''preAttachCommands'', ''postAttachCommands''];
          alt = (\<lambda>k v c. if prop_true c k then prop_get c k else v);
          c = set_if_falsy ''preResetCommands'' (alt ''preRestartCommands'' (JArr []) c) c;
          c = set_if_falsy ''postResetCommands'' (alt ''postRestartCommands'' (JArr []) c) c;
          c = set_if_undefined ''overridePreEndSessionCommands'' JNull c
      in set_if_falsy ''postResetSessionCommands'' (alt ''postRestartSessionCommands'' JNull c) c)"

definition entry_defaults :: "obj \<Rightarrow> obj \<times> jstr list" where
  "entry_defaults c =
     (if prop_true c ''runToEntryPoint'' then (prop_set ''runToEntryPoint'' (JStr (js_trim (js_text (prop_get c ''runToEntryPoint'')))) c, [])
      else if prop_true c ''runToMain'' then (prop_set ''runToEntryPoint'' (JStr ''main'') c,
        [''launch.json: '' @ [DQ] @ ''runToMain'' @ [DQ] @ '' has been deprecated and will not work in future versions of mcu-debug. Please use '' @ [DQ] @ ''runToEntryPoint'' @ [DQ] @ '' instead''])
      else (c, []))"

definition debugger_defaults :: "obj \<Rightarrow> obj" where
  "debugger_defaults c = set_if_falsy ''debuggerArgs'' (JArr []) (take_from ''debugger_args'' ''debuggerArgs'' c)"

definition tool_defaults :: "config_host \<Rightarrow> obj \<Rightarrow> obj" where
  "tool_defaults h c =
     (let c = (if prop_true c ''armToolchainPath'' then prop_set ''toolchainPath'' (prop_get c ''armToolchainPath'') c else c);
          c = os_setting h ''toolchainPath'' ''armToolchainPath'' c;
          c = (if \<not> prop_true c ''toolchainPath'' \<and> \<not> prop_true c ''armToolchainPath'' \<and> prop_get c ''servertype'' = JStr ''stlink''
               then prop_set ''toolchainPath'' (ch_toolchain h) (prop_set ''armToolchainPath'' (ch_toolchain h) c) else c);
          prefix = ch_setting h ''mcu-debug'' ''armToolchainPrefix'';
          c = set_if_falsy ''toolchainPrefix'' (if falsy prefix then JStr ''arm-none-eabi'' else prefix) c
      in os_setting h ''objdumpPath'' ''objdumpPath'' (os_setting h ''gdbPath'' ''gdbPath'' c))"

text \<open>The settings that say how numbers are shown have a default of the editor.\<close>

definition view_settings :: "config_host \<Rightarrow> obj \<Rightarrow> obj" where
  "view_settings h c =
     (let path = ch_extension_path h; path = (if ch_platform h = ''win32'' then map (\<lambda>x. if x = BSL then CHR ''/'' else x) path else path);
          setting = (\<lambda>k. let v = ch_setting h ''mcu-debug'' k in if v = JUndefined then JBool True else v)
      in prop_set ''variableUseNaturalFormat'' (setting ''variableUseNaturalFormat'')
           (prop_set ''registerUseNaturalFormat'' (setting ''registerUseNaturalFormat'') (prop_set ''extensionPath'' (JStr path) c)))"

subsection \<open>The resolution of a configuration\<close>

text \<open>The configuration goes on, is refused with the messages shown, or the function raises.\<close>

datatype resolution = Accepted obj | Refused | Raised

text \<open>Everything after the substitution of environment variables.\<close>

definition resolve_checked :: "config_host \<Rightarrow> nat \<Rightarrow> obj \<Rightarrow> resolution \<times> jstr list" where
  "resolve_checked h port c =
     (let c = prop_set ''pvtAvoidPorts'' (JArr (map (JInt \<circ> int) (ch_used_ports h))) (prop_set ''pvtGdbServerConsolePort'' (JInt (int port)) c);
          c = flatten_platform h c;
          (c, ws1) = sanitize_chained (ch_chained h (prop_get c ''name'')) c;
          c = debugger_defaults c;
          type = prop_get c ''servertype'';
          (c, ws2) = swo_defaults c;
          (c, ws3) = entry_defaults (command_defaults (rtt_defaults c));
          (c, ws4, err) = verify_server h type c;
          c = view_settings h (tool_defaults h c)
      in if err \<noteq> [] then (Refused, ws1 @ ws2 @ ws3 @ ws4 @ [err]) else (Accepted c, ws1 @ ws2 @ ws3 @ ws4))"

text \<open>
  \<open>resolveDebugConfiguration\<close>: the port of the console may fail; \<open>subst\<close> is the substitution of environment variables
  (theory \<open>Substitution\<close>) with its messages, any of which refuses the configuration.
\<close>

definition resolve_configuration :: "config_host \<Rightarrow> jstr + int \<Rightarrow> (obj \<Rightarrow> obj \<times> jstr list) \<Rightarrow> obj \<Rightarrow> resolution \<times> jstr list" where
  "resolve_configuration h console subst config = (case console of
     Inl e \<Rightarrow> (Refused, [''Could not start the gdb-server console: '' @ e])
   | Inr port \<Rightarrow>
       if port \<le> 0 then (Refused, [''GDB server console not yet ready. Please try again. Report this problem''])
       else (case subst config of (c, errs) \<Rightarrow>
         if errs \<noteq> [] then (Refused, [''Errors in environment variable substitution from env or envFile:'' @ [NL] @ join_with [NL] errs])
         else resolve_checked h (nat port) c))"

subsection \<open>After the substitution of variables\<close>

text \<open>\<open>validateELFHeader\<close>: whether the file is one, and the message with whether it is shown.\<close>

definition validate_elf :: "config_host \<Rightarrow> jstr \<Rightarrow> bool \<times> (jstr \<times> bool) option" where
  "validate_elf h exe =
     (let q = [DQ] @ ''executable'' @ [DQ] @ '': '' @ [DQ] @ exe @ [DQ] in
      if \<not> ch_exists h exe then (False, Some (''File not found '' @ q, True))
      else (case ch_head h exe of
          Inl e \<Rightarrow> (False, Some (''Could not read file '' @ q @ '' '' @ e, True))
        | Inr bytes \<Rightarrow>
            if length bytes \<noteq> 16 then (False, Some (''Could not read 16 bytes from '' @ q, True))
            else if take 4 bytes \<noteq> [0x7f, 0x45, 0x4c, 0x46]
            then (False, Some (''Not a valid ELF file '' @ q @ ''. Many debug functions can fail or not work properly'', False))
            else (True, None)))"

definition elf_errors :: "config_host \<Rightarrow> jstr \<Rightarrow> jstr list" where
  "elf_errors h exe = (case snd (validate_elf h exe) of Some (m, True) \<Rightarrow> [m] | _ \<Rightarrow> [])"

definition slashes :: "jstr \<Rightarrow> jstr" where
  "slashes s = map (\<lambda>c. if c = BSL then CHR ''/'' else c) s"

definition full_path :: "config_host \<Rightarrow> jstr \<Rightarrow> jstr \<Rightarrow> jstr" where
  "full_path h cwd f = slashes (ch_normalize h (if ch_absolute h f then f else ch_join h cwd f))"

text \<open>A symbol file is a path, or an object with one; a path becomes an object.\<close>

fun symbol_file :: "jval \<Rightarrow> obj" where
  "symbol_file (JObj fs) = fs"
| "symbol_file v = [(''file'', v), (''sections'', JArr []), (''sectionMap'', JObj [])]"

definition section_map :: "obj list \<Rightarrow> obj" where
  "section_map ss = foldl (\<lambda>m s. prop_set (js_text (prop_get s ''name'')) (JObj s) m) [] ss"

text \<open>\<open>None\<close>: the path of the file is not a text, which \<open>path.isAbsolute\<close> refuses by an exception.\<close>

definition validated_symbols :: "config_host \<Rightarrow> jstr \<Rightarrow> obj \<Rightarrow> (jstr \<times> obj) option" where
  "validated_symbols h cwd s = (case prop_get s ''file'' of
     JStr f \<Rightarrow>
       (let s = set_if_falsy ''sections'' (JArr []) (prop_set ''file'' (JStr (full_path h cwd f)) s)
        in Some (full_path h cwd f, prop_set ''sectionMap'' (JObj (section_map (map as_obj (as_arr (prop_get s ''sections''))))) s))
   | _ \<Rightarrow> None)"

fun validate_symbol_files :: "config_host \<Rightarrow> jstr \<Rightarrow> obj list \<Rightarrow> (obj list \<times> jstr list) option" where
  "validate_symbol_files h cwd [] = Some ([], [])"
| "validate_symbol_files h cwd (s # ss) = (case validated_symbols h cwd s of
     None \<Rightarrow> None
   | Some (exe, s) \<Rightarrow> map_option (\<lambda>(ss, es). (s # ss, elf_errors h exe @ es)) (validate_symbol_files h cwd ss))"

definition validate_executable :: "config_host \<Rightarrow> jstr \<Rightarrow> obj \<Rightarrow> obj" where
  "validate_executable h cwd c = (if prop_true c ''executable''
     then prop_set ''executable'' (JStr (full_path h (if cwd = [] then ''.'' else cwd) (js_text (prop_get c ''executable'')))) c else c)"

definition validate_load_files :: "config_host \<Rightarrow> jstr \<Rightarrow> obj \<Rightarrow> obj" where
  "validate_load_files h cwd c =
     (if prop_true c ''loadFiles'' then prop_set ''loadFiles'' (JArr (map (JStr \<circ> full_path h cwd \<circ> js_text) (as_arr (prop_get c ''loadFiles'')))) c
      else if prop_true c ''executable'' \<and> prop_true c ''symbolFiles'' then prop_set ''loadFiles'' (JArr [prop_get c ''executable'']) c else c)"

text \<open>\<open>validateLoadAndSymbolFiles\<close>.\<close>

definition validate_files :: "config_host \<Rightarrow> jstr \<Rightarrow> obj \<Rightarrow> (obj \<times> jstr list) option" where
  "validate_files h cwd c =
     (let c = validate_executable h cwd c in
      if \<not> prop_true c ''symbolFiles'' then
        (case prop_get c ''executable'' of
           JStr exe \<Rightarrow> (let exe = full_path h cwd exe in
             Some (validate_load_files h cwd (prop_set ''executable'' (JStr exe) c), elf_errors h exe))
         | _ \<Rightarrow> None)
      else if as_arr (prop_get c ''symbolFiles'') = [] then
        Some (validate_load_files h cwd c, [''No '' @ [DQ] @ ''executable'' @ [DQ] @ '' or '' @ [DQ] @ ''symbolFiles'' @ [DQ] @ '' specified. We will try to run program without symbols''])
      else map_option (\<lambda>(ss, es). (validate_load_files h cwd (prop_set ''symbolFiles'' (JArr (map JObj ss)) c), es))
             (validate_symbol_files h cwd (map symbol_file (as_arr (prop_get c ''symbolFiles'')))))"

text \<open>The entry for another host: \<open>true\<close> means the automatic one, which needs an editor that is remote.\<close>

definition host_config_of :: "config_host \<Rightarrow> obj \<Rightarrow> obj" where
  "host_config_of h c =
     (let c = (case prop_get c ''hostConfig'' of
           JBool False \<Rightarrow> prop_set ''hostConfig'' JUndefined c
         | JBool True \<Rightarrow> prop_set ''hostConfig'' (JObj [(''enabled'', JBool True), (''type'', JStr ''auto'')]) c
         | _ \<Rightarrow> c);
          hc = as_obj (prop_get c ''hostConfig'')
      in if prop_true hc ''enabled'' \<and> prop_get hc ''type'' = JStr ''auto'' \<and> falsy (ch_remote h) then prop_set ''hostConfig'' JUndefined c else c)"

text \<open>What \<open>handleHostConfig\<close> does: it fails, takes the entry away, or leaves it filled in.\<close>

datatype host_handled = HostFails | HostDeletes | HostKeeps jval

definition host_resolved :: "host_handled \<Rightarrow> obj \<Rightarrow> obj option" where
  "host_resolved r c =
     (if prop_true (as_obj (prop_get c ''hostConfig'')) ''pvtResolved'' then Some c
      else (case r of
          HostFails \<Rightarrow> None
        | HostDeletes \<Rightarrow> Some (prop_del ''hostConfig'' c)
        | HostKeeps v \<Rightarrow> Some (if prop_true c ''hostConfig'' then prop_set ''hostConfig'' (JObj (prop_set ''pvtResolved'' (JBool True) (as_obj v))) c else c)))"

text \<open>The working directory; \<open>ws_dir\<close> is the directory of the workspace file, if there is one.\<close>

definition working_dir :: "config_host \<Rightarrow> jstr option \<Rightarrow> jstr option \<Rightarrow> obj \<Rightarrow> jstr" where
  "working_dir h folder ws_dir c =
     (let cwd = (if prop_true c ''cwd'' then js_text (prop_get c ''cwd'')
          else if folder \<noteq> None \<and> folder \<noteq> Some [] then the folder
          else (case ws_dir of Some d \<Rightarrow> d | None \<Rightarrow> ''.''))
      in if ch_absolute h cwd then cwd
         else if folder \<noteq> None \<and> folder \<noteq> Some [] then ch_join h (the folder) cwd else ch_resolve h cwd)"

definition live_watch_notice :: "obj \<Rightarrow> jstr list" where
  "live_watch_notice c = (if prop_true (as_obj (prop_get c ''liveWatch'')) ''enabled'' \<and> prop_get c ''servertype'' \<notin> {JStr ''openocd'', JStr ''jlink'', JStr ''stlink''}
     then [''Live watch is not officially supported for servertype '' @ [CHR 0x27] @ js_text (prop_get c ''servertype'') @ [CHR 0x27]] else [])"

text \<open>\<open>resolveDebugConfigurationWithSubstitutedVariables\<close>; of the notice about live watch the first part is kept.\<close>

definition resolve_substituted :: "config_host \<Rightarrow> host_handled \<Rightarrow> jstr option \<Rightarrow> jstr option \<Rightarrow> obj \<Rightarrow> resolution \<times> jstr list" where
  "resolve_substituted h handled folder ws_dir config = (case host_resolved handled (host_config_of h config) of
     None \<Rightarrow> (Refused, [])
   | Some c \<Rightarrow>
       (let cwd = working_dir h folder ws_dir c; c = prop_set ''cwd'' (JStr cwd) c;
            ws = (if cwd = [] \<or> \<not> ch_exists h cwd then [''Invalid '' @ [DQ] @ ''cwd'' @ [DQ] @ '': '' @ [DQ] @ cwd @ [DQ] @ ''. Many operations can fail. Trying to continue''] else [])
        in (case validate_files h cwd c of
            None \<Rightarrow> (Raised, ws)
          | Some (c, es) \<Rightarrow>
              (case (if prop_get c ''servertype'' = JStr ''jlink'' then verify_jlink_after h c else (c, [], [])) of (c, ws2, err) \<Rightarrow>
                 if err \<noteq> [] then (Refused, ws @ es @ live_watch_notice c @ ws2 @ [err]) else (Accepted c, ws @ es @ live_watch_notice c @ ws2)))))"

subsection \<open>What an accepted configuration has\<close>

definition launch_ok :: "obj \<Rightarrow> bool" where
  "launch_ok l = (\<not> nullish (prop_get l ''enabled'') \<and> prop_get l ''delayMs'' \<noteq> JUndefined \<and> \<not> nullish (prop_get l ''detached'') \<and>
     prop_get l ''waitOnEvent'' \<in> chained_events \<and> \<not> nullish (prop_get l ''lifecycleManagedByParent''))"

definition chained_ok :: "obj \<Rightarrow> bool" where
  "chained_ok c = (let ch = as_obj (prop_get c ''chainedConfigurations''); ls = as_arr (prop_get ch ''launches'') in
     \<not> prop_true ch ''enabled'' \<or> ls \<noteq> [] \<and> list_all (launch_ok \<circ> as_obj) ls)"

definition default_lists :: "jstr list" where
  "default_lists = [''debuggerArgs'', ''preLaunchCommands'', ''postLaunchCommands'', ''preAttachCommands'', ''postAttachCommands'', ''preResetCommands'',
     ''postResetCommands'', ''graphConfig'']"

text \<open>The decoders of RTT are on one channel.\<close>

definition one_channel :: "obj list \<Rightarrow> bool" where
  "one_channel ds = (\<exists>p. \<forall>d \<in> set ds. prop_get d ''port'' = p)"

definition rtt_of :: "obj \<Rightarrow> obj list" where
  "rtt_of c = (let r = as_obj (prop_get c ''rttConfig'') in if prop_true r ''enabled'' then map as_obj (as_arr (prop_get r ''decoders'')) else [])"

text \<open>The channel of a decoder of J-Link is given, and when it is a number it is one of the sixteen there are.\<close>

definition channel_ok :: "obj \<Rightarrow> bool" where
  "channel_ok d = (case prop_get d ''port'' of JUndefined \<Rightarrow> False | JInt i \<Rightarrow> 0 \<le> i \<and> i \<le> 15 | _ \<Rightarrow> True)"

text \<open>Where the trace of SWO comes from, when it is on.\<close>

definition swo_from :: "obj \<Rightarrow> jval option" where
  "swo_from c = (if prop_true (swo_of c) ''enabled'' then Some (prop_get (swo_of c) ''source'') else None)"

definition swo_placed :: "obj \<Rightarrow> bool" where
  "swo_placed c = (case swo_from c of None \<Rightarrow> True | Some v \<Rightarrow> prop_true (swo_of c) (if v = JStr ''socket'' then ''swoPort'' else ''swoPath''))"

text \<open>
  What the server of each kind needs, and what it cannot do: J-Link has no SWO of the probe over JTAG and sixteen channels of RTT, of which
  one is used; OpenOCD knows certain operating systems, most others none; the PE server has SWO only by a socket; for an external
  server the place the trace comes from is given; QEMU has no SWO.
\<close>

definition no_rtos :: "obj \<Rightarrow> bool" where
  "no_rtos c = (\<not> prop_true c ''rtos'')"

definition rtos_known :: "obj \<Rightarrow> bool" where
  "rtos_known c = (prop_true c ''rtos'' \<longrightarrow> prop_get c ''rtos'' \<in> set (map JStr openocd_valid_rtos))"

definition server_ok :: "config_host \<Rightarrow> obj \<Rightarrow> bool" where
  "server_ok h c = (case prop_get c ''servertype'' of
     JStr t \<Rightarrow> controller_of t \<noteq> None \<and>
       (case the (controller_of t) of
          JLink \<Rightarrow> prop_true c ''device'' \<and> one_channel (rtt_of c) \<and> list_all channel_ok (rtt_of c) \<and>
            \<not> (prop_get c ''interface'' \<in> {JStr ''jtag'', JStr ''cjtag''} \<and> swo_from c = Some (JStr ''probe''))
        | OpenOcd \<Rightarrow> (ch_chained h (prop_get c ''name'') \<noteq> None \<or> as_arr (prop_get c ''configFiles'') \<noteq> []) \<and> rtos_known c
        | Pe \<Rightarrow> prop_true c ''device'' \<and> length (as_arr (prop_get c ''configFiles'')) \<le> 1 \<and> swo_from c \<in> {None, Some (JStr ''socket'')}
        | Bmp \<Rightarrow> prop_true c ''BMPGDBSerialPort'' \<and> prop_true c ''targetId'' \<and> no_rtos c
        | External \<Rightarrow> prop_true c ''gdbTarget'' \<and> swo_placed c
        | Qemu \<Rightarrow> prop_true c ''cpu'' \<and> prop_true c ''machine'' \<and> swo_from c = None \<and> no_rtos c
        | StUtil \<Rightarrow> no_rtos c \<and> swo_from c \<noteq> Some (JStr ''probe'')
        | _ \<Rightarrow> no_rtos c)
   | _ \<Rightarrow> False)"

definition complete :: "config_host \<Rightarrow> obj \<Rightarrow> bool" where
  "complete h c = (list_all (prop_true c) (''toolchainPrefix'' # ''swoConfig'' # ''rttConfig'' # default_lists) \<and> chained_ok c \<and> server_ok h c)"

subsection \<open>Launches are normalised\<close>

lemma nullish_simps [simp]: "nullish JUndefined" "nullish JNull" "\<not> nullish (JBool b)" "\<not> nullish (JInt i)" "\<not> nullish (JStr s)" "\<not> nullish (JArr vs)" "\<not> nullish (JObj fs)"
  by (simp_all add: nullish_def)

lemma chained_defaults_get:
  "\<not> nullish (prop_get (chained_defaults t c) ''detached'')" "\<not> nullish (prop_get (chained_defaults t c) ''lifecycleManagedByParent'')"
  "prop_get (chained_defaults t c) ''waitOnEvent'' \<in> chained_events" "prop_get (chained_defaults t c) ''delayMs'' \<noteq> JUndefined"
  by (auto simp: chained_defaults_def objects chained_events_def prop_true_def)

lemma chained_defaults_other:
  "k \<notin> {''detached'', ''lifecycleManagedByParent'', ''waitOnEvent'', ''delayMs''} \<Longrightarrow> prop_get (chained_defaults t c) k = prop_get c k"
  by (simp add: chained_defaults_def objects)

lemma launch_defaults_ok:
  assumes "\<not> nullish (prop_get ch ''detached'')" "\<not> nullish (prop_get ch ''lifecycleManagedByParent'')" "prop_get ch ''waitOnEvent'' \<in> chained_events" "prop_get ch ''delayMs'' \<noteq> JUndefined"
  shows "launch_ok (launch_defaults ch l)"
  using assms by (simp add: launch_ok_def launch_defaults_def Let_def objects)

lemma link_overrides_ok: "launch_ok (link_overrides shared l b) = launch_ok l"
  by (simp add: link_overrides_def launch_ok_def objects)

lemma length_merge_overrides: "length (snd (merge_overrides shared ls)) = length ls"
  by (induction shared ls rule: merge_overrides.induct) (simp_all add: Let_def case_prod_beta)

lemma sanitize_launches_ok:
  assumes "\<And>l. launch_ok (launch_defaults ch l)"
  shows "list_all launch_ok (fst (sanitize_launches ch ls)) \<and> length (fst (sanitize_launches ch ls)) = length ls"
proof -
  obtain shared bs where m: "merge_overrides (as_obj (prop_get ch ''overrides'')) (map (launch_defaults ch) ls) = (shared, bs)" by fastforce
  have "length bs = length ls" using length_merge_overrides[of "as_obj (prop_get ch ''overrides'')" "map (launch_defaults ch) ls"] m by simp
  then show ?thesis using assms by (auto simp: sanitize_launches_def m list_all_iff link_overrides_ok dest!: set_zip_leftD)
qed

lemma sanitize_parent_ok: "chained_ok (sanitize_parent c)"
proof -
  let ?ch = "as_obj (prop_get c ''chainedConfigurations'')"
  let ?d = "chained_defaults (prop_get c ''servertype'') ?ch"
  obtain ls shared where m: "sanitize_launches ?d (map as_obj (as_arr (prop_get ?ch ''launches''))) = (ls, shared)" by fastforce
  have "list_all launch_ok ls" "length ls = length (as_arr (prop_get ?ch ''launches''))"
    using sanitize_launches_ok[of ?d "map as_obj (as_arr (prop_get ?ch ''launches''))"] launch_defaults_ok chained_defaults_get m by simp_all
  then show ?thesis
    by (cases "prop_true ?ch ''enabled'' \<and> as_arr (prop_get ?ch ''launches'') \<noteq> []")
      (auto simp: sanitize_parent_def Let_def m chained_ok_def objects comp_def list.pred_map)
qed

lemma sanitize_parent_get: "k \<noteq> ''chainedConfigurations'' \<Longrightarrow> prop_get (sanitize_parent c) k = prop_get c k"
  by (simp add: sanitize_parent_def Let_def objects split: prod.split)

subsection \<open>The checks let through what a server needs\<close>

lemma os_setting_get [objects]: "k \<noteq> d \<Longrightarrow> prop_get (os_setting h d n c) k = prop_get c k"
  by (simp add: os_setting_def objects split: option.split)

lemma os_setting_true [objects]: "k \<noteq> d \<Longrightarrow> prop_true (os_setting h d n c) k = prop_true c k"
  by (simp add: prop_true_def objects)

lemma take_from_get [objects]: "k \<noteq> b \<Longrightarrow> prop_get (take_from a b c) k = prop_get c k"
  by (simp add: take_from_def objects)

lemma take_from_true [objects]: "k \<noteq> b \<Longrightarrow> prop_true (take_from a b c) k = prop_true c k"
  by (simp add: prop_true_def objects)

lemma true_set_if_falsy [objects]: "prop_true (set_if_falsy k v c) k' = (if k' = k then prop_true c k \<or> \<not> falsy v else prop_true c k')"
  by (simp add: prop_true_def objects)

lemma true_set_if_undefined [objects]:
  "prop_true (set_if_undefined k v c) k' = (if k' = k \<and> prop_get c k = JUndefined then \<not> falsy v else prop_true c k')"
  by (simp add: prop_true_def objects)

lemma swo_off_get [objects]:
  "prop_get (swo_off c) k = (if k = ''graphConfig'' then JArr [] else if k = ''swoConfig'' then
     JObj [(''enabled'', JBool False), (''decoders'', JArr []), (''cpuFrequency'', JInt 0), (''swoFrequency'', JInt 0)] else prop_get c k)"
  by (simp add: swo_off_def objects)

lemma swo_off_true [objects]: "prop_true (swo_off c) k = (k = ''graphConfig'' \<or> k = ''swoConfig'' \<or> prop_true c k)"
  by (simp add: prop_true_def objects)

lemma swo_off_disabled [simp]: "\<not> prop_true (swo_of (swo_off c)) ''enabled''"
  by (simp add: objects)

lemma jlink_decoders_channel:
  "jlink_decoders chosen ds = (ds', []) \<Longrightarrow>
    (\<exists>p. (chosen = None \<or> chosen = Some p) \<and> (\<forall>d \<in> set ds'. prop_get d ''port'' = p)) \<and> list_all channel_ok ds'"
proof (induction ds arbitrary: chosen ds')
  case (Cons d ds)
  define d' where "d' = (if prop_get d ''port'' = JUndefined then prop_set ''port'' (JInt 0) d else d)"
  obtain ds2 where r: "jlink_decoders (Some (prop_get d' ''port'')) ds = (ds2, [])" "ds' = d' # ds2" "chosen = None \<or> chosen = Some (prop_get d' ''port'')"
    and ok: "prop_get d ''port'' = JUndefined \<or> \<not> (\<exists>i \<in> set (case prop_get d ''port'' of JInt i \<Rightarrow> [i] | _ \<Rightarrow> []). i < 0 \<or> i > 15)"
    using Cons.prems by (auto simp: Let_def d'_def[symmetric] split: if_splits prod.splits)
  have "channel_ok d'" using ok by (cases "prop_get d ''port''") (auto simp: channel_ok_def d'_def objects)
  with Cons.IH[OF r(1)] show ?case using r(2,3) by auto
qed auto

lemma objects_if [objects]:
  "prop_get (if b then x else y) k = (if b then prop_get x k else prop_get y k)"
  "prop_true (if b then x else y) k = (if b then prop_true x k else prop_true y k)"
  by simp_all

lemma fst_if: "fst (if b then x else y) = (if b then fst x else fst y)"
  by simp

lemma falsy_get: "falsy (prop_get c k) = (\<not> prop_true c k)"
  by (simp add: prop_true_def)

lemma jlink_decoders_none: "jlink_decoders None ds = (ds', []) \<Longrightarrow> one_channel ds' \<and> list_all channel_ok ds'"
  using jlink_decoders_channel[of None ds ds'] by (auto simp: one_channel_def)

lemma one_channel_nil [simp]: "one_channel []"
  by (simp add: one_channel_def)

lemma swo_from_off [simp]: "swo_from (swo_off c) = None"
  by (simp add: swo_from_def)

lemma swo_from_some: "(swo_from c = Some v) = (prop_true (swo_of c) ''enabled'' \<and> prop_get (swo_of c) ''source'' = v)"
  by (simp add: swo_from_def)

lemma verify_jlink_ok:
  assumes "verify_jlink h c = (c', ws, [])"
  shows "prop_true c' ''device'' \<and> one_channel (rtt_of c') \<and> list_all channel_ok (rtt_of c') \<and>
    \<not> (prop_get c' ''interface'' \<in> {JStr ''jtag'', JStr ''cjtag''} \<and> swo_from c' = Some (JStr ''probe''))"
  using assms unfolding swo_from_some
  by (auto simp: verify_jlink_def Let_def objects rtt_of_def comp_def dest: jlink_decoders_none split: if_splits prod.splits)

lemma verify_openocd_ok:
  "verify_openocd h c = (c', ws, []) \<Longrightarrow> (ch_chained h (prop_get c' ''name'') \<noteq> None \<or> as_arr (prop_get c' ''configFiles'') \<noteq> []) \<and> rtos_known c'"
  by (auto simp: verify_openocd_def Let_def objects rtos_known_def split: if_splits)

lemma verify_pe_ok:
  "verify_pe h c = (c', ws, []) \<Longrightarrow> prop_true c' ''device'' \<and> length (as_arr (prop_get c' ''configFiles'')) \<le> 1 \<and> swo_from c' \<in> {None, Some (JStr ''socket'')}"
  by (auto simp: verify_pe_def Let_def objects swo_from_def split: if_splits)

lemma verify_bmp_ok:
  "verify_bmp c = (c', ws, []) \<Longrightarrow> prop_true c' ''BMPGDBSerialPort'' \<and> prop_true c' ''targetId'' \<and> no_rtos c'"
  by (auto simp: verify_bmp_def Let_def objects no_rtos_def split: if_splits)

lemma verify_external_ok:
  "verify_external c = (c', ws, []) \<Longrightarrow> prop_true c' ''gdbTarget'' \<and> swo_placed c'"
  by (auto simp: verify_external_def Let_def objects swo_placed_def swo_from_def split: if_splits)

lemma verify_qemu_ok:
  "verify_qemu h c = (c', ws, []) \<Longrightarrow> prop_true c' ''cpu'' \<and> prop_true c' ''machine'' \<and> swo_from c' = None \<and> no_rtos c'"
  by (auto simp: verify_qemu_def Let_def objects swo_from_def no_rtos_def split: if_splits)

lemma verify_stutil_ok:
  "verify_stutil h c = (c', ws, []) \<Longrightarrow> no_rtos c' \<and> swo_from c' \<noteq> Some (JStr ''probe'')"
  by (auto simp: verify_stutil_def Let_def objects swo_from_def no_rtos_def split: if_splits)

lemma verify_no_rtos:
  "verify_stlink h c = (c', ws, []) \<Longrightarrow> no_rtos c'"
  "verify_probe_rs h c = (c', ws, []) \<Longrightarrow> no_rtos c'"
  "verify_pyocd h c = (c', ws, []) \<Longrightarrow> no_rtos c'"
  by (auto simp: verify_stlink_def verify_probe_rs_def verify_pyocd_def Let_def objects no_rtos_def split: if_splits)

definition verify_touches :: "jstr list" where
  "verify_touches = [''serverpath'', ''interface'', ''rttConfig'', ''swoConfig'', ''graphConfig'', ''cpu'', ''machine'', ''searchDir'', ''boardId'', ''targetId'',
     ''powerOverBMP'', ''stm32cubeprogrammer'']"

lemmas verify_defs = verify_jlink_def verify_openocd_def verify_stutil_def verify_stlink_def verify_probe_rs_def verify_pyocd_def verify_bmp_def verify_pe_def
  verify_external_def verify_qemu_def

lemma verify_frames:
  assumes "k \<notin> set verify_touches"
  shows "prop_get (fst (verify_jlink h c)) k = prop_get c k"
    "prop_get (fst (verify_openocd h c)) k = prop_get c k"
    "prop_get (fst (verify_stutil h c)) k = prop_get c k"
    "prop_get (fst (verify_stlink h c)) k = prop_get c k"
    "prop_get (fst (verify_probe_rs h c)) k = prop_get c k"
    "prop_get (fst (verify_pyocd h c)) k = prop_get c k"
    "prop_get (fst (verify_bmp c)) k = prop_get c k"
    "prop_get (fst (verify_pe h c)) k = prop_get c k"
    "prop_get (fst (verify_external c)) k = prop_get c k"
    "prop_get (fst (verify_qemu h c)) k = prop_get c k"
  using assms by (simp_all add: verify_touches_def verify_defs Let_def objects fst_if split: prod.split split del: if_split cong: if_cong)

lemma verify_frame: "k \<notin> set verify_touches \<Longrightarrow> prop_get (fst (verify_server h t c)) k = prop_get c k"
  by (simp add: verify_server_def verify_frames fst_if objects split del: if_split cong: if_cong)

lemma verify_keeps_true:
  "prop_true c ''swoConfig'' \<Longrightarrow> prop_true (fst (verify_server h t c)) ''swoConfig''"
  "prop_true c ''rttConfig'' \<Longrightarrow> prop_true (fst (verify_server h t c)) ''rttConfig''"
  "prop_true c ''graphConfig'' \<Longrightarrow> prop_true (fst (verify_server h t c)) ''graphConfig''"
  by (simp_all add: verify_server_def verify_defs Let_def objects fst_if case_prod_beta split del: if_split cong: if_cong)

lemma controller_names:
  "map controller_of [''jlink'', ''openocd'', ''stutil'', ''stlink'', ''pyocd'', ''pe'', ''bmp'', ''qemu'', ''probe-rs'', ''external''] =
     map Some [JLink, OpenOcd, StUtil, StLink, PyOcd, Pe, Bmp, Qemu, ProbeRs, External]"
  by code_simp

lemma verify_ok:
  assumes v: "verify_server h (prop_get c ''servertype'') c = (c', ws, [])"
  shows "server_ok h c'"
proof -
  have t: "prop_get c' ''servertype'' = prop_get c ''servertype''" using verify_frame[of "''servertype''" h "prop_get c ''servertype''" c] v by (simp add: verify_touches_def)
  note ok = verify_jlink_ok verify_openocd_ok verify_pe_ok verify_bmp_ok verify_external_ok verify_qemu_ok verify_stutil_ok verify_no_rtos
  show ?thesis using v controller_names unfolding verify_server_def server_ok_def t
    by (auto dest!: ok split: if_splits)
qed

subsection \<open>An accepted configuration is complete\<close>

lemma tools_get:
  "k \<notin> {''toolchainPath'', ''armToolchainPath'', ''toolchainPrefix'', ''gdbPath'', ''objdumpPath'', ''extensionPath'', ''registerUseNaturalFormat'', ''variableUseNaturalFormat''} \<Longrightarrow>
     prop_get (view_settings h (tool_defaults h c)) k = prop_get c k"
  by (simp add: view_settings_def tool_defaults_def Let_def objects)

lemma toolchain_prefix: "prop_true (view_settings h (tool_defaults h c)) ''toolchainPrefix''"
  by (simp add: view_settings_def tool_defaults_def Let_def objects)

lemma server_ok_cong:
  "(\<And>k. k \<in> {''servertype'', ''device'', ''interface'', ''rttConfig'', ''name'', ''configFiles'', ''BMPGDBSerialPort'', ''targetId'', ''rtos'', ''gdbTarget'', ''cpu'', ''machine'', ''swoConfig''} \<Longrightarrow>
     prop_get c' k = prop_get c k) \<Longrightarrow> server_ok h c' = server_ok h c"
  by (simp add: server_ok_def prop_true_def rtt_of_def swo_from_def swo_placed_def rtos_known_def no_rtos_def split: jval.split server.split)

lemma server_ok_tools: "server_ok h (view_settings h (tool_defaults h c)) = server_ok h c"
  by (rule server_ok_cong) (auto simp: tools_get)

lemma chained_ok_cong: "prop_get c' ''chainedConfigurations'' = prop_get c ''chainedConfigurations'' \<Longrightarrow> chained_ok c' = chained_ok c"
  by (simp add: chained_ok_def)

lemma sanitize_chained_ok: "chained_ok (fst (sanitize_chained me c))"
  by (simp add: sanitize_chained_def sanitize_parent_ok split: option.split prod.split)

lemma swo_defaults_get: "k \<noteq> ''swoConfig'' \<Longrightarrow> prop_get (fst (swo_defaults c)) k = prop_get c k"
  by (simp add: swo_defaults_def objects split: prod.split)

lemma swo_defaults_true: "prop_true (fst (swo_defaults c)) ''swoConfig''"
  by (simp add: swo_defaults_def objects split: prod.split)

lemma rtt_defaults_get: "k \<noteq> ''rttConfig'' \<Longrightarrow> prop_get (rtt_defaults c) k = prop_get c k"
  by (simp add: rtt_defaults_def Let_def objects split: jval.split)

lemma rtt_defaults_true: "prop_true (rtt_defaults c) ''rttConfig''"
  by (simp add: rtt_defaults_def Let_def objects prop_true_def split: jval.split)

lemma command_defaults_get:
  "k \<notin> {''preLaunchCommands'', ''postLaunchCommands'', ''preAttachCommands'', ''postAttachCommands'', ''preResetCommands'', ''postResetCommands'', ''graphConfig'',
     ''overridePreEndSessionCommands'', ''postResetSessionCommands''} \<Longrightarrow> prop_get (command_defaults c) k = prop_get c k"
  by (simp add: command_defaults_def Let_def objects)

lemma command_defaults_true:
  "list_all (prop_true (command_defaults c)) [''preLaunchCommands'', ''postLaunchCommands'', ''preAttachCommands'', ''postAttachCommands'', ''preResetCommands'', ''postResetCommands'', ''graphConfig'']"
  by (simp add: command_defaults_def Let_def objects falsy_get if_distrib[of falsy] split del: if_split cong: if_cong)

lemma entry_defaults_get: "k \<noteq> ''runToEntryPoint'' \<Longrightarrow> prop_get (fst (entry_defaults c)) k = prop_get c k"
  by (simp add: entry_defaults_def objects)

lemma prop_true_cong: "prop_get c' k = prop_get c k \<Longrightarrow> prop_true c' k = prop_true c k"
  by (simp add: prop_true_def)

lemma resolve_checked_complete:
  assumes r: "resolve_checked h port c = (Accepted c', ms)"
  shows "complete h c'"
proof -
  define c1 where "c1 = flatten_platform h (prop_set ''pvtAvoidPorts'' (JArr (map (JInt \<circ> int) (ch_used_ports h))) (prop_set ''pvtGdbServerConsolePort'' (JInt (int port)) c))"
  define c2 where "c2 = fst (sanitize_chained (ch_chained h (prop_get c1 ''name'')) c1)"
  define c3 where "c3 = debugger_defaults c2"
  define c4 where "c4 = fst (swo_defaults c3)"
  define c5 where "c5 = fst (entry_defaults (command_defaults (rtt_defaults c4)))"
  obtain c6 ws where v: "verify_server h (prop_get c3 ''servertype'') c5 = (c6, ws, [])" and c': "c' = view_settings h (tool_defaults h c6)"
    using r by (auto simp: resolve_checked_def Let_def c1_def c2_def c3_def c4_def c5_def split: prod.splits if_splits)
  have t: "prop_get c5 ''servertype'' = prop_get c3 ''servertype''"
    by (simp add: c5_def c4_def entry_defaults_get command_defaults_get rtt_defaults_get swo_defaults_get)
  have server: "server_ok h c'" using verify_ok[of h c5 c6 ws] v t by (simp add: c' server_ok_tools)
  have c6: "c6 = fst (verify_server h (prop_get c3 ''servertype'') c5)" by (simp add: v)
  have "prop_get c' ''chainedConfigurations'' = prop_get c2 ''chainedConfigurations''"
    by (simp add: c' c6 tools_get verify_frame verify_touches_def c5_def c4_def entry_defaults_get command_defaults_get rtt_defaults_get swo_defaults_get c3_def debugger_defaults_def objects)
  then have chained: "chained_ok c'" using chained_ok_cong sanitize_chained_ok unfolding c2_def by blast
  have swo: "prop_true c5 ''swoConfig''"
    using swo_defaults_true[of c3] by (simp add: prop_true_def c5_def c4_def entry_defaults_get command_defaults_get rtt_defaults_get)
  have rtt: "prop_true c5 ''rttConfig''"
    using rtt_defaults_true[of c4] by (simp add: prop_true_def c5_def entry_defaults_get command_defaults_get)
  have lists: "list_all (prop_true c5) [''preLaunchCommands'', ''postLaunchCommands'', ''preAttachCommands'', ''postAttachCommands'', ''preResetCommands'', ''postResetCommands'', ''graphConfig'']"
    using command_defaults_true[of "rtt_defaults c4"] by (simp add: prop_true_def c5_def entry_defaults_get)
  have args: "prop_true c5 ''debuggerArgs''"
    by (simp add: prop_true_def c5_def entry_defaults_get command_defaults_get rtt_defaults_get c4_def swo_defaults_get c3_def debugger_defaults_def objects)
  have keep: "prop_true c' k = prop_true c6 k" if "k \<in> set (''swoConfig'' # ''rttConfig'' # default_lists)" for k
    using that by (intro prop_true_cong) (auto simp: c' tools_get default_lists_def)
  have frame: "prop_true c6 k = prop_true c5 k" if "k \<notin> set verify_touches" for k
    using verify_frame[OF that] by (simp add: prop_true_def c6)
  have "prop_true c6 k" if "k \<in> set (''swoConfig'' # ''rttConfig'' # default_lists)" for k
    using that swo rtt lists args verify_keeps_true[of c5 h "prop_get c3 ''servertype''"] frame[of k] by (auto simp: c6[symmetric] default_lists_def verify_touches_def)
  then show ?thesis using keep server chained toolchain_prefix[of h c6] by (simp add: complete_def list_all_iff c')
qed

subsection \<open>Properties\<close>

text \<open>
  C39: What a child session runs with: a reserved property is its own. Any other is what the launch in the parent's
  configuration overrides it with, where null takes it away; else the parent's, if the launch inherits it and the parent
  has it; else its own.
\<close>

theorem chained_property_value:
  assumes "distinct (map fst (as_obj (prop_get launch ''overrides'')))" "k \<notin> {''pvtParent'', ''pvtMyConfigFromParent''}"
  shows "prop_get (fst (chained_child parent launch config)) k =
    (if reserved k then prop_get config k
     else case map_of (as_obj (prop_get launch ''overrides'')) k of
       Some v \<Rightarrow> if v = JNull then JUndefined else v
     | None \<Rightarrow> if k \<in> set (map as_text (as_arr (prop_get launch ''inherits''))) \<and> k \<noteq> ''chainedConfigurations'' \<and> prop_get parent k \<noteq> JUndefined
         then prop_get parent k else prop_get config k)"
  using assms by (simp add: chained_child_def Let_def case_prod_beta handle_overrides_get handle_inherits_get objects del: set_map split: option.split)

definition board_launch :: obj where
  "board_launch = [(''inherits'', JArr [JStr ''device'', JStr ''svdFile'']), (''overrides'', JObj [(''device'', JStr ''B''), (''name'', JStr ''x'')])]"

lemma chained_property_value_witness:
  "map (prop_get (fst (chained_child [(''device'', JStr ''A''), (''svdFile'', JStr ''a.svd'')] board_launch [(''name'', JStr ''Core 2'')]))) [''device'', ''svdFile'', ''name''] =
     [JStr ''B'', JStr ''a.svd'', JStr ''Core 2'']"
proof -
  note v = chained_property_value[of board_launch _ "[(''device'', JStr ''A''), (''svdFile'', JStr ''a.svd'')]" "[(''name'', JStr ''Core 2'')]"]
  show ?thesis using v[of "''device''"] v[of "''svdFile''"] v[of "''name''"] by (simp add: board_launch_def reserved_def starts_with_def)
qed

text \<open>
  C38: A configuration that is accepted before the substitution of variables is complete. Its server is of a known kind and has what that kind
  needs: a device for J-Link and PE, a configuration file for OpenOCD (unless it is a child's) and at most one for PE, the serial port
  and the target for BMP, the target for an external server, a processor and a machine for QEMU (by default \<open>mcu-m3\<close>, where the
  documents say \<open>cortex-m3\<close>). And it asks for nothing the checks of that kind exclude: no SWO of the J-Link probe over JTAG, one
  RTT channel from 0 to 15 for J-Link, SWO by a socket only for PE, not from the probe for st-util, not at all for QEMU, and with its port or
  path for an external server; an RTOS of the list for OpenOCD and none for the servers without support (the RTOS of J-Link is checked
  after the substitution, that of PE and of an external server not at all). Traces, command lists and the toolchain have their defaults, and
  every launch of a child says when and how it is started.
\<close>

theorem accepted_configuration_complete:
  assumes "resolve_configuration h console subst config = (Accepted c, ms)"
  shows "complete h c"
  using assms resolve_checked_complete by (auto simp: resolve_configuration_def split: sum.splits if_splits prod.splits)

definition plain_host :: config_host where
  "plain_host = \<lparr>ch_setting = (\<lambda>_ _. JUndefined), ch_platform = ''linux'', ch_chained = (\<lambda>_. None), ch_used_ports = [2], ch_toolchain = JUndefined,
     ch_extension_path = ''/ext'', ch_remote = JUndefined, ch_absolute = starts_with ''/'', ch_join = (\<lambda>a b. a @ ''/'' @ b), ch_normalize = (\<lambda>p. p),
     ch_resolve = (\<lambda>p. ''/'' @ p), ch_extname = (\<lambda>_. []), ch_exists = (\<lambda>_. True), ch_head = (\<lambda>_. Inr [])\<rparr>"

definition board_config :: obj where
  "board_config = [(''servertype'', JStr ''jlink''), (''device'', JStr ''F4''), (''rttConfig'', JObj [(''enabled'', JBool True), (''decoders'', JArr [JObj [(''port'', JInt 0)], JObj []])]),
     (''chainedConfigurations'', JObj [(''enabled'', JBool True), (''launches'', JArr [JObj []])])]"

definition accepted :: "resolution \<times> jstr list \<Rightarrow> obj option" where
  "accepted r = (case fst r of Accepted c \<Rightarrow> Some c | _ \<Rightarrow> None)"

lemma accepted_configuration_complete_witness:
  "complete plain_host (the (accepted (resolve_configuration plain_host (Inr 1) (\<lambda>c. (c, [])) board_config)))"
proof -
  have "accepted (resolve_configuration plain_host (Inr 1) (\<lambda>c. (c, [])) board_config) \<noteq> None" by code_simp
  then obtain c ms where "resolve_configuration plain_host (Inr 1) (\<lambda>c. (c, [])) board_config = (Accepted c, ms)"
    by (cases "resolve_configuration plain_host (Inr 1) (\<lambda>c. (c, [])) board_config") (auto simp: accepted_def split: resolution.splits)
  then show ?thesis using accepted_configuration_complete[of plain_host "Inr 1" "\<lambda>c. (c, [])" board_config c ms] by (simp add: accepted_def)
qed

subsection \<open>Error paths\<close>

text \<open>All launches share one object of overrides.\<close>

lemma overrides_shared:
  "l \<in> set (fst (sanitize_launches ch ls)) \<Longrightarrow> prop_get l ''overrides'' \<in> {JUndefined, JObj (snd (sanitize_launches ch ls))}"
  by (auto simp: sanitize_launches_def link_overrides_def objects set_zip Let_def split: prod.splits)

lemma overrides_leak:
  "map (\<lambda>l. prop_get l ''overrides'') (fst (sanitize_launches [] [[(''overrides'', JObj [(''device'', JStr ''A'')])], [(''overrides'', JObj [(''device'', JStr ''B'')])], []])) =
     replicate 3 (JObj [(''device'', JStr ''B'')])"
  by code_simp

text \<open>Without an executable and without symbol files the path of the executable is undefined, and the function raises.\<close>

lemma no_executable_raises:
  "prop_get c ''executable'' = JUndefined \<Longrightarrow> \<not> prop_true c ''symbolFiles'' \<Longrightarrow> validate_files h cwd c = None"
  by (simp add: validate_files_def validate_executable_def Let_def prop_true_def)

lemma qemu_default_cpu: "\<not> prop_true c ''cpu'' \<Longrightarrow> prop_get (fst (verify_qemu h c)) ''cpu'' = JStr ''mcu-m3''"
  by (simp add: verify_qemu_def Let_def objects falsy_get fst_if)

lemma probe_rs_unlisted: "\<not> contains ''probe-rs'' (snd (snd (verify_server h JUndefined c)))"
  by (simp add: verify_server_def contains.simps starts_with_def)

end
