(* ===== verification/Spec2Isabelle.thy ===== *)
theory Spec2Isabelle
  imports Prelude RingBuffer Lines MiParser GdbInstance ProxyFrames ProxyClient ItmDecoder VarScopes SeqSession Handles SerialManager LiveWatch Breakpoints Notes Memory Rtt Ports Manual Sessions Variables Threads DebugSession LaunchOrder ServerStart Substitution ConfigProvider
begin

text \<open>
  A model of the core of MCU-Debug, a debugger for microcontrollers: a debug adapter that drives GDB
  over GDB/MI, with live watch, RTT, SWO and serial consoles, a proxy client for remote probes and a
  command line front end. The TypeScript sources are in \<open>packages/mcu-debug/src\<close> (\<open>adapter\<close>, \<open>common\<close>,
  \<open>cli\<close>, \<open>frontend\<close>) and \<open>packages/shared/src\<close>; paths below are relative to the first.

  \<^bold>\<open>How the parts work together.\<close> A DAP client sends requests to the debug session, which takes
  them one at a time from a queue (\<open>SeqSession\<close>). It turns them into GDB/MI commands: \<open>GdbInstance\<close> writes
  them with a token, cuts the output of GDB into lines (\<open>Lines\<close>), parses them (\<open>MiParser\<close>) and settles
  the promise of the command with that token. Breakpoints (\<open>Breakpoints\<close>), memory (\<open>Memory\<close>) and the RTT
  channels on top of it (\<open>Rtt\<close>) are clients of that interface; what they read from answers is in
  \<open>GdbCommands\<close>. The references DAP hands out are packed integers (\<open>VarScopes\<close>) and handles of registries
  (\<open>Handles\<close>). A second GDB serves the clients of the live watch (\<open>LiveWatch\<close>). Remote probes and serial
  ports are reached through a proxy: its byte frames are \<open>ProxyFrames\<close>, its commands and streams
  \<open>ProxyClient\<close>, the serial ports of all proxies \<open>SerialConn\<close> and \<open>SerialManager\<close>. Trace bytes are decoded by
  \<open>ItmDecoder\<close>, console bytes are kept for replay in \<open>RingBuffer\<close>, and the command line keeps notes in a
  workspace file (\<open>Notes\<close>). Over all of them stands the session itself (\<open>DebugSession\<close>): it launches, runs,
  stops, resets and ends, and asks the other parts, whose answers are its events; what it shows of the
  target comes from the threads and frames it read (\<open>Threads\<close>) and leads to \<open>Variables\<close>.
  Before it starts, the texts of its configuration have their variables replaced (\<open>Substitution\<close>), the configuration
  is completed and checked (\<open>ConfigProvider\<close>), and the server
  of the probe is started on free ports (\<open>ServerStart\<close>); the controller of that server (\<open>Controllers\<close>,
  \<open>ServerCommon\<close>) says which commands GDB is given to connect, launch, reset and trace.

  \<^bold>\<open>Conventions\<close> (\<open>Prelude\<close>). A string is a list of code units below 256; numbers are \<^typ>\<open>nat\<close> or
  \<^typ>\<open>int\<close> except for bytes, which are 8 bit words. A class is a record with explicit state passing, an
  asynchronous function is cut at its \<open>await\<close>s: a function up to the first one, continuations for
  the others, and a datatype of events that may interleave in any order. A promise is an identifier;
  settling it is an output. An exception is a value of a sum, option or outcome type. GDB, the proxy,
  the JSON patch library and other code that is not in the repository are parameters; what the code
  relies on is a named predicate with an instance for the examples: \<open>gdb_contract\<close>, what the commands for breakpoints do to
  the numbers of GDB's breakpoints, while anything may happen to the others between two commands (temporary ones are set and
  deleted when they are hit); \<open>varobj_contract\<close>, the documented answers of the commands for variable objects, errors included;
  \<open>gdb_memory\<close>; and \<open>host_network\<close>, a network on which a port the process or another one holds cannot be bound.
  The incremental decoders share the locales \<open>framer\<close> and \<open>step_framer\<close> (feeding chunks is feeding their
  concatenation), interpreted for the lines, the frames, the decoders and the sessions; \<open>replay_log\<close> and
  \<open>sync_window\<close> are the interfaces of the ring buffer to its users, \<open>handle_registry\<close> that of the two
  registries.

  \<^bold>\<open>Theories.\<close>
  \<^item> \<open>RingBuffer\<close> (\<open>common/ring-buffer.ts\<close>, \<open>BinaryRingBuffer\<close>): write, snapshot, clear, record-aligned replay;
    the buffer implements the log of the most recent bytes.
  \<^item> \<open>Lines\<close> (\<open>common/utils.ts\<close> \<open>LineBuffer\<close>, \<open>shared/src/line-splitter.ts\<close>, \<open>handleStdoutData\<close>): line assembly is
    independent of how the text is cut; the bound on held JSON.
  \<^item> \<open>MiParser\<close> (\<open>adapter/gdb-mi/mi-parser.ts\<close>, \<open>mi-types.ts\<close>): lexing, values, records, lines; totality of the
    parser and round trips with the printer GDB documents.
  \<^item> \<open>GdbInstance\<close> (\<open>adapter/gdb-mi/gdb-instance.ts\<close>): the command queue, tokens, answers, the end of the process
    and \<open>stop\<close>; accounting of every command promise over all runs.
  \<^item> \<open>GdbCommands\<close>, \<open>Breakpoints\<close> (\<open>adapter/breakpoints.ts\<close>): commands and tables of the four kinds of breakpoints;
    the tables refine the set GDB has, the target is stopped around every change. A change whose interrupt was refused waits
    for the next stop; that several of them then run at once is outside of the model (\<open>None\<close>).
  \<^item> \<open>Memory\<close> (\<open>adapter/memory.ts\<close>) and \<open>Rtt\<close> (\<open>adapter/rtt-builtin.ts\<close>): chunked reads with a callback, writes, and the
    circular buffers of RTT in target memory in both directions.
  \<^item> \<open>SeqSession\<close> (\<open>adapter/seq-debug-session.ts\<close>), \<open>VarScopes\<close> (\<open>adapter/var-scopes.ts\<close>), \<open>Handles\<close>
    (\<open>shared/src/handles.ts\<close>): the request queue, packed references, handle registries and the canonical text
    of a value.
  \<^item> \<open>LiveWatch\<close> (\<open>adapter/live-watch-monitor.ts\<close>): registration, batching and acknowledgement of updates.
  \<^item> \<open>ProxyFrames\<close>, \<open>ProxyClient\<close> (\<open>adapter/proxy-client.ts\<close>): frames with the asynchronous reassembly loop; control
    commands, streams and the loss of the connection.
  \<^item> \<open>SerialConn\<close>, \<open>SerialManager\<close> (\<open>common/serial-manager.ts\<close>): one connection with its port lists and funnel
    listeners; the registry of connections, views and reconnections.
  \<^item> \<open>ItmDecoder\<close> (\<open>common/swo/swo-core.ts\<close>, \<open>common.ts\<close>): the ITM byte decoder with its resynchronisation, RTT packets.
  \<^item> \<open>Variables\<close> (\<open>adapter/variables.ts\<close>, scopes of \<open>adapter/gdb-session.ts\<close>): containers, handles and names of variable
    objects, the requests that create, update, assign and delete them; what GDB has is what the containers know.
  \<^item> \<open>Threads\<close> (\<open>adapter/gdb-mi/mi-commands.ts\<close>): threads, frames, the frame of a stop, pages of the stack; positions
    and levels agree, and the handle of a frame leads to its scopes.
  \<^item> \<open>DebugSession\<close> (\<open>adapter/gdb-session.ts\<close>): every handler cut at its awaits, each of which is a task with the request
    it will answer. \<open>step_ok\<close> says what a step settles, with one lemma per operation; over runs it gives that every
    request is answered once, what the client believes of the target, and that an end always comes to its answer.
  \<^item> \<open>LaunchOrder\<close> (\<open>launchAttachInit\<close> in \<open>adapter/gdb-session.ts\<close>): the order of the commands of a launch on every run, by an
    invariant that says for each place a launch can be at which commands were sent and answered.
  \<^item> \<open>ServerCommon\<close> (\<open>adapter/servers/common.ts\<close>), \<open>Controllers\<close> (\<open>adapter/servers/*.ts\<close>): the commands, arguments, ports
    and SWO sources of ten kinds of servers, RTT ports, the command port of OpenOCD; the ports GDB, the decoders
    and the server are told agree.
  \<^item> \<open>ServerStart\<close> (\<open>adapter/server-session.ts\<close>): the choice of the controller and of the processor, the start of the
    server as a step relation, its readiness and its exit.
  \<^item> \<open>Substitution\<close> (\<open>adapter/servers/common.ts\<close>): variables in a configuration and environment files; resolution
    gives the value of every variable that leads into no cycle, or raises for a reference to an inherited name.
  \<^item> \<open>ConfigObjects\<close>, \<open>ConfigProvider\<close> (\<open>common/config-provider.ts\<close>): configurations as objects of the language; what
    a chained session gets from its parent, defaults, the checks of each server; an accepted one is complete and asks for nothing these checks exclude.
  \<^item> \<open>Notes\<close> (\<open>cli/notes.ts\<close>): coalesced and merged writes of the notes file.
  \<^item> \<open>Ports\<close> (\<open>shared/src/find-free-ports.ts\<close>): the scan for free ports and the locks that reserve them.
  \<^item> \<open>Manual\<close> (\<open>common/manual-session.ts\<close>): the actions a user is asked for, as a step relation.
  \<^item> \<open>Sessions\<close> (\<open>common/cli-session.ts\<close>): the tree of debug sessions, its broadcasts, the ports in use.

  \<^bold>\<open>Groups of lemmas.\<close> In each theory the operations come first, then the invariant with one lemma per
  operation, then the lemmas about runs, and at the end, under "Properties", the theorems with their
  examples. "Error paths" holds what modelling showed to go wrong; these lemmas are concrete runs or
  general statements about the failing branch.

  \<^bold>\<open>Loops and bounds.\<close> There is no fuel: the parser of values terminates by the length of the rest, the
  reassembly loops by the length of the buffer, the memory read by the remaining length, ring and
  line loops by their data. The drain of an RTT buffer is a partial function, because a corrupt
  descriptor makes the code loop; for well-formed ones it is proved to return. Sizes of the source
  (64 KiB of JSON, 100 KiB per listener, 512 byte chunks, 32 bit lengths) are kept.

  \<^bold>\<open>Not modelled.\<close> Code units above 255 and UTF-8 decoding; JSON and base64 texts, which are modelled by
  what they decode to; sockets, files, processes and timers, which are events and outcomes; logging.
  Of the partly modelled components: the configuration of the live GDB and its evaluation requests,
  the TCP transport and pre-decoder of RTT, host resolution of serial ports, the children of structured variables and the registers;
  of the debug session the start of GDB, the loading of symbols, response bodies other than
  frames and threads, and requests after the server was stopped; of the servers the search for installed tools, the polling of OpenOCD for RTT
  and the console. Whole components left out are symbols and disassembly, the launcher of the proxy, the front ends, telemetry
  and the native helper written in Rust.
\<close>

end
